(* ===== verification/Go_Prelude.thy ===== *)
theory Go_Prelude
  imports Main "HOL-Library.Word" "HOL-Library.AList"
begin

text \<open>
  Shared vocabulary of the development: how the Go types of the cache engine are read in
  HOL, the expiry tests that every cache repeats, and the generic lemmas on lists and
  association lists that the component theories use.

  Strings are \<open>string\<close>, byte slices are lists of 8-bit words, \<open>int64\<close> counters are 64-bit
  words (their addition wraps as Go's does), lengths, capacities and frequencies (\<open>int\<close>) are
  \<open>int\<close> or \<open>nat\<close>. A \<open>time.Time\<close> is \<open>Some t\<close> for \<open>t\<close> nanoseconds after the epoch and \<open>None\<close> for
  the zero time, the only use the caches make of it. A clock reading (\<open>time.Now()\<close>) is an
  argument of the operation that makes it. A pointer is \<open>None\<close> for \<open>nil\<close> or the address of an
  allocated node. A Go map is an association list with at most one pair per key: \<open>map_of\<close>
  reads it, \<open>AList.update\<close> stores, \<open>AList.delete\<close> deletes, \<open>length\<close> is \<open>len\<close>.
  The copies \<open>append([]byte(nil), v...)\<close> give \<open>nil\<close> exactly when \<open>v\<close> is empty, so a copied
  slice is \<open>nil\<close> iff its list is \<open>[]\<close>.
\<close>

named_theorems go_map \<open>facts on association lists read as Go maps\<close>
named_theorems list_seq \<open>facts on filtering node sequences\<close>

section \<open>Types\<close>

type_synonym key = string
type_synonym bytes = "8 word list"
type_synonym int64 = "64 word"
type_synonym instant = int
type_synonym duration = int
type_synonym error = string
type_synonym Time = "int option"
type_synonym addr = nat
type_synonym ptr = "nat option"
type_synonym ('k, 'v) gomap = "('k \<times> 'v) list"

abbreviation blen :: "bytes \<Rightarrow> int64" where
  "blen v \<equiv> word_of_nat (length v)"

section \<open>Expiry\<close>

text \<open>\<open>if ttl > 0 { expiresAt = now.Add(ttl) }\<close>\<close>

definition expiryOf :: "instant \<Rightarrow> duration \<Rightarrow> Time" where
  "expiryOf now ttl = (if ttl > 0 then Some (now + ttl) else None)"

text \<open>\<open>!e.IsZero() && now.After(e)\<close>, the test of \<open>Get\<close> and \<open>Peek\<close>\<close>

definition expired :: "instant \<Rightarrow> Time \<Rightarrow> bool" where
  "expired now e = (case e of None \<Rightarrow> False | Some t \<Rightarrow> now > t)"

text \<open>\<open>e.IsZero() || now.Before(e)\<close>, the test of \<open>Keys\<close>\<close>

definition unexpired :: "instant \<Rightarrow> Time \<Rightarrow> bool" where
  "unexpired now e = (case e of None \<Rightarrow> True | Some t \<Rightarrow> now < t)"

text \<open>The remaining lifetime in whole milliseconds that \<open>Snapshot\<close> reports, 0 when none.\<close>

definition remainingMs :: "instant \<Rightarrow> Time \<Rightarrow> int" where
  "remainingMs now e =
     (case e of None \<Rightarrow> 0
      | Some t \<Rightarrow> (let remaining = t - now in if remaining > 0 then remaining div 1000000 else 0))"

lemma expired_None [simp]: "\<not> expired now None"
  by (simp add: expired_def)

lemma expired_Some [simp]: "expired now (Some t) \<longleftrightarrow> t < now"
  by (simp add: expired_def)

lemma expired_expiryOf [simp]: "\<not> expired now (expiryOf now ttl)"
  by (simp add: expired_def expiryOf_def)

lemma unexpired_not_expired: "unexpired now e \<Longrightarrow> \<not> expired now e"
  by (cases e) (auto simp: unexpired_def)

section \<open>Association lists as Go maps\<close>

lemma AList_delete_filter: "AList.delete k m = filter (\<lambda>p. fst p \<noteq> k) m"
  unfolding AList.delete_eq by (induction m) auto

lemma distinct_keys_delete [go_map, simp]:
  "distinct (map fst m) \<Longrightarrow> distinct (map fst (AList.delete k m))"
  by (simp add: AList_delete_filter distinct_map_filter)

lemma set_delete [go_map]: "set (AList.delete k m) = {p \<in> set m. fst p \<noteq> k}"
  by (auto simp: AList_delete_filter)

lemma update_new [go_map]: "map_of m k = None \<Longrightarrow> AList.update k v m = m @ [(k, v)]"
  by (induction m) (auto split: if_splits)

lemma length_delete [go_map]:
  "distinct (map fst m) \<Longrightarrow> map_of m k = Some v \<Longrightarrow> Suc (length (AList.delete k m)) = length m"
proof (induction m)
  case Nil
  then show ?case by simp
next
  case (Cons p m)
  show ?case
  proof (cases "fst p = k")
    case True
    with Cons.prems have "k \<notin> fst ` set m" by auto
    with True show ?thesis by (simp add: AList_delete_filter) (metis (mono_tags, lifting) filter_True imageI)
  next
    case False
    with Cons show ?thesis by (auto simp: AList_delete_filter)
  qed
qed

lemma map_of_delete_upd [go_map]: "map_of (AList.delete k m) = (map_of m)(k := None)"
  by (rule AList.delete_conv')

lemma map_of_update_upd [go_map]: "map_of (AList.update k v m) = (map_of m)(k \<mapsto> v)"
  by (rule AList.update_conv')

section \<open>Lists\<close>

text \<open>Removing the one occurrence of an element from a distinct list is a filter.\<close>

lemma filter_split_distinct [list_seq]:
  "distinct (ys @ x # zs) \<Longrightarrow> filter (\<lambda>y. y \<noteq> x) (ys @ x # zs) = ys @ zs"
  by (auto intro!: arg_cong2 [where f = "(@)"] filter_True)

lemma filter_absent [simp]: "x \<notin> set xs \<Longrightarrow> filter (\<lambda>y. y \<noteq> x) xs = xs"
  by (auto intro: filter_True)

lemma length_filter_remove:
  "distinct xs \<Longrightarrow> x \<in> set xs \<Longrightarrow> Suc (length (filter (\<lambda>y. y \<noteq> x) xs)) = length xs"
  by (induction xs) auto

lemma sum_list_filter_remove:
  fixes f :: "'a \<Rightarrow> 'b::ab_group_add"
  assumes "distinct xs" and "x \<in> set xs"
  shows "sum_list (map f (filter (\<lambda>y. y \<noteq> x) xs)) = sum_list (map f xs) - f x"
  using assms
proof (induction xs)
  case Nil
  then show ?case by simp
next
  case (Cons a xs)
  show ?case
  proof (cases "a = x")
    case True
    with Cons.prems have "filter (\<lambda>y. y \<noteq> x) xs = xs" by (auto intro!: filter_True)
    with True show ?thesis by simp
  next
    case False
    with Cons show ?thesis by simp
  qed
qed

lemma map_filter_inj:
  "inj_on f (insert x (set xs)) \<Longrightarrow> map f (filter (\<lambda>y. y \<noteq> x) xs) = filter (\<lambda>y. y \<noteq> f x) (map f xs)"
  by (induction xs) (auto simp: inj_on_def)

end
