(* ===== verification/Cache_Stats.thy ===== *)
theory Cache_Stats
  imports Complex_Main Go_Prelude
begin

text \<open>
  internal/stats: the atomic counters of a cache (stats.go) and the 60-second rolling window
  (window.go). Counters are 64-bit words. The rates are exact quotients over the reals; the
  code rounds them to \<open>float64\<close>, which is not modelled.
\<close>

section \<open>Counters (stats.go)\<close>

record Stats =
  Hits :: int64
  Misses :: int64
  Sets :: int64
  Deletes :: int64
  Evictions :: int64
  TTLExpiries :: int64
  BytesStored :: int64
  WriteStoreOps :: int64
  ReadStoreOps :: int64

definition newStats :: Stats where
  "newStats = \<lparr>Hits = 0, Misses = 0, Sets = 0, Deletes = 0, Evictions = 0, TTLExpiries = 0,
     BytesStored = 0, WriteStoreOps = 0, ReadStoreOps = 0\<rparr>"

record StatsSnapshot =
  ssCounters :: Stats
  ssHitRate :: real
  ssMissRate :: real
  ssEvictionRate :: real
  ssTimestamp :: instant

definition HitRate :: "Stats \<Rightarrow> real" where
  "HitRate s = (let h = Hits s; m = Misses s in
     if h + m = 0 then 0 else of_int (sint h) / of_int (sint (h + m)))"

definition MissRate :: "Stats \<Rightarrow> real" where
  "MissRate s = (let h = Hits s; m = Misses s in
     if h + m = 0 then 0 else of_int (sint m) / of_int (sint (h + m)))"

definition EvictionRate :: "Stats \<Rightarrow> real" where
  "EvictionRate s = (let total = Hits s + Misses s in
     if total = 0 then 0 else of_int (sint (Evictions s)) / of_int (sint total))"

definition stats_Snapshot :: "instant \<Rightarrow> Stats \<Rightarrow> StatsSnapshot" where
  "stats_Snapshot now s = \<lparr>ssCounters = s, ssHitRate = HitRate s, ssMissRate = MissRate s,
     ssEvictionRate = EvictionRate s, ssTimestamp = now\<rparr>"

definition stats_Reset :: "Stats \<Rightarrow> Stats" where
  "stats_Reset s = s\<lparr>Hits := 0, Misses := 0, Sets := 0, Deletes := 0, Evictions := 0,
     TTLExpiries := 0, BytesStored := 0, WriteStoreOps := 0, ReadStoreOps := 0\<rparr>"

lemma stats_Reset_new: "stats_Reset s = newStats"
  by (simp add: stats_Reset_def newStats_def)

text \<open>
  As long as the two counters are not negative and their sum does not overflow, the rates are
  fractions that add up to one.
\<close>

lemma sint_add_no_overflow:
  fixes h m :: int64
  assumes "0 \<le> sint h" and "0 \<le> sint m" and "sint h + sint m < 2 ^ 63"
  shows "sint (h + m) = sint h + sint m"
  using assms by (simp add: sint_word_ariths signed_take_bit_int_eq_self)

section \<open>The rolling window (window.go)\<close>

record StatsBucket =
  sbTimestamp :: instant
  sbHits :: int64
  sbMisses :: int64
  sbEvictions :: int64

record WindowedStats =
  wsBuckets :: "StatsBucket list"
  wsHead :: nat

definition emptyBucket :: "instant \<Rightarrow> StatsBucket" where
  "emptyBucket t = \<lparr>sbTimestamp = t, sbHits = 0, sbMisses = 0, sbEvictions = 0\<rparr>"

definition NewWindowedStats :: "instant \<Rightarrow> WindowedStats" where
  "NewWindowedStats now = \<lparr>wsBuckets = replicate 60 (emptyBucket now), wsHead = 0\<rparr>"

text \<open>One tick of the background goroutine.\<close>

definition window_advance :: "instant \<Rightarrow> WindowedStats \<Rightarrow> WindowedStats" where
  "window_advance t w =
     (let head = (wsHead w + 1) mod 60
      in w\<lparr>wsHead := head, wsBuckets := (wsBuckets w)[head := emptyBucket t]\<rparr>)"

definition recordInBucket :: "bool \<Rightarrow> bool \<Rightarrow> StatsBucket \<Rightarrow> StatsBucket" where
  "recordInBucket hit eviction b =
     (let b1 = (if hit then b\<lparr>sbHits := sbHits b + 1\<rparr> else b\<lparr>sbMisses := sbMisses b + 1\<rparr>)
      in if eviction then b1\<lparr>sbEvictions := sbEvictions b1 + 1\<rparr> else b1)"

definition window_Record :: "bool \<Rightarrow> bool \<Rightarrow> WindowedStats \<Rightarrow> WindowedStats" where
  "window_Record hit eviction w =
     w\<lparr>wsBuckets := (wsBuckets w)
         [wsHead w := recordInBucket hit eviction (wsBuckets w ! wsHead w)]\<rparr>"

text \<open>\<open>Series\<close> panics on a negative length (\<open>make\<close>), here \<open>None\<close>.\<close>

definition window_Series :: "int \<Rightarrow> WindowedStats \<Rightarrow> StatsBucket list option" where
  "window_Series n0 w =
     (let n = (if n0 > 60 then 60 else n0)
      in if n < 0 then None
         else Some (map (\<lambda>i. wsBuckets w ! nat ((int (wsHead w) - n + 1 + int i + 60) mod 60))
                [0..<nat n]))"

subsection \<open>What the ring buffer stands for\<close>

text \<open>The last 60 buckets, newest first, and the two events on that history.\<close>

datatype windowEvent = Tick instant | Rec bool bool

fun window_step :: "WindowedStats \<Rightarrow> windowEvent \<Rightarrow> WindowedStats" where
  "window_step w (Tick t) = window_advance t w"
| "window_step w (Rec hit eviction) = window_Record hit eviction w"

fun history_step :: "StatsBucket list \<Rightarrow> windowEvent \<Rightarrow> StatsBucket list" where
  "history_step h (Tick t) = emptyBucket t # butlast h"
| "history_step h (Rec hit eviction) = recordInBucket hit eviction (hd h) # tl h"

definition window_wf :: "WindowedStats \<Rightarrow> bool" where
  "window_wf w \<longleftrightarrow> length (wsBuckets w) = 60 \<and> wsHead w < 60"

definition history :: "WindowedStats \<Rightarrow> StatsBucket list" where
  "history w = map (\<lambda>j. wsBuckets w ! ((wsHead w + 60 - j) mod 60)) [0..<60]"

lemma window_wf_new: "window_wf (NewWindowedStats now)"
  by (simp add: window_wf_def NewWindowedStats_def)

lemma window_wf_step: "window_wf w \<Longrightarrow> window_wf (window_step w e)"
  by (cases e) (auto simp: window_wf_def window_advance_def window_Record_def Let_def)

lemma length_history [simp]: "length (history w) = 60"
  by (simp add: history_def)

lemma history_nth: "j < 60 \<Longrightarrow> history w ! j = wsBuckets w ! ((wsHead w + 60 - j) mod 60)"
  by (simp add: history_def)

lemma history_new: "history (NewWindowedStats now) = replicate 60 (emptyBucket now)"
  by (rule nth_equalityI) (auto simp: history_nth NewWindowedStats_def)

lemma ring_mod:
  fixes h i :: nat
  assumes "h < 60" and "0 < i \<or> i \<le> h"
  shows "(h + 60 - i) mod 60 = (if i \<le> h then h - i else h + 60 - i)"
proof (cases "i \<le> h")
  case True
  then have "h + 60 - i = (h - i) + 60" by simp
  with True assms show ?thesis by (simp only: mod_add_self2) simp
next
  case False
  with assms show ?thesis by simp
qed

lemma ring_succ: "(h + 1) mod 60 = (if h = 59 then 0 else h + 1)" if "h < 60" for h :: nat
  using that by simp

lemma ring_index:
  fixes h i :: nat
  assumes h: "h < 60" and i: "i < 59"
  shows ring_index_shift: "((h + 1) mod 60 + 60 - Suc i) mod 60 = (h + 60 - i) mod 60"
    and ring_index_next: "(h + 60 - i) mod 60 \<noteq> (h + 1) mod 60"
    and ring_index_older: "(h + 60 - Suc i) mod 60 \<noteq> h"
proof -
  have a: "(h + 60 - i) mod 60 = (if i \<le> h then h - i else h + 60 - i)"
  proof (cases "i = 0")
    case True
    with h show ?thesis by (simp only: mod_add_self2 diff_zero) simp
  next
    case False
    then show ?thesis by (intro ring_mod [OF h]) simp
  qed
  have o: "(h + 60 - Suc i) mod 60 = (if Suc i \<le> h then h - Suc i else h + 60 - Suc i)"
    by (rule ring_mod [OF h]) simp
  show "((h + 1) mod 60 + 60 - Suc i) mod 60 = (h + 60 - i) mod 60"
  proof (cases "h = 59")
    case True
    have "(59 + 1) mod 60 + 60 - Suc i = 59 - i" by simp
    with True a i show ?thesis by (simp only: True) simp
  next
    case False
    then have "(h + 1) mod 60 + 60 - Suc i = h + 60 - i" using h i ring_succ [OF h] by simp
    then show ?thesis by (rule arg_cong)
  qed
  show "(h + 60 - i) mod 60 \<noteq> (h + 1) mod 60"
    unfolding a ring_succ [OF h] using h i by (simp split: if_splits) linarith
  show "(h + 60 - Suc i) mod 60 \<noteq> h"
    unfolding o using h i by (cases "Suc i \<le> h") auto
qed

lemma history_advance:
  assumes "window_wf w"
  shows "history (window_advance t w) = emptyBucket t # butlast (history w)"
proof (rule nth_equalityI)
  fix j assume "j < length (history (window_advance t w))"
  then have j: "j < 60" by simp
  have h: "wsHead w < 60" and b: "length (wsBuckets w) = 60"
    using assms by (auto simp: window_wf_def)
  show "history (window_advance t w) ! j = (emptyBucket t # butlast (history w)) ! j"
  proof (cases j)
    case 0
    with b show ?thesis by (simp add: history_nth window_advance_def Let_def)
  next
    case (Suc i)
    have "i < 59" using j Suc by simp
    note idx = ring_index [OF h this]
    show ?thesis
      using j Suc idx by (simp add: history_nth window_advance_def Let_def nth_butlast del: Suc_diff_le)
  qed
qed simp

lemma history_record:
  assumes "window_wf w"
  shows "history (window_Record hit ev w) = recordInBucket hit ev (hd (history w)) # tl (history w)"
proof (rule nth_equalityI)
  fix j assume "j < length (history (window_Record hit ev w))"
  then have j: "j < 60" by simp
  have h: "wsHead w < 60" and b: "length (wsBuckets w) = 60"
    using assms by (auto simp: window_wf_def)
  have hd: "hd (history w) = wsBuckets w ! wsHead w"
    using h by (simp add: hd_conv_nth history_nth flip: length_greater_0_conv)
  show "history (window_Record hit ev w) ! j =
      (recordInBucket hit ev (hd (history w)) # tl (history w)) ! j"
  proof (cases j)
    case 0
    with b h hd show ?thesis by (simp add: history_nth window_Record_def)
  next
    case (Suc i)
    have "i < 59" using j Suc by simp
    note idx = ring_index_older [OF h this]
    with j Suc show ?thesis by (simp add: history_nth window_Record_def nth_tl)
  qed
qed simp

lemma history_step: "window_wf w \<Longrightarrow> history (window_step w e) = history_step (history w) e"
  by (cases e) (simp_all add: history_advance history_record)

lemma window_run:
  "window_wf w \<Longrightarrow> window_wf (foldl window_step w es) \<and>
   history (foldl window_step w es) = foldl history_step (history w) es"
  by (induction es arbitrary: w) (auto simp: window_wf_step history_step)

lemma Series_history:
  assumes w: "window_wf w" and n: "0 \<le> n"
  shows "window_Series n w = Some (rev (take (nat n) (history w)))"
proof -
  define m where "m = (if n > 60 then 60 else nat n)"
  have m: "m \<le> 60" "(if n > 60 then 60 else n) = int m" using n by (auto simp: m_def)
  have "map (\<lambda>i. wsBuckets w ! nat ((int (wsHead w) - int m + 1 + int i + 60) mod 60)) [0..<m]
      = rev (take m (history w))"
  proof (rule nth_equalityI)
    fix i
    assume "i < length (map (\<lambda>i. wsBuckets w !
        nat ((int (wsHead w) - int m + 1 + int i + 60) mod 60)) [0..<m])"
    then have i: "i < m" by simp
    have "int (wsHead w) - int m + 1 + int i + 60 = int (wsHead w + 60 - (m - Suc i))"
      using i m by (simp add: of_nat_diff)
    then have "nat ((int (wsHead w) - int m + 1 + int i + 60) mod 60) = (wsHead w + 60 - (m - Suc i)) mod 60"
      by (metis nat_int of_nat_numeral zmod_int)
    with i m show "map (\<lambda>i. wsBuckets w !
        nat ((int (wsHead w) - int m + 1 + int i + 60) mod 60)) [0..<m] ! i
      = rev (take m (history w)) ! i"
      by (simp add: rev_nth history_nth)
  qed (use m in simp)
  moreover have "take (nat n) (history w) = take m (history w)"
    using n by (auto simp: m_def)
  ultimately show ?thesis using m n by (simp add: window_Series_def Let_def)
qed

section \<open>Properties\<close>

text \<open>
  C40: the ring buffer of the rolling window is a history: after any sequence of ticks and
  records, \<open>Series(n)\<close> returns the last \<open>n\<close> buckets (at most 60), oldest first, each with the
  operations recorded between its tick and the next; a negative \<open>n\<close> panics.
\<close>

theorem window_series_is_history:
  "window_Series n (foldl window_step (NewWindowedStats now) es) =
     (if n < 0 then None
      else Some (rev (take (nat n) (foldl history_step (replicate 60 (emptyBucket now)) es))))"
proof (cases "n < 0")
  case True
  then show ?thesis by (simp add: window_Series_def)
next
  case False
  with Series_history [OF window_run [OF window_wf_new, THEN conjunct1], of n now es]
    window_run [OF window_wf_new, of now es]
  show ?thesis by (simp add: history_new)
qed

text \<open>
  as long as hits and misses have not overflowed, the hit rate and the miss rate of a
  snapshot are fractions that add up to one.
\<close>

theorem rates_add_up:
  assumes "0 \<le> sint (Hits s)" and "0 \<le> sint (Misses s)" and "sint (Hits s) + sint (Misses s) < 2 ^ 63"
    and "Hits s + Misses s \<noteq> 0"
  shows "ssHitRate (stats_Snapshot now s) + ssMissRate (stats_Snapshot now s) = 1 \<and>
    0 \<le> ssHitRate (stats_Snapshot now s) \<and> ssHitRate (stats_Snapshot now s) \<le> 1"
proof -
  note a = sint_add_no_overflow [OF assms(1-3)]
  have "sint (Hits s + Misses s) \<noteq> 0" using assms(4) by (simp add: signed_eq_0_iff)
  with a assms(1,2) have "0 < sint (Hits s) + sint (Misses s)" by linarith
  then obtain h m where hm: "h = sint (Hits s)" "m = sint (Misses s)" "0 < h + m" "0 \<le> h" "0 \<le> m"
    using assms(1,2) by blast
  have r: "HitRate s = real_of_int h / real_of_int (h + m)" "MissRate s = real_of_int m / real_of_int (h + m)"
    by (simp_all only: HitRate_def MissRate_def Let_def assms(4) if_False a hm(1,2))
  have "real_of_int h / real_of_int (h + m) + real_of_int m / real_of_int (h + m) = 1"
    "0 \<le> real_of_int h / real_of_int (h + m)" "real_of_int h / real_of_int (h + m) \<le> 1"
    using hm(3-5) by (simp_all add: add_divide_distrib [symmetric] divide_le_eq_1 del: of_int_add)
  with r show ?thesis by (simp add: stats_Snapshot_def)
qed

lemma rates_add_up_witness:
  "ssHitRate (stats_Snapshot 0 (newStats\<lparr>Hits := 3, Misses := 1\<rparr>)) +
     ssMissRate (stats_Snapshot 0 (newStats\<lparr>Hits := 3, Misses := 1\<rparr>)) = 1 \<and>
   0 \<le> ssHitRate (stats_Snapshot 0 (newStats\<lparr>Hits := 3, Misses := 1\<rparr>)) \<and>
   ssHitRate (stats_Snapshot 0 (newStats\<lparr>Hits := 3, Misses := 1\<rparr>)) \<le> 1"
  by (rule rates_add_up) (simp_all add: newStats_def)

end
