(* ===== verification/Cache_Types.thy ===== *)
theory Cache_Types
  imports Cache_Stats
begin

text \<open>
  internal/cache/cache.go: the entry and snapshot types, and the \<open>Cache\<close> interface as a
  method table (a Go interface value is a table of methods and a receiver; the receiver's
  state is the type parameter). An operation takes the clock readings it makes, returns what
  the method returns together with the new state, and \<open>Set\<close> also returns the calls of the
  registered eviction callback it made, in order. Methods that walk a linked structure return
  \<open>None\<close> when the walk would not end.

  The second part is the contract that all implementations share: \<open>live\<close> is the map of the
  values held, and the laws say what every method does to it. Clients of a cache (the sharded
  wrapper, the write policies) are proved against the contract; LRU, LFU and ARC are its
  interpretations.
\<close>

section \<open>Types of cache.go\<close>

record Entry =
  enKey :: key
  enValue :: bytes
  enExpiresAt :: Time
  enTTLMs :: int
  enFreq :: int
  enCreatedAt :: instant
  enHitCount :: int64
  enSizeBytes :: int
  enList :: string
  enPosition :: int

record SnapshotResult =
  srPolicy :: string
  srEntries :: "Entry list"
  srGhostEntries :: "Entry list"
  srArcP :: int
  srListSizes :: "(string \<times> int) list"
  srCapacity :: int
  srTruncated :: bool

type_synonym evictCall = "key \<times> bytes"

record 'c Cache =
  mGet :: "instant \<Rightarrow> key \<Rightarrow> 'c \<Rightarrow> bytes option \<times> 'c"
  mSet :: "instant \<Rightarrow> key \<Rightarrow> bytes \<Rightarrow> duration \<Rightarrow> 'c \<Rightarrow> error option \<times> evictCall list \<times> 'c"
  mDelete :: "key \<Rightarrow> 'c \<Rightarrow> bool \<times> 'c"
  mPeek :: "instant \<Rightarrow> key \<Rightarrow> 'c \<Rightarrow> bytes option \<times> 'c"
  mKeys :: "instant \<Rightarrow> 'c \<Rightarrow> key list option"
  mLen :: "'c \<Rightarrow> int"
  mCapacity :: "'c \<Rightarrow> int"
  mStats :: "'c \<Rightarrow> Stats"
  mUpdStats :: "(Stats \<Rightarrow> Stats) \<Rightarrow> 'c \<Rightarrow> 'c"
  mSnapshot :: "instant \<Rightarrow> 'c \<Rightarrow> SnapshotResult option"
  mPurge :: "'c \<Rightarrow> 'c"
  mSetEvictionCallback :: "bool \<Rightarrow> 'c \<Rightarrow> 'c"

text \<open>
  \<open>mUpdStats\<close> is an update through the pointer that \<open>Stats()\<close> returns, as the write policies
  make it (\<open>inner.Stats().WriteStoreOps.Add(1)\<close>). \<open>Close\<close> is a no-op in every cache.
\<close>

section \<open>Entries held by a cache\<close>

text \<open>
  What the caches store per key, without the pointers that order the entries. The abstract
  states of LRU, LFU and ARC are lists of items, most recently used first; LFU adds a
  frequency to each item.
\<close>

record item =
  itKey :: key
  itValue :: bytes
  itExpires :: Time
  itCreated :: instant
  itHits :: int64

definition find_item :: "key \<Rightarrow> ('a item_scheme) list \<Rightarrow> ('a item_scheme) option" where
  "find_item k es = List.find (\<lambda>e. itKey e = k) es"

definition drop_item :: "key \<Rightarrow> ('a item_scheme) list \<Rightarrow> ('a item_scheme) list" where
  "drop_item k es = filter (\<lambda>e. itKey e \<noteq> k) es"

definition bytes_of :: "('a item_scheme) list \<Rightarrow> int64" where
  "bytes_of es = sum_list (map (\<lambda>e. blen (itValue e)) es)"

definition keys_of :: "('a item_scheme) list \<Rightarrow> key list" where
  "keys_of es = map itKey es"

definition live_of :: "('a item_scheme) list \<Rightarrow> key \<rightharpoonup> bytes \<times> Time" where
  "live_of es k = map_option (\<lambda>e. (itValue e, itExpires e)) (find_item k es)"

lemma find_item_Nil [simp]: "find_item k [] = None"
  by (simp add: find_item_def)

lemma find_item_Cons [simp]:
  "find_item k (e # es) = (if itKey e = k then Some e else find_item k es)"
  by (simp add: find_item_def)

lemma find_item_None: "find_item k es = None \<longleftrightarrow> k \<notin> set (keys_of es)"
  by (induction es) (auto simp: keys_of_def)

lemma find_item_Some: "find_item k es = Some e \<Longrightarrow> e \<in> set es \<and> itKey e = k"
  by (induction es) (auto split: if_splits)

lemma find_item_append:
  "find_item k (xs @ ys) = (case find_item k xs of None \<Rightarrow> find_item k ys | Some e \<Rightarrow> Some e)"
  by (induction xs) auto

lemma find_item_mem:
  "distinct (keys_of es) \<Longrightarrow> e \<in> set es \<Longrightarrow> find_item (itKey e) es = Some e"
  by (induction es) (auto simp: keys_of_def)

lemma drop_item_simps [simp]:
  "drop_item k [] = []"
  "drop_item k (e # es) = (if itKey e = k then drop_item k es else e # drop_item k es)"
  by (simp_all add: drop_item_def)

lemma find_drop_item: "find_item k' (drop_item k es) = (if k' = k then None else find_item k' es)"
  by (induction es) auto

lemma keys_of_simps [simp]:
  "keys_of [] = []" "keys_of (e # es) = itKey e # keys_of es"
  "keys_of (xs @ ys) = keys_of xs @ keys_of ys"
  by (simp_all add: keys_of_def)

lemma length_keys_of [simp]: "length (keys_of es) = length es"
  by (simp add: keys_of_def)

lemma keys_of_drop: "keys_of (drop_item k es) = filter (\<lambda>k'. k' \<noteq> k) (keys_of es)"
  by (induction es) auto

lemma distinct_keys_drop [simp]: "distinct (keys_of es) \<Longrightarrow> distinct (keys_of (drop_item k es))"
  by (simp add: keys_of_drop)

lemma set_drop_item [simp]: "set (drop_item k es) = {e \<in> set es. itKey e \<noteq> k}"
  by (auto simp: drop_item_def)

lemma drop_item_absent [simp]: "k \<notin> set (keys_of es) \<Longrightarrow> drop_item k es = es"
  by (induction es) auto

lemma drop_item_append [simp]: "drop_item k (xs @ ys) = drop_item k xs @ drop_item k ys"
  by (simp add: drop_item_def)

lemma length_drop_item:
  "distinct (keys_of es) \<Longrightarrow> find_item k es = Some e \<Longrightarrow> Suc (length (drop_item k es)) = length es"
  by (induction es) auto

lemma length_drop_item_le: "length (drop_item k es) \<le> length es"
  by (simp add: drop_item_def)

lemma bytes_of_simps [simp]:
  "bytes_of [] = 0" "bytes_of (e # es) = blen (itValue e) + bytes_of es"
  "bytes_of (xs @ ys) = bytes_of xs + bytes_of ys"
  by (simp_all add: bytes_of_def)

lemma bytes_of_drop:
  "distinct (keys_of es) \<Longrightarrow> find_item k es = Some e \<Longrightarrow>
   bytes_of (drop_item k es) = bytes_of es - blen (itValue e)"
  by (induction es) auto

lemma live_of_simps [simp]:
  "live_of [] k = None"
  "live_of (e # es) k = (if itKey e = k then Some (itValue e, itExpires e) else live_of es k)"
  by (simp_all add: live_of_def)

lemma live_of_drop: "live_of (drop_item k es) = (live_of es)(k := None)"
  by (auto simp: live_of_def find_drop_item fun_eq_iff)

lemma live_of_append: "live_of (xs @ ys) = live_of ys ++ live_of xs"
  by (auto simp: live_of_def find_item_append map_add_def fun_eq_iff split: option.splits)

lemma live_of_None: "live_of es k = None \<longleftrightarrow> k \<notin> set (keys_of es)"
  by (simp add: live_of_def find_item_None)

lemma dom_live_of: "dom (live_of es) = set (keys_of es)"
proof -
  have "k \<in> dom (live_of es) \<longleftrightarrow> k \<in> set (keys_of es)" for k
    using live_of_None [of es k] by (simp add: domIff)
  then show ?thesis by blast
qed

lemma card_dom_live: "distinct (keys_of es) \<Longrightarrow> card (dom (live_of es)) = length es"
  by (simp add: dom_live_of distinct_card)

lemma find_drop_length:
  assumes "find_item k es = Some e"
  shows "length (drop_item k es) < length es"
  using assms length_filter_less [of e es "\<lambda>e. itKey e \<noteq> k"] find_item_Some [OF assms]
  by (simp add: drop_item_def)

lemma live_of_find:
  "find_item k es = None \<Longrightarrow> live_of es k = None"
  "find_item k es = Some e \<Longrightarrow> live_of es k = Some (itValue e, itExpires e)"
  by (simp_all add: live_of_def)

lemma live_of_move:
  "find_item k es = Some e \<Longrightarrow> itKey e' = k \<Longrightarrow>
   live_of (e' # drop_item k es) = (live_of es)(k \<mapsto> (itValue e', itExpires e'))"
  by (auto simp: fun_eq_iff live_of_drop)

lemma live_of_keys:
  "distinct (keys_of es) \<Longrightarrow>
   set (keys_of (filter (\<lambda>e. unexpired now (itExpires e)) es)) =
     {k. \<exists>v e. live_of es k = Some (v, e) \<and> unexpired now e}"
  by (induction es) (auto simp: live_of_None keys_of_def)

section \<open>The contract\<close>

text \<open>What a lookup at time \<open>now\<close> returns from a held value, and what stays held.\<close>

definition look :: "instant \<Rightarrow> (bytes \<times> Time) option \<Rightarrow> bytes option" where
  "look now x = (case x of None \<Rightarrow> None | Some (v, e) \<Rightarrow> if expired now e then None else Some v)"

definition keep :: "instant \<Rightarrow> (bytes \<times> Time) option \<Rightarrow> (bytes \<times> Time) option" where
  "keep now x = (case x of None \<Rightarrow> None | Some (v, e) \<Rightarrow> if expired now e then None else Some (v, e))"

lemma look_simps [simp]:
  "look now None = None"
  "look now (Some (v, e)) = (if expired now e then None else Some v)"
  by (simp_all add: look_def)

lemma keep_simps [simp]:
  "keep now None = None"
  "keep now (Some (v, e)) = (if expired now e then None else Some (v, e))"
  by (simp_all add: keep_def)

lemma keep_le: "keep now x = Some y \<Longrightarrow> x = Some y"
  by (auto simp: keep_def split: option.splits if_splits)

lemma keep_map_le: "f \<subseteq>\<^sub>m m \<Longrightarrow> f(k := keep now (f k)) \<subseteq>\<^sub>m m"
proof (rule map_le_trans)
  show "f(k := keep now (f k)) \<subseteq>\<^sub>m f"
  proof (cases "keep now (f k)")
    case None
    then show ?thesis by (simp add: map_le_def)
  next
    case (Some y)
    with keep_le [OF Some] show ?thesis by (simp add: fun_upd_idem)
  qed
qed

lemma map_le_set: "f \<subseteq>\<^sub>m m \<Longrightarrow> g k = Some x \<Longrightarrow>
    (\<And>k'. k' \<noteq> k \<Longrightarrow> g k' = f k' \<or> g k' = None) \<Longrightarrow> g \<subseteq>\<^sub>m m(k \<mapsto> x)"
  unfolding map_le_def by (metis domIff fun_upd_apply)

text \<open>
  The operations of a cache that change it, one of them executed through the method table, a
  run of them, and what a run shows from outside: each result with the length and the
  counters after it.
\<close>

datatype cacheOp =
    OpGet instant key
  | OpSet instant key bytes duration
  | OpDelete key
  | OpPeek instant key
  | OpPurge
  | OpCallback bool

datatype cacheRes = ResBytes "bytes option" | ResSet "error option" "evictCall list" | ResBool bool | ResNone

fun cache_exec :: "'c Cache \<Rightarrow> cacheOp \<Rightarrow> 'c \<Rightarrow> cacheRes \<times> 'c" where
  "cache_exec M (OpGet now k) c = (let (r, c') = mGet M now k c in (ResBytes r, c'))"
| "cache_exec M (OpSet now k v ttl) c =
     (let (err, evs, c') = mSet M now k v ttl c in (ResSet err evs, c'))"
| "cache_exec M (OpDelete k) c = (let (r, c') = mDelete M k c in (ResBool r, c'))"
| "cache_exec M (OpPeek now k) c = (let (r, c') = mPeek M now k c in (ResBytes r, c'))"
| "cache_exec M OpPurge c = (ResNone, mPurge M c)"
| "cache_exec M (OpCallback b) c = (ResNone, mSetEvictionCallback M b c)"

definition cache_step :: "'c Cache \<Rightarrow> 'c \<Rightarrow> cacheOp \<Rightarrow> 'c" where
  "cache_step M c x = snd (cache_exec M x c)"

fun cache_trace :: "'c Cache \<Rightarrow> 'c \<Rightarrow> cacheOp list \<Rightarrow> (cacheRes \<times> int \<times> Stats) list" where
  "cache_trace M c [] = []"
| "cache_trace M c (x # xs) =
     (let (r, c') = cache_exec M x c in (r, mLen M c', mStats M c') # cache_trace M c' xs)"

text \<open>What every operation keeps holds after any run.\<close>

lemma cache_run_invariant:
  assumes "P c"
    and "\<And>c now k r c'. P c \<Longrightarrow> mGet M now k c = (r, c') \<Longrightarrow> P c'"
    and "\<And>c now k r c'. P c \<Longrightarrow> mPeek M now k c = (r, c') \<Longrightarrow> P c'"
    and "\<And>c now k v ttl err evs c'. P c \<Longrightarrow> mSet M now k v ttl c = (err, evs, c') \<Longrightarrow> P c'"
    and "\<And>c k r c'. P c \<Longrightarrow> mDelete M k c = (r, c') \<Longrightarrow> P c'"
    and "\<And>c. P c \<Longrightarrow> P (mPurge M c)"
    and "\<And>c b. P c \<Longrightarrow> P (mSetEvictionCallback M b c)"
  shows "P (foldl (cache_step M) c xs)"
  using assms(1)
proof (induction xs arbitrary: c)
  case Nil
  then show ?case by simp
next
  case (Cons x xs)
  have "P (cache_step M c x)"
    using Cons.prems by (cases x) (auto simp: cache_step_def split: prod.splits intro: assms(2-7))
  with Cons.IH show ?case by simp
qed

text \<open>
  One implementation refines another: a relation that every operation keeps, with the same
  results, lengths and counters. Then the two are indistinguishable along any run.
\<close>

locale cache_refines =
  fixes C :: "'c Cache" and A :: "'a Cache" and R :: "'c \<Rightarrow> 'a \<Rightarrow> bool"
  assumes get_sim: "R c a \<Longrightarrow> mGet C now k c = (r, c') \<Longrightarrow> \<exists>a'. mGet A now k a = (r, a') \<and> R c' a'"
    and peek_sim: "R c a \<Longrightarrow> mPeek C now k c = (r, c') \<Longrightarrow> \<exists>a'. mPeek A now k a = (r, a') \<and> R c' a'"
    and set_sim: "R c a \<Longrightarrow> mSet C now k v ttl c = (err, evs, c') \<Longrightarrow>
      \<exists>a'. mSet A now k v ttl a = (err, evs, a') \<and> R c' a'"
    and delete_sim: "R c a \<Longrightarrow> mDelete C k c = (found, c') \<Longrightarrow>
      \<exists>a'. mDelete A k a = (found, a') \<and> R c' a'"
    and purge_sim: "R c a \<Longrightarrow> R (mPurge C c) (mPurge A a)"
    and callback_sim: "R c a \<Longrightarrow> R (mSetEvictionCallback C b c) (mSetEvictionCallback A b a)"
    and len_sim: "R c a \<Longrightarrow> mLen C c = mLen A a"
    and stats_sim: "R c a \<Longrightarrow> mStats C c = mStats A a"
begin

lemma exec_sim:
  assumes R: "R c a" and x: "cache_exec C x c = (r, c')"
  shows "\<exists>a'. cache_exec A x a = (r, a') \<and> R c' a'"
proof (cases x)
  case (OpGet now k)
  with x obtain r' where "mGet C now k c = (r', c')" "r = ResBytes r'" by (auto split: prod.splits)
  with get_sim [OF R] OpGet show ?thesis by fastforce
next
  case (OpPeek now k)
  with x obtain r' where "mPeek C now k c = (r', c')" "r = ResBytes r'" by (auto split: prod.splits)
  with peek_sim [OF R] OpPeek show ?thesis by fastforce
next
  case (OpSet now k v ttl)
  with x obtain err evs where "mSet C now k v ttl c = (err, evs, c')" "r = ResSet err evs"
    by (auto split: prod.splits)
  with set_sim [OF R] OpSet show ?thesis by fastforce
next
  case (OpDelete k)
  with x obtain f where "mDelete C k c = (f, c')" "r = ResBool f" by (auto split: prod.splits)
  with delete_sim [OF R] OpDelete show ?thesis by fastforce
next
  case OpPurge
  with x purge_sim [OF R] show ?thesis by auto
next
  case (OpCallback b)
  with x callback_sim [OF R, of b] show ?thesis by auto
qed

lemma trace_eq: "R c a \<Longrightarrow> cache_trace C c xs = cache_trace A a xs"
proof (induction xs arbitrary: c a)
  case Nil
  then show ?case by simp
next
  case (Cons x xs)
  obtain r c' where x: "cache_exec C x c = (r, c')" by (cases "cache_exec C x c")
  with exec_sim [OF Cons.prems] obtain a' where "cache_exec A x a = (r, a')" "R c' a'" by blast
  with x Cons.IH [of c' a'] len_sim stats_sim show ?case by simp
qed

lemma run_sim: "R c a \<Longrightarrow> R (foldl (cache_step C) c xs) (foldl (cache_step A) a xs)"
proof (induction xs arbitrary: c a)
  case Nil
  then show ?case by simp
next
  case (Cons x xs)
  obtain r c' where x: "cache_exec C x c = (r, c')" by (cases "cache_exec C x c")
  with exec_sim [OF Cons.prems] obtain a' where "cache_exec A x a = (r, a')" "R c' a'" by blast
  with x Cons.IH [of c' a'] show ?case by (simp add: cache_step_def)
qed

end

text \<open>
  What a plain map would hold after the operations: the latest \<open>Set\<close> of each key that no
  \<open>Delete\<close> or \<open>Purge\<close> has followed.
\<close>

fun latest_step :: "(key \<rightharpoonup> bytes \<times> Time) \<Rightarrow> cacheOp \<Rightarrow> (key \<rightharpoonup> bytes \<times> Time)" where
  "latest_step m (OpGet now k) = m"
| "latest_step m (OpSet now k v ttl) = m(k \<mapsto> (v, expiryOf now ttl))"
| "latest_step m (OpDelete k) = m(k := None)"
| "latest_step m (OpPeek now k) = m"
| "latest_step m OpPurge = Map.empty"
| "latest_step m (OpCallback b) = m"

locale cache_contract =
  fixes M :: "'c Cache"
    and inv :: "'c \<Rightarrow> bool"
    and live :: "'c \<Rightarrow> key \<rightharpoonup> bytes \<times> Time"
  assumes get_law: "inv c \<Longrightarrow> mGet M now k c = (r, c') \<Longrightarrow>
      inv c' \<and> r = look now (live c k) \<and> live c' = (live c)(k := keep now (live c k))"
    and peek_law: "inv c \<Longrightarrow> mPeek M now k c = (r, c') \<Longrightarrow>
      inv c' \<and> r = look now (live c k) \<and> live c' = (live c)(k := keep now (live c k))"
    and set_law: "inv c \<Longrightarrow> mSet M now k v ttl c = (err, evs, c') \<Longrightarrow>
      inv c' \<and> err = None \<and> live c' k = Some (v, expiryOf now ttl) \<and>
      (\<forall>k'. k' \<noteq> k \<longrightarrow> live c' k' = live c k' \<or> live c' k' = None) \<and>
      (\<forall>(k', v') \<in> set evs. k' \<noteq> k \<and> live c' k' = None \<and> (\<exists>e. live c k' = Some (v', e)))"
    and delete_law: "inv c \<Longrightarrow> mDelete M k c = (found, c') \<Longrightarrow>
      inv c' \<and> live c' = (live c)(k := None) \<and> (live c k \<noteq> None \<longrightarrow> found)"
    and purge_law: "inv c \<Longrightarrow> inv (mPurge M c) \<and> live (mPurge M c) = Map.empty"
    and keys_law: "inv c \<Longrightarrow> \<exists>ks. mKeys M now c = Some ks \<and> distinct ks \<and>
      set ks = {k. \<exists>v e. live c k = Some (v, e) \<and> unexpired now e}"
    and len_law: "inv c \<Longrightarrow> finite (dom (live c)) \<and> mLen M c = int (card (dom (live c)))"
    and updstats_law: "inv c \<Longrightarrow> inv (mUpdStats M f c) \<and> live (mUpdStats M f c) = live c"
    and callback_law: "inv c \<Longrightarrow>
      inv (mSetEvictionCallback M b c) \<and> live (mSetEvictionCallback M b c) = live c"
begin

lemma step_ok:
  assumes c: "inv c"
  shows "inv (cache_step M c x) \<and> (live c \<subseteq>\<^sub>m m \<longrightarrow> live (cache_step M c x) \<subseteq>\<^sub>m latest_step m x)"
proof (cases x)
  case (OpGet now k)
  obtain r c' where g: "mGet M now k c = (r, c')" by (cases "mGet M now k c")
  show ?thesis using get_law [OF c g] g OpGet by (auto simp: cache_step_def intro: keep_map_le)
next
  case (OpPeek now k)
  obtain r c' where g: "mPeek M now k c = (r, c')" by (cases "mPeek M now k c")
  show ?thesis using peek_law [OF c g] g OpPeek by (auto simp: cache_step_def intro: keep_map_le)
next
  case (OpSet now k v ttl)
  obtain err evs c' where g: "mSet M now k v ttl c = (err, evs, c')" by (cases "mSet M now k v ttl c")
  note s = set_law [OF c g]
  note s1 = s [THEN conjunct1]
    and s2 = s [THEN conjunct2, THEN conjunct2, THEN conjunct1]
    and s3 = s [THEN conjunct2, THEN conjunct2, THEN conjunct2, THEN conjunct1]
  have "live c \<subseteq>\<^sub>m m \<longrightarrow> live c' \<subseteq>\<^sub>m m(k \<mapsto> (v, expiryOf now ttl))"
    by (intro impI map_le_set [of "live c"] s2) (use s3 in simp_all)
  with s1 g OpSet show ?thesis by (simp add: cache_step_def)
next
  case (OpDelete k)
  obtain r c' where g: "mDelete M k c = (r, c')" by (cases "mDelete M k c")
  show ?thesis using delete_law [OF c g] g OpDelete map_le_upd [of "live c" m k None]
    by (simp add: cache_step_def)
next
  case OpPurge
  show ?thesis using purge_law [OF c] OpPurge by (simp add: cache_step_def)
next
  case (OpCallback b)
  show ?thesis using callback_law [OF c] OpCallback by (simp add: cache_step_def)
qed

lemma run_latest:
  "inv c \<Longrightarrow> live c \<subseteq>\<^sub>m m \<Longrightarrow>
   inv (foldl (cache_step M) c xs) \<and> live (foldl (cache_step M) c xs) \<subseteq>\<^sub>m foldl latest_step m xs"
proof (induction xs arbitrary: c m)
  case Nil
  then show ?case by simp
next
  case (Cons x xs)
  from step_ok [OF Cons.prems(1), of x m] Cons.prems(2)
  have "inv (cache_step M c x)" and "live (cache_step M c x) \<subseteq>\<^sub>m latest_step m x" by auto
  from Cons.IH [OF this] show ?case by simp
qed

text \<open>A hit returns the value of the latest \<open>Set\<close>, and it has not expired.\<close>

lemma get_latest:
  assumes "inv c" and "live c \<subseteq>\<^sub>m Map.empty"
    and "fst (mGet M now k (foldl (cache_step M) c xs)) = Some v"
  shows "\<exists>e. foldl latest_step Map.empty xs k = Some (v, e) \<and> \<not> expired now e"
proof -
  let ?c = "foldl (cache_step M) c xs"
  have i: "inv ?c" and l: "live ?c \<subseteq>\<^sub>m foldl latest_step Map.empty xs"
    using run_latest [OF assms(1,2)] by auto
  obtain r c' where g: "mGet M now k ?c = (r, c')" by (cases "mGet M now k ?c")
  with get_law [OF i g] assms(3) obtain e where "live ?c k = Some (v, e)" "\<not> expired now e"
    by (auto simp: look_def split: option.splits if_splits)
  with l show ?thesis by (auto simp: map_le_def dom_def)
qed

text \<open>A value just set is read back until it expires or the key is evicted or deleted.\<close>

lemma get_set:
  assumes "inv c" and s: "mSet M now k v ttl c = (err, evs, c')"
  shows "fst (mGet M now' k c') = (if expired now' (expiryOf now ttl) then None else Some v)"
proof -
  obtain r c'' where g: "mGet M now' k c' = (r, c'')" by (cases "mGet M now' k c'")
  have "inv c'" and "live c' k = Some (v, expiryOf now ttl)" using set_law [OF assms] by auto
  with get_law [OF _ g] g show ?thesis by simp
qed

lemma get_delete:
  assumes "inv c" and "mDelete M k c = (r, c')"
  shows "fst (mGet M now k c') = None"
proof -
  obtain r' c'' where g: "mGet M now k c' = (r', c'')" by (cases "mGet M now k c'")
  have "inv c'" and "live c' k = None" using delete_law [OF assms] by auto
  with get_law [OF _ g] g show ?thesis by simp
qed

end

text \<open>A cache that keeps within its capacity: LRU, LFU and ARC, not the sharded wrapper.\<close>

locale bounded_cache = cache_contract +
  assumes bound_law: "inv c \<Longrightarrow> mLen M c \<le> mCapacity M c"
begin

lemma run_bound: "inv c \<Longrightarrow> mLen M (foldl (cache_step M) c xs) \<le> mCapacity M (foldl (cache_step M) c xs)"
  using run_latest [of c "live c"] by (intro bound_law) simp

end

text \<open>
  A cache whose evictions are all reported to the registered callback. LRU and LFU satisfy
  this law; ARC does not.
\<close>

locale reporting_cache = cache_contract +
  fixes reports :: "'a \<Rightarrow> bool"
  assumes reports_on: "inv c \<Longrightarrow> reports (mSetEvictionCallback M True c)"
    and reports_get: "inv c \<Longrightarrow> reports c \<Longrightarrow> mGet M now k c = (r, c') \<Longrightarrow> reports c'"
    and reports_peek: "inv c \<Longrightarrow> reports c \<Longrightarrow> mPeek M now k c = (r, c') \<Longrightarrow> reports c'"
    and reports_set: "inv c \<Longrightarrow> reports c \<Longrightarrow> mSet M now k v ttl c = (err, evs, c') \<Longrightarrow> reports c'"
    and reports_delete: "inv c \<Longrightarrow> reports c \<Longrightarrow> mDelete M k c = (found, c') \<Longrightarrow> reports c'"
    and reports_purge: "inv c \<Longrightarrow> reports c \<Longrightarrow> reports (mPurge M c)"
    and reports_updstats: "inv c \<Longrightarrow> reports c \<Longrightarrow> reports (mUpdStats M f c)"
    and report_law: "inv c \<Longrightarrow> reports c \<Longrightarrow> mSet M now k v ttl c = (err, evs, c') \<Longrightarrow>
      k' \<noteq> k \<Longrightarrow> live c k' = Some (v', e) \<Longrightarrow> live c' k' = None \<Longrightarrow> (k', v') \<in> set evs"

text \<open>
  An implementation of an abstract machine inherits its contract: it refines the machine
  through a relation \<open>R\<close> and agrees with it on the values held, the set of keys, the capacity and
  outside updates of the counters.
\<close>

locale cache_implements =
  cache_refines C A R + spec: bounded_cache A inv live
  for C :: "'c Cache" and A :: "'a Cache" and R :: "'c \<Rightarrow> 'a \<Rightarrow> bool"
    and inv :: "'a \<Rightarrow> bool" and live :: "'a \<Rightarrow> key \<rightharpoonup> bytes \<times> Time" +
  fixes liveC :: "'c \<Rightarrow> key \<rightharpoonup> bytes \<times> Time"
  assumes live_impl: "R c a \<Longrightarrow> liveC c = live a"
    and keys_impl: "R c a \<Longrightarrow> \<exists>ks ks'. mKeys C now c = Some ks \<and> mKeys A now a = Some ks' \<and>
      distinct ks \<and> set ks = set ks'"
    and capacity_impl: "R c a \<Longrightarrow> mCapacity C c = mCapacity A a"
    and updstats_impl: "R c a \<Longrightarrow> R (mUpdStats C f c) (mUpdStats A f a)"
begin

definition invC :: "'c \<Rightarrow> bool" where
  "invC c \<longleftrightarrow> (\<exists>a. R c a \<and> inv a)"

lemma invC_I: "R c a \<Longrightarrow> inv a \<Longrightarrow> invC c \<and> liveC c = live a"
  using live_impl by (auto simp: invC_def)

lemma contract: "bounded_cache C (\<lambda>c. \<exists>a. R c a \<and> inv a) liveC"
proof (fold invC_def, unfold_locales)
  fix c c' now k r assume i: "invC c" and g: "mGet C now k c = (r, c')"
  then obtain a where a: "R c a" "inv a" by (auto simp: invC_def)
  from get_sim [OF a(1) g] obtain a' where s: "mGet A now k a = (r, a')" and a': "R c' a'" by auto
  note l = spec.get_law [OF a(2) s]
  with invC_I [OF a'] invC_I [OF a]
  show "invC c' \<and> r = look now (liveC c k) \<and> liveC c' = (liveC c)(k := keep now (liveC c k))" by simp
next
  fix c c' now k r assume i: "invC c" and g: "mPeek C now k c = (r, c')"
  then obtain a where a: "R c a" "inv a" by (auto simp: invC_def)
  from peek_sim [OF a(1) g] obtain a' where s: "mPeek A now k a = (r, a')" and a': "R c' a'" by auto
  note l = spec.peek_law [OF a(2) s]
  with invC_I [OF a'] invC_I [OF a]
  show "invC c' \<and> r = look now (liveC c k) \<and> liveC c' = (liveC c)(k := keep now (liveC c k))" by simp
next
  fix c c' now k v ttl err evs assume i: "invC c" and g: "mSet C now k v ttl c = (err, evs, c')"
  then obtain a where a: "R c a" "inv a" by (auto simp: invC_def)
  from set_sim [OF a(1) g] obtain a' where s: "mSet A now k v ttl a = (err, evs, a')" and a': "R c' a'" by auto
  note l = spec.set_law [OF a(2) s]
  note e = invC_I [OF a, THEN conjunct2] invC_I [OF a' l [THEN conjunct1]]
  show "invC c' \<and> err = None \<and> liveC c' k = Some (v, expiryOf now ttl) \<and>
      (\<forall>k'. k' \<noteq> k \<longrightarrow> liveC c' k' = liveC c k' \<or> liveC c' k' = None) \<and>
      (\<forall>(k', v') \<in> set evs. k' \<noteq> k \<and> liveC c' k' = None \<and> (\<exists>e. liveC c k' = Some (v', e)))"
    unfolding e(1) e(2) [THEN conjunct2] by (rule conjI [OF e(2) [THEN conjunct1] l [THEN conjunct2]])
next
  fix c c' k found assume i: "invC c" and g: "mDelete C k c = (found, c')"
  then obtain a where a: "R c a" "inv a" by (auto simp: invC_def)
  from delete_sim [OF a(1) g] obtain a' where s: "mDelete A k a = (found, a')" and a': "R c' a'" by auto
  note l = spec.delete_law [OF a(2) s]
  with invC_I [OF a'] invC_I [OF a]
  show "invC c' \<and> liveC c' = (liveC c)(k := None) \<and> (liveC c k \<noteq> None \<longrightarrow> found)" by simp
next
  fix c assume "invC c"
  then obtain a where a: "R c a" "inv a" by (auto simp: invC_def)
  from spec.purge_law [OF a(2)] invC_I [OF purge_sim [OF a(1)]]
  show "invC (mPurge C c) \<and> liveC (mPurge C c) = Map.empty" by simp
next
  fix c now assume "invC c"
  then obtain a where a: "R c a" "inv a" by (auto simp: invC_def)
  from spec.keys_law [OF a(2), of now] keys_impl [OF a(1), of now] invC_I [OF a]
  show "\<exists>ks. mKeys C now c = Some ks \<and> distinct ks \<and>
      set ks = {k. \<exists>v e. liveC c k = Some (v, e) \<and> unexpired now e}" by auto
next
  fix c assume "invC c"
  then obtain a where a: "R c a" "inv a" by (auto simp: invC_def)
  from spec.len_law [OF a(2)] len_sim [OF a(1)] invC_I [OF a]
  show "finite (dom (liveC c)) \<and> mLen C c = int (card (dom (liveC c)))" by simp
next
  fix c assume "invC c"
  then obtain a where a: "R c a" "inv a" by (auto simp: invC_def)
  from spec.bound_law [OF a(2)] len_sim [OF a(1)] capacity_impl [OF a(1)]
  show "mLen C c \<le> mCapacity C c" by simp
next
  fix c f assume "invC c"
  then obtain a where a: "R c a" "inv a" by (auto simp: invC_def)
  from spec.updstats_law [OF a(2), of f] invC_I [OF updstats_impl [OF a(1)], of f] invC_I [OF a]
  show "invC (mUpdStats C f c) \<and> liveC (mUpdStats C f c) = liveC c" by simp
next
  fix c b assume "invC c"
  then obtain a where a: "R c a" "inv a" by (auto simp: invC_def)
  from spec.callback_law [OF a(2), of b] invC_I [OF callback_sim [OF a(1)], of b] invC_I [OF a]
  show "invC (mSetEvictionCallback C b c) \<and> liveC (mSetEvictionCallback C b c) = liveC c" by simp
qed

end

end
