(* ===== verification/Key_Index.thy ===== *)
theory Key_Index
  imports Cache_Types
begin

text \<open>
  All three caches keep a Go map from keys to their nodes next to the lists that order the
  nodes. \<open>indexes m kf ns\<close> says that the map \<open>m\<close> has exactly one entry per node of \<open>ns\<close>, under
  the key \<open>kf\<close> of that node. The lemmas say what a lookup finds and how the index follows an
  insertion, a deletion and a reordering; \<open>it\<close> reads the item a node stores.
\<close>

definition indexes :: "(key, 'n) gomap \<Rightarrow> ('n \<Rightarrow> key) \<Rightarrow> 'n list \<Rightarrow> bool" where
  "indexes m kf ns \<longleftrightarrow>
     distinct (map fst m) \<and> set m = (\<lambda>n. (kf n, n)) ` set ns \<and> distinct ns"

lemma indexes_Nil [simp]: "indexes [] kf []"
  by (simp add: indexes_def)

lemma index_lookup:
  assumes "indexes m kf ns"
  shows "map_of m k = Some n \<longleftrightarrow> n \<in> set ns \<and> kf n = k"
proof -
  have "map_of m k = Some n \<longleftrightarrow> (k, n) \<in> set m"
    using assms by (intro map_of_eq_Some_iff) (simp add: indexes_def)
  with assms show ?thesis by (auto simp: indexes_def)
qed

lemma index_lookup_None:
  assumes "indexes m kf ns"
  shows "map_of m k = None \<longleftrightarrow> (\<forall>n\<in>set ns. kf n \<noteq> k)"
  using index_lookup [OF assms, of k] by (cases "map_of m k") auto

lemma index_inj: "indexes m kf ns \<Longrightarrow> n \<in> set ns \<Longrightarrow> n' \<in> set ns \<Longrightarrow> kf n = kf n' \<Longrightarrow> n = n'"
  using index_lookup [of m kf ns "kf n" n] index_lookup [of m kf ns "kf n" n'] by simp

lemma index_length:
  assumes "indexes m kf ns"
  shows "length m = length ns"
proof -
  have d: "distinct (map fst m)" "set m = (\<lambda>n. (kf n, n)) ` set ns" "distinct ns"
    using assms by (auto simp: indexes_def)
  then have "length m = card (set m)" by (intro distinct_card [symmetric]) (simp add: distinct_map)
  also have "\<dots> = card (set ns)" unfolding d(2) by (intro card_image inj_onI) simp
  finally show ?thesis using d(3) by (simp add: distinct_card)
qed

lemma index_distinct: "indexes m kf ns \<Longrightarrow> distinct ns"
  by (simp add: indexes_def)

lemma index_distinct_keys:
  assumes i: "indexes m kf ns" and it: "\<And>n. n \<in> set ns \<Longrightarrow> itKey (it n) = kf n"
  shows "distinct (keys_of (map it ns))"
proof -
  have "inj_on kf (set ns)" using index_inj [OF i] by (auto intro: inj_onI)
  with it have "inj_on (\<lambda>n. itKey (it n)) (set ns)" by (simp cong: inj_on_cong)
  with i show ?thesis by (simp add: keys_of_def comp_def distinct_map indexes_def)
qed

lemma index_find:
  assumes i: "indexes m kf ns" and it: "\<And>n. n \<in> set ns \<Longrightarrow> itKey (it n) = kf n"
  shows "find_item k (map it ns) = map_option it (map_of m k)"
proof (cases "map_of m k")
  case None
  with index_lookup_None [OF i] it have "k \<notin> set (keys_of (map it ns))" by (auto simp: keys_of_def)
  with None show ?thesis by (simp add: find_item_None)
next
  case (Some n)
  then have "n \<in> set ns" "kf n = k" using index_lookup [OF i] by auto
  with find_item_mem [OF index_distinct_keys [of m kf ns it], of "it n"] i it Some
  show ?thesis by simp
qed

lemma index_drop:
  assumes i: "indexes m kf ns" and it: "\<And>n. n \<in> set ns \<Longrightarrow> itKey (it n) = kf n"
    and k: "map_of m k = Some n"
  shows "drop_item k (map it ns) = map it (filter (\<lambda>x. x \<noteq> n) ns)"
proof -
  have n: "n \<in> set ns" "kf n = k" using index_lookup [OF i] k by auto
  have "filter (\<lambda>x. itKey (it x) \<noteq> k) ns = filter (\<lambda>x. x \<noteq> n) ns"
    using n it index_inj [OF i] by (intro filter_cong) auto
  then show ?thesis by (simp add: drop_item_def filter_map comp_def)
qed

lemma index_cong:
  "indexes m kf ns \<Longrightarrow> (\<And>n. n \<in> set ns \<Longrightarrow> kf' n = kf n) \<Longrightarrow> indexes m kf' ns"
  by (auto simp: indexes_def intro!: image_cong)

lemma index_perm: "indexes m kf ns \<Longrightarrow> set ns' = set ns \<Longrightarrow> distinct ns' \<Longrightarrow> indexes m kf ns'"
  by (simp add: indexes_def)

lemma index_delete:
  assumes i: "indexes m kf ns" and k: "map_of m k = Some n"
  shows "indexes (AList.delete k m) kf (filter (\<lambda>x. x \<noteq> n) ns)"
proof -
  have n: "n \<in> set ns" "kf n = k" using index_lookup [OF i] k by auto
  have s: "set m = (\<lambda>n. (kf n, n)) ` set ns" using i by (simp add: indexes_def)
  have e: "\<forall>x\<in>set ns. kf x \<noteq> k \<longleftrightarrow> x \<noteq> n"
  proof
    fix x assume "x \<in> set ns"
    with index_inj [OF i, of x n] n show "kf x \<noteq> k \<longleftrightarrow> x \<noteq> n" by metis
  qed
  have "set (AList.delete k m) = (\<lambda>n. (kf n, n)) ` {x \<in> set ns. kf x \<noteq> k}"
    unfolding set_delete s Compr_image_eq by simp
  also have "{x \<in> set ns. kf x \<noteq> k} = {x \<in> set ns. x \<noteq> n}" using e by blast
  finally have "set (AList.delete k m) = (\<lambda>n. (kf n, n)) ` {x \<in> set ns. x \<noteq> n}" .
  with i show ?thesis by (simp add: indexes_def)
qed

lemma index_insert:
  assumes i: "indexes m kf ns" and k: "map_of m k = None" and n: "n \<notin> set ns"
    and kf': "kf' n = k" "\<And>x. x \<in> set ns \<Longrightarrow> kf' x = kf x"
  shows "indexes (AList.update k n m) kf' (n # ns)"
proof -
  have "k \<notin> fst ` set m" using k by (simp add: map_of_eq_None_iff)
  moreover have "(\<lambda>x. (kf' x, x)) ` set ns = (\<lambda>x. (kf x, x)) ` set ns"
    using kf' by (intro image_cong) auto
  ultimately show ?thesis
    using i n kf' update_new [OF k, of n] by (auto simp: indexes_def)
qed

lemma index_touch:
  assumes "indexes m kf ns" and "n \<in> set ns"
  shows "indexes m kf (n # filter (\<lambda>x. x \<noteq> n) ns)"
  using assms by (intro index_perm [OF assms(1)]) (auto dest: index_distinct)

end
