(* ===== verification/Pointer_Chain.thy ===== *)
theory Pointer_Chain
  imports Go_Prelude
begin

text \<open>
  Doubly linked chains over a store of nodes. Both hand-written doubly linked lists of the
  repository (the generic one of internal/cache/list and the one inside lru.go) keep a head
  and a tail pointer and \<open>prev\<close>/\<open>next\<close> fields. \<open>dll nx pv h t xs\<close> says that, reading the two
  fields through \<open>nx\<close> and \<open>pv\<close>, the nodes from head \<open>h\<close> to tail \<open>t\<close> are exactly the distinct
  addresses \<open>xs\<close>. The lemmas give the effect of the pointer surgery of the two packages on
  \<open>dll\<close>: linking a node at the front or at the back and unlinking a node from any position.
\<close>

section \<open>Segments\<close>

fun hdp :: "'a list \<Rightarrow> 'a option \<Rightarrow> 'a option" where
  "hdp [] q = q"
| "hdp (x # xs) q = Some x"

fun lastp :: "'a option \<Rightarrow> 'a list \<Rightarrow> 'a option" where
  "lastp p [] = p"
| "lastp p (x # xs) = lastp (Some x) xs"

primrec chain :: "(addr \<Rightarrow> ptr) \<Rightarrow> (addr \<Rightarrow> ptr) \<Rightarrow> ptr \<Rightarrow> addr list \<Rightarrow> ptr \<Rightarrow> bool" where
  "chain nx pv p [] q = True"
| "chain nx pv p (x # xs) q = (pv x = p \<and> nx x = hdp xs q \<and> chain nx pv (Some x) xs q)"

definition dll :: "(addr \<Rightarrow> ptr) \<Rightarrow> (addr \<Rightarrow> ptr) \<Rightarrow> ptr \<Rightarrow> ptr \<Rightarrow> addr list \<Rightarrow> bool" where
  "dll nx pv h t xs \<longleftrightarrow>
     h = hdp xs None \<and> t = lastp None xs \<and> chain nx pv None xs None \<and> distinct xs"

lemma hdp_append [simp]: "hdp (xs @ ys) q = hdp xs (hdp ys q)"
  by (cases xs) auto

lemma lastp_append [simp]: "lastp p (xs @ ys) = lastp (lastp p xs) ys"
  by (induction xs arbitrary: p) auto

lemma lastp_last: "lastp p xs = (if xs = [] then p else Some (last xs))"
  by (induction xs arbitrary: p) auto

lemma chain_append [simp]:
  "chain nx pv p (xs @ ys) q \<longleftrightarrow> chain nx pv p xs (hdp ys q) \<and> chain nx pv (lastp p xs) ys q"
  by (induction xs arbitrary: p) auto

lemma chain_cong:
  "(\<And>x. x \<in> set xs \<Longrightarrow> nx x = nx' x) \<Longrightarrow> (\<And>x. x \<in> set xs \<Longrightarrow> pv x = pv' x) \<Longrightarrow>
   chain nx pv p xs q = chain nx' pv' p xs q"
  by (induction xs arbitrary: p) auto

lemma chain_upd_outside [simp]:
  "x \<notin> set xs \<Longrightarrow> chain (nx(x := a)) pv p xs q = chain nx pv p xs q"
  "x \<notin> set xs \<Longrightarrow> chain nx (pv(x := a)) p xs q = chain nx pv p xs q"
  by (auto intro!: chain_cong)

lemma hdp_cases: "hdp xs None = None \<longleftrightarrow> xs = []"
  by (cases xs) auto

lemma lastp_cases: "lastp None xs = None \<longleftrightarrow> xs = []"
  by (simp add: lastp_last)

section \<open>Whole lists\<close>

lemma dll_Nil: "dll nx pv None None []"
  by (simp add: dll_def)

lemma dllD:
  assumes "dll nx pv h t xs"
  shows dll_head: "h = hdp xs None" and dll_tail: "t = lastp None xs"
    and dll_distinct: "distinct xs"
  using assms by (auto simp: dll_def)

lemma dll_at:
  assumes "dll nx pv h t (ys @ n # zs)"
  shows dll_at_prev: "pv n = lastp None ys" and dll_at_next: "nx n = hdp zs None"
  using assms by (auto simp: dll_def)

lemma dll_cong:
  "(\<And>x. x \<in> set xs \<Longrightarrow> nx x = nx' x) \<Longrightarrow> (\<And>x. x \<in> set xs \<Longrightarrow> pv x = pv' x) \<Longrightarrow>
   dll nx pv h t xs = dll nx' pv' h t xs"
  unfolding dll_def using chain_cong [of xs nx nx' pv pv'] by auto

text \<open>Linking a fresh node before the head.\<close>

lemma dll_push_front:
  assumes l: "dll nx pv h t xs" and n: "n \<notin> set xs"
    and pvn: "pv' n = None" and nxn: "nx' n = h"
    and pvx: "\<And>x. x \<in> set xs \<Longrightarrow> pv' x = (if h = Some x then Some n else pv x)"
    and nxx: "\<And>x. x \<in> set xs \<Longrightarrow> nx' x = nx x"
    and t': "t' = (case t of None \<Rightarrow> Some n | Some y \<Rightarrow> Some y)"
  shows "dll nx' pv' (Some n) t' (n # xs)"
proof (cases xs)
  case Nil
  with l pvn nxn t' show ?thesis by (simp add: dll_def)
next
  case (Cons x ys)
  with l have "chain nx pv (Some x) ys None" and "x \<notin> set ys" and "h = Some x"
    by (auto simp: dll_def)
  moreover from this Cons have "chain nx pv (Some x) ys None = chain nx' pv' (Some x) ys None"
    by (intro chain_cong) (auto simp: nxx pvx)
  ultimately show ?thesis
    using l Cons n pvn nxn t' pvx [of x] nxx [of x] by (auto simp: dll_def lastp_last)
qed

text \<open>Linking a fresh node behind the tail.\<close>

lemma dll_push_back:
  assumes l: "dll nx pv h t xs" and n: "n \<notin> set xs"
    and pvn: "pv' n = t" and nxn: "nx' n = None"
    and nxx: "\<And>x. x \<in> set xs \<Longrightarrow> nx' x = (if t = Some x then Some n else nx x)"
    and pvx: "\<And>x. x \<in> set xs \<Longrightarrow> pv' x = pv x"
    and h': "h' = (case h of None \<Rightarrow> Some n | Some y \<Rightarrow> Some y)"
  shows "dll nx' pv' h' (Some n) (xs @ [n])"
proof (cases xs rule: rev_cases)
  case Nil
  with l pvn nxn h' show ?thesis by (simp add: dll_def)
next
  case (snoc ys x)
  with l have c: "chain nx pv None ys (Some x)" and "x \<notin> set ys" and "t = Some x"
    by (auto simp: dll_def)
  with snoc have "chain nx pv None ys (Some x) = chain nx' pv' None ys (Some x)"
    by (intro chain_cong) (auto simp: nxx pvx)
  with c \<open>t = Some x\<close> show ?thesis
    using l snoc n pvn nxn h' nxx [of x] pvx [of x] by (cases ys) (auto simp: dll_def)
qed

text \<open>
  Unlinking a node: its neighbours (or the head and the tail) are joined, everything else in
  the list is untouched.
\<close>

lemma dll_unlink:
  assumes l: "dll nx pv h t (ys @ n # zs)"
    and nxx: "\<And>x. x \<in> set (ys @ zs) \<Longrightarrow> nx' x = (if pv n = Some x then nx n else nx x)"
    and pvx: "\<And>x. x \<in> set (ys @ zs) \<Longrightarrow> pv' x = (if nx n = Some x then pv n else pv x)"
    and h': "h' = (if pv n = None then nx n else h)"
    and t': "t' = (if nx n = None then pv n else t)"
  shows "dll nx' pv' h' t' (ys @ zs)"
proof -
  have pn: "pv n = lastp None ys" and nn: "nx n = hdp zs None"
    using dll_at [OF l] by auto
  have d: "distinct (ys @ n # zs)" using l by (rule dll_distinct)
  have cy: "chain nx pv None ys (Some n)" and cz: "chain nx pv (Some n) zs None"
    using l by (auto simp: dll_def)
  have cy': "chain nx' pv' None ys (hdp zs None)"
  proof (cases ys rule: rev_cases)
    case (snoc us u)
    have "chain nx pv None us (Some u) = chain nx' pv' None us (Some u)"
    proof (rule chain_cong)
      fix x assume "x \<in> set us"
      with snoc d pn nn show "nx x = nx' x" and "pv x = pv' x"
        by (cases zs; auto simp: nxx pvx)+
    qed
    with snoc d cy pn nn show ?thesis by (cases zs) (auto simp: nxx pvx)
  qed simp
  have cz': "chain nx' pv' (lastp None ys) zs None"
  proof (cases zs)
    case (Cons w ws)
    have "chain nx pv (Some w) ws None = chain nx' pv' (Some w) ws None"
    proof (rule chain_cong)
      fix x assume "x \<in> set ws"
      with Cons d pn nn show "nx x = nx' x" and "pv x = pv' x"
        by (cases ys rule: rev_cases; auto simp: nxx pvx)+
    qed
    with Cons d cz pn nn show ?thesis by (cases ys rule: rev_cases) (auto simp: nxx pvx)
  qed simp
  have "h' = hdp (ys @ zs) None"
    using h' l pn nn by (cases ys) (auto simp: dll_def lastp_last)
  moreover have "t' = lastp None (ys @ zs)"
    using t' l pn nn by (cases zs) (auto simp: dll_def lastp_last)
  ultimately show ?thesis using cy' cz' d by (auto simp: dll_def)
qed

end
