(* ===== verification/Linked_List.thy ===== *)
theory Linked_List
  imports Pointer_Chain
begin

text \<open>
  internal/cache/list/list.go: the generic doubly linked list, at the level of its pointers.
  A \<open>List\<close> carries the store of the nodes it has allocated (the code never moves a node from
  one list to another: \<open>PushFront\<close> and \<open>PushBack\<close> always allocate), so an address is the
  identity of a \<open>*Node\<close> of this list. \<open>MoveToFront\<close> may dereference \<open>nil\<close> and is partial.

  The second half gives the list's contract: \<open>list_ok\<close> (the pointers form a doubly linked
  chain), \<open>list_seq\<close> (the nodes and their values from front to back), the locale
  \<open>node_list\<close> with the laws LFU and ARC rely on, and its interpretation on this model.
\<close>

section \<open>The code\<close>

record 'a Node =
  nodeValue :: 'a
  nodePrev :: ptr
  nodeNext :: ptr

record 'a List =
  listHead :: ptr
  listTail :: ptr
  listLen :: int
  listStore :: "addr \<Rightarrow> 'a Node"
  listFresh :: addr

definition list_New :: "'a List" where
  "list_New = \<lparr>listHead = None, listTail = None, listLen = 0,
     listStore = (\<lambda>_. \<lparr>nodeValue = undefined, nodePrev = None, nodeNext = None\<rparr>), listFresh = 0\<rparr>"

definition list_Len :: "'a List \<Rightarrow> int" where
  "list_Len l = listLen l"

definition list_Front :: "'a List \<Rightarrow> ptr" where
  "list_Front l = listHead l"

definition list_Back :: "'a List \<Rightarrow> ptr" where
  "list_Back l = listTail l"

definition node_Value :: "'a List \<Rightarrow> addr \<Rightarrow> 'a" where
  "node_Value l n = nodeValue (listStore l n)"

definition setPrev :: "addr \<Rightarrow> ptr \<Rightarrow> (addr \<Rightarrow> 'a Node) \<Rightarrow> addr \<Rightarrow> 'a Node" where
  "setPrev n p s = s(n := (s n)\<lparr>nodePrev := p\<rparr>)"

definition setNext :: "addr \<Rightarrow> ptr \<Rightarrow> (addr \<Rightarrow> 'a Node) \<Rightarrow> addr \<Rightarrow> 'a Node" where
  "setNext n q s = s(n := (s n)\<lparr>nodeNext := q\<rparr>)"

definition list_PushFront :: "'a \<Rightarrow> 'a List \<Rightarrow> addr \<times> 'a List" where
  "list_PushFront v l =
     (let n = listFresh l;
          s = (listStore l)(n := \<lparr>nodeValue = v, nodePrev = None, nodeNext = None\<rparr>);
          l0 = l\<lparr>listFresh := n + 1, listLen := listLen l + 1\<rparr>
      in (n, case listHead l of
               None \<Rightarrow> l0\<lparr>listStore := s, listHead := Some n, listTail := Some n\<rparr>
             | Some h \<Rightarrow> l0\<lparr>listStore := setPrev h (Some n) (setNext n (Some h) s),
                           listHead := Some n\<rparr>))"

definition list_PushBack :: "'a \<Rightarrow> 'a List \<Rightarrow> addr \<times> 'a List" where
  "list_PushBack v l =
     (let n = listFresh l;
          s = (listStore l)(n := \<lparr>nodeValue = v, nodePrev = None, nodeNext = None\<rparr>);
          l0 = l\<lparr>listFresh := n + 1, listLen := listLen l + 1\<rparr>
      in (n, case listTail l of
               None \<Rightarrow> l0\<lparr>listStore := s, listHead := Some n, listTail := Some n\<rparr>
             | Some t \<Rightarrow> l0\<lparr>listStore := setNext t (Some n) (setPrev n (Some t) s),
                           listTail := Some n\<rparr>))"

text \<open>Detaching the node in \<open>MoveToFront\<close>; \<open>None\<close> is a nil-pointer panic.\<close>

definition detach :: "addr \<Rightarrow> 'a List \<Rightarrow> 'a List option" where
  "detach n l =
     (let s = listStore l
      in if Some n = listTail l
         then (case nodePrev (s n) of
                 None \<Rightarrow> None
               | Some p \<Rightarrow> Some (l\<lparr>listTail := Some p, listStore := setNext p None s\<rparr>))
         else (case nodePrev (s n) of
                 None \<Rightarrow> None
               | Some p \<Rightarrow>
                   (let s1 = setNext p (nodeNext (s n)) s
                    in case nodeNext (s1 n) of
                         None \<Rightarrow> None
                       | Some q \<Rightarrow> Some (l\<lparr>listStore := setPrev q (nodePrev (s1 n)) s1\<rparr>))))"

definition list_MoveToFront :: "addr \<Rightarrow> 'a List \<Rightarrow> 'a List option" where
  "list_MoveToFront n l =
     (if Some n = listHead l \<or> listLen l \<le> 1 then Some l
      else case detach n l of
             None \<Rightarrow> None
           | Some l1 \<Rightarrow>
               (case listHead l1 of
                  None \<Rightarrow> None
                | Some h \<Rightarrow>
                    Some (l1\<lparr>listStore := setPrev h (Some n)
                               (setNext n (Some h) (setPrev n None (listStore l1))),
                             listHead := Some n\<rparr>)))"

definition list_Remove :: "addr \<Rightarrow> 'a List \<Rightarrow> 'a List" where
  "list_Remove n l =
     (let l1 = (case nodePrev (listStore l n) of
                  Some p \<Rightarrow> l\<lparr>listStore := setNext p (nodeNext (listStore l n)) (listStore l)\<rparr>
                | None \<Rightarrow> l\<lparr>listHead := nodeNext (listStore l n)\<rparr>);
          l2 = (case nodeNext (listStore l1 n) of
                  Some q \<Rightarrow> l1\<lparr>listStore := setPrev q (nodePrev (listStore l1 n)) (listStore l1)\<rparr>
                | None \<Rightarrow> l1\<lparr>listTail := nodePrev (listStore l1 n)\<rparr>)
      in l2\<lparr>listStore := setNext n None (setPrev n None (listStore l2)), listLen := listLen l2 - 1\<rparr>)"

text \<open>
  The loop \<open>for cur != nil { ...; cur = cur.next }\<close>: the nodes it visits, \<open>None\<close> when the
  pointers form a cycle and it never ends.
\<close>

partial_function (option) walkNodes :: "(addr \<Rightarrow> ptr) \<Rightarrow> ptr \<Rightarrow> addr list option" where
  "walkNodes nx cur =
     (case cur of
        None \<Rightarrow> Some []
      | Some n \<Rightarrow> Option.bind (walkNodes nx (nx n)) (\<lambda>ns. Some (n # ns)))"

definition list_ToSlice :: "'a List \<Rightarrow> 'a list option" where
  "list_ToSlice l =
     map_option (map (\<lambda>n. nodeValue (listStore l n)))
       (walkNodes (\<lambda>n. nodeNext (listStore l n)) (listHead l))"

section \<open>What the pointers stand for\<close>

lemma walkNodes_chain:
  "chain nx pv p xs None \<Longrightarrow> walkNodes nx (hdp xs None) = Some xs"
proof (induction xs arbitrary: p)
  case Nil
  then show ?case by (simp add: walkNodes.simps)
next
  case (Cons x xs)
  then show ?case by (subst walkNodes.simps) auto
qed

lemma walkNodes_dll: "dll nx pv h t xs \<Longrightarrow> walkNodes nx h = Some xs"
  by (auto simp: dll_def walkNodes_chain)

abbreviation list_nx :: "'a List \<Rightarrow> addr \<Rightarrow> ptr" where
  "list_nx l \<equiv> \<lambda>n. nodeNext (listStore l n)"

abbreviation list_pv :: "'a List \<Rightarrow> addr \<Rightarrow> ptr" where
  "list_pv l \<equiv> \<lambda>n. nodePrev (listStore l n)"

definition list_rep :: "'a List \<Rightarrow> addr list \<Rightarrow> bool" where
  "list_rep l xs \<longleftrightarrow> dll (list_nx l) (list_pv l) (listHead l) (listTail l) xs \<and>
     listLen l = int (length xs) \<and> (\<forall>x\<in>set xs. x < listFresh l)"

definition list_ok :: "'a List \<Rightarrow> bool" where
  "list_ok l \<longleftrightarrow> (\<exists>xs. list_rep l xs)"

definition list_nodes :: "'a List \<Rightarrow> addr list" where
  "list_nodes l = (case walkNodes (list_nx l) (listHead l) of None \<Rightarrow> [] | Some xs \<Rightarrow> xs)"

definition list_seq :: "'a List \<Rightarrow> (addr \<times> 'a) list" where
  "list_seq l = map (\<lambda>n. (n, node_Value l n)) (list_nodes l)"

lemma list_rep_nodes: "list_rep l xs \<Longrightarrow> list_nodes l = xs"
  by (auto simp: list_rep_def list_nodes_def dest: walkNodes_dll)

lemma list_ok_rep: "list_ok l \<longleftrightarrow> list_rep l (list_nodes l)"
  by (auto simp: list_ok_def list_rep_nodes)

lemma list_rep_ok: "list_rep l xs \<Longrightarrow> list_ok l"
  by (auto simp: list_ok_def)

lemma list_rep_seq: "list_rep l xs \<Longrightarrow> list_seq l = map (\<lambda>n. (n, node_Value l n)) xs"
  by (simp add: list_seq_def list_rep_nodes)

lemma setPrev_sel [simp]:
  "nodeNext (setPrev n p s x) = nodeNext (s x)"
  "nodeValue (setPrev n p s x) = nodeValue (s x)"
  "nodePrev (setPrev n p s x) = (if x = n then p else nodePrev (s x))"
  by (auto simp: setPrev_def)

lemma setNext_sel [simp]:
  "nodePrev (setNext n q s x) = nodePrev (s x)"
  "nodeValue (setNext n q s x) = nodeValue (s x)"
  "nodeNext (setNext n q s x) = (if x = n then q else nodeNext (s x))"
  by (auto simp: setNext_def)

lemma list_rep_New: "list_rep list_New []"
  by (simp add: list_rep_def list_New_def dll_Nil)

lemma list_rep_PushFront:
  assumes r: "list_rep l xs" and p: "list_PushFront v l = (n, l')"
  shows "n = listFresh l \<and> n \<notin> set xs \<and> list_rep l' (n # xs) \<and> node_Value l' n = v \<and>
    (\<forall>x\<in>set xs. node_Value l' x = node_Value l x)"
proof -
  have d: "dll (list_nx l) (list_pv l) (listHead l) (listTail l) xs"
    and fr: "\<forall>x\<in>set xs. x < listFresh l" and len: "listLen l = int (length xs)"
    using r by (auto simp: list_rep_def)
  from fr have new: "listFresh l \<notin> set xs" by blast
  have n: "n = listFresh l" using p by (auto simp: list_PushFront_def Let_def)
  have ht: "listHead l = None \<longleftrightarrow> listTail l = None"
    using d by (simp add: dll_def hdp_cases lastp_cases)
  have hin: "listHead l = Some h \<Longrightarrow> h \<in> set xs" for h
    using d by (cases xs) (auto simp: dll_def)
  have "dll (list_nx l') (list_pv l') (Some n) (listTail l') (n # xs)"
    using p n new ht hin
    by (intro dll_push_front [OF d]) (auto simp: list_PushFront_def Let_def split: option.splits)
  then show ?thesis
    using p n new fr len hin
    by (auto simp: list_rep_def list_PushFront_def Let_def node_Value_def split: option.splits)
qed

lemma list_rep_PushBack:
  assumes r: "list_rep l xs" and p: "list_PushBack v l = (n, l')"
  shows "n = listFresh l \<and> n \<notin> set xs \<and> list_rep l' (xs @ [n]) \<and> node_Value l' n = v \<and>
    (\<forall>x\<in>set xs. node_Value l' x = node_Value l x)"
proof -
  have d: "dll (list_nx l) (list_pv l) (listHead l) (listTail l) xs"
    and fr: "\<forall>x\<in>set xs. x < listFresh l" and len: "listLen l = int (length xs)"
    using r by (auto simp: list_rep_def)
  from fr have new: "listFresh l \<notin> set xs" by blast
  have n: "n = listFresh l" using p by (auto simp: list_PushBack_def Let_def)
  have ht: "listHead l = None \<longleftrightarrow> listTail l = None"
    using d by (simp add: dll_def hdp_cases lastp_cases)
  have tin: "listTail l = Some t \<Longrightarrow> t \<in> set xs" for t
    using d by (cases xs rule: rev_cases) (auto simp: dll_def)
  have "dll (list_nx l') (list_pv l') (listHead l') (Some n) (xs @ [n])"
    using p n new ht tin
    by (intro dll_push_back [OF d]) (auto simp: list_PushBack_def Let_def split: option.splits)
  then show ?thesis
    using p n new fr len tin
    by (auto simp: list_rep_def list_PushBack_def Let_def node_Value_def split: option.splits)
qed

text \<open>\<open>Remove\<close> takes the node out and keeps the order of the others.\<close>

lemma list_rep_Remove_split:
  assumes r: "list_rep l (ys @ n # zs)"
  shows "list_rep (list_Remove n l) (ys @ zs)"
proof -
  have d: "dll (list_nx l) (list_pv l) (listHead l) (listTail l) (ys @ n # zs)"
    and dn: "distinct (ys @ n # zs)"
    using r dll_distinct [of "list_nx l" "list_pv l"] unfolding list_rep_def by blast+
  have pn: "nodePrev (listStore l n) = lastp None ys" and nn: "nodeNext (listStore l n) = hdp zs None"
    using dll_at [OF d] by simp_all
  have pne: "lastp None ys \<noteq> Some n" and nne: "hdp zs None \<noteq> Some n"
    using dn by (cases ys rule: rev_cases; cases zs; auto)+
  have "dll (list_nx (list_Remove n l)) (list_pv (list_Remove n l))
      (listHead (list_Remove n l)) (listTail (list_Remove n l)) (ys @ zs)"
    using dn pn nn pne nne
    by (intro dll_unlink [OF d]) (auto simp: list_Remove_def Let_def split: option.splits)
  moreover have "listLen (list_Remove n l) = listLen l - 1"
    and "listFresh (list_Remove n l) = listFresh l"
    by (auto simp: list_Remove_def Let_def split: option.splits)
  ultimately show ?thesis using r by (auto simp: list_rep_def)
qed

lemma node_Value_Remove [simp]: "node_Value (list_Remove n l) x = node_Value l x"
  by (auto simp: list_Remove_def Let_def node_Value_def split: option.splits)

lemma list_rep_Remove:
  assumes "list_rep l xs" and "n \<in> set xs"
  shows "list_rep (list_Remove n l) (filter (\<lambda>x. x \<noteq> n) xs)"
proof -
  from assms(2) obtain ys zs where xs: "xs = ys @ n # zs" by (auto dest: split_list)
  have "distinct xs" using assms(1) by (auto simp: list_rep_def dest: dll_distinct)
  with xs have "filter (\<lambda>x. x \<noteq> n) xs = ys @ zs" by (simp only: xs filter_split_distinct)
  with list_rep_Remove_split assms(1) xs show ?thesis by metis
qed

text \<open>\<open>MoveToFront\<close> does not panic on a node of the list and moves it to the front.\<close>

lemma list_rep_MoveToFront_split:
  assumes r: "list_rep l (ys @ n # zs)"
  shows "\<exists>l'. list_MoveToFront n l = Some l' \<and> list_rep l' (n # ys @ zs) \<and>
    (\<forall>x. node_Value l' x = node_Value l x)"
proof (cases "ys = []")
  case True
  with r have "listHead l = Some n" by (auto simp: list_rep_def dll_def)
  with True r show ?thesis by (simp add: list_MoveToFront_def)
next
  case False
  have d: "dll (list_nx l) (list_pv l) (listHead l) (listTail l) (ys @ n # zs)"
    and dn: "distinct (ys @ n # zs)" and len: "listLen l = int (length (ys @ n # zs))"
    using r dll_distinct [of "list_nx l" "list_pv l"] unfolding list_rep_def by blast+
  obtain p us where ys: "ys = us @ [p]" using False by (cases ys rule: rev_cases) auto
  have pn: "nodePrev (listStore l n) = Some p" and nn: "nodeNext (listStore l n) = hdp zs None"
    using dll_at [OF d] by (simp_all add: ys)
  have tl: "listTail l = Some n \<longleftrightarrow> zs = []"
    using d dn by (cases zs rule: rev_cases) (auto simp: dll_def)
  obtain h where h: "listHead l = Some h" "h \<in> set ys" using d ys by (cases us) (auto simp: dll_def)
  obtain l1 where l1: "detach n l = Some l1" and h1: "listHead l1 = Some h"
    and len1: "listLen l1 = listLen l" "listFresh l1 = listFresh l"
    and v1: "\<And>x. node_Value l1 x = node_Value l x"
    and n1: "\<And>x. x \<in> set (ys @ zs) \<Longrightarrow> list_nx l1 x = (if x = p then hdp zs None else list_nx l x)"
    and p1: "\<And>x. x \<in> set (ys @ zs) \<Longrightarrow> list_pv l1 x = (if hdp zs None = Some x then Some p else list_pv l x)"
    and t1: "listTail l1 = (if zs = [] then Some p else listTail l)"
    using pn nn tl h dn ys by (cases zs) (auto simp: detach_def Let_def node_Value_def)
  have d1: "dll (list_nx l1) (list_pv l1) (listHead l1) (listTail l1) (ys @ zs)"
  proof (rule dll_unlink [OF d])
    show "listHead l1 = (if nodePrev (listStore l n) = None then nodeNext (listStore l n) else listHead l)"
      using pn h h1 by simp
    show "listTail l1 = (if nodeNext (listStore l n) = None then nodePrev (listStore l n) else listTail l)"
      using pn nn t1 by (simp add: hdp_cases)
  qed (use pn nn n1 p1 in auto)
  define l' where "l' = l1\<lparr>listStore := setPrev h (Some n) (setNext n (Some h) (setPrev n None (listStore l1))),
    listHead := Some n\<rparr>"
  have m: "list_MoveToFront n l = Some l'"
    using h dn len ys l1 h1 by (auto simp: list_MoveToFront_def l'_def)
  have "h \<noteq> n" using h dn by auto
  have "dll (list_nx l') (list_pv l') (Some n) (listTail l') (n # ys @ zs)"
    using dn h1 \<open>h \<noteq> n\<close> d1 ys by (intro dll_push_front [OF d1]) (auto simp: l'_def dll_def lastp_last)
  moreover have "nodeValue (listStore l1 x) = nodeValue (listStore l x)" for x
    using v1 [of x] by (simp add: node_Value_def)
  ultimately show ?thesis using m len1 r by (auto simp: list_rep_def l'_def node_Value_def)
qed

lemma list_rep_MoveToFront:
  assumes "list_rep l xs" and "n \<in> set xs"
  shows "\<exists>l'. list_MoveToFront n l = Some l' \<and> list_rep l' (n # filter (\<lambda>x. x \<noteq> n) xs) \<and>
    (\<forall>x. node_Value l' x = node_Value l x)"
proof -
  from assms(2) obtain ys zs where xs: "xs = ys @ n # zs" by (auto dest: split_list)
  have "distinct xs" using assms(1) dll_distinct unfolding list_rep_def by blast
  with xs have "filter (\<lambda>x. x \<noteq> n) xs = ys @ zs" by (simp only: xs filter_split_distinct)
  with list_rep_MoveToFront_split [of l ys n zs] assms(1) xs show ?thesis by metis
qed

lemma list_rep_ToSlice: "list_rep l xs \<Longrightarrow> list_ToSlice l = Some (map (node_Value l) xs)"
  by (auto simp: list_ToSlice_def list_rep_def node_Value_def dest: walkNodes_dll)

section \<open>The contract LFU and ARC rely on\<close>

text \<open>
  LFU and ARC keep lists of pointers to their own nodes and store in each of those nodes the
  list node that holds it (\<open>listNode\<close>). \<open>node_seq ln ns\<close> is the content of such a list: the
  client nodes \<open>ns\<close>, each held by the list node its \<open>listNode\<close> field \<open>ln\<close> names.
\<close>

definition node_seq :: "('n \<Rightarrow> addr) \<Rightarrow> 'n list \<Rightarrow> (addr \<times> 'n) list" where
  "node_seq ln ns = map (\<lambda>n. (ln n, n)) ns"

locale node_list =
  fixes new :: "'l"
    and push_front :: "'n \<Rightarrow> 'l \<Rightarrow> addr \<times> 'l"
    and remove :: "addr \<Rightarrow> 'l \<Rightarrow> 'l"
    and last_node :: "'l \<Rightarrow> ptr"
    and len :: "'l \<Rightarrow> int"
    and node_val :: "'l \<Rightarrow> addr \<Rightarrow> 'n"
    and seqn :: "'l \<Rightarrow> (addr \<times> 'n) list"
    and ok :: "'l \<Rightarrow> bool"
  assumes new_law: "ok new \<and> seqn new = []"
    and distinct_law: "ok l \<Longrightarrow> distinct (map fst (seqn l))"
    and push_law: "ok l \<Longrightarrow> push_front v l = (a, l') \<Longrightarrow>
      ok l' \<and> seqn l' = (a, v) # seqn l \<and> a \<notin> fst ` set (seqn l)"
    and remove_law: "ok l \<Longrightarrow> a \<in> fst ` set (seqn l) \<Longrightarrow>
      ok (remove a l) \<and> seqn (remove a l) = filter (\<lambda>p. fst p \<noteq> a) (seqn l)"
    and back_law: "ok l \<Longrightarrow> last_node l = (if seqn l = [] then None else Some (fst (last (seqn l))))"
    and len_law: "ok l \<Longrightarrow> len l = int (length (seqn l))"
    and val_law: "ok l \<Longrightarrow> (a, v) \<in> set (seqn l) \<Longrightarrow> node_val l a = v"
begin

definition holds :: "('n \<Rightarrow> addr) \<Rightarrow> 'l \<Rightarrow> 'n list \<Rightarrow> bool" where
  "holds ln l ns \<longleftrightarrow> ok l \<and> seqn l = node_seq ln ns \<and> distinct ns"

lemma holds_new: "holds ln new []"
  using new_law by (simp add: holds_def node_seq_def)

lemma holds_cong: "holds ln l ns \<Longrightarrow> (\<And>n. n \<in> set ns \<Longrightarrow> ln' n = ln n) \<Longrightarrow> holds ln' l ns"
  by (simp add: holds_def node_seq_def)

lemma holds_inj: "holds ln l ns \<Longrightarrow> inj_on ln (set ns)"
  using distinct_law [of l] by (auto simp: holds_def node_seq_def distinct_map comp_def)

lemma holds_distinct: "holds ln l ns \<Longrightarrow> distinct ns"
  by (simp add: holds_def)

lemma holds_len: "holds ln l ns \<Longrightarrow> len l = int (length ns)"
  using len_law [of l] by (simp add: holds_def node_seq_def)

lemma holds_back:
  "holds ln l ns \<Longrightarrow> last_node l = (if ns = [] then None else Some (ln (last ns)))"
  using back_law [of l] by (auto simp: holds_def node_seq_def last_map)

lemma holds_val: "holds ln l ns \<Longrightarrow> n \<in> set ns \<Longrightarrow> node_val l (ln n) = n"
  using val_law [of l "ln n" n] by (auto simp: holds_def node_seq_def)

lemma holds_push:
  assumes "holds ln l ns" and "n \<notin> set ns" and "push_front n l = (a, l')"
    and "ln' n = a" and "\<And>m. m \<in> set ns \<Longrightarrow> ln' m = ln m"
  shows "holds ln' l' (n # ns)"
  using assms push_law [of l n a l'] by (auto simp: holds_def node_seq_def)

lemma holds_remove:
  assumes h: "holds ln l ns" and n: "n \<in> set ns"
  shows "holds ln (remove (ln n) l) (filter (\<lambda>m. m \<noteq> n) ns)"
proof -
  have s: "ok l" "seqn l = node_seq ln ns" "distinct ns" using h by (auto simp: holds_def)
  have "ln n \<in> fst ` set (seqn l)" using n s by (force simp: node_seq_def)
  from remove_law [OF s(1) this]
  have "ok (remove (ln n) l)" and q: "seqn (remove (ln n) l) = filter (\<lambda>p. fst p \<noteq> ln n) (node_seq ln ns)"
    using s by auto
  moreover have "filter (\<lambda>p. fst p \<noteq> ln n) (node_seq ln ns) = node_seq ln (filter (\<lambda>m. m \<noteq> n) ns)"
    using holds_inj [OF h] n unfolding node_seq_def filter_map comp_def
    by (auto intro!: arg_cong [where f = "map _"] filter_cong dest: inj_onD)
  ultimately show ?thesis using s(3) by (simp add: holds_def)
qed

end

interpretation dl: node_list list_New list_PushFront list_Remove list_Back list_Len node_Value
  list_seq list_ok
proof
  show "list_ok (list_New :: 'a List) \<and> list_seq (list_New :: 'a List) = []"
    using list_rep_New [where 'a = 'a] by (auto simp: list_rep_seq intro: list_rep_ok)
next
  fix l :: "'a List" assume "list_ok l"
  then show "distinct (map fst (list_seq l))"
    using dll_distinct by (auto simp: list_ok_def list_rep_seq comp_def list_rep_def)
next
  fix l l' :: "'a List" and v a
  assume ok: "list_ok l" and p: "list_PushFront v l = (a, l')"
  then obtain xs where r: "list_rep l xs" by (auto simp: list_ok_def)
  from list_rep_PushFront [OF r p] r
  show "list_ok l' \<and> list_seq l' = (a, v) # list_seq l \<and> a \<notin> fst ` set (list_seq l)"
    by (auto simp: list_rep_seq intro: list_rep_ok)
next
  fix l :: "'a List" and a assume "list_ok l" and a: "a \<in> fst ` set (list_seq l)"
  then obtain xs where r: "list_rep l xs" by (auto simp: list_ok_def)
  with a have "a \<in> set xs" by (auto simp: list_rep_seq)
  from list_rep_Remove [OF r this] r
  show "list_ok (list_Remove a l) \<and>
      list_seq (list_Remove a l) = filter (\<lambda>p. fst p \<noteq> a) (list_seq l)"
    by (auto simp: list_rep_seq filter_map comp_def intro: list_rep_ok)
next
  fix l :: "'a List" assume "list_ok l"
  then obtain xs where r: "list_rep l xs" by (auto simp: list_ok_def)
  then have "list_Back l = lastp None xs" by (simp add: list_Back_def list_rep_def dll_def)
  with list_rep_seq [OF r]
  show "list_Back l = (if list_seq l = [] then None else Some (fst (last (list_seq l))))"
    by (simp add: lastp_last last_map)
next
  fix l :: "'a List" assume "list_ok l"
  then obtain xs where r: "list_rep l xs" by (auto simp: list_ok_def)
  then have "list_Len l = int (length xs)" by (simp add: list_Len_def list_rep_def)
  with list_rep_seq [OF r] show "list_Len l = int (length (list_seq l))" by simp
next
  fix l :: "'a List" and a v assume "list_ok l" and "(a, v) \<in> set (list_seq l)"
  then show "node_Value l a = v" by (auto simp: list_ok_def list_rep_seq)
qed

text \<open>A walk of a list that holds a sequence ends with it.\<close>

lemma ToSlice_holds:
  assumes "dl.holds pos fl ns"
  shows "list_ToSlice fl = Some ns"
proof -
  from assms have "list_ok fl" and q: "list_seq fl = node_seq pos ns" by (auto simp: dl.holds_def)
  then obtain xs where r: "list_rep fl xs" by (auto simp: list_ok_def)
  from list_rep_seq [OF r] q have "map snd (map (\<lambda>n. (n, node_Value fl n)) xs) = map snd (node_seq pos ns)"
    by simp
  then have "map (node_Value fl) xs = ns" by (simp add: node_seq_def comp_def)
  with list_rep_ToSlice [OF r] show ?thesis by simp
qed

end
