(* ===== verification/LRU.thy ===== *)
theory LRU
  imports Key_Index Linked_List
begin

text \<open>
  internal/cache/lru/lru.go, at the level of its pointers: the cache keeps a map from keys to
  nodes and threads the nodes into a doubly linked list from most to least recently used. The
  heap of the nodes it has allocated is part of the state (\<open>lcHeap\<close>, \<open>lcFresh\<close>). Each method
  holds the mutex for its whole body, so it is one atomic step.

  The second half gives the abstract machine \<open>lru_spec\<close> (a recency list of items), the
  invariant \<open>lru_wf\<close> and the refinement: every method commutes with the abstraction \<open>lru_abs\<close>.
\<close>

section \<open>The code\<close>

record lruNode =
  lnKey :: key
  lnValue :: bytes
  lnExpiresAt :: Time
  lnHitCount :: int64
  lnCreatedAt :: instant
  lnPrev :: ptr
  lnNext :: ptr

record LRUCache =
  lcCapacity :: int
  lcItems :: "(key, addr) gomap"
  lcHead :: ptr
  lcTail :: ptr
  lcSt :: Stats
  lcOnEvict :: bool
  lcHeap :: "addr \<Rightarrow> lruNode"
  lcFresh :: addr

definition nilNode :: lruNode where
  "nilNode = \<lparr>lnKey = [], lnValue = [], lnExpiresAt = None, lnHitCount = 0, lnCreatedAt = 0,
     lnPrev = None, lnNext = None\<rparr>"

definition lru_New :: "int \<Rightarrow> LRUCache" where
  "lru_New capacity =
     \<lparr>lcCapacity = (if capacity \<le> 0 then 1 else capacity), lcItems = [], lcHead = None,
      lcTail = None, lcSt = newStats, lcOnEvict = False, lcHeap = (\<lambda>_. nilNode), lcFresh = 0\<rparr>"

definition modNode :: "addr \<Rightarrow> (lruNode \<Rightarrow> lruNode) \<Rightarrow> LRUCache \<Rightarrow> LRUCache" where
  "modNode n f c = c\<lparr>lcHeap := (lcHeap c)(n := f (lcHeap c n))\<rparr>"

definition modSt :: "(Stats \<Rightarrow> Stats) \<Rightarrow> LRUCache \<Rightarrow> LRUCache" where
  "modSt f c = c\<lparr>lcSt := f (lcSt c)\<rparr>"

definition lru_pushFront :: "addr \<Rightarrow> LRUCache \<Rightarrow> LRUCache" where
  "lru_pushFront n c =
     (let c1 = modNode n (\<lambda>x. x\<lparr>lnPrev := None, lnNext := lcHead c\<rparr>) c;
          c2 = (case lcHead c1 of
                  Some h \<Rightarrow> modNode h (\<lambda>x. x\<lparr>lnPrev := Some n\<rparr>) c1
                | None \<Rightarrow> c1);
          c3 = c2\<lparr>lcHead := Some n\<rparr>
      in (case lcTail c3 of None \<Rightarrow> c3\<lparr>lcTail := Some n\<rparr> | Some _ \<Rightarrow> c3))"

definition lru_removeNode :: "addr \<Rightarrow> LRUCache \<Rightarrow> LRUCache" where
  "lru_removeNode n c =
     (let c1 = (case lnPrev (lcHeap c n) of
                  Some p \<Rightarrow> modNode p (\<lambda>x. x\<lparr>lnNext := lnNext (lcHeap c n)\<rparr>) c
                | None \<Rightarrow> c\<lparr>lcHead := lnNext (lcHeap c n)\<rparr>);
          c2 = (case lnNext (lcHeap c1 n) of
                  Some q \<Rightarrow> modNode q (\<lambda>x. x\<lparr>lnPrev := lnPrev (lcHeap c1 n)\<rparr>) c1
                | None \<Rightarrow> c1\<lparr>lcTail := lnPrev (lcHeap c1 n)\<rparr>)
      in modNode n (\<lambda>x. x\<lparr>lnPrev := None, lnNext := None\<rparr>) c2)"

definition lru_moveToFront :: "addr \<Rightarrow> LRUCache \<Rightarrow> LRUCache" where
  "lru_moveToFront n c =
     (if Some n = lcHead c then c else lru_pushFront n (lru_removeNode n c))"

definition lru_Get :: "instant \<Rightarrow> key \<Rightarrow> LRUCache \<Rightarrow> bytes option \<times> LRUCache" where
  "lru_Get now key c =
     (case map_of (lcItems c) key of
        None \<Rightarrow> (None, modSt (\<lambda>s. s\<lparr>Misses := Misses s + 1\<rparr>) c)
      | Some n \<Rightarrow>
          if expired now (lnExpiresAt (lcHeap c n)) then
            let c1 = modSt (\<lambda>s. s\<lparr>BytesStored := BytesStored s - blen (lnValue (lcHeap c n))\<rparr>) c;
                c2 = lru_removeNode n c1;
                c3 = c2\<lparr>lcItems := AList.delete key (lcItems c2)\<rparr>;
                c4 = modSt (\<lambda>s. s\<lparr>Misses := Misses s + 1\<rparr>) c3
            in (None, modSt (\<lambda>s. s\<lparr>TTLExpiries := TTLExpiries s + 1\<rparr>) c4)
          else
            let c1 = lru_moveToFront n c;
                c2 = modNode n (\<lambda>x. x\<lparr>lnHitCount := lnHitCount x + 1\<rparr>) c1;
                c3 = modSt (\<lambda>s. s\<lparr>Hits := Hits s + 1\<rparr>) c2
            in (Some (lnValue (lcHeap c3 n)), c3))"

text \<open>The eviction of the tail in \<open>Set\<close>, with the callback it makes.\<close>

definition lru_evictTail :: "LRUCache \<Rightarrow> evictCall list \<times> LRUCache" where
  "lru_evictTail c =
     (case lcTail c of
        None \<Rightarrow> ([], c)
      | Some evicted \<Rightarrow>
          (let c1 = modSt (\<lambda>s. s\<lparr>BytesStored := BytesStored s - blen (lnValue (lcHeap c evicted))\<rparr>) c;
               c2 = lru_removeNode evicted c1;
               c3 = c2\<lparr>lcItems := AList.delete (lnKey (lcHeap c2 evicted)) (lcItems c2)\<rparr>;
               c4 = modSt (\<lambda>s. s\<lparr>Evictions := Evictions s + 1\<rparr>) c3
           in (if lcOnEvict c4 then [(lnKey (lcHeap c4 evicted), lnValue (lcHeap c4 evicted))] else [],
               c4)))"

definition lru_Set ::
  "instant \<Rightarrow> key \<Rightarrow> bytes \<Rightarrow> duration \<Rightarrow> LRUCache \<Rightarrow> error option \<times> evictCall list \<times> LRUCache" where
  "lru_Set now key value ttl c =
     (let expiresAt = expiryOf now ttl
      in case map_of (lcItems c) key of
           Some n \<Rightarrow>
             (let c1 = modSt (\<lambda>s. s\<lparr>BytesStored := BytesStored s +
                          (blen value - blen (lnValue (lcHeap c n)))\<rparr>) c;
                  c2 = modNode n (\<lambda>x. x\<lparr>lnValue := value, lnExpiresAt := expiresAt\<rparr>) c1;
                  c3 = lru_moveToFront n c2
              in (None, [], modSt (\<lambda>s. s\<lparr>Sets := Sets s + 1\<rparr>) c3))
         | None \<Rightarrow>
             (let (evs, c1) = (if int (length (lcItems c)) \<ge> lcCapacity c then lru_evictTail c
                               else ([], c));
                  n = lcFresh c1;
                  c2 = c1\<lparr>lcFresh := n + 1, lcHeap := (lcHeap c1)(n :=
                         \<lparr>lnKey = key, lnValue = value, lnExpiresAt = expiresAt, lnHitCount = 0,
                          lnCreatedAt = now, lnPrev = None, lnNext = None\<rparr>)\<rparr>;
                  c3 = lru_pushFront n c2;
                  c4 = c3\<lparr>lcItems := AList.update key n (lcItems c3)\<rparr>;
                  c5 = modSt (\<lambda>s. s\<lparr>Sets := Sets s + 1\<rparr>) c4
              in (None, evs, modSt (\<lambda>s. s\<lparr>BytesStored := BytesStored s + blen value\<rparr>) c5)))"

definition lru_Delete :: "key \<Rightarrow> LRUCache \<Rightarrow> bool \<times> LRUCache" where
  "lru_Delete key c =
     (case map_of (lcItems c) key of
        None \<Rightarrow> (False, c)
      | Some n \<Rightarrow>
          (let c1 = modSt (\<lambda>s. s\<lparr>BytesStored := BytesStored s - blen (lnValue (lcHeap c n))\<rparr>) c;
               c2 = lru_removeNode n c1;
               c3 = c2\<lparr>lcItems := AList.delete key (lcItems c2)\<rparr>
           in (True, modSt (\<lambda>s. s\<lparr>Deletes := Deletes s + 1\<rparr>) c3)))"

definition lru_Peek :: "instant \<Rightarrow> key \<Rightarrow> LRUCache \<Rightarrow> bytes option \<times> LRUCache" where
  "lru_Peek now key c =
     (case map_of (lcItems c) key of
        None \<Rightarrow> (None, c)
      | Some n \<Rightarrow>
          if expired now (lnExpiresAt (lcHeap c n)) then
            let c1 = modSt (\<lambda>s. s\<lparr>BytesStored := BytesStored s - blen (lnValue (lcHeap c n))\<rparr>) c;
                c2 = modSt (\<lambda>s. s\<lparr>TTLExpiries := TTLExpiries s + 1\<rparr>) c1;
                c3 = lru_removeNode n c2
            in (None, c3\<lparr>lcItems := AList.delete key (lcItems c3)\<rparr>)
          else (Some (lnValue (lcHeap c n)), c))"

abbreviation lru_nx :: "LRUCache \<Rightarrow> addr \<Rightarrow> ptr" where
  "lru_nx c \<equiv> \<lambda>n. lnNext (lcHeap c n)"

abbreviation lru_pv :: "LRUCache \<Rightarrow> addr \<Rightarrow> ptr" where
  "lru_pv c \<equiv> \<lambda>n. lnPrev (lcHeap c n)"

definition lru_Keys :: "instant \<Rightarrow> LRUCache \<Rightarrow> key list option" where
  "lru_Keys now c =
     map_option (\<lambda>ns. map (\<lambda>n. lnKey (lcHeap c n))
         (filter (\<lambda>n. unexpired now (lnExpiresAt (lcHeap c n))) ns))
       (walkNodes (lru_nx c) (lcHead c))"

definition lru_Len :: "LRUCache \<Rightarrow> int" where
  "lru_Len c = int (length (lcItems c))"

definition lru_Capacity :: "LRUCache \<Rightarrow> int" where
  "lru_Capacity c = lcCapacity c"

definition lru_entry :: "instant \<Rightarrow> nat \<Rightarrow> lruNode \<Rightarrow> Entry" where
  "lru_entry now pos x =
     \<lparr>enKey = lnKey x, enValue = lnValue x, enExpiresAt = lnExpiresAt x,
      enTTLMs = remainingMs now (lnExpiresAt x), enFreq = 1, enCreatedAt = lnCreatedAt x,
      enHitCount = lnHitCount x, enSizeBytes = int (length (lnValue x)), enList = [],
      enPosition = int pos\<rparr>"

definition lru_Snapshot :: "instant \<Rightarrow> LRUCache \<Rightarrow> SnapshotResult option" where
  "lru_Snapshot now c =
     map_option (\<lambda>ns. \<lparr>srPolicy = ''lru'',
         srEntries = map (\<lambda>(pos, n). lru_entry now pos (lcHeap c n)) (enumerate 0 ns),
         srGhostEntries = [], srArcP = 0, srListSizes = [], srCapacity = lcCapacity c,
         srTruncated = False\<rparr>)
       (walkNodes (lru_nx c) (lcHead c))"

definition lru_Purge :: "LRUCache \<Rightarrow> LRUCache" where
  "lru_Purge c = modSt stats_Reset (c\<lparr>lcItems := [], lcHead := None, lcTail := None\<rparr>)"

definition lru_SetEvictionCallback :: "bool \<Rightarrow> LRUCache \<Rightarrow> LRUCache" where
  "lru_SetEvictionCallback fn c = c\<lparr>lcOnEvict := fn\<rparr>"

definition lru_cache :: "LRUCache Cache" where
  "lru_cache = \<lparr>mGet = lru_Get, mSet = lru_Set, mDelete = lru_Delete, mPeek = lru_Peek,
     mKeys = lru_Keys, mLen = lru_Len, mCapacity = lru_Capacity, mStats = lcSt, mUpdStats = modSt,
     mSnapshot = lru_Snapshot, mPurge = lru_Purge, mSetEvictionCallback = lru_SetEvictionCallback\<rparr>"

section \<open>The recency-list machine\<close>

text \<open>
  What an LRU cache promises: items from most to least recently used; a hit moves its item to
  the front; an insertion into a full cache drops the last item.
\<close>

record lruSpec =
  lsCapacity :: int
  lsItems :: "item list"
  lsSt :: Stats
  lsOnEvict :: bool

definition lruSpec_Get :: "instant \<Rightarrow> key \<Rightarrow> lruSpec \<Rightarrow> bytes option \<times> lruSpec" where
  "lruSpec_Get now k s =
     (case find_item k (lsItems s) of
        None \<Rightarrow> (None, s\<lparr>lsSt := (lsSt s)\<lparr>Misses := Misses (lsSt s) + 1\<rparr>\<rparr>)
      | Some e \<Rightarrow>
          if expired now (itExpires e) then
            (None, s\<lparr>lsItems := drop_item k (lsItems s),
                lsSt := (lsSt s)\<lparr>BytesStored := BytesStored (lsSt s) - blen (itValue e),
                  Misses := Misses (lsSt s) + 1, TTLExpiries := TTLExpiries (lsSt s) + 1\<rparr>\<rparr>)
          else
            (Some (itValue e), s\<lparr>lsItems := e\<lparr>itHits := itHits e + 1\<rparr> # drop_item k (lsItems s),
                lsSt := (lsSt s)\<lparr>Hits := Hits (lsSt s) + 1\<rparr>\<rparr>))"

definition lruSpec_Peek :: "instant \<Rightarrow> key \<Rightarrow> lruSpec \<Rightarrow> bytes option \<times> lruSpec" where
  "lruSpec_Peek now k s =
     (case find_item k (lsItems s) of
        None \<Rightarrow> (None, s)
      | Some e \<Rightarrow>
          if expired now (itExpires e) then
            (None, s\<lparr>lsItems := drop_item k (lsItems s),
                lsSt := (lsSt s)\<lparr>BytesStored := BytesStored (lsSt s) - blen (itValue e),
                  TTLExpiries := TTLExpiries (lsSt s) + 1\<rparr>\<rparr>)
          else (Some (itValue e), s))"

definition lruSpec_Delete :: "key \<Rightarrow> lruSpec \<Rightarrow> bool \<times> lruSpec" where
  "lruSpec_Delete k s =
     (case find_item k (lsItems s) of
        None \<Rightarrow> (False, s)
      | Some e \<Rightarrow>
          (True, s\<lparr>lsItems := drop_item k (lsItems s),
             lsSt := (lsSt s)\<lparr>BytesStored := BytesStored (lsSt s) - blen (itValue e),
               Deletes := Deletes (lsSt s) + 1\<rparr>\<rparr>))"

text \<open>The last item of a full cache goes, and is reported to the callback.\<close>

definition lruSpec_evict :: "lruSpec \<Rightarrow> evictCall list \<times> lruSpec" where
  "lruSpec_evict s =
     (if int (length (lsItems s)) < lsCapacity s then ([], s)
      else let e = last (lsItems s)
           in (if lsOnEvict s then [(itKey e, itValue e)] else [],
               s\<lparr>lsItems := butlast (lsItems s),
                 lsSt := (lsSt s)\<lparr>BytesStored := BytesStored (lsSt s) - blen (itValue e),
                   Evictions := Evictions (lsSt s) + 1\<rparr>\<rparr>))"

definition lruSpec_Set ::
  "instant \<Rightarrow> key \<Rightarrow> bytes \<Rightarrow> duration \<Rightarrow> lruSpec \<Rightarrow> error option \<times> evictCall list \<times> lruSpec" where
  "lruSpec_Set now k v ttl s =
     (case find_item k (lsItems s) of
        Some e \<Rightarrow>
          (None, [], s\<lparr>lsItems := e\<lparr>itValue := v, itExpires := expiryOf now ttl\<rparr> #
                         drop_item k (lsItems s),
             lsSt := (lsSt s)\<lparr>BytesStored := BytesStored (lsSt s) + (blen v - blen (itValue e)),
               Sets := Sets (lsSt s) + 1\<rparr>\<rparr>)
      | None \<Rightarrow>
          (let (evs, s1) = lruSpec_evict s
           in (None, evs, s1\<lparr>lsItems := \<lparr>itKey = k, itValue = v, itExpires = expiryOf now ttl,
                                itCreated = now, itHits = 0\<rparr> # lsItems s1,
                lsSt := (lsSt s1)\<lparr>Sets := Sets (lsSt s1) + 1,
                  BytesStored := BytesStored (lsSt s1) + blen v\<rparr>\<rparr>)))"

definition lruSpec_Purge :: "lruSpec \<Rightarrow> lruSpec" where
  "lruSpec_Purge s = s\<lparr>lsItems := [], lsSt := newStats\<rparr>"

section \<open>The invariant and the abstraction\<close>

definition lru_item :: "lruNode \<Rightarrow> item" where
  "lru_item x = \<lparr>itKey = lnKey x, itValue = lnValue x, itExpires = lnExpiresAt x,
     itCreated = lnCreatedAt x, itHits = lnHitCount x\<rparr>"

text \<open>The list part of the invariant, and the map part.\<close>

definition lru_links :: "LRUCache \<Rightarrow> addr list \<Rightarrow> bool" where
  "lru_links c ns \<longleftrightarrow> dll (lru_nx c) (lru_pv c) (lcHead c) (lcTail c) ns \<and>
     (\<forall>n\<in>set ns. n < lcFresh c)"

definition lru_rep :: "LRUCache \<Rightarrow> addr list \<Rightarrow> bool" where
  "lru_rep c ns \<longleftrightarrow> lru_links c ns \<and> indexes (lcItems c) (\<lambda>n. lnKey (lcHeap c n)) ns \<and>
     0 < lcCapacity c \<and> int (length ns) \<le> lcCapacity c"

definition lru_view :: "LRUCache \<Rightarrow> addr list \<Rightarrow> lruSpec" where
  "lru_view c ns = \<lparr>lsCapacity = lcCapacity c, lsItems = map (\<lambda>n. lru_item (lcHeap c n)) ns,
     lsSt = lcSt c, lsOnEvict = lcOnEvict c\<rparr>"

definition lru_nodes :: "LRUCache \<Rightarrow> addr list" where
  "lru_nodes c = (case walkNodes (lru_nx c) (lcHead c) of None \<Rightarrow> [] | Some ns \<Rightarrow> ns)"

definition lru_abs :: "LRUCache \<Rightarrow> lruSpec" where
  "lru_abs c = lru_view c (lru_nodes c)"

definition lru_wf :: "LRUCache \<Rightarrow> bool" where
  "lru_wf c \<longleftrightarrow> lru_rep c (lru_nodes c)"

definition lru_sim :: "LRUCache \<Rightarrow> lruSpec \<Rightarrow> bool" where
  "lru_sim c s \<longleftrightarrow> (\<exists>ns. lru_rep c ns \<and> s = lru_view c ns)"

lemma lru_links_walk: "lru_links c ns \<Longrightarrow> walkNodes (lru_nx c) (lcHead c) = Some ns"
  by (auto simp: lru_links_def dest: walkNodes_dll)

lemma lru_rep_nodes: "lru_rep c ns \<Longrightarrow> lru_nodes c = ns"
  by (auto simp: lru_rep_def lru_nodes_def dest: lru_links_walk)

lemma lru_sim_iff: "lru_sim c s \<longleftrightarrow> lru_wf c \<and> s = lru_abs c"
  by (auto simp: lru_sim_def lru_wf_def lru_abs_def lru_rep_nodes)

lemma lru_item_sel [simp]:
  "itKey (lru_item x) = lnKey x" "itValue (lru_item x) = lnValue x"
  "itExpires (lru_item x) = lnExpiresAt x" "itCreated (lru_item x) = lnCreatedAt x"
  "itHits (lru_item x) = lnHitCount x"
  by (simp_all add: lru_item_def)

lemma lru_item_cong:
  "lnKey x = lnKey y \<Longrightarrow> lnValue x = lnValue y \<Longrightarrow> lnExpiresAt x = lnExpiresAt y \<Longrightarrow>
   lnCreatedAt x = lnCreatedAt y \<Longrightarrow> lnHitCount x = lnHitCount y \<Longrightarrow> lru_item x = lru_item y"
  by (simp add: lru_item_def)

section \<open>The pointer operations\<close>

text \<open>The list surgery changes no field but the pointers.\<close>

lemma modNode_frame [simp]:
  "lcCapacity (modNode n f c) = lcCapacity c" "lcItems (modNode n f c) = lcItems c"
  "lcHead (modNode n f c) = lcHead c" "lcTail (modNode n f c) = lcTail c"
  "lcSt (modNode n f c) = lcSt c" "lcOnEvict (modNode n f c) = lcOnEvict c"
  "lcFresh (modNode n f c) = lcFresh c"
  "lcHeap (modNode n f c) = (lcHeap c)(n := f (lcHeap c n))"
  by (simp_all add: modNode_def)

lemma modSt_frame [simp]:
  "lcCapacity (modSt f c) = lcCapacity c" "lcItems (modSt f c) = lcItems c"
  "lcHead (modSt f c) = lcHead c" "lcTail (modSt f c) = lcTail c"
  "lcSt (modSt f c) = f (lcSt c)" "lcOnEvict (modSt f c) = lcOnEvict c"
  "lcFresh (modSt f c) = lcFresh c" "lcHeap (modSt f c) = lcHeap c"
  by (simp_all add: modSt_def)

lemma pushFront_frame [simp]:
  "lcCapacity (lru_pushFront n c) = lcCapacity c" "lcItems (lru_pushFront n c) = lcItems c"
  "lcSt (lru_pushFront n c) = lcSt c" "lcOnEvict (lru_pushFront n c) = lcOnEvict c"
  "lcFresh (lru_pushFront n c) = lcFresh c"
  by (auto simp: lru_pushFront_def Let_def split: option.splits)

lemma removeNode_frame [simp]:
  "lcCapacity (lru_removeNode n c) = lcCapacity c" "lcItems (lru_removeNode n c) = lcItems c"
  "lcSt (lru_removeNode n c) = lcSt c" "lcOnEvict (lru_removeNode n c) = lcOnEvict c"
  "lcFresh (lru_removeNode n c) = lcFresh c"
  by (auto simp: lru_removeNode_def Let_def split: option.splits)

lemma pushFront_data [simp]:
  "lnKey (lcHeap (lru_pushFront n c) x) = lnKey (lcHeap c x)"
  "lnValue (lcHeap (lru_pushFront n c) x) = lnValue (lcHeap c x)"
  "lnExpiresAt (lcHeap (lru_pushFront n c) x) = lnExpiresAt (lcHeap c x)"
  "lnCreatedAt (lcHeap (lru_pushFront n c) x) = lnCreatedAt (lcHeap c x)"
  "lnHitCount (lcHeap (lru_pushFront n c) x) = lnHitCount (lcHeap c x)"
  by (auto simp: lru_pushFront_def Let_def split: option.splits)

lemma removeNode_data [simp]:
  "lnKey (lcHeap (lru_removeNode n c) x) = lnKey (lcHeap c x)"
  "lnValue (lcHeap (lru_removeNode n c) x) = lnValue (lcHeap c x)"
  "lnExpiresAt (lcHeap (lru_removeNode n c) x) = lnExpiresAt (lcHeap c x)"
  "lnCreatedAt (lcHeap (lru_removeNode n c) x) = lnCreatedAt (lcHeap c x)"
  "lnHitCount (lcHeap (lru_removeNode n c) x) = lnHitCount (lcHeap c x)"
  by (auto simp: lru_removeNode_def Let_def split: option.splits)

lemma item_pushFront [simp]: "lru_item (lcHeap (lru_pushFront n c) x) = lru_item (lcHeap c x)"
  by (rule lru_item_cong) simp_all

lemma item_removeNode [simp]: "lru_item (lcHeap (lru_removeNode n c) x) = lru_item (lcHeap c x)"
  by (rule lru_item_cong) simp_all

lemma links_cong:
  "lru_links c ns \<Longrightarrow> lcHead c' = lcHead c \<Longrightarrow> lcTail c' = lcTail c \<Longrightarrow> lcFresh c \<le> lcFresh c' \<Longrightarrow>
   (\<And>n. n \<in> set ns \<Longrightarrow> lru_nx c' n = lru_nx c n) \<Longrightarrow>
   (\<And>n. n \<in> set ns \<Longrightarrow> lru_pv c' n = lru_pv c n) \<Longrightarrow> lru_links c' ns"
  unfolding lru_links_def using dll_cong [of ns "lru_nx c'" "lru_nx c" "lru_pv c'" "lru_pv c"] by auto

lemma links_distinct: "lru_links c ns \<Longrightarrow> distinct ns"
  unfolding lru_links_def using dll_distinct by blast

lemma links_pushFront:
  assumes l: "lru_links c ns" and n: "n \<notin> set ns" "n < lcFresh c"
  shows "lru_links (lru_pushFront n c) (n # ns)"
proof -
  have d: "dll (lru_nx c) (lru_pv c) (lcHead c) (lcTail c) ns" using l by (simp add: lru_links_def)
  have hin: "lcHead c = Some h \<Longrightarrow> h \<noteq> n" for h
    using d n by (cases ns) (auto simp: dll_def)
  have h: "lcHead (lru_pushFront n c) = Some n"
    by (auto simp: lru_pushFront_def Let_def split: option.splits)
  have "dll (lru_nx (lru_pushFront n c)) (lru_pv (lru_pushFront n c)) (Some n)
      (lcTail (lru_pushFront n c)) (n # ns)"
    using n hin by (intro dll_push_front [OF d]) (auto simp: lru_pushFront_def Let_def split: option.splits)
  with l n h show ?thesis by (simp add: lru_links_def)
qed

lemma links_removeNode:
  assumes l: "lru_links c ns" and n: "n \<in> set ns"
  shows "lru_links (lru_removeNode n c) (filter (\<lambda>m. m \<noteq> n) ns)"
proof -
  obtain ys zs where ns: "ns = ys @ n # zs" using n by (auto dest: split_list)
  have d: "dll (lru_nx c) (lru_pv c) (lcHead c) (lcTail c) (ys @ n # zs)"
    using l ns by (simp add: lru_links_def)
  have dn: "distinct (ys @ n # zs)" using d by (rule dll_distinct)
  have pn: "lnPrev (lcHeap c n) = lastp None ys" and nn: "lnNext (lcHeap c n) = hdp zs None"
    using dll_at [OF d] by simp_all
  have pne: "lastp None ys \<noteq> Some n" and nne: "hdp zs None \<noteq> Some n"
    using dn by (cases ys rule: rev_cases; cases zs; auto)+
  have "dll (lru_nx (lru_removeNode n c)) (lru_pv (lru_removeNode n c))
      (lcHead (lru_removeNode n c)) (lcTail (lru_removeNode n c)) (ys @ zs)"
    using dn pn nn pne nne
    by (intro dll_unlink [OF d]) (auto simp: lru_removeNode_def Let_def split: option.splits)
  moreover have "filter (\<lambda>m. m \<noteq> n) ns = ys @ zs" using dn by (simp only: ns filter_split_distinct)
  ultimately show ?thesis using l ns by (simp add: lru_links_def)
qed

lemma links_moveToFront:
  assumes l: "lru_links c ns" and n: "n \<in> set ns"
  shows "lru_links (lru_moveToFront n c) (n # filter (\<lambda>m. m \<noteq> n) ns)"
proof (cases "Some n = lcHead c")
  case True
  then obtain ms where "ns = n # ms" using l n by (cases ns) (auto simp: lru_links_def dll_def)
  with True l links_distinct [OF l] show ?thesis by (simp add: lru_moveToFront_def)
next
  case False
  have "n < lcFresh c" using l n by (simp add: lru_links_def)
  with False links_removeNode [OF l n] show ?thesis
    by (simp add: lru_moveToFront_def links_pushFront)
qed

lemma moveToFront_frame [simp]:
  "lcCapacity (lru_moveToFront n c) = lcCapacity c" "lcItems (lru_moveToFront n c) = lcItems c"
  "lcSt (lru_moveToFront n c) = lcSt c" "lcOnEvict (lru_moveToFront n c) = lcOnEvict c"
  "lcFresh (lru_moveToFront n c) = lcFresh c"
  "lnKey (lcHeap (lru_moveToFront n c) x) = lnKey (lcHeap c x)"
  "lnValue (lcHeap (lru_moveToFront n c) x) = lnValue (lcHeap c x)"
  "lnExpiresAt (lcHeap (lru_moveToFront n c) x) = lnExpiresAt (lcHeap c x)"
  "lnCreatedAt (lcHeap (lru_moveToFront n c) x) = lnCreatedAt (lcHeap c x)"
  "lnHitCount (lcHeap (lru_moveToFront n c) x) = lnHitCount (lcHeap c x)"
  "lru_item (lcHeap (lru_moveToFront n c) x) = lru_item (lcHeap c x)"
  by (auto simp: lru_moveToFront_def)

section \<open>The map and the list agree\<close>

abbreviation lru_items :: "LRUCache \<Rightarrow> addr list \<Rightarrow> item list" where
  "lru_items c ns \<equiv> map (\<lambda>n. lru_item (lcHeap c n)) ns"

lemma repD:
  assumes "lru_rep c ns"
  shows rep_links: "lru_links c ns"
    and rep_index: "indexes (lcItems c) (\<lambda>n. lnKey (lcHeap c n)) ns"
    and rep_cap: "0 < lcCapacity c" and rep_bound: "int (length ns) \<le> lcCapacity c"
  using assms by (auto simp: lru_rep_def)

lemma rep_find:
  "lru_rep c ns \<Longrightarrow> find_item k (lru_items c ns) =
     map_option (\<lambda>n. lru_item (lcHeap c n)) (map_of (lcItems c) k)"
  by (rule index_find [OF rep_index]) auto

lemma rep_drop:
  "lru_rep c ns \<Longrightarrow> map_of (lcItems c) k = Some n \<Longrightarrow>
   drop_item k (lru_items c ns) = lru_items c (filter (\<lambda>m. m \<noteq> n) ns)"
  by (rule index_drop [OF rep_index]) auto

lemma rep_distinct_keys: "lru_rep c ns \<Longrightarrow> distinct (keys_of (lru_items c ns))"
  by (rule index_distinct_keys [OF rep_index]) auto

lemma rep_length: "lru_rep c ns \<Longrightarrow> length (lcItems c) = length ns"
  by (rule index_length [OF rep_index])

lemma rep_mem: "lru_rep c ns \<Longrightarrow> map_of (lcItems c) k = Some n \<Longrightarrow> n \<in> set ns \<and> lnKey (lcHeap c n) = k"
  using index_lookup [OF rep_index] by blast

text \<open>
  The steps every method is composed of, on the representation and on the view: a counter
  update, an update of a node's data, the removal of a node, its move to the front and the
  insertion of a new node.
\<close>

lemma removeNode_modSt [simp]: "lru_removeNode n (modSt f c) = modSt f (lru_removeNode n c)"
  by (auto simp: lru_removeNode_def Let_def modNode_def modSt_def split: option.splits)

lemma modSt_items [simp]: "(modSt f c)\<lparr>lcItems := m\<rparr> = modSt f (c\<lparr>lcItems := m\<rparr>)"
  by (simp add: modSt_def)

lemma rep_modSt [simp]: "lru_rep (modSt f c) ns = lru_rep c ns"
  by (simp add: lru_rep_def lru_links_def)

lemma view_modSt [simp]: "lru_view (modSt f c) ns = (lru_view c ns)\<lparr>lsSt := f (lcSt c)\<rparr>"
  by (simp add: lru_view_def)

lemma rep_modNode:
  assumes "lru_rep c ns" and "\<And>x. lnKey (g x) = lnKey x \<and> lnPrev (g x) = lnPrev x \<and> lnNext (g x) = lnNext x"
  shows "lru_rep (modNode n g c) ns"
proof -
  have "lru_links (modNode n g c) ns"
    using assms by (intro links_cong [OF rep_links [OF assms(1)]]) auto
  moreover have "indexes (lcItems c) (\<lambda>m. lnKey (lcHeap (modNode n g c) m)) ns"
    using assms by (intro index_cong [OF rep_index [OF assms(1)]]) auto
  ultimately show ?thesis using assms(1) by (simp add: lru_rep_def)
qed

lemma view_modNode:
  "n \<notin> set ns \<Longrightarrow> lru_view (modNode n g c) (n # ns) =
     (lru_view c (n # ns))\<lparr>lsItems := lru_item (g (lcHeap c n)) # lru_items c ns\<rparr>"
  by (auto simp: lru_view_def)

lemma rep_unlink:
  assumes r: "lru_rep c ns" and k: "map_of (lcItems c) k = Some n"
  shows "lru_rep ((lru_removeNode n c)\<lparr>lcItems := AList.delete k (lcItems c)\<rparr>) (filter (\<lambda>m. m \<noteq> n) ns)"
proof -
  have "n \<in> set ns" using rep_mem [OF r k] by simp
  from links_removeNode [OF rep_links [OF r] this]
  have "lru_links ((lru_removeNode n c)\<lparr>lcItems := AList.delete k (lcItems c)\<rparr>) (filter (\<lambda>m. m \<noteq> n) ns)"
    by (simp add: lru_links_def)
  moreover have "length (filter (\<lambda>m. m \<noteq> n) ns) \<le> length ns" by simp
  ultimately show ?thesis
    using index_delete [OF rep_index [OF r] k] r by (simp add: lru_rep_def del: length_filter_le)
qed

lemma view_unlink [simp]:
  "lru_view ((lru_removeNode n c)\<lparr>lcItems := m\<rparr>) ns = lru_view c ns"
  by (simp add: lru_view_def)

lemma rep_move:
  assumes r: "lru_rep c ns" and n: "n \<in> set ns"
  shows "lru_rep (lru_moveToFront n c) (n # filter (\<lambda>m. m \<noteq> n) ns)"
proof -
  have "length (n # filter (\<lambda>m. m \<noteq> n) ns) = length ns"
    using n index_distinct [OF rep_index [OF r]] by (simp add: length_filter_remove)
  with index_touch [OF rep_index [OF r] n] links_moveToFront [OF rep_links [OF r] n] r
  show ?thesis unfolding lru_rep_def by (simp del: length_Cons)
qed

lemma view_move [simp]: "lru_view (lru_moveToFront n c) ns = lru_view c ns"
  by (simp add: lru_view_def)

text \<open>Allocating a node for a new key and linking it at the front.\<close>

definition lru_add :: "key \<Rightarrow> lruNode \<Rightarrow> LRUCache \<Rightarrow> LRUCache" where
  "lru_add k x c =
     (let n = lcFresh c;
          c1 = lru_pushFront n (c\<lparr>lcFresh := n + 1, lcHeap := (lcHeap c)(n := x)\<rparr>)
      in c1\<lparr>lcItems := AList.update k n (lcItems c1)\<rparr>)"

lemma rep_add:
  assumes r: "lru_rep c ns" and k: "map_of (lcItems c) k = None" "lnKey x = k"
    and full: "int (length ns) < lcCapacity c"
  shows "lru_rep (lru_add k x c) (lcFresh c # ns)"
    and "lru_view (lru_add k x c) (lcFresh c # ns) =
      (lru_view c ns)\<lparr>lsItems := lru_item x # lru_items c ns\<rparr>"
proof -
  let ?n = "lcFresh c"
  let ?c = "c\<lparr>lcFresh := ?n + 1, lcHeap := (lcHeap c)(?n := x)\<rparr>"
  have fr: "\<forall>n\<in>set ns. n < ?n" using rep_links [OF r] by (simp add: lru_links_def)
  then have new: "?n \<notin> set ns" by blast
  have "lru_links ?c ns" using new by (intro links_cong [OF rep_links [OF r]]) auto
  then have "lru_links (lru_pushFront ?n ?c) (?n # ns)"
    using new by (intro links_pushFront) auto
  then have "lru_links (lru_add k x c) (?n # ns)" by (simp add: lru_add_def Let_def lru_links_def)
  moreover have "indexes (lcItems (lru_add k x c)) (\<lambda>n. lnKey (lcHeap (lru_add k x c) n)) (?n # ns)"
    unfolding lru_add_def Let_def using fr k
    by (simp, intro index_insert [OF rep_index [OF r] k(1) new]) auto
  ultimately show "lru_rep (lru_add k x c) (?n # ns)"
    using r full by (simp add: lru_rep_def lru_add_def Let_def)
  show "lru_view (lru_add k x c) (?n # ns) = (lru_view c ns)\<lparr>lsItems := lru_item x # lru_items c ns\<rparr>"
    using fr by (auto simp: lru_view_def lru_add_def Let_def)
qed

section \<open>Refinement\<close>

lemma simI: "lru_rep c ns \<Longrightarrow> s = lru_view c ns \<Longrightarrow> lru_sim c s"
  by (auto simp: lru_sim_def)

lemma sim_New: "lru_sim (lru_New cap) \<lparr>lsCapacity = (if cap \<le> 0 then 1 else cap), lsItems = [],
    lsSt = newStats, lsOnEvict = False\<rparr>"
  by (rule simI [where ns = "[]"]) (simp_all add: lru_rep_def lru_links_def lru_New_def lru_view_def dll_Nil)

lemma view_sel [simp]:
  "lsCapacity (lru_view c ns) = lcCapacity c" "lsItems (lru_view c ns) = lru_items c ns"
  "lsSt (lru_view c ns) = lcSt c" "lsOnEvict (lru_view c ns) = lcOnEvict c"
  by (simp_all add: lru_view_def)

lemma view_drop:
  "lru_rep c ns \<Longrightarrow> map_of (lcItems c) k = Some n \<Longrightarrow>
   lru_view c (filter (\<lambda>m. m \<noteq> n) ns) = (lru_view c ns)\<lparr>lsItems := drop_item k (lru_items c ns)\<rparr>"
  by (simp add: lru_view_def rep_drop)

lemma sim_Get:
  assumes "lru_sim c s" and g: "lru_Get now k c = (r, c')"
  shows "\<exists>s'. lruSpec_Get now k s = (r, s') \<and> lru_sim c' s'"
proof -
  obtain ns where rep: "lru_rep c ns" and s: "s = lru_view c ns" using assms(1) by (auto simp: lru_sim_def)
  note find = rep_find [OF rep, of k]
  show ?thesis
  proof (cases "map_of (lcItems c) k")
    case None
    with g s find rep show ?thesis
      by (auto simp: lru_Get_def lruSpec_Get_def intro!: simI [where ns = ns])
  next
    case (Some n)
    show ?thesis
    proof (cases "expired now (lnExpiresAt (lcHeap c n))")
      case True
      with g s find Some rep_unlink [OF rep Some] view_drop [OF rep Some] show ?thesis
        by (auto simp: lru_Get_def lruSpec_Get_def intro!: simI [where ns = "filter (\<lambda>m. m \<noteq> n) ns"])
    next
      case False
      have "n \<in> set ns" using rep_mem [OF rep Some] by simp
      note rep_modNode [OF rep_move [OF rep this], of "\<lambda>x. x\<lparr>lnHitCount := lnHitCount x + 1\<rparr>" n]
      with g s find Some False rep_drop [OF rep Some] show ?thesis
        by (auto simp: lru_Get_def Let_def lruSpec_Get_def view_modNode lru_item_def lru_view_def
            intro!: simI [where ns = "n # filter (\<lambda>m. m \<noteq> n) ns"])
    qed
  qed
qed

lemma sim_Peek:
  assumes "lru_sim c s" and g: "lru_Peek now k c = (r, c')"
  shows "\<exists>s'. lruSpec_Peek now k s = (r, s') \<and> lru_sim c' s'"
proof -
  obtain ns where rep: "lru_rep c ns" and s: "s = lru_view c ns" using assms(1) by (auto simp: lru_sim_def)
  note find = rep_find [OF rep, of k]
  show ?thesis
  proof (cases "map_of (lcItems c) k")
    case None
    with g s find rep show ?thesis
      by (auto simp: lru_Peek_def lruSpec_Peek_def intro!: simI [where ns = ns])
  next
    case (Some n)
    show ?thesis
    proof (cases "expired now (lnExpiresAt (lcHeap c n))")
      case True
      with g s find Some rep_unlink [OF rep Some] view_drop [OF rep Some] show ?thesis
        by (auto simp: lru_Peek_def lruSpec_Peek_def intro!: simI [where ns = "filter (\<lambda>m. m \<noteq> n) ns"])
    next
      case False
      with g s find Some rep show ?thesis
        by (auto simp: lru_Peek_def lruSpec_Peek_def intro!: simI [where ns = ns])
    qed
  qed
qed

lemma sim_Delete:
  assumes "lru_sim c s" and g: "lru_Delete k c = (r, c')"
  shows "\<exists>s'. lruSpec_Delete k s = (r, s') \<and> lru_sim c' s'"
proof -
  obtain ns where rep: "lru_rep c ns" and s: "s = lru_view c ns" using assms(1) by (auto simp: lru_sim_def)
  note find = rep_find [OF rep, of k]
  show ?thesis
  proof (cases "map_of (lcItems c) k")
    case None
    with g s find rep show ?thesis
      by (auto simp: lru_Delete_def lruSpec_Delete_def intro!: simI [where ns = ns])
  next
    case (Some n)
    with g s find rep_unlink [OF rep Some] view_drop [OF rep Some] show ?thesis
      by (auto simp: lru_Delete_def lruSpec_Delete_def intro!: simI [where ns = "filter (\<lambda>m. m \<noteq> n) ns"])
  qed
qed

text \<open>The tail of the chain is the last item.\<close>

lemma rep_tail:
  assumes r: "lru_rep c ns" and "ns \<noteq> []"
  shows "lcTail c = Some (last ns)"
    and "map_of (lcItems c) (lnKey (lcHeap c (last ns))) = Some (last ns)"
    and "filter (\<lambda>m. m \<noteq> last ns) ns = butlast ns"
proof -
  show "lcTail c = Some (last ns)"
    using rep_links [OF r] assms(2) by (simp add: lru_links_def dll_def lastp_last)
  show "map_of (lcItems c) (lnKey (lcHeap c (last ns))) = Some (last ns)"
    using index_lookup [OF rep_index [OF r]] assms(2) by simp
  have ns: "ns = butlast ns @ [last ns]" using assms(2) by simp
  have "distinct ns" using index_distinct [OF rep_index [OF r]] .
  then have "filter (\<lambda>m. m \<noteq> last ns) (butlast ns @ [last ns]) = butlast ns"
    using ns filter_split_distinct [of "butlast ns" "last ns" "[]"] by simp
  with ns show "filter (\<lambda>m. m \<noteq> last ns) ns = butlast ns" by simp
qed

definition lru_makeRoom :: "LRUCache \<Rightarrow> evictCall list \<times> LRUCache" where
  "lru_makeRoom c = (if int (length (lcItems c)) \<ge> lcCapacity c then lru_evictTail c else ([], c))"

lemma sim_evict:
  assumes r: "lru_rep c ns" and e: "lru_makeRoom c = (evs, c1)"
  shows "\<exists>ns1. lru_rep c1 ns1 \<and> int (length ns1) < lcCapacity c1 \<and>
    lruSpec_evict (lru_view c ns) = (evs, lru_view c1 ns1) \<and>
    (\<forall>k. map_of (lcItems c) k = None \<longrightarrow> map_of (lcItems c1) k = None)"
proof (cases "int (length ns) < lcCapacity c")
  case True
  with r e show ?thesis
    by (auto simp: lru_makeRoom_def lruSpec_evict_def rep_length intro!: exI [where x = ns])
next
  case False
  then have ne: "ns \<noteq> []" and full: "int (length ns) = lcCapacity c"
    using rep_cap [OF r] rep_bound [OF r] by auto
  note t = rep_tail [OF r ne]
  note u = rep_unlink [OF r t(2)]
  have "int (length (butlast ns)) < lcCapacity c" using ne full by (cases ns rule: rev_cases) auto
  with e u t full ne r show ?thesis
    by (auto simp: lru_makeRoom_def lru_evictTail_def Let_def lruSpec_evict_def rep_length last_map
        map_butlast map_of_delete_upd lru_view_def intro!: exI [where x = "butlast ns"])
qed

text \<open>\<open>Set\<close> in terms of the steps above.\<close>

lemma lru_Set_eq:
  "lru_Set now k v ttl c =
     (case map_of (lcItems c) k of
        Some n \<Rightarrow>
          (None, [], modSt (\<lambda>s. s\<lparr>Sets := Sets s + 1\<rparr>)
            (lru_moveToFront n (modNode n (\<lambda>x. x\<lparr>lnValue := v, lnExpiresAt := expiryOf now ttl\<rparr>)
              (modSt (\<lambda>s. s\<lparr>BytesStored := BytesStored s + (blen v - blen (lnValue (lcHeap c n)))\<rparr>) c))))
      | None \<Rightarrow>
          (let (evs, c1) = lru_makeRoom c
           in (None, evs, modSt (\<lambda>s. s\<lparr>BytesStored := BytesStored s + blen v\<rparr>)
                (modSt (\<lambda>s. s\<lparr>Sets := Sets s + 1\<rparr>)
                  (lru_add k \<lparr>lnKey = k, lnValue = v, lnExpiresAt = expiryOf now ttl, lnHitCount = 0,
                     lnCreatedAt = now, lnPrev = None, lnNext = None\<rparr> c1)))))"
  by (auto simp: lru_Set_def lru_makeRoom_def lru_add_def Let_def split: option.splits)

lemma sim_Set:
  assumes "lru_sim c s" and g: "lru_Set now k v ttl c = (err, evs, c')"
  shows "\<exists>s'. lruSpec_Set now k v ttl s = (err, evs, s') \<and> lru_sim c' s'"
proof -
  obtain ns where rep: "lru_rep c ns" and s: "s = lru_view c ns" using assms(1) by (auto simp: lru_sim_def)
  note find = rep_find [OF rep, of k]
  show ?thesis
  proof (cases "map_of (lcItems c) k")
    case None
    obtain c1 where e: "lru_makeRoom c = (evs, c1)" using g None by (cases "lru_makeRoom c") (auto simp: lru_Set_eq)
    let ?x = "\<lparr>lnKey = k, lnValue = v, lnExpiresAt = expiryOf now ttl, lnHitCount = 0,
                lnCreatedAt = now, lnPrev = None, lnNext = None\<rparr>"
    obtain ns1 where r1: "lru_rep c1 ns1" and full: "int (length ns1) < lcCapacity c1"
      and ev: "lruSpec_evict (lru_view c ns) = (evs, lru_view c1 ns1)"
      and k1: "map_of (lcItems c1) k = None"
      using sim_evict [OF rep e] None by blast
    note add = rep_add [OF r1 k1 _ full, of ?x]
    with None g s find ev e show ?thesis
      by (auto simp: lru_Set_eq lruSpec_Set_def lru_item_def lru_add_def Let_def
          intro!: simI [where ns = "lcFresh c1 # ns1"])
  next
    case (Some n)
    have n: "n \<in> set ns" using rep_mem [OF rep Some] by simp
    let ?g = "\<lambda>x. x\<lparr>lnValue := v, lnExpiresAt := expiryOf now ttl\<rparr>"
    let ?f = "\<lambda>s. s\<lparr>BytesStored := BytesStored s + (blen v - blen (lnValue (lcHeap c n)))\<rparr>"
    have "lru_rep (modNode n ?g (modSt ?f c)) ns" using rep by (intro rep_modNode) simp_all
    from rep_move [OF this n] rep_drop [OF rep Some] g s find Some show ?thesis
      by (auto simp: lru_Set_eq Let_def lruSpec_Set_def view_modNode lru_item_def
          intro!: simI [where ns = "n # filter (\<lambda>m. m \<noteq> n) ns"])
  qed
qed

lemma sim_Purge: "lru_sim c s \<Longrightarrow> lru_sim (lru_Purge c) (lruSpec_Purge s)"
  by (auto simp: lru_sim_def lru_rep_def lru_links_def lru_Purge_def lruSpec_Purge_def lru_view_def
      dll_Nil stats_Reset_new intro!: exI [where x = "[]"])

lemma sim_read:
  assumes "lru_sim c s"
  shows "lru_Keys now c = Some (keys_of (filter (\<lambda>e. unexpired now (itExpires e)) (lsItems s)))"
    and "lru_Len c = int (length (lsItems s))"
    and "lcCapacity c = lsCapacity s"
proof -
  obtain ns where rep: "lru_rep c ns" and s: "s = lru_view c ns" using assms(1) by (auto simp: lru_sim_def)
  note w = lru_links_walk [OF rep_links [OF rep]]
  show "lru_Keys now c = Some (keys_of (filter (\<lambda>e. unexpired now (itExpires e)) (lsItems s)))"
    using w s by (simp add: lru_Keys_def keys_of_def filter_map comp_def)
  show "lru_Len c = int (length (lsItems s))"
    using rep_length [OF rep] s by (simp add: lru_Len_def)
  show "lcCapacity c = lsCapacity s" using s by simp
qed

end
