(* ===== verification/LRU_Contract.thy ===== *)
theory LRU_Contract
  imports LRU
begin

text \<open>
  The LRU cache as a provider of the cache contract: the recency-list machine satisfies the
  laws (\<open>lruSpec\<close>), the pointer-level cache implements the machine (\<open>lruImpl\<close>), so the code's
  model inherits the contract (\<open>lru\<close>) and reports its evictions (\<open>lruReports\<close>). The properties
  at the end rest on these interpretations.
\<close>

section \<open>The machine as a cache, and its contract\<close>

definition lruSpec_New :: "int \<Rightarrow> lruSpec" where
  "lruSpec_New cap = \<lparr>lsCapacity = (if cap \<le> 0 then 1 else cap), lsItems = [],
     lsSt = newStats, lsOnEvict = False\<rparr>"

definition lruSpec_cache :: "lruSpec Cache" where
  "lruSpec_cache = \<lparr>mGet = lruSpec_Get, mSet = lruSpec_Set, mDelete = lruSpec_Delete,
     mPeek = lruSpec_Peek,
     mKeys = (\<lambda>now s. Some (keys_of (filter (\<lambda>e. unexpired now (itExpires e)) (lsItems s)))),
     mLen = (\<lambda>s. int (length (lsItems s))), mCapacity = lsCapacity, mStats = lsSt,
     mUpdStats = (\<lambda>f s. s\<lparr>lsSt := f (lsSt s)\<rparr>), mSnapshot = (\<lambda>now s. None),
     mPurge = lruSpec_Purge, mSetEvictionCallback = (\<lambda>b s. s\<lparr>lsOnEvict := b\<rparr>)\<rparr>"

definition lruSpec_ok :: "lruSpec \<Rightarrow> bool" where
  "lruSpec_ok s \<longleftrightarrow> 0 < lsCapacity s \<and> int (length (lsItems s)) \<le> lsCapacity s \<and>
     distinct (keys_of (lsItems s))"

text \<open>The counter of stored bytes is the size of the values held.\<close>

definition lruSpec_bytes :: "lruSpec \<Rightarrow> bool" where
  "lruSpec_bytes s \<longleftrightarrow> BytesStored (lsSt s) = bytes_of (lsItems s)"

abbreviation lruSpec_live :: "lruSpec \<Rightarrow> key \<rightharpoonup> bytes \<times> Time" where
  "lruSpec_live s \<equiv> live_of (lsItems s)"

lemma lruSpec_evict_ok:
  assumes ok: "lruSpec_ok s" and e: "lruSpec_evict s = (evs, s1)"
  shows "lsCapacity s1 = lsCapacity s \<and> int (length (lsItems s1)) < lsCapacity s1 \<and>
    distinct (keys_of (lsItems s1)) \<and> (\<exists>ds. lsItems s = lsItems s1 @ ds \<and> length ds \<le> 1 \<and>
      evs = (if lsOnEvict s then map (\<lambda>e. (itKey e, itValue e)) ds else [])) \<and>
    lsOnEvict s1 = lsOnEvict s \<and> (lruSpec_bytes s \<longrightarrow> lruSpec_bytes s1)"
proof (cases "int (length (lsItems s)) < lsCapacity s")
  case True
  with e ok show ?thesis by (auto simp: lruSpec_evict_def lruSpec_ok_def)
next
  case False
  with ok have ne: "lsItems s \<noteq> []" and l: "int (length (lsItems s)) = lsCapacity s"
    by (auto simp: lruSpec_ok_def)
  obtain es x where es: "lsItems s = es @ [x]" using ne by (cases "lsItems s" rule: rev_cases) auto
  with e ok l show ?thesis
    by (auto simp: lruSpec_evict_def lruSpec_ok_def lruSpec_bytes_def Let_def)
qed

lemma lruSpec_Get_law:
  assumes ok: "lruSpec_ok s" and g: "lruSpec_Get now k s = (r, s')"
  shows "lruSpec_ok s' \<and> r = look now (lruSpec_live s k) \<and>
    lruSpec_live s' = (lruSpec_live s)(k := keep now (lruSpec_live s k)) \<and>
    (lruSpec_bytes s \<longrightarrow> lruSpec_bytes s')"
proof (cases "find_item k (lsItems s)")
  case None
  with g ok show ?thesis by (auto simp: lruSpec_Get_def lruSpec_ok_def lruSpec_bytes_def live_of_find)
next
  case (Some e)
  note f = find_item_Some [OF Some] find_drop_length [OF Some]
  have k: "k \<notin> set (keys_of (drop_item k (lsItems s)))" by (simp add: keys_of_drop)
  have d: "distinct (keys_of (lsItems s))" using ok by (simp add: lruSpec_ok_def)
  show ?thesis
  proof (cases "expired now (itExpires e)")
    case True
    with Some g ok f bytes_of_drop [OF d Some] show ?thesis
      by (auto simp: lruSpec_Get_def lruSpec_ok_def lruSpec_bytes_def live_of_find live_of_drop)
  next
    case False
    let ?e = "e\<lparr>itHits := itHits e + 1\<rparr>"
    have "live_of (?e # drop_item k (lsItems s)) = (live_of (lsItems s))(k \<mapsto> (itValue e, itExpires e))"
      using live_of_move [OF Some, of ?e] f by simp
    moreover have "distinct (keys_of (?e # drop_item k (lsItems s)))" using d f k by auto
    ultimately show ?thesis
      using Some g ok f False bytes_of_drop [OF d Some]
      by (auto simp: lruSpec_Get_def lruSpec_ok_def lruSpec_bytes_def live_of_find simp del: live_of_simps)
  qed
qed

lemma lruSpec_Peek_law:
  assumes ok: "lruSpec_ok s" and g: "lruSpec_Peek now k s = (r, s')"
  shows "lruSpec_ok s' \<and> r = look now (lruSpec_live s k) \<and>
    lruSpec_live s' = (lruSpec_live s)(k := keep now (lruSpec_live s k)) \<and>
    (lruSpec_bytes s \<longrightarrow> lruSpec_bytes s')"
proof (cases "find_item k (lsItems s)")
  case None
  with g ok show ?thesis by (auto simp: lruSpec_Peek_def lruSpec_ok_def live_of_find)
next
  case (Some e)
  have d: "distinct (keys_of (lsItems s))" using ok by (simp add: lruSpec_ok_def)
  have "(lruSpec_live s)(k := Some (itValue e, itExpires e)) = lruSpec_live s"
    using live_of_find(2) [OF Some] by (simp add: fun_upd_idem)
  with Some g ok find_drop_length [OF Some] bytes_of_drop [OF d Some] show ?thesis
    by (auto simp: lruSpec_Peek_def lruSpec_ok_def lruSpec_bytes_def live_of_find live_of_drop
        split: if_splits)
qed

lemma lruSpec_Delete_law:
  assumes ok: "lruSpec_ok s" and g: "lruSpec_Delete k s = (r, s')"
  shows "lruSpec_ok s' \<and> lruSpec_live s' = (lruSpec_live s)(k := None) \<and>
    r = (lruSpec_live s k \<noteq> None) \<and> (lruSpec_bytes s \<longrightarrow> lruSpec_bytes s')"
proof (cases "find_item k (lsItems s)")
  case None
  with g ok show ?thesis by (auto simp: lruSpec_Delete_def live_of_find fun_upd_idem)
next
  case (Some e)
  have d: "distinct (keys_of (lsItems s))" using ok by (simp add: lruSpec_ok_def)
  with Some g ok find_drop_length [OF Some] bytes_of_drop [OF d Some] show ?thesis
    by (auto simp: lruSpec_Delete_def lruSpec_ok_def lruSpec_bytes_def live_of_find live_of_drop)
qed

text \<open>
  \<open>Set\<close> holds the new value, drops at most the last item, and reports it when a callback is
  registered.
\<close>

lemma lruSpec_Set_law:
  assumes ok: "lruSpec_ok s" and g: "lruSpec_Set now k v ttl s = (err, evs, s')"
  shows "lruSpec_ok s' \<and> err = None \<and> (lruSpec_bytes s \<longrightarrow> lruSpec_bytes s') \<and>
    lsOnEvict s' = lsOnEvict s \<and>
    lruSpec_live s' k = Some (v, expiryOf now ttl) \<and>
    (\<exists>ds::item list. distinct (keys_of ds) \<and> k \<notin> set (keys_of ds) \<and>
      (\<forall>k'. k' \<noteq> k \<longrightarrow> lruSpec_live s' k' = (if k' \<in> set (keys_of ds) then None else lruSpec_live s k')) \<and>
      (\<forall>e\<in>set ds. lruSpec_live s (itKey e) = Some (itValue e, itExpires e)) \<and>
      evs = (if lsOnEvict s then map (\<lambda>e. (itKey e, itValue e)) ds else []))"
proof (cases "find_item k (lsItems s)")
  case (Some e)
  have d: "distinct (keys_of (lsItems s))" using ok by (simp add: lruSpec_ok_def)
  have k: "k \<notin> set (keys_of (drop_item k (lsItems s)))" by (simp add: keys_of_drop)
  let ?e = "e\<lparr>itValue := v, itExpires := expiryOf now ttl\<rparr>"
  have "live_of (?e # drop_item k (lsItems s)) = (live_of (lsItems s))(k \<mapsto> (v, expiryOf now ttl))"
    using live_of_move [OF Some, of ?e] find_item_Some [OF Some] by simp
  with Some g ok d k find_item_Some [OF Some] find_drop_length [OF Some] bytes_of_drop [OF d Some]
  show ?thesis
    by (auto simp: lruSpec_Set_def lruSpec_ok_def lruSpec_bytes_def simp del: live_of_simps
        intro!: exI [where x = "[]"])
next
  case None
  obtain s1 where e: "lruSpec_evict s = (evs, s1)" using g None by (auto simp: lruSpec_Set_def split: prod.splits)
  obtain ds where ds: "lsItems s = lsItems s1 @ ds"
      "evs = (if lsOnEvict s then map (\<lambda>e. (itKey e, itValue e)) ds else [])"
    and s1: "lsCapacity s1 = lsCapacity s" "int (length (lsItems s1)) < lsCapacity s1"
      "lsOnEvict s1 = lsOnEvict s" "lruSpec_bytes s \<longrightarrow> lruSpec_bytes s1"
    using lruSpec_evict_ok [OF ok e] by auto
  have d: "distinct (keys_of (lsItems s1 @ ds))" using ok ds by (simp add: lruSpec_ok_def)
  have k: "k \<notin> set (keys_of (lsItems s1 @ ds))" using None ds by (simp add: find_item_None)
  let ?x = "\<lparr>itKey = k, itValue = v, itExpires = expiryOf now ttl, itCreated = now, itHits = 0\<rparr>"
  have s': "err = None" "lsItems s' = ?x # lsItems s1" "lsCapacity s' = lsCapacity s1"
      "lsOnEvict s' = lsOnEvict s1" "BytesStored (lsSt s') = BytesStored (lsSt s1) + blen v"
    using None g e by (auto simp: lruSpec_Set_def)
  have "lruSpec_ok s'" using ok d k s1 s' by (simp add: lruSpec_ok_def)
  moreover have "lruSpec_bytes s \<longrightarrow> lruSpec_bytes s'" using s1 s' by (simp add: lruSpec_bytes_def)
  moreover have "lruSpec_live s' k = Some (v, expiryOf now ttl)" using s' by simp
  moreover have "lsOnEvict s' = lsOnEvict s" using s' s1 by simp
  moreover have "\<forall>k'. k' \<noteq> k \<longrightarrow>
      lruSpec_live s' k' = (if k' \<in> set (keys_of ds) then None else lruSpec_live s k')"
  proof (intro allI impI)
    fix k' assume "k' \<noteq> k"
    moreover have "live_of (lsItems s1) k' = None" if "k' \<in> set (keys_of ds)"
      using that d by (auto simp: live_of_None)
    moreover have "live_of ds k' = None" if "k' \<notin> set (keys_of ds)"
      using that by (simp add: live_of_None)
    ultimately show "lruSpec_live s' k' = (if k' \<in> set (keys_of ds) then None else lruSpec_live s k')"
      using s'(2) ds(1) by (auto simp: live_of_append map_add_def split: option.splits)
  qed
  moreover have "\<forall>e\<in>set ds. lruSpec_live s (itKey e) = Some (itValue e, itExpires e)"
  proof
    fix e assume "e \<in> set ds"
    with find_item_mem [of "lsItems s1 @ ds" e] d ds(1)
    show "lruSpec_live s (itKey e) = Some (itValue e, itExpires e)" by (simp add: live_of_def)
  qed
  moreover have "distinct (keys_of ds)" "k \<notin> set (keys_of ds)" using d k by simp_all
  ultimately show ?thesis using s'(1) ds(2) by (intro conjI exI [where x = ds]) assumption+
qed

section \<open>Interpretations\<close>

lemmas lruSpec_sel = lruSpec_cache_def

lemma lruSpec_Purge_law: "lruSpec_ok s \<Longrightarrow> lruSpec_ok (lruSpec_Purge s) \<and> lruSpec_live (lruSpec_Purge s) = Map.empty"
  by (auto simp: lruSpec_Purge_def lruSpec_ok_def)

lemma lruSpec_ok_frame:
  "lruSpec_ok (s\<lparr>lsSt := st\<rparr>) = lruSpec_ok s" "lruSpec_ok (s\<lparr>lsOnEvict := b\<rparr>) = lruSpec_ok s"
  by (simp_all add: lruSpec_ok_def)

lemma lruSpec_ok_bound: "lruSpec_ok s \<Longrightarrow> int (length (lsItems s)) \<le> lsCapacity s"
  by (simp add: lruSpec_ok_def)

interpretation lruSpec: bounded_cache lruSpec_cache lruSpec_ok "\<lambda>s. live_of (lsItems s)"
proof
  fix c c' now k v ttl err evs
  assume ok: "lruSpec_ok c" and "mSet lruSpec_cache now k v ttl c = (err, evs, c')"
  then have g: "lruSpec_Set now k v ttl c = (err, evs, c')" by (simp add: lruSpec_sel)
  obtain ds :: "item list" where
      d: "\<forall>k'. k' \<noteq> k \<longrightarrow> lruSpec_live c' k' = (if k' \<in> set (keys_of ds) then None else lruSpec_live c k')"
      "\<forall>e\<in>set ds. lruSpec_live c (itKey e) = Some (itValue e, itExpires e)" "k \<notin> set (keys_of ds)"
      "evs = (if lsOnEvict c then map (\<lambda>e. (itKey e, itValue e)) ds else [])"
    and l: "lruSpec_ok c'" "err = None" "lruSpec_live c' k = Some (v, expiryOf now ttl)"
    using lruSpec_Set_law [OF ok g] by blast
  have "\<forall>(k', v') \<in> set evs. k' \<noteq> k \<and> lruSpec_live c' k' = None \<and> (\<exists>e. lruSpec_live c k' = Some (v', e))"
  proof
    fix p assume "p \<in> set evs"
    with d(4) obtain e where e: "e \<in> set ds" "p = (itKey e, itValue e)" by (auto split: if_splits)
    with d(3) have "itKey e \<noteq> k" "itKey e \<in> set (keys_of ds)" by (auto simp: keys_of_def)
    with d(1) [rule_format, of "itKey e"] d(2) e
    show "case p of (k', v') \<Rightarrow> k' \<noteq> k \<and> lruSpec_live c' k' = None \<and> (\<exists>e. lruSpec_live c k' = Some (v', e))"
      by auto
  qed
  then show "lruSpec_ok c' \<and> err = None \<and> lruSpec_live c' k = Some (v, expiryOf now ttl) \<and>
      (\<forall>k'. k' \<noteq> k \<longrightarrow> lruSpec_live c' k' = lruSpec_live c k' \<or> lruSpec_live c' k' = None) \<and>
      (\<forall>(k', v') \<in> set evs. k' \<noteq> k \<and> lruSpec_live c' k' = None \<and> (\<exists>e. lruSpec_live c k' = Some (v', e)))"
    using l d(1) by auto
next
  fix c now assume "lruSpec_ok c"
  then show "\<exists>ks. mKeys lruSpec_cache now c = Some ks \<and> distinct ks \<and>
      set ks = {k. \<exists>v e. lruSpec_live c k = Some (v, e) \<and> unexpired now e}"
    using live_of_keys [of "lsItems c" now]
    by (simp add: lruSpec_sel lruSpec_ok_def) (simp add: keys_of_def distinct_map_filter)
next
  fix c assume "lruSpec_ok c"
  then show "finite (dom (lruSpec_live c)) \<and> mLen lruSpec_cache c = int (card (dom (lruSpec_live c)))"
    using card_dom_live [of "lsItems c"] by (simp add: lruSpec_sel lruSpec_ok_def dom_live_of)
qed (auto simp: lruSpec_sel lruSpec_Purge_law lruSpec_ok_frame lruSpec_ok_bound
      dest: lruSpec_Get_law lruSpec_Peek_law lruSpec_Delete_law)

text \<open>The pointer-level cache implements the machine, hence satisfies the same contract.\<close>

lemma lru_sim_abs: "lru_sim c s \<longleftrightarrow> lru_wf c \<and> lru_abs c = s"
  by (auto simp: lru_sim_iff)

lemma lru_sim_view:
  assumes "lru_sim c s"
  shows "lcSt c = lsSt s" and "lru_sim (c\<lparr>lcOnEvict := b\<rparr>) (s\<lparr>lsOnEvict := b\<rparr>)"
    and "lru_sim (modSt f c) (s\<lparr>lsSt := f (lsSt s)\<rparr>)"
  using assms by (auto simp: lru_sim_def lru_view_def lru_rep_def lru_links_def)

interpretation lruImpl: cache_implements lru_cache lruSpec_cache lru_sim lruSpec_ok "\<lambda>s. live_of (lsItems s)"
    "\<lambda>c. live_of (lsItems (lru_abs c))"
proof
  fix c s now k r c' assume "lru_sim c s" "mGet lru_cache now k c = (r, c')"
  then show "\<exists>s'. mGet lruSpec_cache now k s = (r, s') \<and> lru_sim c' s'"
    using sim_Get [of c s now k r c'] by (simp add: lru_cache_def lruSpec_sel)
next
  fix c s now k r c' assume "lru_sim c s" "mPeek lru_cache now k c = (r, c')"
  then show "\<exists>s'. mPeek lruSpec_cache now k s = (r, s') \<and> lru_sim c' s'"
    using sim_Peek [of c s now k r c'] by (simp add: lru_cache_def lruSpec_sel)
next
  fix c s now k v ttl err evs c' assume "lru_sim c s" "mSet lru_cache now k v ttl c = (err, evs, c')"
  then show "\<exists>s'. mSet lruSpec_cache now k v ttl s = (err, evs, s') \<and> lru_sim c' s'"
    using sim_Set [of c s now k v ttl err evs c'] by (simp add: lru_cache_def lruSpec_sel)
next
  fix c s k found c' assume "lru_sim c s" "mDelete lru_cache k c = (found, c')"
  then show "\<exists>s'. mDelete lruSpec_cache k s = (found, s') \<and> lru_sim c' s'"
    using sim_Delete [of c s k found c'] by (simp add: lru_cache_def lruSpec_sel)
next
  fix c s now assume s: "lru_sim c s"
  then obtain ns where r: "lru_rep c ns" and a: "s = lru_view c ns" by (auto simp: lru_sim_def)
  have "distinct (keys_of (lsItems s))"
    using index_distinct_keys [OF rep_index [OF r], of "\<lambda>n. lru_item (lcHeap c n)"] a
    by (simp add: lru_view_def)
  then show "\<exists>ks ks'. mKeys lru_cache now c = Some ks \<and> mKeys lruSpec_cache now s = Some ks' \<and>
      distinct ks \<and> set ks = set ks'"
    using sim_read(1) [OF s] by (simp add: lru_cache_def lruSpec_sel keys_of_def distinct_map_filter)
qed (auto simp: lru_cache_def lruSpec_sel lru_Capacity_def lru_SetEvictionCallback_def sim_read(2,3)
      sim_Purge lru_sim_view lru_sim_abs [symmetric] dest: lru_sim_abs [THEN iffD1])

interpretation lru: bounded_cache lru_cache "\<lambda>c. \<exists>s. lru_sim c s \<and> lruSpec_ok s"
    "\<lambda>c. live_of (lsItems (lru_abs c))"
  by (rule lruImpl.contract)

lemma lru_New_ok: "lru_wf (lru_New cap)" "lru_abs (lru_New cap) = lruSpec_New cap"
  using sim_New [of cap] by (simp_all add: lru_sim_abs lruSpec_New_def)

lemma lru_sim_New: "lru_sim (lru_New cap) (lruSpec_New cap)"
  by (simp add: lru_sim_abs lru_New_ok)

lemma lruSpec_New_ok: "lruSpec_ok (lruSpec_New cap)" "lruSpec_bytes (lruSpec_New cap)"
  by (simp_all add: lruSpec_New_def lruSpec_ok_def lruSpec_bytes_def newStats_def)

text \<open>A registered callback sees every item that an insertion drops.\<close>

lemma lru_onEvict:
  "lru_Get now k c = (r, c') \<Longrightarrow> lcOnEvict c' = lcOnEvict c"
  "lru_Peek now k c = (r, c') \<Longrightarrow> lcOnEvict c' = lcOnEvict c"
  "lru_Set now k v ttl c = (err, evs, c') \<Longrightarrow> lcOnEvict c' = lcOnEvict c"
  "lru_Delete k c = (found, c') \<Longrightarrow> lcOnEvict c' = lcOnEvict c"
  "lcOnEvict (lru_Purge c) = lcOnEvict c"
proof -
  have m: "lcOnEvict (lru_moveToFront n c) = lcOnEvict c" for n c by (simp add: lru_moveToFront_def)
  have e: "lcOnEvict (snd (lru_evictTail c)) = lcOnEvict c" for c
    by (simp add: lru_evictTail_def Let_def split: option.splits)
  show "lru_Get now k c = (r, c') \<Longrightarrow> lcOnEvict c' = lcOnEvict c"
    by (auto simp: lru_Get_def Let_def m split: option.splits if_splits)
  show "lru_Peek now k c = (r, c') \<Longrightarrow> lcOnEvict c' = lcOnEvict c"
    by (auto simp: lru_Peek_def Let_def split: option.splits if_splits)
  show "lru_Delete k c = (found, c') \<Longrightarrow> lcOnEvict c' = lcOnEvict c"
    by (auto simp: lru_Delete_def Let_def split: option.splits)
  show "lcOnEvict (lru_Purge c) = lcOnEvict c" by (simp add: lru_Purge_def)
  show "lru_Set now k v ttl c = (err, evs, c') \<Longrightarrow> lcOnEvict c' = lcOnEvict c"
    using e [of c] by (auto simp: lru_Set_def Let_def m split: option.splits if_splits prod.splits)
qed

lemma lruSpec_reports:
  assumes "lruSpec_ok s" and "lsOnEvict s" and g: "lruSpec_Set now k v ttl s = (err, evs, s')"
    and k: "k' \<noteq> k" "lruSpec_live s k' = Some (v', e)" "lruSpec_live s' k' = None"
  shows "(k', v') \<in> set evs"
proof -
  obtain ds :: "item list" where
      d: "\<forall>k'. k' \<noteq> k \<longrightarrow> lruSpec_live s' k' = (if k' \<in> set (keys_of ds) then None else lruSpec_live s k')"
      "\<forall>e\<in>set ds. lruSpec_live s (itKey e) = Some (itValue e, itExpires e)"
      "evs = (if lsOnEvict s then map (\<lambda>e. (itKey e, itValue e)) ds else [])"
    using lruSpec_Set_law [OF assms(1) g] by blast
  from d(1) k have "k' \<in> set (keys_of ds)" by (metis option.distinct(1))
  then obtain x where x: "x \<in> set ds" "itKey x = k'" by (auto simp: keys_of_def)
  with d(2) k(2) have "itValue x = v'" by auto
  with d(3) x assms(2) show ?thesis by force
qed

lemma lru_New_live: "\<exists>s. lru_sim (lru_New cap) s \<and> lruSpec_ok s" "live_of (lsItems (lru_abs (lru_New cap))) = Map.empty"
  using lru_New_ok lruSpec_New_ok lru_sim_abs by (blast, auto simp: lru_New_ok lruSpec_New_def)

interpretation lruReports: reporting_cache lru_cache "\<lambda>c. \<exists>s. lru_sim c s \<and> lruSpec_ok s"
    "\<lambda>c. live_of (lsItems (lru_abs c))" lcOnEvict
proof
  fix c c' now k v ttl err evs k' v' e
  assume i: "\<exists>s. lru_sim c s \<and> lruSpec_ok s" and o: "lcOnEvict c"
    and g: "mSet lru_cache now k v ttl c = (err, evs, c')"
    and k: "k' \<noteq> k" "lruSpec_live (lru_abs c) k' = Some (v', e)" "lruSpec_live (lru_abs c') k' = None"
  from i have s: "lru_sim c (lru_abs c)" "lruSpec_ok (lru_abs c)" by (auto simp: lru_sim_abs)
  from lruImpl.set_sim [OF s(1) g]
  have "lruSpec_Set now k v ttl (lru_abs c) = (err, evs, lru_abs c')" by (auto simp: lruSpec_sel lru_sim_abs)
  from lruSpec_reports [OF _ _ this k] s o show "(k', v') \<in> set evs"
    by (simp add: lru_abs_def lru_view_def)
qed (auto simp: lru_cache_def lru_SetEvictionCallback_def lru_onEvict(5) dest: lru_onEvict(1-4))

section \<open>Recency\<close>

text \<open>
  The keys an operation may move to the front, and the runs that leave a key alone: no
  \<open>Delete\<close> or overwrite of it and no \<open>Purge\<close>.
\<close>

fun op_touches :: "cacheOp \<Rightarrow> key set" where
  "op_touches (OpGet now k) = {k}"
| "op_touches (OpSet now k v ttl) = {k}"
| "op_touches _ = {}"

fun op_spares :: "key \<Rightarrow> cacheOp \<Rightarrow> bool" where
  "op_spares k (OpSet now k' v ttl) \<longleftrightarrow> k' \<noteq> k"
| "op_spares k (OpDelete k') \<longleftrightarrow> k' \<noteq> k"
| "op_spares k OpPurge \<longleftrightarrow> False"
| "op_spares k _ \<longleftrightarrow> True"

text \<open>
  \<open>k\<close> holds the permanent value \<open>v\<close>, and every item in front of it has a key of \<open>T\<close>.
\<close>

definition ahead_of :: "key \<Rightarrow> bytes \<Rightarrow> key set \<Rightarrow> item list \<Rightarrow> bool" where
  "ahead_of k v T es \<longleftrightarrow>
     (\<exists>xs e ys. es = xs @ e # ys \<and> itKey e = k \<and> itValue e = v \<and> itExpires e = None \<and>
        set (keys_of xs) \<subseteq> T)"

lemma ahead_drop:
  assumes "ahead_of k v T es" and "k' \<noteq> k"
  shows "ahead_of k v T (drop_item k' es)"
proof -
  obtain xs e ys where es: "es = xs @ e # ys" "itKey e = k" "itValue e = v" "itExpires e = None"
    "set (keys_of xs) \<subseteq> T" using assms(1) by (auto simp: ahead_of_def)
  then have "drop_item k' es = drop_item k' xs @ e # drop_item k' ys" using assms(2) by simp
  moreover have "set (keys_of (drop_item k' xs)) \<subseteq> T" using es(5) by (auto simp: keys_of_drop)
  ultimately show ?thesis using es unfolding ahead_of_def by blast
qed

lemma ahead_Cons:
  assumes "ahead_of k v T es"
  shows "ahead_of k v (insert (itKey x) T) (x # es)"
proof -
  obtain xs e ys where es: "es = xs @ e # ys" "itKey e = k" "itValue e = v" "itExpires e = None"
    "set (keys_of xs) \<subseteq> T" using assms by (auto simp: ahead_of_def)
  show ?thesis unfolding ahead_of_def
    by (rule exI [of _ "x # xs"], rule exI [of _ e], rule exI [of _ ys]) (use es in auto)
qed

lemma ahead_mono: "ahead_of k v T es \<Longrightarrow> T \<subseteq> T' \<Longrightarrow> ahead_of k v T' es"
  unfolding ahead_of_def by blast

lemma ahead_find:
  assumes d: "distinct (keys_of es)" and a: "ahead_of k v T es"
  shows "\<exists>e. find_item k es = Some e \<and> itValue e = v \<and> itExpires e = None"
proof -
  obtain xs e ys where es: "es = xs @ e # ys" "itKey e = k" "itValue e = v" "itExpires e = None"
    using a by (auto simp: ahead_of_def)
  then have "find_item k es = Some e" using find_item_mem [OF d, of e] by simp
  with es show ?thesis by blast
qed

lemma ahead_restrict: "ahead_of k v T es \<Longrightarrow> k' \<notin> set (keys_of es) \<Longrightarrow> ahead_of k v (T - {k'}) es"
  unfolding ahead_of_def by fastforce

lemma ahead_front: "ahead_of k v {} (e # es)" if "itKey e = k" "itValue e = v" "itExpires e = None"
  using that unfolding ahead_of_def by (intro exI [of _ "[]"]) auto

text \<open>An insertion into a full list drops another item as long as the keys used are few.\<close>

lemma ahead_butlast:
  assumes a: "ahead_of k v T es" and d: "distinct (keys_of es)" and T: "finite T" "card T < length es - 1"
  shows "ahead_of k v T (butlast es)"
proof -
  obtain xs e ys where es: "es = xs @ e # ys" "itKey e = k" "itValue e = v" "itExpires e = None"
    "set (keys_of xs) \<subseteq> T" using a by (auto simp: ahead_of_def)
  have "length xs = card (set (keys_of xs))" using d es by (simp add: distinct_card)
  also have "\<dots> \<le> card T" using es T by (simp add: card_mono)
  finally have "ys \<noteq> []" using T es by auto
  then have "butlast es = xs @ e # butlast ys" using es by (simp add: butlast_append)
  with es show ?thesis unfolding ahead_of_def by blast
qed

lemma ahead_Set:
  assumes ok: "lruSpec_ok s" and a: "ahead_of k v T (lsItems s)" and k: "k' \<noteq> k" and f: "finite T"
    and T: "int (card (insert k' T)) < lsCapacity s"
    and g: "lruSpec_Set now k' v' ttl s = (err, evs, s')"
  shows "ahead_of k v (insert k' T) (lsItems s')"
proof (cases "find_item k' (lsItems s)")
  case (Some e)
  then have "lsItems s' = e\<lparr>itValue := v', itExpires := expiryOf now ttl\<rparr> # drop_item k' (lsItems s)"
    and "itKey e = k'"
    using g find_item_Some [OF Some] by (auto simp: lruSpec_Set_def)
  with ahead_Cons [OF ahead_drop [OF a k], of "e\<lparr>itValue := v', itExpires := expiryOf now ttl\<rparr>"]
  show ?thesis by simp
next
  case None
  obtain s1 where e: "lruSpec_evict s = (evs, s1)" using g None by (auto simp: lruSpec_Set_def split: prod.splits)
  let ?x = "\<lparr>itKey = k', itValue = v', itExpires = expiryOf now ttl, itCreated = now, itHits = 0\<rparr>"
  have s': "lsItems s' = ?x # lsItems s1" using None g e by (auto simp: lruSpec_Set_def)
  have r: "ahead_of k v (T - {k'}) (lsItems s)" using ahead_restrict [OF a] None by (simp add: find_item_None)
  have "ahead_of k v (T - {k'}) (lsItems s1)"
  proof (cases "int (length (lsItems s)) < lsCapacity s")
    case True
    with e r show ?thesis by (simp add: lruSpec_evict_def)
  next
    case False
    have "card (insert k' T) = Suc (card (T - {k'}))" using f by (simp add: card.insert_remove)
    with T False have "card (T - {k'}) < length (lsItems s) - 1" by linarith
    from ahead_butlast [OF r _ _ this] f ok have "ahead_of k v (T - {k'}) (butlast (lsItems s))"
      by (simp add: lruSpec_ok_def)
    with e False show ?thesis by (auto simp: lruSpec_evict_def Let_def)
  qed
  from ahead_mono [OF this, of T] have "ahead_of k v T (lsItems s1)" by blast
  from ahead_Cons [OF this, of ?x] s' show ?thesis by simp
qed

lemma ahead_step:
  assumes ok: "lruSpec_ok s" and a: "ahead_of k v T (lsItems s)" and x: "op_spares k x" and f: "finite T"
    and T: "int (card (T \<union> (op_touches x - {k}))) < lsCapacity s"
  shows "ahead_of k v (T \<union> (op_touches x - {k})) (lsItems (cache_step lruSpec_cache s x))"
proof -
  have d: "distinct (keys_of (lsItems s))" using ok by (simp add: lruSpec_ok_def)
  obtain e where e: "find_item k (lsItems s) = Some e" "itValue e = v" "itExpires e = None"
    using ahead_find [OF d a] by blast
  note step = cache_step_def lruSpec_sel
  show ?thesis
  proof (cases x)
    case (OpGet now k')
    let ?hit = "\<lambda>e::item. e\<lparr>itHits := itHits e + 1\<rparr>"
    show ?thesis
    proof (cases "k' = k")
      case True
      with OpGet e ahead_front [of "?hit e" k v] find_item_Some [OF e(1)] show ?thesis
        by (auto simp: step lruSpec_Get_def intro: ahead_mono)
    next
      case False
      have "ahead_of k v (insert k' T) (?hit e' # drop_item k' (lsItems s))"
        if "find_item k' (lsItems s) = Some e'" for e'
        using ahead_Cons [OF ahead_drop [OF a False], of "?hit e'"] find_item_Some [OF that] by simp
      with OpGet False ahead_mono [OF a, of "insert k' T"] ahead_mono [OF ahead_drop [OF a False], of "insert k' T"]
      show ?thesis
        by (auto simp: step lruSpec_Get_def insert_Diff_if split: option.splits)
    qed
  next
    case (OpPeek now k')
    with e a ahead_drop [OF a] show ?thesis
      by (cases "k' = k") (auto simp: step lruSpec_Peek_def split: option.splits)
  next
    case (OpSet now k' v' ttl)
    obtain err evs s' where g: "lruSpec_Set now k' v' ttl s = (err, evs, s')"
      by (cases "lruSpec_Set now k' v' ttl s")
    with ahead_Set [OF ok a _ f _ g] OpSet x T show ?thesis by (simp add: step insert_Diff_if)
  next
    case (OpDelete k')
    with a x ahead_drop [OF a, of k'] show ?thesis
      by (auto simp: step lruSpec_Delete_def split: option.splits)
  next
    case OpPurge
    with x show ?thesis by simp
  next
    case (OpCallback b)
    with a show ?thesis by (simp add: step)
  qed
qed

lemma lruSpec_step_capacity: "lsCapacity (cache_step lruSpec_cache s x) = lsCapacity s"
  by (cases x) (auto simp: cache_step_def lruSpec_sel lruSpec_Get_def lruSpec_Peek_def lruSpec_Set_def
      lruSpec_Delete_def lruSpec_Purge_def lruSpec_evict_def Let_def split: option.splits prod.splits)

lemma lruSpec_run_capacity: "lsCapacity (foldl (cache_step lruSpec_cache) s xs) = lsCapacity s"
  by (induction xs arbitrary: s) (simp_all add: lruSpec_step_capacity)

definition touched_but :: "key \<Rightarrow> cacheOp list \<Rightarrow> key set" where
  "touched_but k xs = \<Union> (op_touches ` set xs) - {k}"

lemma touched_but_simps [simp]:
  "touched_but k [] = {}"
  "touched_but k (x # xs) = (op_touches x - {k}) \<union> touched_but k xs"
  by (auto simp: touched_but_def)

lemma finite_touches [simp]: "finite (op_touches x)" "finite (touched_but k xs)"
proof -
  show f: "finite (op_touches x)" for x by (cases x) simp_all
  show "finite (touched_but k xs)" using f by (simp add: touched_but_def)
qed

lemma ahead_run:
  "lruSpec_ok s \<Longrightarrow> ahead_of k v T (lsItems s) \<Longrightarrow> finite T \<Longrightarrow> list_all (op_spares k) xs \<Longrightarrow>
   int (card (T \<union> touched_but k xs)) < lsCapacity s \<Longrightarrow>
   ahead_of k v (T \<union> touched_but k xs) (lsItems (foldl (cache_step lruSpec_cache) s xs))"
proof (induction xs arbitrary: s T)
  case Nil
  then show ?case by simp
next
  case (Cons x xs)
  let ?T = "T \<union> (op_touches x - {k})" and ?s = "cache_step lruSpec_cache s x"
  have "card ?T \<le> card (T \<union> touched_but k (x # xs))" using Cons.prems(3) by (intro card_mono) auto
  with Cons.prems have "ahead_of k v ?T (lsItems ?s)" by (intro ahead_step) simp_all
  moreover have "lruSpec_ok ?s" using lruSpec.step_ok [OF Cons.prems(1)] by blast
  moreover have "?T \<union> touched_but k xs = T \<union> touched_but k (x # xs)" by auto
  ultimately show ?case using Cons.IH [of ?s ?T] Cons.prems by (simp add: lruSpec_step_capacity)
qed

lemma lruSpec_bytes_frame:
  "lruSpec_bytes (s\<lparr>lsOnEvict := b\<rparr>) = lruSpec_bytes s" "lruSpec_bytes (lruSpec_Purge s)"
  by (simp_all add: lruSpec_bytes_def lruSpec_Purge_def newStats_def)

lemma lruSpec_run_bytes:
  assumes "lruSpec_ok s" and "lruSpec_bytes s"
  shows "lruSpec_bytes (foldl (cache_step lruSpec_cache) s xs)"
proof -
  have "lruSpec_ok (foldl (cache_step lruSpec_cache) s xs) \<and> lruSpec_bytes (foldl (cache_step lruSpec_cache) s xs)"
    by (rule cache_run_invariant [where P = "\<lambda>s. lruSpec_ok s \<and> lruSpec_bytes s"])
       (use assms in \<open>auto simp: lruSpec_sel lruSpec_ok_frame lruSpec_bytes_frame lruSpec_Purge_law
          dest: lruSpec_Get_law lruSpec_Peek_law lruSpec_Set_law lruSpec_Delete_law\<close>)
  then show ?thesis by simp
qed

section \<open>Properties\<close>

abbreviation lru_run :: "int \<Rightarrow> cacheOp list \<Rightarrow> LRUCache" where
  "lru_run cap xs \<equiv> foldl (cache_step lru_cache) (lru_New cap) xs"

text \<open>What holds of every state that the operations reach from \<open>New\<close>.\<close>

lemma lru_run_ok:
  defines "s \<equiv> \<lambda>cap xs. foldl (cache_step lruSpec_cache) (lruSpec_New cap) xs"
  shows "lru_sim (lru_run cap xs) (s cap xs)" and "lruSpec_ok (s cap xs)" and "lruSpec_bytes (s cap xs)"
    and "lsCapacity (s cap xs) = (if cap \<le> 0 then 1 else cap)"
proof -
  show "lru_sim (lru_run cap xs) (s cap xs)"
    using lruImpl.run_sim [of "lru_New cap" "lruSpec_New cap" xs] lru_New_ok by (simp add: lru_sim_abs s_def)
  show "lruSpec_ok (s cap xs)" using lruSpec.run_latest [of "lruSpec_New cap"] lruSpec_New_ok
    by (metis map_le_refl s_def)
  show "lruSpec_bytes (s cap xs)" unfolding s_def by (intro lruSpec_run_bytes lruSpec_New_ok)
  show "lsCapacity (s cap xs) = (if cap \<le> 0 then 1 else cap)"
    by (simp add: s_def lruSpec_run_capacity lruSpec_New_def)
qed

lemma lru_run_len: "lru_Len (lru_run cap xs) \<le> (if cap \<le> 0 then 1 else cap)"
  using sim_read [OF lru_run_ok(1)] lru_run_ok(2,4) by (simp add: lruSpec_ok_def)

lemma sim_Snapshot:
  assumes "lru_sim c s"
  shows "\<exists>sn. lru_Snapshot now c = Some sn \<and>
    map (\<lambda>e. (enKey e, enValue e, enExpiresAt e)) (srEntries sn) =
    map (\<lambda>e. (itKey e, itValue e, itExpires e)) (lsItems s)"
proof -
  obtain ns where rep: "lru_rep c ns" and s: "s = lru_view c ns" using assms by (auto simp: lru_sim_def)
  have "map (\<lambda>e. (enKey e, enValue e, enExpiresAt e))
      (map (\<lambda>(pos, n). lru_entry now pos (lcHeap c n)) (enumerate i ns)) =
    map (\<lambda>e. (itKey e, itValue e, itExpires e)) (map (\<lambda>n. lru_item (lcHeap c n)) ns)" for i
    by (induction ns arbitrary: i) (simp_all add: lru_entry_def)
  with lru_links_walk [OF rep_links [OF rep]] s show ?thesis by (simp add: lru_Snapshot_def lru_view_def)
qed

lemma map_items:
  assumes "map (\<lambda>e. (enKey e, enValue e, enExpiresAt e)) sn = map (\<lambda>e::item. (itKey e, itValue e, itExpires e)) es"
  shows "length sn = length es" and "map enKey sn = keys_of es"
    and "(\<Sum>e\<leftarrow>sn. blen (enValue e)) = bytes_of es"
    and "map enKey (filter (\<lambda>e. unexpired now (enExpiresAt e)) sn) =
      keys_of (filter (\<lambda>e. unexpired now (itExpires e)) es)"
  using assms by (induction sn arbitrary: es) (auto simp: Cons_eq_map_conv keys_of_def bytes_of_def)

text \<open>
  C1: the pointer-level LRU cache behaves exactly as the recency-list machine: along any
  sequence of operations from \<open>New\<close>, every result, every eviction callback, every length and
  every counter are those of the machine.
\<close>

theorem lru_trace_correct:
  "cache_trace lru_cache (lru_New cap) xs = cache_trace lruSpec_cache (lruSpec_New cap) xs"
  by (rule lruImpl.trace_eq [OF lru_sim_New])

text \<open>
  a hit of the LRU cache returns the value of the latest \<open>Set\<close> of that key, which no
  \<open>Delete\<close> or \<open>Purge\<close> has followed, and that value has not expired.
\<close>

theorem lru_hit_is_latest:
  assumes "fst (lru_Get now k (lru_run cap xs)) = Some v"
  shows "\<exists>e. foldl latest_step Map.empty xs k = Some (v, e) \<and> \<not> expired now e"
proof -
  have "live_of (lsItems (lru_abs (lru_New cap))) \<subseteq>\<^sub>m Map.empty"
    by (simp add: lru_New_ok lruSpec_New_def map_le_def)
  with lru.get_latest [of "lru_New cap" now k xs v] lru_sim_New lruSpec_New_ok assms
  show ?thesis by (auto simp: lru_cache_def)
qed

lemma lru_hit_is_latest_witness:
  "\<exists>e. foldl latest_step Map.empty [OpSet 0 ''a'' [7] 9, OpSet 1 ''b'' [8] 0, OpDelete ''b''] ''a'' = Some ([7], e) \<and>
     \<not> expired 5 e"
  by (rule lru_hit_is_latest [of 5 "''a''" 2]) code_simp

text \<open>
  after any run the LRU cache holds at most its capacity, a capacity of zero or less
  counting as one.
\<close>

theorem lru_bounded:
  "lru_Len (lru_run cap xs) \<le> (if cap \<le> 0 then 1 else cap)"
  by (rule lru_run_len)

text \<open>
  after any run \<open>Snapshot\<close> and \<open>Keys\<close> of the LRU cache end, the snapshot has one entry per
  key, \<open>Keys\<close> lists the unexpired ones in its order, and the counter \<open>BytesStored\<close> is the sum
  of the sizes of its values.
\<close>

theorem lru_snapshot_consistent:
  "\<exists>sn. lru_Snapshot now (lru_run cap xs) = Some sn \<and>
     int (length (srEntries sn)) = lru_Len (lru_run cap xs) \<and>
     distinct (map enKey (srEntries sn)) \<and>
     BytesStored (lcSt (lru_run cap xs)) = (\<Sum>e\<leftarrow>srEntries sn. blen (enValue e)) \<and>
     lru_Keys now (lru_run cap xs) =
       Some (map enKey (filter (\<lambda>e. unexpired now (enExpiresAt e)) (srEntries sn)))"
proof -
  note s = lru_run_ok [where cap = cap and xs = xs]
  obtain sn where sn: "lru_Snapshot now (lru_run cap xs) = Some sn"
    "map (\<lambda>e. (enKey e, enValue e, enExpiresAt e)) (srEntries sn) =
     map (\<lambda>e. (itKey e, itValue e, itExpires e)) (lsItems (foldl (cache_step lruSpec_cache) (lruSpec_New cap) xs))"
    using sim_Snapshot [OF s(1)] by blast
  from map_items [OF sn(2)] sn(1) sim_read [OF s(1)] lru_sim_view(1) [OF s(1)] s(2,3) show ?thesis
    by (simp add: lruSpec_ok_def lruSpec_bytes_def)
qed

text \<open>
  a value stored without a TTL in the LRU cache survives while fewer than capacity other
  keys are read or written: whatever the operations before, as long as those after it do not
  delete or overwrite the key or purge, \<open>Get\<close> returns the value.
\<close>

theorem lru_survives:
  assumes "ttl \<le> 0" and "list_all (op_spares k) ys"
    and "int (card (touched_but k ys)) < (if cap \<le> 0 then 1 else cap)"
  shows "fst (lru_Get now k (lru_run cap (xs @ OpSet t k v ttl # ys))) = Some v"
proof -
  let ?s0 = "foldl (cache_step lruSpec_cache) (lruSpec_New cap) xs"
  let ?s1 = "cache_step lruSpec_cache ?s0 (OpSet t k v ttl)"
  have s1: "?s1 = foldl (cache_step lruSpec_cache) (lruSpec_New cap) (xs @ [OpSet t k v ttl])" by simp
  obtain err evs s' where g: "lruSpec_Set t k v ttl ?s0 = (err, evs, s')"
    by (cases "lruSpec_Set t k v ttl ?s0")
  then have "\<exists>e es. lsItems s' = e # es \<and> itKey e = k \<and> itValue e = v \<and> itExpires e = None"
    using assms(1)
    by (auto simp: lruSpec_Set_def expiryOf_def split: option.splits prod.splits dest!: find_item_Some)
  with g have "ahead_of k v {} (lsItems ?s1)" using ahead_front by (auto simp: cache_step_def lruSpec_sel)
  moreover have "lruSpec_ok ?s1" "lsCapacity ?s1 = (if cap \<le> 0 then 1 else cap)"
    unfolding s1 by (rule lru_run_ok)+
  ultimately have "ahead_of k v ({} \<union> touched_but k ys) (lsItems (foldl (cache_step lruSpec_cache) ?s1 ys))"
    using assms(2,3) by (intro ahead_run) simp_all
  moreover have e: "foldl (cache_step lruSpec_cache) ?s1 ys =
      foldl (cache_step lruSpec_cache) (lruSpec_New cap) (xs @ OpSet t k v ttl # ys)" by simp
  moreover note r = lru_run_ok [where cap = cap and xs = "xs @ OpSet t k v ttl # ys"]
  ultimately obtain e where "find_item k (lsItems (foldl (cache_step lruSpec_cache) (lruSpec_New cap)
      (xs @ OpSet t k v ttl # ys))) = Some e" "itValue e = v" "itExpires e = None"
    using ahead_find by (metis lruSpec_ok_def)
  then have "fst (lruSpec_Get now k (foldl (cache_step lruSpec_cache) (lruSpec_New cap)
      (xs @ OpSet t k v ttl # ys))) = Some v" by (simp add: lruSpec_Get_def)
  with sim_Get [OF r(1), of now k] show ?thesis
    by (cases "lru_Get now k (lru_run cap (xs @ OpSet t k v ttl # ys))") auto
qed

lemma lru_survives_witness:
  "fst (lru_Get 9 ''a'' (lru_run 2 ([OpSet 0 ''x'' [1] 0] @ OpSet 0 ''a'' [7] 0 #
     [OpSet 1 ''b'' [8] 0, OpGet 2 ''b'', OpSet 3 ''b'' [9] 0]))) = Some [7]"
  by (rule lru_survives) (code_simp, code_simp, simp add: touched_but_def)

end
