(* ===== verification/LFU.thy ===== *)
theory LFU
  imports Key_Index Linked_List
begin

text \<open>
  internal/cache/lfu/lfu.go: a map from keys to nodes, and a map from frequencies to lists of
  the nodes of that frequency, most recently used first. \<open>minFreq\<close> is the frequency to evict
  from. The heap of the nodes is part of the state (\<open>fcHeap\<close>, \<open>fcFresh\<close>); the lists are
  the linked lists of list.go, each owned by its entry of \<open>freqList\<close>, so \<open>fl.Remove(...)\<close> on
  \<open>fl := c.freqList[f]\<close> is an update of that entry. The order in which Go iterates over a map is
  unspecified; the model takes the order of the association list.

  The second half gives the abstract machine (a recency list of items with frequencies; the
  victim is the least recently used item of the least frequency) and the simulation.
\<close>

section \<open>The code\<close>

record lfuNode =
  fnKey :: key
  fnValue :: bytes
  fnFreq :: int
  fnExpiresAt :: Time
  fnCreatedAt :: instant
  fnHitCount :: int64
  fnListNode :: addr

record LFUCache =
  fcCapacity :: int
  fcMinFreq :: int
  fcItems :: "(key, addr) gomap"
  fcFreqList :: "(int, addr List) gomap"
  fcSt :: Stats
  fcOnEvict :: bool
  fcHeap :: "addr \<Rightarrow> lfuNode"
  fcFresh :: addr

definition lfu_nilNode :: lfuNode where
  "lfu_nilNode = \<lparr>fnKey = [], fnValue = [], fnFreq = 0, fnExpiresAt = None, fnCreatedAt = 0,
     fnHitCount = 0, fnListNode = 0\<rparr>"

definition lfu_New :: "int \<Rightarrow> LFUCache" where
  "lfu_New capacity =
     \<lparr>fcCapacity = (if capacity \<le> 0 then 1 else capacity), fcMinFreq = 0, fcItems = [],
      fcFreqList = [], fcSt = newStats, fcOnEvict = False, fcHeap = (\<lambda>_. lfu_nilNode),
      fcFresh = 0\<rparr>"

definition lfu_modNode :: "addr \<Rightarrow> (lfuNode \<Rightarrow> lfuNode) \<Rightarrow> LFUCache \<Rightarrow> LFUCache" where
  "lfu_modNode n f c = c\<lparr>fcHeap := (fcHeap c)(n := f (fcHeap c n))\<rparr>"

definition lfu_modSt :: "(Stats \<Rightarrow> Stats) \<Rightarrow> LFUCache \<Rightarrow> LFUCache" where
  "lfu_modSt f c = c\<lparr>fcSt := f (fcSt c)\<rparr>"

text \<open>\<open>if freqList[f] == nil { freqList[f] = list.New() }; n.listNode = freqList[f].PushFront(n)\<close>\<close>

definition lfu_pushFreq :: "int \<Rightarrow> addr \<Rightarrow> LFUCache \<Rightarrow> LFUCache" where
  "lfu_pushFreq f n c =
     (let fl = (case map_of (fcFreqList c) f of None \<Rightarrow> list_New | Some fl \<Rightarrow> fl);
          (node, fl') = list_PushFront n fl
      in lfu_modNode n (\<lambda>x. x\<lparr>fnListNode := node\<rparr>)
           (c\<lparr>fcFreqList := AList.update f fl' (fcFreqList c)\<rparr>))"

definition lfu_incrementFreq :: "addr \<Rightarrow> LFUCache \<Rightarrow> LFUCache" where
  "lfu_incrementFreq n c =
     (let oldFreq = fnFreq (fcHeap c n);
          c1 = (case map_of (fcFreqList c) oldFreq of
                  None \<Rightarrow> c
                | Some fl \<Rightarrow>
                    (let fl' = list_Remove (fnListNode (fcHeap c n)) fl
                     in if list_Len fl' = 0
                        then c\<lparr>fcFreqList := AList.delete oldFreq (fcFreqList c),
                               fcMinFreq := (if oldFreq = fcMinFreq c then oldFreq + 1
                                             else fcMinFreq c)\<rparr>
                        else c\<lparr>fcFreqList := AList.update oldFreq fl' (fcFreqList c)\<rparr>));
          c2 = lfu_modNode n (\<lambda>x. x\<lparr>fnFreq := fnFreq x + 1\<rparr>) c1
      in lfu_pushFreq (fnFreq (fcHeap c2 n)) n c2)"

definition lfu_evictOne :: "LFUCache \<Rightarrow> evictCall list \<times> LFUCache" where
  "lfu_evictOne c =
     (case map_of (fcFreqList c) (fcMinFreq c) of
        None \<Rightarrow> ([], c)
      | Some fl \<Rightarrow>
          if list_Len fl = 0 then ([], c)
          else (case list_Back fl of
                  None \<Rightarrow> ([], c)
                | Some victim \<Rightarrow>
                    (let fl' = list_Remove victim fl;
                         c1 = (if list_Len fl' = 0
                               then c\<lparr>fcFreqList := AList.delete (fcMinFreq c) (fcFreqList c)\<rparr>
                               else c\<lparr>fcFreqList := AList.update (fcMinFreq c) fl' (fcFreqList c)\<rparr>);
                         node = node_Value fl' victim;
                         c2 = lfu_modSt (\<lambda>s. s\<lparr>BytesStored := BytesStored s - blen (fnValue (fcHeap c1 node))\<rparr>) c1;
                         c3 = c2\<lparr>fcItems := AList.delete (fnKey (fcHeap c2 node)) (fcItems c2)\<rparr>;
                         c4 = lfu_modSt (\<lambda>s. s\<lparr>Evictions := Evictions s + 1\<rparr>) c3
                     in (if fcOnEvict c4 then [(fnKey (fcHeap c4 node), fnValue (fcHeap c4 node))] else [],
                         c4))))"

text \<open>The removal from the frequency list that \<open>Get\<close>, \<open>Peek\<close> and \<open>Delete\<close> repeat.\<close>

definition lfu_unlink :: "addr \<Rightarrow> LFUCache \<Rightarrow> LFUCache" where
  "lfu_unlink n c =
     (let f = fnFreq (fcHeap c n)
      in case map_of (fcFreqList c) f of
           None \<Rightarrow> c
         | Some fl \<Rightarrow>
             (let fl' = list_Remove (fnListNode (fcHeap c n)) fl
              in if list_Len fl' = 0 then c\<lparr>fcFreqList := AList.delete f (fcFreqList c)\<rparr>
                 else c\<lparr>fcFreqList := AList.update f fl' (fcFreqList c)\<rparr>))"

definition lfu_Get :: "instant \<Rightarrow> key \<Rightarrow> LFUCache \<Rightarrow> bytes option \<times> LFUCache" where
  "lfu_Get now key c =
     (case map_of (fcItems c) key of
        None \<Rightarrow> (None, lfu_modSt (\<lambda>s. s\<lparr>Misses := Misses s + 1\<rparr>) c)
      | Some n \<Rightarrow>
          if expired now (fnExpiresAt (fcHeap c n)) then
            let c1 = lfu_unlink n c;
                c2 = lfu_modSt (\<lambda>s. s\<lparr>BytesStored := BytesStored s - blen (fnValue (fcHeap c1 n))\<rparr>) c1;
                c3 = c2\<lparr>fcItems := AList.delete key (fcItems c2)\<rparr>;
                c4 = lfu_modSt (\<lambda>s. s\<lparr>Misses := Misses s + 1\<rparr>) c3
            in (None, lfu_modSt (\<lambda>s. s\<lparr>TTLExpiries := TTLExpiries s + 1\<rparr>) c4)
          else
            let c1 = lfu_incrementFreq n c;
                c2 = lfu_modNode n (\<lambda>x. x\<lparr>fnHitCount := fnHitCount x + 1\<rparr>) c1;
                c3 = lfu_modSt (\<lambda>s. s\<lparr>Hits := Hits s + 1\<rparr>) c2
            in (Some (fnValue (fcHeap c3 n)), c3))"

definition lfu_Set ::
  "instant \<Rightarrow> key \<Rightarrow> bytes \<Rightarrow> duration \<Rightarrow> LFUCache \<Rightarrow> error option \<times> evictCall list \<times> LFUCache" where
  "lfu_Set now key value ttl c =
     (let expiresAt = expiryOf now ttl
      in case map_of (fcItems c) key of
           Some n \<Rightarrow>
             (let c1 = lfu_modSt (\<lambda>s. s\<lparr>BytesStored := BytesStored s +
                          (blen value - blen (fnValue (fcHeap c n)))\<rparr>) c;
                  c2 = lfu_modNode n (\<lambda>x. x\<lparr>fnValue := value, fnExpiresAt := expiresAt\<rparr>) c1;
                  c3 = lfu_incrementFreq n c2
              in (None, [], lfu_modSt (\<lambda>s. s\<lparr>Sets := Sets s + 1\<rparr>) c3))
         | None \<Rightarrow>
             (let (evs, c1) = (if int (length (fcItems c)) \<ge> fcCapacity c then lfu_evictOne c
                               else ([], c));
                  n = fcFresh c1;
                  c2 = c1\<lparr>fcFresh := n + 1, fcHeap := (fcHeap c1)(n :=
                         \<lparr>fnKey = key, fnValue = value, fnFreq = 1, fnExpiresAt = expiresAt,
                          fnCreatedAt = now, fnHitCount = 0, fnListNode = 0\<rparr>)\<rparr>;
                  c3 = lfu_pushFreq 1 n c2;
                  c4 = c3\<lparr>fcItems := AList.update key n (fcItems c3), fcMinFreq := 1\<rparr>;
                  c5 = lfu_modSt (\<lambda>s. s\<lparr>Sets := Sets s + 1\<rparr>) c4
              in (None, evs, lfu_modSt (\<lambda>s. s\<lparr>BytesStored := BytesStored s + blen value\<rparr>) c5)))"

definition lfu_Delete :: "key \<Rightarrow> LFUCache \<Rightarrow> bool \<times> LFUCache" where
  "lfu_Delete key c =
     (case map_of (fcItems c) key of
        None \<Rightarrow> (False, c)
      | Some n \<Rightarrow>
          (let c1 = lfu_unlink n c;
               c2 = lfu_modSt (\<lambda>s. s\<lparr>BytesStored := BytesStored s - blen (fnValue (fcHeap c1 n))\<rparr>) c1;
               c3 = c2\<lparr>fcItems := AList.delete key (fcItems c2)\<rparr>
           in (True, lfu_modSt (\<lambda>s. s\<lparr>Deletes := Deletes s + 1\<rparr>) c3)))"

definition lfu_Peek :: "instant \<Rightarrow> key \<Rightarrow> LFUCache \<Rightarrow> bytes option \<times> LFUCache" where
  "lfu_Peek now key c =
     (case map_of (fcItems c) key of
        None \<Rightarrow> (None, c)
      | Some n \<Rightarrow>
          if expired now (fnExpiresAt (fcHeap c n)) then
            let c1 = lfu_unlink n c;
                c2 = lfu_modSt (\<lambda>s. s\<lparr>BytesStored := BytesStored s - blen (fnValue (fcHeap c1 n))\<rparr>) c1;
                c3 = lfu_modSt (\<lambda>s. s\<lparr>TTLExpiries := TTLExpiries s + 1\<rparr>) c2
            in (None, c3\<lparr>fcItems := AList.delete key (fcItems c3)\<rparr>)
          else (Some (fnValue (fcHeap c n)), c))"

definition lfu_Keys :: "instant \<Rightarrow> LFUCache \<Rightarrow> key list option" where
  "lfu_Keys now c =
     Some (map fst (filter (\<lambda>(k, n). unexpired now (fnExpiresAt (fcHeap c n))) (fcItems c)))"

definition lfu_Len :: "LFUCache \<Rightarrow> int" where
  "lfu_Len c = int (length (fcItems c))"

definition lfu_Capacity :: "LFUCache \<Rightarrow> int" where
  "lfu_Capacity c = fcCapacity c"

definition lfu_entry :: "instant \<Rightarrow> nat \<Rightarrow> int \<Rightarrow> lfuNode \<Rightarrow> Entry" where
  "lfu_entry now pos freq x =
     \<lparr>enKey = fnKey x, enValue = fnValue x, enExpiresAt = fnExpiresAt x,
      enTTLMs = remainingMs now (fnExpiresAt x), enFreq = freq, enCreatedAt = fnCreatedAt x,
      enHitCount = fnHitCount x, enSizeBytes = int (length (fnValue x)), enList = [],
      enPosition = int pos\<rparr>"

text \<open>The nodes the double loop of \<open>Snapshot\<close> visits, each with the frequency of its list.\<close>

definition lfu_walk :: "(int, addr List) gomap \<Rightarrow> (int \<times> addr) list option" where
  "lfu_walk fls =
     map_option concat (those (map (\<lambda>(freq, fl). map_option (map (\<lambda>n. (freq, n))) (list_ToSlice fl)) fls))"

definition lfu_Snapshot :: "instant \<Rightarrow> LFUCache \<Rightarrow> SnapshotResult option" where
  "lfu_Snapshot now c =
     map_option (\<lambda>fns. \<lparr>srPolicy = ''lfu'',
         srEntries = map (\<lambda>(pos, freq, n). lfu_entry now pos freq (fcHeap c n)) (enumerate 0 fns),
         srGhostEntries = [], srArcP = 0, srListSizes = [], srCapacity = fcCapacity c,
         srTruncated = False\<rparr>)
       (lfu_walk (fcFreqList c))"

definition lfu_Purge :: "LFUCache \<Rightarrow> LFUCache" where
  "lfu_Purge c = lfu_modSt stats_Reset (c\<lparr>fcItems := [], fcFreqList := [], fcMinFreq := 0\<rparr>)"

definition lfu_SetEvictionCallback :: "bool \<Rightarrow> LFUCache \<Rightarrow> LFUCache" where
  "lfu_SetEvictionCallback fn c = c\<lparr>fcOnEvict := fn\<rparr>"

definition lfu_cache :: "LFUCache Cache" where
  "lfu_cache = \<lparr>mGet = lfu_Get, mSet = lfu_Set, mDelete = lfu_Delete, mPeek = lfu_Peek,
     mKeys = lfu_Keys, mLen = lfu_Len, mCapacity = lfu_Capacity, mStats = fcSt, mUpdStats = lfu_modSt,
     mSnapshot = lfu_Snapshot, mPurge = lfu_Purge, mSetEvictionCallback = lfu_SetEvictionCallback\<rparr>"

section \<open>The machine with frequencies\<close>

text \<open>
  What an LFU cache promises: items from most to least recently used, each with the number of
  its uses; an insertion into a full cache drops the least recently used among the items of
  least frequency.
\<close>

record fitem = item +
  itFreq :: int

record lfuSpec =
  fsCapacity :: int
  fsItems :: "fitem list"
  fsSt :: Stats
  fsOnEvict :: bool

definition leastFreq :: "fitem list \<Rightarrow> int" where
  "leastFreq es = Min (set (map itFreq es))"

definition lfuVictim :: "fitem list \<Rightarrow> fitem" where
  "lfuVictim es = last (filter (\<lambda>e. itFreq e = leastFreq es) es)"

definition lfuSpec_New :: "int \<Rightarrow> lfuSpec" where
  "lfuSpec_New cap = \<lparr>fsCapacity = (if cap \<le> 0 then 1 else cap), fsItems = [],
     fsSt = newStats, fsOnEvict = False\<rparr>"

definition lfuSpec_Get :: "instant \<Rightarrow> key \<Rightarrow> lfuSpec \<Rightarrow> bytes option \<times> lfuSpec" where
  "lfuSpec_Get now k s =
     (case find_item k (fsItems s) of
        None \<Rightarrow> (None, s\<lparr>fsSt := (fsSt s)\<lparr>Misses := Misses (fsSt s) + 1\<rparr>\<rparr>)
      | Some e \<Rightarrow>
          if expired now (itExpires e) then
            (None, s\<lparr>fsItems := drop_item k (fsItems s),
                fsSt := (fsSt s)\<lparr>BytesStored := BytesStored (fsSt s) - blen (itValue e),
                  Misses := Misses (fsSt s) + 1, TTLExpiries := TTLExpiries (fsSt s) + 1\<rparr>\<rparr>)
          else
            (Some (itValue e),
             s\<lparr>fsItems := e\<lparr>itHits := itHits e + 1, itFreq := itFreq e + 1\<rparr> # drop_item k (fsItems s),
               fsSt := (fsSt s)\<lparr>Hits := Hits (fsSt s) + 1\<rparr>\<rparr>))"

definition lfuSpec_Peek :: "instant \<Rightarrow> key \<Rightarrow> lfuSpec \<Rightarrow> bytes option \<times> lfuSpec" where
  "lfuSpec_Peek now k s =
     (case find_item k (fsItems s) of
        None \<Rightarrow> (None, s)
      | Some e \<Rightarrow>
          if expired now (itExpires e) then
            (None, s\<lparr>fsItems := drop_item k (fsItems s),
                fsSt := (fsSt s)\<lparr>BytesStored := BytesStored (fsSt s) - blen (itValue e),
                  TTLExpiries := TTLExpiries (fsSt s) + 1\<rparr>\<rparr>)
          else (Some (itValue e), s))"

definition lfuSpec_Delete :: "key \<Rightarrow> lfuSpec \<Rightarrow> bool \<times> lfuSpec" where
  "lfuSpec_Delete k s =
     (case find_item k (fsItems s) of
        None \<Rightarrow> (False, s)
      | Some e \<Rightarrow>
          (True, s\<lparr>fsItems := drop_item k (fsItems s),
             fsSt := (fsSt s)\<lparr>BytesStored := BytesStored (fsSt s) - blen (itValue e),
               Deletes := Deletes (fsSt s) + 1\<rparr>\<rparr>))"

definition lfuSpec_evict :: "lfuSpec \<Rightarrow> evictCall list \<times> lfuSpec" where
  "lfuSpec_evict s =
     (if int (length (fsItems s)) < fsCapacity s then ([], s)
      else let e = lfuVictim (fsItems s)
           in (if fsOnEvict s then [(itKey e, itValue e)] else [],
               s\<lparr>fsItems := drop_item (itKey e) (fsItems s),
                 fsSt := (fsSt s)\<lparr>BytesStored := BytesStored (fsSt s) - blen (itValue e),
                   Evictions := Evictions (fsSt s) + 1\<rparr>\<rparr>))"

definition lfuSpec_Set ::
  "instant \<Rightarrow> key \<Rightarrow> bytes \<Rightarrow> duration \<Rightarrow> lfuSpec \<Rightarrow> error option \<times> evictCall list \<times> lfuSpec" where
  "lfuSpec_Set now k v ttl s =
     (case find_item k (fsItems s) of
        Some e \<Rightarrow>
          (None, [], s\<lparr>fsItems := e\<lparr>itValue := v, itExpires := expiryOf now ttl, itFreq := itFreq e + 1\<rparr> #
                         drop_item k (fsItems s),
             fsSt := (fsSt s)\<lparr>BytesStored := BytesStored (fsSt s) + (blen v - blen (itValue e)),
               Sets := Sets (fsSt s) + 1\<rparr>\<rparr>)
      | None \<Rightarrow>
          (let (evs, s1) = lfuSpec_evict s
           in (None, evs, s1\<lparr>fsItems := \<lparr>itKey = k, itValue = v, itExpires = expiryOf now ttl,
                                itCreated = now, itHits = 0, itFreq = 1\<rparr> # fsItems s1,
                fsSt := (fsSt s1)\<lparr>Sets := Sets (fsSt s1) + 1,
                  BytesStored := BytesStored (fsSt s1) + blen v\<rparr>\<rparr>)))"

definition lfuSpec_Purge :: "lfuSpec \<Rightarrow> lfuSpec" where
  "lfuSpec_Purge s = s\<lparr>fsItems := [], fsSt := newStats\<rparr>"

section \<open>The frequency lists\<close>

text \<open>
  \<open>buckets m pos fr ns\<close>: the list that \<open>m\<close> has at each frequency holds the nodes of \<open>ns\<close> of
  that frequency, in the order of \<open>ns\<close>, and there is none where there is no such node.
\<close>

definition bucket :: "addr List option \<Rightarrow> (addr \<Rightarrow> addr) \<Rightarrow> addr list \<Rightarrow> bool" where
  "bucket x pos bs = (case x of None \<Rightarrow> bs = [] | Some fl \<Rightarrow> bs \<noteq> [] \<and> dl.holds pos fl bs)"

definition buckets :: "(int, addr List) gomap \<Rightarrow> (addr \<Rightarrow> addr) \<Rightarrow> (addr \<Rightarrow> int) \<Rightarrow> addr list \<Rightarrow> bool" where
  "buckets m pos fr ns \<longleftrightarrow> distinct (map fst m) \<and>
     (\<forall>f. bucket (map_of m f) pos (filter (\<lambda>n. fr n = f) ns))"

lemma bucket_simps [simp]:
  "bucket None pos bs \<longleftrightarrow> bs = []"
  "bucket (Some fl) pos bs \<longleftrightarrow> bs \<noteq> [] \<and> dl.holds pos fl bs"
  by (simp_all add: bucket_def)

lemma bucket_cong: "bucket x pos bs \<Longrightarrow> (\<And>n. n \<in> set bs \<Longrightarrow> pos' n = pos n) \<Longrightarrow> bucket x pos' bs"
  by (cases x) (auto intro: dl.holds_cong)

lemma buckets_Nil [simp]: "buckets [] pos fr []"
  by (simp add: buckets_def)

lemma buckets_at:
  assumes "buckets m pos fr ns"
  shows "bucket (map_of m f) pos (filter (\<lambda>n. fr n = f) ns)"
  using assms by (simp add: buckets_def)

lemma buckets_mem:
  assumes "buckets m pos fr ns" and "n \<in> set ns"
  obtains fl where "map_of m (fr n) = Some fl" and "dl.holds pos fl (filter (\<lambda>x. fr x = fr n) ns)"
proof (cases "map_of m (fr n)")
  case None
  with buckets_at [OF assms(1), of "fr n"] assms(2) show ?thesis by (auto simp: filter_empty_conv)
next
  case (Some fl)
  with buckets_at [OF assms(1), of "fr n"] that show ?thesis by simp
qed

lemma buckets_cong:
  assumes b: "buckets m pos fr ns" and e: "\<And>n. n \<in> set ns \<Longrightarrow> pos' n = pos n" "\<And>n. n \<in> set ns \<Longrightarrow> fr' n = fr n"
  shows "buckets m pos' fr' ns"
proof -
  have "filter (\<lambda>n. fr' n = f) ns = filter (\<lambda>n. fr n = f) ns" for f
    using e(2) by (intro filter_cong) simp_all
  with b e(1) show ?thesis by (auto simp: buckets_def intro: bucket_cong)
qed

lemma buckets_remove:
  assumes b: "buckets m pos fr ns" and n: "n \<in> set ns" and fl: "map_of m (fr n) = Some fl"
  defines "fl' \<equiv> list_Remove (pos n) fl"
  shows "buckets (if list_Len fl' = 0 then AList.delete (fr n) m else AList.update (fr n) fl' m)
      pos fr (filter (\<lambda>x. x \<noteq> n) ns)"
    and "list_Len fl' = 0 \<longleftrightarrow> filter (\<lambda>x. fr x = fr n) (filter (\<lambda>x. x \<noteq> n) ns) = []"
proof -
  let ?f = "\<lambda>f ns. filter (\<lambda>x. fr x = f) ns"
  have h: "dl.holds pos fl (?f (fr n) ns)" using buckets_at [OF b, of "fr n"] fl by simp
  have "dl.holds pos fl' (filter (\<lambda>x. x \<noteq> n) (?f (fr n) ns))"
    unfolding fl'_def using n by (intro dl.holds_remove [OF h]) simp
  then have h': "dl.holds pos fl' (?f (fr n) (filter (\<lambda>x. x \<noteq> n) ns))"
    by (simp add: conj_commute)
  then show z: "list_Len fl' = 0 \<longleftrightarrow> ?f (fr n) (filter (\<lambda>x. x \<noteq> n) ns) = []"
    using dl.holds_len [OF h'] by simp
  have o: "?f f (filter (\<lambda>x. x \<noteq> n) ns) = ?f f ns" if "f \<noteq> fr n" for f
    using that unfolding filter_filter by (intro filter_cong) auto
  have d: "distinct (map fst m)" using b by (simp add: buckets_def)
  show "buckets (if list_Len fl' = 0 then AList.delete (fr n) m else AList.update (fr n) fl' m)
      pos fr (filter (\<lambda>x. x \<noteq> n) ns)"
    unfolding buckets_def
  proof (intro conjI allI)
    show "distinct (map fst (if list_Len fl' = 0 then AList.delete (fr n) m else AList.update (fr n) fl' m))"
      using d by (simp add: AList.distinct_update)
    fix f
    show "bucket (map_of (if list_Len fl' = 0 then AList.delete (fr n) m else AList.update (fr n) fl' m) f)
        pos (?f f (filter (\<lambda>x. x \<noteq> n) ns))"
    proof (cases "f = fr n")
      case True
      with z h' show ?thesis by (simp add: go_map)
    next
      case False
      then show ?thesis using b unfolding o [OF False] by (simp add: go_map buckets_def)
    qed
  qed
qed

lemma buckets_push:
  assumes b: "buckets m pos fr ns" and n: "n \<notin> set ns"
    and p: "list_PushFront n (case map_of m f of None \<Rightarrow> list_New | Some fl \<Rightarrow> fl) = (a, fl')"
    and n': "pos' n = a" "fr' n = f" and e: "\<And>x. x \<in> set ns \<Longrightarrow> pos' x = pos x \<and> fr' x = fr x"
  shows "buckets (AList.update f fl' m) pos' fr' (n # ns)"
proof -
  let ?f = "\<lambda>g ns. filter (\<lambda>x. fr' x = g) ns"
  have b': "buckets m pos' fr' ns" using b e by (intro buckets_cong [OF b]) auto
  have "dl.holds pos' (case map_of m f of None \<Rightarrow> list_New | Some fl \<Rightarrow> fl) (?f f ns)"
    using buckets_at [OF b', of f] by (cases "map_of m f") (simp_all add: dl.holds_new)
  from dl.holds_push [OF this _ p, of pos'] n n'(1)
  have h: "dl.holds pos' fl' (?f f (n # ns))" using n' by simp
  have d: "distinct (map fst m)" using b by (simp add: buckets_def)
  show ?thesis unfolding buckets_def
  proof (intro conjI allI)
    show "distinct (map fst (AList.update f fl' m))" using d by (simp add: AList.distinct_update)
    fix g
    show "bucket (map_of (AList.update f fl' m) g) pos' (?f g (n # ns))"
    proof (cases "g = f")
      case True
      with h n' show ?thesis by (simp add: go_map)
    next
      case False
      then show ?thesis using buckets_at [OF b', of g] n' by (simp add: go_map)
    qed
  qed
qed

section \<open>The simulation relation\<close>

definition lfu_item :: "lfuNode \<Rightarrow> fitem" where
  "lfu_item x = \<lparr>itKey = fnKey x, itValue = fnValue x, itExpires = fnExpiresAt x,
     itCreated = fnCreatedAt x, itHits = fnHitCount x, itFreq = fnFreq x\<rparr>"

abbreviation lfu_fr :: "LFUCache \<Rightarrow> addr \<Rightarrow> int" where
  "lfu_fr c \<equiv> \<lambda>n. fnFreq (fcHeap c n)"

abbreviation lfu_pos :: "LFUCache \<Rightarrow> addr \<Rightarrow> addr" where
  "lfu_pos c \<equiv> \<lambda>n. fnListNode (fcHeap c n)"

abbreviation lfu_min :: "LFUCache \<Rightarrow> addr list \<Rightarrow> int" where
  "lfu_min c ns \<equiv> Min (lfu_fr c ` set ns)"

text \<open>The frequency lists part, and the map part.\<close>

definition lfu_lists :: "LFUCache \<Rightarrow> addr list \<Rightarrow> bool" where
  "lfu_lists c ns \<longleftrightarrow> buckets (fcFreqList c) (lfu_pos c) (lfu_fr c) ns \<and> distinct ns \<and>
     (\<forall>n\<in>set ns. n < fcFresh c \<and> 1 \<le> lfu_fr c n)"

definition lfu_index :: "LFUCache \<Rightarrow> addr list \<Rightarrow> bool" where
  "lfu_index c ns \<longleftrightarrow> indexes (fcItems c) (\<lambda>n. fnKey (fcHeap c n)) ns"

text \<open>
  \<open>minFreq\<close> may be stale after a deletion or an expiry; it is the least frequency whenever the
  cache is full, which is when it is used.
\<close>

definition lfu_rep :: "LFUCache \<Rightarrow> addr list \<Rightarrow> bool" where
  "lfu_rep c ns \<longleftrightarrow> lfu_lists c ns \<and> lfu_index c ns \<and> 0 < fcCapacity c \<and>
     int (length ns) \<le> fcCapacity c \<and>
     (int (length ns) = fcCapacity c \<longrightarrow> fcMinFreq c = lfu_min c ns)"

definition lfu_view :: "LFUCache \<Rightarrow> addr list \<Rightarrow> lfuSpec" where
  "lfu_view c ns = \<lparr>fsCapacity = fcCapacity c, fsItems = map (\<lambda>n. lfu_item (fcHeap c n)) ns,
     fsSt = fcSt c, fsOnEvict = fcOnEvict c\<rparr>"

definition lfu_sim :: "LFUCache \<Rightarrow> lfuSpec \<Rightarrow> bool" where
  "lfu_sim c s \<longleftrightarrow> (\<exists>ns. lfu_rep c ns \<and> s = lfu_view c ns)"

lemma lfu_simI: "lfu_rep c ns \<Longrightarrow> s = lfu_view c ns \<Longrightarrow> lfu_sim c s"
  by (auto simp: lfu_sim_def)

lemma lfu_item_sel [simp]:
  "itKey (lfu_item x) = fnKey x" "itValue (lfu_item x) = fnValue x"
  "itExpires (lfu_item x) = fnExpiresAt x" "itCreated (lfu_item x) = fnCreatedAt x"
  "itHits (lfu_item x) = fnHitCount x" "itFreq (lfu_item x) = fnFreq x"
  by (simp_all add: lfu_item_def)

lemma lfu_view_sel [simp]:
  "fsCapacity (lfu_view c ns) = fcCapacity c"
  "fsItems (lfu_view c ns) = map (\<lambda>n. lfu_item (fcHeap c n)) ns"
  "fsSt (lfu_view c ns) = fcSt c" "fsOnEvict (lfu_view c ns) = fcOnEvict c"
  by (simp_all add: lfu_view_def)

lemma lfu_modNode_frame [simp]:
  "fcCapacity (lfu_modNode n f c) = fcCapacity c" "fcItems (lfu_modNode n f c) = fcItems c"
  "fcFreqList (lfu_modNode n f c) = fcFreqList c" "fcMinFreq (lfu_modNode n f c) = fcMinFreq c"
  "fcSt (lfu_modNode n f c) = fcSt c" "fcOnEvict (lfu_modNode n f c) = fcOnEvict c"
  "fcFresh (lfu_modNode n f c) = fcFresh c"
  "fcHeap (lfu_modNode n f c) = (fcHeap c)(n := f (fcHeap c n))"
  by (simp_all add: lfu_modNode_def)

lemma lfu_modSt_frame [simp]:
  "fcCapacity (lfu_modSt f c) = fcCapacity c" "fcItems (lfu_modSt f c) = fcItems c"
  "fcFreqList (lfu_modSt f c) = fcFreqList c" "fcMinFreq (lfu_modSt f c) = fcMinFreq c"
  "fcSt (lfu_modSt f c) = f (fcSt c)" "fcOnEvict (lfu_modSt f c) = fcOnEvict c"
  "fcFresh (lfu_modSt f c) = fcFresh c" "fcHeap (lfu_modSt f c) = fcHeap c"
  by (simp_all add: lfu_modSt_def)

lemma unlink_frame [simp]:
  "fcCapacity (lfu_unlink n c) = fcCapacity c" "fcItems (lfu_unlink n c) = fcItems c"
  "fcMinFreq (lfu_unlink n c) = fcMinFreq c" "fcSt (lfu_unlink n c) = fcSt c"
  "fcOnEvict (lfu_unlink n c) = fcOnEvict c" "fcFresh (lfu_unlink n c) = fcFresh c"
  "fcHeap (lfu_unlink n c) = fcHeap c"
  by (simp_all add: lfu_unlink_def Let_def split: option.splits)

lemma pushFreq_frame [simp]:
  "fcCapacity (lfu_pushFreq f n c) = fcCapacity c" "fcItems (lfu_pushFreq f n c) = fcItems c"
  "fcMinFreq (lfu_pushFreq f n c) = fcMinFreq c" "fcSt (lfu_pushFreq f n c) = fcSt c"
  "fcOnEvict (lfu_pushFreq f n c) = fcOnEvict c" "fcFresh (lfu_pushFreq f n c) = fcFresh c"
  "lfu_item (fcHeap (lfu_pushFreq f n c) x) = lfu_item (fcHeap c x)"
  "fnKey (fcHeap (lfu_pushFreq f n c) x) = fnKey (fcHeap c x)"
  "fnFreq (fcHeap (lfu_pushFreq f n c) x) = fnFreq (fcHeap c x)"
  "fnValue (fcHeap (lfu_pushFreq f n c) x) = fnValue (fcHeap c x)"
  "x \<noteq> n \<Longrightarrow> fcHeap (lfu_pushFreq f n c) x = fcHeap c x"
  by (simp_all add: lfu_pushFreq_def lfu_item_def Let_def split: prod.splits option.splits)

lemma lists_cong:
  "lfu_lists c ns \<Longrightarrow> fcFreqList c' = fcFreqList c \<Longrightarrow> fcFresh c \<le> fcFresh c' \<Longrightarrow>
   (\<And>n. n \<in> set ns \<Longrightarrow> lfu_pos c' n = lfu_pos c n) \<Longrightarrow>
   (\<And>n. n \<in> set ns \<Longrightarrow> lfu_fr c' n = lfu_fr c n) \<Longrightarrow> lfu_lists c' ns"
  unfolding lfu_lists_def
  using buckets_cong [of "fcFreqList c" "lfu_pos c" "lfu_fr c" ns "lfu_pos c'" "lfu_fr c'"] by auto

lemma lists_unlink:
  assumes l: "lfu_lists c ns" and n: "n \<in> set ns"
  shows "lfu_lists (lfu_unlink n c) (filter (\<lambda>x. x \<noteq> n) ns)"
proof -
  have b: "buckets (fcFreqList c) (lfu_pos c) (lfu_fr c) ns" using l by (simp add: lfu_lists_def)
  obtain fl where fl: "map_of (fcFreqList c) (lfu_fr c n) = Some fl" using buckets_mem [OF b n] by blast
  from buckets_remove(1) [OF b n fl] l fl show ?thesis
    by (simp add: lfu_lists_def lfu_unlink_def Let_def split: if_splits)
qed

lemma lfu_lists_push:
  assumes l: "lfu_lists c ns" and n: "n \<notin> set ns" "n < fcFresh c"
    and f: "lfu_fr c n = f" "1 \<le> f"
  shows "lfu_lists (lfu_pushFreq f n c) (n # ns)"
proof -
  have b: "buckets (fcFreqList c) (lfu_pos c) (lfu_fr c) ns" using l by (simp add: lfu_lists_def)
  obtain a fl' where p: "list_PushFront n (case map_of (fcFreqList c) f of None \<Rightarrow> list_New | Some fl \<Rightarrow> fl) = (a, fl')"
    by fastforce
  have "buckets (AList.update f fl' (fcFreqList c)) (lfu_pos (lfu_pushFreq f n c)) (lfu_fr (lfu_pushFreq f n c)) (n # ns)"
    using n f p by (intro buckets_push [OF b n(1) p]) (auto simp: lfu_pushFreq_def)
  with l n f p show ?thesis by (simp add: lfu_lists_def lfu_pushFreq_def)
qed

lemma increment_step:
  assumes l: "lfu_lists c ns" and n: "n \<in> set ns"
  defines "rest \<equiv> filter (\<lambda>x. x \<noteq> n) ns" and "c' \<equiv> lfu_incrementFreq n c"
  shows "lfu_lists c' (n # rest)"
    and "fcCapacity c' = fcCapacity c" "fcItems c' = fcItems c" "fcSt c' = fcSt c"
    "fcOnEvict c' = fcOnEvict c" "fcFresh c' = fcFresh c"
    and "x \<noteq> n \<Longrightarrow> fcHeap c' x = fcHeap c x"
    and "lfu_item (fcHeap c' n) = (lfu_item (fcHeap c n))\<lparr>itFreq := fnFreq (fcHeap c n) + 1\<rparr>"
    and "fcMinFreq c' = (if lfu_fr c n = fcMinFreq c \<and> filter (\<lambda>x. lfu_fr c x = lfu_fr c n) rest = []
       then lfu_fr c n + 1 else fcMinFreq c)"
proof -
  have b: "buckets (fcFreqList c) (lfu_pos c) (lfu_fr c) ns" using l by (simp add: lfu_lists_def)
  obtain fl where fl: "map_of (fcFreqList c) (lfu_fr c n) = Some fl" using buckets_mem [OF b n] by blast
  let ?z = "list_Len (list_Remove (lfu_pos c n) fl) = 0"
  define c1 where "c1 = (lfu_unlink n c)\<lparr>fcMinFreq :=
      (if ?z \<and> lfu_fr c n = fcMinFreq c then lfu_fr c n + 1 else fcMinFreq c)\<rparr>"
  define c2 where "c2 = lfu_modNode n (\<lambda>x. x\<lparr>fnFreq := fnFreq x + 1\<rparr>) c1"
  have e: "c' = lfu_pushFreq (fnFreq (fcHeap c2 n)) n c2"
    using fl by (auto simp: c'_def lfu_incrementFreq_def c1_def c2_def lfu_unlink_def Let_def)
  have r: "n \<notin> set rest" "n < fcFresh c" and f1: "1 \<le> lfu_fr c n"
    using l n by (auto simp: rest_def lfu_lists_def)
  have "lfu_lists c2 rest"
    using r by (intro lists_cong [OF lists_unlink [OF l n, folded rest_def]]) (auto simp: c1_def c2_def)
  from lfu_lists_push [OF this r(1) _ refl] r f1 show "lfu_lists c' (n # rest)"
    unfolding e by (simp add: c1_def c2_def)
  show "fcCapacity c' = fcCapacity c" "fcItems c' = fcItems c" "fcSt c' = fcSt c"
    "fcOnEvict c' = fcOnEvict c" "fcFresh c' = fcFresh c"
    "x \<noteq> n \<Longrightarrow> fcHeap c' x = fcHeap c x"
    by (simp_all add: e c1_def c2_def)
  show "lfu_item (fcHeap c' n) = (lfu_item (fcHeap c n))\<lparr>itFreq := fnFreq (fcHeap c n) + 1\<rparr>"
    by (simp add: e c1_def c2_def lfu_item_def [of "fcHeap c n"] lfu_item_def [of "_\<lparr>fnFreq := _\<rparr>"])
  show "fcMinFreq c' = (if lfu_fr c n = fcMinFreq c \<and> filter (\<lambda>x. lfu_fr c x = lfu_fr c n) rest = []
       then lfu_fr c n + 1 else fcMinFreq c)"
    using buckets_remove(2) [OF b n fl] by (auto simp: e c1_def c2_def rest_def)
qed

text \<open>The least frequency after the use of a node.\<close>

lemma min_increment:
  fixes fr fr' :: "addr \<Rightarrow> int"
  assumes n: "n \<in> set ns" and fr': "fr' n = fr n + 1" "\<And>x. x \<noteq> n \<Longrightarrow> fr' x = fr x"
  defines "rest \<equiv> filter (\<lambda>x. x \<noteq> n) ns"
  shows "Min (fr' ` set (n # rest)) =
    (if fr n = Min (fr ` set ns) \<and> filter (\<lambda>x. fr x = fr n) rest = [] then fr n + 1
     else Min (fr ` set ns))"
proof -
  have ns: "set ns = insert n (set rest)" and nr: "n \<notin> set rest" using n by (auto simp: rest_def)
  have im: "fr' ` set rest = fr ` set rest" using nr by (intro image_cong [OF refl] fr'(2)) auto
  show ?thesis
  proof (cases "rest = []")
    case True
    then show ?thesis using ns fr'(1) by simp
  next
    case False
    let ?M = "Min (fr ` set rest)"
    have le: "?M \<le> fr x" if "x \<in> set rest" for x using that by simp
    have mem: "?M \<in> fr ` set rest" using False by (intro Min_in) simp_all
    have a: "Min (fr ` set ns) = min (fr n) ?M" using ns False by simp
    have b: "Min (fr' ` set (n # rest)) = min (fr n + 1) ?M" using im False fr'(1) by simp
    have c: "filter (\<lambda>x. fr x = fr n) rest = [] \<longleftrightarrow> fr n \<notin> fr ` set rest"
      unfolding filter_empty_conv by (metis image_iff)
    show ?thesis
    proof (cases "fr n \<in> fr ` set rest")
      case True
      then have "?M \<le> fr n" using le by auto
      with a b c True show ?thesis by simp
    next
      case nin: False
      with mem have "fr n \<noteq> ?M" by metis
      with a b c nin show ?thesis by auto
    qed
  qed
qed

section \<open>The operations simulate the machine\<close>

lemma rep_parts:
  assumes "lfu_rep c ns"
  shows "lfu_lists c ns" "lfu_index c ns" "0 < fcCapacity c" "int (length ns) \<le> fcCapacity c"
    "int (length ns) = fcCapacity c \<Longrightarrow> fcMinFreq c = lfu_min c ns" "distinct ns"
    "int (length (fcItems c)) = int (length ns)"
  using assms index_length [of "fcItems c" "\<lambda>n. fnKey (fcHeap c n)" ns]
  by (auto simp: lfu_rep_def lfu_lists_def lfu_index_def)

lemma lfu_rep_modSt [simp]: "lfu_rep (lfu_modSt f c) ns = lfu_rep c ns"
  by (simp add: lfu_rep_def lfu_lists_def lfu_index_def)

lemma rep_data:
  assumes "lfu_rep c ns" and "\<And>x. fnKey (f x) = fnKey x" "\<And>x. fnFreq (f x) = fnFreq x"
    "\<And>x. fnListNode (f x) = fnListNode x"
  shows "lfu_rep (lfu_modNode n f c) ns"
proof -
  have e: "(\<lambda>m. fnKey (fcHeap (lfu_modNode n f c) m)) = (\<lambda>m. fnKey (fcHeap c m))"
    "lfu_fr (lfu_modNode n f c) = lfu_fr c" "lfu_pos (lfu_modNode n f c) = lfu_pos c"
    using assms(2-4) by (auto simp: fun_eq_iff)
  show ?thesis using assms(1)
    unfolding lfu_rep_def lfu_lists_def lfu_index_def e fun_cong [OF e(2)] lfu_modNode_frame(1-7)
    by assumption
qed

lemma lfu_rep_mem: "lfu_rep c ns \<Longrightarrow> map_of (fcItems c) k = Some n \<Longrightarrow> n \<in> set ns \<and> fnKey (fcHeap c n) = k"
  using index_lookup [OF rep_parts(2) [unfolded lfu_index_def], of c ns k n] by simp

lemma lfu_rep_find: "lfu_rep c ns \<Longrightarrow>
    find_item k (map (\<lambda>n. lfu_item (fcHeap c n)) ns) = map_option (\<lambda>n. lfu_item (fcHeap c n)) (map_of (fcItems c) k)"
  by (rule index_find [OF rep_parts(2) [unfolded lfu_index_def]]) simp_all

lemma lfu_rep_drop: "lfu_rep c ns \<Longrightarrow> map_of (fcItems c) k = Some n \<Longrightarrow>
    drop_item k (map (\<lambda>n. lfu_item (fcHeap c n)) ns) =
    map (\<lambda>n. lfu_item (fcHeap c n)) (filter (\<lambda>x. x \<noteq> n) ns)"
  by (rule index_drop [OF rep_parts(2) [unfolded lfu_index_def]]) simp_all

lemma lfu_rep_delete:
  assumes r: "lfu_rep c ns" and k: "map_of (fcItems c) k = Some n"
    and c': "fcFreqList c' = fcFreqList (lfu_unlink n c)" "fcItems c' = AList.delete k (fcItems c)"
      "fcHeap c' = fcHeap c" "fcFresh c' = fcFresh c" "fcCapacity c' = fcCapacity c"
  shows "lfu_rep c' (filter (\<lambda>x. x \<noteq> n) ns)"
proof -
  have n: "n \<in> set ns" using lfu_rep_mem [OF r k] by simp
  have "lfu_lists c' (filter (\<lambda>x. x \<noteq> n) ns)"
    by (rule lists_cong [OF lists_unlink [OF rep_parts(1) [OF r] n]]) (simp_all add: c')
  moreover have "lfu_index c' (filter (\<lambda>x. x \<noteq> n) ns)"
    using index_delete [OF rep_parts(2) [OF r, unfolded lfu_index_def] k] c' by (simp add: lfu_index_def)
  moreover have "Suc (length (filter (\<lambda>x. x \<noteq> n) ns)) = length ns"
    using rep_parts(6) [OF r] n by (rule length_filter_remove)
  ultimately show ?thesis using rep_parts(3,4) [OF r] c' by (simp add: lfu_rep_def)
qed

lemma rep_use:
  assumes r: "lfu_rep c ns" and n: "n \<in> set ns"
  shows "lfu_rep (lfu_incrementFreq n c) (n # filter (\<lambda>x. x \<noteq> n) ns)"
proof -
  let ?c = "lfu_incrementFreq n c" and ?r = "filter (\<lambda>x. x \<noteq> n) ns"
  note i = increment_step [OF rep_parts(1) [OF r] n]
  have fn: "lfu_fr ?c n = lfu_fr c n + 1" and kn: "fnKey (fcHeap ?c n) = fnKey (fcHeap c n)"
    using i(8) by (simp_all add: lfu_item_def)
  have kx: "fnKey (fcHeap ?c x) = fnKey (fcHeap c x)" for x using kn i(7) [of x] by (cases "x = n") simp_all
  have fx: "lfu_fr ?c x = lfu_fr c x" if "x \<noteq> n" for x using i(7) that by simp
  have len: "length (n # ?r) = length ns" using length_filter_remove [OF rep_parts(6) [OF r] n] by simp
  have "lfu_index ?c (n # ?r)"
    using index_touch [OF rep_parts(2) [OF r, unfolded lfu_index_def] n] kx i(3) by (simp add: lfu_index_def)
  moreover have "fcMinFreq ?c = lfu_min ?c (n # ?r)" if "int (length ns) = fcCapacity c"
    unfolding i(9) rep_parts(5) [OF r that]
    by (rule min_increment [OF n, of "lfu_fr ?c" "lfu_fr c", OF fn fx, symmetric])
  ultimately show ?thesis using i(1,2) len rep_parts(3,4) [OF r] by (simp add: lfu_rep_def)
qed

text \<open>The items of a state in which a node has been used.\<close>

lemma view_use:
  assumes r: "lfu_rep c ns" and k: "map_of (fcItems c) k = Some n"
  shows "map (\<lambda>n. lfu_item (fcHeap (lfu_incrementFreq n c) n)) [n] =
      [(lfu_item (fcHeap c n))\<lparr>itFreq := fnFreq (fcHeap c n) + 1\<rparr>]"
    and "map (\<lambda>m. lfu_item (fcHeap (lfu_incrementFreq n c) m)) (filter (\<lambda>x. x \<noteq> n) ns) =
      drop_item k (map (\<lambda>n. lfu_item (fcHeap c n)) ns)"
proof -
  have n: "n \<in> set ns" using lfu_rep_mem [OF r k] by simp
  note i = increment_step [OF rep_parts(1) [OF r] n]
  show "map (\<lambda>n. lfu_item (fcHeap (lfu_incrementFreq n c) n)) [n] =
      [(lfu_item (fcHeap c n))\<lparr>itFreq := fnFreq (fcHeap c n) + 1\<rparr>]" using i(8) by simp
  show "map (\<lambda>m. lfu_item (fcHeap (lfu_incrementFreq n c) m)) (filter (\<lambda>x. x \<noteq> n) ns) =
      drop_item k (map (\<lambda>n. lfu_item (fcHeap c n)) ns)"
    unfolding lfu_rep_drop [OF r k] using i(7) by simp
qed

lemma lfu_sim_New: "lfu_sim (lfu_New cap) (lfuSpec_New cap)"
  by (rule lfu_simI [where ns = "[]"])
     (simp_all add: lfu_rep_def lfu_lists_def lfu_index_def lfu_New_def lfu_view_def lfuSpec_New_def)

lemma lfu_item_upd [simp]:
  "lfu_item (x\<lparr>fnHitCount := h\<rparr>) = (lfu_item x)\<lparr>itHits := h\<rparr>"
  "lfu_item (x\<lparr>fnValue := v, fnExpiresAt := e\<rparr>) = (lfu_item x)\<lparr>itValue := v, itExpires := e\<rparr>"
  by (simp_all add: lfu_item_def)

lemma lfu_map_upd [simp]:
  "n \<notin> set ns \<Longrightarrow>
   map (\<lambda>m. lfu_item (if m = n then a else h m)) ns = map (\<lambda>m. lfu_item (h m)) ns"
  by (induction ns) auto

lemma lfu_Get_sim:
  assumes "lfu_sim c s" and g: "lfu_Get now k c = (r, c')"
  shows "\<exists>s'. lfuSpec_Get now k s = (r, s') \<and> lfu_sim c' s'"
proof -
  obtain ns where rep: "lfu_rep c ns" and s: "s = lfu_view c ns" using assms(1) by (auto simp: lfu_sim_def)
  note find = lfu_rep_find [OF rep, of k]
  show ?thesis
  proof (cases "map_of (fcItems c) k")
    case None
    with g s find rep show ?thesis
      by (auto simp: lfu_Get_def lfuSpec_Get_def lfu_view_def intro!: lfu_simI [where ns = ns])
  next
    case (Some n)
    note n = lfu_rep_mem [OF rep Some]
    show ?thesis
    proof (cases "expired now (fnExpiresAt (fcHeap c n))")
      case True
      with g s find Some lfu_rep_drop [OF rep Some] show ?thesis
        by (auto simp: lfu_Get_def lfuSpec_Get_def lfu_view_def Let_def
            intro!: lfu_simI [where ns = "filter (\<lambda>x. x \<noteq> n) ns"] lfu_rep_delete [OF rep Some])
    next
      case False
      note i = increment_step [OF rep_parts(1) [OF rep] n [THEN conjunct1]]
      let ?f = "\<lambda>x. x\<lparr>fnHitCount := fnHitCount x + 1\<rparr>"
      have "lfu_rep (lfu_modNode n ?f (lfu_incrementFreq n c)) (n # filter (\<lambda>x. x \<noteq> n) ns)"
        using rep_use [OF rep n [THEN conjunct1]] by (rule rep_data) simp_all
      moreover have "fnValue (fcHeap (lfu_incrementFreq n c) n) = fnValue (fcHeap c n)"
        "fnHitCount (fcHeap (lfu_incrementFreq n c) n) = fnHitCount (fcHeap c n)"
        using arg_cong [OF i(8), of itValue] arg_cong [OF i(8), of itHits] by simp_all
      ultimately show ?thesis
        using g s find Some False i(2-5,8) view_use [OF rep Some]
        by (auto simp: lfu_Get_def lfuSpec_Get_def Let_def lfu_view_def
            intro!: lfu_simI [where ns = "n # filter (\<lambda>x. x \<noteq> n) ns"])
    qed
  qed
qed

lemma lfu_Peek_sim:
  assumes "lfu_sim c s" and g: "lfu_Peek now k c = (r, c')"
  shows "\<exists>s'. lfuSpec_Peek now k s = (r, s') \<and> lfu_sim c' s'"
proof -
  obtain ns where rep: "lfu_rep c ns" and s: "s = lfu_view c ns" using assms(1) by (auto simp: lfu_sim_def)
  note find = lfu_rep_find [OF rep, of k]
  show ?thesis
  proof (cases "map_of (fcItems c) k")
    case None
    with g s find rep show ?thesis
      by (auto simp: lfu_Peek_def lfuSpec_Peek_def lfu_view_def intro!: lfu_simI [where ns = ns])
  next
    case (Some n)
    show ?thesis
    proof (cases "expired now (fnExpiresAt (fcHeap c n))")
      case True
      with g s find Some lfu_rep_drop [OF rep Some] show ?thesis
        by (auto simp: lfu_Peek_def lfuSpec_Peek_def lfu_view_def Let_def
            intro!: lfu_simI [where ns = "filter (\<lambda>x. x \<noteq> n) ns"] lfu_rep_delete [OF rep Some])
    next
      case False
      with g s find Some rep show ?thesis
        by (auto simp: lfu_Peek_def lfuSpec_Peek_def lfu_view_def intro!: lfu_simI [where ns = ns])
    qed
  qed
qed

lemma lfu_Delete_sim:
  assumes "lfu_sim c s" and g: "lfu_Delete k c = (found, c')"
  shows "\<exists>s'. lfuSpec_Delete k s = (found, s') \<and> lfu_sim c' s'"
proof -
  obtain ns where rep: "lfu_rep c ns" and s: "s = lfu_view c ns" using assms(1) by (auto simp: lfu_sim_def)
  note find = lfu_rep_find [OF rep, of k]
  show ?thesis
  proof (cases "map_of (fcItems c) k")
    case None
    with g s find rep show ?thesis
      by (auto simp: lfu_Delete_def lfuSpec_Delete_def lfu_view_def intro!: lfu_simI [where ns = ns])
  next
    case (Some n)
    with g s find lfu_rep_drop [OF rep Some] show ?thesis
      by (auto simp: lfu_Delete_def lfuSpec_Delete_def lfu_view_def Let_def
          intro!: lfu_simI [where ns = "filter (\<lambda>x. x \<noteq> n) ns"] lfu_rep_delete [OF rep Some])
  qed
qed

text \<open>The eviction finds the machine's victim.\<close>

definition lfu_makeRoom :: "LFUCache \<Rightarrow> evictCall list \<times> LFUCache" where
  "lfu_makeRoom c = (if int (length (fcItems c)) \<ge> fcCapacity c then lfu_evictOne c else ([], c))"

lemma evictOne_eq:
  assumes r: "lfu_rep c ns" and full: "int (length ns) = fcCapacity c"
  defines "v \<equiv> last (filter (\<lambda>n. lfu_fr c n = lfu_min c ns) ns)"
  shows "v \<in> set ns"
    and "lfu_evictOne c = (if fcOnEvict c then [(fnKey (fcHeap c v), fnValue (fcHeap c v))] else [],
      lfu_modSt (\<lambda>s. s\<lparr>Evictions := Evictions s + 1\<rparr>)
        ((lfu_modSt (\<lambda>s. s\<lparr>BytesStored := BytesStored s - blen (fnValue (fcHeap c v))\<rparr>) (lfu_unlink v c))
          \<lparr>fcItems := AList.delete (fnKey (fcHeap c v)) (fcItems c)\<rparr>))"
proof -
  let ?B = "filter (\<lambda>n. lfu_fr c n = lfu_min c ns) ns"
  have "ns \<noteq> []" using full rep_parts(3) [OF r] by auto
  then have "lfu_min c ns \<in> lfu_fr c ` set ns" by (intro Min_in) simp_all
  then have ne: "?B \<noteq> []" by (auto simp: filter_empty_conv)
  then have vB: "v \<in> set ?B" unfolding v_def by (rule last_in_set)
  then show v: "v \<in> set ns" by simp
  have fv: "lfu_fr c v = lfu_min c ns" using vB by simp
  have b: "buckets (fcFreqList c) (lfu_pos c) (lfu_fr c) ns"
    using rep_parts(1) [OF r] by (simp add: lfu_lists_def)
  obtain fl where fl: "map_of (fcFreqList c) (lfu_fr c v) = Some fl" and "dl.holds (lfu_pos c) fl (filter (\<lambda>x. lfu_fr c x = lfu_fr c v) ns)"
    using buckets_mem [OF b v] by blast
  then have h: "dl.holds (lfu_pos c) fl ?B" by (simp only: fv)
  have "list_Len fl \<noteq> 0" "list_Back fl = Some (lfu_pos c v)" "node_Value fl (lfu_pos c v) = v"
    using dl.holds_len [OF h] dl.holds_back [OF h] dl.holds_val [OF h vB] ne by (simp_all add: v_def)
  moreover have "fcMinFreq c = lfu_fr c v" using rep_parts(5) [OF r full] fv by simp
  ultimately show "lfu_evictOne c = (if fcOnEvict c then [(fnKey (fcHeap c v), fnValue (fcHeap c v))] else [],
      lfu_modSt (\<lambda>s. s\<lparr>Evictions := Evictions s + 1\<rparr>)
        ((lfu_modSt (\<lambda>s. s\<lparr>BytesStored := BytesStored s - blen (fnValue (fcHeap c v))\<rparr>) (lfu_unlink v c))
          \<lparr>fcItems := AList.delete (fnKey (fcHeap c v)) (fcItems c)\<rparr>))"
    using fl by (simp add: lfu_evictOne_def lfu_unlink_def Let_def lfu_modSt_def)
qed

lemma victim_view:
  assumes "ns \<noteq> []"
  shows "lfuVictim (map (\<lambda>n. lfu_item (fcHeap c n)) ns) =
    lfu_item (fcHeap c (last (filter (\<lambda>n. lfu_fr c n = lfu_min c ns) ns)))"
proof -
  have "leastFreq (map (\<lambda>n. lfu_item (fcHeap c n)) ns) = lfu_min c ns"
    by (simp add: leastFreq_def image_image)
  moreover have "lfu_min c ns \<in> lfu_fr c ` set ns" using assms by (intro Min_in) simp_all
  then have "filter (\<lambda>n. lfu_fr c n = lfu_min c ns) ns \<noteq> []" by (auto simp: filter_empty_conv)
  ultimately show ?thesis by (simp add: lfuVictim_def filter_map comp_def last_map)
qed

lemma evict_sim:
  assumes r: "lfu_rep c ns" and e: "lfu_makeRoom c = (evs, c1)"
  shows "\<exists>ns1. lfu_rep c1 ns1 \<and> int (length ns1) < fcCapacity c1 \<and>
    lfuSpec_evict (lfu_view c ns) = (evs, lfu_view c1 ns1) \<and>
    (\<forall>k. map_of (fcItems c) k = None \<longrightarrow> map_of (fcItems c1) k = None)"
proof (cases "int (length ns) < fcCapacity c")
  case True
  with r e rep_parts(7) [OF r] show ?thesis by (auto simp: lfu_makeRoom_def lfuSpec_evict_def)
next
  case False
  with rep_parts(4) [OF r] have full: "int (length ns) = fcCapacity c" by simp
  then have ne: "ns \<noteq> []" using rep_parts(3) [OF r] by auto
  define v where "v = last (filter (\<lambda>n. lfu_fr c n = lfu_min c ns) ns)"
  note ev = evictOne_eq [OF r full, folded v_def]
  have k: "map_of (fcItems c) (fnKey (fcHeap c v)) = Some v"
    using index_lookup [OF rep_parts(2) [OF r, unfolded lfu_index_def]] ev(1) by simp
  let ?r = "filter (\<lambda>x. x \<noteq> v) ns"
  have c1: "lfu_makeRoom c = lfu_evictOne c" using full rep_parts(7) [OF r] by (simp add: lfu_makeRoom_def)
  have "lfu_rep c1 ?r"
    using e unfolding c1 ev(2) by (intro lfu_rep_delete [OF r k]) auto
  moreover have "int (length ?r) < fcCapacity c1"
    using e full length_filter_remove [OF rep_parts(6) [OF r] ev(1)] unfolding c1 ev(2) by auto
  moreover have "lfuSpec_evict (lfu_view c ns) = (evs, lfu_view c1 ?r)"
    using e full victim_view [OF ne, of c, folded v_def] lfu_rep_drop [OF r k] unfolding c1 ev(2)
    by (auto simp: lfuSpec_evict_def Let_def lfu_view_def)
  moreover have "\<forall>k. map_of (fcItems c) k = None \<longrightarrow> map_of (fcItems c1) k = None"
    using e unfolding c1 ev(2) by (auto simp: map_of_delete_upd)
  ultimately show ?thesis by blast
qed

text \<open>The insertion of a new node into a cache with room.\<close>

definition lfu_add :: "key \<Rightarrow> lfuNode \<Rightarrow> LFUCache \<Rightarrow> LFUCache" where
  "lfu_add k x c =
     (let n = fcFresh c;
          c1 = c\<lparr>fcFresh := n + 1, fcHeap := (fcHeap c)(n := x)\<rparr>;
          c2 = lfu_pushFreq 1 n c1
      in c2\<lparr>fcItems := AList.update k n (fcItems c2), fcMinFreq := 1\<rparr>)"

lemma add_sim:
  assumes r: "lfu_rep c ns" and full: "int (length ns) < fcCapacity c"
    and k: "map_of (fcItems c) k = None" and x: "fnKey x = k" "fnFreq x = 1"
  shows "lfu_rep (lfu_add k x c) (fcFresh c # ns)"
    and "lfu_view (lfu_add k x c) (fcFresh c # ns) =
      (lfu_view c ns)\<lparr>fsItems := lfu_item x # fsItems (lfu_view c ns)\<rparr>"
proof -
  let ?n = "fcFresh c"
  have new: "?n \<notin> set ns" using rep_parts(1) [OF r] by (auto simp: lfu_lists_def)
  define c1 where "c1 = c\<lparr>fcFresh := ?n + 1, fcHeap := (fcHeap c)(?n := x)\<rparr>"
  have a: "lfu_add k x c = (lfu_pushFreq 1 ?n c1)\<lparr>fcItems := AList.update k ?n (fcItems c), fcMinFreq := 1\<rparr>"
    by (simp add: lfu_add_def c1_def Let_def)
  have "lfu_lists c1 ns" using new by (intro lists_cong [OF rep_parts(1) [OF r]]) (auto simp: c1_def)
  then have "lfu_lists (lfu_pushFreq 1 ?n c1) (?n # ns)"
    using new x by (intro lfu_lists_push) (simp_all add: c1_def)
  then have l: "lfu_lists (lfu_add k x c) (?n # ns)" unfolding a by (rule lists_cong) simp_all
  have "indexes (AList.update k ?n (fcItems c)) (\<lambda>m. fnKey (fcHeap (lfu_add k x c) m)) (?n # ns)"
    using new x by (intro index_insert [OF rep_parts(2) [OF r, unfolded lfu_index_def] k])
      (auto simp: a c1_def)
  then have i: "lfu_index (lfu_add k x c) (?n # ns)" by (simp add: lfu_index_def a)
  have "\<forall>m\<in>set ns. 1 \<le> lfu_fr c m" using rep_parts(1) [OF r] by (simp add: lfu_lists_def)
  then have "lfu_min (lfu_add k x c) (?n # ns) = 1"
    using l x by (intro Min_eqI) (auto simp: lfu_lists_def a c1_def)
  with l i full rep_parts(3) [OF r] show "lfu_rep (lfu_add k x c) (?n # ns)"
    unfolding lfu_rep_def by (simp add: a c1_def)
  show "lfu_view (lfu_add k x c) (?n # ns) = (lfu_view c ns)\<lparr>fsItems := lfu_item x # fsItems (lfu_view c ns)\<rparr>"
    using new by (simp add: a c1_def lfu_view_def)
qed

lemma lfu_Set_eq:
  "lfu_Set now k v ttl c =
     (case map_of (fcItems c) k of
        Some n \<Rightarrow>
          (None, [], lfu_modSt (\<lambda>s. s\<lparr>Sets := Sets s + 1\<rparr>)
            (lfu_incrementFreq n (lfu_modNode n (\<lambda>x. x\<lparr>fnValue := v, fnExpiresAt := expiryOf now ttl\<rparr>)
              (lfu_modSt (\<lambda>s. s\<lparr>BytesStored := BytesStored s + (blen v - blen (fnValue (fcHeap c n)))\<rparr>) c))))
      | None \<Rightarrow>
          (let (evs, c1) = lfu_makeRoom c
           in (None, evs, lfu_modSt (\<lambda>s. s\<lparr>BytesStored := BytesStored s + blen v\<rparr>)
                (lfu_modSt (\<lambda>s. s\<lparr>Sets := Sets s + 1\<rparr>)
                  (lfu_add k \<lparr>fnKey = k, fnValue = v, fnFreq = 1, fnExpiresAt = expiryOf now ttl,
                     fnCreatedAt = now, fnHitCount = 0, fnListNode = 0\<rparr> c1)))))"
  by (auto simp: lfu_Set_def lfu_makeRoom_def lfu_add_def Let_def split: option.splits)

lemma lfu_view_modSt [simp]: "lfu_view (lfu_modSt f c) ns = (lfu_view c ns)\<lparr>fsSt := f (fcSt c)\<rparr>"
  by (simp add: lfu_view_def)

lemma lfu_Set_sim:
  assumes "lfu_sim c s" and g: "lfu_Set now k v ttl c = (err, evs, c')"
  shows "\<exists>s'. lfuSpec_Set now k v ttl s = (err, evs, s') \<and> lfu_sim c' s'"
proof -
  obtain ns where rep: "lfu_rep c ns" and s: "s = lfu_view c ns" using assms(1) by (auto simp: lfu_sim_def)
  note find = lfu_rep_find [OF rep, of k]
  show ?thesis
  proof (cases "map_of (fcItems c) k")
    case None
    obtain c1 where e: "lfu_makeRoom c = (evs, c1)" using g None by (cases "lfu_makeRoom c") (auto simp: lfu_Set_eq)
    let ?x = "\<lparr>fnKey = k, fnValue = v, fnFreq = 1, fnExpiresAt = expiryOf now ttl,
                fnCreatedAt = now, fnHitCount = 0, fnListNode = 0\<rparr>"
    obtain ns1 where r1: "lfu_rep c1 ns1" and full: "int (length ns1) < fcCapacity c1"
      and ev: "lfuSpec_evict (lfu_view c ns) = (evs, lfu_view c1 ns1)"
      and k1: "map_of (fcItems c1) k = None"
      using evict_sim [OF rep e] None by blast
    note add = add_sim [OF r1 full k1, of ?x]
    have st: "fcSt (lfu_add k ?x c1) = fcSt c1" by (simp add: lfu_add_def Let_def)
    from add None g s find ev e st show ?thesis
      by (auto simp: lfu_Set_eq lfuSpec_Set_def lfu_item_def intro!: lfu_simI [where ns = "fcFresh c1 # ns1"])
  next
    case (Some n)
    let ?g = "\<lambda>x. x\<lparr>fnValue := v, fnExpiresAt := expiryOf now ttl\<rparr>"
    let ?f = "\<lambda>s. s\<lparr>BytesStored := BytesStored s + (blen v - blen (fnValue (fcHeap c n)))\<rparr>"
    define c2 where "c2 = lfu_modNode n ?g (lfu_modSt ?f c)"
    have r2: "lfu_rep c2 ns" unfolding c2_def using rep by (intro rep_data) simp_all
    have k2: "map_of (fcItems c2) k = Some n" using Some by (simp add: c2_def)
    have n: "n \<in> set ns" using lfu_rep_mem [OF rep Some] by simp
    note i = increment_step [OF rep_parts(1) [OF r2] n]
    have d: "drop_item k (map (\<lambda>n. lfu_item (fcHeap c2 n)) ns) = drop_item k (map (\<lambda>n. lfu_item (fcHeap c n)) ns)"
      unfolding lfu_rep_drop [OF r2 k2] lfu_rep_drop [OF rep Some] by (simp add: c2_def)
    have c': "c' = lfu_modSt (\<lambda>s. s\<lparr>Sets := Sets s + 1\<rparr>) (lfu_incrementFreq n c2)" "err = None" "evs = []"
      using g Some by (auto simp: lfu_Set_eq c2_def)
    have "lfu_sim c' ((lfu_view c' (n # filter (\<lambda>x. x \<noteq> n) ns)))"
      unfolding c' using rep_use [OF r2 n] by (intro lfu_simI) simp_all
    moreover have "lfuSpec_Set now k v ttl s = (err, evs, lfu_view c' (n # filter (\<lambda>x. x \<noteq> n) ns))"
      using s find Some c' i(2-5,8) view_use(2) [OF r2 k2] d
      by (simp add: lfuSpec_Set_def lfu_view_def) (simp add: c2_def)
    ultimately show ?thesis by blast
  qed
qed

lemma lfu_Purge_sim: "lfu_sim c s \<Longrightarrow> lfu_sim (lfu_Purge c) (lfuSpec_Purge s)"
  by (auto simp: lfu_sim_def lfu_rep_def lfu_lists_def lfu_index_def lfu_Purge_def lfuSpec_Purge_def
      lfu_view_def stats_Reset_new intro!: exI [where x = "[]"])

end
