(* ===== verification/LFU_Contract.thy ===== *)
theory LFU_Contract
  imports LFU
begin

text \<open>
  The LFU cache as a provider of the cache contract: the machine with frequencies satisfies the
  laws (\<open>lfuSpec\<close>), the code's model implements the machine (\<open>lfuImpl\<close>) and inherits the
  contract (\<open>lfu\<close>), and it reports its evictions (\<open>lfuReports\<close>).
\<close>

section \<open>The machine as a cache, and its laws\<close>

definition lfuSpec_cache :: "lfuSpec Cache" where
  "lfuSpec_cache = \<lparr>mGet = lfuSpec_Get, mSet = lfuSpec_Set, mDelete = lfuSpec_Delete,
     mPeek = lfuSpec_Peek,
     mKeys = (\<lambda>now s. Some (keys_of (filter (\<lambda>e. unexpired now (itExpires e)) (fsItems s)))),
     mLen = (\<lambda>s. int (length (fsItems s))), mCapacity = fsCapacity, mStats = fsSt,
     mUpdStats = (\<lambda>f s. s\<lparr>fsSt := f (fsSt s)\<rparr>), mSnapshot = (\<lambda>now s. None),
     mPurge = lfuSpec_Purge, mSetEvictionCallback = (\<lambda>b s. s\<lparr>fsOnEvict := b\<rparr>)\<rparr>"

definition lfuSpec_ok :: "lfuSpec \<Rightarrow> bool" where
  "lfuSpec_ok s \<longleftrightarrow> 0 < fsCapacity s \<and> int (length (fsItems s)) \<le> fsCapacity s \<and>
     distinct (keys_of (fsItems s))"

definition lfuSpec_bytes :: "lfuSpec \<Rightarrow> bool" where
  "lfuSpec_bytes s \<longleftrightarrow> BytesStored (fsSt s) = bytes_of (fsItems s)"

abbreviation lfuSpec_live :: "lfuSpec \<Rightarrow> key \<rightharpoonup> bytes \<times> Time" where
  "lfuSpec_live s \<equiv> live_of (fsItems s)"

lemma lfuVictim_mem:
  assumes "es \<noteq> []"
  shows "lfuVictim es \<in> set es" and "e \<in> set es \<Longrightarrow> itFreq (lfuVictim es) \<le> itFreq e"
proof -
  have "leastFreq es \<in> set (map itFreq es)" unfolding leastFreq_def using assms by (intro Min_in) auto
  then have "filter (\<lambda>e. itFreq e = leastFreq es) es \<noteq> []" by (auto simp: filter_empty_conv)
  then have "lfuVictim es \<in> set (filter (\<lambda>e. itFreq e = leastFreq es) es)"
    unfolding lfuVictim_def by (rule last_in_set)
  then show "lfuVictim es \<in> set es" and "e \<in> set es \<Longrightarrow> itFreq (lfuVictim es) \<le> itFreq e"
    by (auto simp: leastFreq_def)
qed

lemma lfuSpec_evict_ok:
  assumes ok: "lfuSpec_ok s" and e: "lfuSpec_evict s = (evs, s1)"
  shows "fsCapacity s1 = fsCapacity s \<and> int (length (fsItems s1)) < fsCapacity s1 \<and>
    distinct (keys_of (fsItems s1)) \<and>
    (\<exists>ds. set ds \<subseteq> set (fsItems s) \<and> length ds \<le> 1 \<and>
      (\<forall>d\<in>set ds. \<forall>e\<in>set (fsItems s). itFreq d \<le> itFreq e) \<and>
      lfuSpec_live s1 = (\<lambda>k. if k \<in> set (keys_of ds) then None else lfuSpec_live s k) \<and>
      evs = (if fsOnEvict s then map (\<lambda>e. (itKey e, itValue e)) ds else [])) \<and>
    fsOnEvict s1 = fsOnEvict s \<and> set (fsItems s1) \<subseteq> set (fsItems s) \<and>
    (lfuSpec_bytes s \<longrightarrow> lfuSpec_bytes s1)"
proof (cases "int (length (fsItems s)) < fsCapacity s")
  case True
  with e ok show ?thesis
    by (auto simp: lfuSpec_evict_def lfuSpec_ok_def intro!: exI [where x = "[] :: fitem list"])
next
  case False
  with ok have ne: "fsItems s \<noteq> []" and l: "int (length (fsItems s)) = fsCapacity s"
    and d: "distinct (keys_of (fsItems s))" by (auto simp: lfuSpec_ok_def)
  define v where "v = lfuVictim (fsItems s)"
  note v = lfuVictim_mem [OF ne, folded v_def]
  have f: "find_item (itKey v) (fsItems s) = Some v" using find_item_mem [OF d v(1)] .
  have s1: "fsItems s1 = drop_item (itKey v) (fsItems s)" "fsCapacity s1 = fsCapacity s"
      "fsOnEvict s1 = fsOnEvict s" "BytesStored (fsSt s1) = BytesStored (fsSt s) - blen (itValue v)"
    and evs: "evs = (if fsOnEvict s then [(itKey v, itValue v)] else [])"
    using e False by (auto simp: lfuSpec_evict_def Let_def v_def)
  have "\<exists>ds. set ds \<subseteq> set (fsItems s) \<and> length ds \<le> 1 \<and>
      (\<forall>d\<in>set ds. \<forall>e\<in>set (fsItems s). itFreq d \<le> itFreq e) \<and>
      lfuSpec_live s1 = (\<lambda>k. if k \<in> set (keys_of ds) then None else lfuSpec_live s k) \<and>
      evs = (if fsOnEvict s then map (\<lambda>e. (itKey e, itValue e)) ds else [])"
    using v evs by (intro exI [where x = "[v]"]) (auto simp: s1 live_of_drop)
  moreover have "int (length (fsItems s1)) < fsCapacity s1" using length_drop_item [OF d f] l s1 by simp
  moreover have "lfuSpec_bytes s \<longrightarrow> lfuSpec_bytes s1"
    using bytes_of_drop [OF d f] s1 by (simp add: lfuSpec_bytes_def)
  ultimately show ?thesis using s1 d by simp
qed

lemma lfuSpec_Get_law:
  assumes ok: "lfuSpec_ok s" and g: "lfuSpec_Get now k s = (r, s')"
  shows "lfuSpec_ok s' \<and> r = look now (lfuSpec_live s k) \<and>
    lfuSpec_live s' = (lfuSpec_live s)(k := keep now (lfuSpec_live s k)) \<and>
    (lfuSpec_bytes s \<longrightarrow> lfuSpec_bytes s')"
proof (cases "find_item k (fsItems s)")
  case None
  with g ok show ?thesis by (auto simp: lfuSpec_Get_def lfuSpec_ok_def lfuSpec_bytes_def live_of_find)
next
  case (Some e)
  note f = find_item_Some [OF Some] find_drop_length [OF Some]
  have k: "k \<notin> set (keys_of (drop_item k (fsItems s)))" by (simp add: keys_of_drop)
  have d: "distinct (keys_of (fsItems s))" using ok by (simp add: lfuSpec_ok_def)
  show ?thesis
  proof (cases "expired now (itExpires e)")
    case True
    with Some g ok f bytes_of_drop [OF d Some] show ?thesis
      by (auto simp: lfuSpec_Get_def lfuSpec_ok_def lfuSpec_bytes_def live_of_find live_of_drop)
  next
    case False
    let ?e = "e\<lparr>itHits := itHits e + 1, itFreq := itFreq e + 1\<rparr>"
    have "live_of (?e # drop_item k (fsItems s)) = (live_of (fsItems s))(k \<mapsto> (itValue e, itExpires e))"
      using live_of_move [OF Some, of ?e] f by simp
    moreover have "distinct (keys_of (?e # drop_item k (fsItems s)))" using d f k by auto
    ultimately show ?thesis
      using Some g ok f False bytes_of_drop [OF d Some]
      by (auto simp: lfuSpec_Get_def lfuSpec_ok_def lfuSpec_bytes_def live_of_find simp del: live_of_simps)
  qed
qed

lemma lfuSpec_Peek_law:
  assumes ok: "lfuSpec_ok s" and g: "lfuSpec_Peek now k s = (r, s')"
  shows "lfuSpec_ok s' \<and> r = look now (lfuSpec_live s k) \<and>
    lfuSpec_live s' = (lfuSpec_live s)(k := keep now (lfuSpec_live s k)) \<and>
    (lfuSpec_bytes s \<longrightarrow> lfuSpec_bytes s')"
proof (cases "find_item k (fsItems s)")
  case None
  with g ok show ?thesis by (auto simp: lfuSpec_Peek_def lfuSpec_ok_def live_of_find)
next
  case (Some e)
  have d: "distinct (keys_of (fsItems s))" using ok by (simp add: lfuSpec_ok_def)
  have "(lfuSpec_live s)(k := Some (itValue e, itExpires e)) = lfuSpec_live s"
    using live_of_find(2) [OF Some] by (simp add: fun_upd_idem)
  with Some g ok find_drop_length [OF Some] bytes_of_drop [OF d Some] show ?thesis
    by (auto simp: lfuSpec_Peek_def lfuSpec_ok_def lfuSpec_bytes_def live_of_find live_of_drop
        split: if_splits)
qed

lemma lfuSpec_Delete_law:
  assumes ok: "lfuSpec_ok s" and g: "lfuSpec_Delete k s = (r, s')"
  shows "lfuSpec_ok s' \<and> lfuSpec_live s' = (lfuSpec_live s)(k := None) \<and>
    r = (lfuSpec_live s k \<noteq> None) \<and> (lfuSpec_bytes s \<longrightarrow> lfuSpec_bytes s')"
proof (cases "find_item k (fsItems s)")
  case None
  with g ok show ?thesis by (auto simp: lfuSpec_Delete_def live_of_find fun_upd_idem)
next
  case (Some e)
  have d: "distinct (keys_of (fsItems s))" using ok by (simp add: lfuSpec_ok_def)
  with Some g ok find_drop_length [OF Some] bytes_of_drop [OF d Some] show ?thesis
    by (auto simp: lfuSpec_Delete_def lfuSpec_ok_def lfuSpec_bytes_def live_of_find live_of_drop)
qed

lemma lfuSpec_Set_law:
  assumes ok: "lfuSpec_ok s" and g: "lfuSpec_Set now k v ttl s = (err, evs, s')"
  shows "lfuSpec_ok s' \<and> err = None \<and> (lfuSpec_bytes s \<longrightarrow> lfuSpec_bytes s') \<and>
    fsOnEvict s' = fsOnEvict s \<and>
    (\<exists>ds. set ds \<subseteq> set (fsItems s) \<and> length ds \<le> 1 \<and> k \<notin> set (keys_of ds) \<and>
      (\<forall>d\<in>set ds. \<forall>e\<in>set (fsItems s). itFreq d \<le> itFreq e) \<and>
      lfuSpec_live s' = (\<lambda>k'. if k' \<in> set (keys_of ds) then None else lfuSpec_live s k')
        (k \<mapsto> (v, expiryOf now ttl)) \<and>
      evs = (if fsOnEvict s then map (\<lambda>e. (itKey e, itValue e)) ds else []))"
proof (cases "find_item k (fsItems s)")
  case (Some e)
  have d: "distinct (keys_of (fsItems s))" using ok by (simp add: lfuSpec_ok_def)
  have k: "k \<notin> set (keys_of (drop_item k (fsItems s)))" by (simp add: keys_of_drop)
  let ?e = "e\<lparr>itValue := v, itExpires := expiryOf now ttl, itFreq := itFreq e + 1\<rparr>"
  have "live_of (?e # drop_item k (fsItems s)) = (live_of (fsItems s))(k \<mapsto> (v, expiryOf now ttl))"
    using live_of_move [OF Some, of ?e] find_item_Some [OF Some] by simp
  with Some g ok d k find_item_Some [OF Some] find_drop_length [OF Some] bytes_of_drop [OF d Some]
  show ?thesis
    by (auto simp: lfuSpec_Set_def lfuSpec_ok_def lfuSpec_bytes_def simp del: live_of_simps
        intro!: exI [where x = "[] :: fitem list"])
next
  case None
  obtain s1 where e: "lfuSpec_evict s = (evs, s1)" using g None by (auto simp: lfuSpec_Set_def split: prod.splits)
  let ?x = "\<lparr>itKey = k, itValue = v, itExpires = expiryOf now ttl, itCreated = now, itHits = 0, itFreq = 1\<rparr>"
  have s': "err = None" "fsItems s' = ?x # fsItems s1" "fsCapacity s' = fsCapacity s1"
      "fsOnEvict s' = fsOnEvict s1" "BytesStored (fsSt s') = BytesStored (fsSt s1) + blen v"
    using None g e by (auto simp: lfuSpec_Set_def)
  note ev = lfuSpec_evict_ok [OF ok e]
  then obtain ds :: "fitem list" where ds: "set ds \<subseteq> set (fsItems s)" "length ds \<le> 1"
      "\<forall>d\<in>set ds. \<forall>e\<in>set (fsItems s). itFreq d \<le> itFreq e"
      "lfuSpec_live s1 = (\<lambda>k. if k \<in> set (keys_of ds) then None else lfuSpec_live s k)"
      "evs = (if fsOnEvict s then map (\<lambda>e. (itKey e, itValue e)) ds else [])" by blast
  have k: "k \<notin> set (keys_of (fsItems s))" using None by (simp add: find_item_None)
  then have "k \<notin> set (keys_of ds)" "k \<notin> set (keys_of (fsItems s1))"
    using ds(1) ev by (auto simp: keys_of_def)
  moreover from this have "lfuSpec_ok s'" using ok ev s' by (simp add: lfuSpec_ok_def)
  moreover have "lfuSpec_bytes s \<longrightarrow> lfuSpec_bytes s'" using ev s' by (simp add: lfuSpec_bytes_def)
  moreover have "lfuSpec_live s' = (\<lambda>k'. if k' \<in> set (keys_of ds) then None else lfuSpec_live s k')
        (k \<mapsto> (v, expiryOf now ttl))"
    unfolding ds(4) [symmetric] using s'(2) by (simp add: fun_eq_iff)
  moreover have "fsOnEvict s' = fsOnEvict s" using s' ev by simp
  ultimately show ?thesis using s'(1) ds(1-3,5) by (intro conjI exI [where x = ds]) assumption+
qed

section \<open>Interpretations\<close>

lemmas lfuSpec_sel = lfuSpec_cache_def

lemma lfuSpec_Purge_law: "lfuSpec_ok s \<Longrightarrow> lfuSpec_ok (lfuSpec_Purge s) \<and> lfuSpec_live (lfuSpec_Purge s) = Map.empty"
  by (auto simp: lfuSpec_Purge_def lfuSpec_ok_def)

lemma lfuSpec_ok_frame:
  "lfuSpec_ok (s\<lparr>fsSt := st\<rparr>) = lfuSpec_ok s" "lfuSpec_ok (s\<lparr>fsOnEvict := b\<rparr>) = lfuSpec_ok s"
  by (simp_all add: lfuSpec_ok_def)

lemma lfuSpec_bytes_frame:
  "lfuSpec_bytes (s\<lparr>fsOnEvict := b\<rparr>) = lfuSpec_bytes s" "lfuSpec_bytes (lfuSpec_Purge s)"
  by (simp_all add: lfuSpec_bytes_def lfuSpec_Purge_def newStats_def)

lemma lfuSpec_ok_bound: "lfuSpec_ok s \<Longrightarrow> int (length (fsItems s)) \<le> fsCapacity s"
  by (simp add: lfuSpec_ok_def)

lemma lfuSpec_evs:
  assumes ok: "lfuSpec_ok s" and ds: "set ds \<subseteq> set (fsItems s)" "k \<notin> set (keys_of ds)"
      "lfuSpec_live s' = (\<lambda>k'. if k' \<in> set (keys_of ds) then None else lfuSpec_live s k')(k \<mapsto> x)"
      "evs = (if fsOnEvict s then map (\<lambda>e. (itKey e, itValue e)) ds else [])"
    and p: "p \<in> set evs"
  shows "case p of (k', v') \<Rightarrow> k' \<noteq> k \<and> lfuSpec_live s' k' = None \<and> (\<exists>e. lfuSpec_live s k' = Some (v', e))"
proof -
  from p ds(4) obtain e where e: "e \<in> set ds" "p = (itKey e, itValue e)" by (auto split: if_splits)
  with ds(2) have "itKey e \<noteq> k" "itKey e \<in> set (keys_of ds)" by (auto simp: keys_of_def)
  moreover have "lfuSpec_live s (itKey e) = Some (itValue e, itExpires e)"
    using find_item_mem [of "fsItems s" e] ok e ds(1) by (auto simp: lfuSpec_ok_def live_of_def)
  ultimately show ?thesis using e ds(3) by simp
qed

interpretation lfuSpec: bounded_cache lfuSpec_cache lfuSpec_ok "\<lambda>s. live_of (fsItems s)"
proof
  fix c c' now k v ttl err evs
  assume ok: "lfuSpec_ok c" and "mSet lfuSpec_cache now k v ttl c = (err, evs, c')"
  then have g: "lfuSpec_Set now k v ttl c = (err, evs, c')" by (simp add: lfuSpec_sel)
  obtain ds :: "fitem list" where ds: "set ds \<subseteq> set (fsItems c)" "k \<notin> set (keys_of ds)"
      "lfuSpec_live c' = (\<lambda>k'. if k' \<in> set (keys_of ds) then None else lfuSpec_live c k')
        (k \<mapsto> (v, expiryOf now ttl))"
      "evs = (if fsOnEvict c then map (\<lambda>e. (itKey e, itValue e)) ds else [])"
    and l: "lfuSpec_ok c'" "err = None"
    using lfuSpec_Set_law [OF ok g] by blast
  have "\<forall>(k', v') \<in> set evs. k' \<noteq> k \<and> lfuSpec_live c' k' = None \<and> (\<exists>e. lfuSpec_live c k' = Some (v', e))"
    by (rule ballI) (rule lfuSpec_evs [OF ok ds])
  then show "lfuSpec_ok c' \<and> err = None \<and> lfuSpec_live c' k = Some (v, expiryOf now ttl) \<and>
      (\<forall>k'. k' \<noteq> k \<longrightarrow> lfuSpec_live c' k' = lfuSpec_live c k' \<or> lfuSpec_live c' k' = None) \<and>
      (\<forall>(k', v') \<in> set evs. k' \<noteq> k \<and> lfuSpec_live c' k' = None \<and> (\<exists>e. lfuSpec_live c k' = Some (v', e)))"
    using l ds(3) by simp
next
  fix c now assume "lfuSpec_ok c"
  then show "\<exists>ks. mKeys lfuSpec_cache now c = Some ks \<and> distinct ks \<and>
      set ks = {k. \<exists>v e. lfuSpec_live c k = Some (v, e) \<and> unexpired now e}"
    using live_of_keys [of "fsItems c" now]
    by (simp add: lfuSpec_sel lfuSpec_ok_def) (simp add: keys_of_def distinct_map_filter)
next
  fix c assume "lfuSpec_ok c"
  then show "finite (dom (lfuSpec_live c)) \<and> mLen lfuSpec_cache c = int (card (dom (lfuSpec_live c)))"
    using card_dom_live [of "fsItems c"] by (simp add: lfuSpec_sel lfuSpec_ok_def dom_live_of)
qed (auto simp: lfuSpec_sel lfuSpec_Purge_law lfuSpec_ok_frame lfuSpec_ok_bound
      dest: lfuSpec_Get_law lfuSpec_Peek_law lfuSpec_Delete_law)

definition lfu_live :: "LFUCache \<Rightarrow> key \<rightharpoonup> bytes \<times> Time" where
  "lfu_live c k = map_option (\<lambda>n. (fnValue (fcHeap c n), fnExpiresAt (fcHeap c n))) (map_of (fcItems c) k)"

lemma lfu_sim_view:
  assumes "lfu_sim c s"
  shows "fcSt c = fsSt s" and "lfu_sim (c\<lparr>fcOnEvict := b\<rparr>) (s\<lparr>fsOnEvict := b\<rparr>)"
    and "lfu_sim (lfu_modSt f c) (s\<lparr>fsSt := f (fsSt s)\<rparr>)" and "lfu_live c = lfuSpec_live s"
    and "fcCapacity c = fsCapacity s" and "lfu_Len c = int (length (fsItems s))"
    and "fcOnEvict c = fsOnEvict s"
proof -
  obtain ns where r: "lfu_rep c ns" and s: "s = lfu_view c ns" using assms by (auto simp: lfu_sim_def)
  show "fcSt c = fsSt s" "fcCapacity c = fsCapacity s" "fcOnEvict c = fsOnEvict s" using s by simp_all
  show "lfu_sim (lfu_modSt f c) (s\<lparr>fsSt := f (fsSt s)\<rparr>)" using r s by (intro lfu_simI [where ns = ns]) simp_all
  show "lfu_sim (c\<lparr>fcOnEvict := b\<rparr>) (s\<lparr>fsOnEvict := b\<rparr>)"
    using r s by (intro lfu_simI [where ns = ns]) (simp_all add: lfu_rep_def lfu_lists_def lfu_index_def lfu_view_def)
  show "lfu_live c = lfuSpec_live s"
    using lfu_rep_find [OF r] s by (auto simp: fun_eq_iff lfu_live_def live_of_def option.map_comp comp_def)
  show "lfu_Len c = int (length (fsItems s))" using rep_parts(7) [OF r] s by (simp add: lfu_Len_def)
qed

lemma lfu_Keys_sim:
  assumes "lfu_sim c s"
  shows "\<exists>ks. lfu_Keys now c = Some ks \<and> distinct ks \<and>
    set ks = set (keys_of (filter (\<lambda>e. unexpired now (itExpires e)) (fsItems s)))"
proof -
  obtain ns where r: "lfu_rep c ns" and s: "s = lfu_view c ns" using assms by (auto simp: lfu_sim_def)
  have i: "distinct (map fst (fcItems c))" "set (fcItems c) = (\<lambda>n. (fnKey (fcHeap c n), n)) ` set ns"
    using rep_parts(2) [OF r] by (auto simp: lfu_index_def indexes_def)
  then have "distinct (map fst (filter (\<lambda>(k, n). unexpired now (fnExpiresAt (fcHeap c n))) (fcItems c)))"
    by (simp add: distinct_map_filter)
  moreover have "set (map fst (filter (\<lambda>(k, n). unexpired now (fnExpiresAt (fcHeap c n))) (fcItems c))) =
      (\<lambda>n. fnKey (fcHeap c n)) ` {n \<in> set ns. unexpired now (fnExpiresAt (fcHeap c n))}"
    by (auto simp: i(2) image_def)
  moreover have "keys_of (filter (\<lambda>e. unexpired now (itExpires e)) (fsItems s)) =
      map (\<lambda>n. fnKey (fcHeap c n)) (filter (\<lambda>n. unexpired now (fnExpiresAt (fcHeap c n))) ns)"
    by (simp add: s keys_of_def filter_map comp_def)
  ultimately show ?thesis by (simp add: lfu_Keys_def)
qed

interpretation lfuImpl: cache_implements lfu_cache lfuSpec_cache lfu_sim lfuSpec_ok "\<lambda>s. live_of (fsItems s)" lfu_live
proof
  fix c s now k r c' assume "lfu_sim c s" "mGet lfu_cache now k c = (r, c')"
  then show "\<exists>s'. mGet lfuSpec_cache now k s = (r, s') \<and> lfu_sim c' s'"
    using lfu_Get_sim [of c s now k r c'] by (simp add: lfu_cache_def lfuSpec_sel)
next
  fix c s now k r c' assume "lfu_sim c s" "mPeek lfu_cache now k c = (r, c')"
  then show "\<exists>s'. mPeek lfuSpec_cache now k s = (r, s') \<and> lfu_sim c' s'"
    using lfu_Peek_sim [of c s now k r c'] by (simp add: lfu_cache_def lfuSpec_sel)
next
  fix c s now k v ttl err evs c' assume "lfu_sim c s" "mSet lfu_cache now k v ttl c = (err, evs, c')"
  then show "\<exists>s'. mSet lfuSpec_cache now k v ttl s = (err, evs, s') \<and> lfu_sim c' s'"
    using lfu_Set_sim [of c s now k v ttl err evs c'] by (simp add: lfu_cache_def lfuSpec_sel)
next
  fix c s k found c' assume "lfu_sim c s" "mDelete lfu_cache k c = (found, c')"
  then show "\<exists>s'. mDelete lfuSpec_cache k s = (found, s') \<and> lfu_sim c' s'"
    using lfu_Delete_sim [of c s k found c'] by (simp add: lfu_cache_def lfuSpec_sel)
next
  fix c s now assume s: "lfu_sim c s"
  from lfu_Keys_sim [OF s, of now]
  show "\<exists>ks ks'. mKeys lfu_cache now c = Some ks \<and> mKeys lfuSpec_cache now s = Some ks' \<and>
      distinct ks \<and> set ks = set ks'" by (auto simp: lfu_cache_def lfuSpec_sel)
qed (auto simp: lfu_cache_def lfuSpec_sel lfu_Capacity_def lfu_SetEvictionCallback_def lfu_Purge_sim
      lfu_sim_view)

interpretation lfu: bounded_cache lfu_cache "\<lambda>c. \<exists>s. lfu_sim c s \<and> lfuSpec_ok s" lfu_live
  by (rule lfuImpl.contract)

lemma lfuSpec_New_ok: "lfuSpec_ok (lfuSpec_New cap)" "lfuSpec_bytes (lfuSpec_New cap)"
  by (simp_all add: lfuSpec_New_def lfuSpec_ok_def lfuSpec_bytes_def newStats_def)

lemma lfuSpec_onEvict:
  "lfuSpec_Get now k s = (r, s') \<Longrightarrow> fsOnEvict s' = fsOnEvict s"
  "lfuSpec_Peek now k s = (r, s') \<Longrightarrow> fsOnEvict s' = fsOnEvict s"
  "lfuSpec_Delete k s = (found, s') \<Longrightarrow> fsOnEvict s' = fsOnEvict s"
  "fsOnEvict (lfuSpec_Purge s) = fsOnEvict s"
  "lfuSpec_Set now k v ttl s = (err, evs, s') \<Longrightarrow> fsOnEvict s' = fsOnEvict s"
  by (auto simp: lfuSpec_Get_def lfuSpec_Peek_def lfuSpec_Delete_def lfuSpec_Purge_def lfuSpec_Set_def
      lfuSpec_evict_def Let_def split: option.splits if_splits prod.splits)

lemma lfuSpec_reports:
  assumes ok: "lfuSpec_ok s" and "fsOnEvict s" and g: "lfuSpec_Set now k v ttl s = (err, evs, s')"
    and k: "k' \<noteq> k" "lfuSpec_live s k' = Some (v', e)" "lfuSpec_live s' k' = None"
  shows "(k', v') \<in> set evs"
proof -
  obtain ds :: "fitem list" where ds: "set ds \<subseteq> set (fsItems s)" "k \<notin> set (keys_of ds)"
      "lfuSpec_live s' = (\<lambda>k'. if k' \<in> set (keys_of ds) then None else lfuSpec_live s k')
        (k \<mapsto> (v, expiryOf now ttl))"
      "evs = (if fsOnEvict s then map (\<lambda>e. (itKey e, itValue e)) ds else [])"
    using lfuSpec_Set_law [OF ok g] by blast
  from ds(3) k have "k' \<in> set (keys_of ds)" by (auto split: if_splits)
  then obtain x where x: "x \<in> set ds" "itKey x = k'" by (auto simp: keys_of_def)
  with ds(1) find_item_mem [of "fsItems s" x] ok k(2) have "itValue x = v'"
    by (auto simp: lfuSpec_ok_def live_of_def)
  with ds(4) x assms(2) show ?thesis by force
qed

lemma lfu_onEvict:
  assumes s: "lfu_sim c s"
  shows "lfu_Get now k c = (r, c') \<Longrightarrow> fcOnEvict c' = fcOnEvict c"
    and "lfu_Peek now k c = (r, c') \<Longrightarrow> fcOnEvict c' = fcOnEvict c"
    and "lfu_Set now k v ttl c = (err, evs, c') \<Longrightarrow> fcOnEvict c' = fcOnEvict c"
    and "lfu_Delete k c = (found, c') \<Longrightarrow> fcOnEvict c' = fcOnEvict c"
proof -
  show "fcOnEvict c' = fcOnEvict c" if "lfu_Get now k c = (r, c')"
    using lfu_Get_sim [OF s that] s by (metis lfu_sim_view(7) lfuSpec_onEvict(1))
  show "fcOnEvict c' = fcOnEvict c" if "lfu_Peek now k c = (r, c')"
    using lfu_Peek_sim [OF s that] s by (metis lfu_sim_view(7) lfuSpec_onEvict(2))
  show "fcOnEvict c' = fcOnEvict c" if "lfu_Set now k v ttl c = (err, evs, c')"
    using lfu_Set_sim [OF s that] s by (metis lfu_sim_view(7) lfuSpec_onEvict(5))
  show "fcOnEvict c' = fcOnEvict c" if "lfu_Delete k c = (found, c')"
    using lfu_Delete_sim [OF s that] s by (metis lfu_sim_view(7) lfuSpec_onEvict(3))
qed

interpretation lfuReports: reporting_cache lfu_cache "\<lambda>c. \<exists>s. lfu_sim c s \<and> lfuSpec_ok s" lfu_live fcOnEvict
proof
  fix c c' now k v ttl err evs k' v' e
  assume i: "\<exists>s. lfu_sim c s \<and> lfuSpec_ok s" and o: "fcOnEvict c"
    and g: "mSet lfu_cache now k v ttl c = (err, evs, c')"
    and k: "k' \<noteq> k" "lfu_live c k' = Some (v', e)" "lfu_live c' k' = None"
  from i obtain s where s: "lfu_sim c s" "lfuSpec_ok s" by blast
  from lfuImpl.set_sim [OF s(1) g] obtain s' where
    g': "lfuSpec_Set now k v ttl s = (err, evs, s')" and s': "lfu_sim c' s'" by (auto simp: lfuSpec_sel)
  from lfuSpec_reports [OF s(2) _ g' k(1)] k o lfu_sim_view(4,7) [OF s(1)] lfu_sim_view(4) [OF s']
  show "(k', v') \<in> set evs" by simp
qed (auto simp: lfu_cache_def lfu_SetEvictionCallback_def lfu_Purge_def lfu_onEvict)

lemma lfuSpec_run_bytes:
  assumes "lfuSpec_ok s" and "lfuSpec_bytes s"
  shows "lfuSpec_ok (foldl (cache_step lfuSpec_cache) s xs) \<and> lfuSpec_bytes (foldl (cache_step lfuSpec_cache) s xs)"
  by (rule cache_run_invariant [where P = "\<lambda>s. lfuSpec_ok s \<and> lfuSpec_bytes s"])
     (use assms in \<open>auto simp: lfuSpec_sel lfuSpec_ok_frame lfuSpec_bytes_frame lfuSpec_Purge_law
        dest: lfuSpec_Get_law lfuSpec_Peek_law lfuSpec_Set_law lfuSpec_Delete_law\<close>)

lemma lfuSpec_run_capacity: "fsCapacity (foldl (cache_step lfuSpec_cache) s xs) = fsCapacity s"
  by (rule cache_run_invariant [where P = "\<lambda>t. fsCapacity t = fsCapacity s"])
     (auto simp: lfuSpec_sel lfuSpec_Get_def lfuSpec_Peek_def lfuSpec_Delete_def lfuSpec_Set_def
        lfuSpec_evict_def lfuSpec_Purge_def Let_def split: option.splits if_splits prod.splits)

section \<open>The snapshot\<close>

lemma walk_buckets:
  assumes "\<forall>(f, fl) \<in> set m. list_ToSlice fl = Some (filter (\<lambda>n. fr n = f) ns)"
  shows "lfu_walk m = Some (concat (map (\<lambda>(f, fl). map (Pair f) (filter (\<lambda>n. fr n = f) ns)) m))"
proof -
  have "those (map (\<lambda>(freq, fl). map_option (map (\<lambda>n. (freq, n))) (list_ToSlice fl)) m) =
      Some (map (\<lambda>(f, fl). map (Pair f) (filter (\<lambda>n. fr n = f) ns)) m)"
    using assms by (induction m) auto
  then show ?thesis by (simp add: lfu_walk_def)
qed

lemma distinct_buckets:
  "distinct (map fst m) \<Longrightarrow> distinct ns \<Longrightarrow>
   distinct (map snd (concat (map (\<lambda>(f, fl). map (Pair f) (filter (\<lambda>n. fr n = f) ns)) m)))"
  by (induction m) (auto simp: comp_def, metis fst_conv image_eqI)

lemma lfu_walk_rep:
  assumes r: "lfu_rep c ns"
  shows "\<exists>fns. lfu_walk (fcFreqList c) = Some fns \<and> set fns = (\<lambda>n. (lfu_fr c n, n)) ` set ns \<and>
    distinct (map snd fns)"
proof -
  have b: "buckets (fcFreqList c) (lfu_pos c) (lfu_fr c) ns"
    using rep_parts(1) [OF r] by (simp add: lfu_lists_def)
  then have d: "distinct (map fst (fcFreqList c))" by (simp add: buckets_def)
  have at: "map_of (fcFreqList c) f = Some fl \<longleftrightarrow> (f, fl) \<in> set (fcFreqList c)" for f fl
    using d by simp
  let ?fns = "concat (map (\<lambda>(f, fl). map (Pair f) (filter (\<lambda>n. lfu_fr c n = f) ns)) (fcFreqList c))"
  have "list_ToSlice fl = Some (filter (\<lambda>n. lfu_fr c n = f) ns)" if "(f, fl) \<in> set (fcFreqList c)" for f fl
    using buckets_at [OF b, of f] at [of f fl] that by (auto intro: ToSlice_holds)
  then have w: "lfu_walk (fcFreqList c) = Some ?fns" by (intro walk_buckets) auto
  have "(lfu_fr c n, n) \<in> set ?fns" if n: "n \<in> set ns" for n
  proof -
    obtain fl where "map_of (fcFreqList c) (lfu_fr c n) = Some fl" using buckets_mem [OF b n] by blast
    with at have "(lfu_fr c n, fl) \<in> set (fcFreqList c)" by blast
    with n show ?thesis by (auto intro!: bexI [where x = "(lfu_fr c n, fl)"])
  qed
  then have "set ?fns = (\<lambda>n. (lfu_fr c n, n)) ` set ns" by auto
  with w distinct_buckets [OF d rep_parts(6) [OF r], of "lfu_fr c"] show ?thesis by simp
qed

lemma lfu_entries:
  "map (\<lambda>e. (enKey e, enValue e, enFreq e))
     (map (\<lambda>(pos, freq, n). lfu_entry now pos freq (h n)) (enumerate i fns)) =
   map (\<lambda>(freq, n). (fnKey (h n), fnValue (h n), freq)) fns"
  by (induction fns arbitrary: i) (auto simp: lfu_entry_def)

lemma sum_list_same_set:
  fixes f :: "'a \<Rightarrow> 'b::comm_monoid_add"
  shows "distinct xs \<Longrightarrow> distinct ys \<Longrightarrow> set xs = set ys \<Longrightarrow> sum_list (map f xs) = sum_list (map f ys)"
  by (simp add: sum_list_distinct_conv_sum_set)

text \<open>The snapshot has the items of the machine, in some order.\<close>

lemma lfu_Snapshot_sim:
  assumes "lfu_sim c s"
  shows "\<exists>sn. lfu_Snapshot now c = Some sn \<and> distinct (map enKey (srEntries sn)) \<and>
    length (srEntries sn) = length (fsItems s) \<and>
    (\<lambda>e. (enKey e, enValue e, enFreq e)) ` set (srEntries sn) =
      (\<lambda>e. (itKey e, itValue e, itFreq e)) ` set (fsItems s) \<and>
    (\<Sum>e\<leftarrow>srEntries sn. blen (enValue e)) = bytes_of (fsItems s)"
proof -
  obtain ns where r: "lfu_rep c ns" and s: "s = lfu_view c ns" using assms by (auto simp: lfu_sim_def)
  obtain fns where w: "lfu_walk (fcFreqList c) = Some fns" and st: "set fns = (\<lambda>n. (lfu_fr c n, n)) ` set ns"
    and d: "distinct (map snd fns)" using lfu_walk_rep [OF r] by blast
  define es where "es = map (\<lambda>(pos, freq, n). lfu_entry now pos freq (fcHeap c n)) (enumerate 0 fns)"
  note e = lfu_entries [of now "fcHeap c" 0 fns, folded es_def]
  let ?ms = "map snd fns"
  have ms: "set ?ms = set ns" using st by (simp add: image_image)
  have dn: "distinct ns" by (rule rep_parts(6) [OF r])
  have k: "map enKey es = map (\<lambda>n. fnKey (fcHeap c n)) ?ms"
    using arg_cong [OF e, of "map fst"] by (simp add: comp_def case_prod_beta)
  have v: "map (\<lambda>e. blen (enValue e)) es = map (\<lambda>n. blen (fnValue (fcHeap c n))) ?ms"
    using arg_cong [OF e, of "map (\<lambda>x. blen (fst (snd x)))"] by (simp add: comp_def case_prod_beta)
  have "inj_on (\<lambda>n. fnKey (fcHeap c n)) (set ns)"
    using index_inj [OF rep_parts(2) [OF r, unfolded lfu_index_def]] by (auto intro: inj_onI)
  then have "distinct (map enKey es)" using d ms unfolding k distinct_map [of "\<lambda>n. fnKey (fcHeap c n)"] by simp
  moreover have "length es = length (fsItems s)"
    using distinct_card [OF d] distinct_card [OF dn] ms by (simp add: es_def s)
  moreover have "(\<lambda>e. (enKey e, enValue e, enFreq e)) ` set es = (\<lambda>e. (itKey e, itValue e, itFreq e)) ` set (fsItems s)"
    using arg_cong [OF e, of set] st by (simp add: s image_image)
  moreover have "(\<Sum>e\<leftarrow>es. blen (enValue e)) = bytes_of (fsItems s)"
    unfolding v sum_list_same_set [OF d dn ms] by (simp add: s bytes_of_def comp_def)
  moreover have "lfu_Snapshot now c = Some \<lparr>srPolicy = ''lfu'', srEntries = es,
         srGhostEntries = [], srArcP = 0, srListSizes = [], srCapacity = fcCapacity c,
         srTruncated = False\<rparr>"
    by (simp add: lfu_Snapshot_def w es_def)
  ultimately show ?thesis by simp
qed

section \<open>Properties\<close>

abbreviation lfu_run :: "int \<Rightarrow> cacheOp list \<Rightarrow> LFUCache" where
  "lfu_run cap xs \<equiv> foldl (cache_step lfu_cache) (lfu_New cap) xs"

lemma lfu_run_ok:
  defines "s \<equiv> \<lambda>cap xs. foldl (cache_step lfuSpec_cache) (lfuSpec_New cap) xs"
  shows "lfu_sim (lfu_run cap xs) (s cap xs)" and "lfuSpec_ok (s cap xs)" and "lfuSpec_bytes (s cap xs)"
    and "fsCapacity (s cap xs) = (if cap \<le> 0 then 1 else cap)"
proof -
  show "lfu_sim (lfu_run cap xs) (s cap xs)" unfolding s_def by (rule lfuImpl.run_sim [OF lfu_sim_New])
  show "lfuSpec_ok (s cap xs)" "lfuSpec_bytes (s cap xs)"
    using lfuSpec_run_bytes [OF lfuSpec_New_ok, of cap xs] by (simp_all add: s_def)
  show "fsCapacity (s cap xs) = (if cap \<le> 0 then 1 else cap)"
    by (simp add: s_def lfuSpec_run_capacity lfuSpec_New_def)
qed

lemma lfu_run_results:
  "fst (lfu_Get now k (lfu_run cap xs)) =
     fst (lfuSpec_Get now k (foldl (cache_step lfuSpec_cache) (lfuSpec_New cap) xs))"
  "fst (snd (lfu_Set now k v ttl (lfu_run cap xs))) =
     fst (snd (lfuSpec_Set now k v ttl (foldl (cache_step lfuSpec_cache) (lfuSpec_New cap) xs)))"
  using lfu_Get_sim [OF lfu_run_ok(1), of now k cap xs] lfu_Set_sim [OF lfu_run_ok(1), of now k v ttl cap xs]
  by (metis fst_conv snd_conv surj_pair)+

text \<open>
  C2: the LFU cache with its O(1) frequency lists behaves exactly as the machine that keeps a
  recency list with frequencies and evicts the least recently used of the least frequent items:
  along any sequence of operations from \<open>New\<close>, every result, every eviction callback, every
  length and every counter agree.
\<close>

theorem lfu_trace_correct:
  "cache_trace lfu_cache (lfu_New cap) xs = cache_trace lfuSpec_cache (lfuSpec_New cap) xs"
  by (rule lfuImpl.trace_eq [OF lfu_sim_New])

text \<open>
  a hit of the LFU cache returns the value of the latest \<open>Set\<close> of that key, which no
  \<open>Delete\<close> or \<open>Purge\<close> has followed, and that value has not expired.
\<close>

theorem lfu_hit_is_latest:
  assumes "fst (lfu_Get now k (lfu_run cap xs)) = Some v"
  shows "\<exists>e. foldl latest_step Map.empty xs k = Some (v, e) \<and> \<not> expired now e"
proof -
  have "lfu_live (lfu_New cap) \<subseteq>\<^sub>m Map.empty"
    by (simp add: lfu_New_def lfu_live_def map_le_def dom_def)
  with lfu.get_latest [of "lfu_New cap" now k xs v] lfu_sim_New lfuSpec_New_ok assms
  show ?thesis by (auto simp: lfu_cache_def)
qed

lemma lfu_hit_is_latest_witness:
  "\<exists>e. foldl latest_step Map.empty [OpSet 0 ''a'' [7] 9, OpSet 1 ''b'' [8] 0, OpGet 2 ''a'', OpSet 3 ''c'' [9] 0]
      ''a'' = Some ([7], e) \<and> \<not> expired 5 e"
  by (rule lfu_hit_is_latest [of 5 "''a''" 2], unfold lfu_run_results) code_simp

text \<open>
  after any run the LFU cache holds at most its capacity, \<open>Snapshot\<close> ends and has one entry
  per key, and the counter \<open>BytesStored\<close> is the sum of the sizes of its values.
\<close>

theorem lfu_snapshot_consistent:
  "\<exists>sn. lfu_Snapshot now (lfu_run cap xs) = Some sn \<and>
     int (length (srEntries sn)) = lfu_Len (lfu_run cap xs) \<and>
     lfu_Len (lfu_run cap xs) \<le> (if cap \<le> 0 then 1 else cap) \<and>
     distinct (map enKey (srEntries sn)) \<and>
     BytesStored (fcSt (lfu_run cap xs)) = (\<Sum>e\<leftarrow>srEntries sn. blen (enValue e))"
proof -
  note s = lfu_run_ok [where cap = cap and xs = xs]
  from lfu_Snapshot_sim [OF s(1), of now] lfu_sim_view(1,6) [OF s(1)] s(2-4) show ?thesis
    by (auto simp: lfuSpec_ok_def lfuSpec_bytes_def)
qed

text \<open>
  what a \<open>Set\<close> of the LFU cache evicts has the least frequency of all entries, and it evicts
  at most one.
\<close>

theorem lfu_evicts_least:
  assumes "lfu_Snapshot t (lfu_run cap xs) = Some sn"
    and "(k', v') \<in> set (fst (snd (lfu_Set now k v ttl (lfu_run cap xs))))" and "e \<in> set (srEntries sn)"
  shows "length (fst (snd (lfu_Set now k v ttl (lfu_run cap xs)))) = 1 \<and>
    (\<exists>e'\<in>set (srEntries sn). enKey e' = k' \<and> enValue e' = v' \<and> enFreq e' \<le> enFreq e)"
proof -
  note s = lfu_run_ok [where cap = cap and xs = xs]
  let ?s = "foldl (cache_step lfuSpec_cache) (lfuSpec_New cap) xs"
  obtain err evs c' where e: "lfu_Set now k v ttl (lfu_run cap xs) = (err, evs, c')"
    by (cases "lfu_Set now k v ttl (lfu_run cap xs)")
  have kv: "(k', v') \<in> set evs" using assms(2) e by simp
  from lfu_Set_sim [OF s(1) e] obtain s' where g: "lfuSpec_Set now k v ttl ?s = (err, evs, s')" by blast
  obtain ds :: "fitem list" where ds: "set ds \<subseteq> set (fsItems ?s)" "length ds \<le> 1"
      "\<forall>d\<in>set ds. \<forall>e\<in>set (fsItems ?s). itFreq d \<le> itFreq e"
      "evs = (if fsOnEvict ?s then map (\<lambda>e. (itKey e, itValue e)) ds else [])"
    using lfuSpec_Set_law [OF s(2) g] by blast
  have ev: "evs = map (\<lambda>e. (itKey e, itValue e)) ds" using ds(4) kv by (auto split: if_splits)
  then obtain d where d: "d \<in> set ds" "k' = itKey d" "v' = itValue d" using kv by auto
  from lfu_Snapshot_sim [OF s(1), of t] assms(1)
  have im: "(\<lambda>e. (enKey e, enValue e, enFreq e)) ` set (srEntries sn) =
      (\<lambda>e. (itKey e, itValue e, itFreq e)) ` set (fsItems ?s)" by auto
  from imageI [OF assms(3), of "\<lambda>e. (enKey e, enValue e, enFreq e)"] obtain i where
    i: "i \<in> set (fsItems ?s)" "enFreq e = itFreq i" unfolding im by auto
  have "(itKey d, itValue d, itFreq d) \<in> (\<lambda>e. (enKey e, enValue e, enFreq e)) ` set (srEntries sn)"
    unfolding im using d(1) ds(1) by blast
  then obtain e' where "e' \<in> set (srEntries sn)" "enKey e' = itKey d" "enValue e' = itValue d" "enFreq e' = itFreq d"
    by auto
  with d i ds(3) have "\<exists>e'\<in>set (srEntries sn). enKey e' = k' \<and> enValue e' = v' \<and> enFreq e' \<le> enFreq e" by auto
  moreover have "length evs = 1" using ev d(1) ds(2) by (cases ds) auto
  ultimately show ?thesis using e by simp
qed

abbreviation lfu_demo :: LFUCache where
  "lfu_demo \<equiv> lfu_run 1 [OpCallback True, OpSet 0 ''a'' [7] 0]"

lemma lfu_evicts_least_witness:
  "\<exists>sn e. lfu_Snapshot 4 lfu_demo = Some sn \<and> e \<in> set (srEntries sn) \<and>
     length (fst (snd (lfu_Set 3 ''c'' [9] 0 lfu_demo))) = 1 \<and>
     (\<exists>e'\<in>set (srEntries sn). enKey e' = ''a'' \<and> enValue e' = [7] \<and> enFreq e' \<le> enFreq e)"
proof -
  let ?s = "foldl (cache_step lfuSpec_cache) (lfuSpec_New 1) [OpCallback True, OpSet 0 ''a'' [7] 0]"
  have "length (fsItems ?s) = 1" by code_simp
  then obtain sn e where sn: "lfu_Snapshot 4 lfu_demo = Some sn" and e: "e \<in> set (srEntries sn)"
    using lfu_Snapshot_sim [OF lfu_run_ok(1), of 4 1 "[OpCallback True, OpSet 0 ''a'' [7] 0]"]
    by (metis length_0_conv list.set_sel(1) one_neq_zero)
  have "(''a'', [7]) \<in> set (fst (snd (lfu_Set 3 ''c'' [9] 0 lfu_demo)))"
    unfolding lfu_run_results by code_simp
  from lfu_evicts_least [OF sn this e] sn e show ?thesis by blast
qed

end
