(* ===== verification/ARC.thy ===== *)
theory ARC
  imports Key_Index Linked_List
begin

text \<open>
  internal/cache/arc/arc.go: the adaptive replacement cache. Four linked lists (list.go) order
  the nodes: \<open>T1\<close> and \<open>T2\<close> hold the live entries used once and more than once, \<open>B1\<close> and \<open>B2\<close>
  the ghosts of what was evicted from them; one map indexes the nodes of all four, and \<open>p\<close> is
  the adaptive target size of \<open>T1\<close>. A node's field \<open>list\<close> is one of the four constants, here a
  datatype. Evicted values become \<open>nil\<close>, here \<open>[]\<close>; the test \<open>n.value != nil\<close> of \<open>replace\<close> is
  therefore \<open>anValue \<noteq> []\<close>, and copies of empty values are \<open>nil\<close> too. \<open>list_Back\<close> is \<open>nil\<close> only
  for an empty list, which the guards \<open>Len() > 0\<close> exclude (\<open>back_nonempty\<close>).

  The second half gives the abstract machine on four lists of items and the simulation.
\<close>

section \<open>The code\<close>

datatype arcList = T1 | T2 | B1 | B2

record arcNode =
  anKey :: key
  anValue :: bytes
  anList :: arcList
  anExpiresAt :: Time
  anCreatedAt :: instant
  anHitCount :: int64
  anListNode :: addr

record ARCCache =
  acCapacity :: int
  acP :: int
  acT1 :: "addr List"
  acT2 :: "addr List"
  acB1 :: "addr List"
  acB2 :: "addr List"
  acItemMap :: "(key, addr) gomap"
  acSt :: Stats
  acOnEvict :: bool
  acHeap :: "addr \<Rightarrow> arcNode"
  acFresh :: addr

definition arc_nilNode :: arcNode where
  "arc_nilNode = \<lparr>anKey = [], anValue = [], anList = T1, anExpiresAt = None, anCreatedAt = 0,
     anHitCount = 0, anListNode = 0\<rparr>"

definition arc_New :: "int \<Rightarrow> ARCCache" where
  "arc_New capacity =
     \<lparr>acCapacity = (if capacity \<le> 0 then 1 else capacity), acP = 0, acT1 = list_New,
      acT2 = list_New, acB1 = list_New, acB2 = list_New, acItemMap = [], acSt = newStats,
      acOnEvict = False, acHeap = (\<lambda>_. arc_nilNode), acFresh = 0\<rparr>"

definition arc_modNode :: "addr \<Rightarrow> (arcNode \<Rightarrow> arcNode) \<Rightarrow> ARCCache \<Rightarrow> ARCCache" where
  "arc_modNode n f c = c\<lparr>acHeap := (acHeap c)(n := f (acHeap c n))\<rparr>"

definition arc_modSt :: "(Stats \<Rightarrow> Stats) \<Rightarrow> ARCCache \<Rightarrow> ARCCache" where
  "arc_modSt f c = c\<lparr>acSt := f (acSt c)\<rparr>"

text \<open>The list of a name, and its replacement.\<close>

definition arc_lst :: "arcList \<Rightarrow> ARCCache \<Rightarrow> addr List" where
  "arc_lst t c = (case t of T1 \<Rightarrow> acT1 c | T2 \<Rightarrow> acT2 c | B1 \<Rightarrow> acB1 c | B2 \<Rightarrow> acB2 c)"

definition arc_setLst :: "arcList \<Rightarrow> addr List \<Rightarrow> ARCCache \<Rightarrow> ARCCache" where
  "arc_setLst t l c =
     (case t of T1 \<Rightarrow> c\<lparr>acT1 := l\<rparr> | T2 \<Rightarrow> c\<lparr>acT2 := l\<rparr> | B1 \<Rightarrow> c\<lparr>acB1 := l\<rparr> | B2 \<Rightarrow> c\<lparr>acB2 := l\<rparr>)"

abbreviation arc_len :: "arcList \<Rightarrow> ARCCache \<Rightarrow> int" where
  "arc_len t c \<equiv> list_Len (arc_lst t c)"

text \<open>\<open>c.<t>.Remove(m)\<close>\<close>

definition arc_rem :: "arcList \<Rightarrow> addr \<Rightarrow> ARCCache \<Rightarrow> ARCCache" where
  "arc_rem t m c = arc_setLst t (list_Remove m (arc_lst t c)) c"

text \<open>\<open>switch n.list { ... }\<close>: each case removes from the list of that name.\<close>

definition arc_removeFromList :: "addr \<Rightarrow> ARCCache \<Rightarrow> ARCCache" where
  "arc_removeFromList n c =
     (case anList (acHeap c n) of
        T1 \<Rightarrow> arc_rem T1 (anListNode (acHeap c n)) c
      | T2 \<Rightarrow> arc_rem T2 (anListNode (acHeap c n)) c
      | B1 \<Rightarrow> arc_rem B1 (anListNode (acHeap c n)) c
      | B2 \<Rightarrow> arc_rem B2 (anListNode (acHeap c n)) c)"

text \<open>\<open>n.list = t; n.listNode = c.<t>.PushFront(n)\<close>\<close>

definition arc_pushTo :: "arcList \<Rightarrow> addr \<Rightarrow> ARCCache \<Rightarrow> ARCCache" where
  "arc_pushTo t n c =
     (let (m, l) = list_PushFront n (arc_lst t c)
      in arc_modNode n (\<lambda>x. x\<lparr>anList := t, anListNode := m\<rparr>) (arc_setLst t l c))"

text \<open>One branch of \<open>replace\<close>: the last node of the list \<open>t\<close> becomes a ghost of the list \<open>g\<close>.\<close>

definition arc_demote :: "arcList \<Rightarrow> arcList \<Rightarrow> ARCCache \<Rightarrow> evictCall list \<times> ARCCache" where
  "arc_demote t g c =
     (case list_Back (arc_lst t c) of
        None \<Rightarrow> ([], c)
      | Some lru \<Rightarrow>
          (let c1 = arc_rem t lru c;
               n = node_Value (arc_lst t c1) lru;
               c2 = arc_modSt (\<lambda>s. s\<lparr>BytesStored := BytesStored s - blen (anValue (acHeap c1 n))\<rparr>) c1;
               evs = (if acOnEvict c2 \<and> anValue (acHeap c2 n) \<noteq> []
                      then [(anKey (acHeap c2 n), anValue (acHeap c2 n))] else []);
               c3 = arc_modNode n (\<lambda>x. x\<lparr>anValue := []\<rparr>) c2
           in (evs, arc_pushTo g n c3)))"

definition arc_replace :: "bool \<Rightarrow> ARCCache \<Rightarrow> evictCall list \<times> ARCCache" where
  "arc_replace preferT2 c =
     (let (evs, c1) =
        (if arc_len T1 c > 0 \<and> (arc_len T1 c > acP c \<or> (preferT2 \<and> arc_len T1 c = acP c))
         then arc_demote T1 B1 c
         else if arc_len T2 c > 0 then arc_demote T2 B2 c
         else ([], c))
      in (evs, arc_modSt (\<lambda>s. s\<lparr>Evictions := Evictions s + 1\<rparr>) c1))"

definition arc_Get :: "instant \<Rightarrow> key \<Rightarrow> ARCCache \<Rightarrow> bytes option \<times> ARCCache" where
  "arc_Get now key c =
     (case map_of (acItemMap c) key of
        None \<Rightarrow> (None, arc_modSt (\<lambda>s. s\<lparr>Misses := Misses s + 1\<rparr>) c)
      | Some n \<Rightarrow>
          if anList (acHeap c n) = B1 \<or> anList (acHeap c n) = B2 then
            (None, arc_modSt (\<lambda>s. s\<lparr>Misses := Misses s + 1\<rparr>) c)
          else if expired now (anExpiresAt (acHeap c n)) then
            let c1 = arc_modSt (\<lambda>s. s\<lparr>BytesStored := BytesStored s - blen (anValue (acHeap c n))\<rparr>) c;
                c2 = arc_removeFromList n c1;
                c3 = c2\<lparr>acItemMap := AList.delete key (acItemMap c2)\<rparr>;
                c4 = arc_modSt (\<lambda>s. s\<lparr>Misses := Misses s + 1\<rparr>) c3
            in (None, arc_modSt (\<lambda>s. s\<lparr>TTLExpiries := TTLExpiries s + 1\<rparr>) c4)
          else
            let c1 = arc_removeFromList n c;
                c2 = arc_pushTo T2 n c1;
                c3 = arc_modNode n (\<lambda>x. x\<lparr>anHitCount := anHitCount x + 1\<rparr>) c2;
                c4 = arc_modSt (\<lambda>s. s\<lparr>Hits := Hits s + 1\<rparr>) c3
            in (Some (anValue (acHeap c4 n)), c4))"

text \<open>Case 1 of \<open>Set\<close>: a live node is updated in place and moves to the front of \<open>T2\<close>.\<close>

definition arc_setLive :: "addr \<Rightarrow> bytes \<Rightarrow> Time \<Rightarrow> ARCCache \<Rightarrow> ARCCache" where
  "arc_setLive n value expAt c =
     (let c1 = arc_modSt (\<lambda>s. s\<lparr>BytesStored := BytesStored s +
                 (blen value - blen (anValue (acHeap c n)))\<rparr>) c;
          c2 = arc_modNode n (\<lambda>x. x\<lparr>anValue := value, anExpiresAt := expAt\<rparr>) c1;
          c3 = arc_removeFromList n c2;
          c4 = arc_pushTo T2 n c3
      in arc_modSt (\<lambda>s. s\<lparr>Sets := Sets s + 1\<rparr>) c4)"

text \<open>The common end of cases 2 and 3: a ghost of the list \<open>g\<close> becomes live in \<open>T2\<close>.\<close>

definition arc_revive :: "arcList \<Rightarrow> addr \<Rightarrow> bytes \<Rightarrow> Time \<Rightarrow> ARCCache \<Rightarrow> ARCCache" where
  "arc_revive g n value expAt c =
     (let c1 = arc_rem g (anListNode (acHeap c n)) c;
          c2 = arc_modSt (\<lambda>s. s\<lparr>BytesStored := BytesStored s + blen value\<rparr>) c1;
          c3 = arc_modNode n (\<lambda>x. x\<lparr>anValue := value, anExpiresAt := expAt\<rparr>) c2;
          c4 = arc_pushTo T2 n c3
      in arc_modSt (\<lambda>s. s\<lparr>Sets := Sets s + 1\<rparr>) c4)"

text \<open>The adaptation of \<open>p\<close> on a ghost hit in \<open>B1\<close> and in \<open>B2\<close>.\<close>

definition arc_growP :: "ARCCache \<Rightarrow> ARCCache" where
  "arc_growP c =
     (let delta = (if arc_len B1 c > 0 \<and> arc_len B2 c > arc_len B1 c
                   then arc_len B2 c div arc_len B1 c else 1)
      in c\<lparr>acP := min (acP c + delta) (acCapacity c)\<rparr>)"

definition arc_shrinkP :: "ARCCache \<Rightarrow> ARCCache" where
  "arc_shrinkP c =
     (let delta = (if arc_len B2 c > 0 \<and> arc_len B1 c > arc_len B2 c
                   then arc_len B1 c div arc_len B2 c else 1)
      in c\<lparr>acP := max (acP c - delta) 0\<rparr>)"

text \<open>The removal of the last ghost of a list, with its key.\<close>

definition arc_dropGhost :: "arcList \<Rightarrow> ARCCache \<Rightarrow> ARCCache" where
  "arc_dropGhost g c =
     (case list_Back (arc_lst g c) of
        None \<Rightarrow> c
      | Some m \<Rightarrow>
          (let c1 = arc_rem g m c;
               n = node_Value (arc_lst g c1) m
           in c1\<lparr>acItemMap := AList.delete (anKey (acHeap c1 n)) (acItemMap c1)\<rparr>))"

text \<open>The eviction of the last node of \<open>T1\<close>, which leaves no ghost.\<close>

definition arc_evictT1 :: "ARCCache \<Rightarrow> evictCall list \<times> ARCCache" where
  "arc_evictT1 c =
     (case list_Back (arc_lst T1 c) of
        None \<Rightarrow> ([], c)
      | Some m \<Rightarrow>
          (let c1 = arc_rem T1 m c;
               n = node_Value (arc_lst T1 c1) m;
               c2 = arc_modSt (\<lambda>s. s\<lparr>BytesStored := BytesStored s - blen (anValue (acHeap c1 n))\<rparr>) c1;
               evs = (if acOnEvict c2 then [(anKey (acHeap c2 n), anValue (acHeap c2 n))] else []);
               c3 = c2\<lparr>acItemMap := AList.delete (anKey (acHeap c2 n)) (acItemMap c2)\<rparr>
           in (evs, arc_modSt (\<lambda>s. s\<lparr>Evictions := Evictions s + 1\<rparr>) c3)))"

text \<open>The room that case 4 makes for a new key.\<close>

definition arc_makeRoom :: "ARCCache \<Rightarrow> evictCall list \<times> ARCCache" where
  "arc_makeRoom c =
     (let liveSize = arc_len T1 c + arc_len T2 c
      in if arc_len T1 c + arc_len B1 c = acCapacity c then
           (if arc_len T1 c < acCapacity c then arc_replace False (arc_dropGhost B1 c)
            else arc_evictT1 c)
         else if liveSize \<ge> acCapacity c then
           (let c1 = (if arc_len T1 c + arc_len T2 c + arc_len B1 c + arc_len B2 c \<ge> 2 * acCapacity c
                      then arc_dropGhost B2 c else c)
            in if arc_len T1 c1 + arc_len T2 c1 \<ge> acCapacity c1 then arc_replace False c1 else ([], c1))
         else ([], c))"

definition arc_insert :: "key \<Rightarrow> bytes \<Rightarrow> Time \<Rightarrow> instant \<Rightarrow> ARCCache \<Rightarrow> ARCCache" where
  "arc_insert key value expAt now c =
     (let n = acFresh c;
          c1 = c\<lparr>acFresh := n + 1, acHeap := (acHeap c)(n :=
                 \<lparr>anKey = key, anValue = value, anList = T1, anExpiresAt = expAt, anCreatedAt = now,
                  anHitCount = 0, anListNode = 0\<rparr>)\<rparr>;
          c2 = arc_pushTo T1 n c1;
          c3 = c2\<lparr>acItemMap := AList.update key n (acItemMap c2)\<rparr>;
          c4 = arc_modSt (\<lambda>s. s\<lparr>Sets := Sets s + 1\<rparr>) c3
      in arc_modSt (\<lambda>s. s\<lparr>BytesStored := BytesStored s + blen value\<rparr>) c4)"

definition arc_Set ::
  "instant \<Rightarrow> key \<Rightarrow> bytes \<Rightarrow> duration \<Rightarrow> ARCCache \<Rightarrow> error option \<times> evictCall list \<times> ARCCache" where
  "arc_Set now key value ttl c =
     (let expAt = expiryOf now ttl
      in case map_of (acItemMap c) key of
           Some n \<Rightarrow>
             if anList (acHeap c n) = T1 \<or> anList (acHeap c n) = T2 then
               (None, [], arc_setLive n value expAt c)
             else if anList (acHeap c n) = B1 then
               (let (evs, c1) = arc_replace False (arc_growP c)
                in (None, evs, arc_revive B1 n value expAt c1))
             else
               (let (evs, c1) = arc_replace True (arc_shrinkP c)
                in (None, evs, arc_revive B2 n value expAt c1))
         | None \<Rightarrow>
             (let (evs, c1) = arc_makeRoom c
              in (None, evs, arc_insert key value expAt now c1)))"

definition arc_Delete :: "key \<Rightarrow> ARCCache \<Rightarrow> bool \<times> ARCCache" where
  "arc_Delete key c =
     (case map_of (acItemMap c) key of
        None \<Rightarrow> (False, c)
      | Some n \<Rightarrow>
          (let c1 = (if anList (acHeap c n) = T1 \<or> anList (acHeap c n) = T2
                     then arc_modSt (\<lambda>s. s\<lparr>BytesStored := BytesStored s - blen (anValue (acHeap c n))\<rparr>) c
                     else c);
               c2 = arc_removeFromList n c1;
               c3 = c2\<lparr>acItemMap := AList.delete key (acItemMap c2)\<rparr>
           in (True, arc_modSt (\<lambda>s. s\<lparr>Deletes := Deletes s + 1\<rparr>) c3)))"

definition arc_Peek :: "instant \<Rightarrow> key \<Rightarrow> ARCCache \<Rightarrow> bytes option \<times> ARCCache" where
  "arc_Peek now key c =
     (case map_of (acItemMap c) key of
        None \<Rightarrow> (None, c)
      | Some n \<Rightarrow>
          if anList (acHeap c n) = B1 \<or> anList (acHeap c n) = B2 then (None, c)
          else if expired now (anExpiresAt (acHeap c n)) then
            let c1 = arc_modSt (\<lambda>s. s\<lparr>BytesStored := BytesStored s - blen (anValue (acHeap c n))\<rparr>) c;
                c2 = arc_removeFromList n c1;
                c3 = c2\<lparr>acItemMap := AList.delete key (acItemMap c2)\<rparr>
            in (None, arc_modSt (\<lambda>s. s\<lparr>TTLExpiries := TTLExpiries s + 1\<rparr>) c3)
          else (Some (anValue (acHeap c n)), c))"

definition arc_Keys :: "instant \<Rightarrow> ARCCache \<Rightarrow> key list option" where
  "arc_Keys now c =
     Some (map (\<lambda>(k, n). anKey (acHeap c n))
       (filter (\<lambda>(k, n). (anList (acHeap c n) = T1 \<or> anList (acHeap c n) = T2) \<and>
                         unexpired now (anExpiresAt (acHeap c n))) (acItemMap c)))"

definition arc_Len :: "ARCCache \<Rightarrow> int" where
  "arc_Len c = arc_len T1 c + arc_len T2 c"

definition arc_Capacity :: "ARCCache \<Rightarrow> int" where
  "arc_Capacity c = acCapacity c"

definition arc_listName :: "arcList \<Rightarrow> string" where
  "arc_listName t = (case t of T1 \<Rightarrow> ''T1'' | T2 \<Rightarrow> ''T2'' | B1 \<Rightarrow> ''B1'' | B2 \<Rightarrow> ''B2'')"

definition arc_entry :: "instant \<Rightarrow> arcList \<Rightarrow> nat \<Rightarrow> arcNode \<Rightarrow> Entry" where
  "arc_entry now t pos x =
     \<lparr>enKey = anKey x, enValue = anValue x, enExpiresAt = anExpiresAt x,
      enTTLMs = remainingMs now (anExpiresAt x), enFreq = 0, enCreatedAt = anCreatedAt x,
      enHitCount = anHitCount x, enSizeBytes = int (length (anValue x)),
      enList = arc_listName t, enPosition = int pos\<rparr>"

text \<open>\<open>appendList\<close>: the entries of one list; \<open>None\<close> when its walk would not end.\<close>

definition arc_entries :: "instant \<Rightarrow> arcList \<Rightarrow> ARCCache \<Rightarrow> Entry list option" where
  "arc_entries now t c =
     map_option (\<lambda>ns. map (\<lambda>(pos, n). arc_entry now t pos (acHeap c n)) (enumerate 0 ns))
       (list_ToSlice (arc_lst t c))"

definition arc_Snapshot :: "instant \<Rightarrow> ARCCache \<Rightarrow> SnapshotResult option" where
  "arc_Snapshot now c =
     (case (arc_entries now T1 c, arc_entries now T2 c, arc_entries now B1 c, arc_entries now B2 c) of
        (Some t1, Some t2, Some b1, Some b2) \<Rightarrow>
          Some \<lparr>srPolicy = ''arc'', srEntries = t1 @ t2, srGhostEntries = b1 @ b2, srArcP = acP c,
            srListSizes = map (\<lambda>t. (arc_listName t, arc_len t c)) [T1, T2, B1, B2],
            srCapacity = acCapacity c, srTruncated = False\<rparr>
      | _ \<Rightarrow> None)"

definition arc_Purge :: "ARCCache \<Rightarrow> ARCCache" where
  "arc_Purge c =
     arc_modSt stats_Reset (c\<lparr>acT1 := list_New, acT2 := list_New, acB1 := list_New, acB2 := list_New,
       acItemMap := [], acP := 0\<rparr>)"

definition arc_SetEvictionCallback :: "bool \<Rightarrow> ARCCache \<Rightarrow> ARCCache" where
  "arc_SetEvictionCallback fn c = c\<lparr>acOnEvict := fn\<rparr>"

definition arc_cache :: "ARCCache Cache" where
  "arc_cache = \<lparr>mGet = arc_Get, mSet = arc_Set, mDelete = arc_Delete, mPeek = arc_Peek,
     mKeys = arc_Keys, mLen = arc_Len, mCapacity = arc_Capacity, mStats = acSt, mUpdStats = arc_modSt,
     mSnapshot = arc_Snapshot, mPurge = arc_Purge, mSetEvictionCallback = arc_SetEvictionCallback\<rparr>"

section \<open>The machine on four lists\<close>

record arcSpec =
  asCapacity :: int
  asP :: int
  asL :: "arcList \<Rightarrow> item list"
  asSt :: Stats
  asOnEvict :: bool

definition arcSpec_New :: "int \<Rightarrow> arcSpec" where
  "arcSpec_New cap = \<lparr>asCapacity = (if cap \<le> 0 then 1 else cap), asP = 0, asL = (\<lambda>_. []),
     asSt = newStats, asOnEvict = False\<rparr>"

abbreviation arcSpec_len :: "arcList \<Rightarrow> arcSpec \<Rightarrow> int" where
  "arcSpec_len t s \<equiv> int (length (asL s t))"

text \<open>The list that has a key, with its item.\<close>

definition locate :: "key \<Rightarrow> (arcList \<Rightarrow> item list) \<Rightarrow> (arcList \<times> item) option" where
  "locate k L =
     (case find_item k (L T1) of Some e \<Rightarrow> Some (T1, e) | None \<Rightarrow>
        (case find_item k (L T2) of Some e \<Rightarrow> Some (T2, e) | None \<Rightarrow>
           (case find_item k (L B1) of Some e \<Rightarrow> Some (B1, e) | None \<Rightarrow>
              map_option (\<lambda>e. (B2, e)) (find_item k (L B2)))))"

definition arcSpec_drop :: "arcList \<Rightarrow> key \<Rightarrow> arcSpec \<Rightarrow> arcSpec" where
  "arcSpec_drop t k s = s\<lparr>asL := (asL s)(t := drop_item k (asL s t))\<rparr>"

definition arcSpec_push :: "arcList \<Rightarrow> item \<Rightarrow> arcSpec \<Rightarrow> arcSpec" where
  "arcSpec_push t e s = s\<lparr>asL := (asL s)(t := e # asL s t)\<rparr>"

definition arcSpec_modSt :: "(Stats \<Rightarrow> Stats) \<Rightarrow> arcSpec \<Rightarrow> arcSpec" where
  "arcSpec_modSt f s = s\<lparr>asSt := f (asSt s)\<rparr>"

definition arcSpec_demote :: "arcList \<Rightarrow> arcList \<Rightarrow> arcSpec \<Rightarrow> evictCall list \<times> arcSpec" where
  "arcSpec_demote t g s =
     (if asL s t = [] then ([], s)
      else let e = last (asL s t)
           in (if asOnEvict s \<and> itValue e \<noteq> [] then [(itKey e, itValue e)] else [],
               arcSpec_push g (e\<lparr>itValue := []\<rparr>)
                 (arcSpec_drop t (itKey e)
                   (arcSpec_modSt (\<lambda>x. x\<lparr>BytesStored := BytesStored x - blen (itValue e)\<rparr>) s))))"

definition arcSpec_replace :: "bool \<Rightarrow> arcSpec \<Rightarrow> evictCall list \<times> arcSpec" where
  "arcSpec_replace preferT2 s =
     (let (evs, s1) =
        (if arcSpec_len T1 s > 0 \<and> (arcSpec_len T1 s > asP s \<or> (preferT2 \<and> arcSpec_len T1 s = asP s))
         then arcSpec_demote T1 B1 s
         else if arcSpec_len T2 s > 0 then arcSpec_demote T2 B2 s
         else ([], s))
      in (evs, arcSpec_modSt (\<lambda>x. x\<lparr>Evictions := Evictions x + 1\<rparr>) s1))"

definition arcSpec_Get :: "instant \<Rightarrow> key \<Rightarrow> arcSpec \<Rightarrow> bytes option \<times> arcSpec" where
  "arcSpec_Get now k s =
     (let miss = arcSpec_modSt (\<lambda>x. x\<lparr>Misses := Misses x + 1\<rparr>)
      in case locate k (asL s) of
           None \<Rightarrow> (None, miss s)
         | Some (t, e) \<Rightarrow>
             if t = B1 \<or> t = B2 then (None, miss s)
             else if expired now (itExpires e) then 
               (None, arcSpec_drop t k
                  (arcSpec_modSt (\<lambda>x. x\<lparr>BytesStored := BytesStored x - blen (itValue e),
                     Misses := Misses x + 1, TTLExpiries := TTLExpiries x + 1\<rparr>) s))
             else (Some (itValue e),
                   arcSpec_push T2 (e\<lparr>itHits := itHits e + 1\<rparr>)
                     (arcSpec_drop t k (arcSpec_modSt (\<lambda>x. x\<lparr>Hits := Hits x + 1\<rparr>) s))))"

definition arcSpec_Peek :: "instant \<Rightarrow> key \<Rightarrow> arcSpec \<Rightarrow> bytes option \<times> arcSpec" where
  "arcSpec_Peek now k s =
     (case locate k (asL s) of
        None \<Rightarrow> (None, s)
      | Some (t, e) \<Rightarrow>
          if t = B1 \<or> t = B2 then (None, s)
          else if expired now (itExpires e) then 
            (None, arcSpec_drop t k
               (arcSpec_modSt (\<lambda>x. x\<lparr>BytesStored := BytesStored x - blen (itValue e),
                  TTLExpiries := TTLExpiries x + 1\<rparr>) s))
          else (Some (itValue e), s))"

definition arcSpec_Delete :: "key \<Rightarrow> arcSpec \<Rightarrow> bool \<times> arcSpec" where
  "arcSpec_Delete k s =
     (case locate k (asL s) of
        None \<Rightarrow> (False, s)
      | Some (t, e) \<Rightarrow>
          (True, arcSpec_drop t k
             (arcSpec_modSt (\<lambda>x. x\<lparr>BytesStored := BytesStored x -
                  (if t = T1 \<or> t = T2 then blen (itValue e) else 0), Deletes := Deletes x + 1\<rparr>) s)))"

text \<open>Storing the value of \<open>Set\<close> under a key that the cache knows, live or ghost.\<close>

definition arcSpec_store :: "arcList \<Rightarrow> item \<Rightarrow> bytes \<Rightarrow> Time \<Rightarrow> arcSpec \<Rightarrow> arcSpec" where
  "arcSpec_store t e v x s =
     arcSpec_push T2 (e\<lparr>itValue := v, itExpires := x\<rparr>)
       (arcSpec_drop t (itKey e)
         (arcSpec_modSt (\<lambda>y. y\<lparr>BytesStored := BytesStored y +
             (blen v - (if t = T1 \<or> t = T2 then blen (itValue e) else 0)), Sets := Sets y + 1\<rparr>) s))"

definition arcSpec_growP :: "arcSpec \<Rightarrow> arcSpec" where
  "arcSpec_growP s =
     s\<lparr>asP := min (asP s + (if arcSpec_len B1 s > 0 \<and> arcSpec_len B2 s > arcSpec_len B1 s
                            then arcSpec_len B2 s div arcSpec_len B1 s else 1)) (asCapacity s)\<rparr>"

definition arcSpec_shrinkP :: "arcSpec \<Rightarrow> arcSpec" where
  "arcSpec_shrinkP s =
     s\<lparr>asP := max (asP s - (if arcSpec_len B2 s > 0 \<and> arcSpec_len B1 s > arcSpec_len B2 s
                            then arcSpec_len B1 s div arcSpec_len B2 s else 1)) 0\<rparr>"

definition arcSpec_dropGhost :: "arcList \<Rightarrow> arcSpec \<Rightarrow> arcSpec" where
  "arcSpec_dropGhost g s = (if asL s g = [] then s else arcSpec_drop g (itKey (last (asL s g))) s)"

definition arcSpec_evictT1 :: "arcSpec \<Rightarrow> evictCall list \<times> arcSpec" where
  "arcSpec_evictT1 s =
     (if asL s T1 = [] then ([], s)
      else let e = last (asL s T1)
           in (if asOnEvict s then [(itKey e, itValue e)] else [],
               arcSpec_drop T1 (itKey e)
                 (arcSpec_modSt (\<lambda>x. x\<lparr>BytesStored := BytesStored x - blen (itValue e),
                    Evictions := Evictions x + 1\<rparr>) s)))"

definition arcSpec_makeRoom :: "arcSpec \<Rightarrow> evictCall list \<times> arcSpec" where
  "arcSpec_makeRoom s =
     (if arcSpec_len T1 s + arcSpec_len B1 s = asCapacity s then
        (if arcSpec_len T1 s < asCapacity s then arcSpec_replace False (arcSpec_dropGhost B1 s)
         else arcSpec_evictT1 s)
      else if arcSpec_len T1 s + arcSpec_len T2 s \<ge> asCapacity s then
        (let s1 = (if arcSpec_len T1 s + arcSpec_len T2 s + arcSpec_len B1 s + arcSpec_len B2 s
                      \<ge> 2 * asCapacity s then arcSpec_dropGhost B2 s else s)
         in if arcSpec_len T1 s1 + arcSpec_len T2 s1 \<ge> asCapacity s1 then arcSpec_replace False s1
            else ([], s1))
      else ([], s))"

definition arcSpec_Set ::
  "instant \<Rightarrow> key \<Rightarrow> bytes \<Rightarrow> duration \<Rightarrow> arcSpec \<Rightarrow> error option \<times> evictCall list \<times> arcSpec" where
  "arcSpec_Set now k v ttl s =
     (case locate k (asL s) of
        Some (t, e) \<Rightarrow>
          (let (evs, s1) = (if t = B1 then arcSpec_replace False (arcSpec_growP s)
                            else if t = B2 then arcSpec_replace True (arcSpec_shrinkP s)
                            else ([], s))
           in (None, evs, arcSpec_store t e v (expiryOf now ttl) s1))
      | None \<Rightarrow>
          (let (evs, s1) = arcSpec_makeRoom s
           in (None, evs, arcSpec_push T1 \<lparr>itKey = k, itValue = v, itExpires = expiryOf now ttl,
                 itCreated = now, itHits = 0\<rparr>
                (arcSpec_modSt (\<lambda>x. x\<lparr>Sets := Sets x + 1, BytesStored := BytesStored x + blen v\<rparr>) s1))))"

definition arcSpec_Purge :: "arcSpec \<Rightarrow> arcSpec" where
  "arcSpec_Purge s = s\<lparr>asL := (\<lambda>_. []), asP := 0, asSt := newStats\<rparr>"

section \<open>The simulation relation\<close>

definition arc_item :: "arcNode \<Rightarrow> item" where
  "arc_item x = \<lparr>itKey = anKey x, itValue = anValue x, itExpires = anExpiresAt x,
     itCreated = anCreatedAt x, itHits = anHitCount x\<rparr>"

abbreviation arc_pos :: "ARCCache \<Rightarrow> addr \<Rightarrow> addr" where
  "arc_pos c \<equiv> \<lambda>n. anListNode (acHeap c n)"

definition arc_lists :: "ARCCache \<Rightarrow> (arcList \<Rightarrow> addr list) \<Rightarrow> bool" where
  "arc_lists c ls \<longleftrightarrow>
     (\<forall>t. dl.holds (arc_pos c) (arc_lst t c) (ls t) \<and>
        (\<forall>n\<in>set (ls t). anList (acHeap c n) = t \<and> n < acFresh c))"

definition arc_nodes :: "(arcList \<Rightarrow> addr list) \<Rightarrow> addr set" where
  "arc_nodes ls = (\<Union>t. set (ls t))"

definition arc_index :: "ARCCache \<Rightarrow> addr set \<Rightarrow> bool" where
  "arc_index c N \<longleftrightarrow> distinct (map fst (acItemMap c)) \<and>
     set (acItemMap c) = (\<lambda>n. (anKey (acHeap c n), n)) ` N"

definition arc_view :: "ARCCache \<Rightarrow> (arcList \<Rightarrow> addr list) \<Rightarrow> arcSpec" where
  "arc_view c ls = \<lparr>asCapacity = acCapacity c, asP = acP c,
     asL = (\<lambda>t. map (\<lambda>n. arc_item (acHeap c n)) (ls t)), asSt = acSt c, asOnEvict = acOnEvict c\<rparr>"

definition arc_sim :: "ARCCache \<Rightarrow> arcSpec \<Rightarrow> bool" where
  "arc_sim c s \<longleftrightarrow> (\<exists>ls. arc_lists c ls \<and> arc_index c (arc_nodes ls) \<and> s = arc_view c ls)"

lemma arc_simI: "arc_lists c ls \<Longrightarrow> arc_index c (arc_nodes ls) \<Longrightarrow> s = arc_view c ls \<Longrightarrow> arc_sim c s"
  by (auto simp: arc_sim_def)

lemma arc_item_sel [simp]:
  "itKey (arc_item x) = anKey x" "itValue (arc_item x) = anValue x"
  "itExpires (arc_item x) = anExpiresAt x" "itCreated (arc_item x) = anCreatedAt x"
  "itHits (arc_item x) = anHitCount x"
  by (simp_all add: arc_item_def)

lemma arc_item_upd [simp]:
  "arc_item (x\<lparr>anHitCount := h\<rparr>) = (arc_item x)\<lparr>itHits := h\<rparr>"
  "arc_item (x\<lparr>anValue := v\<rparr>) = (arc_item x)\<lparr>itValue := v\<rparr>"
  "arc_item (x\<lparr>anValue := v, anExpiresAt := e\<rparr>) = (arc_item x)\<lparr>itValue := v, itExpires := e\<rparr>"
  "arc_item (x\<lparr>anList := t, anListNode := m\<rparr>) = arc_item x"
  by (simp_all add: arc_item_def)

lemma arc_view_sel [simp]:
  "asCapacity (arc_view c ls) = acCapacity c" "asP (arc_view c ls) = acP c"
  "asL (arc_view c ls) t = map (\<lambda>n. arc_item (acHeap c n)) (ls t)"
  "asSt (arc_view c ls) = acSt c" "asOnEvict (arc_view c ls) = acOnEvict c"
  by (simp_all add: arc_view_def)

lemma UN_arcList: "(\<Union>t::arcList. f t) = f T1 \<union> f T2 \<union> f B1 \<union> f B2"
proof -
  have u: "UNIV = {T1, T2, B1, B2}" using arcList.exhaust by auto
  show ?thesis unfolding u by auto
qed

lemma arc_lst_set [simp]: "arc_lst t (arc_setLst t' l c) = (if t = t' then l else arc_lst t c)"
  by (simp add: arc_lst_def arc_setLst_def split: arcList.splits)

lemma arc_setLst_frame [simp]:
  "acCapacity (arc_setLst t l c) = acCapacity c" "acP (arc_setLst t l c) = acP c"
  "acItemMap (arc_setLst t l c) = acItemMap c" "acSt (arc_setLst t l c) = acSt c"
  "acOnEvict (arc_setLst t l c) = acOnEvict c" "acHeap (arc_setLst t l c) = acHeap c"
  "acFresh (arc_setLst t l c) = acFresh c"
  by (simp_all add: arc_setLst_def split: arcList.splits)

lemma arc_modNode_frame [simp]:
  "acCapacity (arc_modNode n f c) = acCapacity c" "acP (arc_modNode n f c) = acP c"
  "acItemMap (arc_modNode n f c) = acItemMap c" "acSt (arc_modNode n f c) = acSt c"
  "acOnEvict (arc_modNode n f c) = acOnEvict c" "arc_lst t (arc_modNode n f c) = arc_lst t c"
  "acFresh (arc_modNode n f c) = acFresh c"
  "acHeap (arc_modNode n f c) = (acHeap c)(n := f (acHeap c n))"
  by (simp_all add: arc_modNode_def arc_lst_def split: arcList.splits)

lemma arc_modSt_frame [simp]:
  "acCapacity (arc_modSt f c) = acCapacity c" "acP (arc_modSt f c) = acP c"
  "acItemMap (arc_modSt f c) = acItemMap c" "acSt (arc_modSt f c) = f (acSt c)"
  "acOnEvict (arc_modSt f c) = acOnEvict c" "arc_lst t (arc_modSt f c) = arc_lst t c"
  "acFresh (arc_modSt f c) = acFresh c" "acHeap (arc_modSt f c) = acHeap c"
  by (simp_all add: arc_modSt_def arc_lst_def split: arcList.splits)

lemma arc_lst_frame [simp]:
  "arc_lst t (c\<lparr>acItemMap := m\<rparr>) = arc_lst t c" "arc_lst t (c\<lparr>acP := p\<rparr>) = arc_lst t c"
  "arc_lst t (c\<lparr>acFresh := f, acHeap := h\<rparr>) = arc_lst t c"
  "arc_lst t (c\<lparr>acOnEvict := b\<rparr>) = arc_lst t c"
  by (simp_all add: arc_lst_def split: arcList.splits)

lemma arc_removeFromList_eq:
  "arc_removeFromList n c = arc_rem (anList (acHeap c n)) (anListNode (acHeap c n)) c"
  by (simp add: arc_removeFromList_def split: arcList.splits)

lemma arc_rem_frame [simp]:
  "acCapacity (arc_rem t m c) = acCapacity c" "acP (arc_rem t m c) = acP c"
  "acItemMap (arc_rem t m c) = acItemMap c" "acSt (arc_rem t m c) = acSt c"
  "acOnEvict (arc_rem t m c) = acOnEvict c" "acHeap (arc_rem t m c) = acHeap c"
  "acFresh (arc_rem t m c) = acFresh c"
  by (simp_all add: arc_rem_def)

lemma arc_pushTo_frame [simp]:
  "acCapacity (arc_pushTo t n c) = acCapacity c" "acP (arc_pushTo t n c) = acP c"
  "acItemMap (arc_pushTo t n c) = acItemMap c" "acSt (arc_pushTo t n c) = acSt c"
  "acOnEvict (arc_pushTo t n c) = acOnEvict c" "acFresh (arc_pushTo t n c) = acFresh c"
  "arc_item (acHeap (arc_pushTo t n c) x) = arc_item (acHeap c x)"
  "anKey (acHeap (arc_pushTo t n c) x) = anKey (acHeap c x)"
  "anValue (acHeap (arc_pushTo t n c) x) = anValue (acHeap c x)"
  by (simp_all add: arc_pushTo_def split: prod.splits)

section \<open>The list operations\<close>

lemma arc_lists_D:
  assumes "arc_lists c ls"
  shows "dl.holds (arc_pos c) (arc_lst t c) (ls t)" and "distinct (ls t)"
    and "n \<in> set (ls t) \<Longrightarrow> anList (acHeap c n) = t \<and> n < acFresh c"
proof -
  show h: "dl.holds (arc_pos c) (arc_lst t c) (ls t)" using assms by (simp add: arc_lists_def)
  show "distinct (ls t)" using h by (rule dl.holds_distinct)
  show "n \<in> set (ls t) \<Longrightarrow> anList (acHeap c n) = t \<and> n < acFresh c"
    using assms by (simp add: arc_lists_def)
qed

lemma arc_len_view:
  assumes "arc_lists c ls"
  shows "arc_len t c = arcSpec_len t (arc_view c ls)"
  using dl.holds_len [OF arc_lists_D(1) [OF assms]] by simp

lemma back_nonempty: "arc_lists c ls \<Longrightarrow>
    list_Back (arc_lst t c) = (if ls t = [] then None else Some (arc_pos c (last (ls t))))"
  using dl.holds_back [OF arc_lists_D(1)] by blast

lemma arc_lists_cong:
  assumes l: "arc_lists c ls" and c': "\<And>t. arc_lst t c' = arc_lst t c" "acFresh c \<le> acFresh c'"
    "\<And>n. n \<in> arc_nodes ls \<Longrightarrow> arc_pos c' n = arc_pos c n"
    "\<And>n. n \<in> arc_nodes ls \<Longrightarrow> anList (acHeap c' n) = anList (acHeap c n)"
  shows "arc_lists c' ls"
  unfolding arc_lists_def
proof (intro allI conjI ballI)
  fix t
  show "dl.holds (arc_pos c') (arc_lst t c') (ls t)"
    unfolding c'(1) using arc_lists_D(1) [OF l] c'(3) by (rule dl.holds_cong) (auto simp: arc_nodes_def)
  fix n assume n: "n \<in> set (ls t)"
  then have "n \<in> arc_nodes ls" by (auto simp: arc_nodes_def)
  with arc_lists_D(3) [OF l n] c'(2,4) show "anList (acHeap c' n) = t" "n < acFresh c'" by auto
qed

text \<open>A node is in the list that its field \<open>list\<close> names, and in no other.\<close>

lemma node_list_mem: "arc_lists c ls \<Longrightarrow> n \<in> arc_nodes ls \<Longrightarrow> n \<in> set (ls (anList (acHeap c n)))"
  using arc_lists_D(3) by (fastforce simp: arc_nodes_def)

lemma other_list: "arc_lists c ls \<Longrightarrow> n \<in> set (ls t) \<Longrightarrow> n \<in> set (ls t') \<Longrightarrow> t = t'"
  using arc_lists_D(3) by blast

lemma nodes_remove:
  assumes "arc_lists c ls" and "n \<in> set (ls t)"
  shows "arc_nodes (ls(t := filter (\<lambda>x. x \<noteq> n) (ls t))) = arc_nodes ls - {n}"
  using other_list [OF assms] by (auto simp: arc_nodes_def split: if_splits)

lemma nodes_push: "arc_nodes (ls(t := n # ls t)) = insert n (arc_nodes ls)"
  by (auto simp: arc_nodes_def split: if_splits)

lemma lists_rem:
  assumes l: "arc_lists c ls" and n: "n \<in> set (ls t)"
  shows "arc_lists (arc_rem t (arc_pos c n) c) (ls(t := filter (\<lambda>x. x \<noteq> n) (ls t)))"
  using l dl.holds_remove [OF arc_lists_D(1) [OF l] n] by (auto simp: arc_lists_def arc_rem_def)

lemma arc_lists_push:
  assumes l: "arc_lists c ls" and n: "n \<notin> arc_nodes ls" "n < acFresh c"
  shows "arc_lists (arc_pushTo t n c) (ls(t := n # ls t))"
proof -
  obtain m l' where p: "list_PushFront n (arc_lst t c) = (m, l')" by fastforce
  let ?c = "arc_pushTo t n c"
  have c: "?c = arc_modNode n (\<lambda>x. x\<lparr>anList := t, anListNode := m\<rparr>) (arc_setLst t l' c)"
    by (simp add: arc_pushTo_def p)
  have nt: "n \<notin> set (ls t')" for t' using n by (auto simp: arc_nodes_def)
  have "dl.holds (arc_pos ?c) l' (n # ls t)"
    using nt by (intro dl.holds_push [OF arc_lists_D(1) [OF l] _ p]) (auto simp: c)
  moreover have "dl.holds (arc_pos ?c) (arc_lst t' c) (ls t')" if "t' \<noteq> t" for t'
    using nt by (intro dl.holds_cong [OF arc_lists_D(1) [OF l]]) (auto simp: c)
  ultimately show ?thesis
    using l n nt by (auto simp: arc_lists_def c)
qed

lemma lists_data:
  assumes "arc_lists c ls" and "\<And>x. anList (f x) = anList x" "\<And>x. anListNode (f x) = anListNode x"
  shows "arc_lists (arc_modNode n f c) ls"
  using assms by (intro arc_lists_cong [OF assms(1)]) auto

section \<open>The map\<close>

lemma arc_lookup: "arc_index c N \<Longrightarrow> map_of (acItemMap c) k = Some n \<longleftrightarrow> n \<in> N \<and> anKey (acHeap c n) = k"
  by (subst map_of_eq_Some_iff) (auto simp: arc_index_def)

lemma arc_inj: "arc_index c N \<Longrightarrow> n \<in> N \<Longrightarrow> n' \<in> N \<Longrightarrow> anKey (acHeap c n) = anKey (acHeap c n') \<Longrightarrow> n = n'"
  using arc_lookup [of c N "anKey (acHeap c n)" n] arc_lookup [of c N "anKey (acHeap c n)" n'] by simp

lemma index_same: "arc_index c N \<Longrightarrow> acItemMap c' = acItemMap c \<Longrightarrow>
    (\<And>n. anKey (acHeap c' n) = anKey (acHeap c n)) \<Longrightarrow> arc_index c' N"
  by (simp add: arc_index_def)

lemma index_del:
  assumes i: "arc_index c N" and n: "n \<in> N"
    and c': "acItemMap c' = AList.delete (anKey (acHeap c n)) (acItemMap c)" "acHeap c' = acHeap c"
  shows "arc_index c' (N - {n})"
proof -
  have "{x \<in> N. anKey (acHeap c x) \<noteq> anKey (acHeap c n)} = N - {n}" using arc_inj [OF i] n by auto
  then have "set (AList.delete (anKey (acHeap c n)) (acItemMap c)) = (\<lambda>n. (anKey (acHeap c n), n)) ` (N - {n})"
    using i by (auto simp: set_delete arc_index_def)
  with i c' show ?thesis by (simp add: arc_index_def)
qed

lemma index_add:
  assumes i: "arc_index c N" and k: "map_of (acItemMap c) k = None" and n: "n \<notin> N"
    and c': "acItemMap c' = AList.update k n (acItemMap c)" "anKey (acHeap c' n) = k"
    "\<And>x. x \<in> N \<Longrightarrow> anKey (acHeap c' x) = anKey (acHeap c x)"
  shows "arc_index c' (insert n N)"
proof -
  have "k \<notin> fst ` set (acItemMap c)" using k by (simp add: map_of_eq_None_iff)
  moreover have "(\<lambda>x. (anKey (acHeap c' x), x)) ` N = (\<lambda>x. (anKey (acHeap c x), x)) ` N"
    using c' by (intro image_cong) auto
  ultimately show ?thesis using i c' by (auto simp: arc_index_def update_new [OF k])
qed

definition arc_rep :: "ARCCache \<Rightarrow> (arcList \<Rightarrow> addr list) \<Rightarrow> bool" where
  "arc_rep c ls \<longleftrightarrow> arc_lists c ls \<and> arc_index c (arc_nodes ls)"

lemma drop_view:
  assumes i: "arc_index c (arc_nodes ls)" and n: "n \<in> arc_nodes ls"
  shows "drop_item (anKey (acHeap c n)) (map (\<lambda>n. arc_item (acHeap c n)) (ls t)) =
    map (\<lambda>n. arc_item (acHeap c n)) (filter (\<lambda>x. x \<noteq> n) (ls t))"
proof -
  have "filter (\<lambda>x. anKey (acHeap c x) \<noteq> anKey (acHeap c n)) (ls t) = filter (\<lambda>x. x \<noteq> n) (ls t)"
    using arc_inj [OF i _ n] by (intro filter_cong) (auto simp: arc_nodes_def)
  then show ?thesis by (simp add: drop_item_def filter_map comp_def)
qed

lemma find_view:
  assumes r: "arc_rep c ls"
  shows "find_item k (map (\<lambda>n. arc_item (acHeap c n)) (ls t)) =
    (case map_of (acItemMap c) k of None \<Rightarrow> None
     | Some n \<Rightarrow> if anList (acHeap c n) = t then Some (arc_item (acHeap c n)) else None)"
proof -
  have l: "arc_lists c ls" and i: "arc_index c (arc_nodes ls)" using r by (auto simp: arc_rep_def)
  have "distinct (keys_of (map (\<lambda>n. arc_item (acHeap c n)) (ls t)))"
    using arc_inj [OF i] arc_lists_D(2) [OF l, of t]
    by (auto simp: keys_of_def distinct_map comp_def inj_on_def arc_nodes_def)
  from find_item_mem [OF this] have f: "n \<in> set (ls t) \<Longrightarrow> anKey (acHeap c n) = k \<Longrightarrow>
      find_item k (map (\<lambda>n. arc_item (acHeap c n)) (ls t)) = Some (arc_item (acHeap c n))" for n
    by fastforce
  show ?thesis
  proof (cases "find_item k (map (\<lambda>n. arc_item (acHeap c n)) (ls t))")
    case None
    then have "\<forall>n\<in>set (ls t). anKey (acHeap c n) \<noteq> k" by (auto simp: find_item_None keys_of_def)
    with None show ?thesis
      using arc_lookup [OF i] node_list_mem [OF l] by (auto split: option.splits)
  next
    case (Some e)
    then obtain n where n: "n \<in> set (ls t)" "anKey (acHeap c n) = k" using find_item_Some by fastforce
    then have "map_of (acItemMap c) k = Some n" using arc_lookup [OF i] by (auto simp: arc_nodes_def)
    with f [OF n] arc_lists_D(3) [OF l n(1)] show ?thesis by simp
  qed
qed

lemma locate_view:
  assumes r: "arc_rep c ls"
  shows "locate k (asL (arc_view c ls)) =
    map_option (\<lambda>n. (anList (acHeap c n), arc_item (acHeap c n))) (map_of (acItemMap c) k)"
proof (cases "map_of (acItemMap c) k")
  case None
  then show ?thesis by (simp add: locate_def find_view [OF r])
next
  case (Some n)
  then show ?thesis by (cases "anList (acHeap c n)") (simp_all add: locate_def find_view [OF r])
qed

section \<open>The steps of the operations\<close>

lemma rep_D: "arc_rep c ls \<Longrightarrow> arc_lists c ls" "arc_rep c ls \<Longrightarrow> arc_index c (arc_nodes ls)"
  by (auto simp: arc_rep_def)

lemma mem_nodes: "n \<in> set (ls t) \<Longrightarrow> n \<in> arc_nodes ls"
  by (auto simp: arc_nodes_def)

lemma arc_view_modSt [simp]: "arc_view (arc_modSt f c) ls = arcSpec_modSt f (arc_view c ls)"
  by (simp add: arc_view_def arcSpec_modSt_def)

lemma arc_rep_modSt [simp]: "arc_rep (arc_modSt f c) ls = arc_rep c ls"
  by (simp add: arc_rep_def arc_lists_def arc_index_def)

lemma parts_modSt [simp]:
  "arc_lists (arc_modSt f c) ls = arc_lists c ls" "arc_index (arc_modSt f c) N = arc_index c N"
  by (simp_all add: arc_lists_def arc_index_def)

lemma arcSpec_modSt_sel [simp]:
  "asCapacity (arcSpec_modSt f s) = asCapacity s" "asP (arcSpec_modSt f s) = asP s"
  "asL (arcSpec_modSt f s) = asL s" "asSt (arcSpec_modSt f s) = f (asSt s)"
  "asOnEvict (arcSpec_modSt f s) = asOnEvict s"
  by (simp_all add: arcSpec_modSt_def)

text \<open>
  A node taken out of its list: the rest keeps the shape, the node floats, the map still has it.
\<close>

lemma float:
  assumes r: "arc_rep c ls" and n: "n \<in> set (ls t)"
  defines "c1 \<equiv> arc_rem t (arc_pos c n) c" and "ls1 \<equiv> ls(t := filter (\<lambda>x. x \<noteq> n) (ls t))"
  shows "arc_lists c1 ls1" and "n \<notin> arc_nodes ls1" and "arc_nodes ls = insert n (arc_nodes ls1)"
    and "n < acFresh c"
    and "arc_view c1 ls1 = arcSpec_drop t (anKey (acHeap c n)) (arc_view c ls)"
proof -
  note l = rep_D(1) [OF r] and i = rep_D(2) [OF r] and m = mem_nodes [of n ls t, OF n]
  show "arc_lists c1 ls1" unfolding c1_def ls1_def by (rule lists_rem [OF l n])
  show "n \<notin> arc_nodes ls1" "arc_nodes ls = insert n (arc_nodes ls1)"
    using nodes_remove [OF l n] m by (auto simp: ls1_def)
  show "n < acFresh c" using arc_lists_D(3) [OF l n] by simp
  show "arc_view c1 ls1 = arcSpec_drop t (anKey (acHeap c n)) (arc_view c ls)"
    using drop_view [OF i m] by (auto simp: arc_view_def arcSpec_drop_def c1_def ls1_def fun_eq_iff)
qed

text \<open>A floating node put to the front of a list.\<close>

lemma land:
  assumes l: "arc_lists c ls" and n: "n \<notin> arc_nodes ls" "n < acFresh c"
    and i: "arc_index c (insert n (arc_nodes ls))"
  shows "arc_rep (arc_pushTo t n c) (ls(t := n # ls t))"
    and "arc_view (arc_pushTo t n c) (ls(t := n # ls t)) =
      arcSpec_push t (arc_item (acHeap c n)) (arc_view c ls)"
proof -
  show "arc_rep (arc_pushTo t n c) (ls(t := n # ls t))"
    using arc_lists_push [OF l n] index_same [OF i, of "arc_pushTo t n c"]
    by (simp add: arc_rep_def nodes_push)
  show "arc_view (arc_pushTo t n c) (ls(t := n # ls t)) =
      arcSpec_push t (arc_item (acHeap c n)) (arc_view c ls)"
    by (simp add: arc_view_def arcSpec_push_def fun_eq_iff)
qed

text \<open>Changing the data of a floating node.\<close>

lemma float_data:
  assumes l: "arc_lists c ls" and n: "n \<notin> arc_nodes ls" and i: "arc_index c (insert n (arc_nodes ls))"
    and f: "\<And>x. anKey (f x) = anKey x"
  shows "arc_lists (arc_modNode n f c) ls" and "arc_index (arc_modNode n f c) (insert n (arc_nodes ls))"
    and "arc_view (arc_modNode n f c) ls = arc_view c ls"
proof -
  have nt: "n \<notin> set (ls t)" for t using n by (auto simp: arc_nodes_def)
  show "arc_lists (arc_modNode n f c) ls" using n by (intro arc_lists_cong [OF l]) auto
  show "arc_index (arc_modNode n f c) (insert n (arc_nodes ls))" using f by (intro index_same [OF i]) auto
  have "map (\<lambda>m. arc_item (acHeap (arc_modNode n f c) m)) (ls t) = map (\<lambda>m. arc_item (acHeap c m)) (ls t)" for t
    using nt [of t] by (intro map_cong) auto
  then show "arc_view (arc_modNode n f c) ls = arc_view c ls" by (simp only: arc_view_def arc_modNode_frame)
qed

text \<open>A node taken out of its list and of the map.\<close>

lemma arc_rep_delete:
  assumes r: "arc_rep c ls" and n: "n \<in> set (ls t)"
    and c': "\<And>u. arc_lst u c' = arc_lst u (arc_rem t (arc_pos c n) c)" "acHeap c' = acHeap c"
      "acItemMap c' = AList.delete (anKey (acHeap c n)) (acItemMap c)" "acFresh c' = acFresh c"
  shows "arc_rep c' (ls(t := filter (\<lambda>x. x \<noteq> n) (ls t)))"
proof -
  note f = float [OF r n]
  have "arc_lists c' (ls(t := filter (\<lambda>x. x \<noteq> n) (ls t)))"
    using c' by (intro arc_lists_cong [OF f(1)]) auto
  moreover have "arc_index c' (arc_nodes ls - {n})"
    by (rule index_del [OF rep_D(2) [OF r] mem_nodes [of n ls t, OF n] c'(3,2)])
  ultimately show ?thesis using nodes_remove [OF rep_D(1) [OF r] n] by (simp add: arc_rep_def)
qed

lemma view_delete:
  assumes r: "arc_rep c ls" and n: "n \<in> set (ls t)" and "acHeap c' = acHeap c"
    and "acCapacity c' = acCapacity c" "acP c' = acP c" "acSt c' = f (acSt c)" "acOnEvict c' = acOnEvict c"
  shows "arc_view c' (ls(t := filter (\<lambda>x. x \<noteq> n) (ls t))) =
    arcSpec_drop t (anKey (acHeap c n)) (arcSpec_modSt f (arc_view c ls))"
  using float(5) [OF r n] assms(3-)
  by (auto simp: arc_view_def arcSpec_drop_def arcSpec_modSt_def fun_eq_iff)

lemma arcSpec_drop_modSt: "arcSpec_drop t k (arcSpec_modSt f s) = arcSpec_modSt f (arcSpec_drop t k s)"
  by (simp add: arcSpec_drop_def arcSpec_modSt_def)

lemma arcSpec_push_modSt: "arcSpec_push t e (arcSpec_modSt f s) = arcSpec_modSt f (arcSpec_push t e s)"
  by (simp add: arcSpec_push_def arcSpec_modSt_def)

lemma arcSpec_modSt_modSt [simp]: "arcSpec_modSt f (arcSpec_modSt g s) = arcSpec_modSt (\<lambda>x. f (g x)) s"
  by (simp add: arcSpec_modSt_def)

text \<open>What a demotion comes to: the last node floats, loses its value and lands among the ghosts.\<close>

lemma demote_sim:
  assumes r: "arc_rep c ls" and ne: "ls t \<noteq> []" and tg: "t \<noteq> g"
  defines "n \<equiv> last (ls t)"
  defines "ls1 \<equiv> ls(t := filter (\<lambda>x. x \<noteq> n) (ls t))"
  shows "arc_rep (snd (arc_demote t g c)) (ls1(g := n # ls1 g))"
    and "arcSpec_demote t g (arc_view c ls) =
      (fst (arc_demote t g c), arc_view (snd (arc_demote t g c)) (ls1(g := n # ls1 g)))"
    and "acItemMap (snd (arc_demote t g c)) = acItemMap c"
    and "arc_nodes (ls1(g := n # ls1 g)) = arc_nodes ls"
    and "x \<notin> set (ls t) \<Longrightarrow> arc_item (acHeap (snd (arc_demote t g c)) x) = arc_item (acHeap c x)"
proof -
  have n: "n \<in> set (ls t)" using ne by (simp add: n_def)
  note l = rep_D(1) [OF r] and i = rep_D(2) [OF r]
  note f = float [OF r n, folded ls1_def]
  let ?f = "\<lambda>s. s\<lparr>BytesStored := BytesStored s - blen (anValue (acHeap c n))\<rparr>"
  define c1 where "c1 = arc_modSt ?f (arc_rem t (arc_pos c n) c)"
  have l1: "arc_lists c1 ls1" using f(1) by (simp add: c1_def)
  have i1: "arc_index c1 (insert n (arc_nodes ls1))"
    using index_same [OF i, of c1] f(3) by (simp add: c1_def)
  have v1: "arc_view c1 ls1 = arcSpec_drop t (anKey (acHeap c n)) (arcSpec_modSt ?f (arc_view c ls))"
    using f(5) by (simp add: c1_def arcSpec_drop_modSt)
  note d = float_data [OF l1 f(2) i1, of "\<lambda>x. x\<lparr>anValue := []\<rparr>", simplified]
  let ?c2 = "arc_modNode n (\<lambda>x. x\<lparr>anValue := []\<rparr>) c1"
  have fr: "n < acFresh ?c2" using f(4) by (simp add: c1_def)
  note la = land [OF d(1) f(2) fr d(2), of g]
  have "node_Value (arc_lst t (arc_rem t (arc_pos c n) c)) (arc_pos c n) = n"
    using dl.holds_val [OF arc_lists_D(1) [OF l] n] by (simp add: arc_rem_def)
  then have e: "arc_demote t g c =
     (if acOnEvict c \<and> anValue (acHeap c n) \<noteq> [] then [(anKey (acHeap c n), anValue (acHeap c n))] else [],
      arc_pushTo g n ?c2)"
    using back_nonempty [OF l, of t] ne by (simp add: arc_demote_def Let_def c1_def n_def)
  show "arc_rep (snd (arc_demote t g c)) (ls1(g := n # ls1 g))" using la(1) by (simp add: e)
  show "acItemMap (snd (arc_demote t g c)) = acItemMap c" by (simp add: e c1_def)
  show "arc_nodes (ls1(g := n # ls1 g)) = arc_nodes ls" using f(3) by (simp add: nodes_push)
  show "x \<notin> set (ls t) \<Longrightarrow> arc_item (acHeap (snd (arc_demote t g c)) x) = arc_item (acHeap c x)"
    using n by (auto simp: e c1_def)
  have la2: "last (asL (arc_view c ls) t) = arc_item (acHeap c n)" using ne by (simp add: last_map n_def)
  have "arc_item (acHeap ?c2 n) = (arc_item (acHeap c n))\<lparr>itValue := []\<rparr>" by (simp add: c1_def)
  with la(2) d(3) v1 la2 ne show "arcSpec_demote t g (arc_view c ls) =
      (fst (arc_demote t g c), arc_view (snd (arc_demote t g c)) (ls1(g := n # ls1 g)))"
    by (simp add: e arcSpec_demote_def Let_def)
qed

text \<open>\<open>replace\<close>: the lists stay well-formed, the map is not touched, and ghosts stay ghosts.\<close>

lemma replace_sim:
  assumes r: "arc_rep c ls" and e: "arc_replace b c = (evs, c1)"
  shows "\<exists>ls1. arc_rep c1 ls1 \<and> arcSpec_replace b (arc_view c ls) = (evs, arc_view c1 ls1) \<and>
    acItemMap c1 = acItemMap c \<and> arc_nodes ls1 = arc_nodes ls \<and>
    set (ls B1) \<subseteq> set (ls1 B1) \<and> set (ls B2) \<subseteq> set (ls1 B2) \<and>
    (\<forall>x\<in>set (ls B1) \<union> set (ls B2). arc_item (acHeap c1 x) = arc_item (acHeap c x))"
proof -
  have live: "x \<notin> set (ls T1)" "x \<notin> set (ls T2)" if "x \<in> set (ls B1) \<union> set (ls B2)" for x
    using other_list [OF rep_D(1) [OF r], of x] that by (metis Un_iff arcList.distinct)+
  note len = arc_len_view [OF rep_D(1) [OF r]]
  let ?f = "\<lambda>s. s\<lparr>Evictions := Evictions s + 1\<rparr>"
  consider (t1) "arc_len T1 c > 0 \<and> (arc_len T1 c > acP c \<or> (b \<and> arc_len T1 c = acP c))"
    | (t2) "\<not> (arc_len T1 c > 0 \<and> (arc_len T1 c > acP c \<or> (b \<and> arc_len T1 c = acP c)))" "arc_len T2 c > 0"
    | (none) "\<not> (arc_len T1 c > 0 \<and> (arc_len T1 c > acP c \<or> (b \<and> arc_len T1 c = acP c)))" "\<not> arc_len T2 c > 0"
    by blast
  then show ?thesis
  proof cases
    case t1
    then have ne: "ls T1 \<noteq> []" by (auto simp: len)
    note d = demote_sim [OF r ne, of B1, simplified]
    have c1: "evs = fst (arc_demote T1 B1 c)" "c1 = arc_modSt ?f (snd (arc_demote T1 B1 c))"
      using e t1 by (auto simp: arc_replace_def Let_def split: prod.splits)
    have "arcSpec_replace b (arc_view c ls) =
        (let (evs, s1) = arcSpec_demote T1 B1 (arc_view c ls) in (evs, arcSpec_modSt ?f s1))"
      using t1 unfolding len by (simp add: arcSpec_replace_def)
    with d live show ?thesis unfolding c1
      by (intro exI [where x = "ls(T1 := filter (\<lambda>x. x \<noteq> last (ls T1)) (ls T1), B1 := last (ls T1) # ls B1)"])
         (auto simp del: fun_upd_apply, auto)
  next
    case t2
    then have ne: "ls T2 \<noteq> []" by (auto simp: len)
    note d = demote_sim [OF r ne, of B2, simplified]
    have c1: "evs = fst (arc_demote T2 B2 c)" "c1 = arc_modSt ?f (snd (arc_demote T2 B2 c))"
      using e t2 by (auto simp: arc_replace_def Let_def split: prod.splits)
    have "arcSpec_replace b (arc_view c ls) =
        (let (evs, s1) = arcSpec_demote T2 B2 (arc_view c ls) in (evs, arcSpec_modSt ?f s1))"
      using t2 unfolding len by (auto simp add: arcSpec_replace_def)
    with d live show ?thesis unfolding c1
      by (intro exI [where x = "ls(T2 := filter (\<lambda>x. x \<noteq> last (ls T2)) (ls T2), B2 := last (ls T2) # ls B2)"])
         (auto simp del: fun_upd_apply, auto)
  next
    case none
    then have "evs = []" "c1 = arc_modSt ?f c" using e by (auto simp: arc_replace_def)
    moreover have "arcSpec_replace b (arc_view c ls) = ([], arcSpec_modSt ?f (arc_view c ls))"
      using none unfolding len by (auto simp: arcSpec_replace_def)
    ultimately show ?thesis using r by (intro exI [where x = ls]) simp
  qed
qed

lemma arcSpec_modSt_id [simp]: "arcSpec_modSt (\<lambda>x. x) s = s"
  by (simp add: arcSpec_modSt_def)

lemma arc_rem_modSt [simp]: "arc_lst t (arc_rem u m (arc_modSt f c)) = arc_lst t (arc_rem u m c)"
  by (simp add: arc_rem_def)

lemma dropGhost_sim:
  assumes r: "arc_rep c ls"
  shows "\<exists>ls1. arc_rep (arc_dropGhost g c) ls1 \<and>
    arc_view (arc_dropGhost g c) ls1 = arcSpec_dropGhost g (arc_view c ls) \<and>
    (\<forall>k. map_of (acItemMap c) k = None \<longrightarrow> map_of (acItemMap (arc_dropGhost g c)) k = None)"
proof (cases "ls g = []")
  case True
  with r back_nonempty [OF rep_D(1) [OF r], of g] show ?thesis
    by (intro exI [where x = ls]) (simp add: arc_dropGhost_def arcSpec_dropGhost_def)
next
  case False
  define n where "n = last (ls g)"
  have n: "n \<in> set (ls g)" using False by (simp add: n_def)
  have "node_Value (arc_lst g (arc_rem g (arc_pos c n) c)) (arc_pos c n) = n"
    using dl.holds_val [OF arc_lists_D(1) [OF rep_D(1) [OF r]] n] by (simp add: arc_rem_def)
  then have d: "arc_dropGhost g c = (arc_rem g (arc_pos c n) c)
      \<lparr>acItemMap := AList.delete (anKey (acHeap c n)) (acItemMap c)\<rparr>"
    using back_nonempty [OF rep_D(1) [OF r], of g] False by (simp add: arc_dropGhost_def Let_def n_def)
  have rep: "arc_rep (arc_dropGhost g c) (ls(g := filter (\<lambda>x. x \<noteq> n) (ls g)))"
    unfolding d by (rule arc_rep_delete [OF r n]) simp_all
  have "arc_view (arc_dropGhost g c) (ls(g := filter (\<lambda>x. x \<noteq> n) (ls g))) =
      arcSpec_drop g (anKey (acHeap c n)) (arcSpec_modSt (\<lambda>x. x) (arc_view c ls))"
    unfolding d by (rule view_delete [OF r n]) simp_all
  then have "arc_view (arc_dropGhost g c) (ls(g := filter (\<lambda>x. x \<noteq> n) (ls g))) =
      arcSpec_dropGhost g (arc_view c ls)"
    using False by (simp add: arcSpec_dropGhost_def last_map n_def)
  moreover have "\<forall>k. map_of (acItemMap c) k = None \<longrightarrow> map_of (acItemMap (arc_dropGhost g c)) k = None"
    by (simp add: d map_of_delete_upd)
  ultimately show ?thesis using rep by blast
qed

lemma evictT1_sim:
  assumes r: "arc_rep c ls" and e: "arc_evictT1 c = (evs, c1)"
  shows "\<exists>ls1. arc_rep c1 ls1 \<and> arcSpec_evictT1 (arc_view c ls) = (evs, arc_view c1 ls1) \<and>
    (\<forall>k. map_of (acItemMap c) k = None \<longrightarrow> map_of (acItemMap c1) k = None)"
proof (cases "ls T1 = []")
  case True
  with r e back_nonempty [OF rep_D(1) [OF r], of T1] show ?thesis
    by (intro exI [where x = ls]) (simp add: arc_evictT1_def arcSpec_evictT1_def)
next
  case False
  define n where "n = last (ls T1)"
  have n: "n \<in> set (ls T1)" using False by (simp add: n_def)
  let ?f = "\<lambda>s. s\<lparr>BytesStored := BytesStored s - blen (anValue (acHeap c n))\<rparr>"
  let ?g = "\<lambda>s. s\<lparr>Evictions := Evictions s + 1\<rparr>"
  have "node_Value (arc_lst T1 (arc_rem T1 (arc_pos c n) c)) (arc_pos c n) = n"
    using dl.holds_val [OF arc_lists_D(1) [OF rep_D(1) [OF r]] n] by (simp add: arc_rem_def)
  then have c1: "c1 = arc_modSt ?g ((arc_modSt ?f (arc_rem T1 (arc_pos c n) c))
      \<lparr>acItemMap := AList.delete (anKey (acHeap c n)) (acItemMap c)\<rparr>)"
    and evs: "evs = (if acOnEvict c then [(anKey (acHeap c n), anValue (acHeap c n))] else [])"
    using e back_nonempty [OF rep_D(1) [OF r], of T1] False by (auto simp: arc_evictT1_def Let_def n_def)
  have rep: "arc_rep c1 (ls(T1 := filter (\<lambda>x. x \<noteq> n) (ls T1)))"
    unfolding c1 by (rule arc_rep_delete [OF r n]) simp_all
  have "arc_view c1 (ls(T1 := filter (\<lambda>x. x \<noteq> n) (ls T1))) =
      arcSpec_drop T1 (anKey (acHeap c n)) (arcSpec_modSt (\<lambda>s. ?g (?f s)) (arc_view c ls))"
    unfolding c1 by (rule view_delete [OF r n]) simp_all
  then have "arcSpec_evictT1 (arc_view c ls) = (evs, arc_view c1 (ls(T1 := filter (\<lambda>x. x \<noteq> n) (ls T1))))"
    using False evs by (simp add: arcSpec_evictT1_def last_map n_def)
  moreover have "\<forall>k. map_of (acItemMap c) k = None \<longrightarrow> map_of (acItemMap c1) k = None"
    by (simp add: c1 map_of_delete_upd)
  ultimately show ?thesis using rep by blast
qed

lemma makeRoom_sim:
  assumes r: "arc_rep c ls" and e: "arc_makeRoom c = (evs, c1)"
  shows "\<exists>ls1. arc_rep c1 ls1 \<and> arcSpec_makeRoom (arc_view c ls) = (evs, arc_view c1 ls1) \<and>
    (\<forall>k. map_of (acItemMap c) k = None \<longrightarrow> map_of (acItemMap c1) k = None)"
proof -
  note len = arc_len_view [OF rep_D(1) [OF r]]
  have cap: "acCapacity c = asCapacity (arc_view c ls)" by simp
  have repl: "\<exists>ls1. arc_rep c2 ls1 \<and> arcSpec_replace False (arc_view c' ls') = (evs', arc_view c2 ls1) \<and>
      (\<forall>k. map_of (acItemMap c') k = None \<longrightarrow> map_of (acItemMap c2) k = None)"
    if "arc_rep c' ls'" "arc_replace False c' = (evs', c2)" for c' ls' c2 evs'
    using replace_sim [OF that] by auto
  show ?thesis
  proof (cases "arc_len T1 c + arc_len B1 c = acCapacity c")
    case True
    show ?thesis
    proof (cases "arc_len T1 c < acCapacity c")
      case lt: True
      obtain ls1 where d: "arc_rep (arc_dropGhost B1 c) ls1"
        "arc_view (arc_dropGhost B1 c) ls1 = arcSpec_dropGhost B1 (arc_view c ls)"
        "\<forall>k. map_of (acItemMap c) k = None \<longrightarrow> map_of (acItemMap (arc_dropGhost B1 c)) k = None"
        using dropGhost_sim [OF r] by blast
      have "arc_replace False (arc_dropGhost B1 c) = (evs, c1)" using e True lt by (simp add: arc_makeRoom_def)
      from repl [OF d(1) this] d(2,3)
      have "\<exists>ls2. arc_rep c1 ls2 \<and> arcSpec_replace False (arcSpec_dropGhost B1 (arc_view c ls)) = (evs, arc_view c1 ls2) \<and>
          (\<forall>k. map_of (acItemMap c) k = None \<longrightarrow> map_of (acItemMap c1) k = None)" by metis
      moreover have "arcSpec_makeRoom (arc_view c ls) = arcSpec_replace False (arcSpec_dropGhost B1 (arc_view c ls))"
        using True lt unfolding len cap arcSpec_makeRoom_def by simp
      ultimately show ?thesis by simp
    next
      case ge: False
      then have "arc_evictT1 c = (evs, c1)" using e True by (simp add: arc_makeRoom_def)
      moreover have "arcSpec_makeRoom (arc_view c ls) = arcSpec_evictT1 (arc_view c ls)"
        using True ge unfolding len cap arcSpec_makeRoom_def by simp
      ultimately show ?thesis using evictT1_sim [OF r] by simp
    qed
  next
    case False
    show ?thesis
    proof (cases "arc_len T1 c + arc_len T2 c \<ge> acCapacity c")
      case True
      let ?big = "arc_len T1 c + arc_len T2 c + arc_len B1 c + arc_len B2 c \<ge> 2 * acCapacity c"
      define c0 where "c0 = (if ?big then arc_dropGhost B2 c else c)"
      define s0 where "s0 = (if ?big then arcSpec_dropGhost B2 (arc_view c ls) else arc_view c ls)"
      obtain ls1 where d: "arc_rep c0 ls1" "arc_view c0 ls1 = s0"
        "\<forall>k. map_of (acItemMap c) k = None \<longrightarrow> map_of (acItemMap c0) k = None"
      proof (cases ?big)
        case True
        with dropGhost_sim [OF r, of B2] that show ?thesis by (auto simp: c0_def s0_def)
      next
        case False
        with r that [of ls] show ?thesis by (auto simp: c0_def s0_def)
      qed
      note len1 = arc_len_view [OF rep_D(1) [OF d(1)], unfolded d(2)]
      have m: "arc_makeRoom c = (if arc_len T1 c0 + arc_len T2 c0 \<ge> acCapacity c0 then arc_replace False c0 else ([], c0))"
        using False True unfolding c0_def by (simp add: arc_makeRoom_def Let_def)
      have ms: "arcSpec_makeRoom (arc_view c ls) =
          (if arcSpec_len T1 s0 + arcSpec_len T2 s0 \<ge> asCapacity s0 then arcSpec_replace False s0 else ([], s0))"
        using False True unfolding len cap arcSpec_makeRoom_def s0_def by (simp only: Let_def if_True if_False)
      have cap1: "acCapacity c0 = asCapacity s0" using d(2) by (metis arc_view_sel(1))
      show ?thesis
      proof (cases "arc_len T1 c0 + arc_len T2 c0 \<ge> acCapacity c0")
        case True
        then have "arc_replace False c0 = (evs, c1)" using e m by simp
        from repl [OF d(1) this] d(3) obtain ls2 where "arc_rep c1 ls2"
          "arcSpec_replace False s0 = (evs, arc_view c1 ls2)"
          "\<forall>k. map_of (acItemMap c) k = None \<longrightarrow> map_of (acItemMap c1) k = None"
          unfolding d(2) by blast
        moreover have "arcSpec_makeRoom (arc_view c ls) = arcSpec_replace False s0"
          using True ms unfolding len1 cap1 by simp
        ultimately show ?thesis by auto
      next
        case False
        then have "evs = []" "c1 = c0" using e m by auto
        moreover have "arcSpec_makeRoom (arc_view c ls) = ([], s0)"
          using False ms unfolding len1 cap1 by simp
        ultimately show ?thesis using d by (intro exI [where x = ls1]) simp
      qed
    next
      case lt: False
      then have "evs = []" "c1 = c" using e False by (auto simp: arc_makeRoom_def)
      moreover have "arcSpec_makeRoom (arc_view c ls) = ([], arc_view c ls)"
        using False lt unfolding len cap arcSpec_makeRoom_def by simp
      ultimately show ?thesis using r by (intro exI [where x = ls]) simp
    qed
  qed
qed

text \<open>A node moved from its list to the front of \<open>T2\<close>, with new data.\<close>

lemma move_sim:
  fixes g :: "Stats \<Rightarrow> Stats"
  assumes r: "arc_rep c ls" and n: "n \<in> set (ls t)" and f: "\<And>x. anKey (f x) = anKey x"
  defines "ls1 \<equiv> ls(t := filter (\<lambda>x. x \<noteq> n) (ls t))"
  defines "c' \<equiv> arc_pushTo T2 n (arc_modNode n f (arc_modSt g (arc_rem t (arc_pos c n) c)))"
  shows "arc_rep c' (ls1(T2 := n # ls1 T2))"
    and "arc_view c' (ls1(T2 := n # ls1 T2)) = arcSpec_push T2 (arc_item (f (acHeap c n)))
      (arcSpec_drop t (anKey (acHeap c n)) (arcSpec_modSt g (arc_view c ls)))"
proof -
  note fl = float [OF r n, folded ls1_def]
  let ?c1 = "arc_modSt g (arc_rem t (arc_pos c n) c)"
  have l1: "arc_lists ?c1 ls1" using fl(1) by simp
  have i1: "arc_index ?c1 (insert n (arc_nodes ls1))"
    using index_same [OF rep_D(2) [OF r], of ?c1] fl(3) by simp
  note d = float_data [OF l1 fl(2) i1 f]
  have fr: "n < acFresh (arc_modNode n f ?c1)" using fl(4) by simp
  note la = land [OF d(1) fl(2) fr d(2), of T2, folded c'_def]
  show "arc_rep c' (ls1(T2 := n # ls1 T2))" by (rule la(1))
  show "arc_view c' (ls1(T2 := n # ls1 T2)) = arcSpec_push T2 (arc_item (f (acHeap c n)))
      (arcSpec_drop t (anKey (acHeap c n)) (arcSpec_modSt g (arc_view c ls)))"
    using la(2) d(3) fl(5) by (simp add: arcSpec_drop_modSt)
qed

lemma rem_modNode: "arc_rem t m (arc_modNode n f c) = arc_modNode n f (arc_rem t m c)"
  by (simp add: arc_rem_def) (simp add: arc_setLst_def arc_modNode_def split: arcList.splits)

lemma rem_modSt: "arc_rem t m (arc_modSt f c) = arc_modSt f (arc_rem t m c)"
  by (simp add: arc_rem_def) (simp add: arc_setLst_def arc_modSt_def split: arcList.splits)

lemma modNode_modSt: "arc_modNode n f (arc_modSt g c) = arc_modSt g (arc_modNode n f c)"
  by (simp add: arc_modNode_def arc_modSt_def)

lemma pushTo_modNode:
  assumes "\<And>x a b. f (x\<lparr>anList := a, anListNode := b\<rparr>) = (f x)\<lparr>anList := a, anListNode := b\<rparr>"
  shows "arc_pushTo t n (arc_modNode n f c) = arc_modNode n f (arc_pushTo t n c)"
  by (simp add: arc_pushTo_def split: prod.splits)
     (auto simp: arc_setLst_def arc_modNode_def assms fun_eq_iff split: arcList.splits)

lemma setLive_sim:
  assumes r: "arc_rep c ls" and n: "n \<in> set (ls t)" and t: "t = T1 \<or> t = T2"
  shows "\<exists>ls1. arc_rep (arc_setLive n v x c) ls1 \<and>
    arc_view (arc_setLive n v x c) ls1 = arcSpec_store t (arc_item (acHeap c n)) v x (arc_view c ls)"
proof -
  let ?f = "\<lambda>y. y\<lparr>anValue := v, anExpiresAt := x\<rparr>"
  let ?g = "\<lambda>s. s\<lparr>BytesStored := BytesStored s + (blen v - blen (anValue (acHeap c n)))\<rparr>"
  have tn: "anList (acHeap c n) = t" using arc_lists_D(3) [OF rep_D(1) [OF r] n] by simp
  have e: "arc_setLive n v x c = arc_modSt (\<lambda>s. s\<lparr>Sets := Sets s + 1\<rparr>)
      (arc_pushTo T2 n (arc_modNode n ?f (arc_modSt ?g (arc_rem t (arc_pos c n) c))))"
    using tn by (simp add: arc_setLive_def Let_def arc_removeFromList_eq rem_modNode rem_modSt)
  from move_sim [OF r n, of ?f ?g] t show ?thesis
    by (auto simp: e arcSpec_store_def arcSpec_push_modSt [symmetric] arcSpec_drop_modSt [symmetric])
qed

lemma revive_sim:
  assumes r: "arc_rep c ls" and n: "n \<in> set (ls g)" and g: "g \<noteq> T1" "g \<noteq> T2"
  shows "\<exists>ls1. arc_rep (arc_revive g n v x c) ls1 \<and>
    arc_view (arc_revive g n v x c) ls1 = arcSpec_store g (arc_item (acHeap c n)) v x (arc_view c ls)"
proof -
  let ?f = "\<lambda>y. y\<lparr>anValue := v, anExpiresAt := x\<rparr>"
  let ?g = "\<lambda>s. s\<lparr>BytesStored := BytesStored s + blen v\<rparr>"
  have e: "arc_revive g n v x c = arc_modSt (\<lambda>s. s\<lparr>Sets := Sets s + 1\<rparr>)
      (arc_pushTo T2 n (arc_modNode n ?f (arc_modSt ?g (arc_rem g (arc_pos c n) c))))"
    by (simp add: arc_revive_def Let_def)
  from move_sim [OF r n, of ?f ?g] g show ?thesis
    by (auto simp: e arcSpec_store_def arcSpec_push_modSt [symmetric] arcSpec_drop_modSt [symmetric])
qed

lemma insert_sim:
  assumes r: "arc_rep c ls" and k: "map_of (acItemMap c) k = None"
  shows "\<exists>ls1. arc_rep (arc_insert k v x now c) ls1 \<and>
    arc_view (arc_insert k v x now c) ls1 =
      arcSpec_push T1 \<lparr>itKey = k, itValue = v, itExpires = x, itCreated = now, itHits = 0\<rparr>
        (arcSpec_modSt (\<lambda>y. y\<lparr>Sets := Sets y + 1, BytesStored := BytesStored y + blen v\<rparr>) (arc_view c ls))"
proof -
  let ?n = "acFresh c"
  let ?x = "\<lparr>anKey = k, anValue = v, anList = T1, anExpiresAt = x, anCreatedAt = now,
                  anHitCount = 0, anListNode = 0\<rparr>"
  note l = rep_D(1) [OF r] and i = rep_D(2) [OF r]
  have nt: "?n \<notin> set (ls t)" for t using arc_lists_D(3) [OF l] by blast
  then have new: "?n \<notin> arc_nodes ls" by (auto simp: arc_nodes_def)
  define c1 where "c1 = c\<lparr>acFresh := ?n + 1, acHeap := (acHeap c)(?n := ?x)\<rparr>"
  have l1: "arc_lists c1 ls" using new by (intro arc_lists_cong [OF l]) (auto simp: c1_def)
  have c': "arc_insert k v x now c = arc_modSt (\<lambda>s. s\<lparr>BytesStored := BytesStored s + blen v\<rparr>)
      (arc_modSt (\<lambda>s. s\<lparr>Sets := Sets s + 1\<rparr>)
        ((arc_pushTo T1 ?n c1)\<lparr>acItemMap := AList.update k ?n (acItemMap c)\<rparr>))"
    by (simp add: arc_insert_def Let_def c1_def)
  have "arc_lists (arc_pushTo T1 ?n c1) (ls(T1 := ?n # ls T1))"
    by (rule arc_lists_push [OF l1 new]) (simp add: c1_def)
  then have l2: "arc_lists (arc_insert k v x now c) (ls(T1 := ?n # ls T1))"
    unfolding c' parts_modSt by (rule arc_lists_cong) simp_all
  have i2: "arc_index (arc_insert k v x now c) (insert ?n (arc_nodes ls))"
    using new by (intro index_add [OF i k new]) (auto simp: c' c1_def)
  have items: "map (\<lambda>m. arc_item (if m = ?n then ?x else acHeap c m)) (ls t) = map (\<lambda>m. arc_item (acHeap c m)) (ls t)" for t
    using nt [of t] by (intro map_cong) auto
  have it: "arc_item ?x = \<lparr>itKey = k, itValue = v, itExpires = x, itCreated = now, itHits = 0\<rparr>"
    by (simp add: arc_item_def)
  have "arc_view (arc_insert k v x now c) (ls(T1 := ?n # ls T1)) =
      arcSpec_push T1 \<lparr>itKey = k, itValue = v, itExpires = x, itCreated = now, itHits = 0\<rparr>
        (arcSpec_modSt (\<lambda>y. y\<lparr>Sets := Sets y + 1, BytesStored := BytesStored y + blen v\<rparr>) (arc_view c ls))"
    using items it by (simp add: c' arc_view_def arcSpec_push_def arcSpec_modSt_def fun_eq_iff c1_def)
  with l2 i2 show ?thesis by (auto simp: arc_rep_def nodes_push)
qed

section \<open>The operations simulate the machine\<close>

lemma arc_sim_rep: "arc_sim c s \<longleftrightarrow> (\<exists>ls. arc_rep c ls \<and> s = arc_view c ls)"
  by (auto simp: arc_sim_def arc_rep_def)

lemma arc_rep_sim: "arc_rep c ls \<Longrightarrow> arc_sim c (arc_view c ls)"
  by (auto simp: arc_sim_rep)

lemma arc_simE:
  assumes "arc_sim c s"
  obtains ls where "arc_rep c ls" and "s = arc_view c ls"
  using assms by (auto simp: arc_sim_rep)

lemma arc_sim_New: "arc_sim (arc_New cap) (arcSpec_New cap)"
  by (rule arc_simI [where ls = "\<lambda>_. []"])
     (auto simp: arc_lists_def arc_index_def arc_nodes_def arc_New_def arc_view_def arcSpec_New_def
        arc_lst_def dl.holds_new split: arcList.splits)

lemma lookup_mem:
  assumes r: "arc_rep c ls" and k: "map_of (acItemMap c) k = Some n"
  shows "n \<in> set (ls (anList (acHeap c n)))" and "anKey (acHeap c n) = k"
  using arc_lookup [OF rep_D(2) [OF r], of k n] k node_list_mem [OF rep_D(1) [OF r], of n] by auto

lemma remove_sim:
  assumes r: "arc_rep c ls" and k: "map_of (acItemMap c) k = Some n"
    and c': "\<And>u. arc_lst u c' = arc_lst u (arc_removeFromList n c)" "acHeap c' = acHeap c"
      "acItemMap c' = AList.delete k (acItemMap c)" "acFresh c' = acFresh c"
      "acCapacity c' = acCapacity c" "acP c' = acP c" "acSt c' = f (acSt c)" "acOnEvict c' = acOnEvict c"
  shows "arc_sim c' (arcSpec_drop (anList (acHeap c n)) k (arcSpec_modSt f (arc_view c ls)))"
proof -
  let ?t = "anList (acHeap c n)"
  let ?ls = "ls(?t := filter (\<lambda>x. x \<noteq> n) (ls ?t))"
  note n = lookup_mem [OF r k]
  have "arc_rep c' ?ls" using c'(1-4) n(2) by (intro arc_rep_delete [OF r n(1)]) (simp_all add: arc_removeFromList_eq)
  moreover have "arc_view c' ?ls = arcSpec_drop ?t k (arcSpec_modSt f (arc_view c ls))"
    using view_delete [OF r n(1), of c' f] c'(2,5-8) n(2) by simp
  ultimately show ?thesis by (auto simp: arc_sim_rep)
qed

lemma arc_lst_modSt_rem [simp]:
  "arc_lst t (arc_removeFromList n (arc_modSt f c)) = arc_lst t (arc_removeFromList n c)"
  by (simp add: arc_removeFromList_eq)

lemma arc_removeFromList_frame [simp]:
  "acCapacity (arc_removeFromList n c) = acCapacity c" "acP (arc_removeFromList n c) = acP c"
  "acItemMap (arc_removeFromList n c) = acItemMap c" "acSt (arc_removeFromList n c) = acSt c"
  "acOnEvict (arc_removeFromList n c) = acOnEvict c" "acHeap (arc_removeFromList n c) = acHeap c"
  "acFresh (arc_removeFromList n c) = acFresh c"
  by (simp_all add: arc_removeFromList_eq)

lemma arc_Get_sim:
  assumes "arc_sim c s" and g: "arc_Get now k c = (r, c')"
  shows "\<exists>s'. arcSpec_Get now k s = (r, s') \<and> arc_sim c' s'"
proof -
  obtain ls where rep: "arc_rep c ls" and s: "s = arc_view c ls" using assms(1) by (rule arc_simE)
  note loc = locate_view [OF rep, of k]
  show ?thesis
  proof (cases "map_of (acItemMap c) k")
    case None
    with g s loc rep show ?thesis by (auto simp: arc_Get_def arcSpec_Get_def arc_sim_rep intro!: exI [where x = ls])
  next
    case (Some n)
    note n = lookup_mem [OF rep Some]
    let ?t = "anList (acHeap c n)"
    consider (ghost) "?t = B1 \<or> ?t = B2" | (old) "\<not> (?t = B1 \<or> ?t = B2)" "expired now (anExpiresAt (acHeap c n))"
      | (hit) "\<not> (?t = B1 \<or> ?t = B2)" "\<not> expired now (anExpiresAt (acHeap c n))" by blast
    then show ?thesis
    proof cases
      case ghost
      with g s loc rep Some show ?thesis
        by (auto simp: arc_Get_def arcSpec_Get_def arc_sim_rep intro!: exI [where x = ls])
    next
      case old
      then have "arc_sim c' (arcSpec_drop ?t k (arcSpec_modSt (\<lambda>x. x\<lparr>BytesStored := BytesStored x -
          blen (anValue (acHeap c n)), Misses := Misses x + 1, TTLExpiries := TTLExpiries x + 1\<rparr>) (arc_view c ls)))"
        using g Some by (intro remove_sim [OF rep Some]) (auto simp: arc_Get_def Let_def)
      with old g s loc Some show ?thesis by (auto simp: arc_Get_def arcSpec_Get_def Let_def)
    next
      case hit
      let ?f = "\<lambda>x. x\<lparr>anHitCount := anHitCount x + 1\<rparr>"
      let ?c = "arc_pushTo T2 n (arc_modNode n ?f (arc_rem ?t (arc_pos c n) c))"
      have "arc_modSt (\<lambda>x. x) (arc_rem ?t (arc_pos c n) c) = arc_rem ?t (arc_pos c n) c"
        by (simp add: arc_modSt_def)
      with move_sim [OF rep n(1), of ?f "\<lambda>x. x"] obtain ls2 where m: "arc_rep ?c ls2"
        "arc_view ?c ls2 = arcSpec_push T2 (arc_item (?f (acHeap c n))) (arcSpec_drop ?t k (arc_view c ls))"
        using n(2) by auto
      have c': "c' = arc_modSt (\<lambda>x. x\<lparr>Hits := Hits x + 1\<rparr>)
          (arc_pushTo T2 n (arc_modNode n ?f (arc_rem ?t (arc_pos c n) c)))" "r = Some (anValue (acHeap c n))"
        using g Some hit by (auto simp: arc_Get_def Let_def arc_removeFromList_eq pushTo_modNode)
      have "arc_sim c' (arcSpec_push T2 (arc_item (?f (acHeap c n))) (arcSpec_drop ?t k
          (arcSpec_modSt (\<lambda>x. x\<lparr>Hits := Hits x + 1\<rparr>) (arc_view c ls))))"
        unfolding c' arc_sim_rep arcSpec_drop_modSt arcSpec_push_modSt
        using m by (intro exI [where x = ls2]) (simp del: arc_item_upd)
      with hit g s loc Some c' show ?thesis by (auto simp: arcSpec_Get_def Let_def)
    qed
  qed
qed

lemma arc_Peek_sim:
  assumes "arc_sim c s" and g: "arc_Peek now k c = (r, c')"
  shows "\<exists>s'. arcSpec_Peek now k s = (r, s') \<and> arc_sim c' s'"
proof -
  obtain ls where rep: "arc_rep c ls" and s: "s = arc_view c ls" using assms(1) by (rule arc_simE)
  note loc = locate_view [OF rep, of k]
  show ?thesis
  proof (cases "map_of (acItemMap c) k")
    case None
    with g s loc assms(1) show ?thesis by (auto simp: arc_Peek_def arcSpec_Peek_def)
  next
    case (Some n)
    let ?t = "anList (acHeap c n)"
    show ?thesis
    proof (cases "\<not> (?t = B1 \<or> ?t = B2) \<and> expired now (anExpiresAt (acHeap c n))")
      case True
      then have "arc_sim c' (arcSpec_drop ?t k (arcSpec_modSt (\<lambda>x. x\<lparr>BytesStored := BytesStored x -
          blen (anValue (acHeap c n)), TTLExpiries := TTLExpiries x + 1\<rparr>) (arc_view c ls)))"
        using g Some by (intro remove_sim [OF rep Some]) (auto simp: arc_Peek_def Let_def)
      with True g s loc Some show ?thesis by (auto simp: arc_Peek_def arcSpec_Peek_def Let_def)
    next
      case False
      with g s loc Some assms(1) show ?thesis by (auto simp: arc_Peek_def arcSpec_Peek_def)
    qed
  qed
qed

lemma arc_Delete_sim:
  assumes "arc_sim c s" and g: "arc_Delete k c = (found, c')"
  shows "\<exists>s'. arcSpec_Delete k s = (found, s') \<and> arc_sim c' s'"
proof -
  obtain ls where rep: "arc_rep c ls" and s: "s = arc_view c ls" using assms(1) by (rule arc_simE)
  note loc = locate_view [OF rep, of k]
  show ?thesis
  proof (cases "map_of (acItemMap c) k")
    case None
    with g s loc assms(1) show ?thesis by (auto simp: arc_Delete_def arcSpec_Delete_def)
  next
    case (Some n)
    let ?t = "anList (acHeap c n)"
    have "arc_sim c' (arcSpec_drop ?t k (arcSpec_modSt (\<lambda>x. x\<lparr>BytesStored := BytesStored x -
          (if ?t = T1 \<or> ?t = T2 then blen (anValue (acHeap c n)) else 0), Deletes := Deletes x + 1\<rparr>) (arc_view c ls)))"
      using g Some by (intro remove_sim [OF rep Some]) (cases "?t = T1 \<or> ?t = T2"; simp add: arc_Delete_def Let_def; fastforce)+
    with g s loc Some show ?thesis by (auto simp: arc_Delete_def arcSpec_Delete_def Let_def)
  qed
qed

lemma arc_P_sim:
  assumes r: "arc_rep c ls"
  shows "arc_rep (arc_growP c) ls" "arc_view (arc_growP c) ls = arcSpec_growP (arc_view c ls)"
    and "arc_rep (arc_shrinkP c) ls" "arc_view (arc_shrinkP c) ls = arcSpec_shrinkP (arc_view c ls)"
proof -
  note len = arc_len_view [OF rep_D(1) [OF r]]
  have p: "arc_rep (c\<lparr>acP := p\<rparr>) ls" for p
    using r by (auto simp: arc_rep_def arc_index_def arc_lists_def)
  show "arc_rep (arc_growP c) ls" "arc_rep (arc_shrinkP c) ls"
    using p by (simp_all add: arc_growP_def arc_shrinkP_def Let_def)
  show "arc_view (arc_growP c) ls = arcSpec_growP (arc_view c ls)"
    "arc_view (arc_shrinkP c) ls = arcSpec_shrinkP (arc_view c ls)"
    unfolding arc_growP_def arc_shrinkP_def arcSpec_growP_def arcSpec_shrinkP_def Let_def len
    by (simp_all add: arc_view_def)
qed

lemma arc_Set_sim:
  assumes "arc_sim c s" and g: "arc_Set now k v ttl c = (err, evs, c')"
  shows "\<exists>s'. arcSpec_Set now k v ttl s = (err, evs, s') \<and> arc_sim c' s'"
proof -
  obtain ls where rep: "arc_rep c ls" and s: "s = arc_view c ls" using assms(1) by (rule arc_simE)
  note loc = locate_view [OF rep, of k]
  show ?thesis
  proof (cases "map_of (acItemMap c) k")
    case None
    obtain c1 where e: "arc_makeRoom c = (evs, c1)" and c': "c' = arc_insert k v (expiryOf now ttl) now c1" "err = None"
      using g None by (cases "arc_makeRoom c") (auto simp: arc_Set_def Let_def)
    obtain ls1 where r1: "arc_rep c1 ls1" and m: "arcSpec_makeRoom (arc_view c ls) = (evs, arc_view c1 ls1)"
      and k1: "map_of (acItemMap c1) k = None"
      using makeRoom_sim [OF rep e] None by blast
    from insert_sim [OF r1 k1, of v "expiryOf now ttl" now] m c' loc None s show ?thesis
      by (auto simp: arcSpec_Set_def arc_sim_rep)
  next
    case (Some n)
    note n = lookup_mem [OF rep Some]
    let ?t = "anList (acHeap c n)"
    show ?thesis
    proof (cases "?t = T1 \<or> ?t = T2")
      case True
      with setLive_sim [OF rep n(1) True, of v "expiryOf now ttl"] g Some loc s show ?thesis
        by (auto simp: arc_Set_def arcSpec_Set_def arc_sim_rep Let_def)
    next
      case False
      then have t: "?t = B1 \<or> ?t = B2" by (cases ?t) auto
      let ?c = "if ?t = B1 then arc_growP c else arc_shrinkP c"
      have r0: "arc_rep ?c ls" and v0: "arc_view ?c ls = (if ?t = B1 then arcSpec_growP s else arcSpec_shrinkP s)"
        using arc_P_sim [OF rep] s by simp_all
      obtain c1 where e: "arc_replace (?t = B2) ?c = (evs, c1)"
        and c': "c' = arc_revive ?t n v (expiryOf now ttl) c1" "err = None"
        using g Some t False by (auto simp: arc_Set_def Let_def split: prod.splits)
      obtain ls1 where r1: "arc_rep c1 ls1" and v1: "arcSpec_replace (?t = B2) (arc_view ?c ls) = (evs, arc_view c1 ls1)"
        and b: "set (ls B1) \<subseteq> set (ls1 B1)" "set (ls B2) \<subseteq> set (ls1 B2)"
        and it: "\<forall>x\<in>set (ls B1) \<union> set (ls B2). arc_item (acHeap c1 x) = arc_item (acHeap ?c x)"
        using replace_sim [OF r0 e] by blast
      have n1: "n \<in> set (ls1 ?t)" using n(1) b t by auto
      have "acHeap ?c = acHeap c" by (simp add: arc_growP_def arc_shrinkP_def Let_def)
      with it n(1) t have same: "arc_item (acHeap c1 n) = arc_item (acHeap c n)" by auto
      obtain ls2 where r2: "arc_rep c' ls2" and v2: "arc_view c' ls2 =
          arcSpec_store ?t (arc_item (acHeap c n)) v (expiryOf now ttl) (arc_view c1 ls1)"
        using revive_sim [OF r1 n1, of v "expiryOf now ttl"] False c' same by auto
      have "arcSpec_Set now k v ttl s = (err, evs, arc_view c' ls2)"
        using c'(2) v1 v0 v2 loc Some s t by (auto simp: arcSpec_Set_def)
      with arc_rep_sim [OF r2] show ?thesis by blast
    qed
  qed
qed

lemma arc_Purge_sim:
  assumes "arc_sim c s"
  shows "arc_sim (arc_Purge c) (arcSpec_Purge s)"
proof -
  have l: "arc_lst t (arc_Purge c) = list_New" for t
    by (cases t) (simp_all add: arc_lst_def arc_Purge_def arc_modSt_def)
  have "asCapacity s = acCapacity c" "asOnEvict s = acOnEvict c" using assms by (auto simp: arc_sim_def)
  then have "arcSpec_Purge s = arc_view (arc_Purge c) (\<lambda>_. [])"
    by (cases s) (simp add: arcSpec_Purge_def arc_view_def arc_Purge_def stats_Reset_new)
  moreover have "arc_lists (arc_Purge c) (\<lambda>_. [])" by (simp only: arc_lists_def l dl.holds_new) simp
  moreover have "arc_index (arc_Purge c) (arc_nodes (\<lambda>_. []))"
    by (simp add: arc_index_def arc_nodes_def arc_Purge_def)
  ultimately show ?thesis by (intro arc_simI) assumption+
qed

end
