(* ===== verification/ARC_Contract.thy ===== *)
theory ARC_Contract
  imports ARC
begin

text \<open>
  The ARC cache as a provider of the cache contract: the sizes of its four lists, the laws of the
  machine (\<open>arcSpec\<close>), the code's model as an implementation of it (\<open>arcImpl\<close>) and the contract
  it inherits (\<open>arc\<close>). ARC is not a \<open>reporting_cache\<close>: it does not report the eviction of an
  empty value (\<open>arc_empty_value_unreported\<close>).
\<close>

section \<open>The machine as a cache, and its invariant\<close>

abbreviation arc_items :: "arcSpec \<Rightarrow> item list" where
  "arc_items s \<equiv> asL s T1 @ asL s T2"

abbreviation arc_ghosts :: "arcSpec \<Rightarrow> item list" where
  "arc_ghosts s \<equiv> asL s B1 @ asL s B2"

definition arcSpec_cache :: "arcSpec Cache" where
  "arcSpec_cache = \<lparr>mGet = arcSpec_Get, mSet = arcSpec_Set, mDelete = arcSpec_Delete,
     mPeek = arcSpec_Peek,
     mKeys = (\<lambda>now s. Some (keys_of (filter (\<lambda>e. unexpired now (itExpires e)) (arc_items s)))),
     mLen = (\<lambda>s. int (length (arc_items s))), mCapacity = asCapacity, mStats = asSt,
     mUpdStats = arcSpec_modSt, mSnapshot = (\<lambda>now s. None),
     mPurge = arcSpec_Purge, mSetEvictionCallback = (\<lambda>b s. s\<lparr>asOnEvict := b\<rparr>)\<rparr>"

text \<open>Every key is in one list, once.\<close>

definition arc_wf :: "arcSpec \<Rightarrow> bool" where
  "arc_wf s \<longleftrightarrow> distinct (keys_of (arc_items s @ arc_ghosts s))"

text \<open>The sizes: at most \<open>capacity\<close> live entries, as many ghosts, and \<open>T1\<close> with its ghosts.\<close>

definition arc_sized :: "arcSpec \<Rightarrow> bool" where
  "arc_sized s \<longleftrightarrow> 0 < asCapacity s \<and> 0 \<le> asP s \<and> asP s \<le> asCapacity s \<and>
     arcSpec_len T1 s + arcSpec_len T2 s \<le> asCapacity s \<and>
     arcSpec_len T1 s + arcSpec_len B1 s \<le> asCapacity s \<and>
     arcSpec_len B1 s + arcSpec_len B2 s \<le> asCapacity s"

definition arcSpec_ok :: "arcSpec \<Rightarrow> bool" where
  "arcSpec_ok s \<longleftrightarrow> arc_wf s \<and> arc_sized s"

definition arcSpec_bytes :: "arcSpec \<Rightarrow> bool" where
  "arcSpec_bytes s \<longleftrightarrow> BytesStored (asSt s) = bytes_of (arc_items s)"

abbreviation arcSpec_live :: "arcSpec \<Rightarrow> key \<rightharpoonup> bytes \<times> Time" where
  "arcSpec_live s \<equiv> live_of (arc_items s)"

section \<open>Taking a key out and putting an item in\<close>

lemma live_of_insert:
  "itKey e \<notin> set (keys_of a) \<Longrightarrow> live_of (a @ e # b) = (live_of (a @ b))(itKey e \<mapsto> (itValue e, itExpires e))"
  by (induction a) (auto simp: fun_eq_iff)

lemma arc_wf_all: "arc_wf s \<longleftrightarrow> distinct (keys_of (asL s T1 @ asL s T2 @ asL s B1 @ asL s B2))"
  by (simp add: arc_wf_def)

lemma locate_None: "locate k (asL s) = None \<longleftrightarrow> k \<notin> set (keys_of (arc_items s @ arc_ghosts s))"
  by (auto simp: locate_def find_item_None [symmetric] split: option.splits)

lemma locate_Some: "locate k (asL s) = Some (t, e) \<Longrightarrow> find_item k (asL s t) = Some e"
  by (auto simp: locate_def split: option.splits)

lemma found_key: "find_item k es = Some e \<Longrightarrow> k \<in> set (keys_of es)"
  using find_item_None [of k es] by simp

lemma wf_apart:
  assumes "arc_wf s" and "k \<in> set (keys_of (asL s t))" and "t' \<noteq> t"
  shows "k \<notin> set (keys_of (asL s t'))"
  using assms by (cases t; cases t') (auto simp: arc_wf_def)

lemma drop_located:
  assumes w: "arc_wf s" and f: "find_item k (asL s t) = Some e"
  shows "asL (arcSpec_drop t k s) = (\<lambda>t'. drop_item k (asL s t'))"
proof
  fix t'
  show "asL (arcSpec_drop t k s) t' = drop_item k (asL s t')"
    using wf_apart [OF w found_key [OF f], of t'] by (cases "t' = t") (auto simp: arcSpec_drop_def)
qed

lemma find_live:
  assumes w: "arc_wf s" and f: "find_item k (asL s t) = Some e"
  shows "find_item k (arc_items s) = (if t = T1 \<or> t = T2 then Some e else None)"
    and "find_item k (arc_ghosts s) = (if t = T1 \<or> t = T2 then None else Some e)"
proof -
  have n: "t' \<noteq> t \<Longrightarrow> find_item k (asL s t') = None" for t'
    using wf_apart [OF w found_key [OF f], of t'] by (simp add: find_item_None)
  show "find_item k (arc_items s) = (if t = T1 \<or> t = T2 then Some e else None)"
    "find_item k (arc_ghosts s) = (if t = T1 \<or> t = T2 then None else Some e)"
    using n f by (cases t; simp add: find_item_append)+
qed

lemma find_last:
  assumes "arc_wf s" and "asL s t \<noteq> []"
  shows "find_item (itKey (last (asL s t))) (asL s t) = Some (last (asL s t))"
  using assms by (intro find_item_mem) (cases t; auto simp: arc_wf_def)+

lemma arcSpec_drop_sel [simp]:
  "asCapacity (arcSpec_drop t k s) = asCapacity s" "asP (arcSpec_drop t k s) = asP s"
  "asSt (arcSpec_drop t k s) = asSt s" "asOnEvict (arcSpec_drop t k s) = asOnEvict s"
  by (simp_all add: arcSpec_drop_def)

lemma arcSpec_push_sel [simp]:
  "asCapacity (arcSpec_push t e s) = asCapacity s" "asP (arcSpec_push t e s) = asP s"
  "asSt (arcSpec_push t e s) = asSt s" "asOnEvict (arcSpec_push t e s) = asOnEvict s"
  "asL (arcSpec_push t e s) = (asL s)(t := e # asL s t)"
  by (simp_all add: arcSpec_push_def)

lemma wf_drop [simp]: "arc_wf s \<Longrightarrow> find_item k (asL s t) = Some e \<Longrightarrow> arc_wf (arcSpec_drop t k s)"
  using distinct_keys_drop [of "arc_items s @ arc_ghosts s" k] by (simp add: arc_wf_def drop_located)

lemma wf_push: "arc_wf s \<Longrightarrow> itKey e \<notin> set (keys_of (arc_items s @ arc_ghosts s)) \<Longrightarrow> arc_wf (arcSpec_push t e s)"
  by (cases t) (auto simp: arc_wf_def)

lemma wf_modSt [simp]: "arc_wf (arcSpec_modSt f s) = arc_wf s"
  by (simp add: arc_wf_def)

text \<open>What a removal does to the lengths, the live values and their bytes.\<close>

lemma drop_effect:
  assumes w: "arc_wf s" and f: "find_item k (asL s t) = Some e"
  defines "s1 \<equiv> arcSpec_drop t k s"
  shows "arcSpec_len t' s1 = arcSpec_len t' s - (if t' = t then 1 else 0)"
    and "arcSpec_live s1 = (arcSpec_live s)(k := None)"
    and "bytes_of (arc_items s1) = bytes_of (arc_items s) - (if t = T1 \<or> t = T2 then blen (itValue e) else 0)"
    and "k \<notin> set (keys_of (arc_items s1 @ arc_ghosts s1))"
    and "set (asL s1 t') \<subseteq> set (asL s t')"
proof -
  have d: "distinct (keys_of (asL s t))" "distinct (keys_of (arc_items s))"
    using w by (cases t; auto simp: arc_wf_def)+
  show "arcSpec_len t' s1 = arcSpec_len t' s - (if t' = t then 1 else 0)"
    using length_drop_item [OF d(1) f] by (auto simp: s1_def arcSpec_drop_def)
  have L: "arc_items s1 = drop_item k (arc_items s)" "arc_ghosts s1 = drop_item k (arc_ghosts s)"
    by (simp_all add: s1_def drop_located [OF w f])
  show "arcSpec_live s1 = (arcSpec_live s)(k := None)" unfolding L by (rule live_of_drop)
  show "bytes_of (arc_items s1) = bytes_of (arc_items s) - (if t = T1 \<or> t = T2 then blen (itValue e) else 0)"
    unfolding L using bytes_of_drop [OF d(2), of k] find_live(1) [OF w f]
      find_item_None [of k "arc_items s"] drop_item_absent [of k "arc_items s"]
    by (auto simp del: drop_item_append drop_item_absent split: if_splits)
  show "k \<notin> set (keys_of (arc_items s1 @ arc_ghosts s1))" unfolding L by (auto simp: keys_of_drop)
  show "set (asL s1 t') \<subseteq> set (asL s t')" by (auto simp: s1_def drop_located [OF w f])
qed

section \<open>Making room\<close>

text \<open>
  What the steps that make room do: they take at most one live item \<open>ds\<close> out, they call back only
  for it, and everything else stays; ghosts may go.
\<close>

definition arc_sheds :: "arcSpec \<Rightarrow> evictCall list \<Rightarrow> arcSpec \<Rightarrow> item list \<Rightarrow> bool" where
  "arc_sheds s evs s1 ds \<longleftrightarrow> arc_wf s1 \<and> length ds \<le> 1 \<and> set ds \<subseteq> set (arc_items s) \<and>
     arcSpec_live s1 = (\<lambda>k. if k \<in> set (keys_of ds) then None else arcSpec_live s k) \<and>
     set evs \<subseteq> (\<lambda>e. (itKey e, itValue e)) ` set ds \<and>
     set (keys_of (arc_items s1 @ arc_ghosts s1)) \<subseteq> set (keys_of (arc_items s @ arc_ghosts s)) \<and>
     asCapacity s1 = asCapacity s \<and> asP s1 = asP s \<and> asOnEvict s1 = asOnEvict s \<and>
     (arcSpec_bytes s \<longrightarrow> arcSpec_bytes s1)"

lemma sheds_none: "arc_wf s \<Longrightarrow> arc_sheds s [] s []"
  by (simp add: arc_sheds_def)

lemma sheds_modSt:
  "(\<And>x. BytesStored (f x) = BytesStored x) \<Longrightarrow> arc_sheds s evs (arcSpec_modSt f s1) ds = arc_sheds s evs s1 ds"
  by (simp add: arc_sheds_def arcSpec_bytes_def)

lemma keys_sub: "set a \<subseteq> set b \<Longrightarrow> set (keys_of a) \<subseteq> set (keys_of b)"
  by (auto simp: keys_of_def)

lemma demote_effect:
  assumes w: "arc_wf s" and ne: "asL s t \<noteq> []" and t: "t = T1 \<or> t = T2" "g = B1 \<or> g = B2"
    and e: "arcSpec_demote t g s = (evs, s1)"
  shows "arc_sheds s evs s1 [last (asL s t)]"
    and "arcSpec_len t' s1 = arcSpec_len t' s - (if t' = t then 1 else 0) + (if t' = g then 1 else 0)"
proof -
  define x where "x = last (asL s t)"
  define s0 where "s0 = arcSpec_modSt (\<lambda>st. st\<lparr>BytesStored := BytesStored st - blen (itValue x)\<rparr>) s"
  have w0: "arc_wf s0" and f: "find_item (itKey x) (asL s0 t) = Some x"
    using find_last [OF w ne] w by (simp_all add: s0_def x_def)
  note d = drop_effect [OF w0 f]
  let ?s2 = "arcSpec_drop t (itKey x) s0"
  have s1: "s1 = arcSpec_push g (x\<lparr>itValue := []\<rparr>) ?s2"
    and evs: "evs = (if asOnEvict s \<and> itValue x \<noteq> [] then [(itKey x, itValue x)] else [])"
    using e ne by (auto simp: arcSpec_demote_def Let_def x_def s0_def)
  have tg: "t \<noteq> g" "g \<noteq> T1" "g \<noteq> T2" using t by auto
  have items: "arc_items s1 = arc_items ?s2" using tg by (simp add: s1)
  have x: "x \<in> set (arc_items s)" using t ne by (auto simp: x_def)
  have "arc_wf s1" unfolding s1 using d(4) by (intro wf_push wf_drop [OF w0 f]) simp
  moreover have "set (keys_of (arc_items s1 @ arc_ghosts s1)) \<subseteq> set (keys_of (arc_items s @ arc_ghosts s))"
  proof -
    have "set (keys_of (asL ?s2 u)) \<subseteq> set (keys_of (asL s u))" for u
      using d(5) [of u] by (intro keys_sub) (simp add: s0_def)
    then show ?thesis using x t by (cases g; auto simp: s1 keys_of_def)
  qed
  moreover have "arcSpec_live s1 = (arcSpec_live s)(itKey x := None)" unfolding items d(2) by (simp add: s0_def)
  moreover have "arcSpec_bytes s \<longrightarrow> arcSpec_bytes s1"
    using d(3) t unfolding arcSpec_bytes_def items by (auto simp: s1 s0_def)
  ultimately show "arc_sheds s evs s1 [last (asL s t)]"
    using x by (auto simp: arc_sheds_def x_def [symmetric] s1 s0_def evs)
  show "arcSpec_len t' s1 = arcSpec_len t' s - (if t' = t then 1 else 0) + (if t' = g then 1 else 0)"
    using d(1) [of t'] tg by (auto simp: s1 s0_def)
qed

lemma demote_ghosts:
  assumes "arcSpec_demote t g s = (evs, s1)" and "asL s t \<noteq> []" and "u \<noteq> t"
  shows "\<exists>a. length a \<le> 1 \<and> asL s1 u = a @ asL s u \<and> set (keys_of a) \<subseteq> {itKey (last (asL s t))}"
  using assms by (auto simp: arcSpec_demote_def Let_def arcSpec_drop_def)

lemma replace_effect:
  assumes w: "arc_wf s" and e: "arcSpec_replace b s = (evs, s1)"
  shows "\<exists>ds. arc_sheds s evs s1 ds"
    and "arcSpec_len T1 s1 + arcSpec_len B1 s1 = arcSpec_len T1 s + arcSpec_len B1 s"
    and "arcSpec_len T2 s1 + arcSpec_len B2 s1 = arcSpec_len T2 s + arcSpec_len B2 s"
    and "arcSpec_len T1 s1 + arcSpec_len T2 s1 = arcSpec_len T1 s + arcSpec_len T2 s - 1 \<or>
      arcSpec_len T2 s = 0 \<and> \<not> (arcSpec_len T1 s > 0 \<and>
        (arcSpec_len T1 s > asP s \<or> (b \<and> arcSpec_len T1 s = asP s))) \<and>
      (\<forall>t. arcSpec_len t s1 = arcSpec_len t s)"
    and "t = B1 \<or> t = B2 \<Longrightarrow> find_item k (asL s t) = Some x \<Longrightarrow> find_item k (asL s1 t) = Some x"
proof -
  obtain s2 where s1: "s1 = arcSpec_modSt (\<lambda>x. x\<lparr>Evictions := Evictions x + 1\<rparr>) s2"
    and c: "asL s T1 \<noteq> [] \<and> arcSpec_demote T1 B1 s = (evs, s2) \<or>
      asL s T2 \<noteq> [] \<and> arcSpec_demote T2 B2 s = (evs, s2) \<or>
      s2 = s \<and> evs = [] \<and> asL s T2 = [] \<and> \<not> (arcSpec_len T1 s > 0 \<and>
        (arcSpec_len T1 s > asP s \<or> (b \<and> arcSpec_len T1 s = asP s)))"
    using e by (auto simp: arcSpec_replace_def Let_def split: prod.splits if_splits)
  have m: "arc_sheds s evs s1 ds = arc_sheds s evs s2 ds" for ds
    unfolding s1 by (rule sheds_modSt) simp
  have keep: "find_item k (asL s2 t) = Some x"
    if d: "arcSpec_demote u g s = (evs, s2)" "asL s u \<noteq> []" "t \<noteq> u" "find_item k (asL s t) = Some x" for u g
  proof -
    obtain a where a: "asL s2 t = a @ asL s t" "set (keys_of a) \<subseteq> {itKey (last (asL s u))}"
      using demote_ghosts [OF d(1-3)] by blast
    have "itKey (last (asL s u)) \<noteq> k"
      using wf_apart [OF w, of "itKey (last (asL s u))" u t] d(2,3) found_key [OF d(4)] by (auto simp: keys_of_def)
    then have "find_item k a = None" using a(2) by (auto simp: find_item_None)
    with a(1) d(4) show ?thesis by (simp add: find_item_append)
  qed
  have "(\<exists>ds. arc_sheds s evs s2 ds) \<and>
    arcSpec_len T1 s2 + arcSpec_len B1 s2 = arcSpec_len T1 s + arcSpec_len B1 s \<and>
    arcSpec_len T2 s2 + arcSpec_len B2 s2 = arcSpec_len T2 s + arcSpec_len B2 s \<and>
    (arcSpec_len T1 s2 + arcSpec_len T2 s2 = arcSpec_len T1 s + arcSpec_len T2 s - 1 \<or>
      arcSpec_len T2 s = 0 \<and> \<not> (arcSpec_len T1 s > 0 \<and>
        (arcSpec_len T1 s > asP s \<or> (b \<and> arcSpec_len T1 s = asP s))) \<and>
      (\<forall>t. arcSpec_len t s2 = arcSpec_len t s)) \<and>
    ((t = B1 \<or> t = B2) \<and> find_item k (asL s t) = Some x \<longrightarrow> find_item k (asL s2 t) = Some x)"
    using c
  proof (elim disjE conjE)
    assume d: "asL s T1 \<noteq> []" "arcSpec_demote T1 B1 s = (evs, s2)"
    note e = demote_effect [OF w d(1) _ _ d(2)]
    show ?thesis using e(1) e(2) [of T1] e(2) [of T2] e(2) [of B1] e(2) [of B2] keep [OF d(2,1)] by auto
  next
    assume d: "asL s T2 \<noteq> []" "arcSpec_demote T2 B2 s = (evs, s2)"
    note e = demote_effect [OF w d(1) _ _ d(2)]
    show ?thesis using e(1) e(2) [of T1] e(2) [of T2] e(2) [of B1] e(2) [of B2] keep [OF d(2,1)] by auto
  next
    assume "s2 = s" "evs = []" "asL s T2 = []" "\<not> (arcSpec_len T1 s > 0 \<and>
        (arcSpec_len T1 s > asP s \<or> (b \<and> arcSpec_len T1 s = asP s)))"
    then show ?thesis using sheds_none [OF w] by auto
  qed
  then show "\<exists>ds. arc_sheds s evs s1 ds"
    and "arcSpec_len T1 s1 + arcSpec_len B1 s1 = arcSpec_len T1 s + arcSpec_len B1 s"
    and "arcSpec_len T2 s1 + arcSpec_len B2 s1 = arcSpec_len T2 s + arcSpec_len B2 s"
    and "arcSpec_len T1 s1 + arcSpec_len T2 s1 = arcSpec_len T1 s + arcSpec_len T2 s - 1 \<or>
      arcSpec_len T2 s = 0 \<and> \<not> (arcSpec_len T1 s > 0 \<and>
        (arcSpec_len T1 s > asP s \<or> (b \<and> arcSpec_len T1 s = asP s))) \<and>
      (\<forall>t. arcSpec_len t s1 = arcSpec_len t s)"
    and "t = B1 \<or> t = B2 \<Longrightarrow> find_item k (asL s t) = Some x \<Longrightarrow> find_item k (asL s1 t) = Some x"
    unfolding m unfolding s1 by auto
qed

lemma dropGhost_effect:
  assumes w: "arc_wf s" and g: "g = B1 \<or> g = B2"
  shows "arc_wf (arcSpec_dropGhost g s)" and "t \<noteq> g \<Longrightarrow> asL (arcSpec_dropGhost g s) t = asL s t"
    and "arcSpec_len g (arcSpec_dropGhost g s) = arcSpec_len g s - (if asL s g = [] then 0 else 1)"
    and "set (keys_of (asL (arcSpec_dropGhost g s) g)) \<subseteq> set (keys_of (asL s g))"
proof -
  note f = find_last [OF w, of g]
  show "arc_wf (arcSpec_dropGhost g s)" using w f by (simp add: arcSpec_dropGhost_def)
  show "t \<noteq> g \<Longrightarrow> asL (arcSpec_dropGhost g s) t = asL s t"
    by (simp add: arcSpec_dropGhost_def arcSpec_drop_def)
  show "arcSpec_len g (arcSpec_dropGhost g s) = arcSpec_len g s - (if asL s g = [] then 0 else 1)"
    using drop_effect(1) [OF w f] by (simp add: arcSpec_dropGhost_def)
  show "set (keys_of (asL (arcSpec_dropGhost g s) g)) \<subseteq> set (keys_of (asL s g))"
    using drop_effect(5) [OF w f, of g] by (intro keys_sub) (simp add: arcSpec_dropGhost_def)
qed

lemma sheds_after_ghosts:
  assumes "arc_sheds s1 evs s2 ds" and "asL s1 T1 = asL s T1" "asL s1 T2 = asL s T2"
    and "set (keys_of (arc_ghosts s1)) \<subseteq> set (keys_of (arc_ghosts s))"
    and "asCapacity s1 = asCapacity s" "asP s1 = asP s" "asOnEvict s1 = asOnEvict s" "asSt s1 = asSt s"
  shows "arc_sheds s evs s2 ds"
  using assms by (auto simp: arc_sheds_def arcSpec_bytes_def)

lemma dropGhost_frame [simp]:
  "asCapacity (arcSpec_dropGhost g s) = asCapacity s" "asP (arcSpec_dropGhost g s) = asP s"
  "asOnEvict (arcSpec_dropGhost g s) = asOnEvict s" "asSt (arcSpec_dropGhost g s) = asSt s"
  by (simp_all add: arcSpec_dropGhost_def)

lemma sheds_dropGhost:
  assumes w: "arc_wf s" and g: "g = B1 \<or> g = B2" and "arc_sheds (arcSpec_dropGhost g s) evs s2 ds"
  shows "arc_sheds s evs s2 ds"
  using assms(3)
proof (rule sheds_after_ghosts)
  note d = dropGhost_effect [OF w g]
  show "asL (arcSpec_dropGhost g s) T1 = asL s T1" "asL (arcSpec_dropGhost g s) T2 = asL s T2"
    using d(2) g by auto
  show "set (keys_of (arc_ghosts (arcSpec_dropGhost g s))) \<subseteq> set (keys_of (arc_ghosts s))"
    using g d(2) d(4) by auto
qed simp_all

lemma evictT1_effect:
  assumes w: "arc_wf s" and e: "arcSpec_evictT1 s = (evs, s1)" and ne: "asL s T1 \<noteq> []"
  shows "\<exists>ds. arc_sheds s evs s1 ds"
    and "arcSpec_len t s1 = arcSpec_len t s - (if t = T1 then 1 else 0)"
proof -
  define x where "x = last (asL s T1)"
  define f where "f = (\<lambda>st::Stats. st\<lparr>BytesStored := BytesStored st - blen (itValue x), Evictions := Evictions st + 1\<rparr>)"
  have w0: "arc_wf (arcSpec_modSt f s)" and fi: "find_item (itKey x) (asL (arcSpec_modSt f s) T1) = Some x"
    using find_last [OF w ne] w by (simp_all add: x_def)
  note d = drop_effect [OF w0 fi]
  have s1: "s1 = arcSpec_drop T1 (itKey x) (arcSpec_modSt f s)"
    and evs: "evs = (if asOnEvict s then [(itKey x, itValue x)] else [])"
    using e ne by (auto simp: arcSpec_evictT1_def Let_def x_def f_def)
  show "arcSpec_len t s1 = arcSpec_len t s - (if t = T1 then 1 else 0)" using d(1) [of t] by (simp add: s1)
  have "set (keys_of (arc_items s1 @ arc_ghosts s1)) \<subseteq> set (keys_of (arc_items s @ arc_ghosts s))"
    using d(5) by (intro keys_sub) (fastforce simp: s1)
  moreover have "arcSpec_live s1 = (arcSpec_live s)(itKey x := None)" unfolding s1 d(2) by simp
  moreover have "arcSpec_bytes s \<longrightarrow> arcSpec_bytes s1"
    using d(3) by (simp add: arcSpec_bytes_def s1 f_def)
  moreover have "arc_wf s1" unfolding s1 by (rule wf_drop [OF w0 fi])
  moreover have "x \<in> set (arc_items s)" using ne by (simp add: x_def)
  ultimately have "arc_sheds s evs s1 [x]" by (auto simp: arc_sheds_def s1 evs)
  then show "\<exists>ds. arc_sheds s evs s1 ds" by blast
qed

lemma makeRoom_effect:
  assumes w: "arc_wf s" and z: "arc_sized s" and e: "arcSpec_makeRoom s = (evs, s1)"
  shows "(\<exists>ds. arc_sheds s evs s1 ds) \<and> arcSpec_len T1 s1 + arcSpec_len T2 s1 < asCapacity s \<and>
    arcSpec_len T1 s1 + arcSpec_len B1 s1 < asCapacity s \<and>
    arcSpec_len B1 s1 + arcSpec_len B2 s1 \<le> asCapacity s"
proof -
  note z' = z [unfolded arc_sized_def]
  consider (a) "arcSpec_len T1 s + arcSpec_len B1 s = asCapacity s" "arcSpec_len T1 s < asCapacity s"
      "arcSpec_replace False (arcSpec_dropGhost B1 s) = (evs, s1)"
    | (b) "arcSpec_len T1 s + arcSpec_len B1 s = asCapacity s" "\<not> arcSpec_len T1 s < asCapacity s"
      "arcSpec_evictT1 s = (evs, s1)"
    | (c) "arcSpec_len T1 s + arcSpec_len B1 s \<noteq> asCapacity s" "arcSpec_len T1 s + arcSpec_len T2 s \<ge> asCapacity s"
    | (d) "arcSpec_len T1 s + arcSpec_len B1 s \<noteq> asCapacity s" "\<not> arcSpec_len T1 s + arcSpec_len T2 s \<ge> asCapacity s"
      "evs = []" "s1 = s"
    using e by (auto simp: arcSpec_makeRoom_def split: if_splits)
  then show ?thesis
  proof cases
    case a
    note g = dropGhost_effect [OF w, of B1, simplified]
    note r = replace_effect [OF g(1) a(3)]
    have "asL s B1 \<noteq> []" using a(1,2) by auto
    then show ?thesis
      using r(1) sheds_dropGhost [OF w, of B1 evs s1] r(2-4) g(2) [of T1] g(2) [of T2] g(2) [of B2] g(3) a z'
      by auto
  next
    case b
    have ne: "asL s T1 \<noteq> []" using b(2) z' by auto
    note r = evictT1_effect [OF w b(3) ne]
    show ?thesis using r(1) r(2) [of T1] r(2) [of T2] r(2) [of B1] r(2) [of B2] b z' by auto
  next
    case c
    define s0 where "s0 = (if arcSpec_len T1 s + arcSpec_len T2 s + arcSpec_len B1 s + arcSpec_len B2 s
                      \<ge> 2 * asCapacity s then arcSpec_dropGhost B2 s else s)"
    note g = dropGhost_effect [OF w, of B2, simplified]
    have l: "arcSpec_len T1 s0 = arcSpec_len T1 s" "arcSpec_len T2 s0 = arcSpec_len T2 s"
        "arcSpec_len B1 s0 = arcSpec_len B1 s"
      using g(2) [of T1] g(2) [of T2] g(2) [of B1] by (simp_all add: s0_def)
    have w0: "arc_wf s0" and s0: "arc_sheds s0 evs s1 ds \<Longrightarrow> arc_sheds s evs s1 ds" "asP s0 = asP s"
        "asCapacity s0 = asCapacity s" for ds
      using w g(1) sheds_dropGhost [OF w, of B2] by (auto simp: s0_def split: if_splits)
    have b2: "arcSpec_len B1 s + arcSpec_len B2 s0 < asCapacity s"
      using c z' g(3) by (cases "asL s B2 = []") (auto simp: s0_def)
    have "arcSpec_replace False s0 = (evs, s1)"
      using e c l s0 by (auto simp: arcSpec_makeRoom_def Let_def s0_def [symmetric] split: if_splits)
    note r = replace_effect [OF w0 this]
    show ?thesis using r(1) s0 r(2-4) l b2 c z' by auto
  next
    case d
    with sheds_none [OF w] z' show ?thesis by auto
  qed
qed

section \<open>The laws\<close>

text \<open>A key that moves to the front of \<open>T2\<close>, with the item it now has.\<close>

lemma move_effect:
  assumes w: "arc_wf s" and f: "find_item k (asL s t) = Some e" and k: "itKey e' = k"
  defines "s1 \<equiv> arcSpec_push T2 e' (arcSpec_drop t k s)"
  shows "arc_wf s1" and "arcSpec_live s1 = (arcSpec_live s)(k \<mapsto> (itValue e', itExpires e'))"
    and "bytes_of (arc_items s1) = bytes_of (arc_items s) + blen (itValue e') -
      (if t = T1 \<or> t = T2 then blen (itValue e) else 0)"
    and "arcSpec_len u s1 = arcSpec_len u s - (if u = t then 1 else 0) + (if u = T2 then 1 else 0)"
proof -
  note d = drop_effect [OF w f]
  show "arc_wf s1" unfolding s1_def using d(4) k by (intro wf_push wf_drop [OF w f]) simp
  have "arcSpec_live s1 = (arcSpec_live (arcSpec_drop t k s))(k \<mapsto> (itValue e', itExpires e'))"
    using d(4) k by (simp add: s1_def live_of_insert)
  then show "arcSpec_live s1 = (arcSpec_live s)(k \<mapsto> (itValue e', itExpires e'))" unfolding d(2) by simp
  show "bytes_of (arc_items s1) = bytes_of (arc_items s) + blen (itValue e') -
      (if t = T1 \<or> t = T2 then blen (itValue e) else 0)"
    using d(3) by (simp add: s1_def algebra_simps)
  show "arcSpec_len u s1 = arcSpec_len u s - (if u = t then 1 else 0) + (if u = T2 then 1 else 0)"
    using d(1) [of u] by (auto simp: s1_def)
qed

lemma live_find:
  assumes "arc_wf s"
  shows "locate k (asL s) = None \<Longrightarrow> arcSpec_live s k = None"
    and "locate k (asL s) = Some (t, e) \<Longrightarrow>
      arcSpec_live s k = (if t = T1 \<or> t = T2 then Some (itValue e, itExpires e) else None)"
proof -
  show "arcSpec_live s k = None" if "locate k (asL s) = None"
    using that unfolding locate_None live_of_None by simp
  show "arcSpec_live s k = (if t = T1 \<or> t = T2 then Some (itValue e, itExpires e) else None)"
    if "locate k (asL s) = Some (t, e)"
    using find_live(1) [OF assms locate_Some [OF that]] by (simp add: live_of_def del: live_of_simps)
qed

lemma sized_modSt [simp]: "arc_sized (arcSpec_modSt f s) = arc_sized s"
  by (simp add: arc_sized_def)

lemma sized_drop:
  assumes "arc_wf s" and "find_item k (asL s t) = Some e" and "arc_sized s"
  shows "arc_sized (arcSpec_drop t k s)"
  using drop_effect(1) [OF assms(1,2)] assms(3) by (auto simp: arc_sized_def)

lemma sized_move:
  assumes "arc_wf s" and "find_item k (asL s t) = Some e" and "itKey e' = k" and "arc_sized s"
    and "t = T1 \<or> t = T2"
  shows "arc_sized (arcSpec_push T2 e' (arcSpec_drop t k s))"
  using move_effect(4) [OF assms(1-3), of T1] move_effect(4) [OF assms(1-3), of T2]
    move_effect(4) [OF assms(1-3), of B1] move_effect(4) [OF assms(1-3), of B2] assms(4,5)
  by (auto simp: arc_sized_def)

lemma arcSpec_Get_law:
  assumes ok: "arcSpec_ok s" and g: "arcSpec_Get now k s = (r, s')"
  shows "arcSpec_ok s' \<and> r = look now (arcSpec_live s k) \<and>
    arcSpec_live s' = (arcSpec_live s)(k := keep now (arcSpec_live s k)) \<and>
    (arcSpec_bytes s \<longrightarrow> arcSpec_bytes s')"
proof (cases "locate k (asL s)")
  case None
  with ok g live_find(1) [of s k] show ?thesis
    by (auto simp: arcSpec_Get_def arcSpec_ok_def arcSpec_bytes_def simp del: live_of_simps)
next
  case (Some p)
  obtain t e where te: "locate k (asL s) = Some (t, e)" using Some by (cases p) auto
  have w: "arc_wf s" "arc_sized s" using ok by (auto simp: arcSpec_ok_def)
  note f = locate_Some [OF te] and l = live_find(2) [OF w(1) te]
  consider (ghost) "t = B1 \<or> t = B2" | (old) "t = T1 \<or> t = T2" "expired now (itExpires e)"
    | (hit) "t = T1 \<or> t = T2" "\<not> expired now (itExpires e)" by (cases t) auto
  then show ?thesis
  proof cases
    case ghost
    with g te l ok show ?thesis by (auto simp: arcSpec_Get_def arcSpec_ok_def arcSpec_bytes_def)
  next
    case old
    let ?f = "\<lambda>x::Stats. x\<lparr>BytesStored := BytesStored x - blen (itValue e), Misses := Misses x + 1, TTLExpiries := TTLExpiries x + 1\<rparr>"
    have fm: "arc_wf (arcSpec_modSt ?f s)" "find_item k (asL (arcSpec_modSt ?f s) t) = Some e" using w f by simp_all
    have "r = None" "s' = arcSpec_drop t k (arcSpec_modSt ?f s)" using g te old by (auto simp: arcSpec_Get_def)
    moreover have "arc_sized (arcSpec_drop t k (arcSpec_modSt ?f s))" using sized_drop [OF fm] w by simp
    ultimately show ?thesis
      using drop_effect(2,3) [OF fm] wf_drop [OF fm] l old by (simp add: arcSpec_ok_def arcSpec_bytes_def)
  next
    case hit
    let ?f = "\<lambda>x::Stats. x\<lparr>Hits := Hits x + 1\<rparr>" and ?e = "e\<lparr>itHits := itHits e + 1\<rparr>"
    have fm: "arc_wf (arcSpec_modSt ?f s)" "find_item k (asL (arcSpec_modSt ?f s) t) = Some e" "itKey ?e = k"
      using w f find_item_Some [OF f] by simp_all
    note m = move_effect [OF fm]
    have s': "r = Some (itValue e)" "s' = arcSpec_push T2 ?e (arcSpec_drop t k (arcSpec_modSt ?f s))"
      using g te hit by (auto simp: arcSpec_Get_def)
    have "arc_sized s'" unfolding s' using sized_move [OF fm] w hit by simp
    moreover have "arcSpec_live s' = arcSpec_live s" unfolding s' m(2) using l hit by (simp add: fun_upd_idem)
    moreover have "arcSpec_bytes s \<longrightarrow> arcSpec_bytes s'"
      using m(3) hit unfolding arcSpec_bytes_def s' by (auto simp del: bytes_of_simps)
    ultimately show ?thesis using m(1) s' l hit by (simp add: arcSpec_ok_def fun_upd_idem)
  qed
qed

lemma arcSpec_Peek_law:
  assumes ok: "arcSpec_ok s" and g: "arcSpec_Peek now k s = (r, s')"
  shows "arcSpec_ok s' \<and> r = look now (arcSpec_live s k) \<and>
    arcSpec_live s' = (arcSpec_live s)(k := keep now (arcSpec_live s k)) \<and>
    (arcSpec_bytes s \<longrightarrow> arcSpec_bytes s')"
proof (cases "locate k (asL s)")
  case None
  with ok g live_find(1) [of s k] show ?thesis
    by (auto simp: arcSpec_Peek_def arcSpec_ok_def simp del: live_of_simps)
next
  case (Some p)
  obtain t e where te: "locate k (asL s) = Some (t, e)" using Some by (cases p) auto
  have w: "arc_wf s" "arc_sized s" using ok by (auto simp: arcSpec_ok_def)
  note f = locate_Some [OF te] and l = live_find(2) [OF w(1) te]
  show ?thesis
  proof (cases "(t = T1 \<or> t = T2) \<and> expired now (itExpires e)")
    case True
    let ?f = "\<lambda>x::Stats. x\<lparr>BytesStored := BytesStored x - blen (itValue e), TTLExpiries := TTLExpiries x + 1\<rparr>"
    have fm: "arc_wf (arcSpec_modSt ?f s)" "find_item k (asL (arcSpec_modSt ?f s) t) = Some e" using w f by simp_all
    have "r = None" "s' = arcSpec_drop t k (arcSpec_modSt ?f s)" using g te True by (auto simp: arcSpec_Peek_def)
    moreover have "arc_sized (arcSpec_drop t k (arcSpec_modSt ?f s))" using sized_drop [OF fm] w by simp
    ultimately show ?thesis
      using drop_effect(2,3) [OF fm] wf_drop [OF fm] l True by (simp add: arcSpec_ok_def arcSpec_bytes_def)
  next
    case False
    then have "s' = s" "r = (if t = T1 \<or> t = T2 then Some (itValue e) else None)"
      using g te by (cases t; auto simp: arcSpec_Peek_def)+
    with False ok l show ?thesis by (auto simp: fun_upd_idem)
  qed
qed

lemma arcSpec_Delete_law:
  assumes ok: "arcSpec_ok s" and g: "arcSpec_Delete k s = (r, s')"
  shows "arcSpec_ok s' \<and> arcSpec_live s' = (arcSpec_live s)(k := None) \<and>
    (arcSpec_live s k \<noteq> None \<longrightarrow> r) \<and> (arcSpec_bytes s \<longrightarrow> arcSpec_bytes s')"
proof (cases "locate k (asL s)")
  case None
  with ok g live_find(1) [of s k] show ?thesis
    by (auto simp: arcSpec_Delete_def arcSpec_ok_def fun_upd_idem simp del: live_of_simps)
next
  case (Some p)
  obtain t e where te: "locate k (asL s) = Some (t, e)" using Some by (cases p) auto
  have w: "arc_wf s" "arc_sized s" using ok by (auto simp: arcSpec_ok_def)
  let ?f = "\<lambda>x::Stats. x\<lparr>BytesStored := BytesStored x -
      (if t = T1 \<or> t = T2 then blen (itValue e) else 0), Deletes := Deletes x + 1\<rparr>"
  have fm: "arc_wf (arcSpec_modSt ?f s)" "find_item k (asL (arcSpec_modSt ?f s) t) = Some e"
    using w locate_Some [OF te] by simp_all
  have "r" "s' = arcSpec_drop t k (arcSpec_modSt ?f s)" using g te by (auto simp: arcSpec_Delete_def)
  moreover have "arc_sized (arcSpec_drop t k (arcSpec_modSt ?f s))" using sized_drop [OF fm] w by simp
  ultimately show ?thesis
    using drop_effect(2,3) [OF fm] wf_drop [OF fm] by (simp add: arcSpec_ok_def arcSpec_bytes_def)
qed

text \<open>The adaptation of \<open>p\<close> stays within the capacity.\<close>

lemma P_effect:
  assumes "arc_sized s"
  shows "arc_sized (arcSpec_growP s)" and "arc_sized (arcSpec_shrinkP s)"
proof -
  have d: "0 \<le> arcSpec_len B2 s div arcSpec_len B1 s" "0 \<le> arcSpec_len B1 s div arcSpec_len B2 s"
    by (simp_all add: pos_imp_zdiv_nonneg_iff div_int_pos_iff)
  show "arc_sized (arcSpec_growP s)" "arc_sized (arcSpec_shrinkP s)"
    using assms d by (auto simp: arc_sized_def arcSpec_growP_def arcSpec_shrinkP_def)
qed

lemma P_frame [simp]:
  "asL (arcSpec_growP s) = asL s" "asL (arcSpec_shrinkP s) = asL s"
  "asSt (arcSpec_growP s) = asSt s" "asSt (arcSpec_shrinkP s) = asSt s"
  "asOnEvict (arcSpec_growP s) = asOnEvict s" "asOnEvict (arcSpec_shrinkP s) = asOnEvict s"
  "asCapacity (arcSpec_growP s) = asCapacity s" "asCapacity (arcSpec_shrinkP s) = asCapacity s"
  by (simp_all add: arcSpec_growP_def arcSpec_shrinkP_def)

text \<open>
  What a \<open>Set\<close> does: it takes out at most one other live key, stores the value and calls back
  only for the key it took out.
\<close>

definition arc_sets :: "key \<Rightarrow> bytes \<Rightarrow> Time \<Rightarrow> arcSpec \<Rightarrow> evictCall list \<Rightarrow> arcSpec \<Rightarrow> item list \<Rightarrow> bool" where
  "arc_sets k v x s evs s' ds \<longleftrightarrow> length ds \<le> 1 \<and> set ds \<subseteq> set (arc_items s) \<and> k \<notin> set (keys_of ds) \<and>
     arcSpec_live s' = (\<lambda>k'. if k' \<in> set (keys_of ds) then None else arcSpec_live s k')(k \<mapsto> (v, x)) \<and>
     set evs \<subseteq> (\<lambda>e. (itKey e, itValue e)) ` set ds"

lemma ghost_hit:
  assumes w: "arc_wf s" and z: "arc_sized s" and t: "t = B1 \<or> t = B2" and f: "find_item k (asL s t) = Some e"
    and e: "arcSpec_replace (t = B2) s = (evs, s1)"
  shows "arcSpec_ok (arcSpec_store t e v x s1) \<and> (\<exists>ds. arc_sets k v x s evs (arcSpec_store t e v x s1) ds) \<and>
    (arcSpec_bytes s \<longrightarrow> arcSpec_bytes (arcSpec_store t e v x s1))"
proof -
  note r = replace_effect [OF w e]
  obtain ds where ds: "arc_sheds s evs s1 ds" using r(1) by blast
  note sh = ds [unfolded arc_sheds_def]
  let ?f = "\<lambda>y::Stats. y\<lparr>BytesStored := BytesStored y + (blen v - (if t = T1 \<or> t = T2 then blen (itValue e) else 0)),
      Sets := Sets y + 1\<rparr>"
  let ?s = "arcSpec_modSt ?f s1" and ?e = "e\<lparr>itValue := v, itExpires := x\<rparr>"
  have k: "itKey e = k" using find_item_Some [OF f] by simp
  have fm: "arc_wf ?s" "find_item k (asL ?s t) = Some e" "itKey ?e = k" using sh r(5) [OF t f] k by auto
  note m = move_effect [OF fm]
  have s': "arcSpec_store t e v x s1 = arcSpec_push T2 ?e (arcSpec_drop t k ?s)" by (simp add: arcSpec_store_def k)
  have p: "arcSpec_len t s \<ge> 1" using f by (cases "asL s t") auto
  have "arc_sized (arcSpec_store t e v x s1)"
  proof -
    let ?s' = "arcSpec_store t e v x s1"
    have "arcSpec_len T1 ?s' = arcSpec_len T1 s1" "arcSpec_len T2 ?s' = arcSpec_len T2 s1 + 1"
      "arcSpec_len B1 ?s' = arcSpec_len B1 s1 - (if t = B1 then 1 else 0)"
      "arcSpec_len B2 ?s' = arcSpec_len B2 s1 - (if t = B2 then 1 else 0)"
      using m(4) [of T1] m(4) [of T2] m(4) [of B1] m(4) [of B2] t unfolding s' by auto
    moreover have "asP ?s' = asP s" "asCapacity ?s' = asCapacity s" using sh by (simp_all add: s')
    moreover have "arcSpec_len T1 s1 + arcSpec_len T2 s1 < asCapacity s"
    proof (rule disjE [OF r(4)])
      assume "arcSpec_len T1 s1 + arcSpec_len T2 s1 = arcSpec_len T1 s + arcSpec_len T2 s - 1"
      with z show ?thesis by (simp add: arc_sized_def)
    next
      assume n: "arcSpec_len T2 s = 0 \<and> \<not> (arcSpec_len T1 s > 0 \<and> (arcSpec_len T1 s > asP s \<or>
        (t = B2 \<and> arcSpec_len T1 s = asP s))) \<and> (\<forall>t. arcSpec_len t s1 = arcSpec_len t s)"
      with z p t show ?thesis by (auto simp: arc_sized_def)
    qed
    moreover have "arcSpec_len T1 s1 + arcSpec_len B1 s1 \<le> asCapacity s"
      "arcSpec_len B1 s1 + arcSpec_len B2 s1 \<le> asCapacity s + 1"
      using z r(2-4) by (auto simp: arc_sized_def)
    ultimately show ?thesis using z t unfolding arc_sized_def by auto
  qed
  moreover have "k \<notin> set (keys_of ds)"
  proof -
    have "k \<notin> set (keys_of (arc_items s))" using find_live(1) [OF w f] t
      unfolding find_item_None [of k "arc_items s", symmetric] by auto
    with sh show ?thesis using keys_sub [of ds "arc_items s"] by blast
  qed
  ultimately show ?thesis
    using m(1-3) sh t by (auto simp: s' arc_sets_def arcSpec_ok_def arcSpec_bytes_def simp del: live_of_simps)
qed

lemma arcSpec_Set_law:
  assumes ok: "arcSpec_ok s" and g: "arcSpec_Set now k v ttl s = (err, evs, s')"
  shows "arcSpec_ok s' \<and> err = None \<and> (\<exists>ds. arc_sets k v (expiryOf now ttl) s evs s' ds) \<and>
    (arcSpec_bytes s \<longrightarrow> arcSpec_bytes s')"
proof (cases "locate k (asL s)")
  case None
  have w: "arc_wf s" "arc_sized s" using ok by (auto simp: arcSpec_ok_def)
  obtain s1 where e: "arcSpec_makeRoom s = (evs, s1)" using g None by (auto simp: arcSpec_Set_def split: prod.splits)
  note r = makeRoom_effect [OF w e]
  then obtain ds where ds: "arc_sheds s evs s1 ds" by blast
  note sh = ds [unfolded arc_sheds_def]
  let ?x = "\<lparr>itKey = k, itValue = v, itExpires = expiryOf now ttl, itCreated = now, itHits = 0\<rparr>"
  let ?s = "arcSpec_modSt (\<lambda>x. x\<lparr>Sets := Sets x + 1, BytesStored := BytesStored x + blen v\<rparr>) s1"
  have s': "err = None" "s' = arcSpec_push T1 ?x ?s" using g None e by (auto simp: arcSpec_Set_def)
  have k: "k \<notin> set (keys_of (arc_items s @ arc_ghosts s))" using None unfolding locate_None .
  then have k1: "k \<notin> set (keys_of (arc_items s1 @ arc_ghosts s1))" using sh by auto
  have "k \<notin> set (keys_of ds)" using k sh keys_sub [of ds "arc_items s"] by auto
  moreover have "arc_wf s'" unfolding s' using sh k1 by (intro wf_push) auto
  moreover have "arc_sized s'" using r w sh by (auto simp: arc_sized_def s')
  moreover have "arcSpec_live s' = (arcSpec_live s1)(k \<mapsto> (v, expiryOf now ttl))"
    by (auto simp: s' fun_eq_iff)
  moreover have "arcSpec_bytes s1 \<longrightarrow> arcSpec_bytes s'" by (auto simp: arcSpec_bytes_def s')
  ultimately show ?thesis using sh s'(1) by (auto simp: arc_sets_def arcSpec_ok_def)
next
  case (Some p)
  obtain t e where te: "locate k (asL s) = Some (t, e)" using Some by (cases p) auto
  have w: "arc_wf s" "arc_sized s" using ok by (auto simp: arcSpec_ok_def)
  note f = locate_Some [OF te]
  show ?thesis
  proof (cases "t = T1 \<or> t = T2")
    case True
    let ?f = "\<lambda>y::Stats. y\<lparr>BytesStored := BytesStored y + (blen v - blen (itValue e)), Sets := Sets y + 1\<rparr>"
    let ?e = "e\<lparr>itValue := v, itExpires := expiryOf now ttl\<rparr>"
    have k: "itKey e = k" using find_item_Some [OF f] by simp
    have fm: "arc_wf (arcSpec_modSt ?f s)" "find_item k (asL (arcSpec_modSt ?f s) t) = Some e" "itKey ?e = k"
      using w f k by simp_all
    note m = move_effect [OF fm]
    have s': "err = None" "evs = []" "s' = arcSpec_push T2 ?e (arcSpec_drop t k (arcSpec_modSt ?f s))"
      using g te True k by (auto simp: arcSpec_Set_def arcSpec_store_def)
    have "arc_sized s'" unfolding s' using sized_move [OF fm] w True by simp
    moreover have "arc_sets k v (expiryOf now ttl) s evs s' []" using m(2) by (simp add: arc_sets_def s')
    moreover have "arcSpec_bytes s \<longrightarrow> arcSpec_bytes s'"
      using m(3) True unfolding arcSpec_bytes_def s' by (auto simp del: bytes_of_simps)
    ultimately show ?thesis using m(1) s' by (auto simp: arcSpec_ok_def)
  next
    case False
    then have t: "t = B1 \<or> t = B2" by (cases t) auto
    define s0 where "s0 = (if t = B1 then arcSpec_growP s else arcSpec_shrinkP s)"
    have s0: "arc_wf s0" "arc_sized s0" "find_item k (asL s0 t) = Some e" "arcSpec_live s0 = arcSpec_live s"
        "arc_items s0 = arc_items s" "arcSpec_bytes s0 = arcSpec_bytes s"
      using w f P_effect [OF w(2)] by (auto simp: s0_def arc_wf_def arcSpec_bytes_def)
    obtain s1 where e: "arcSpec_replace (t = B2) s0 = (evs, s1)" and s': "err = None"
        "s' = arcSpec_store t e v (expiryOf now ttl) s1"
      using g te t by (auto simp: arcSpec_Set_def s0_def split: prod.splits)
    have "arc_sets k v x s0 evs s' ds = arc_sets k v x s evs s' ds" for x ds by (simp only: arc_sets_def s0(5))
    with ghost_hit [OF s0(1,2) t s0(3) e, of v "expiryOf now ttl"] s' s0(6) show ?thesis by simp
  qed
qed

section \<open>Interpretations\<close>

lemmas arcSpec_sel = arcSpec_cache_def

lemma sets_law:
  assumes ok: "arcSpec_ok s" and ds: "arc_sets k v x s evs s' ds"
  shows "arcSpec_live s' k = Some (v, x)"
    and "\<forall>k'. k' \<noteq> k \<longrightarrow> arcSpec_live s' k' = arcSpec_live s k' \<or> arcSpec_live s' k' = None"
    and "\<forall>(k', v') \<in> set evs. k' \<noteq> k \<and> arcSpec_live s' k' = None \<and> (\<exists>e. arcSpec_live s k' = Some (v', e))"
proof -
  note d = ds [unfolded arc_sets_def]
  show "arcSpec_live s' k = Some (v, x)"
    "\<forall>k'. k' \<noteq> k \<longrightarrow> arcSpec_live s' k' = arcSpec_live s k' \<or> arcSpec_live s' k' = None"
    using d by simp_all
  show "\<forall>(k', v') \<in> set evs. k' \<noteq> k \<and> arcSpec_live s' k' = None \<and> (\<exists>e. arcSpec_live s k' = Some (v', e))"
  proof (intro ballI, clarify)
    fix k' v' assume "(k', v') \<in> set evs"
    with d obtain e where e: "e \<in> set ds" "k' = itKey e" "v' = itValue e" by auto
    then have "k' \<in> set (keys_of ds)" by (auto simp: keys_of_def)
    moreover have "find_item k' (arc_items s) = Some e"
      using e d ok unfolding e(2) by (intro find_item_mem) (auto simp: arcSpec_ok_def arc_wf_def)
    ultimately show "k' \<noteq> k \<and> arcSpec_live s' k' = None \<and> (\<exists>e. arcSpec_live s k' = Some (v', e))"
      using d e(3) live_of_find(2) by auto
  qed
qed

lemma arcSpec_Purge_law: "arcSpec_ok s \<Longrightarrow> arcSpec_ok (arcSpec_Purge s)" "arcSpec_live (arcSpec_Purge s) = Map.empty"
    "arcSpec_bytes (arcSpec_Purge s)"
  by (auto simp: arcSpec_Purge_def arcSpec_ok_def arc_wf_def arc_sized_def arcSpec_bytes_def newStats_def)

lemma arcSpec_ok_frame [simp]:
  "arcSpec_ok (arcSpec_modSt f s) = arcSpec_ok s" "arcSpec_ok (s\<lparr>asOnEvict := b\<rparr>) = arcSpec_ok s"
  "arcSpec_bytes (s\<lparr>asOnEvict := b\<rparr>) = arcSpec_bytes s"
  by (simp_all add: arcSpec_ok_def arc_wf_def arc_sized_def arcSpec_bytes_def)

lemma arcSpec_ok_D:
  assumes "arcSpec_ok s"
  shows "distinct (keys_of (arc_items s))" and "int (length (arc_items s)) \<le> asCapacity s"
  using assms by (auto simp: arcSpec_ok_def arc_wf_def arc_sized_def)

interpretation arcSpec: bounded_cache arcSpec_cache arcSpec_ok "\<lambda>s. live_of (asL s T1 @ asL s T2)"
proof
  fix c c' now k v ttl err evs
  assume ok: "arcSpec_ok c" and "mSet arcSpec_cache now k v ttl c = (err, evs, c')"
  then have g: "arcSpec_Set now k v ttl c = (err, evs, c')" by (simp add: arcSpec_sel)
  from arcSpec_Set_law [OF ok g] obtain ds where
    l: "arcSpec_ok c'" "err = None" and ds: "arc_sets k v (expiryOf now ttl) c evs c' ds" by blast
  from l sets_law [OF ok ds]
  show "arcSpec_ok c' \<and> err = None \<and> arcSpec_live c' k = Some (v, expiryOf now ttl) \<and>
      (\<forall>k'. k' \<noteq> k \<longrightarrow> arcSpec_live c' k' = arcSpec_live c k' \<or> arcSpec_live c' k' = None) \<and>
      (\<forall>(k', v') \<in> set evs. k' \<noteq> k \<and> arcSpec_live c' k' = None \<and> (\<exists>e. arcSpec_live c k' = Some (v', e)))"
    by (intro conjI)
next
  fix c now assume "arcSpec_ok c"
  note d = arcSpec_ok_D(1) [OF this]
  have "distinct (keys_of (filter (\<lambda>e. unexpired now (itExpires e)) (arc_items c)))"
    using d unfolding keys_of_def by (rule distinct_map_filter)
  with live_of_keys [OF d, of now]
  show "\<exists>ks. mKeys arcSpec_cache now c = Some ks \<and> distinct ks \<and>
      set ks = {k. \<exists>v e. arcSpec_live c k = Some (v, e) \<and> unexpired now e}"
    by (simp add: arcSpec_sel)
next
  fix c assume "arcSpec_ok c"
  note d = arcSpec_ok_D(1) [OF this]
  show "finite (dom (arcSpec_live c)) \<and> mLen arcSpec_cache c = int (card (dom (arcSpec_live c)))"
    using card_dom_live [OF d] by (simp add: arcSpec_sel dom_live_of)
next
  fix c assume "arcSpec_ok c"
  from arcSpec_ok_D(2) [OF this] show "mLen arcSpec_cache c \<le> mCapacity arcSpec_cache c"
    by (simp add: arcSpec_sel)
qed (auto simp: arcSpec_sel arcSpec_Purge_law dest: arcSpec_Get_law arcSpec_Peek_law arcSpec_Delete_law)

definition arc_live :: "ARCCache \<Rightarrow> key \<rightharpoonup> bytes \<times> Time" where
  "arc_live c k =
     (case map_of (acItemMap c) k of
        None \<Rightarrow> None
      | Some n \<Rightarrow> if anList (acHeap c n) = T1 \<or> anList (acHeap c n) = T2
                  then Some (anValue (acHeap c n), anExpiresAt (acHeap c n)) else None)"

lemma arc_sim_view:
  assumes "arc_sim c s"
  shows "acSt c = asSt s" and "acCapacity c = asCapacity s" and "acP c = asP s"
    and "arc_sim (c\<lparr>acOnEvict := b\<rparr>) (s\<lparr>asOnEvict := b\<rparr>)"
    and "arc_sim (arc_modSt f c) (arcSpec_modSt f s)"
    and "arc_Len c = int (length (arc_items s))" and "arc_live c = arcSpec_live s"
proof -
  obtain ls where r: "arc_rep c ls" and s: "s = arc_view c ls" using assms by (rule arc_simE)
  show "acSt c = asSt s" "acCapacity c = asCapacity s" "acP c = asP s" using s by simp_all
  show "arc_sim (arc_modSt f c) (arcSpec_modSt f s)" using r s by (auto simp: arc_sim_rep intro!: exI [where x = ls])
  have l: "arc_lst t (c\<lparr>acOnEvict := b\<rparr>) = arc_lst t c" for t by (cases t) (simp_all add: arc_lst_def)
  show "arc_sim (c\<lparr>acOnEvict := b\<rparr>) (s\<lparr>asOnEvict := b\<rparr>)"
    unfolding arc_sim_rep using r s
    by (intro exI [where x = ls]) (auto simp: arc_rep_def arc_lists_def arc_index_def arc_view_def l)
  show "arc_Len c = int (length (arc_items s))"
    using arc_len_view [OF rep_D(1) [OF r]] s by (simp add: arc_Len_def)
  show "arc_live c = arcSpec_live s"
  proof
    fix k
    show "arc_live c k = arcSpec_live s k"
    proof (cases "map_of (acItemMap c) k")
      case None
      then show ?thesis
        by (simp add: arc_live_def live_of_def find_item_append find_view [OF r] s del: live_of_simps)
    next
      case (Some n)
      then show ?thesis
        by (simp add: arc_live_def live_of_def find_item_append find_view [OF r] s del: live_of_simps)
    qed
  qed
qed

lemma arc_Keys_sim:
  assumes "arc_sim c s"
  shows "\<exists>ks. arc_Keys now c = Some ks \<and> distinct ks \<and>
    set ks = set (keys_of (filter (\<lambda>e. unexpired now (itExpires e)) (arc_items s)))"
proof -
  obtain ls where r: "arc_rep c ls" and s: "s = arc_view c ls" using assms by (rule arc_simE)
  have i: "distinct (map fst (acItemMap c))" "set (acItemMap c) = (\<lambda>n. (anKey (acHeap c n), n)) ` arc_nodes ls"
    using rep_D(2) [OF r] by (auto simp: arc_index_def)
  let ?p = "\<lambda>n. (anList (acHeap c n) = T1 \<or> anList (acHeap c n) = T2) \<and> unexpired now (anExpiresAt (acHeap c n))"
  define ps where "ps = filter (\<lambda>(k, n). ?p n) (acItemMap c)"
  have ks: "arc_Keys now c = Some (map (\<lambda>(k, n). anKey (acHeap c n)) ps)" by (simp add: arc_Keys_def ps_def)
  have e: "map (\<lambda>(k, n). anKey (acHeap c n)) ps = map fst ps"
    using i(2) by (intro map_cong) (auto simp: ps_def)
  have "distinct (map (\<lambda>(k, n). anKey (acHeap c n)) ps)"
    unfolding e unfolding ps_def by (rule distinct_map_filter [OF i(1)])
  moreover have "set (map (\<lambda>(k, n). anKey (acHeap c n)) ps) = (\<lambda>n. anKey (acHeap c n)) ` {n \<in> arc_nodes ls. ?p n}"
    unfolding ps_def by (auto simp: i(2) image_iff)
  moreover have "{n \<in> arc_nodes ls. ?p n} = {n \<in> set (ls T1) \<union> set (ls T2). unexpired now (anExpiresAt (acHeap c n))}"
    using arc_lists_D(3) [OF rep_D(1) [OF r]] node_list_mem [OF rep_D(1) [OF r]]
    by (fastforce simp: arc_nodes_def UN_arcList)
  moreover have "keys_of (filter (\<lambda>e. unexpired now (itExpires e)) (arc_items s)) =
      map (\<lambda>n. anKey (acHeap c n)) (filter (\<lambda>n. unexpired now (anExpiresAt (acHeap c n))) (ls T1 @ ls T2))"
    by (simp add: s keys_of_def filter_map comp_def)
  ultimately show ?thesis using ks by auto
qed

interpretation arcImpl: cache_implements arc_cache arcSpec_cache arc_sim arcSpec_ok
    "\<lambda>s. live_of (asL s T1 @ asL s T2)" arc_live
proof
  fix c s now k r c' assume "arc_sim c s" "mGet arc_cache now k c = (r, c')"
  then show "\<exists>s'. mGet arcSpec_cache now k s = (r, s') \<and> arc_sim c' s'"
    using arc_Get_sim [of c s now k r c'] by (simp add: arc_cache_def arcSpec_sel)
next
  fix c s now k r c' assume "arc_sim c s" "mPeek arc_cache now k c = (r, c')"
  then show "\<exists>s'. mPeek arcSpec_cache now k s = (r, s') \<and> arc_sim c' s'"
    using arc_Peek_sim [of c s now k r c'] by (simp add: arc_cache_def arcSpec_sel)
next
  fix c s now k v ttl err evs c' assume "arc_sim c s" "mSet arc_cache now k v ttl c = (err, evs, c')"
  then show "\<exists>s'. mSet arcSpec_cache now k v ttl s = (err, evs, s') \<and> arc_sim c' s'"
    using arc_Set_sim [of c s now k v ttl err evs c'] by (simp add: arc_cache_def arcSpec_sel)
next
  fix c s k found c' assume "arc_sim c s" "mDelete arc_cache k c = (found, c')"
  then show "\<exists>s'. mDelete arcSpec_cache k s = (found, s') \<and> arc_sim c' s'"
    using arc_Delete_sim [of c s k found c'] by (simp add: arc_cache_def arcSpec_sel)
next
  fix c s now assume s: "arc_sim c s"
  from arc_Keys_sim [OF s, of now]
  show "\<exists>ks ks'. mKeys arc_cache now c = Some ks \<and> mKeys arcSpec_cache now s = Some ks' \<and>
      distinct ks \<and> set ks = set ks'" by (auto simp: arc_cache_def arcSpec_sel)
next
  fix c s assume "arc_sim c s"
  from arc_sim_view(7) [OF this] show "arc_live c = arcSpec_live s" .
qed (auto simp: arc_cache_def arcSpec_sel arc_Capacity_def arc_SetEvictionCallback_def arc_Purge_sim
      arc_sim_view(1,2,4,5,6))

interpretation arc: bounded_cache arc_cache "\<lambda>c. \<exists>s. arc_sim c s \<and> arcSpec_ok s" arc_live
  by (rule arcImpl.contract)

lemma arcSpec_run_ok:
  assumes "arcSpec_ok s" and "arcSpec_bytes s"
  shows "arcSpec_ok (foldl (cache_step arcSpec_cache) s xs) \<and> arcSpec_bytes (foldl (cache_step arcSpec_cache) s xs)"
  by (rule cache_run_invariant [where P = "\<lambda>s. arcSpec_ok s \<and> arcSpec_bytes s"])
     (use assms in \<open>auto simp: arcSpec_sel arcSpec_Purge_law
        dest: arcSpec_Get_law arcSpec_Peek_law arcSpec_Set_law arcSpec_Delete_law\<close>)

lemma replace_capacity: "arcSpec_replace b s = (evs, s1) \<Longrightarrow> asCapacity s1 = asCapacity s"
  by (auto simp: arcSpec_replace_def arcSpec_demote_def Let_def split: if_splits)

lemma makeRoom_capacity: "arcSpec_makeRoom s = (evs, s1) \<Longrightarrow> asCapacity s1 = asCapacity s"
  by (auto simp: arcSpec_makeRoom_def arcSpec_evictT1_def Let_def dest: replace_capacity split: if_splits)

lemma arcSpec_run_capacity: "asCapacity (foldl (cache_step arcSpec_cache) s xs) = asCapacity s"
  by (rule cache_run_invariant [where P = "\<lambda>t. asCapacity t = asCapacity s"])
     (auto simp: arcSpec_sel arcSpec_Get_def arcSpec_Peek_def arcSpec_Delete_def arcSpec_Set_def
        arcSpec_store_def arcSpec_Purge_def Let_def dest: replace_capacity makeRoom_capacity
        split: option.splits if_splits prod.splits)

lemma arcSpec_New_ok: "arcSpec_ok (arcSpec_New cap)" "arcSpec_bytes (arcSpec_New cap)"
  by (simp_all add: arcSpec_New_def arcSpec_ok_def arc_wf_def arc_sized_def arcSpec_bytes_def newStats_def)

section \<open>The snapshot\<close>

lemma arc_entries_sim:
  assumes r: "arc_rep c ls"
  shows "\<exists>es. arc_entries now t c = Some es \<and> length es = length (ls t) \<and>
    map enKey es = keys_of (asL (arc_view c ls) t) \<and>
    map (\<lambda>e. blen (enValue e)) es = map (\<lambda>e. blen (itValue e)) (asL (arc_view c ls) t)"
proof -
  have "map enKey (map (\<lambda>(pos, n). arc_entry now t pos (acHeap c n)) (enumerate i ns)) = map (\<lambda>n. anKey (acHeap c n)) ns"
    "map (\<lambda>e. blen (enValue e)) (map (\<lambda>(pos, n). arc_entry now t pos (acHeap c n)) (enumerate i ns)) =
      map (\<lambda>n. blen (anValue (acHeap c n))) ns" for i ns
    by (induction ns arbitrary: i) (auto simp: arc_entry_def)
  with ToSlice_holds [OF arc_lists_D(1) [OF rep_D(1) [OF r]]] show ?thesis
    by (simp add: arc_entries_def keys_of_def comp_def)
qed

lemma arc_Snapshot_sim:
  assumes "arc_sim c s"
  shows "\<exists>sn. arc_Snapshot now c = Some sn \<and> srArcP sn = asP s \<and> srCapacity sn = asCapacity s \<and>
    map enKey (srEntries sn) = keys_of (arc_items s) \<and> map enKey (srGhostEntries sn) = keys_of (arc_ghosts s) \<and>
    (\<Sum>e\<leftarrow>srEntries sn. blen (enValue e)) = bytes_of (arc_items s)"
proof -
  obtain ls where r: "arc_rep c ls" and s: "s = arc_view c ls" using assms by (rule arc_simE)
  note e = arc_entries_sim [OF r, of now]
  obtain t1 t2 b1 b2 where
    "arc_entries now T1 c = Some t1" "map enKey t1 = keys_of (asL s T1)"
    "map (\<lambda>e. blen (enValue e)) t1 = map (\<lambda>e. blen (itValue e)) (asL s T1)"
    "arc_entries now T2 c = Some t2" "map enKey t2 = keys_of (asL s T2)"
    "map (\<lambda>e. blen (enValue e)) t2 = map (\<lambda>e. blen (itValue e)) (asL s T2)"
    "arc_entries now B1 c = Some b1" "map enKey b1 = keys_of (asL s B1)"
    "arc_entries now B2 c = Some b2" "map enKey b2 = keys_of (asL s B2)"
    using e [of T1] e [of T2] e [of B1] e [of B2] unfolding s by blast
  then show ?thesis by (simp add: arc_Snapshot_def bytes_of_def) (simp add: s)
qed

section \<open>Properties\<close>

abbreviation arc_run :: "int \<Rightarrow> cacheOp list \<Rightarrow> ARCCache" where
  "arc_run cap xs \<equiv> foldl (cache_step arc_cache) (arc_New cap) xs"

lemma arc_run_ok:
  defines "s \<equiv> \<lambda>cap xs. foldl (cache_step arcSpec_cache) (arcSpec_New cap) xs"
  shows "arc_sim (arc_run cap xs) (s cap xs)" and "arcSpec_ok (s cap xs)" and "arcSpec_bytes (s cap xs)"
    and "asCapacity (s cap xs) = (if cap \<le> 0 then 1 else cap)"
proof -
  show "arc_sim (arc_run cap xs) (s cap xs)" unfolding s_def by (rule arcImpl.run_sim [OF arc_sim_New])
  show "arcSpec_ok (s cap xs)" "arcSpec_bytes (s cap xs)"
    using arcSpec_run_ok [OF arcSpec_New_ok, of cap xs] by (simp_all add: s_def)
  show "asCapacity (s cap xs) = (if cap \<le> 0 then 1 else cap)"
    by (simp add: s_def arcSpec_run_capacity arcSpec_New_def)
qed

lemma arc_run_results:
  "fst (arc_Get now k (arc_run cap xs)) =
     fst (arcSpec_Get now k (foldl (cache_step arcSpec_cache) (arcSpec_New cap) xs))"
  "fst (snd (arc_Set now k v ttl (arc_run cap xs))) =
     fst (snd (arcSpec_Set now k v ttl (foldl (cache_step arcSpec_cache) (arcSpec_New cap) xs)))"
  using arc_Get_sim [OF arc_run_ok(1), of now k cap xs] arc_Set_sim [OF arc_run_ok(1), of now k v ttl cap xs]
  by (metis fst_conv snd_conv surj_pair)+

text \<open>
  C3: the ARC cache with its four linked lists and its index behaves exactly as the machine on
  four lists of items: along any sequence of operations from \<open>New\<close>, every result, every
  eviction callback, every length and every counter agree.
\<close>

theorem arc_trace_correct:
  "cache_trace arc_cache (arc_New cap) xs = cache_trace arcSpec_cache (arcSpec_New cap) xs"
  by (rule arcImpl.trace_eq [OF arc_sim_New])

text \<open>
  C4: after any run of the ARC cache \<open>Snapshot\<close> ends; the live entries are as many as \<open>Len\<close> says
  and at most the capacity, live entries and ghosts together are at most twice the capacity, no
  key is in two lists, \<open>p\<close> is between 0 and the capacity, and the counter \<open>BytesStored\<close> is the
  sum of the sizes of the live values.
\<close>

theorem arc_sizes:
  "\<exists>sn. arc_Snapshot now (arc_run cap xs) = Some sn \<and>
     int (length (srEntries sn)) = arc_Len (arc_run cap xs) \<and>
     arc_Len (arc_run cap xs) \<le> (if cap \<le> 0 then 1 else cap) \<and>
     int (length (srEntries sn) + length (srGhostEntries sn)) \<le> 2 * (if cap \<le> 0 then 1 else cap) \<and>
     distinct (map enKey (srEntries sn @ srGhostEntries sn)) \<and>
     0 \<le> srArcP sn \<and> srArcP sn \<le> (if cap \<le> 0 then 1 else cap) \<and>
     BytesStored (acSt (arc_run cap xs)) = (\<Sum>e\<leftarrow>srEntries sn. blen (enValue e))"
proof -
  note s = arc_run_ok [where cap = cap and xs = xs]
  let ?s = "foldl (cache_step arcSpec_cache) (arcSpec_New cap) xs"
  obtain sn where sn: "arc_Snapshot now (arc_run cap xs) = Some sn" "srArcP sn = asP ?s"
    "map enKey (srEntries sn) = keys_of (arc_items ?s)" "map enKey (srGhostEntries sn) = keys_of (arc_ghosts ?s)"
    "(\<Sum>e\<leftarrow>srEntries sn. blen (enValue e)) = bytes_of (arc_items ?s)"
    using arc_Snapshot_sim [OF s(1)] by blast
  have "length (srEntries sn) = length (arc_items ?s)" "length (srGhostEntries sn) = length (arc_ghosts ?s)"
    using arg_cong [OF sn(3), of length] arg_cong [OF sn(4), of length] by simp_all
  moreover have "distinct (map enKey (srEntries sn @ srGhostEntries sn))"
    unfolding map_append sn(3,4) using s(2) by (simp add: arcSpec_ok_def arc_wf_def)
  moreover note sn(1,2,5) arc_sim_view(1,6) [OF s(1)] s(2-4)
  ultimately show ?thesis by (simp add: arcSpec_ok_def arc_sized_def arcSpec_bytes_def)
qed

text \<open>
  a hit of the ARC cache returns the value of the latest \<open>Set\<close> of that key, which no
  \<open>Delete\<close> or \<open>Purge\<close> has followed, and that value has not expired; ghosts never hit.
\<close>

theorem arc_hit_is_latest:
  assumes "fst (arc_Get now k (arc_run cap xs)) = Some v"
  shows "\<exists>e. foldl latest_step Map.empty xs k = Some (v, e) \<and> \<not> expired now e"
proof -
  have "arc_live (arc_New cap) \<subseteq>\<^sub>m Map.empty"
    by (simp add: arc_New_def arc_live_def map_le_def dom_def)
  with arc.get_latest [of "arc_New cap" now k xs v] arc_sim_New arcSpec_New_ok assms
  show ?thesis by (auto simp: arc_cache_def)
qed

lemma arc_hit_is_latest_witness:
  "\<exists>e. foldl latest_step Map.empty [OpSet 0 ''a'' [7] 9, OpGet 2 ''a'', OpSet 3 ''c'' [9] 0]
      ''a'' = Some ([7], e) \<and> \<not> expired 5 e"
  by (rule arc_hit_is_latest [of 5 "''a''" 2], unfold arc_run_results) code_simp

text \<open>
  the ARC cache reports the eviction of an entry of \<open>T2\<close> to the registered callback exactly
  when its value is not empty: with capacity 1, the \<open>Set\<close> of a second key evicts a key that
  was set and read, and the eviction of an empty value is silent.
\<close>

theorem arc_empty_value_unreported:
  "let c = arc_run 1 [OpCallback True, OpSet 0 ''a'' v 0, OpGet 1 ''a''];
       (err, evs, c') = arc_Set 2 ''b'' w 0 c
   in evs = (if v = [] then [] else [(''a'', v)])"
proof -
  have "fst (snd (arcSpec_Set 2 ''b'' w 0
      (foldl (cache_step arcSpec_cache) (arcSpec_New 1) [OpCallback True, OpSet 0 ''a'' v 0, OpGet 1 ''a'']))) =
      (if v = [] then [] else [(''a'', v)])"
    by (simp add: cache_step_def arcSpec_sel arcSpec_New_def arcSpec_Set_def arcSpec_Get_def locate_def
        arcSpec_makeRoom_def arcSpec_replace_def arcSpec_demote_def arcSpec_drop_def arcSpec_modSt_def
        expiryOf_def Let_def)
  with arc_run_results(2) [of 2 "''b''" w 0 1 "[OpCallback True, OpSet 0 ''a'' v 0, OpGet 1 ''a'']"]
  show ?thesis by (auto simp: Let_def split: prod.splits)
qed

end
