(* ===== verification/Sharded.thy ===== *)
theory Sharded
  imports LRU_Contract
begin

text \<open>
  internal/cache/sharded/sharded.go: 256 caches behind one interface; a key goes to the shard that
  the low byte of its FNV-1a hash (hash/fnv of the standard library) names. Each shard has its
  own mutex, held for the whole operation on that shard, so an operation on one key is one step of
  its shard; the methods that visit all shards do so in order. The wrapper is generic in the
  method table \<open>M\<close> of its shards.

  \<open>Stats()\<close> returns a freshly summed copy, so an update through it changes nothing.
\<close>

unbundle bit_operations_syntax

section \<open>The code\<close>

abbreviation NumShards :: nat where
  "NumShards \<equiv> 256"

record 'c ShardedCache =
  scShards :: "'c list"
  scCapacity :: int
  scPolicy :: string

definition fnv32a :: "string \<Rightarrow> 32 word" where
  "fnv32a s = foldl (\<lambda>h c. (h XOR of_char c) * 16777619) 2166136261 s"

definition shardIx :: "key \<Rightarrow> nat" where
  "shardIx k = unat (fnv32a k AND 255)"

definition perShard :: "int \<Rightarrow> int" where
  "perShard totalCapacity = (if totalCapacity div int NumShards < 1 then 1 else totalCapacity div int NumShards)"

definition sharded_New :: "int \<Rightarrow> string \<Rightarrow> (int \<Rightarrow> 'c) \<Rightarrow> 'c ShardedCache" where
  "sharded_New totalCapacity policy factory =
     \<lparr>scShards = replicate NumShards (factory (perShard totalCapacity)), scCapacity = totalCapacity,
      scPolicy = policy\<rparr>"

definition shardFor :: "key \<Rightarrow> 'c ShardedCache \<Rightarrow> 'c" where
  "shardFor k sc = scShards sc ! shardIx k"

definition setShard :: "key \<Rightarrow> 'c \<Rightarrow> 'c ShardedCache \<Rightarrow> 'c ShardedCache" where
  "setShard k c sc = sc\<lparr>scShards := (scShards sc)[shardIx k := c]\<rparr>"

definition sharded_Get :: "'c Cache \<Rightarrow> instant \<Rightarrow> key \<Rightarrow> 'c ShardedCache \<Rightarrow> bytes option \<times> 'c ShardedCache" where
  "sharded_Get M now k sc = (let (r, c) = mGet M now k (shardFor k sc) in (r, setShard k c sc))"

definition sharded_Set :: "'c Cache \<Rightarrow> instant \<Rightarrow> key \<Rightarrow> bytes \<Rightarrow> duration \<Rightarrow> 'c ShardedCache \<Rightarrow>
    error option \<times> evictCall list \<times> 'c ShardedCache" where
  "sharded_Set M now k v ttl sc =
     (let (err, evs, c) = mSet M now k v ttl (shardFor k sc) in (err, evs, setShard k c sc))"

definition sharded_Delete :: "'c Cache \<Rightarrow> key \<Rightarrow> 'c ShardedCache \<Rightarrow> bool \<times> 'c ShardedCache" where
  "sharded_Delete M k sc = (let (r, c) = mDelete M k (shardFor k sc) in (r, setShard k c sc))"

definition sharded_Peek :: "'c Cache \<Rightarrow> instant \<Rightarrow> key \<Rightarrow> 'c ShardedCache \<Rightarrow> bytes option \<times> 'c ShardedCache" where
  "sharded_Peek M now k sc = (let (r, c) = mPeek M now k (shardFor k sc) in (r, setShard k c sc))"

text \<open>\<open>nows\<close> are the clock readings that the shards make, one each.\<close>

definition sharded_Keys :: "'c Cache \<Rightarrow> (nat \<Rightarrow> instant) \<Rightarrow> 'c ShardedCache \<Rightarrow> key list option" where
  "sharded_Keys M nows sc =
     map_option concat (those (map (\<lambda>(i, c). mKeys M (nows i) c) (enumerate 0 (scShards sc))))"

definition sharded_Len :: "'c Cache \<Rightarrow> 'c ShardedCache \<Rightarrow> int" where
  "sharded_Len M sc = sum_list (map (mLen M) (scShards sc))"

definition stats_add :: "Stats \<Rightarrow> Stats \<Rightarrow> Stats" where
  "stats_add agg sh =
     \<lparr>Hits = Hits agg + Hits sh, Misses = Misses agg + Misses sh, Sets = Sets agg + Sets sh,
      Deletes = Deletes agg + Deletes sh, Evictions = Evictions agg + Evictions sh,
      TTLExpiries = TTLExpiries agg + TTLExpiries sh, BytesStored = BytesStored agg + BytesStored sh,
      WriteStoreOps = WriteStoreOps agg + WriteStoreOps sh,
      ReadStoreOps = ReadStoreOps agg + ReadStoreOps sh\<rparr>"

definition sharded_Stats :: "'c Cache \<Rightarrow> 'c ShardedCache \<Rightarrow> Stats" where
  "sharded_Stats M sc = foldl (\<lambda>agg c. stats_add agg (mStats M c)) newStats (scShards sc)"

definition sharded_Snapshot :: "'c Cache \<Rightarrow> (nat \<Rightarrow> instant) \<Rightarrow> 'c ShardedCache \<Rightarrow> SnapshotResult option" where
  "sharded_Snapshot M nows sc =
     map_option (\<lambda>snaps.
        \<lparr>srPolicy = scPolicy sc @ ''-sharded'',
         srEntries = concat (map (\<lambda>snap. if length (srEntries snap) > 50 then take 50 (srEntries snap)
                                         else srEntries snap) snaps),
         srGhostEntries = [], srArcP = 0, srListSizes = [], srCapacity = scCapacity sc,
         srTruncated = (\<exists>snap\<in>set snaps. length (srEntries snap) > 50)\<rparr>)
       (those (map (\<lambda>(i, c). mSnapshot M (nows i) c) (enumerate 0 (scShards sc))))"

definition sharded_Purge :: "'c Cache \<Rightarrow> 'c ShardedCache \<Rightarrow> 'c ShardedCache" where
  "sharded_Purge M sc = sc\<lparr>scShards := map (mPurge M) (scShards sc)\<rparr>"

definition sharded_SetEvictionCallback :: "'c Cache \<Rightarrow> bool \<Rightarrow> 'c ShardedCache \<Rightarrow> 'c ShardedCache" where
  "sharded_SetEvictionCallback M b sc = sc\<lparr>scShards := map (mSetEvictionCallback M b) (scShards sc)\<rparr>"

definition sharded_cache :: "'c Cache \<Rightarrow> 'c ShardedCache Cache" where
  "sharded_cache M = \<lparr>mGet = sharded_Get M, mSet = sharded_Set M, mDelete = sharded_Delete M,
     mPeek = sharded_Peek M, mKeys = (\<lambda>now. sharded_Keys M (\<lambda>_. now)), mLen = sharded_Len M,
     mCapacity = scCapacity, mStats = sharded_Stats M, mUpdStats = (\<lambda>f sc. sc),
     mSnapshot = (\<lambda>now. sharded_Snapshot M (\<lambda>_. now)), mPurge = sharded_Purge M,
     mSetEvictionCallback = sharded_SetEvictionCallback M\<rparr>"

lemma sharded_capacity: "mCapacity (sharded_cache M) sc = scCapacity sc"
  by (simp add: sharded_cache_def)

section \<open>Routing\<close>

lemma shardIx_less [simp]: "shardIx k < NumShards"
proof -
  have "fnv32a k AND 255 = take_bit 8 (fnv32a k)"
    by (simp add: take_bit_eq_mask mask_eq_exp_minus_1)
  then show ?thesis using take_bit_nat_less_exp [of 8 "unat (fnv32a k)"]
    by (simp add: shardIx_def unsigned_take_bit_eq)
qed

lemma setShard_sel [simp]:
  "scCapacity (setShard k c sc) = scCapacity sc" "scPolicy (setShard k c sc) = scPolicy sc"
  "scShards (setShard k c sc) = (scShards sc)[shardIx k := c]"
  by (simp_all add: setShard_def)

text \<open>The operations that reach the shard \<open>i\<close>.\<close>

fun reaches :: "nat \<Rightarrow> cacheOp \<Rightarrow> bool" where
  "reaches i (OpGet now k) = (shardIx k = i)"
| "reaches i (OpSet now k v ttl) = (shardIx k = i)"
| "reaches i (OpDelete k) = (shardIx k = i)"
| "reaches i (OpPeek now k) = (shardIx k = i)"
| "reaches i OpPurge = True"
| "reaches i (OpCallback b) = True"

lemma sharded_step:
  assumes l: "length (scShards sc) = NumShards" and i: "i < NumShards"
  shows "length (scShards (cache_step (sharded_cache M) sc x)) = NumShards"
    and "scShards (cache_step (sharded_cache M) sc x) ! i =
      (if reaches i x then cache_step M (scShards sc ! i) x else scShards sc ! i)"
proof -
  have "length (scShards (cache_step (sharded_cache M) sc x)) = NumShards \<and>
    scShards (cache_step (sharded_cache M) sc x) ! i =
      (if reaches i x then cache_step M (scShards sc ! i) x else scShards sc ! i)"
    using l i
    by (cases x) (auto simp: cache_step_def sharded_cache_def sharded_Get_def sharded_Set_def sharded_Delete_def
        sharded_Peek_def sharded_Purge_def sharded_SetEvictionCallback_def shardFor_def
        nth_list_update split: prod.splits)
  then show "length (scShards (cache_step (sharded_cache M) sc x)) = NumShards"
    and "scShards (cache_step (sharded_cache M) sc x) ! i =
      (if reaches i x then cache_step M (scShards sc ! i) x else scShards sc ! i)" by simp_all
qed

lemma sharded_run:
  assumes "length (scShards sc) = NumShards" and "i < NumShards"
  shows "length (scShards (foldl (cache_step (sharded_cache M)) sc xs)) = NumShards \<and>
    scShards (foldl (cache_step (sharded_cache M)) sc xs) ! i =
      foldl (cache_step M) (scShards sc ! i) (filter (reaches i) xs)"
  using assms(1)
proof (induction xs arbitrary: sc)
  case Nil
  then show ?case by simp
next
  case (Cons x xs)
  note s = sharded_step [OF Cons.prems assms(2), of M x]
  show ?case using Cons.IH [OF s(1)] s(2) by simp
qed

section \<open>The contract, inherited from the shards\<close>

lemma those_all: "(\<And>x. x \<in> set xs \<Longrightarrow> f x = Some (g x)) \<Longrightarrow> those (map f xs) = Some (map g xs)"
  by (induction xs) auto

lemma distinct_concat_tagged:
  assumes "\<And>i. i < length kss \<Longrightarrow> distinct (kss ! i)"
    and "\<And>i k. i < length kss \<Longrightarrow> k \<in> set (kss ! i) \<Longrightarrow> tag k = i"
  shows "distinct (concat kss)"
proof -
  have "distinct (concat (map (\<lambda>i. kss ! i) [0..<n]))" if "n \<le> length kss" for n
    using that
  proof (induction n)
    case 0
    then show ?case by simp
  next
    case (Suc n)
    have "tag k < n" if "k \<in> set (concat (map (\<lambda>i. kss ! i) [0..<n]))" for k
    proof -
      from that obtain i where "i < n" "k \<in> set (kss ! i)" by auto
      with assms(2) [of i k] Suc.prems show ?thesis by simp
    qed
    moreover have "tag k = n" if "k \<in> set (kss ! n)" for k
      using that assms(2) Suc.prems by simp
    ultimately have "set (concat (map (\<lambda>i. kss ! i) [0..<n])) \<inter> set (kss ! n) = {}"
      by fastforce
    with Suc assms(1) [of n] show ?case by simp
  qed
  from this [of "length kss"] show ?thesis by (simp add: map_nth)
qed

definition sharded_ok :: "('c \<Rightarrow> bool) \<Rightarrow> ('c \<Rightarrow> key \<rightharpoonup> bytes \<times> Time) \<Rightarrow> 'c ShardedCache \<Rightarrow> bool" where
  "sharded_ok okC live sc \<longleftrightarrow> length (scShards sc) = NumShards \<and>
     (\<forall>i<NumShards. okC (scShards sc ! i) \<and> (\<forall>k. live (scShards sc ! i) k \<noteq> None \<longrightarrow> shardIx k = i))"

definition sharded_live :: "('c \<Rightarrow> key \<rightharpoonup> bytes \<times> Time) \<Rightarrow> 'c ShardedCache \<Rightarrow> key \<rightharpoonup> bytes \<times> Time" where
  "sharded_live live sc k = live (shardFor k sc) k"

lemma sharded_okD:
  assumes "sharded_ok okC live sc"
  shows "length (scShards sc) = NumShards" and "okC (shardFor k sc)"
    and "i < NumShards \<Longrightarrow> okC (scShards sc ! i)"
    and "i < NumShards \<Longrightarrow> live (scShards sc ! i) k = (if shardIx k = i then sharded_live live sc k else None)"
proof -
  show "length (scShards sc) = NumShards" "okC (shardFor k sc)" "i < NumShards \<Longrightarrow> okC (scShards sc ! i)"
    using assms by (simp_all add: sharded_ok_def shardFor_def)
  show "live (scShards sc ! i) k = (if shardIx k = i then sharded_live live sc k else None)" if "i < NumShards"
    using assms that unfolding sharded_ok_def sharded_live_def shardFor_def by metis
qed

lemma sharded_upd:
  assumes ok: "sharded_ok okC live sc" and c: "okC c"
    and le: "\<And>k'. k' \<noteq> k \<Longrightarrow> live c k' \<noteq> None \<Longrightarrow> live (shardFor k sc) k' \<noteq> None"
  shows "sharded_ok okC live (setShard k c sc)"
    and "sharded_live live (setShard k c sc) k' =
      (if shardIx k' = shardIx k then live c k' else sharded_live live sc k')"
proof -
  show "sharded_ok okC live (setShard k c sc)"
    unfolding sharded_ok_def
  proof (intro conjI allI impI)
    show "length (scShards (setShard k c sc)) = NumShards" using ok by (simp add: sharded_ok_def)
  next
    fix i assume i: "i < NumShards"
    with ok c show "okC (scShards (setShard k c sc) ! i)" by (auto simp: sharded_ok_def nth_list_update)
    fix k' assume "live (scShards (setShard k c sc) ! i) k' \<noteq> None"
    with ok i le [of k'] show "shardIx k' = i"
      by (auto simp: sharded_ok_def nth_list_update shardFor_def split: if_splits)
  qed
  show "sharded_live live (setShard k c sc) k' =
      (if shardIx k' = shardIx k then live c k' else sharded_live live sc k')"
    using ok by (auto simp: sharded_live_def shardFor_def sharded_ok_def nth_list_update)
qed

context cache_contract
begin

lemma sharded_lookup:
  assumes ok: "sharded_ok inv live sc" and c: "inv c"
    and l: "live c = (live (shardFor k sc))(k := keep now (live (shardFor k sc) k))"
  shows "sharded_ok inv live (setShard k c sc) \<and>
    sharded_live live (setShard k c sc) = (sharded_live live sc)(k := keep now (sharded_live live sc k))"
proof -
  note u = sharded_upd [OF ok c, of k]
  have "live c k' \<noteq> None \<Longrightarrow> k' \<noteq> k \<Longrightarrow> live (shardFor k sc) k' \<noteq> None" for k' by (simp add: l)
  note u = u [OF this]
  show ?thesis
    using u(1) by (auto simp: fun_eq_iff u(2)) (auto simp: l sharded_live_def shardFor_def)
qed

lemma sharded_delete:
  assumes ok: "sharded_ok inv live sc" and c: "inv c" and l: "live c = (live (shardFor k sc))(k := None)"
  shows "sharded_ok inv live (setShard k c sc) \<and> sharded_live live (setShard k c sc) = (sharded_live live sc)(k := None)"
proof -
  have "live c k' \<noteq> None \<Longrightarrow> k' \<noteq> k \<Longrightarrow> live (shardFor k sc) k' \<noteq> None" for k' by (simp add: l)
  note u = sharded_upd [OF ok c this]
  show ?thesis using u(1) by (auto simp: fun_eq_iff u(2)) (auto simp: l sharded_live_def shardFor_def)
qed

lemma sharded_set:
  assumes ok: "sharded_ok inv live sc" and s: "mSet M now k v ttl (shardFor k sc) = (err, evs, c)"
  shows "sharded_ok inv live (setShard k c sc) \<and> err = None \<and>
    sharded_live live (setShard k c sc) k = Some (v, expiryOf now ttl) \<and>
    (\<forall>k'. k' \<noteq> k \<longrightarrow> sharded_live live (setShard k c sc) k' = sharded_live live sc k' \<or>
       sharded_live live (setShard k c sc) k' = None) \<and>
    (\<forall>(k', v') \<in> set evs. k' \<noteq> k \<and> sharded_live live (setShard k c sc) k' = None \<and>
       (\<exists>e. sharded_live live sc k' = Some (v', e)))"
proof -
  note law = set_law [OF sharded_okD(2) [OF ok] s]
  have le: "live c k' \<noteq> None \<Longrightarrow> k' \<noteq> k \<Longrightarrow> live (shardFor k sc) k' \<noteq> None" for k'
    using law by metis
  have c: "inv c" using law by blast
  note u = sharded_upd [OF ok c le]
  have at: "shardIx k' = shardIx k \<Longrightarrow> sharded_live live sc k' = live (shardFor k sc) k'" for k'
    by (simp add: sharded_live_def shardFor_def)
  have route: "live (shardFor k sc) k' \<noteq> None \<Longrightarrow> shardIx k' = shardIx k" for k'
    using ok by (auto simp: sharded_ok_def shardFor_def)
  have "\<forall>(k', v') \<in> set evs. k' \<noteq> k \<and> sharded_live live (setShard k c sc) k' = None \<and>
       (\<exists>e. sharded_live live sc k' = Some (v', e))"
  proof (intro ballI, clarify)
    fix k' v' assume "(k', v') \<in> set evs"
    with law obtain e where e: "k' \<noteq> k" "live c k' = None" "live (shardFor k sc) k' = Some (v', e)" by blast
    with route [of k'] at [of k'] show "k' \<noteq> k \<and> sharded_live live (setShard k c sc) k' = None \<and>
       (\<exists>e. sharded_live live sc k' = Some (v', e))" by (simp add: u(2))
  qed
  with law u(1) at show ?thesis by (simp add: u(2))
qed

lemma sharded_contract: "cache_contract (sharded_cache M) (sharded_ok inv live) (sharded_live live)"
proof
  fix sc sc' now k r assume ok: "sharded_ok inv live sc" and "mGet (sharded_cache M) now k sc = (r, sc')"
  then obtain c where g: "mGet M now k (shardFor k sc) = (r, c)" and sc': "sc' = setShard k c sc"
    by (auto simp: sharded_cache_def sharded_Get_def split: prod.splits)
  from get_law [OF sharded_okD(2) [OF ok] g] sharded_lookup [OF ok, of c k now]
  show "sharded_ok inv live sc' \<and> r = look now (sharded_live live sc k) \<and>
      sharded_live live sc' = (sharded_live live sc)(k := keep now (sharded_live live sc k))"
    by (simp add: sc' sharded_live_def)
next
  fix sc sc' now k r assume ok: "sharded_ok inv live sc" and "mPeek (sharded_cache M) now k sc = (r, sc')"
  then obtain c where g: "mPeek M now k (shardFor k sc) = (r, c)" and sc': "sc' = setShard k c sc"
    by (auto simp: sharded_cache_def sharded_Peek_def split: prod.splits)
  from peek_law [OF sharded_okD(2) [OF ok] g] sharded_lookup [OF ok, of c k now]
  show "sharded_ok inv live sc' \<and> r = look now (sharded_live live sc k) \<and>
      sharded_live live sc' = (sharded_live live sc)(k := keep now (sharded_live live sc k))"
    by (simp add: sc' sharded_live_def)
next
  fix sc sc' now k v ttl err evs assume ok: "sharded_ok inv live sc"
    and "mSet (sharded_cache M) now k v ttl sc = (err, evs, sc')"
  then obtain c where g: "mSet M now k v ttl (shardFor k sc) = (err, evs, c)" and sc': "sc' = setShard k c sc"
    by (auto simp: sharded_cache_def sharded_Set_def split: prod.splits)
  from sharded_set [OF ok g] show "sharded_ok inv live sc' \<and> err = None \<and>
      sharded_live live sc' k = Some (v, expiryOf now ttl) \<and>
      (\<forall>k'. k' \<noteq> k \<longrightarrow> sharded_live live sc' k' = sharded_live live sc k' \<or> sharded_live live sc' k' = None) \<and>
      (\<forall>(k', v') \<in> set evs. k' \<noteq> k \<and> sharded_live live sc' k' = None \<and>
         (\<exists>e. sharded_live live sc k' = Some (v', e)))" unfolding sc' .
next
  fix sc sc' k found assume ok: "sharded_ok inv live sc" and "mDelete (sharded_cache M) k sc = (found, sc')"
  then obtain c where g: "mDelete M k (shardFor k sc) = (found, c)" and sc': "sc' = setShard k c sc"
    by (auto simp: sharded_cache_def sharded_Delete_def split: prod.splits)
  from delete_law [OF sharded_okD(2) [OF ok] g] sharded_delete [OF ok, of c k]
  show "sharded_ok inv live sc' \<and> sharded_live live sc' = (sharded_live live sc)(k := None) \<and>
      (sharded_live live sc k \<noteq> None \<longrightarrow> found)" by (simp add: sc' sharded_live_def)
next
  fix sc assume ok: "sharded_ok inv live sc"
  note d = sharded_okD [OF ok]
  have "inv (mPurge M (scShards sc ! i)) \<and> live (mPurge M (scShards sc ! i)) = Map.empty" if "i < NumShards" for i
    using purge_law [OF d(3) [OF that]] .
  with d(1) show "sharded_ok inv live (mPurge (sharded_cache M) sc) \<and>
      sharded_live live (mPurge (sharded_cache M) sc) = Map.empty"
    by (auto simp: sharded_cache_def sharded_Purge_def sharded_ok_def sharded_live_def shardFor_def fun_eq_iff)
next
  fix sc now assume ok: "sharded_ok inv live sc"
  note d = sharded_okD [OF ok]
  let ?ks = "\<lambda>i. the (mKeys M now (scShards sc ! i))"
  have k: "mKeys M now (scShards sc ! i) = Some (?ks i) \<and> distinct (?ks i) \<and>
      set (?ks i) = {k. \<exists>v e. live (scShards sc ! i) k = Some (v, e) \<and> unexpired now e}" if "i < NumShards" for i
    using keys_law [OF d(3) [OF that], of now] by auto
  have "those (map (\<lambda>(i, c). mKeys M now c) (enumerate 0 (scShards sc))) = Some (map ?ks [0..<NumShards])"
    (is "those ?xs = _")
  proof -
    have "?xs = map (\<lambda>i. mKeys M now (scShards sc ! i)) [0..<NumShards]"
      using d(1) by (auto intro!: nth_equalityI simp: nth_enumerate_eq)
    with k show ?thesis by (simp only:) (rule those_all, simp)
  qed
  then have e: "mKeys (sharded_cache M) now sc = Some (concat (map ?ks [0..<NumShards]))"
    by (simp add: sharded_cache_def sharded_Keys_def)
  have "distinct (concat (map ?ks [0..<NumShards]))"
  proof (rule distinct_concat_tagged [where tag = shardIx])
    show "distinct (map ?ks [0..<NumShards] ! i)" if "i < length (map ?ks [0..<NumShards])" for i
      using k [of i] that by simp
    show "shardIx x = i" if "i < length (map ?ks [0..<NumShards])" and "x \<in> set (map ?ks [0..<NumShards] ! i)" for i x
      using k [of i] d(4) [of i x] that by (auto split: if_splits)
  qed
  moreover have "set (concat (map ?ks [0..<NumShards])) =
      {k. \<exists>v e. sharded_live live sc k = Some (v, e) \<and> unexpired now e}"
  proof -
    have "set (concat (map ?ks [0..<NumShards])) =
        (\<Union>i<NumShards. {k. \<exists>v e. live (scShards sc ! i) k = Some (v, e) \<and> unexpired now e})"
      using k by (simp add: atLeast_upt [symmetric] atLeast0LessThan)
    also have "\<dots> = {k. \<exists>v e. sharded_live live sc k = Some (v, e) \<and> unexpired now e}"
      using d(4) shardIx_less by (auto split: if_splits)
    finally show ?thesis .
  qed
  ultimately show "\<exists>ks. mKeys (sharded_cache M) now sc = Some ks \<and> distinct ks \<and>
      set ks = {k. \<exists>v e. sharded_live live sc k = Some (v, e) \<and> unexpired now e}" using e by blast
next
  fix sc assume ok: "sharded_ok inv live sc"
  note d = sharded_okD [OF ok]
  let ?D = "\<lambda>i. dom (live (scShards sc ! i))"
  have k: "finite (?D i) \<and> mLen M (scShards sc ! i) = int (card (?D i))" if "i < NumShards" for i
    using len_law [OF d(3) [OF that]] .
  have u: "dom (sharded_live live sc) = (\<Union>i<NumShards. ?D i)"
    using d(4) shardIx_less by (auto simp: dom_def split: if_splits) 
  have "card (\<Union>i<NumShards. ?D i) = (\<Sum>i<NumShards. card (?D i))"
    using k d(4) by (intro card_UN_disjoint) (auto simp: dom_def split: if_splits)
  moreover have "sharded_Len M sc = (\<Sum>i<NumShards. mLen M (scShards sc ! i))"
    unfolding sharded_Len_def using d(1)
    by (simp add: sum_list_sum_nth atLeast0LessThan)
  ultimately show "finite (dom (sharded_live live sc)) \<and>
      mLen (sharded_cache M) sc = int (card (dom (sharded_live live sc)))"
    using k by (simp add: u sharded_cache_def)
next
  fix sc f assume "sharded_ok inv live sc"
  then show "sharded_ok inv live (mUpdStats (sharded_cache M) f sc) \<and>
      sharded_live live (mUpdStats (sharded_cache M) f sc) = sharded_live live sc"
    by (simp add: sharded_cache_def)
next
  fix sc b assume ok: "sharded_ok inv live sc"
  note d = sharded_okD [OF ok]
  have "inv (mSetEvictionCallback M b (scShards sc ! i)) \<and>
      live (mSetEvictionCallback M b (scShards sc ! i)) = live (scShards sc ! i)" if "i < NumShards" for i
    using callback_law [OF d(3) [OF that]] .
  with ok d(1) show "sharded_ok inv live (mSetEvictionCallback (sharded_cache M) b sc) \<and>
      sharded_live live (mSetEvictionCallback (sharded_cache M) b sc) = sharded_live live sc"
    by (auto simp: sharded_cache_def sharded_SetEvictionCallback_def sharded_ok_def sharded_live_def shardFor_def fun_eq_iff)
qed

end

section \<open>Properties\<close>

interpretation lruSharded: cache_contract "sharded_cache lru_cache"
    "sharded_ok (\<lambda>c. \<exists>s. lru_sim c s \<and> lruSpec_ok s) (\<lambda>c. live_of (lsItems (lru_abs c)))"
    "sharded_live (\<lambda>c. live_of (lsItems (lru_abs c)))"
  by (rule lru.sharded_contract)

abbreviation sharded_run :: "'c Cache \<Rightarrow> int \<Rightarrow> (int \<Rightarrow> 'c) \<Rightarrow> cacheOp list \<Rightarrow> 'c ShardedCache" where
  "sharded_run M cap factory xs \<equiv> foldl (cache_step (sharded_cache M)) (sharded_New cap ''lru'' factory) xs"

lemma sharded_run_shard:
  shows "i < NumShards \<Longrightarrow> scShards (sharded_run M cap factory xs) ! i =
    foldl (cache_step M) (factory (perShard cap)) (filter (reaches i) xs)"
    and "length (scShards (sharded_run M cap factory xs)) = NumShards"
  using sharded_run [of "sharded_New cap ''lru'' factory" i M xs]
    sharded_run [of "sharded_New cap ''lru'' factory" 0 M xs]
  by (simp_all add: sharded_New_def)

lemma sharded_run_shards:
  "scShards (sharded_run M cap factory xs) =
    map (\<lambda>i. foldl (cache_step M) (factory (perShard cap)) (filter (reaches i) xs)) [0..<NumShards]"
  by (rule nth_equalityI) (simp_all add: sharded_run_shard)

lemma sharded_run_Get:
  "fst (sharded_Get M now k (sharded_run M cap factory xs)) =
    fst (mGet M now k (foldl (cache_step M) (factory (perShard cap)) (filter (reaches (shardIx k)) xs)))"
  by (simp add: sharded_Get_def shardFor_def sharded_run_shard split: prod.splits)

text \<open>
  C5: the shards are independent caches: after any run of a sharded cache every shard is in the
  state that the operations on its own keys (with every purge and callback registration) would
  bring a single cache of the per-shard capacity to, and a \<open>Get\<close> answers what that cache would.
\<close>

theorem sharded_is_independent:
  "scShards (sharded_run M cap factory xs) =
     map (\<lambda>i. foldl (cache_step M) (factory (perShard cap)) (filter (reaches i) xs)) [0..<NumShards] \<and>
   fst (sharded_Get M now k (sharded_run M cap factory xs)) =
     fst (mGet M now k (foldl (cache_step M) (factory (perShard cap)) (filter (reaches (shardIx k)) xs)))"
  using sharded_run_shards sharded_run_Get by blast

text \<open>
  a hit of the server's sharded LRU cache returns the value of the latest \<open>Set\<close> of that key,
  which no \<open>Delete\<close> or \<open>Purge\<close> has followed, and that value has not expired.
\<close>

theorem sharded_hit_is_latest:
  assumes "fst (sharded_Get lru_cache now k (sharded_run lru_cache cap lru_New xs)) = Some v"
  shows "\<exists>e. foldl latest_step Map.empty xs k = Some (v, e) \<and> \<not> expired now e"
proof -
  have n: "\<exists>s. lru_sim (lru_New cap) s \<and> lruSpec_ok s" for cap
    using lru_New_ok lruSpec_New_ok lru_sim_abs by blast
  have l: "live_of (lsItems (lru_abs (lru_New cap))) = Map.empty" for cap
    by (auto simp: lru_New_ok lruSpec_New_def)
  have "sharded_ok (\<lambda>c. \<exists>s. lru_sim c s \<and> lruSpec_ok s) (\<lambda>c. live_of (lsItems (lru_abs c)))
      (sharded_New cap ''lru'' lru_New)"
    using n by (simp add: sharded_ok_def sharded_New_def l)
  moreover have "sharded_live (\<lambda>c. live_of (lsItems (lru_abs c))) (sharded_New cap ''lru'' lru_New) \<subseteq>\<^sub>m Map.empty"
    by (simp add: sharded_live_def sharded_New_def shardFor_def l map_le_def dom_def)
  ultimately show ?thesis
    using lruSharded.get_latest [of "sharded_New cap ''lru'' lru_New" now k xs v] assms
    by (simp add: sharded_cache_def)
qed

lemma shardIx_abc: "shardIx ''a'' = 44" "shardIx ''b'' = 229" "shardIx ''c'' = 82"
  by code_simp+

lemma sharded_hit_is_latest_witness:
  "\<exists>e. foldl latest_step Map.empty [OpSet 0 ''a'' [7] 9, OpSet 1 ''b'' [8] 0, OpGet 2 ''a'']
      ''a'' = Some ([7], e) \<and> \<not> expired 5 e"
proof (rule sharded_hit_is_latest [of 5 "''a''" 10000])
  have "filter (reaches (shardIx ''a'')) [OpSet 0 ''a'' [7] 9, OpSet 1 ''b'' [8] 0, OpGet 2 ''a''] =
      [OpSet 0 ''a'' [7] 9, OpGet 2 ''a'']" by (simp add: shardIx_abc)
  moreover have "fst (mGet lru_cache 5 ''a'' (foldl (cache_step lru_cache) (lru_New (perShard 10000))
      [OpSet 0 ''a'' [7] 9, OpGet 2 ''a''])) = Some [7]" by code_simp
  ultimately show "fst (sharded_Get lru_cache 5 ''a'' (sharded_run lru_cache 10000 lru_New
      [OpSet 0 ''a'' [7] 9, OpSet 1 ''b'' [8] 0, OpGet 2 ''a''])) = Some [7]"
    by (simp only: sharded_run_Get)
qed

text \<open>
  after any run the sharded LRU cache holds at most 256 times its per-shard capacity, which is
  within the configured total when that is at least 256.
\<close>

theorem sharded_bounded:
  "sharded_Len lru_cache (sharded_run lru_cache cap lru_New xs) \<le> 256 * (if cap < 256 then 1 else cap div 256) \<and>
   (cap < 256 \<or> sharded_Len lru_cache (sharded_run lru_cache cap lru_New xs) \<le>
     mCapacity (sharded_cache lru_cache) (sharded_run lru_cache cap lru_New xs))"
proof -
  have p: "perShard cap = (if cap < 256 then 1 else cap div 256)" by (auto simp: perShard_def)
  have "lru_Len (foldl (cache_step lru_cache) (lru_New (perShard cap)) (filter (reaches i) xs)) \<le> perShard cap" for i
    using lru_run_len [of "perShard cap" "filter (reaches i) xs"] by (simp add: p split: if_splits)
  then have "sum_list (map (\<lambda>i. mLen lru_cache (foldl (cache_step lru_cache) (lru_New (perShard cap)) (filter (reaches i) xs)))
      [0..<NumShards]) \<le> sum_list (map (\<lambda>_. perShard cap) [0..<NumShards])"
    by (intro sum_list_mono) (simp add: lru_cache_def)
  then have "sharded_Len lru_cache (sharded_run lru_cache cap lru_New xs) \<le> 256 * perShard cap"
    unfolding sharded_Len_def sharded_run_shards by (simp add: comp_def sum_list_triv)
  moreover have "scCapacity (sharded_run lru_cache cap lru_New xs) = cap"
    by (rule cache_run_invariant [where P = "\<lambda>sc. scCapacity sc = cap"])
       (auto simp: sharded_New_def sharded_cache_def sharded_Get_def sharded_Set_def sharded_Delete_def
          sharded_Peek_def sharded_Purge_def sharded_SetEvictionCallback_def split: prod.splits)
  moreover have "256 * (cap div 256) \<le> cap" by presburger
  ultimately show ?thesis by (cases "cap < 256") (simp_all add: p sharded_capacity)
qed

text \<open>
  the capacity that the sharded cache reports is not a bound: with a total of 1 it holds two
  keys of different shards.
\<close>

theorem sharded_exceeds_capacity:
  "let sc = sharded_run lru_cache 1 lru_New [OpSet 0 ''a'' v 0, OpSet 1 ''b'' w 0]
   in mCapacity (sharded_cache lru_cache) sc = 1 \<and> sharded_Len lru_cache sc \<ge> 2"
proof -
  let ?xs = "[OpSet 0 ''a'' v 0, OpSet 1 ''b'' w 0]" and ?f = "\<lambda>i. [OpSet 0 ''a'' v 0, OpSet 1 ''b'' w 0]"
  define len where "len i = mLen lru_cache (foldl (cache_step lru_cache) (lru_New (perShard 1)) (filter (reaches i) ?xs))" for i
  have "mLen lru_cache (cache_step lru_cache (lru_New 1) (OpSet now k v 0)) = 1" for now k v
    using sim_read(2) [OF lru_run_ok(1) [of 1 "[OpSet now k v 0]"]]
    by (simp add: lru_cache_def cache_step_def lruSpec_sel lruSpec_Set_def lruSpec_evict_def lruSpec_New_def)
  then have "len 44 = 1" "len 229 = 1" by (simp_all add: len_def shardIx_abc perShard_def)
  moreover have "0 \<le> len i" for i by (simp add: len_def lru_cache_def lru_Len_def)
  ultimately have "2 \<le> (\<Sum>i\<in>{44, 229}. len i)" "(\<Sum>i\<in>{44, 229}. len i) \<le> (\<Sum>i\<in>{0..<NumShards}. len i)"
    by (simp, intro sum_mono2) auto
  then have "2 \<le> sharded_Len lru_cache (sharded_run lru_cache 1 lru_New ?xs)"
    unfolding sharded_Len_def sharded_run_shards by (simp add: comp_def len_def interv_sum_list_conv_sum_set_nat)
  then show ?thesis
    by (simp add: Let_def sharded_cache_def cache_step_def sharded_Set_def sharded_New_def split: prod.splits)
qed

lemma int_sum_list: "int (sum_list (map f xs)) = sum_list (map (\<lambda>x. int (f x)) xs)"
  by (induction xs) auto

lemma sum_min_less:
  fixes f :: "'a \<Rightarrow> nat"
  shows "sum_list (map (\<lambda>x. min m (f x)) xs) \<le> sum_list (map f xs)"
    and "sum_list (map (\<lambda>x. min m (f x)) xs) < sum_list (map f xs) \<longleftrightarrow> (\<exists>x\<in>set xs. f x > m)"
proof -
  show le: "sum_list (map (\<lambda>x. min m (f x)) xs) \<le> sum_list (map f xs)" for xs
    by (intro sum_list_mono) simp
  show "sum_list (map (\<lambda>x. min m (f x)) xs) < sum_list (map f xs) \<longleftrightarrow> (\<exists>x\<in>set xs. f x > m)"
    using le by (induction xs) (auto simp: min_def not_less intro: add_le_less_mono add_less_le_mono)
qed

text \<open>
  \<open>Snapshot\<close> of the sharded LRU cache ends, shows at most 50 entries of each shard, and sets
  its flag \<open>Truncated\<close> exactly when it leaves out some entry that the cache holds.
\<close>

theorem sharded_snapshot_truncated:
  "\<exists>sn. sharded_Snapshot lru_cache nows (sharded_run lru_cache cap lru_New xs) = Some sn \<and>
     length (srEntries sn) \<le> 256 * 50 \<and>
     srTruncated sn = (int (length (srEntries sn)) < sharded_Len lru_cache (sharded_run lru_cache cap lru_New xs))"
proof -
  let ?sc = "sharded_run lru_cache cap lru_New xs"
  let ?c = "\<lambda>i. foldl (cache_step lru_cache) (lru_New (perShard cap)) (filter (reaches i) xs)"
  let ?sn = "\<lambda>i. the (lru_Snapshot (nows i) (?c i))"
  have sn: "lru_Snapshot (nows i) (?c i) = Some (?sn i) \<and> int (length (srEntries (?sn i))) = lru_Len (?c i)" for i
    using sim_Snapshot [OF lru_run_ok(1) [of "perShard cap" "filter (reaches i) xs"], of "nows i"]
      sim_read [OF lru_run_ok(1) [of "perShard cap" "filter (reaches i) xs"]] map_items(1) by fastforce
  have "those (map (\<lambda>(i, c). mSnapshot lru_cache (nows i) c) (enumerate 0 (scShards ?sc))) = Some (map ?sn [0..<NumShards])"
    (is "those ?ys = _")
  proof -
    have "?ys = map (\<lambda>i. lru_Snapshot (nows i) (?c i)) [0..<NumShards]"
      unfolding sharded_run_shards by (auto intro!: nth_equalityI simp: nth_enumerate_eq lru_cache_def)
    with sn show ?thesis by (simp only:) (rule those_all, simp)
  qed
  moreover define t :: "SnapshotResult \<Rightarrow> Entry list" where "t = (\<lambda>snap. if length (srEntries snap) > 50 then take 50 (srEntries snap) else srEntries snap)"
  have lt: "length (t snap) = min 50 (length (srEntries snap))" for snap by (simp add: t_def)
  ultimately obtain s where s: "sharded_Snapshot lru_cache nows ?sc = Some s"
    "srEntries s = concat (map t (map ?sn [0..<NumShards]))"
    "srTruncated s = (\<exists>snap\<in>set (map ?sn [0..<NumShards]). length (srEntries snap) > 50)"
    by (auto simp: sharded_Snapshot_def t_def)
  have len: "length (srEntries s) = sum_list (map (\<lambda>i. length (t (?sn i))) [0..<NumShards])"
    by (simp add: s(2) length_concat comp_def)
  have tot: "sharded_Len lru_cache ?sc = int (sum_list (map (\<lambda>i. length (srEntries (?sn i))) [0..<NumShards]))"
    using sn unfolding sharded_Len_def sharded_run_shards by (simp add: comp_def lru_cache_def int_sum_list)
  have "sum_list (map (\<lambda>i. length (t (?sn i))) [0..<NumShards]) \<le> sum_list (map (\<lambda>_. 50) [0..<NumShards])"
    by (intro sum_list_mono) (simp add: lt)
  moreover have "srTruncated s = (length (srEntries s) < sum_list (map (\<lambda>i. length (srEntries (?sn i))) [0..<NumShards]))"
    unfolding len lt using sum_min_less(2) [of 50 "\<lambda>i. length (srEntries (?sn i))" "[0..<NumShards]"]
    by (simp add: s(3))
  ultimately show ?thesis using s(1) len tot by (auto simp: sum_list_triv)
qed

end
