(* ===== verification/Base64.thy ===== *)
theory Base64
  imports Go_Prelude
begin

text \<open>
  \<open>encoding/base64.StdEncoding\<close> of the Go standard library, as the store codec and the HTTP
  handlers use it: \<open>EncodeToString\<close> with padding, and \<open>DecodeString\<close>, which skips carriage
  returns and newlines, wants whole groups of four and allows padding in the last one only.
  Text is a list of characters, bytes are 8-bit words.
\<close>

definition b64_alphabet :: string where
  "b64_alphabet = ''ABCDEFGHIJKLMNOPQRSTUVWXYZabcdefghijklmnopqrstuvwxyz0123456789+/''"

definition b64_char :: "nat \<Rightarrow> char" where
  "b64_char n = b64_alphabet ! n"

definition b64_val :: "char \<Rightarrow> nat option" where
  "b64_val c = (let i = length (takeWhile (\<lambda>x. x \<noteq> c) b64_alphabet) in if i < 64 then Some i else None)"

fun base64_Encode :: "bytes \<Rightarrow> string" where
  "base64_Encode [] = []"
| "base64_Encode [a] =
     (let n = unat a * 16 in [b64_char (n div 64), b64_char (n mod 64), CHR ''='', CHR ''=''])"
| "base64_Encode [a, b] =
     (let n = (unat a * 256 + unat b) * 4
      in [b64_char (n div 4096), b64_char (n div 64 mod 64), b64_char (n mod 64), CHR ''=''])"
| "base64_Encode (a # b # c # rest) =
     (let n = unat a * 65536 + unat b * 256 + unat c
      in b64_char (n div 262144) # b64_char (n div 4096 mod 64) # b64_char (n div 64 mod 64) #
         b64_char (n mod 64) # base64_Encode rest)"

text \<open>The groups of four; bits that a padded last group leaves over are ignored.\<close>

fun b64_groups :: "string \<Rightarrow> bytes option" where
  "b64_groups [] = Some []"
| "b64_groups (w # x # y # z # rest) =
     (case (b64_val w, b64_val x) of
        (Some w', Some x') \<Rightarrow>
          (if y = CHR ''='' then
             (if z = CHR ''='' \<and> rest = [] then Some [word_of_nat ((w' * 64 + x') div 16)] else None)
           else case b64_val y of
             None \<Rightarrow> None
           | Some y' \<Rightarrow>
               (if z = CHR ''='' then
                  (if rest = [] then
                     (let n = (w' * 4096 + x' * 64 + y') div 4
                      in Some [word_of_nat (n div 256), word_of_nat (n mod 256)])
                   else None)
                else case b64_val z of
                  None \<Rightarrow> None
                | Some z' \<Rightarrow>
                    (let n = w' * 262144 + x' * 4096 + y' * 64 + z'
                     in map_option ((@) [word_of_nat (n div 65536), word_of_nat (n div 256 mod 256),
                                         word_of_nat (n mod 256)])
                          (b64_groups rest))))
      | _ \<Rightarrow> None)"
| "b64_groups _ = None"

definition base64_Decode :: "string \<Rightarrow> bytes option" where
  "base64_Decode s = b64_groups (filter (\<lambda>c. c \<noteq> CHR 0x0A \<and> c \<noteq> CHR 0x0D) s)"

lemma takeWhile_nth:
  "distinct xs \<Longrightarrow> n < length xs \<Longrightarrow> length (takeWhile (\<lambda>x. x \<noteq> xs ! n) xs) = n"
proof (induction xs arbitrary: n)
  case Nil
  then show ?case by simp
next
  case (Cons x xs)
  then show ?case by (cases n) auto
qed

lemma b64_alphabet_facts:
  "length b64_alphabet = 64" "distinct b64_alphabet"
  "\<forall>c\<in>set b64_alphabet. c \<noteq> CHR ''='' \<and> c \<noteq> CHR 0x0A \<and> c \<noteq> CHR 0x0D \<and> c \<noteq> CHR 0x22"
  by code_simp+

lemma b64_val_char [simp]: "n < 64 \<Longrightarrow> b64_val (b64_char n) = Some n"
  using takeWhile_nth [of b64_alphabet n] b64_alphabet_facts(1,2) by (simp add: b64_val_def b64_char_def)

lemma b64_char_facts [simp]:
  "n < 64 \<Longrightarrow> b64_char n \<noteq> CHR ''=''" "n < 64 \<Longrightarrow> b64_char n \<noteq> CHR 0x0A"
  "n < 64 \<Longrightarrow> b64_char n \<noteq> CHR 0x0D" "n < 64 \<Longrightarrow> b64_char n \<noteq> CHR 0x22"
  using b64_alphabet_facts(1,3) nth_mem [of n b64_alphabet] unfolding b64_char_def by auto

lemma byte_less: "unat (a :: 8 word) < 256"
  using unsigned_less [of a] by simp

text \<open>The text consists of characters of the alphabet and padding.\<close>

lemma b64_text: "set (base64_Encode v) \<subseteq> insert (CHR ''='') (b64_char ` {..<64})"
proof (induction v rule: base64_Encode.induct)
  case 1
  then show ?case by simp
next
  case (2 a)
  define n where "n = unat a * 16"
  have "n div 64 < 64" using byte_less [of a] by (auto simp: n_def)
  then show ?case by (simp add: Let_def n_def [symmetric])
next
  case (3 a b)
  define n where "n = (unat a * 256 + unat b) * 4"
  have "n div 4096 < 64" using byte_less [of a] byte_less [of b] by (auto simp: n_def)
  then show ?case unfolding base64_Encode.simps Let_def n_def [symmetric] by simp
next
  case (4 a b c rest)
  define n where "n = unat a * 65536 + unat b * 256 + unat c"
  have "n div 262144 < 64" using byte_less [of a] byte_less [of b] byte_less [of c] by (auto simp: n_def)
  with 4 [OF n_def] show ?case unfolding base64_Encode.simps Let_def n_def [symmetric] by simp
qed

lemma b64_free:
  assumes "x = CHR 0x0A \<or> x = CHR 0x0D \<or> x = CHR 0x22"
  shows "x \<notin> set (base64_Encode v)"
proof
  assume "x \<in> set (base64_Encode v)"
  moreover have "b64_char n \<in> set b64_alphabet" if "n < 64" for n
    using that nth_mem [of n b64_alphabet] b64_alphabet_facts(1) by (simp add: b64_char_def)
  ultimately have "x = CHR ''='' \<or> x \<in> set b64_alphabet" using b64_text [of v] by blast
  moreover have "x \<noteq> CHR ''=''" using assms by auto
  moreover have "x \<notin> set b64_alphabet" using assms b64_alphabet_facts(3) by blast
  ultimately show False by blast
qed

lemma digits64:
  fixes n :: nat
  shows "n div 4096 * 4096 + n div 64 mod 64 * 64 + n mod 64 = n"
    and "n div 262144 * 262144 + n div 4096 mod 64 * 4096 + n div 64 mod 64 * 64 + n mod 64 = n"
proof -
  have d: "n div 4096 = n div 64 div 64" "n div 262144 = n div 64 div 64 div 64" by (simp_all add: div_mult2_eq [symmetric])
  have "n div 64 * 64 + n mod 64 = n" "n div 64 div 64 * 64 + n div 64 mod 64 = n div 64"
    "n div 64 div 64 div 64 * 64 + n div 64 div 64 mod 64 = n div 64 div 64" by simp_all
  then show "n div 4096 * 4096 + n div 64 mod 64 * 64 + n mod 64 = n"
    "n div 262144 * 262144 + n div 4096 mod 64 * 4096 + n div 64 mod 64 * 64 + n mod 64 = n"
    unfolding d by linarith+
qed

lemma b64_groups_Encode: "b64_groups (base64_Encode v) = Some v"
proof (induction v rule: base64_Encode.induct)
  case 1
  then show ?case by simp
next
  case (2 a)
  define n where "n = unat a * 16"
  have "n div 64 < 64" "n div 16 = unat a" using byte_less [of a] by (auto simp: n_def)
  then show ?case unfolding base64_Encode.simps Let_def n_def [symmetric] by simp
next
  case (3 a b)
  define n where "n = (unat a * 256 + unat b) * 4"
  have "n div 4096 < 64" "n div 4 div 256 = unat a" "n div 4 mod 256 = unat b"
    using byte_less [of a] byte_less [of b] by (auto simp: n_def)
  then show ?case unfolding base64_Encode.simps Let_def n_def [symmetric] using digits64(1) [of n]
    by (simp add: Let_def)
next
  case (4 a b c rest)
  define n where "n = unat a * 65536 + unat b * 256 + unat c"
  have e: "n = unat c + 256 * (unat b + 256 * unat a)" by (simp add: n_def)
  have "n div 65536 = n div 256 div 256" by (simp add: div_mult2_eq [symmetric])
  moreover have "n div 256 = unat b + 256 * unat a" "n mod 256 = unat c"
    unfolding e using byte_less [of c] by (simp, simp only: mod_mult_self2 mod_less)
  ultimately have "n div 65536 = unat a" "n div 256 mod 256 = unat b" "n mod 256 = unat c"
    using byte_less [of b] by simp_all
  moreover have "n div 262144 < 64" using byte_less [of a] byte_less [of b] byte_less [of c] by (auto simp: n_def)
  ultimately show ?case unfolding base64_Encode.simps Let_def n_def [symmetric] using digits64(2) [of n] 4 [OF n_def]
    by (simp add: Let_def)
qed

lemma base64_Decode_Encode [simp]: "base64_Decode (base64_Encode v) = Some v"
proof -
  have "filter (\<lambda>c. c \<noteq> CHR 0x0A \<and> c \<noteq> CHR 0x0D) (base64_Encode v) = base64_Encode v"
    using b64_free [of _ v] by (intro filter_True) auto
  then show ?thesis by (simp add: base64_Decode_def b64_groups_Encode)
qed

section \<open>The unpadded URL alphabet\<close>

text \<open>
  \<open>encoding/base64.RawURLEncoding\<close>: the text of the standard encoding with \<open>-\<close> and \<open>_\<close> for \<open>+\<close>
  and \<open>/\<close> and without the padding.
\<close>

definition toURL :: "char \<Rightarrow> char" where
  "toURL c = (if c = CHR ''+'' then CHR ''-'' else if c = CHR ''/'' then CHR ''_'' else c)"

definition fromURL :: "char \<Rightarrow> char" where
  "fromURL c = (if c = CHR ''-'' then CHR ''+'' else if c = CHR ''_'' then CHR ''/'' else c)"

definition base64URL_Encode :: "bytes \<Rightarrow> string" where
  "base64URL_Encode v = map toURL (filter (\<lambda>c. c \<noteq> CHR ''='') (base64_Encode v))"

definition b64_pad :: "string \<Rightarrow> string" where
  "b64_pad s = s @ replicate ((4 - length s mod 4) mod 4) CHR ''=''"

definition base64URL_Decode :: "string \<Rightarrow> bytes option" where
  "base64URL_Decode s =
     (let t = filter (\<lambda>c. c \<noteq> CHR 0x0A \<and> c \<noteq> CHR 0x0D) s
      in if \<exists>c\<in>set t. c = CHR ''='' \<or> c = CHR ''+'' \<or> c = CHR ''/'' then None
         else b64_groups (b64_pad (map fromURL t)))"

lemma url_alphabet: "\<forall>c\<in>set b64_alphabet. fromURL (toURL c) = c \<and> toURL c \<noteq> CHR ''='' \<and> toURL c \<noteq> CHR ''+'' \<and>
    toURL c \<noteq> CHR ''/'' \<and> toURL c \<noteq> CHR ''.'' \<and> toURL c \<noteq> CHR 0x0A \<and> toURL c \<noteq> CHR 0x0D"
  by code_simp

lemma b64_char_mem: "n < 64 \<Longrightarrow> b64_char n \<in> set b64_alphabet"
  using nth_mem [of n b64_alphabet] b64_alphabet_facts(1) by (simp add: b64_char_def)

text \<open>The padding is what brings the text to whole groups of four.\<close>

lemma b64_pad_group: "b64_pad (w # x # y # z # s) = w # x # y # z # b64_pad s"
proof -
  have "Suc (Suc (Suc (Suc (length s)))) mod 4 = length s mod 4" by presburger
  then show ?thesis by (simp only: b64_pad_def length_Cons append_Cons)
qed

lemma b64_pad_last: "b64_pad [] = []" "b64_pad [w, x] = [w, x, CHR ''='', CHR ''='']" "b64_pad [w, x, y] = [w, x, y, CHR ''='']"
proof -
  have "replicate 2 CHR ''='' = [CHR ''='', CHR ''='']" "replicate 1 CHR ''='' = [CHR ''='']" by code_simp+
  then show "b64_pad [] = []" "b64_pad [w, x] = [w, x, CHR ''='', CHR ''='']" "b64_pad [w, x, y] = [w, x, y, CHR ''='']"
    by (simp_all add: b64_pad_def)
qed

abbreviation no_pad :: "char \<Rightarrow> bool" where
  "no_pad c \<equiv> c \<noteq> CHR ''=''"

lemma b64_padding: "b64_pad (filter no_pad (base64_Encode v)) = base64_Encode v"
proof (induction v rule: base64_Encode.induct)
  case 1
  then show ?case by (simp add: b64_pad_last)
next
  case (2 a)
  define n where "n = unat a * 16"
  have "n div 64 < 64" using byte_less [of a] by (auto simp: n_def)
  then show ?case unfolding base64_Encode.simps Let_def n_def [symmetric] by (simp add: b64_pad_last)
next
  case (3 a b)
  define n where "n = (unat a * 256 + unat b) * 4"
  have "n div 4096 < 64" using byte_less [of a] byte_less [of b] by (auto simp: n_def)
  then show ?case unfolding base64_Encode.simps Let_def n_def [symmetric] by (simp add: b64_pad_last)
next
  case (4 a b c rest)
  define n where "n = unat a * 65536 + unat b * 256 + unat c"
  define s where "s = base64_Encode rest"
  have n: "n div 262144 < 64" using byte_less [of a] byte_less [of b] byte_less [of c] by (auto simp: n_def)
  have f: "filter no_pad (b64_char (n div 262144) # b64_char (n div 4096 mod 64) # b64_char (n div 64 mod 64) #
      b64_char (n mod 64) # s) = b64_char (n div 262144) # b64_char (n div 4096 mod 64) # b64_char (n div 64 mod 64) #
      b64_char (n mod 64) # filter no_pad s" using n by simp
  show ?case using 4 [OF n_def] unfolding base64_Encode.simps Let_def n_def [symmetric] s_def [symmetric] f b64_pad_group
    by (simp only:)
qed

lemma url_text: "set (base64URL_Encode v) \<subseteq> toURL ` set b64_alphabet"
  using b64_text [of v] b64_char_mem by (auto simp: base64URL_Encode_def)

lemma url_char:
  assumes "c \<in> set (base64URL_Encode v)"
  shows "c \<noteq> CHR ''='' \<and> c \<noteq> CHR ''+'' \<and> c \<noteq> CHR ''/'' \<and> c \<noteq> CHR ''.'' \<and> c \<noteq> CHR 0x0A \<and> c \<noteq> CHR 0x0D"
proof -
  from assms url_text [of v] obtain d where "d \<in> set b64_alphabet" "c = toURL d" by blast
  with bspec [OF url_alphabet this(1)] show ?thesis by simp
qed

lemma base64URL_free: "CHR ''.'' \<notin> set (base64URL_Encode v)"
  using url_char by blast

lemma base64URL_Decode_Encode [simp]: "base64URL_Decode (base64URL_Encode v) = Some v"
proof -
  let ?f = "filter (\<lambda>c. c \<noteq> CHR ''='') (base64_Encode v)"
  have f: "set ?f \<subseteq> set b64_alphabet" using b64_text [of v] b64_char_mem by auto
  then have bk: "map fromURL (map toURL ?f) = ?f" unfolding map_map using url_alphabet by (intro map_idI) auto
  have t: "filter (\<lambda>c. c \<noteq> CHR 0x0A \<and> c \<noteq> CHR 0x0D) (base64URL_Encode v) = base64URL_Encode v"
    using url_char by (intro filter_True) blast
  have n: "\<not> (\<exists>c\<in>set (base64URL_Encode v). c = CHR ''='' \<or> c = CHR ''+'' \<or> c = CHR ''/'')"
    using url_char by blast
  have "base64URL_Decode (base64URL_Encode v) = b64_groups (b64_pad (map fromURL (map toURL ?f)))"
    using n unfolding base64URL_Decode_def t Let_def by (simp only: if_False base64URL_Encode_def)
  also have "\<dots> = b64_groups (base64_Encode v)" unfolding bk b64_padding ..
  finally show ?thesis by (simp add: b64_groups_Encode)
qed

end
