(* ===== verification/Decimal.thy ===== *)
theory Decimal
  imports Go_Prelude
begin

text \<open>
  Decimal numerals as the Go standard library prints them (\<open>strconv\<close>, \<open>%d\<close>, JSON numbers) and
  reads them back. The codec prints an expiry this way, the handlers and workloads their keys.
\<close>

definition digit :: "nat \<Rightarrow> char" where
  "digit d = char_of (48 + d)"

fun showNat :: "nat \<Rightarrow> string" where
  "showNat n = (if n < 10 then [digit n] else showNat (n div 10) @ [digit (n mod 10)])"

declare showNat.simps [simp del]

definition showInt :: "int \<Rightarrow> string" where
  "showInt i = (if i < 0 then CHR ''-'' # showNat (nat (- i)) else showNat (nat i))"

definition isDigit :: "char \<Rightarrow> bool" where
  "isDigit c = (48 \<le> (of_char c :: nat) \<and> (of_char c :: nat) \<le> 57)"

definition readNat :: "string \<Rightarrow> nat" where
  "readNat s = foldl (\<lambda>a c. 10 * a + (of_char c - 48)) 0 s"

definition readInt :: "string \<Rightarrow> int" where
  "readInt s = (case s of [] \<Rightarrow> 0 | c # cs \<Rightarrow> if c = CHR ''-'' then - int (readNat cs) else int (readNat s))"

lemma of_char_digit [simp]: "d < 10 \<Longrightarrow> of_char (digit d) = (48 + d :: nat)"
  by (simp add: digit_def)

lemma isDigit_digit [simp]: "d < 10 \<Longrightarrow> isDigit (digit d)"
  by (simp add: isDigit_def)

lemma readNat_append: "readNat (xs @ [c]) = 10 * readNat xs + (of_char c - 48)"
  by (simp add: readNat_def)

lemma readNat_showNat [simp]: "readNat (showNat n) = n"
proof (induction n rule: showNat.induct)
  case (1 n)
  then show ?case
    by (subst showNat.simps) (auto simp: readNat_append, simp add: readNat_def)
qed

lemma digits_showNat: "c \<in> set (showNat n) \<Longrightarrow> isDigit c"
proof (induction n rule: showNat.induct)
  case (1 n)
  from 1(2) show ?case
    by (subst (asm) showNat.simps) (auto split: if_splits intro: 1(1))
qed

lemma showNat_nonempty [simp]: "showNat n \<noteq> []"
  by (subst showNat.simps) simp

lemma readInt_showInt [simp]: "readInt (showInt i) = i"
proof (cases "i < 0")
  case True
  then show ?thesis by (simp add: readInt_def showInt_def)
next
  case False
  obtain c cs where s: "showNat (nat i) = c # cs" by (cases "showNat (nat i)") auto
  have "c \<noteq> CHR ''-''" using digits_showNat [of c "nat i"] s by (auto simp: isDigit_def)
  with False s readNat_showNat [of "nat i"] show ?thesis by (simp add: readInt_def showInt_def)
qed

lemma showInt_inj: "showInt i = showInt j \<longleftrightarrow> i = j"
  by (metis readInt_showInt)

lemma showInt_chars: "c \<in> set (showInt i) \<Longrightarrow> c = CHR ''-'' \<or> isDigit c"
  using digits_showNat [of c] by (auto simp: showInt_def split: if_splits)

end
