(* ===== verification/Codec.thy ===== *)
theory Codec
  imports Base64 Decimal
begin

text \<open>
  internal/store/codec.go: how a value and its expiry are written to a backing store. A value
  without expiry is stored as it is; one with expiry becomes a prefix and a JSON envelope with
  the expiry in nanoseconds (an \<open>int64\<close>, so it wraps) and the value in base64.

  \<open>json.Marshal\<close> of the envelope is modelled: its base64 text has no character that JSON
  escapes, and the call cannot fail. \<open>json.Unmarshal\<close>, which reads any bytes that start with the
  prefix, is the argument \<open>unmarshal\<close> (\<open>None\<close> is an error); the lemmas need only that it reads
  back an envelope that \<open>json.Marshal\<close> wrote (locale \<open>envelope_reader\<close>). \<open>parseEnvelope\<close> is
  a reader for exactly those texts, which shows that such functions exist.
\<close>

definition toBytes :: "string \<Rightarrow> bytes" where
  "toBytes s = map of_char s"

definition ofBytes :: "bytes \<Rightarrow> string" where
  "ofBytes v = map (\<lambda>b. char_of (unat b)) v"

definition ttlEnvelopePrefix :: string where
  "ttlEnvelopePrefix = ''__cache_engine_ttl_v1__:''"

record ttlEnvelope =
  teExpiresAtUnixNano :: int64
  teValue :: string

definition marshalEnvelope :: "ttlEnvelope \<Rightarrow> bytes" where
  \<open>marshalEnvelope env = toBytes
     (''{"expiresAtUnixNano":'' @ showInt (sint (teExpiresAtUnixNano env)) @
      '',"value":"'' @ teValue env @ ''"}'')\<close>

definition cloneBytes :: "bytes \<Rightarrow> bytes" where
  "cloneBytes src = map (\<lambda>b. b) src"

definition encodeForStore :: "bytes \<Rightarrow> Time \<Rightarrow> error + bytes" where
  "encodeForStore value expiresAt =
     (case expiresAt of
        None \<Rightarrow> Inr (cloneBytes value)
      | Some t \<Rightarrow>
          (let payload = marshalEnvelope \<lparr>teExpiresAtUnixNano = word_of_int t, teValue = base64_Encode value\<rparr>
           in Inr (toBytes ttlEnvelopePrefix @ payload)))"

definition hasPrefix :: "bytes \<Rightarrow> bytes \<Rightarrow> bool" where
  "hasPrefix s pre = (take (length pre) s = pre)"

definition decodeFromStore :: "(bytes \<Rightarrow> ttlEnvelope option) \<Rightarrow> bytes \<Rightarrow> error + bytes \<times> Time" where
  "decodeFromStore unmarshal raw =
     (if \<not> hasPrefix raw (toBytes ttlEnvelopePrefix) then Inr (cloneBytes raw, None)
      else case unmarshal (drop (length ttlEnvelopePrefix) raw) of
             None \<Rightarrow> Inr (cloneBytes raw, None)
           | Some env \<Rightarrow>
               (case base64_Decode (teValue env) of
                  None \<Rightarrow> Inl ''illegal base64 data''
                | Some value \<Rightarrow> Inr (value, Some (sint (teExpiresAtUnixNano env)))))"

text \<open>The remaining lifetime at \<open>now\<close>, 0 for none, and whether it is over.\<close>

definition ttlFromExpiry :: "instant \<Rightarrow> Time \<Rightarrow> duration \<times> bool" where
  "ttlFromExpiry now expiresAt =
     (case expiresAt of
        None \<Rightarrow> (0, False)
      | Some t \<Rightarrow> (let ttl = t - now in if ttl \<le> 0 then (0, True) else (ttl, False)))"

section \<open>Round trip\<close>

lemma cloneBytes_id [simp]: "cloneBytes v = v"
  by (simp add: cloneBytes_def)

lemma length_toBytes [simp]: "length (toBytes s) = length s"
  by (simp add: toBytes_def)

lemma toBytes_append [simp]: "toBytes (s @ t) = toBytes s @ toBytes t"
  by (simp add: toBytes_def)

lemma char_of_byte: "char_of (unat (of_char c :: 8 word)) = c"
proof -
  have "(of_char c :: nat) < 256" by (rule nat_of_char_less_256)
  then have "unat (of_nat (of_char c) :: 8 word) = (of_char c :: nat)" by (simp add: unat_of_nat)
  then have "unat (of_char c :: 8 word) = (of_char c :: nat)" by (simp only: of_nat_of_char)
  then show ?thesis by (simp only: char_of_char)
qed

lemma ofBytes_toBytes [simp]: "ofBytes (toBytes s) = s"
  by (simp add: ofBytes_def toBytes_def comp_def char_of_byte)

text \<open>The values of a plain \<open>Set\<close> that the store does not mistake for an envelope.\<close>

definition plainValue :: "bytes \<Rightarrow> bool" where
  "plainValue v = (\<not> hasPrefix v (toBytes ttlEnvelopePrefix))"

text \<open>The expiries that fit the envelope's \<open>int64\<close>: the years 1677 to 2262.\<close>

definition int64Time :: "Time \<Rightarrow> bool" where
  "int64Time e = (case e of None \<Rightarrow> True | Some t \<Rightarrow> - (2 ^ 63) \<le> t \<and> t < 2 ^ 63)"

lemma sint_int64: "- (2 ^ 63) \<le> t \<Longrightarrow> t < 2 ^ 63 \<Longrightarrow> sint (word_of_int t :: int64) = t"
  by (transfer, simp add: signed_take_bit_int_eq_self)

locale envelope_reader =
  fixes unmarshal :: "bytes \<Rightarrow> ttlEnvelope option"
  assumes unmarshal_marshal:
    "teValue env = base64_Encode v \<Longrightarrow> unmarshal (marshalEnvelope env) = Some env"
begin

lemma decode_encode:
  assumes "encodeForStore v e = Inr raw" and "e = None \<Longrightarrow> plainValue v" and "int64Time e"
  shows "decodeFromStore unmarshal raw = Inr (v, e)"
proof (cases e)
  case None
  with assms show ?thesis by (simp add: encodeForStore_def decodeFromStore_def plainValue_def)
next
  case (Some t)
  let ?env = "\<lparr>teExpiresAtUnixNano = word_of_int t, teValue = base64_Encode v\<rparr>"
  have raw: "raw = toBytes ttlEnvelopePrefix @ marshalEnvelope ?env"
    using assms(1) Some by (simp add: encodeForStore_def Let_def)
  have "sint (word_of_int t :: int64) = t" using assms(3) Some by (intro sint_int64) (simp_all add: int64Time_def)
  with unmarshal_marshal [of ?env v] Some show ?thesis
    by (simp add: decodeFromStore_def hasPrefix_def raw)
qed

end

section \<open>A reader of envelopes\<close>

definition stripPrefix :: "string \<Rightarrow> string \<Rightarrow> string option" where
  "stripPrefix p s = (if take (length p) s = p then Some (drop (length p) s) else None)"

definition parseEnvelope :: "bytes \<Rightarrow> ttlEnvelope option" where
  \<open>parseEnvelope raw =
     (case stripPrefix ''{"expiresAtUnixNano":'' (ofBytes raw) of
        None \<Rightarrow> None
      | Some s \<Rightarrow>
          (let num = (\<lambda>c. c = CHR ''-'' \<or> isDigit c)
           in case stripPrefix '',"value":"'' (dropWhile num s) of
                None \<Rightarrow> None
              | Some s' \<Rightarrow>
                  (if dropWhile (\<lambda>c. c \<noteq> CHR 0x22) s' = ''"}''
                   then Some \<lparr>teExpiresAtUnixNano = word_of_int (readInt (takeWhile num s)),
                              teValue = takeWhile (\<lambda>c. c \<noteq> CHR 0x22) s'\<rparr>
                   else None)))\<close>

lemma stripPrefix_append [simp]: "stripPrefix p (p @ s) = Some s"
  by (simp add: stripPrefix_def)

interpretation parsed: envelope_reader parseEnvelope
proof
  fix env :: ttlEnvelope and v assume v: "teValue env = base64_Encode v"
  let ?num = "\<lambda>c. c = CHR ''-'' \<or> isDigit c" and ?n = "showInt (sint (teExpiresAtUnixNano env))"
  let ?rest = \<open>'',"value":"'' @ teValue env @ ''"}''\<close>
  have n: "\<forall>c\<in>set ?n. ?num c" using showInt_chars by blast
  have "\<not> ?num (CHR '','')" by (simp add: isDigit_def)
  with n have w: "takeWhile ?num (?n @ ?rest) = ?n" "dropWhile ?num (?n @ ?rest) = ?rest"
    by (simp_all add: takeWhile_append2 dropWhile_append2)
  have q: "\<forall>c\<in>set (teValue env). c \<noteq> CHR 0x22" using v b64_free by metis
  then have t: \<open>takeWhile (\<lambda>c. c \<noteq> CHR 0x22) (teValue env @ ''"}'') = teValue env\<close>
      \<open>dropWhile (\<lambda>c. c \<noteq> CHR 0x22) (teValue env @ ''"}'') = ''"}''\<close>
    by (simp_all add: takeWhile_append2 dropWhile_append2)
  have "ofBytes (marshalEnvelope env) = ''{\"expiresAtUnixNano\":'' @ ?n @ ?rest"
    by (simp only: marshalEnvelope_def ofBytes_toBytes)
  then show "parseEnvelope (marshalEnvelope env) = Some env"
    unfolding parseEnvelope_def by (simp only: stripPrefix_append option.case Let_def w t) simp
qed

section \<open>Properties\<close>

text \<open>
  C38: what \<open>encodeForStore\<close> writes, \<open>decodeFromStore\<close> reads back, value and expiry, provided that a
  value without expiry does not start with the envelope's prefix and that the expiry fits the
  64 bits of \<open>UnixNano\<close>.
\<close>

theorem codec_roundtrip:
  assumes "encodeForStore v e = Inr raw" and "e = None \<Longrightarrow> plainValue v" and "int64Time e"
    and "\<forall>env v. teValue env = base64_Encode v \<longrightarrow> unmarshal (marshalEnvelope env) = Some env"
  shows "decodeFromStore unmarshal raw = Inr (v, e)"
proof (rule envelope_reader.decode_encode [OF _ assms(1-3)])
  show "envelope_reader unmarshal" using assms(4) by (simp add: envelope_reader_def)
qed

lemma codec_roundtrip_witness:
  "decodeFromStore parseEnvelope (toBytes ttlEnvelopePrefix @
     marshalEnvelope \<lparr>teExpiresAtUnixNano = word_of_int 5, teValue = base64_Encode [7]\<rparr>) = Inr ([7], Some 5)"
  by (rule codec_roundtrip [where e = "Some 5"])
     (use parsed.unmarshal_marshal in \<open>auto simp: encodeForStore_def Let_def int64Time_def\<close>)

text \<open>
  the encoding is ambiguous: every stored envelope is also what some plain value without
  expiry is stored as, so the store reads that value back as another value with an expiry.
\<close>

theorem codec_ambiguous:
  "\<exists>raw. encodeForStore raw None = encodeForStore v (Some t) \<and> \<not> plainValue raw"
  by (rule exI [where x = "toBytes ttlEnvelopePrefix @
        marshalEnvelope \<lparr>teExpiresAtUnixNano = word_of_int t, teValue = base64_Encode v\<rparr>"])
     (simp add: encodeForStore_def plainValue_def hasPrefix_def)

end
