(* ===== verification/Backing_Store.thy ===== *)
theory Backing_Store
  imports Codec Cache_Types
begin

text \<open>
  internal/store/store.go and memory.go: the \<open>BackingStore\<close> interface as a method table, the
  in-memory store, and the contract of a store whose calls succeed. A call gets a context; what
  matters of it is whether it ends during the call, so a table is built for a context outcome
  \<open>ctx\<close>: \<open>Some e\<close> when the context is done with the error \<open>e\<close> before the simulated latency is
  over, \<open>None\<close> when it is not. A result of type \<open>error + bytes\<close> is the pair \<open>([]byte, error)\<close>.
\<close>

section \<open>The interface (store.go)\<close>

record 's BackingStore =
  bGet :: "key \<Rightarrow> 's \<Rightarrow> (error + bytes) \<times> 's"
  bSet :: "key \<Rightarrow> bytes \<Rightarrow> 's \<Rightarrow> error option \<times> 's"
  bDelete :: "key \<Rightarrow> 's \<Rightarrow> error option \<times> 's"

section \<open>The in-memory store (memory.go)\<close>

record MemoryStore =
  msData :: "(key, bytes) gomap"
  msLatencyNs :: duration

definition NewMemoryStore :: "duration \<Rightarrow> MemoryStore" where
  "NewMemoryStore latency = \<lparr>msData = [], msLatencyNs = latency\<rparr>"

definition memory_SetLatency :: "duration \<Rightarrow> MemoryStore \<Rightarrow> MemoryStore" where
  "memory_SetLatency d m = m\<lparr>msLatencyNs := d\<rparr>"

definition memory_GetLatency :: "MemoryStore \<Rightarrow> duration" where
  "memory_GetLatency m = msLatencyNs m"

definition memory_sleep :: "error option \<Rightarrow> MemoryStore \<Rightarrow> error option" where
  "memory_sleep ctx m = (if msLatencyNs m \<le> 0 then None else ctx)"

definition memory_Get :: "error option \<Rightarrow> key \<Rightarrow> MemoryStore \<Rightarrow> (error + bytes) \<times> MemoryStore" where
  "memory_Get ctx k m =
     (case memory_sleep ctx m of
        Some e \<Rightarrow> (Inl e, m)
      | None \<Rightarrow>
          (case map_of (msData m) k of
             None \<Rightarrow> (Inl (''key not found: '' @ k), m)
           | Some v \<Rightarrow> (Inr (cloneBytes v), m)))"

definition memory_Set :: "error option \<Rightarrow> key \<Rightarrow> bytes \<Rightarrow> MemoryStore \<Rightarrow> error option \<times> MemoryStore" where
  "memory_Set ctx k v m =
     (case memory_sleep ctx m of
        Some e \<Rightarrow> (Some e, m)
      | None \<Rightarrow> (None, m\<lparr>msData := AList.update k (cloneBytes v) (msData m)\<rparr>))"

definition memory_Delete :: "error option \<Rightarrow> key \<Rightarrow> MemoryStore \<Rightarrow> error option \<times> MemoryStore" where
  "memory_Delete ctx k m =
     (case memory_sleep ctx m of
        Some e \<Rightarrow> (Some e, m)
      | None \<Rightarrow> (None, m\<lparr>msData := AList.delete k (msData m)\<rparr>))"

definition memory_Keys :: "MemoryStore \<Rightarrow> key list" where
  "memory_Keys m = map fst (msData m)"

definition memory_store :: "error option \<Rightarrow> MemoryStore BackingStore" where
  "memory_store ctx = \<lparr>bGet = memory_Get ctx, bSet = memory_Set ctx, bDelete = memory_Delete ctx\<rparr>"

section \<open>The contract of a store that answers\<close>

text \<open>
  What the write policies rely on: a store holds the bytes last set under each key, and its
  calls succeed as long as it is \<open>ready\<close>, which they leave it (a read of an absent key is an error).
  \<open>failing_store\<close> is a store whose calls may fail: then it stays as it is.
\<close>

locale reliable_store =
  fixes B :: "'s BackingStore" and content :: "'s \<Rightarrow> key \<rightharpoonup> bytes" and ready :: "'s \<Rightarrow> bool"
  assumes bget: "ready s \<Longrightarrow> bGet B k s = (r, s') \<Longrightarrow>
      ready s' \<and> content s' = content s \<and> (case content s k of None \<Rightarrow> \<exists>e. r = Inl e | Some v \<Rightarrow> r = Inr v)"
    and bset: "ready s \<Longrightarrow> bSet B k v s = (err, s') \<Longrightarrow> ready s' \<and> err = None \<and> content s' = (content s)(k \<mapsto> v)"
    and bdelete: "ready s \<Longrightarrow> bDelete B k s = (err, s') \<Longrightarrow> ready s' \<and> err = None \<and> content s' = (content s)(k := None)"

locale failing_store =
  fixes B :: "'s BackingStore" and content :: "'s \<Rightarrow> key \<rightharpoonup> bytes"
  assumes bget_any: "bGet B k s = (r, s') \<Longrightarrow>
      content s' = content s \<and> (\<forall>v. r = Inr v \<longrightarrow> content s k = Some v)"
    and bset_any: "bSet B k v s = (err, s') \<Longrightarrow>
      content s' = (if err = None then (content s)(k \<mapsto> v) else content s)"
    and bdelete_any: "bDelete B k s = (err, s') \<Longrightarrow>
      content s' = (if err = None then (content s)(k := None) else content s)"

definition memory_content :: "MemoryStore \<Rightarrow> key \<rightharpoonup> bytes" where
  "memory_content m = map_of (msData m)"

lemma memory_laws:
  "memory_Get ctx k m = (r, m') \<Longrightarrow> m' = m \<and> (\<forall>v. r = Inr v \<longrightarrow> memory_content m k = Some v)"
  "memory_Set ctx k v m = (err, m') \<Longrightarrow>
     memory_content m' = (if err = None then (memory_content m)(k \<mapsto> v) else memory_content m)"
  "memory_Delete ctx k m = (err, m') \<Longrightarrow>
     memory_content m' = (if err = None then (memory_content m)(k := None) else memory_content m)"
  by (auto simp: memory_Get_def memory_Set_def memory_Delete_def memory_content_def
      map_of_update_upd map_of_delete_upd split: option.splits)

interpretation memory: failing_store "memory_store ctx" memory_content
proof
  fix k s r s' assume "bGet (memory_store ctx) k s = (r, s')"
  with memory_laws(1) [of ctx k s r s']
  show "memory_content s' = memory_content s \<and> (\<forall>v. r = Inr v \<longrightarrow> memory_content s k = Some v)"
    by (auto simp: memory_store_def)
qed (auto simp: memory_store_def dest: memory_laws(2,3))

interpretation memoryOk: reliable_store "memory_store None" memory_content "\<lambda>m. True"
  by unfold_locales
     (auto simp: memory_store_def memory_Get_def memory_Set_def memory_Delete_def memory_sleep_def
        memory_content_def map_of_update_upd map_of_delete_upd split: option.splits if_splits)

end
