(* ===== verification/Write_Policies.thy ===== *)
theory Write_Policies
  imports Backing_Store LRU_Contract LFU_Contract ARC_Contract
begin

text \<open>
  internal/store/writethrough.go and writearound.go: two wrappers of a cache and a backing store.
  They are generic in the method table \<open>M\<close> of the inner cache, the table \<open>B\<close> of the store and the
  reader \<open>um\<close> of envelopes. Each method reads the clock where the code does: \<open>now\<close> first, \<open>t2\<close>
  for \<open>time.Until\<close> and \<open>t3\<close> in the inner \<open>Set\<close>; the method tables use one reading for all of
  them. A \<open>Get\<close> that fills the cache may evict; its callbacks are the second component. Errors
  that the code only logs leave no trace in the model.
\<close>

record ('c, 's) WriteCache =
  wcInner :: 'c
  wcStore :: 's

definition addWriteStoreOps :: "Stats \<Rightarrow> Stats" where
  "addWriteStoreOps s = s\<lparr>WriteStoreOps := WriteStoreOps s + 1\<rparr>"

definition addReadStoreOps :: "Stats \<Rightarrow> Stats" where
  "addReadStoreOps s = s\<lparr>ReadStoreOps := ReadStoreOps s + 1\<rparr>"

section \<open>Write-through\<close>

definition wt_Set :: "'c Cache \<Rightarrow> 's BackingStore \<Rightarrow> instant \<Rightarrow> instant \<Rightarrow> key \<Rightarrow> bytes \<Rightarrow> duration \<Rightarrow>
    ('c, 's) WriteCache \<Rightarrow> error option \<times> evictCall list \<times> ('c, 's) WriteCache" where
  "wt_Set M B now t3 k v ttl w =
     (let expiresAt = expiryOf now ttl
      in case encodeForStore v expiresAt of
           Inl e \<Rightarrow> (Some (''encode backing store value: '' @ e), [], w)
         | Inr encoded \<Rightarrow>
             (case bSet B k encoded (wcStore w) of
                (Some e, st) \<Rightarrow> (Some (''backing store write failed: '' @ e), [], w\<lparr>wcStore := st\<rparr>)
              | (None, st) \<Rightarrow>
                  (let c = mUpdStats M addWriteStoreOps (wcInner w);
                       (err, evs, c') = mSet M t3 k v ttl c
                   in (err, evs, \<lparr>wcInner = c', wcStore = st\<rparr>))))"

definition wt_Get :: "'c Cache \<Rightarrow> 's BackingStore \<Rightarrow> (bytes \<Rightarrow> ttlEnvelope option) \<Rightarrow> instant \<Rightarrow> instant \<Rightarrow>
    instant \<Rightarrow> key \<Rightarrow> ('c, 's) WriteCache \<Rightarrow> bytes option \<times> evictCall list \<times> ('c, 's) WriteCache" where
  "wt_Get M B um now t2 t3 k w =
     (let (hit, c) = mGet M now k (wcInner w)
      in case hit of
           Some v \<Rightarrow> (Some v, [], w\<lparr>wcInner := c\<rparr>)
         | None \<Rightarrow>
             (let (raw, st) = bGet B k (wcStore w); w1 = \<lparr>wcInner = c, wcStore = st\<rparr>
              in case raw of
                   Inl e \<Rightarrow> (None, [], w1)
                 | Inr bs \<Rightarrow>
                     (case decodeFromStore um bs of
                        Inl e \<Rightarrow> (None, [], w1)
                      | Inr (v, expiresAt) \<Rightarrow>
                          (let (ttl, expd) = ttlFromExpiry t2 expiresAt
                           in if expd then (None, [], w1\<lparr>wcStore := snd (bDelete B k st)\<rparr>)
                              else (let c1 = mUpdStats M addReadStoreOps c;
                                        (err, evs, c2) = mSet M t3 k v ttl c1
                                    in (Some v, evs, w1\<lparr>wcInner := c2\<rparr>))))))"

definition wt_Delete :: "'c Cache \<Rightarrow> 's BackingStore \<Rightarrow> key \<Rightarrow> ('c, 's) WriteCache \<Rightarrow>
    bool \<times> ('c, 's) WriteCache" where
  "wt_Delete M B k w =
     (let st = snd (bDelete B k (wcStore w)); (found, c) = mDelete M k (wcInner w)
      in (found, \<lparr>wcInner = c, wcStore = st\<rparr>))"

text \<open>The other methods call the inner cache.\<close>

definition wt_Peek :: "'c Cache \<Rightarrow> instant \<Rightarrow> key \<Rightarrow> ('c, 's) WriteCache \<Rightarrow> bytes option \<times> ('c, 's) WriteCache" where
  "wt_Peek M now k w = (let (r, c) = mPeek M now k (wcInner w) in (r, w\<lparr>wcInner := c\<rparr>))"

definition wt_cache :: "'c Cache \<Rightarrow> 's BackingStore \<Rightarrow> (bytes \<Rightarrow> ttlEnvelope option) \<Rightarrow>
    ('c, 's) WriteCache Cache" where
  "wt_cache M B um = \<lparr>mGet = (\<lambda>now k w. let (r, evs, w') = wt_Get M B um now now now k w in (r, w')),
     mSet = (\<lambda>now. wt_Set M B now now), mDelete = wt_Delete M B, mPeek = wt_Peek M,
     mKeys = (\<lambda>now w. mKeys M now (wcInner w)), mLen = (\<lambda>w. mLen M (wcInner w)),
     mCapacity = (\<lambda>w. mCapacity M (wcInner w)), mStats = (\<lambda>w. mStats M (wcInner w)),
     mUpdStats = (\<lambda>f w. w\<lparr>wcInner := mUpdStats M f (wcInner w)\<rparr>),
     mSnapshot = (\<lambda>now w. mSnapshot M now (wcInner w)),
     mPurge = (\<lambda>w. w\<lparr>wcInner := mPurge M (wcInner w)\<rparr>),
     mSetEvictionCallback = (\<lambda>b w. w\<lparr>wcInner := mSetEvictionCallback M b (wcInner w)\<rparr>)\<rparr>"

section \<open>Write-around\<close>

definition wa_Set :: "'c Cache \<Rightarrow> 's BackingStore \<Rightarrow> instant \<Rightarrow> key \<Rightarrow> bytes \<Rightarrow> duration \<Rightarrow>
    ('c, 's) WriteCache \<Rightarrow> error option \<times> evictCall list \<times> ('c, 's) WriteCache" where
  "wa_Set M B now k v ttl w =
     (let expiresAt = expiryOf now ttl
      in case encodeForStore v expiresAt of
           Inl e \<Rightarrow> (Some (''encode backing store value: '' @ e), [], w)
         | Inr encoded \<Rightarrow>
             (case bSet B k encoded (wcStore w) of
                (Some e, st) \<Rightarrow> (Some e, [], w\<lparr>wcStore := st\<rparr>)
              | (None, st) \<Rightarrow>
                  (None, [], \<lparr>wcInner = mUpdStats M addWriteStoreOps (wcInner w), wcStore = st\<rparr>)))"

definition wa_Get :: "'c Cache \<Rightarrow> 's BackingStore \<Rightarrow> (bytes \<Rightarrow> ttlEnvelope option) \<Rightarrow> instant \<Rightarrow> instant \<Rightarrow>
    key \<Rightarrow> ('c, 's) WriteCache \<Rightarrow> bytes option \<times> ('c, 's) WriteCache" where
  "wa_Get M B um now t2 k w =
     (let (hit, c) = mGet M now k (wcInner w)
      in case hit of
           Some v \<Rightarrow> (Some v, w\<lparr>wcInner := c\<rparr>)
         | None \<Rightarrow>
             (let (raw, st) = bGet B k (wcStore w); w1 = \<lparr>wcInner = c, wcStore = st\<rparr>
              in case raw of
                   Inl e \<Rightarrow> (None, w1)
                 | Inr bs \<Rightarrow>
                     (case decodeFromStore um bs of
                        Inl e \<Rightarrow> (None, w1)
                      | Inr (v, expiresAt) \<Rightarrow>
                          if snd (ttlFromExpiry t2 expiresAt)
                          then (None, w1\<lparr>wcStore := snd (bDelete B k st)\<rparr>)
                          else (Some v, w1\<lparr>wcInner := mUpdStats M addReadStoreOps c\<rparr>))))"

definition wa_Delete :: "'c Cache \<Rightarrow> 's BackingStore \<Rightarrow> key \<Rightarrow> ('c, 's) WriteCache \<Rightarrow>
    bool \<times> ('c, 's) WriteCache" where
  "wa_Delete M B k w =
     (let st = snd (bDelete B k (wcStore w)); (found, c) = mDelete M k (wcInner w)
      in (found, \<lparr>wcInner = c, wcStore = st\<rparr>))"

definition wa_Peek :: "'c Cache \<Rightarrow> instant \<Rightarrow> key \<Rightarrow> ('c, 's) WriteCache \<Rightarrow> bytes option \<times> ('c, 's) WriteCache" where
  "wa_Peek M now k w = (let (r, c) = mPeek M now k (wcInner w) in (r, w\<lparr>wcInner := c\<rparr>))"

definition wa_cache :: "'c Cache \<Rightarrow> 's BackingStore \<Rightarrow> (bytes \<Rightarrow> ttlEnvelope option) \<Rightarrow>
    ('c, 's) WriteCache Cache" where
  "wa_cache M B um = \<lparr>mGet = (\<lambda>now. wa_Get M B um now now), mSet = wa_Set M B, mDelete = wa_Delete M B,
     mPeek = wa_Peek M, mKeys = (\<lambda>now w. mKeys M now (wcInner w)), mLen = (\<lambda>w. mLen M (wcInner w)),
     mCapacity = (\<lambda>w. mCapacity M (wcInner w)), mStats = (\<lambda>w. mStats M (wcInner w)),
     mUpdStats = (\<lambda>f w. w\<lparr>wcInner := mUpdStats M f (wcInner w)\<rparr>),
     mSnapshot = (\<lambda>now w. mSnapshot M now (wcInner w)),
     mPurge = (\<lambda>w. w\<lparr>wcInner := mPurge M (wcInner w)\<rparr>),
     mSetEvictionCallback = (\<lambda>b w. w\<lparr>wcInner := mSetEvictionCallback M b (wcInner w)\<rparr>)\<rparr>"

section \<open>What the wrappers stand for\<close>

text \<open>
  The map that a wrapper with a durable store stands for: the latest \<open>Set\<close> of each key that no
  \<open>Delete\<close> has followed. A purge empties the cache, not the store.
\<close>

fun durable_step :: "(key \<rightharpoonup> bytes \<times> Time) \<Rightarrow> cacheOp \<Rightarrow> (key \<rightharpoonup> bytes \<times> Time)" where
  "durable_step m (OpSet now k v ttl) = m(k \<mapsto> (v, expiryOf now ttl))"
| "durable_step m (OpDelete k) = m(k := None)"
| "durable_step m _ = m"

text \<open>The clock of an operation, and the values and expiries that the codec can carry.\<close>

fun op_time :: "cacheOp \<Rightarrow> instant list" where
  "op_time (OpGet now k) = [now]"
| "op_time (OpSet now k v ttl) = [now]"
| "op_time (OpPeek now k) = [now]"
| "op_time _ = []"

fun storable :: "cacheOp \<Rightarrow> bool" where
  "storable (OpSet now k v ttl) = (int64Time (expiryOf now ttl) \<and> (expiryOf now ttl = None \<longrightarrow> plainValue v))"
| "storable _ = True"

text \<open>Over at \<open>now\<close>, the way the wrappers read the store (\<open>time.Until(e) \<le> 0\<close>).\<close>

abbreviation over :: "instant \<Rightarrow> Time \<Rightarrow> bool" where
  "over now e \<equiv> \<not> unexpired now e"

text \<open>
  What a read may return at \<open>now\<close>: the value before its expiry, nothing after it, and at the
  very instant of expiry either, as the cache and the store disagree there.
\<close>

definition read_ok :: "instant \<Rightarrow> (bytes \<times> Time) option \<Rightarrow> bytes option \<Rightarrow> bool" where
  "read_ok now x r =
     (case x of
        None \<Rightarrow> r = None
      | Some (v, e) \<Rightarrow> (unexpired now e \<longrightarrow> r = Some v) \<and> (expired now e \<longrightarrow> r = None) \<and>
          (r = None \<or> r = Some v))"

text \<open>The store agrees with the map, except that it may have dropped what is over.\<close>

definition slot_ok :: "(bytes \<Rightarrow> ttlEnvelope option) \<Rightarrow> instant \<Rightarrow> (bytes \<times> Time) option \<Rightarrow> bytes option \<Rightarrow> bool" where
  "slot_ok um t x raw =
     (case raw of
        None \<Rightarrow> (case x of None \<Rightarrow> True | Some (v, e) \<Rightarrow> over t e)
      | Some bs \<Rightarrow> x \<noteq> None \<and> decodeFromStore um bs = Inr (the x))"

definition store_holds :: "(bytes \<Rightarrow> ttlEnvelope option) \<Rightarrow> instant \<Rightarrow> (key \<rightharpoonup> bytes \<times> Time) \<Rightarrow>
    (key \<rightharpoonup> bytes) \<Rightarrow> bool" where
  "store_holds um t m ct \<longleftrightarrow> (\<forall>k. slot_ok um t (m k) (ct k))"

lemma over_mono: "over t e \<Longrightarrow> t \<le> t' \<Longrightarrow> over t' e"
  by (auto simp: unexpired_def split: option.splits)

lemma over_ttl: "ttlFromExpiry now e = (if over now e then (0, True) else (case e of None \<Rightarrow> 0 | Some t \<Rightarrow> t - now, False))"
  by (auto simp: ttlFromExpiry_def unexpired_def Let_def split: option.splits)

lemma expiry_restored: "unexpired now e \<Longrightarrow> expiryOf now (case e of None \<Rightarrow> 0 | Some t \<Rightarrow> t - now) = e"
  by (auto simp: unexpired_def expiryOf_def split: option.splits)

lemma expired_over: "expired now e \<Longrightarrow> over now e"
  by (auto simp: unexpired_def expired_def split: option.splits)

lemma slot_ok_simps [simp]:
  "slot_ok um t None None" "slot_ok um t (Some (v, e)) None = over t e"
  "slot_ok um t x (Some bs) = (x \<noteq> None \<and> decodeFromStore um bs = Inr (the x))"
  by (simp_all add: slot_ok_def)

lemma slot_ok_mono: "slot_ok um t x raw \<Longrightarrow> t \<le> t' \<Longrightarrow> slot_ok um t' x raw"
  by (auto simp: slot_ok_def over_mono split: option.splits)

lemma store_holds_mono: "store_holds um t m ct \<Longrightarrow> t \<le> t' \<Longrightarrow> store_holds um t' m ct"
  by (auto simp: store_holds_def intro: slot_ok_mono)

lemma store_holds_upd: "store_holds um t m ct \<Longrightarrow> slot_ok um t x raw \<Longrightarrow> store_holds um t (m(k := x)) (ct(k := raw))"
  by (simp add: store_holds_def)

lemma store_holds_drop:
  "store_holds um t m ct \<Longrightarrow> m k = Some (v, e) \<Longrightarrow> over t e \<Longrightarrow> store_holds um t m (ct(k := None))"
  by (simp add: store_holds_def)

lemma store_holdsD: "store_holds um t m ct \<Longrightarrow> slot_ok um t (m k) (ct k)"
  by (simp add: store_holds_def)

lemma encode_storable:
  "\<exists>raw. encodeForStore v e = Inr raw"
  by (auto simp: encodeForStore_def Let_def split: option.splits)

text \<open>Along operations whose clock readings do not go back.\<close>

lemma clock_cons:
  assumes "sorted (t # concat (map op_time (x # xs)) @ [now])"
  defines "t1 \<equiv> (if op_time x = [] then t else hd (op_time x))"
  shows "\<forall>t'\<in>set (op_time x). t \<le> t'" and "sorted (t1 # concat (map op_time xs) @ [now])"
  using assms by (cases x; auto)+

lemma clock_run:
  assumes step: "\<And>t m w x. R t m w \<Longrightarrow> \<forall>t'\<in>set (op_time x). t \<le> t' \<Longrightarrow> storable x \<Longrightarrow>
      R (if op_time x = [] then t else hd (op_time x)) (durable_step m x) (cache_step M w x)"
  shows "R t m w \<Longrightarrow> sorted (t # concat (map op_time xs) @ [now]) \<Longrightarrow> \<forall>x\<in>set xs. storable x \<Longrightarrow>
    \<exists>t'\<le>now. R t' (foldl durable_step m xs) (foldl (cache_step M) w xs)"
proof (induction xs arbitrary: t m w)
  case Nil
  then show ?case by auto
next
  case (Cons x xs)
  note c = clock_cons [OF Cons.prems(2)]
  from step [OF Cons.prems(1) c(1)] Cons.prems(3) Cons.IH [OF _ c(2)] show ?case by simp
qed

lemma clock_start:
  "sorted (concat (map op_time xs) @ [now]) \<Longrightarrow> \<exists>t. sorted (t # concat (map op_time xs) @ [now])"
  by (rule exI [where x = "hd (concat (map op_time xs) @ [now])"])
     (cases "concat (map op_time xs) @ [now]"; auto)

section \<open>Write-through with a store that answers\<close>

locale write_policy =
  cache_contract M inv live + store: reliable_store B content ready + reader: envelope_reader um
  for M :: "'c Cache" and inv :: "'c \<Rightarrow> bool" and live :: "'c \<Rightarrow> key \<rightharpoonup> bytes \<times> Time"
    and B :: "'s BackingStore" and content :: "'s \<Rightarrow> key \<rightharpoonup> bytes"
    and ready :: "'s \<Rightarrow> bool" and um :: "bytes \<Rightarrow> ttlEnvelope option"
begin

text \<open>The cache holds nothing but current values, the store all of them that are not over.\<close>

definition wt_rel :: "instant \<Rightarrow> (key \<rightharpoonup> bytes \<times> Time) \<Rightarrow> ('c, 's) WriteCache \<Rightarrow> bool" where
  "wt_rel t m w \<longleftrightarrow> inv (wcInner w) \<and> live (wcInner w) \<subseteq>\<^sub>m m \<and> ready (wcStore w) \<and>
     store_holds um t m (content (wcStore w))"

lemma look_ok: "live c \<subseteq>\<^sub>m m \<Longrightarrow> look now (live c k) = Some v \<Longrightarrow> read_ok now (m k) (Some v)"
  by (auto simp: look_def read_ok_def map_le_def dom_def split: option.splits if_splits)

lemma wt_Set_rel:
  assumes r: "wt_rel t m w" and t: "t \<le> now" and s: "storable (OpSet now k v ttl)"
    and g: "wt_Set M B now now k v ttl w = (err, evs, w')"
  shows "err = None \<and> wt_rel now (m(k \<mapsto> (v, expiryOf now ttl))) w'"
proof -
  obtain raw where raw: "encodeForStore v (expiryOf now ttl) = Inr raw" using encode_storable by blast
  have d: "decodeFromStore um raw = Inr (v, expiryOf now ttl)"
    using s by (intro reader.decode_encode [OF raw]) auto
  obtain e st where b: "bSet B k raw (wcStore w) = (e, st)" by (cases "bSet B k raw (wcStore w)")
  have rd: "ready (wcStore w)" using r by (simp add: wt_rel_def)
  note sb = store.bset [OF rd b]
  let ?c = "mUpdStats M addWriteStoreOps (wcInner w)"
  obtain err' evs' c' where i: "mSet M now k v ttl ?c = (err', evs', c')" by (cases "mSet M now k v ttl ?c")
  have c: "inv ?c" "live ?c = live (wcInner w)" using updstats_law r by (auto simp: wt_rel_def)
  note l = set_law [OF c(1) i]
  have w': "err = err'" "w' = \<lparr>wcInner = c', wcStore = st\<rparr>"
    using g raw b sb i by (auto simp: wt_Set_def Let_def)
  have "live c' \<subseteq>\<^sub>m m(k \<mapsto> (v, expiryOf now ttl))"
    using l r c(2) by (intro map_le_set [of "live (wcInner w)"]) (auto simp: wt_rel_def)
  moreover have "store_holds um now (m(k \<mapsto> (v, expiryOf now ttl))) (content st)"
    using store_holds_mono [OF _ t] r sb d by (auto simp: wt_rel_def intro!: store_holds_upd)
  ultimately show ?thesis using l w' sb by (simp add: wt_rel_def)
qed

lemma wt_Get_rel:
  assumes r: "wt_rel t m w" and t: "t \<le> now" and g: "wt_Get M B um now now now k w = (res, evs, w')"
  shows "wt_rel now m w' \<and> read_ok now (m k) res"
proof -
  obtain hit c where h: "mGet M now k (wcInner w) = (hit, c)" by (cases "mGet M now k (wcInner w)")
  have i: "inv (wcInner w)" and le: "live (wcInner w) \<subseteq>\<^sub>m m" and sh: "store_holds um now m (content (wcStore w))"
    using r store_holds_mono [OF _ t] by (auto simp: wt_rel_def)
  note l = get_law [OF i h]
  have c: "inv c" "live c \<subseteq>\<^sub>m m" using l keep_map_le [OF le] by auto
  show ?thesis
  proof (cases hit)
    case (Some v)
    then have "res = Some v" "w' = w\<lparr>wcInner := c\<rparr>" using g h by (auto simp: wt_Get_def)
    with look_ok [OF le, of now k v] l Some c sh r show ?thesis by (auto simp: wt_rel_def)
  next
    case None
    obtain raw st where b: "bGet B k (wcStore w) = (raw, st)" by (cases "bGet B k (wcStore w)")
    have rd: "ready (wcStore w)" using r by (simp add: wt_rel_def)
    note sb = store.bget [OF rd b]
    show ?thesis
    proof (cases "content (wcStore w) k")
      case absent: None
      then have "res = None" "w' = \<lparr>wcInner = c, wcStore = st\<rparr>" using g h None b sb by (auto simp: wt_Get_def)
      moreover have "read_ok now (m k) None"
        using store_holdsD [OF sh, of k] absent expired_over unfolding read_ok_def
        by (cases "m k") auto
      ultimately show ?thesis using c sh sb by (auto simp: wt_rel_def)
    next
      case (Some bs)
      then have raw: "raw = Inr bs" using sb by simp
      from store_holdsD [OF sh, of k] Some obtain v e where
        mk: "m k = Some (v, e)" and d: "decodeFromStore um bs = Inr (v, e)" by (cases "m k") auto
      show ?thesis
      proof (cases "over now e")
        case True
        obtain er st2 where del: "bDelete B k st = (er, st2)" by (cases "bDelete B k st")
        have "res = None" "w' = \<lparr>wcInner = c, wcStore = st2\<rparr>"
          using g h None b raw d True del by (auto simp: wt_Get_def over_ttl)
        moreover have "store_holds um now m (content st2)"
          using store.bdelete [OF _ del] sb store_holds_drop [OF sh mk True] by simp
        moreover have "ready st2" using store.bdelete [OF _ del] sb by simp
      moreover have "read_ok now (m k) None" using mk True by (simp add: read_ok_def)
        ultimately show ?thesis using c by (simp add: wt_rel_def)
      next
        case False
        let ?ttl = "case e of None \<Rightarrow> 0 | Some t \<Rightarrow> t - now"
        let ?c = "mUpdStats M addReadStoreOps c"
        obtain err evs' c2 where i2: "mSet M now k v ?ttl ?c = (err, evs', c2)" by (cases "mSet M now k v ?ttl ?c")
        have "res = Some v" "w' = \<lparr>wcInner = c2, wcStore = st\<rparr>"
          using g h None b raw d False i2 by (auto simp: wt_Get_def over_ttl Let_def)
        moreover have uc: "inv ?c" "live ?c = live c" using updstats_law c by auto
        note l2 = set_law [OF uc(1) i2]
        have "live c2 \<subseteq>\<^sub>m m(k \<mapsto> (v, e))"
          using l2 c(2) uc(2) expiry_restored [of now e] False by (intro map_le_set [of "live c"]) auto
        moreover have "m(k \<mapsto> (v, e)) = m" using mk by (simp add: fun_upd_idem)
        moreover have "read_ok now (m k) (Some v)" using mk False expired_over by (auto simp: read_ok_def)
        ultimately show ?thesis using l2 sh sb by (simp add: wt_rel_def)
      qed
    qed
  qed
qed

lemma wt_Delete_rel:
  assumes r: "wt_rel t m w" and g: "wt_Delete M B k w = (found, w')"
  shows "wt_rel t (m(k := None)) w'"
proof -
  obtain e st where b: "bDelete B k (wcStore w) = (e, st)" by (cases "bDelete B k (wcStore w)")
  obtain f c where d: "mDelete M k (wcInner w) = (f, c)" by (cases "mDelete M k (wcInner w)")
  have "w' = \<lparr>wcInner = c, wcStore = st\<rparr>" using g b d by (auto simp: wt_Delete_def)
  moreover have "inv c \<and> live c = (live (wcInner w))(k := None)" using delete_law [OF _ d] r by (auto simp: wt_rel_def)
  moreover have "(live (wcInner w))(k := None) \<subseteq>\<^sub>m m(k := None)" using r by (auto simp: wt_rel_def map_le_def)
  ultimately show ?thesis using store.bdelete [OF _ b] r by (auto simp: wt_rel_def intro!: store_holds_upd)
qed

lemma wt_step_rel:
  assumes r: "wt_rel t m w" and "\<forall>t'\<in>set (op_time x). t \<le> t'" and "storable x"
  shows "wt_rel (if op_time x = [] then t else hd (op_time x)) (durable_step m x) (cache_step (wt_cache M B um) w x)"
proof (cases x)
  case (OpGet now k)
  obtain res evs w' where g: "wt_Get M B um now now now k w = (res, evs, w')"
    by (cases "wt_Get M B um now now now k w")
  show ?thesis using wt_Get_rel [OF r _ g] assms(2) OpGet g by (simp add: cache_step_def wt_cache_def)
next
  case (OpSet now k v ttl)
  obtain err evs w' where g: "wt_Set M B now now k v ttl w = (err, evs, w')"
    by (cases "wt_Set M B now now k v ttl w")
  show ?thesis using wt_Set_rel [OF r _ _ g] assms(2,3) OpSet g by (simp add: cache_step_def wt_cache_def)
next
  case (OpDelete k)
  obtain f w' where g: "wt_Delete M B k w = (f, w')" by (cases "wt_Delete M B k w")
  show ?thesis using wt_Delete_rel [OF r g] OpDelete g by (simp add: cache_step_def wt_cache_def)
next
  case (OpPeek now k)
  obtain f c where g: "mPeek M now k (wcInner w) = (f, c)" by (cases "mPeek M now k (wcInner w)")
  have "inv c" "live c \<subseteq>\<^sub>m m" using peek_law [OF _ g] r keep_map_le by (auto simp: wt_rel_def)
  with r assms(2) OpPeek g store_holds_mono [of um t m "content (wcStore w)" now] show ?thesis
    by (simp add: cache_step_def wt_cache_def wt_Peek_def wt_rel_def)
next
  case OpPurge
  show ?thesis using purge_law r OpPurge by (auto simp: cache_step_def wt_cache_def wt_rel_def)
next
  case (OpCallback b)
  show ?thesis using callback_law r OpCallback by (auto simp: cache_step_def wt_cache_def wt_rel_def)
qed

lemma wt_run_rel:
  "wt_rel t m w \<Longrightarrow> sorted (t # concat (map op_time xs) @ [now]) \<Longrightarrow> \<forall>x\<in>set xs. storable x \<Longrightarrow>
   \<exists>t'\<le>now. wt_rel t' (foldl durable_step m xs) (foldl (cache_step (wt_cache M B um)) w xs)"
  by (rule clock_run [where R = wt_rel]) (rule wt_step_rel)

lemma wt_read:
  assumes "inv c" "live c = Map.empty" "content st = Map.empty" "ready st"
    and "sorted (concat (map op_time xs) @ [now])" "\<forall>x\<in>set xs. storable x"
  shows "read_ok now (foldl durable_step Map.empty xs k)
    (fst (mGet (wt_cache M B um) now k (foldl (cache_step (wt_cache M B um)) \<lparr>wcInner = c, wcStore = st\<rparr> xs)))"
proof -
  let ?w = "foldl (cache_step (wt_cache M B um)) \<lparr>wcInner = c, wcStore = st\<rparr> xs"
  obtain t where t: "sorted (t # concat (map op_time xs) @ [now])" using clock_start [OF assms(5)] by blast
  have "wt_rel t Map.empty \<lparr>wcInner = c, wcStore = st\<rparr>"
    using assms(1-4) by (simp add: wt_rel_def store_holds_def)
  then obtain t' where "t' \<le> now" "wt_rel t' (foldl durable_step Map.empty xs) ?w"
    using wt_run_rel [OF _ t assms(6)] by blast
  moreover obtain res evs w' where "wt_Get M B um now now now k ?w = (res, evs, w')"
    by (cases "wt_Get M B um now now now k ?w")
  ultimately show ?thesis using wt_Get_rel [of t' _ ?w now k res evs w'] by (simp add: wt_cache_def)
qed

text \<open>The cache of a write-around wrapper stays empty.\<close>

definition wa_rel :: "instant \<Rightarrow> (key \<rightharpoonup> bytes \<times> Time) \<Rightarrow> ('c, 's) WriteCache \<Rightarrow> bool" where
  "wa_rel t m w \<longleftrightarrow> inv (wcInner w) \<and> live (wcInner w) = Map.empty \<and> ready (wcStore w) \<and>
     store_holds um t m (content (wcStore w))"

lemma wa_Set_rel:
  assumes r: "wa_rel t m w" and t: "t \<le> now" and s: "storable (OpSet now k v ttl)"
    and g: "wa_Set M B now k v ttl w = (err, evs, w')"
  shows "err = None \<and> wa_rel now (m(k \<mapsto> (v, expiryOf now ttl))) w'"
proof -
  obtain raw where raw: "encodeForStore v (expiryOf now ttl) = Inr raw" using encode_storable by blast
  have d: "decodeFromStore um raw = Inr (v, expiryOf now ttl)"
    using s by (intro reader.decode_encode [OF raw]) auto
  obtain e st where b: "bSet B k raw (wcStore w) = (e, st)" by (cases "bSet B k raw (wcStore w)")
  have rd: "ready (wcStore w)" using r by (simp add: wa_rel_def)
  note sb = store.bset [OF rd b]
  have w': "err = None" "w' = \<lparr>wcInner = mUpdStats M addWriteStoreOps (wcInner w), wcStore = st\<rparr>"
    using g raw b sb by (auto simp: wa_Set_def Let_def)
  have "store_holds um now (m(k \<mapsto> (v, expiryOf now ttl))) (content st)"
    using store_holds_mono [OF _ t] r sb d by (auto simp: wa_rel_def intro!: store_holds_upd)
  then show ?thesis using w' sb updstats_law r by (simp add: wa_rel_def)
qed

lemma wa_Get_rel:
  assumes r: "wa_rel t m w" and t: "t \<le> now" and g: "wa_Get M B um now now k w = (res, w')"
  shows "wa_rel now m w' \<and> read_ok now (m k) res"
proof -
  obtain hit c where h: "mGet M now k (wcInner w) = (hit, c)" by (cases "mGet M now k (wcInner w)")
  have i: "inv (wcInner w)" and le: "live (wcInner w) = Map.empty" and sh: "store_holds um now m (content (wcStore w))"
    using r store_holds_mono [OF _ t] by (auto simp: wa_rel_def)
  note l = get_law [OF i h]
  have hit: "hit = None" and c: "inv c" "live c = Map.empty" using l le by auto
  obtain raw st where b: "bGet B k (wcStore w) = (raw, st)" by (cases "bGet B k (wcStore w)")
  have rd: "ready (wcStore w)" using r by (simp add: wa_rel_def)
  note sb = store.bget [OF rd b]
  show ?thesis
  proof (cases "content (wcStore w) k")
    case None
    then have "res = None" "w' = \<lparr>wcInner = c, wcStore = st\<rparr>" using g h hit b sb by (auto simp: wa_Get_def)
    moreover have "read_ok now (m k) None"
      using store_holdsD [OF sh, of k] None expired_over unfolding read_ok_def by (cases "m k") auto
    ultimately show ?thesis using c sh sb by (auto simp: wa_rel_def)
  next
    case (Some bs)
    then have raw: "raw = Inr bs" using sb by simp
    from store_holdsD [OF sh, of k] Some obtain v e where
      mk: "m k = Some (v, e)" and d: "decodeFromStore um bs = Inr (v, e)" by (cases "m k") auto
    show ?thesis
    proof (cases "over now e")
      case True
      obtain er st2 where del: "bDelete B k st = (er, st2)" by (cases "bDelete B k st")
      have "res = None" "w' = \<lparr>wcInner = c, wcStore = st2\<rparr>"
        using g h hit b raw d True del by (auto simp: wa_Get_def over_ttl)
      moreover have "store_holds um now m (content st2)"
        using store.bdelete [OF _ del] sb store_holds_drop [OF sh mk True] by simp
      moreover have "ready st2" using store.bdelete [OF _ del] sb by simp
      moreover have "read_ok now (m k) None" using mk True by (simp add: read_ok_def)
      ultimately show ?thesis using c by (simp add: wa_rel_def)
    next
      case False
      have "res = Some v" "w' = \<lparr>wcInner = mUpdStats M addReadStoreOps c, wcStore = st\<rparr>"
        using g h hit b raw d False by (auto simp: wa_Get_def over_ttl)
      moreover have "read_ok now (m k) (Some v)" using mk False expired_over by (auto simp: read_ok_def)
      ultimately show ?thesis using updstats_law c sh sb by (simp add: wa_rel_def)
    qed
  qed
qed

lemma wa_step_rel:
  assumes r: "wa_rel t m w" and "\<forall>t'\<in>set (op_time x). t \<le> t'" and "storable x"
  shows "wa_rel (if op_time x = [] then t else hd (op_time x)) (durable_step m x) (cache_step (wa_cache M B um) w x)"
proof (cases x)
  case (OpGet now k)
  obtain res w' where g: "wa_Get M B um now now k w = (res, w')" by (cases "wa_Get M B um now now k w")
  show ?thesis using wa_Get_rel [OF r _ g] assms(2) OpGet g by (simp add: cache_step_def wa_cache_def)
next
  case (OpSet now k v ttl)
  obtain err evs w' where g: "wa_Set M B now k v ttl w = (err, evs, w')" by (cases "wa_Set M B now k v ttl w")
  show ?thesis using wa_Set_rel [OF r _ _ g] assms(2,3) OpSet g by (simp add: cache_step_def wa_cache_def)
next
  case (OpDelete k)
  obtain e st where b: "bDelete B k (wcStore w) = (e, st)" by (cases "bDelete B k (wcStore w)")
  obtain f c where d: "mDelete M k (wcInner w) = (f, c)" by (cases "mDelete M k (wcInner w)")
  have "inv c \<and> live c = Map.empty" using delete_law [OF _ d] r by (auto simp: wa_rel_def)
  then show ?thesis using store.bdelete [OF _ b] r OpDelete b d
    by (auto simp: cache_step_def wa_cache_def wa_Delete_def wa_rel_def intro!: store_holds_upd)
next
  case (OpPeek now k)
  obtain f c where g: "mPeek M now k (wcInner w) = (f, c)" by (cases "mPeek M now k (wcInner w)")
  have "inv c" "live c = Map.empty" using peek_law [OF _ g] r by (auto simp: wa_rel_def)
  with r assms(2) OpPeek g store_holds_mono [of um t m "content (wcStore w)" now] show ?thesis
    by (simp add: cache_step_def wa_cache_def wa_Peek_def wa_rel_def)
next
  case OpPurge
  show ?thesis using purge_law r OpPurge by (auto simp: cache_step_def wa_cache_def wa_rel_def)
next
  case (OpCallback b)
  show ?thesis using callback_law r OpCallback by (auto simp: cache_step_def wa_cache_def wa_rel_def)
qed

lemma wa_run_rel:
  "wa_rel t m w \<Longrightarrow> sorted (t # concat (map op_time xs) @ [now]) \<Longrightarrow> \<forall>x\<in>set xs. storable x \<Longrightarrow>
   \<exists>t'\<le>now. wa_rel t' (foldl durable_step m xs) (foldl (cache_step (wa_cache M B um)) w xs)"
  by (rule clock_run [where R = wa_rel]) (rule wa_step_rel)

lemma wa_read:
  assumes "inv c" "live c = Map.empty" "content st = Map.empty" "ready st"
    and "sorted (concat (map op_time xs) @ [now])" "\<forall>x\<in>set xs. storable x"
  shows "read_ok now (foldl durable_step Map.empty xs k)
    (fst (mGet (wa_cache M B um) now k (foldl (cache_step (wa_cache M B um)) \<lparr>wcInner = c, wcStore = st\<rparr> xs)))"
proof -
  let ?w = "foldl (cache_step (wa_cache M B um)) \<lparr>wcInner = c, wcStore = st\<rparr> xs"
  obtain t where t: "sorted (t # concat (map op_time xs) @ [now])" using clock_start [OF assms(5)] by blast
  have "wa_rel t Map.empty \<lparr>wcInner = c, wcStore = st\<rparr>"
    using assms(1-4) by (simp add: wa_rel_def store_holds_def)
  then obtain t' where "t' \<le> now" "wa_rel t' (foldl durable_step Map.empty xs) ?w"
    using wa_run_rel [OF _ t assms(6)] by blast
  moreover obtain res w' where "wa_Get M B um now now k ?w = (res, w')" by (cases "wa_Get M B um now now k ?w")
  ultimately show ?thesis using wa_Get_rel [of t' _ ?w now k res w'] by (simp add: wa_cache_def)
qed

end

section \<open>Properties\<close>

definition reads_back :: "(bytes \<Rightarrow> ttlEnvelope option) \<Rightarrow> bool" where
  "reads_back um \<longleftrightarrow> (\<forall>env v. teValue env = base64_Encode v \<longrightarrow> um (marshalEnvelope env) = Some env)"

lemma reads_back_parse: "reads_back parseEnvelope"
  using parsed.unmarshal_marshal by (simp add: reads_back_def)

lemma write_policy_on:
  assumes "cache_contract M okC live" and "reads_back um"
  shows "write_policy M okC live (memory_store None) memory_content (\<lambda>m. True) um"
  using assms memoryOk.reliable_store_axioms
  by (simp add: write_policy_def envelope_reader_def reads_back_def)

interpretation lruPolicy: write_policy lru_cache "\<lambda>c. \<exists>s. lru_sim c s \<and> lruSpec_ok s"
    "\<lambda>c. live_of (lsItems (lru_abs c))" "memory_store None" memory_content "\<lambda>m. True" parseEnvelope
  by (rule write_policy_on [OF lru.cache_contract_axioms reads_back_parse])

abbreviation wt_run :: "'c Cache \<Rightarrow> (bytes \<Rightarrow> ttlEnvelope option) \<Rightarrow> 'c \<Rightarrow> duration \<Rightarrow> cacheOp list \<Rightarrow>
    ('c, MemoryStore) WriteCache" where
  "wt_run M um c d xs \<equiv> foldl (cache_step (wt_cache M (memory_store None) um))
     \<lparr>wcInner = c, wcStore = NewMemoryStore d\<rparr> xs"

abbreviation wa_run :: "'c Cache \<Rightarrow> (bytes \<Rightarrow> ttlEnvelope option) \<Rightarrow> 'c \<Rightarrow> duration \<Rightarrow> cacheOp list \<Rightarrow>
    ('c, MemoryStore) WriteCache" where
  "wa_run M um c d xs \<equiv> foldl (cache_step (wa_cache M (memory_store None) um))
     \<lparr>wcInner = c, wcStore = NewMemoryStore d\<rparr> xs"

lemma memory_New: "memory_content (NewMemoryStore d) = Map.empty"
  by (simp add: memory_content_def NewMemoryStore_def)

lemma lfu_New_live: "\<exists>s. lfu_sim (lfu_New cap) s \<and> lfuSpec_ok s" "lfu_live (lfu_New cap) = Map.empty"
  using lfu_sim_New lfuSpec_New_ok by (blast, auto simp: lfu_New_def lfu_live_def fun_eq_iff)

lemma arc_New_live: "\<exists>s. arc_sim (arc_New cap) s \<and> arcSpec_ok s" "arc_live (arc_New cap) = Map.empty"
  using arc_sim_New arcSpec_New_ok by (blast, auto simp: arc_New_def arc_live_def fun_eq_iff)


text \<open>
  with a store that answers, the write-around wrapper over an empty cache is a durable map
  in the same sense: every read is served from the store.
\<close>

theorem write_around_durable:
  assumes "reads_back um" and "sorted (concat (map op_time xs) @ [now])" and "\<forall>x\<in>set xs. storable x"
  shows "read_ok now (foldl durable_step Map.empty xs k)
      (fst (mGet (wa_cache lru_cache (memory_store None) um) now k (wa_run lru_cache um (lru_New cap) d xs)))"
  by (rule write_policy.wa_read [OF write_policy_on [OF lru.cache_contract_axioms assms(1)] lru_New_live memory_New TrueI assms(2,3)])

abbreviation demo_ops :: "cacheOp list" where
  "demo_ops \<equiv> [OpSet 0 ''a'' [7] 9, OpSet 1 ''b'' [8] 0, OpGet 2 ''a'', OpPurge]"

lemma demo_ops_ok: "sorted (concat (map op_time demo_ops) @ [5])" "\<forall>x\<in>set demo_ops. storable x"
  by code_simp+


lemma write_around_durable_witness:
  "read_ok 5 (foldl durable_step Map.empty demo_ops ''a'')
     (fst (mGet (wa_cache lru_cache (memory_store None) parseEnvelope) 5 ''a'' (wa_run lru_cache parseEnvelope (lru_New 1) 0 demo_ops)))"
  by (rule write_around_durable [OF reads_back_parse demo_ops_ok])

text \<open>
  a \<open>Set\<close> of the write-through wrapper that reports an error has changed neither the cache
  nor the contents of the store: the store is written first.
\<close>

theorem write_through_error:
  assumes "wt_Set lru_cache (memory_store ctx) now t3 k v ttl w = (Some e, evs, w')"
    and "\<exists>s. lru_sim (wcInner w) s \<and> lruSpec_ok s"
  shows "wcInner w' = wcInner w \<and> evs = [] \<and> memory_content (wcStore w') = memory_content (wcStore w)"
proof -
  obtain raw where raw: "encodeForStore v (expiryOf now ttl) = Inr raw" using encode_storable by blast
  obtain er st where b: "bSet (memory_store ctx) k raw (wcStore w) = (er, st)"
    by (cases "bSet (memory_store ctx) k raw (wcStore w)")
  show ?thesis
  proof (cases er)
    case None
    let ?c = "mUpdStats lru_cache addWriteStoreOps (wcInner w)"
    obtain er2 evs2 c where i: "mSet lru_cache t3 k v ttl ?c = (er2, evs2, c)"
      by (cases "mSet lru_cache t3 k v ttl ?c")
    have "er2 = None" using lru.set_law [OF _ i] lru.updstats_law assms(2) by blast
    with assms(1) raw b None i show ?thesis by (simp add: wt_Set_def Let_def)
  next
    case (Some x)
    with assms(1) raw b memory.bset_any [OF b] show ?thesis by (auto simp: wt_Set_def Let_def)
  qed
qed

lemma write_through_error_witness:
  "let w = \<lparr>wcInner = lru_New 1, wcStore = NewMemoryStore 5\<rparr>;
       w' = snd (snd (wt_Set lru_cache (memory_store (Some ''deadline'')) 0 0 ''a'' [7] 0 w))
   in wcInner w' = wcInner w \<and> memory_content (wcStore w') = memory_content (wcStore w)"
proof -
  let ?w = "\<lparr>wcInner = lru_New 1, wcStore = NewMemoryStore 5\<rparr>"
  have "wt_Set lru_cache (memory_store (Some ''deadline'')) 0 0 ''a'' [7] 0 ?w =
      (Some ''backing store write failed: deadline'', [], ?w)"
    by (simp add: wt_Set_def encodeForStore_def expiryOf_def memory_store_def memory_Set_def memory_sleep_def
        NewMemoryStore_def)
  from write_through_error [OF this] lru_New_live(1) this show ?thesis by (simp add: Let_def)
qed

text \<open>
  the write-around wrapper over a cache that already holds a value for the key serves that
  value after a \<open>Set\<close> of another one: \<open>Set\<close> writes the store and leaves the cache as it is.
\<close>

theorem write_around_stale:
  "let c = snd (snd (lru_Set t k old 0 (lru_New cap)));
       (err, evs, w) = wa_Set lru_cache (memory_store None) now k new 0 \<lparr>wcInner = c, wcStore = NewMemoryStore d\<rparr>
   in err = None \<and> memory_content (wcStore w) k = Some new \<and>
      fst (wa_Get lru_cache (memory_store None) um now' t2 k w) = Some old"
proof -
  obtain er evs c where s: "lru_Set t k old 0 (lru_New cap) = (er, evs, c)" by (cases "lru_Set t k old 0 (lru_New cap)")
  define okC where "okC c = (\<exists>s. lru_sim c s \<and> lruSpec_ok s)" for c
  define lv where "lv c = live_of (lsItems (lru_abs c))" for c
  note laws = lru.set_law [folded okC_def lv_def] lru.updstats_law [folded okC_def lv_def]
    lru.get_law [folded okC_def lv_def]
  have "okC c \<and> lv c k = Some (old, None)"
    using laws(1) [of "lru_New cap" t k old 0 er evs c] s lru_New_live(1) by (simp add: lru_cache_def expiryOf_def okC_def)
  then have c: "okC (mUpdStats lru_cache addWriteStoreOps c)" "lv (mUpdStats lru_cache addWriteStoreOps c) k = Some (old, None)"
    using laws(2) by auto
  obtain r c' where g: "mGet lru_cache now' k (mUpdStats lru_cache addWriteStoreOps c) = (r, c')"
    by (cases "mGet lru_cache now' k (mUpdStats lru_cache addWriteStoreOps c)")
  from laws(3) [OF c(1) g] c(2) have "r = Some old" by simp
  with s g show ?thesis
    by (simp add: wa_Set_def wa_Get_def encodeForStore_def expiryOf_def memory_store_def memory_Set_def memory_sleep_def
        NewMemoryStore_def memory_content_def map_of_update_upd)
qed

end
