(* ===== verification/Write_Back.thy ===== *)
theory Write_Back
  imports Write_Policies
begin

text \<open>
  internal/store/writeback.go: the wrapper that writes to the cache and flushes to the store
  later. \<open>dirty\<close> (a \<open>sync.Map\<close>) and \<open>dirtyCount\<close> record the keys still to be written. The eviction
  callback flushes a dirty entry that the cache evicts; the model runs it on the evictions that
  the inner \<open>Set\<close> reports, right after it: the callback touches only \<open>dirty\<close>, the store and the
  counter \<open>WriteStoreOps\<close>, which the rest of \<open>Set\<close> does not read. The ticker goroutine is a
  \<open>Flush\<close> between operations. \<open>Range\<close> visits each key that was dirty when it began once.
\<close>

section \<open>The code\<close>

record pendingWrite =
  pwExpiresAt :: Time

record ('c, 's) WriteBackCache =
  wbInner :: 'c
  wbStore :: 's
  wbDirty :: "(key, pendingWrite) gomap"
  wbDirtyCount :: int64
  wbInterval :: duration

definition NewWriteBack :: "'c Cache \<Rightarrow> 'c \<Rightarrow> 's \<Rightarrow> duration \<Rightarrow> ('c, 's) WriteBackCache" where
  "NewWriteBack M inner store flushInterval =
     \<lparr>wbInner = mSetEvictionCallback M True inner, wbStore = store, wbDirty = [], wbDirtyCount = 0,
      wbInterval = (if flushInterval \<le> 0 then 100 * 1000000 else flushInterval)\<rparr>"

definition wb_flushValue :: "'s BackingStore \<Rightarrow> instant \<Rightarrow> key \<Rightarrow> bytes \<Rightarrow> pendingWrite \<Rightarrow> 's \<Rightarrow> error option \<times> 's" where
  "wb_flushValue B now k v pw st =
     (if snd (ttlFromExpiry now (pwExpiresAt pw)) then bDelete B k st
      else case encodeForStore v (pwExpiresAt pw) of
             Inl e \<Rightarrow> (Some (''encode backing store value: '' @ e), st)
           | Inr encoded \<Rightarrow> bSet B k encoded st)"

text \<open>\<open>dirty.LoadAndDelete(key)\<close> with the counter\<close>

definition wb_takeDirty :: "key \<Rightarrow> ('c, 's) WriteBackCache \<Rightarrow> ('c, 's) WriteBackCache" where
  "wb_takeDirty k w =
     (if map_of (wbDirty w) k = None then w
      else w\<lparr>wbDirty := AList.delete k (wbDirty w), wbDirtyCount := wbDirtyCount w - 1\<rparr>)"

definition wb_wrote :: "'c Cache \<Rightarrow> ('c, 's) WriteBackCache \<Rightarrow> ('c, 's) WriteBackCache" where
  "wb_wrote M w = w\<lparr>wbInner := mUpdStats M addWriteStoreOps (wbInner w)\<rparr>"

definition wb_onEvict :: "'c Cache \<Rightarrow> 's BackingStore \<Rightarrow> instant \<Rightarrow> ('c, 's) WriteBackCache \<Rightarrow> evictCall \<Rightarrow>
    ('c, 's) WriteBackCache" where
  "wb_onEvict M B now w ev =
     (let (k, v) = ev
      in case map_of (wbDirty w) k of
           None \<Rightarrow> w
         | Some pw \<Rightarrow>
             (let w1 = wb_takeDirty k w; (err, st) = wb_flushValue B now k v pw (wbStore w1);
                  w2 = w1\<lparr>wbStore := st\<rparr>
              in if err = None then wb_wrote M w2 else w2))"

definition wb_flushKey :: "'c Cache \<Rightarrow> 's BackingStore \<Rightarrow> instant \<Rightarrow> ('c, 's) WriteBackCache \<Rightarrow>
    key \<times> pendingWrite \<Rightarrow> ('c, 's) WriteBackCache" where
  "wb_flushKey M B now w p =
     (let (k, pw) = p
      in if map_of (wbDirty w) k = None then w
         else
           (let w1 = wb_takeDirty k w; (value, c) = mPeek M now k (wbInner w1); w2 = w1\<lparr>wbInner := c\<rparr>
            in case value of
                 None \<Rightarrow> (if snd (ttlFromExpiry now (pwExpiresAt pw))
                          then w2\<lparr>wbStore := snd (bDelete B k (wbStore w2))\<rparr> else w2)
               | Some v \<Rightarrow>
                   (let (err, st) = wb_flushValue B now k v pw (wbStore w2); w3 = w2\<lparr>wbStore := st\<rparr>
                    in if err = None then wb_wrote M w3
                       else if map_of (wbDirty w3) k = None
                            then w3\<lparr>wbDirty := AList.update k pw (wbDirty w3), wbDirtyCount := wbDirtyCount w3 + 1\<rparr>
                            else w3)))"

definition wb_flushAll :: "'c Cache \<Rightarrow> 's BackingStore \<Rightarrow> instant \<Rightarrow> ('c, 's) WriteBackCache \<Rightarrow> ('c, 's) WriteBackCache" where
  "wb_flushAll M B now w = foldl (wb_flushKey M B now) w (wbDirty w)"

definition wb_markDirty :: "key \<Rightarrow> Time \<Rightarrow> ('c, 's) WriteBackCache \<Rightarrow> ('c, 's) WriteBackCache" where
  "wb_markDirty k e w =
     w\<lparr>wbDirty := AList.update k \<lparr>pwExpiresAt = e\<rparr> (wbDirty w),
       wbDirtyCount := (if map_of (wbDirty w) k = None then wbDirtyCount w + 1 else wbDirtyCount w)\<rparr>"

definition wb_Set :: "'c Cache \<Rightarrow> 's BackingStore \<Rightarrow> instant \<Rightarrow> instant \<Rightarrow> key \<Rightarrow> bytes \<Rightarrow> duration \<Rightarrow>
    ('c, 's) WriteBackCache \<Rightarrow> error option \<times> ('c, 's) WriteBackCache" where
  "wb_Set M B now t2 k v ttl w =
     (let (err, evs, c) = mSet M now k v ttl (wbInner w);
          w1 = foldl (wb_onEvict M B now) (w\<lparr>wbInner := c\<rparr>) evs
      in case err of
           Some e \<Rightarrow> (Some e, w1)
         | None \<Rightarrow> (None, wb_markDirty k (expiryOf t2 ttl) w1))"

definition wb_Get :: "'c Cache \<Rightarrow> 's BackingStore \<Rightarrow> (bytes \<Rightarrow> ttlEnvelope option) \<Rightarrow> instant \<Rightarrow> instant \<Rightarrow>
    instant \<Rightarrow> key \<Rightarrow> ('c, 's) WriteBackCache \<Rightarrow> bytes option \<times> ('c, 's) WriteBackCache" where
  "wb_Get M B um now t2 t3 k w =
     (let (hit, c) = mGet M now k (wbInner w)
      in case hit of
           Some v \<Rightarrow> (Some v, w\<lparr>wbInner := c\<rparr>)
         | None \<Rightarrow>
             (let (raw, st) = bGet B k (wbStore w); w1 = w\<lparr>wbInner := c, wbStore := st\<rparr>
              in case raw of
                   Inl e \<Rightarrow> (None, w1)
                 | Inr bs \<Rightarrow>
                     (case decodeFromStore um bs of
                        Inl e \<Rightarrow> (None, w1)
                      | Inr (v, expiresAt) \<Rightarrow>
                          (let (ttl, expd) = ttlFromExpiry t2 expiresAt
                           in if expd then (None, w1\<lparr>wbStore := snd (bDelete B k st)\<rparr>)
                              else (let c1 = mUpdStats M addReadStoreOps c;
                                        (err, evs, c2) = mSet M t3 k v ttl c1
                                    in (Some v, foldl (wb_onEvict M B t3) (w1\<lparr>wbInner := c2\<rparr>) evs))))))"

definition wb_Delete :: "'c Cache \<Rightarrow> 's BackingStore \<Rightarrow> key \<Rightarrow> ('c, 's) WriteBackCache \<Rightarrow>
    bool \<times> ('c, 's) WriteBackCache" where
  "wb_Delete M B k w =
     (let w1 = wb_takeDirty k w; st = snd (bDelete B k (wbStore w1)); (found, c) = mDelete M k (wbInner w1)
      in (found, w1\<lparr>wbInner := c, wbStore := st\<rparr>))"

definition wb_Flush :: "'c Cache \<Rightarrow> 's BackingStore \<Rightarrow> instant \<Rightarrow> ('c, 's) WriteBackCache \<Rightarrow> ('c, 's) WriteBackCache" where
  "wb_Flush M B now w = wb_flushAll M B now w"

definition wb_DirtyCount :: "('c, 's) WriteBackCache \<Rightarrow> int" where
  "wb_DirtyCount w = sint (wbDirtyCount w)"

definition wb_Purge :: "'c Cache \<Rightarrow> 's BackingStore \<Rightarrow> instant \<Rightarrow> ('c, 's) WriteBackCache \<Rightarrow> ('c, 's) WriteBackCache" where
  "wb_Purge M B now w = (let w1 = wb_Flush M B now w in w1\<lparr>wbInner := mPurge M (wbInner w1)\<rparr>)"

definition wb_Peek :: "'c Cache \<Rightarrow> instant \<Rightarrow> key \<Rightarrow> ('c, 's) WriteBackCache \<Rightarrow> bytes option \<times> ('c, 's) WriteBackCache" where
  "wb_Peek M now k w = (let (r, c) = mPeek M now k (wbInner w) in (r, w\<lparr>wbInner := c\<rparr>))"

text \<open>\<open>Close\<close> flushes and ends the ticker; the inner \<open>Close\<close> is a no-op.\<close>

definition wb_Close :: "'c Cache \<Rightarrow> 's BackingStore \<Rightarrow> instant \<Rightarrow> ('c, 's) WriteBackCache \<Rightarrow> ('c, 's) WriteBackCache" where
  "wb_Close M B now w = wb_Flush M B now w"

text \<open>
  The operations of a write-back cache, flushes by the ticker or the configuration handler
  included, and the map that they stand for.
\<close>

datatype wbOp =
    WbGet instant key
  | WbSet instant key bytes duration
  | WbDelete key
  | WbPeek instant key
  | WbPurge instant
  | WbFlush instant

fun wb_step :: "'c Cache \<Rightarrow> 's BackingStore \<Rightarrow> (bytes \<Rightarrow> ttlEnvelope option) \<Rightarrow> ('c, 's) WriteBackCache \<Rightarrow>
    wbOp \<Rightarrow> ('c, 's) WriteBackCache" where
  "wb_step M B um w (WbGet now k) = snd (wb_Get M B um now now now k w)"
| "wb_step M B um w (WbSet now k v ttl) = snd (wb_Set M B now now k v ttl w)"
| "wb_step M B um w (WbDelete k) = snd (wb_Delete M B k w)"
| "wb_step M B um w (WbPeek now k) = snd (wb_Peek M now k w)"
| "wb_step M B um w (WbPurge now) = wb_Purge M B now w"
| "wb_step M B um w (WbFlush now) = wb_Flush M B now w"

fun wb_latest :: "(key \<rightharpoonup> bytes) \<Rightarrow> wbOp \<Rightarrow> (key \<rightharpoonup> bytes)" where
  "wb_latest m (WbSet now k v ttl) = m(k \<mapsto> v)"
| "wb_latest m (WbDelete k) = m(k := None)"
| "wb_latest m _ = m"

text \<open>A \<open>Set\<close> without expiry of a value that does not look like an envelope.\<close>

fun wb_plain :: "wbOp \<Rightarrow> bool" where
  "wb_plain (WbSet now k v ttl) = (ttl \<le> 0 \<and> plainValue v)"
| "wb_plain _ = True"

section \<open>What it stands for\<close>

lemma wb_takeDirty_sel [simp]:
  "wbInner (wb_takeDirty k w) = wbInner w" "wbStore (wb_takeDirty k w) = wbStore w"
  "map_of (wbDirty (wb_takeDirty k w)) = (map_of (wbDirty w))(k := None)"
  by (auto simp: wb_takeDirty_def map_of_delete_upd fun_eq_iff)

lemma wb_wrote_sel [simp]:
  "wbStore (wb_wrote M w) = wbStore w" "wbDirty (wb_wrote M w) = wbDirty w"
  "wbDirtyCount (wb_wrote M w) = wbDirtyCount w"
  "wbInner (wb_wrote M w) = mUpdStats M addWriteStoreOps (wbInner w)"
  by (simp_all add: wb_wrote_def)

text \<open>The counter counts the dirty keys.\<close>

definition dirty_counted :: "('c, 's) WriteBackCache \<Rightarrow> bool" where
  "dirty_counted w \<longleftrightarrow> distinct (map fst (wbDirty w)) \<and> wbDirtyCount w = of_nat (length (wbDirty w))"

lemma counted_take: "dirty_counted w \<Longrightarrow> dirty_counted (wb_takeDirty k w)"
  using length_delete [of "wbDirty w" k]
  by (auto simp: dirty_counted_def wb_takeDirty_def)
     (metis diff_add_cancel of_nat_Suc add.commute add_diff_cancel_left')

lemma length_update_present: "map_of m k = Some x \<Longrightarrow> length (AList.update k v m) = length m"
  by (induction m) auto

lemma counted_mark: "dirty_counted w \<Longrightarrow> dirty_counted (wb_markDirty k e w)"
  using update_new [of "wbDirty w" k] length_update_present [of "wbDirty w" k]
  by (cases "map_of (wbDirty w) k") (auto simp: dirty_counted_def wb_markDirty_def distinct_update)

lemma counted_frame [simp]:
  "dirty_counted (w\<lparr>wbInner := c\<rparr>) = dirty_counted w" "dirty_counted (w\<lparr>wbStore := st\<rparr>) = dirty_counted w"
  "dirty_counted (wb_wrote M w) = dirty_counted w"
  by (simp_all add: dirty_counted_def)

locale write_back =
  reporting_cache M inv live reports + store: reliable_store B content ready + reader: envelope_reader um
  for M :: "'c Cache" and inv :: "'c \<Rightarrow> bool" and live :: "'c \<Rightarrow> key \<rightharpoonup> bytes \<times> Time" and reports :: "'c \<Rightarrow> bool"
    and B :: "'s BackingStore" and content :: "'s \<Rightarrow> key \<rightharpoonup> bytes"
    and ready :: "'s \<Rightarrow> bool" and um :: "bytes \<Rightarrow> ttlEnvelope option"
begin

text \<open>The cache holds current values only, nothing expires.\<close>

definition cached :: "(key \<rightharpoonup> bytes) \<Rightarrow> 'c \<Rightarrow> bool" where
  "cached m c \<longleftrightarrow> inv c \<and> reports c \<and> (\<forall>k v e. live c k = Some (v, e) \<longrightarrow> m k = Some v \<and> e = None)"

text \<open>
  A dirty key is in the cache, or its eviction is among the callbacks \<open>evs\<close> still to run; what is
  not dirty is in the store.
\<close>

definition flushed :: "(key \<rightharpoonup> bytes) \<Rightarrow> evictCall list \<Rightarrow> ('c, 's) WriteBackCache \<Rightarrow> bool" where
  "flushed m evs w \<longleftrightarrow> dirty_counted w \<and> ready (wbStore w) \<and>
     (\<forall>k pw. map_of (wbDirty w) k = Some pw \<longrightarrow> pwExpiresAt pw = None \<and>
        (live (wbInner w) k \<noteq> None \<or> k \<in> fst ` set evs)) \<and>
     (\<forall>k. map_of (wbDirty w) k = None \<longrightarrow> content (wbStore w) k = m k)"

definition plain :: "(key \<rightharpoonup> bytes) \<Rightarrow> bool" where
  "plain m \<longleftrightarrow> (\<forall>k v. m k = Some v \<longrightarrow> plainValue v)"

definition wb_rel :: "(key \<rightharpoonup> bytes) \<Rightarrow> ('c, 's) WriteBackCache \<Rightarrow> bool" where
  "wb_rel m w \<longleftrightarrow> cached m (wbInner w) \<and> flushed m [] w \<and> plain m"

lemma cached_updstats: "cached m c \<Longrightarrow> cached m (mUpdStats M f c)"
  using updstats_law reports_updstats by (auto simp: cached_def)

lemma flush_plain: "pwExpiresAt pw = None \<Longrightarrow> wb_flushValue B now k v pw st = bSet B k v st"
  by (simp add: wb_flushValue_def ttlFromExpiry_def encodeForStore_def)

text \<open>One callback, and all callbacks of an inner \<open>Set\<close>.\<close>

lemma onEvict_rel:
  assumes c: "cached m (wbInner w)" and f: "flushed m0 ((k, v) # evs) w" and k: "m0 k = Some v"
  shows "cached m (wbInner (wb_onEvict M B now w (k, v))) \<and> flushed m0 evs (wb_onEvict M B now w (k, v)) \<and>
    live (wbInner (wb_onEvict M B now w (k, v))) = live (wbInner w)"
proof (cases "map_of (wbDirty w) k")
  case None
  then have "ka \<noteq> k" if "map_of (wbDirty w) ka = Some pw" for ka pw using that by auto
  with None c f show ?thesis by (simp add: wb_onEvict_def flushed_def)
next
  case (Some pw)
  obtain er st where b: "bSet B k v (wbStore w) = (er, st)" by (cases "bSet B k v (wbStore w)")
  have rd: "ready (wbStore w)" using f by (simp add: flushed_def)
  note sb = store.bset [OF rd b]
  have pw: "pwExpiresAt pw = None" using f Some by (simp add: flushed_def)
  have w': "wb_onEvict M B now w (k, v) = wb_wrote M ((wb_takeDirty k w)\<lparr>wbStore := st\<rparr>)"
    using Some b sb flush_plain [OF pw] by (simp add: wb_onEvict_def)
  have "flushed m0 evs (wb_onEvict M B now w (k, v))"
    using f k sb counted_take [of w k] updstats_law c unfolding w'
    by (auto simp: flushed_def cached_def split: if_splits)
  then show ?thesis using cached_updstats [OF c] updstats_law c by (simp add: w' cached_def)
qed

lemma onEvicts_rel:
  assumes "cached m (wbInner w)" and "flushed m0 evs w" and "\<forall>(k, v) \<in> set evs. m0 k = Some v"
  shows "cached m (wbInner (foldl (wb_onEvict M B now) w evs)) \<and>
    flushed m0 [] (foldl (wb_onEvict M B now) w evs) \<and>
    live (wbInner (foldl (wb_onEvict M B now) w evs)) = live (wbInner w)"
  using assms
proof (induction evs arbitrary: w)
  case Nil
  then show ?case by simp
next
  case (Cons ev evs)
  obtain k v where ev: "ev = (k, v)" by (cases ev)
  from Cons.prems(3) ev have "m0 k = Some v" by auto
  from onEvict_rel [OF Cons.prems(1) Cons.prems(2) [unfolded ev] this] Cons.IH Cons.prems(3) show ?case
    by (auto simp: ev)
qed

text \<open>The inner \<open>Set\<close> of a plain value with its callbacks.\<close>

lemma inner_set_rel:
  assumes r: "cached m c" "flushed m [] (w\<lparr>wbInner := c\<rparr>)" and s: "mSet M now k v ttl c = (err, evs, c')"
    and ttl: "ttl \<le> 0"
  shows "err = None \<and> cached (m(k \<mapsto> v)) (wbInner (foldl (wb_onEvict M B now) (w\<lparr>wbInner := c'\<rparr>) evs)) \<and>
    flushed m [] (foldl (wb_onEvict M B now) (w\<lparr>wbInner := c'\<rparr>) evs) \<and>
    live (wbInner (foldl (wb_onEvict M B now) (w\<lparr>wbInner := c'\<rparr>) evs)) k \<noteq> None"
proof -
  have i: "inv c" "reports c" and lm: "\<And>k v e. live c k = Some (v, e) \<Longrightarrow> m k = Some v \<and> e = None"
    using r(1) by (auto simp: cached_def)
  note l = set_law [OF i(1) s]
  note l4 = l [THEN conjunct2, THEN conjunct2, THEN conjunct2, THEN conjunct1]
    and l5 = l [THEN conjunct2, THEN conjunct2, THEN conjunct2, THEN conjunct2]
  have lk: "live c' k = Some (v, None)" using l ttl by (simp add: expiryOf_def)
  have other: "k' \<noteq> k \<Longrightarrow> live c' k' = live c k' \<or> live c' k' = None" for k' using l4 by simp
  have c': "cached (m(k \<mapsto> v)) c'"
    unfolding cached_def
  proof (intro conjI allI impI)
    show "inv c'" "reports c'" using l [THEN conjunct1] reports_set [OF i s] by simp_all
    fix k' v' e assume "live c' k' = Some (v', e)"
    moreover from this have "k' \<noteq> k \<Longrightarrow> live c k' = Some (v', e)" using other [of k'] by auto
    ultimately show "(m(k \<mapsto> v)) k' = Some v'" "e = None" using lk lm [of k' v' e] by (cases "k' = k"; simp)+
  qed
  have ev: "\<forall>(k', v') \<in> set evs. m k' = Some v'" using l5 lm by fast
  have "flushed m evs (w\<lparr>wbInner := c'\<rparr>)"
    unfolding flushed_def
  proof (intro conjI allI impI)
    show "dirty_counted (w\<lparr>wbInner := c'\<rparr>)" "ready (wbStore (w\<lparr>wbInner := c'\<rparr>))" using r(2) by (simp_all add: flushed_def)
    fix k' pw assume d: "map_of (wbDirty (w\<lparr>wbInner := c'\<rparr>)) k' = Some pw"
    with r(2) show "pwExpiresAt pw = None" by (simp add: flushed_def)
    have "live c k' \<noteq> None" using r(2) d by (auto simp: flushed_def)
    then obtain v' e where v': "live c k' = Some (v', e)" by auto
    show "live (wbInner (w\<lparr>wbInner := c'\<rparr>)) k' \<noteq> None \<or> k' \<in> fst ` set evs"
    proof (cases "k' = k \<or> live c' k' \<noteq> None")
      case True
      with lk show ?thesis by auto
    next
      case False
      with report_law [OF i s _ v'] show ?thesis by force
    qed
  next
    fix k' assume "map_of (wbDirty (w\<lparr>wbInner := c'\<rparr>)) k' = None"
    with r(2) show "content (wbStore (w\<lparr>wbInner := c'\<rparr>)) k' = m k'" by (simp add: flushed_def)
  qed
  from onEvicts_rel [OF _ this ev, of "m(k \<mapsto> v)" now] c' lk l show ?thesis by simp
qed

lemma wb_Set_rel:
  assumes r: "wb_rel m w" and p: "ttl \<le> 0" "plainValue v" and g: "wb_Set M B now t2 k v ttl w = (err, w')"
  shows "err = None \<and> wb_rel (m(k \<mapsto> v)) w'"
proof -
  obtain er evs c where s: "mSet M now k v ttl (wbInner w) = (er, evs, c)" by (cases "mSet M now k v ttl (wbInner w)")
  define w1 where "w1 = foldl (wb_onEvict M B now) (w\<lparr>wbInner := c\<rparr>) evs"
  have r': "cached m (wbInner w)" "flushed m [] (w\<lparr>wbInner := wbInner w\<rparr>)" "plain m"
    using r by (simp_all add: wb_rel_def)
  note i = inner_set_rel [OF r'(1,2) s p(1), folded w1_def]
  have w': "err = None" "w' = wb_markDirty k None w1"
    using g s i p(1) by (auto simp: wb_Set_def w1_def expiryOf_def)
  have "flushed (m(k \<mapsto> v)) [] w'"
    using i counted_mark [of w1 k None] unfolding w' flushed_def
    by (auto simp: wb_markDirty_def map_of_update_upd split: if_splits)
  then show ?thesis using i w' r'(3) p(2) by (auto simp: wb_rel_def wb_markDirty_def plain_def)
qed

lemma look_plain: "cached m c \<Longrightarrow> look now (live c k) = map_option fst (live c k)" "cached m c \<Longrightarrow> keep now (live c k) = live c k"
  by (cases "live c k"; force simp: cached_def)+

lemma wb_Get_rel:
  assumes r: "wb_rel m w" and g: "wb_Get M B um now t2 t3 k w = (res, w')"
  shows "wb_rel m w' \<and> res = m k"
proof -
  have r': "cached m (wbInner w)" "flushed m [] w" "plain m" and i: "inv (wbInner w)" "reports (wbInner w)"
    using r by (auto simp: wb_rel_def cached_def)
  obtain hit c where h: "mGet M now k (wbInner w) = (hit, c)" by (cases "mGet M now k (wbInner w)")
  note l = get_law [OF i(1) h]
  have lc: "live c = live (wbInner w)" and hit: "hit = map_option fst (live (wbInner w) k)"
    using l look_plain [OF r'(1), of now k] by (simp_all add: fun_upd_idem)
  have c: "cached m c" "flushed m [] (w\<lparr>wbInner := c\<rparr>)"
    using r'(1,2) l reports_get [OF i h] lc by (auto simp: cached_def flushed_def)
  show ?thesis
  proof (cases hit)
    case (Some v)
    with hit obtain e where "live (wbInner w) k = Some (v, e)" by (cases "live (wbInner w) k") auto
    then have "m k = Some v" using r'(1) by (simp add: cached_def)
    with Some g h c r'(3) show ?thesis by (auto simp: wb_Get_def wb_rel_def)
  next
    case None
    then have nl: "live (wbInner w) k = None" using hit by simp
    then have nd: "map_of (wbDirty w) k = None" using r'(2) by (cases "map_of (wbDirty w) k") (auto simp: flushed_def dest!: spec [of _ k])
    then have ck: "content (wbStore w) k = m k" using r'(2) by (simp add: flushed_def)
    obtain raw st where b: "bGet B k (wbStore w) = (raw, st)" by (cases "bGet B k (wbStore w)")
    have rd: "ready (wbStore w)" using r'(2) by (simp add: flushed_def)
    note sb = store.bget [OF rd b]
    have fs: "flushed m [] (w\<lparr>wbInner := c, wbStore := st\<rparr>)" using c(2) sb by (simp add: flushed_def dirty_counted_def)
    show ?thesis
    proof (cases "m k")
      case absent: None
      with g h None b sb ck c fs r'(3) show ?thesis by (auto simp: wb_Get_def wb_rel_def)
    next
      case (Some v)
      then have raw: "raw = Inr v" and pv: "plainValue v" using sb ck r'(3) by (auto simp: plain_def)
      have d: "decodeFromStore um v = Inr (v, None)" using pv by (simp add: decodeFromStore_def plainValue_def)
      let ?c = "mUpdStats M addReadStoreOps c"
      obtain er evs c2 where s: "mSet M t3 k v 0 ?c = (er, evs, c2)" by (cases "mSet M t3 k v 0 ?c")
      have "cached m ?c" "flushed m [] (w\<lparr>wbStore := st, wbInner := ?c\<rparr>)"
        using cached_updstats [OF c(1)] updstats_law c(1) fs by (simp_all add: flushed_def cached_def dirty_counted_def)
      note i2 = inner_set_rel [OF this s order_refl]
      define w2 where "w2 = foldl (wb_onEvict M B t3) (w\<lparr>wbStore := st, wbInner := c2\<rparr>) evs"
      have w': "res = Some v" "w' = w2"
        using g h None b raw d s by (auto simp: wb_Get_def ttlFromExpiry_def Let_def w2_def)
      have mk: "m(k \<mapsto> v) = m" using Some by (simp add: fun_upd_idem)
      have "flushed m [] w2" using i2 by (simp add: w2_def)
      then show ?thesis using i2 w' r'(3) Some by (simp add: wb_rel_def mk w2_def [symmetric])
    qed
  qed
qed

lemma wb_Delete_rel:
  assumes r: "wb_rel m w" and g: "wb_Delete M B k w = (found, w')"
  shows "wb_rel (m(k := None)) w'"
proof -
  have r': "cached m (wbInner w)" "flushed m [] w" "plain m" and i: "inv (wbInner w)" "reports (wbInner w)"
    using r by (auto simp: wb_rel_def cached_def)
  obtain er st where b: "bDelete B k (wbStore w) = (er, st)" by (cases "bDelete B k (wbStore w)")
  obtain f c where d: "mDelete M k (wbInner w) = (f, c)" by (cases "mDelete M k (wbInner w)")
  have w': "w' = (wb_takeDirty k w)\<lparr>wbInner := c, wbStore := st\<rparr>" using g b d by (simp add: wb_Delete_def)
  have rd: "ready (wbStore w)" using r'(2) by (simp add: flushed_def)
  note l = delete_law [OF i(1) d] and sb = store.bdelete [OF rd b]
  have lc: "live c = (live (wbInner w))(k := None)" "inv c" using l by auto
  have "cached (m(k := None)) c" using r'(1) lc reports_delete [OF i d] by (simp add: cached_def)
  moreover have "flushed (m(k := None)) [] w'"
    using r'(2) sb lc(1) counted_take [of w k] unfolding w' flushed_def by simp
  ultimately show ?thesis using r'(3) by (simp add: wb_rel_def plain_def w')
qed

lemma wb_Peek_rel:
  assumes r: "wb_rel m w" and g: "wb_Peek M now k w = (res, w')"
  shows "wb_rel m w'"
proof -
  have r': "cached m (wbInner w)" "flushed m [] w" and i: "inv (wbInner w)" "reports (wbInner w)"
    using r by (auto simp: wb_rel_def cached_def)
  obtain f c where d: "mPeek M now k (wbInner w) = (f, c)" by (cases "mPeek M now k (wbInner w)")
  have "inv c" "live c = live (wbInner w)"
    using peek_law [OF i(1) d] look_plain [OF r'(1), of now k] by (simp_all add: fun_upd_idem)
  with r r' g d reports_peek [OF i d] show ?thesis
    by (auto simp: wb_Peek_def wb_rel_def cached_def flushed_def)
qed

text \<open>The flush of one key, and of all that were dirty.\<close>

lemma flushKey_rel:
  assumes r: "wb_rel m w" and that: "map_of (wbDirty w) k = Some pw \<or> map_of (wbDirty w) k = None"
  shows "wb_rel m (wb_flushKey M B now w (k, pw)) \<and>
    map_of (wbDirty (wb_flushKey M B now w (k, pw))) = (map_of (wbDirty w))(k := None)"
proof (cases "map_of (wbDirty w) k")
  case None
  with r show ?thesis by (simp add: wb_flushKey_def fun_upd_idem)
next
  case (Some pw')
  with that have pw': "pw' = pw" by simp
  have r': "cached m (wbInner w)" "flushed m [] w" "plain m" and i: "inv (wbInner w)" "reports (wbInner w)"
    using r by (auto simp: wb_rel_def cached_def)
  have e: "pwExpiresAt pw = None" and lv: "live (wbInner w) k \<noteq> None"
    using r'(2) Some pw' by (simp_all add: flushed_def)
  then obtain v where v: "live (wbInner w) k = Some (v, None)" "m k = Some v"
    using r'(1) by (auto simp: cached_def)
  obtain f c where d: "mPeek M now k (wbInner w) = (f, c)" by (cases "mPeek M now k (wbInner w)")
  have f: "f = Some v" and lc: "live c = live (wbInner w)" and c: "cached m c"
    using peek_law [OF i(1) d] look_plain [OF r'(1), of now k] r'(1) v reports_peek [OF i d]
    by (simp_all add: fun_upd_idem cached_def)
  obtain er st where b: "bSet B k v (wbStore w) = (er, st)" by (cases "bSet B k v (wbStore w)")
  have rd: "ready (wbStore w)" using r'(2) by (simp add: flushed_def)
  note sb = store.bset [OF rd b]
  have w': "wb_flushKey M B now w (k, pw) = wb_wrote M ((wb_takeDirty k w)\<lparr>wbInner := c, wbStore := st\<rparr>)"
    using Some d f b sb flush_plain [OF e] by (simp add: wb_flushKey_def)
  have "flushed m [] (wb_flushKey M B now w (k, pw))"
    using r'(2) sb counted_take [of w k] v(2) lc updstats_law [of c] c unfolding w' flushed_def
    by (simp add: cached_def)
  moreover have "cached m (wbInner (wb_flushKey M B now w (k, pw)))" using cached_updstats [OF c] by (simp add: w')
  moreover have "map_of (wbDirty (wb_flushKey M B now w (k, pw))) = (map_of (wbDirty w))(k := None)" by (simp add: w')
  ultimately show ?thesis using r'(3) by (simp add: wb_rel_def)
qed

lemma flushKeys_rel:
  "wb_rel m w \<Longrightarrow> \<forall>k pw. map_of (wbDirty w) k = Some pw \<longrightarrow> (k, pw) \<in> set ps \<Longrightarrow> distinct (map fst ps) \<Longrightarrow>
   wb_rel m (foldl (wb_flushKey M B now) w ps) \<and> map_of (wbDirty (foldl (wb_flushKey M B now) w ps)) = Map.empty"
proof (induction ps arbitrary: w)
  case Nil
  then show ?case by (auto simp: fun_eq_iff)
next
  case (Cons p ps)
  obtain k pw where p: "p = (k, pw)" by (cases p)
  have "map_of (wbDirty w) k = Some pw \<or> map_of (wbDirty w) k = None"
    using Cons.prems(2,3) p by (cases "map_of (wbDirty w) k") (force dest!: spec [of _ k])+
  note f = flushKey_rel [OF Cons.prems(1) this, of now]
  have "\<forall>k' pw'. map_of (wbDirty (wb_flushKey M B now w (k, pw))) k' = Some pw' \<longrightarrow> (k', pw') \<in> set ps"
    using f Cons.prems(2) p by auto
  with f Cons.IH [of "wb_flushKey M B now w (k, pw)"] Cons.prems(3) show ?case by (simp add: p)
qed

lemma wb_Flush_rel:
  assumes r: "wb_rel m w"
  shows "wb_rel m (wb_Flush M B now w) \<and> wbDirty (wb_Flush M B now w) = [] \<and> content (wbStore (wb_Flush M B now w)) = m"
proof -
  have d: "distinct (map fst (wbDirty w))" using r by (simp add: wb_rel_def flushed_def dirty_counted_def)
  have f: "wb_rel m (wb_Flush M B now w)" "map_of (wbDirty (wb_Flush M B now w)) = Map.empty"
    using flushKeys_rel [OF r _ d, of now] by (auto simp: wb_Flush_def wb_flushAll_def dest: map_of_SomeD)
  moreover from f(2) have "wbDirty (wb_Flush M B now w) = []" by simp
  ultimately show ?thesis by (auto simp: wb_rel_def flushed_def)
qed

lemma wb_Purge_rel:
  assumes r: "wb_rel m w"
  shows "wb_rel m (wb_Purge M B now w)"
proof -
  note f = wb_Flush_rel [OF r, of now]
  then have "inv (wbInner (wb_Flush M B now w))" "reports (wbInner (wb_Flush M B now w))"
    by (auto simp: wb_rel_def cached_def)
  with f purge_law reports_purge show ?thesis
    by (auto simp: wb_rel_def wb_Purge_def Let_def cached_def flushed_def)
qed

lemma wb_step_rel:
  assumes "wb_rel m w" and "wb_plain x"
  shows "wb_rel (wb_latest m x) (wb_step M B um w x)"
proof (cases x)
  case (WbGet now k)
  with assms wb_Get_rel [OF assms(1)] show ?thesis by (cases "wb_Get M B um now now now k w") auto
next
  case (WbSet now k v ttl)
  with assms wb_Set_rel [OF assms(1)] show ?thesis by (cases "wb_Set M B now now k v ttl w") auto
next
  case (WbDelete k)
  with assms wb_Delete_rel [OF assms(1)] show ?thesis by (cases "wb_Delete M B k w") auto
next
  case (WbPeek now k)
  with assms wb_Peek_rel [OF assms(1)] show ?thesis by (cases "wb_Peek M now k w") auto
qed (use assms wb_Purge_rel wb_Flush_rel in auto)

lemma wb_run_rel:
  "wb_rel m w \<Longrightarrow> \<forall>x\<in>set xs. wb_plain x \<Longrightarrow> wb_rel (foldl wb_latest m xs) (foldl (wb_step M B um) w xs)"
proof (induction xs arbitrary: m w)
  case Nil
  then show ?case by simp
next
  case (Cons x xs)
  from wb_step_rel [OF Cons.prems(1), of x] Cons.prems(2) Cons.IH show ?case by simp
qed

lemma wb_start:
  assumes "inv c" "live c = Map.empty" "content st = Map.empty" "ready st"
  shows "wb_rel Map.empty (NewWriteBack M c st d)"
  using callback_law [OF assms(1), of True] reports_on [OF assms(1)] assms
  by (simp add: wb_rel_def NewWriteBack_def cached_def flushed_def dirty_counted_def plain_def)

text \<open>Reads, and what a flush leaves.\<close>

lemma wb_correct:
  assumes "inv c" "live c = Map.empty" "content st = Map.empty" "ready st" and "\<forall>x\<in>set xs. wb_plain x"
    and w: "w = foldl (wb_step M B um) (NewWriteBack M c st d) xs" and m: "m = foldl wb_latest Map.empty xs"
  shows "fst (wb_Get M B um now t2 t3 k w) = m k"
    and "content (wbStore (wb_Flush M B now w)) = m" and "wbDirty (wb_Flush M B now w) = []"
    and "wbDirtyCount w = of_nat (length (wbDirty w))"
proof -
  have r: "wb_rel m w" unfolding w m by (rule wb_run_rel [OF wb_start [OF assms(1-4)] assms(5)])
  show "fst (wb_Get M B um now t2 t3 k w) = m k"
    using wb_Get_rel [OF r] by (cases "wb_Get M B um now t2 t3 k w") auto
  show "content (wbStore (wb_Flush M B now w)) = m" "wbDirty (wb_Flush M B now w) = []"
    using wb_Flush_rel [OF r] by auto
  show "wbDirtyCount w = of_nat (length (wbDirty w))" using r by (simp add: wb_rel_def flushed_def dirty_counted_def)
qed

end

section \<open>Properties\<close>

lemma write_back_on:
  assumes "reporting_cache M okC live rep" and "reads_back um"
  shows "write_back M okC live rep (memory_store None) memory_content (\<lambda>m. True) um"
  using assms memoryOk.reliable_store_axioms
  by (simp add: write_back_def envelope_reader_def reads_back_def)

interpretation lruBack: write_back lru_cache "\<lambda>c. \<exists>s. lru_sim c s \<and> lruSpec_ok s"
    "\<lambda>c. live_of (lsItems (lru_abs c))" lcOnEvict "memory_store None" memory_content "\<lambda>m. True" parseEnvelope
  by (rule write_back_on [OF lruReports.reporting_cache_axioms reads_back_parse])

abbreviation wb_run :: "'c Cache \<Rightarrow> (bytes \<Rightarrow> ttlEnvelope option) \<Rightarrow> 'c \<Rightarrow> duration \<Rightarrow> wbOp list \<Rightarrow>
    ('c, MemoryStore) WriteBackCache" where
  "wb_run M um c d xs \<equiv> foldl (wb_step M (memory_store None) um) (NewWriteBack M c (NewMemoryStore d) d) xs"


abbreviation wb_demo_ops :: "wbOp list" where
  "wb_demo_ops \<equiv> [WbSet 0 ''a'' [7] 0, WbSet 1 ''b'' [8] 0, WbFlush 2, WbDelete ''b'', WbPurge 3]"

lemma wb_demo_ops_ok: "\<forall>x\<in>set wb_demo_ops. wb_plain x"
  by code_simp




text \<open>
  with expiries the write-back wrapper is not durable: a value that was flushed comes back
  after a newer value of the same key, not yet flushed, has expired.
\<close>

theorem write_back_stale_after_expiry:
  "let w = wb_run lru_cache parseEnvelope (lru_New 1) 0 [WbSet 0 ''a'' [1] 0, WbFlush 1, WbSet 2 ''a'' [2] 5]
   in fst (wb_Get lru_cache (memory_store None) parseEnvelope 8 8 8 ''a'' w) = Some [1]"
  by code_simp

text \<open>
  when the store fails during the flush of an eviction, the write-back wrapper loses a value
  whose \<open>Set\<close> it acknowledged: the key is dropped from \<open>dirty\<close> before the flush and not put back.
\<close>

theorem write_back_eviction_loss:
  "let failing = memory_store (Some ''context deadline exceeded'');
       w0 = NewWriteBack lru_cache (lru_New 1) (NewMemoryStore 1) 0;
       (err1, w1) = wb_Set lru_cache failing 0 0 ''a'' [1] 0 w0;
       (err2, w2) = wb_Set lru_cache failing 1 1 ''b'' [2] 0 w1
   in err1 = None \<and> err2 = None \<and> map fst (wbDirty w2) = [''b''] \<and>
      fst (wb_Get lru_cache (memory_store None) parseEnvelope 2 2 2 ''a'' w2) = None"
  by code_simp

text \<open>The steps of an ARC cache, read off its machine.\<close>

abbreviation arcSpec_run :: "int \<Rightarrow> cacheOp list \<Rightarrow> arcSpec" where
  "arcSpec_run cap xs \<equiv> foldl (cache_step arcSpec_cache) (arcSpec_New cap) xs"

lemma arc_Set_err: "fst (arc_Set now k v ttl c) = None"
  by (simp add: arc_Set_def Let_def split: option.splits prod.splits)

lemma arc_Set_run: "arc_Set now k v ttl (arc_run cap xs) =
    (None, fst (snd (arcSpec_Set now k v ttl (arcSpec_run cap xs))), arc_run cap (xs @ [OpSet now k v ttl]))"
  using arc_Set_err [of now k v ttl "arc_run cap xs"] arc_run_results(2) [of now k v ttl cap xs]
  by (cases "arc_Set now k v ttl (arc_run cap xs)") (simp add: cache_step_def arc_cache_def)

lemma arc_Get_run: "arc_Get now k (arc_run cap xs) =
    (fst (arcSpec_Get now k (arcSpec_run cap xs)), arc_run cap (xs @ [OpGet now k]))"
  using arc_run_results(1) [of now k cap xs]
  by (cases "arc_Get now k (arc_run cap xs)") (simp add: cache_step_def arc_cache_def)

lemma wb_Set_quiet:
  "mSet M now k v ttl (wbInner w) = (None, [], c) \<Longrightarrow>
   snd (wb_Set M B now t2 k v ttl w) = wb_markDirty k (expiryOf t2 ttl) (w\<lparr>wbInner := c\<rparr>)"
  by (simp add: wb_Set_def)

lemma wb_Get_hit:
  "mGet M now k (wbInner w) = (Some v, c) \<Longrightarrow> snd (wb_Get M B um now t2 t3 k w) = w\<lparr>wbInner := c\<rparr>"
  by (simp add: wb_Get_def)

lemma wb_Get_absent:
  "mGet M now k (wbInner w) = (None, c) \<Longrightarrow> fst (bGet B k (wbStore w)) = Inl e \<Longrightarrow>
   fst (wb_Get M B um now t2 t3 k w) = None"
  by (cases "bGet B k (wbStore w)") (simp add: wb_Get_def Let_def)

text \<open>
  over ARC the write-back wrapper is not durable: an empty value that is evicted from \<open>T2\<close> is
  never flushed, as ARC does not report its eviction, and a read misses it.
\<close>

theorem write_back_arc_loses:
  "let w = wb_run arc_cache parseEnvelope (arc_New 1) 0 [WbSet 0 ''a'' [] 0, WbGet 1 ''a'', WbSet 2 ''b'' [1] 0]
   in fst (wb_Get arc_cache (memory_store None) parseEnvelope 3 3 3 ''a'' w) = None"
proof -
  let ?xs = "[OpCallback True, OpSet 0 ''a'' [] 0, OpGet 1 ''a'', OpSet 2 ''b'' [1] 0]"
  have e: "fst (snd (arcSpec_Set 0 ''a'' [] 0 (arcSpec_run 1 [OpCallback True]))) = []"
    "fst (arcSpec_Get 1 ''a'' (arcSpec_run 1 [OpCallback True, OpSet 0 ''a'' [] 0])) = Some []"
    "fst (snd (arcSpec_Set 2 ''b'' [1] 0 (arcSpec_run 1 [OpCallback True, OpSet 0 ''a'' [] 0, OpGet 1 ''a'']))) = []"
    "fst (arcSpec_Get 3 ''a'' (arcSpec_run 1 ?xs)) = None"
    by code_simp+
  define run where "run xs = arc_run 1 xs" for xs
  note s = arc_Set_run [of 0 "''a''" "[]" 0 1 "[OpCallback True]", folded run_def]
    arc_Get_run [of 1 "''a''" 1 "[OpCallback True, OpSet 0 ''a'' [] 0]", folded run_def]
    arc_Set_run [of 2 "''b''" "[1]" 0 1 "[OpCallback True, OpSet 0 ''a'' [] 0, OpGet 1 ''a'']", folded run_def]
    arc_Get_run [of 3 "''a''" 1 ?xs, folded run_def]
  note s = s [unfolded e append.simps]
  have m: "mSet arc_cache = arc_Set" "mGet arc_cache = arc_Get" by (simp_all add: arc_cache_def)
  define w0 where "w0 = NewWriteBack arc_cache (arc_New 1) (NewMemoryStore 0) 0"
  have w0: "wbInner w0 = run [OpCallback True]" "wbStore w0 = NewMemoryStore 0"
    by (simp_all add: w0_def NewWriteBack_def run_def cache_step_def)
  let ?B = "memory_store None"
  define w1 where "w1 = snd (wb_Set arc_cache ?B 0 0 ''a'' [] 0 w0)"
  have w1: "wbInner w1 = run [OpCallback True, OpSet 0 ''a'' [] 0]" "wbStore w1 = NewMemoryStore 0"
    using wb_Set_quiet [where M = arc_cache and w = w0, unfolded m w0(1), OF s(1), of ?B 0] w0
    by (simp_all add: w1_def wb_markDirty_def)
  define w2 where "w2 = snd (wb_Get arc_cache ?B parseEnvelope 1 1 1 ''a'' w1)"
  have w2: "wbInner w2 = run [OpCallback True, OpSet 0 ''a'' [] 0, OpGet 1 ''a'']" "wbStore w2 = NewMemoryStore 0"
    using wb_Get_hit [where M = arc_cache and w = w1, unfolded m w1(1), OF s(2), of ?B parseEnvelope 1 1] w1
    by (simp_all add: w2_def)
  define w3 where "w3 = snd (wb_Set arc_cache ?B 2 2 ''b'' [1] 0 w2)"
  have w3: "wbInner w3 = run ?xs" "wbStore w3 = NewMemoryStore 0"
    using wb_Set_quiet [where M = arc_cache and w = w2, unfolded m w2(1), OF s(3), of ?B 2] w2
    by (simp_all add: w3_def wb_markDirty_def)
  have "fst (bGet ?B ''a'' (wbStore w3)) = Inl ''key not found: a''"
    by (simp add: w3 memory_store_def memory_Get_def memory_sleep_def NewMemoryStore_def)
  from wb_Get_absent [OF _ this, of arc_cache 3 "run (?xs @ [OpGet 3 ''a''])" parseEnvelope 3 3] s(4)
  have "fst (wb_Get arc_cache ?B parseEnvelope 3 3 3 ''a'' w3) = None" by (simp add: m w3)
  then show ?thesis by (simp add: Let_def w3_def w2_def w1_def w0_def)
qed

end
