(* ===== verification/Event_Bus.thy ===== *)
theory Event_Bus
  imports Cache_Types
begin

text \<open>
  internal/coherence/bus.go: the in-process publish/subscribe bus. A channel is a reference that
  the bus and a receiver share, so channels are cells of a store: \<open>ebChans ! a\<close> is the channel at
  the address \<open>a\<close>, \<open>Subscribe\<close> allocates the next one. Every method holds the bus mutex and is one
  step; sends do not block. A send on a closed channel and a second \<open>close\<close> panic, which is \<open>None\<close>.

  \<open>bus_ok\<close> is the invariant of the bus: the subscribed channels are open and not shared, and no
  buffer exceeds its 100 events. Every method keeps it, and under it none panics.
\<close>

section \<open>The code\<close>

datatype EventType = EventInvalidate | EventUpdate | EventFlush

record Event =
  evType :: EventType
  evKey :: key
  evValue :: bytes
  evFrom :: string

record chan =
  chBuf :: "Event list"
  chClosed :: bool

record EventBus =
  ebSubscribers :: "(string, addr) gomap"
  ebChans :: "chan list"

abbreviation chanCap :: nat where
  "chanCap \<equiv> 100"

definition NewBus :: EventBus where
  "NewBus = \<lparr>ebSubscribers = [], ebChans = []\<rparr>"

definition bus_Subscribe :: "string \<Rightarrow> EventBus \<Rightarrow> addr \<times> EventBus" where
  "bus_Subscribe nodeID b =
     (let ch = length (ebChans b)
      in (ch, \<lparr>ebSubscribers = AList.update nodeID ch (ebSubscribers b),
               ebChans = ebChans b @ [\<lparr>chBuf = [], chClosed = False\<rparr>]\<rparr>))"

definition chan_close :: "chan \<Rightarrow> chan option" where
  "chan_close ch = (if chClosed ch then None else Some (ch\<lparr>chClosed := True\<rparr>))"

definition bus_Unsubscribe :: "string \<Rightarrow> EventBus \<Rightarrow> EventBus option" where
  "bus_Unsubscribe nodeID b =
     (case map_of (ebSubscribers b) nodeID of
        None \<Rightarrow> Some b
      | Some a \<Rightarrow>
          (case chan_close (ebChans b ! a) of
             None \<Rightarrow> None
           | Some ch \<Rightarrow> Some \<lparr>ebSubscribers = AList.delete nodeID (ebSubscribers b),
                             ebChans = (ebChans b)[a := ch]\<rparr>))"

text \<open>\<open>select { case ch <- e: default: }\<close>\<close>

definition chan_offer :: "Event \<Rightarrow> chan \<Rightarrow> chan option" where
  "chan_offer e ch =
     (if chClosed ch then None
      else Some (if length (chBuf ch) < chanCap then ch\<lparr>chBuf := chBuf ch @ [e]\<rparr> else ch))"

fun offerAll :: "Event \<Rightarrow> (string, addr) gomap \<Rightarrow> chan list \<Rightarrow> chan list option" where
  "offerAll e [] chs = Some chs"
| "offerAll e ((nodeID, a) # subs) chs =
     (if nodeID = evFrom e then offerAll e subs chs
      else
        (case chan_offer e (chs ! a) of
           None \<Rightarrow> None
         | Some ch \<Rightarrow> offerAll e subs (chs[a := ch])))"

definition bus_Publish :: "Event \<Rightarrow> EventBus \<Rightarrow> EventBus option" where
  "bus_Publish e b =
     map_option (\<lambda>chs. b\<lparr>ebChans := chs\<rparr>) (offerAll e (ebSubscribers b) (ebChans b))"

text \<open>A receive of the oldest event of a channel that is not empty, as its reader makes it.\<close>

definition bus_receive :: "addr \<Rightarrow> EventBus \<Rightarrow> EventBus" where
  "bus_receive a b = b\<lparr>ebChans := (ebChans b)[a := (ebChans b ! a)\<lparr>chBuf := tl (chBuf (ebChans b ! a))\<rparr>]\<rparr>"

section \<open>The invariant\<close>

definition bus_ok :: "EventBus \<Rightarrow> bool" where
  "bus_ok b \<longleftrightarrow>
     distinct (map fst (ebSubscribers b)) \<and> distinct (map snd (ebSubscribers b)) \<and>
     (\<forall>(i, a)\<in>set (ebSubscribers b). a < length (ebChans b) \<and> \<not> chClosed (ebChans b ! a)) \<and>
     (\<forall>ch\<in>set (ebChans b). length (chBuf ch) \<le> chanCap)"

text \<open>What a channel becomes when it is offered an event, and whether the event is dropped.\<close>

definition offered :: "Event \<Rightarrow> chan \<Rightarrow> chan" where
  "offered e ch = (if length (chBuf ch) < chanCap then ch\<lparr>chBuf := chBuf ch @ [e]\<rparr> else ch)"

definition drops :: "Event \<Rightarrow> EventBus \<Rightarrow> bool" where
  "drops e b \<longleftrightarrow> (\<exists>(i, a)\<in>set (ebSubscribers b). i \<noteq> evFrom e \<and> chanCap \<le> length (chBuf (ebChans b ! a)))"

lemma bus_ok_New: "bus_ok NewBus"
  by (simp add: bus_ok_def NewBus_def)

lemma bus_ok_sub:
  assumes "bus_ok b" and "map_of (ebSubscribers b) i = Some a"
  shows "a < length (ebChans b)" and "\<not> chClosed (ebChans b ! a)"
  using assms map_of_SomeD [OF assms(2)] by (auto simp: bus_ok_def)

lemma bus_ok_inj:
  assumes ok: "bus_ok b" and "map_of (ebSubscribers b) i = Some a" "map_of (ebSubscribers b) j = Some a"
  shows "i = j"
proof -
  have "(i, a) \<in> set (ebSubscribers b)" "(j, a) \<in> set (ebSubscribers b)"
    using assms(2,3) by (auto dest: map_of_SomeD)
  moreover have "inj_on snd (set (ebSubscribers b))" using ok by (simp add: bus_ok_def distinct_map)
  ultimately have "(i, a) = (j, a)" by (auto dest!: inj_onD [where x = "(i, a)" and y = "(j, a)"])
  then show ?thesis by simp
qed

lemma set_update_same [go_map]:
  "distinct (map fst m) \<Longrightarrow> set (AList.update k v m) = insert (k, v) {p \<in> set m. fst p \<noteq> k}"
  by (induction m) (force split: if_splits)+

lemma snd_update_fresh:
  "distinct (map snd m) \<Longrightarrow> v \<notin> set (map snd m) \<Longrightarrow>
   distinct (map snd (AList.update k v m)) \<and> set (map snd (AList.update k v m)) \<subseteq> insert v (set (map snd m))"
  by (induction m) auto

lemma Subscribe_ok:
  assumes ok: "bus_ok b" and s: "bus_Subscribe i b = (a, b')"
  shows "bus_ok b'" and "a = length (ebChans b)" and "ebChans b' = ebChans b @ [\<lparr>chBuf = [], chClosed = False\<rparr>]"
    and "map_of (ebSubscribers b') = (map_of (ebSubscribers b))(i \<mapsto> a)"
proof -
  have b': "b' = \<lparr>ebSubscribers = AList.update i a (ebSubscribers b),
      ebChans = ebChans b @ [\<lparr>chBuf = [], chClosed = False\<rparr>]\<rparr>" and a: "a = length (ebChans b)"
    using s by (auto simp: bus_Subscribe_def Let_def)
  have "a \<notin> set (map snd (ebSubscribers b))" using ok by (auto simp: bus_ok_def a)
  with ok snd_update_fresh [of "ebSubscribers b" a i]
  show "bus_ok b'"
    by (auto simp: bus_ok_def b' a distinct_update set_update_same nth_append)
  show "a = length (ebChans b)" "ebChans b' = ebChans b @ [\<lparr>chBuf = [], chClosed = False\<rparr>]"
    "map_of (ebSubscribers b') = (map_of (ebSubscribers b))(i \<mapsto> a)"
    by (simp_all add: a b' map_of_update_upd)
qed

lemma Unsubscribe_ok:
  assumes ok: "bus_ok b"
  obtains b' where "bus_Unsubscribe i b = Some b'" and "bus_ok b'"
    and "map_of (ebSubscribers b') = (map_of (ebSubscribers b))(i := None)"
    and "length (ebChans b') = length (ebChans b)"
    and "\<And>j a. map_of (ebSubscribers b') j = Some a \<Longrightarrow> ebChans b' ! a = ebChans b ! a"
    and "\<And>a. chBuf (ebChans b' ! a) = chBuf (ebChans b ! a)"
proof (cases "map_of (ebSubscribers b) i")
  case None
  then show ?thesis by (intro that [of b]) (auto simp: bus_Unsubscribe_def ok)
next
  case (Some a)
  note o = bus_ok_sub [OF ok Some]
  let ?ch = "(ebChans b ! a)\<lparr>chClosed := True\<rparr>"
  let ?b = "\<lparr>ebSubscribers = AList.delete i (ebSubscribers b), ebChans = (ebChans b)[a := ?ch]\<rparr>"
  have other: "a' \<noteq> a" if "(j, a') \<in> set (ebSubscribers b)" "j \<noteq> i" for j a'
  proof -
    have "map_of (ebSubscribers b) j = Some a'" using that ok by (simp add: bus_ok_def)
    with bus_ok_inj [OF ok Some] that(2) show ?thesis by blast
  qed
  show ?thesis
  proof (rule that)
    show "bus_Unsubscribe i b = Some ?b" using o Some by (simp add: bus_Unsubscribe_def chan_close_def)
    have "distinct (map snd (AList.delete i (ebSubscribers b)))"
      using ok by (simp add: AList_delete_filter bus_ok_def distinct_map_filter)
    moreover have "length (chBuf ?ch) \<le> chanCap" using ok o by (simp add: bus_ok_def)
    ultimately show "bus_ok ?b"
      using ok o other
      by (auto simp: bus_ok_def set_delete nth_list_update dest!: set_update_subset_insert [THEN subsetD])
    show "map_of (ebSubscribers ?b) = (map_of (ebSubscribers b))(i := None)" by (simp add: map_of_delete_upd)
    show "length (ebChans ?b) = length (ebChans b)" by simp
    show "ebChans ?b ! a' = ebChans b ! a'" if "map_of (ebSubscribers ?b) j = Some a'" for j a'
      using that other [of j a'] by (auto simp: map_of_delete_upd dest: map_of_SomeD split: if_splits)
    show "chBuf (ebChans ?b ! a') = chBuf (ebChans b ! a')" for a'
      using o(1) by (cases "a' = a") auto
  qed
qed

lemma offerAll_effect:
  assumes "distinct (map snd subs)"
    and "\<forall>(i, a)\<in>set subs. a < length chs \<and> \<not> chClosed (chs ! a)"
  shows "\<exists>chs'. offerAll e subs chs = Some chs' \<and> length chs' = length chs \<and>
    (\<forall>a<length chs. chs' ! a =
       (if \<exists>i. (i, a) \<in> set subs \<and> i \<noteq> evFrom e then offered e (chs ! a) else chs ! a))"
  using assms
proof (induction subs arbitrary: chs)
  case Nil
  then show ?case by simp
next
  case (Cons p subs)
  obtain i a where p: "p = (i, a)" by (cases p)
  show ?case
  proof (cases "i = evFrom e")
    case True
    have "(\<exists>j. (j, a') \<in> set (p # subs) \<and> j \<noteq> evFrom e) = (\<exists>j. (j, a') \<in> set subs \<and> j \<noteq> evFrom e)" for a'
      using True p by auto
    moreover have "offerAll e (p # subs) chs = offerAll e subs chs" using True p by simp
    ultimately show ?thesis using Cons.IH [of chs] Cons.prems by simp
  next
    case False
    let ?chs = "chs[a := offered e (chs ! a)]"
    have o: "chan_offer e (chs ! a) = Some (offered e (chs ! a))" and a: "a < length chs"
      using Cons.prems(2) p by (auto simp: chan_offer_def offered_def)
    have fresh: "(j, a) \<notin> set subs" for j using Cons.prems(1) p by force
    then have "\<forall>(j, a')\<in>set subs. a' < length ?chs \<and> \<not> chClosed (?chs ! a')"
      using Cons.prems(2) p by (auto simp: nth_list_update)
    from Cons.IH [OF _ this] Cons.prems(1) p obtain chs' where
      c: "offerAll e subs ?chs = Some chs'" "length chs' = length chs"
      "\<forall>a'<length chs. chs' ! a' =
         (if \<exists>j. (j, a') \<in> set subs \<and> j \<noteq> evFrom e then offered e (?chs ! a') else ?chs ! a')" by auto
    have "chs' ! a' = (if \<exists>j. (j, a') \<in> set (p # subs) \<and> j \<noteq> evFrom e then offered e (chs ! a') else chs ! a')"
      if "a' < length chs" for a'
      using c(3) that fresh p False by (cases "a' = a") auto
    with c(1,2) o False p show ?thesis by simp
  qed
qed

lemma offered_sel [simp]:
  "chClosed (offered e ch) = chClosed ch"
  "set (chBuf (offered e ch)) \<subseteq> insert e (set (chBuf ch))"
  "set (chBuf ch) \<subseteq> set (chBuf (offered e ch))"
  "length (chBuf ch) < chanCap \<Longrightarrow> chBuf (offered e ch) = chBuf ch @ [e]"
  "length (chBuf ch) \<le> chanCap \<Longrightarrow> length (chBuf (offered e ch)) \<le> chanCap"
  by (auto simp: offered_def)

lemma Publish_ok:
  assumes ok: "bus_ok b"
  obtains b' where "bus_Publish e b = Some b'" and "bus_ok b'" and "ebSubscribers b' = ebSubscribers b"
    and "length (ebChans b') = length (ebChans b)"
    and "\<And>a. a < length (ebChans b) \<Longrightarrow> ebChans b' ! a =
       (if \<exists>i. map_of (ebSubscribers b) i = Some a \<and> i \<noteq> evFrom e then offered e (ebChans b ! a) else ebChans b ! a)"
proof -
  have m: "(i, a) \<in> set (ebSubscribers b) \<longleftrightarrow> map_of (ebSubscribers b) i = Some a" for i a
    using ok by (auto simp: bus_ok_def)
  from ok offerAll_effect [of "ebSubscribers b" "ebChans b" e] obtain chs where
    c: "offerAll e (ebSubscribers b) (ebChans b) = Some chs" "length chs = length (ebChans b)"
    "\<forall>a<length (ebChans b). chs ! a =
       (if \<exists>i. map_of (ebSubscribers b) i = Some a \<and> i \<noteq> evFrom e then offered e (ebChans b ! a) else ebChans b ! a)"
    unfolding m by (auto simp: bus_ok_def)
  show ?thesis
  proof (rule that)
    show "bus_Publish e b = Some (b\<lparr>ebChans := chs\<rparr>)" using c(1) by (simp add: bus_Publish_def)
    show "bus_ok (b\<lparr>ebChans := chs\<rparr>)"
      unfolding bus_ok_def
    proof (intro conjI)
      show "\<forall>(i, a)\<in>set (ebSubscribers (b\<lparr>ebChans := chs\<rparr>)). a < length (ebChans (b\<lparr>ebChans := chs\<rparr>)) \<and>
          \<not> chClosed (ebChans (b\<lparr>ebChans := chs\<rparr>) ! a)"
      proof (rule ballI, clarify)
        fix i a assume "(i, a) \<in> set (ebSubscribers (b\<lparr>ebChans := chs\<rparr>))"
        then have "map_of (ebSubscribers b) i = Some a" by (simp add: m)
        with bus_ok_sub [OF ok this] c(2,3) show "a < length (ebChans (b\<lparr>ebChans := chs\<rparr>)) \<and>
          \<not> chClosed (ebChans (b\<lparr>ebChans := chs\<rparr>) ! a)" by simp
      qed
      show "\<forall>ch\<in>set (ebChans (b\<lparr>ebChans := chs\<rparr>)). length (chBuf ch) \<le> chanCap"
      proof
        fix ch assume "ch \<in> set (ebChans (b\<lparr>ebChans := chs\<rparr>))"
        then obtain a where a: "a < length (ebChans b)" "ch = chs ! a" using c(2) by (auto simp: in_set_conv_nth)
        have "length (chBuf (ebChans b ! a)) \<le> chanCap" using ok a(1) by (simp add: bus_ok_def)
        then show "length (chBuf ch) \<le> chanCap" using c(3) a by simp
      qed
    qed (use ok in \<open>simp_all add: bus_ok_def\<close>)
  qed (use c in auto)
qed

lemma receive_ok:
  assumes ok: "bus_ok b" and a: "a < length (ebChans b)"
  shows "bus_ok (bus_receive a b)" and "ebSubscribers (bus_receive a b) = ebSubscribers b"
    and "length (ebChans (bus_receive a b)) = length (ebChans b)"
    and "ebChans (bus_receive a b) ! a' =
      (if a' = a then (ebChans b ! a)\<lparr>chBuf := tl (chBuf (ebChans b ! a))\<rparr> else ebChans b ! a')"
proof -
  have "length (chBuf ch) \<le> chanCap" if "ch \<in> set (ebChans (bus_receive a b))" for ch
  proof -
    from that have "ch \<in> insert ((ebChans b ! a)\<lparr>chBuf := tl (chBuf (ebChans b ! a))\<rparr>) (set (ebChans b))"
      unfolding bus_receive_def by (auto dest!: set_update_subset_insert [THEN subsetD])
    moreover have "length (tl xs) \<le> length xs" for xs :: "Event list" by simp
    ultimately show ?thesis using ok nth_mem [OF a]
      unfolding bus_ok_def by (metis (no_types, lifting) chan.select_convs(1) chan.surjective chan.update_convs(1) insertE le_trans)
  qed
  with ok a show "bus_ok (bus_receive a b)"
    by (auto simp: bus_ok_def bus_receive_def nth_list_update)
  show "ebSubscribers (bus_receive a b) = ebSubscribers b" "length (ebChans (bus_receive a b)) = length (ebChans b)"
    "ebChans (bus_receive a b) ! a' =
      (if a' = a then (ebChans b ! a)\<lparr>chBuf := tl (chBuf (ebChans b ! a))\<rparr> else ebChans b ! a')"
    using a by (auto simp: bus_receive_def)
qed

end
