(* ===== verification/Coherence.thy ===== *)
theory Coherence
  imports Event_Bus LRU_Contract
begin

text \<open>
  internal/coherence/coordinator.go: nodes that cache the same keys and invalidate each other over
  the bus. The coordinator is generic in the method table \<open>M\<close> of its nodes (cmd/server uses three
  LRU caches), which are separate caches.

  A \<open>System\<close> is the coordinator with its goroutines: the event handlers that run, with the
  channel each reads, and the invalidations of the calls of \<open>Set\<close> that have written their node and
  not published yet. \<open>co_step\<close> has one rule per atomic step of a goroutine, so the runs contain
  every interleaving of writers, handlers, readers and the clients of the event stream (whose
  identifiers, \<open>sse-client-<nanoseconds>\<close>, are not node identifiers).
\<close>

section \<open>The code\<close>

record 'c Coordinator =
  coNodes :: "(string, 'c) gomap"
  coBus :: EventBus
  coDone :: "(string, bool) gomap"
  coClosed :: bool

record NodeSnapshot =
  nsNodeID :: string
  nsEntries :: "Entry list"
  nsLen :: int

record 'c System =
  syCo :: "'c Coordinator"
  syHandlers :: "(string, addr) gomap"
  syPending :: "Event list"

text \<open>The loop of \<open>NewCoordinator\<close>: subscribe each node and start its handler.\<close>

fun startHandlers :: "string list \<Rightarrow> EventBus \<Rightarrow> EventBus \<times> (string, addr) gomap" where
  "startHandlers [] b = (b, [])"
| "startHandlers (nodeID # ids) b =
     (let (ch, b1) = bus_Subscribe nodeID b; (b2, hs) = startHandlers ids b1
      in (b2, (nodeID, ch) # hs))"

definition NewCoordinator :: "(string, 'c) gomap \<Rightarrow> EventBus \<Rightarrow> 'c System" where
  "NewCoordinator nodes b =
     (let (b', hs) = startHandlers (map fst nodes) b
      in \<lparr>syCo = \<lparr>coNodes = nodes, coBus = b', coDone = map (\<lambda>p. (fst p, False)) nodes, coClosed = False\<rparr>,
          syHandlers = hs, syPending = []\<rparr>)"

text \<open>One received event in the handler of \<open>nodeID\<close>.\<close>

definition handleEvent :: "'c Cache \<Rightarrow> instant \<Rightarrow> string \<Rightarrow> Event \<Rightarrow> 'c Coordinator \<Rightarrow> 'c Coordinator" where
  "handleEvent M now nodeID e co =
     (if evFrom e = nodeID then co
      else
        (case map_of (coNodes co) nodeID of
           None \<Rightarrow> co
         | Some n \<Rightarrow>
             (case evType e of
                EventInvalidate \<Rightarrow> co\<lparr>coNodes := AList.update nodeID (snd (mDelete M (evKey e) n)) (coNodes co)\<rparr>
              | EventUpdate \<Rightarrow>
                  co\<lparr>coNodes := AList.update nodeID (snd (snd (mSet M now (evKey e) (evValue e) 0 n))) (coNodes co)\<rparr>
              | EventFlush \<Rightarrow> co)))"

text \<open>\<open>Set\<close> up to its call of \<open>Publish\<close>: the error it returns, or the event it will publish.\<close>

definition coordinator_write :: "'c Cache \<Rightarrow> instant \<Rightarrow> string \<Rightarrow> key \<Rightarrow> bytes \<Rightarrow> duration \<Rightarrow> 'c Coordinator \<Rightarrow>
    (error + Event) \<times> 'c Coordinator" where
  "coordinator_write M now nodeID k v ttl co =
     (case map_of (coNodes co) nodeID of
        None \<Rightarrow> (Inl (''unknown node: '' @ nodeID), co)
      | Some n \<Rightarrow>
          (let (err, evs, n') = mSet M now k v ttl n; co' = co\<lparr>coNodes := AList.update nodeID n' (coNodes co)\<rparr>
           in (case err of
                 Some e \<Rightarrow> (Inl e, co')
               | None \<Rightarrow> (Inr \<lparr>evType = EventInvalidate, evKey = k, evValue = [], evFrom = nodeID\<rparr>, co'))))"

text \<open>The whole call when nothing comes between; \<open>None\<close> is a panic in \<open>Publish\<close>.\<close>

definition coordinator_Set :: "'c Cache \<Rightarrow> instant \<Rightarrow> string \<Rightarrow> key \<Rightarrow> bytes \<Rightarrow> duration \<Rightarrow> 'c Coordinator \<Rightarrow>
    (error option \<times> 'c Coordinator) option" where
  "coordinator_Set M now nodeID k v ttl co =
     (case coordinator_write M now nodeID k v ttl co of
        (Inl e, co') \<Rightarrow> Some (Some e, co')
      | (Inr ev, co') \<Rightarrow> map_option (\<lambda>b. (None, co'\<lparr>coBus := b\<rparr>)) (bus_Publish ev (coBus co')))"

definition coordinator_Snapshot :: "'c Cache \<Rightarrow> instant \<Rightarrow> 'c Coordinator \<Rightarrow> (string \<times> NodeSnapshot) list option" where
  "coordinator_Snapshot M now co =
     those (map (\<lambda>(i, n). map_option
        (\<lambda>snap. (i, \<lparr>nsNodeID = i, nsEntries = srEntries snap, nsLen = mLen M n\<rparr>)) (mSnapshot M now n)) (coNodes co))"

text \<open>The loop of \<open>Close\<close>: close the handler's done channel, unsubscribe the node.\<close>

fun closeHandlers :: "string list \<Rightarrow> 'c Coordinator \<Rightarrow> 'c Coordinator option" where
  "closeHandlers [] co = Some co"
| "closeHandlers (nodeID # ids) co =
     (if map_of (coDone co) nodeID = Some True then None
      else
        (case bus_Unsubscribe nodeID (coBus co) of
           None \<Rightarrow> None
         | Some b \<Rightarrow> closeHandlers ids (co\<lparr>coDone := AList.update nodeID True (coDone co), coBus := b\<rparr>)))"

definition coordinator_Close :: "'c Coordinator \<Rightarrow> 'c Coordinator option" where
  "coordinator_Close co =
     (if coClosed co then Some co
      else map_option (\<lambda>co'. co'\<lparr>coClosed := True\<rparr>) (closeHandlers (map fst (coDone co)) co))"

section \<open>The steps of its goroutines\<close>

datatype coLabel =
    Wrote string instant key bytes duration
  | Refused string error
  | Published Event bool
  | Handled string Event
  | Read string instant key "bytes option"
  | Left string
  | Closed
  | Joined string
  | Parted string
  | Streamed string Event
  | Panicked

abbreviation sy_bus :: "'c System \<Rightarrow> EventBus" where
  "sy_bus s \<equiv> coBus (syCo s)"

abbreviation sy_nodes :: "'c System \<Rightarrow> (string, 'c) gomap" where
  "sy_nodes s \<equiv> coNodes (syCo s)"

abbreviation set_bus :: "EventBus \<Rightarrow> 'c System \<Rightarrow> 'c System" where
  "set_bus b s \<equiv> s\<lparr>syCo := (syCo s)\<lparr>coBus := b\<rparr>\<rparr>"

text \<open>
  A published event is labelled with whether some subscriber's buffer was full. A handler may
  leave when its channel is closed and empty or its done channel is closed.
\<close>

inductive co_step :: "'c Cache \<Rightarrow> 'c System \<Rightarrow> coLabel \<Rightarrow> 'c System \<Rightarrow> bool" for M where
  wrote: "coordinator_write M now i k v ttl (syCo s) = (Inr e, co) \<Longrightarrow>
     co_step M s (Wrote i now k v ttl) (s\<lparr>syCo := co, syPending := syPending s @ [e]\<rparr>)"
| refused: "coordinator_write M now i k v ttl (syCo s) = (Inl err, co) \<Longrightarrow>
     co_step M s (Refused i err) (s\<lparr>syCo := co\<rparr>)"
| published: "e \<in> set (syPending s) \<Longrightarrow> bus_Publish e (sy_bus s) = Some b \<Longrightarrow>
     co_step M s (Published e (drops e (sy_bus s))) (set_bus b (s\<lparr>syPending := remove1 e (syPending s)\<rparr>))"
| publish_panic: "e \<in> set (syPending s) \<Longrightarrow> bus_Publish e (sy_bus s) = None \<Longrightarrow> co_step M s Panicked s"
| handled: "(i, a) \<in> set (syHandlers s) \<Longrightarrow> chBuf (ebChans (sy_bus s) ! a) = e # es \<Longrightarrow>
     co_step M s (Handled i e)
       (s\<lparr>syCo := handleEvent M now i e ((syCo s)\<lparr>coBus := bus_receive a (sy_bus s)\<rparr>)\<rparr>)"
| got: "map_of (sy_nodes s) i = Some n \<Longrightarrow> mGet M now k n = (r, n') \<Longrightarrow>
     co_step M s (Read i now k r) (s\<lparr>syCo := (syCo s)\<lparr>coNodes := AList.update i n' (sy_nodes s)\<rparr>\<rparr>)"
| left: "map_of (syHandlers s) i = Some a \<Longrightarrow>
     chBuf (ebChans (sy_bus s) ! a) = [] \<and> chClosed (ebChans (sy_bus s) ! a) \<or> map_of (coDone (syCo s)) i = Some True \<Longrightarrow>
     co_step M s (Left i) (s\<lparr>syHandlers := AList.delete i (syHandlers s)\<rparr>)"
| closed: "coordinator_Close (syCo s) = Some co \<Longrightarrow> co_step M s Closed (s\<lparr>syCo := co\<rparr>)"
| close_panic: "coordinator_Close (syCo s) = None \<Longrightarrow> co_step M s Panicked s"
| joined: "i \<notin> set (map fst (sy_nodes s)) \<Longrightarrow> bus_Subscribe i (sy_bus s) = (a, b) \<Longrightarrow>
     co_step M s (Joined i) (set_bus b s)"
| parted: "i \<notin> set (map fst (sy_nodes s)) \<Longrightarrow> bus_Unsubscribe i (sy_bus s) = Some b \<Longrightarrow>
     co_step M s (Parted i) (set_bus b s)"
| part_panic: "i \<notin> set (map fst (sy_nodes s)) \<Longrightarrow> bus_Unsubscribe i (sy_bus s) = None \<Longrightarrow>
     co_step M s Panicked s"
| streamed: "i \<notin> set (map fst (sy_nodes s)) \<Longrightarrow> map_of (ebSubscribers (sy_bus s)) i = Some a \<Longrightarrow>
     chBuf (ebChans (sy_bus s) ! a) = e # es \<Longrightarrow>
     co_step M s (Streamed i e) (set_bus (bus_receive a (sy_bus s)) s)"

inductive co_run :: "'c Cache \<Rightarrow> 'c System \<Rightarrow> coLabel list \<Rightarrow> 'c System \<Rightarrow> bool" for M where
  start: "co_run M s [] s"
| snoc: "co_run M s ls s' \<Longrightarrow> co_step M s' l s'' \<Longrightarrow> co_run M s (ls @ [l]) s''"

text \<open>Nothing is under way: every \<open>Set\<close> has published and every handler has read its channel empty.\<close>

definition quiescent :: "'c System \<Rightarrow> bool" where
  "quiescent s \<longleftrightarrow> syPending s = [] \<and> (\<forall>(i, a)\<in>set (syHandlers s). chBuf (ebChans (sy_bus s) ! a) = [])"

text \<open>The last write of each key, with the node that made it.\<close>

fun last_step :: "(key \<rightharpoonup> string \<times> bytes \<times> Time) \<Rightarrow> coLabel \<Rightarrow> (key \<rightharpoonup> string \<times> bytes \<times> Time)" where
  "last_step m (Wrote i now k v ttl) = m(k \<mapsto> (i, v, expiryOf now ttl))"
| "last_step m _ = m"

definition lastWrite :: "coLabel list \<Rightarrow> key \<rightharpoonup> string \<times> bytes \<times> Time" where
  "lastWrite ls = foldl last_step Map.empty ls"

text \<open>A run in which no event was dropped and the coordinator was not closed.\<close>

fun undisturbed :: "coLabel \<Rightarrow> bool" where
  "undisturbed (Published e full) = (\<not> full)"
| "undisturbed Closed = False"
| "undisturbed _ = True"

section \<open>No panic, bounded buffers\<close>

inductive_cases co_step_panic: "co_step M s Panicked s'"

text \<open>What holds in every state: the invariant of the bus, and no done channel is closed before \<open>Close\<close>.\<close>

definition co_ok :: "'c System \<Rightarrow> bool" where
  "co_ok s \<longleftrightarrow> bus_ok (sy_bus s) \<and> distinct (map fst (sy_nodes s)) \<and> distinct (map fst (syHandlers s)) \<and>
     (\<forall>(i, a)\<in>set (syHandlers s). a < length (ebChans (sy_bus s))) \<and>
     (\<not> coClosed (syCo s) \<longrightarrow> distinct (map fst (coDone (syCo s))) \<and> (\<forall>(i, d)\<in>set (coDone (syCo s)). \<not> d))"

lemma keys_update [go_map]: "map_of m k \<noteq> None \<Longrightarrow> map fst (AList.update k v m) = map fst m"
  by (induction m) auto

lemma startHandlers_ok:
  assumes "bus_ok b" and "distinct ids" and "set ids \<inter> dom (map_of (ebSubscribers b)) = {}"
    and "startHandlers ids b = (b', hs)"
  shows "bus_ok b' \<and> map fst hs = ids \<and> length (ebChans b) \<le> length (ebChans b') \<and>
    (\<forall>a<length (ebChans b). ebChans b' ! a = ebChans b ! a) \<and>
    (\<forall>i. i \<notin> set ids \<longrightarrow> map_of (ebSubscribers b') i = map_of (ebSubscribers b) i) \<and>
    (\<forall>(i, a)\<in>set hs. map_of (ebSubscribers b') i = Some a \<and> a < length (ebChans b') \<and> chBuf (ebChans b' ! a) = [])"
  using assms
proof (induction ids arbitrary: b b' hs)
  case Nil
  then show ?case by simp
next
  case (Cons i ids)
  obtain a b1 where s: "bus_Subscribe i b = (a, b1)" by (cases "bus_Subscribe i b")
  obtain b2 hs2 where r: "startHandlers ids b1 = (b2, hs2)" by (cases "startHandlers ids b1")
  from Cons.prems(4) s r have b': "b' = b2" "hs = (i, a) # hs2" by auto
  note sub = Subscribe_ok [OF Cons.prems(1) s]
  have "set ids \<inter> dom (map_of (ebSubscribers b1)) = {}" using Cons.prems(2,3) sub(4) by auto
  note ih = Cons.IH [OF sub(1) _ this r]
  have a: "a < length (ebChans b1)" "a = length (ebChans b)" "chBuf (ebChans b1 ! a) = []" using sub(2,3) by simp_all
  have "map_of (ebSubscribers b1) i = Some a" using sub(4) by simp
  with ih a Cons.prems(2) sub(3,4) show ?case unfolding b' by (auto simp: nth_append)
qed

lemma New_ok:
  assumes "distinct (map fst nodes)"
  shows "co_ok (NewCoordinator nodes NewBus)"
proof -
  obtain b hs where r: "startHandlers (map fst nodes) NewBus = (b, hs)"
    by (cases "startHandlers (map fst nodes) NewBus")
  from startHandlers_ok [OF bus_ok_New assms _ r] assms r show ?thesis
    by (auto simp: co_ok_def NewCoordinator_def NewBus_def Let_def o_def)
qed

lemma closeHandlers_ok:
  assumes "bus_ok (coBus co)" and "distinct ids" and "\<forall>i\<in>set ids. map_of (coDone co) i \<noteq> Some True"
  shows "\<exists>co'. closeHandlers ids co = Some co' \<and> bus_ok (coBus co') \<and> coNodes co' = coNodes co \<and>
    length (ebChans (coBus co')) = length (ebChans (coBus co))"
  using assms
proof (induction ids arbitrary: co)
  case Nil
  then show ?case by simp
next
  case (Cons i ids)
  obtain b where u: "bus_Unsubscribe i (coBus co) = Some b" "bus_ok b" "length (ebChans b) = length (ebChans (coBus co))"
    using Unsubscribe_ok [OF Cons.prems(1), of i] by metis
  let ?co = "co\<lparr>coDone := AList.update i True (coDone co), coBus := b\<rparr>"
  have "\<exists>co'. closeHandlers ids ?co = Some co' \<and> bus_ok (coBus co') \<and> coNodes co' = coNodes ?co \<and>
    length (ebChans (coBus co')) = length (ebChans (coBus ?co))"
    using Cons.prems u(2) by (intro Cons.IH) (auto simp: map_of_update_upd)
  with u Cons.prems(3) show ?case by simp
qed

lemma Close_ok:
  assumes "co_ok s"
  shows "\<exists>co. coordinator_Close (syCo s) = Some co \<and> co_ok (s\<lparr>syCo := co\<rparr>)"
proof (cases "coClosed (syCo s)")
  case True
  with assms show ?thesis by (auto simp: coordinator_Close_def)
next
  case False
  let ?co = "syCo s"
  have d: "distinct (map fst (coDone ?co))" and n: "\<forall>(i, d)\<in>set (coDone ?co). \<not> d"
    using assms False by (auto simp: co_ok_def)
  have "map_of (coDone ?co) i \<noteq> Some True" for i using n by (auto dest: map_of_SomeD)
  with closeHandlers_ok [of ?co "map fst (coDone ?co)"] d assms obtain co' where
    "closeHandlers (map fst (coDone ?co)) ?co = Some co'" "bus_ok (coBus co')" "coNodes co' = coNodes ?co"
    "length (ebChans (coBus co')) = length (ebChans (coBus ?co))"
    by (auto simp: co_ok_def)
  with False assms show ?thesis by (auto simp: coordinator_Close_def co_ok_def)
qed

lemma handleEvent_sel [simp]:
  "coBus (handleEvent M now i e co) = coBus co" "coDone (handleEvent M now i e co) = coDone co"
  "coClosed (handleEvent M now i e co) = coClosed co"
  "map fst (coNodes (handleEvent M now i e co)) = map fst (coNodes co)"
  by (auto simp: handleEvent_def keys_update split: option.splits EventType.splits)

lemma coordinator_write_sel:
  assumes "coordinator_write M now i k v ttl co = (r, co')"
  shows "coBus co' = coBus co \<and> coDone co' = coDone co \<and> coClosed co' = coClosed co \<and>
    map fst (coNodes co') = map fst (coNodes co)"
  using assms by (auto simp: coordinator_write_def keys_update Let_def split: option.splits prod.splits)

lemma co_step_ok: "co_step M s l s' \<Longrightarrow> co_ok s \<Longrightarrow> co_ok s' \<and> l \<noteq> Panicked"
proof (induction rule: co_step.induct)
  case (wrote now i k v ttl s e co)
  with coordinator_write_sel [OF wrote(1)] show ?case by (simp add: co_ok_def)
next
  case (refused now i k v ttl s err co)
  with coordinator_write_sel [OF refused(1)] show ?case by (simp add: co_ok_def)
next
  case (published e s b)
  then have ok: "bus_ok (sy_bus s)" by (simp add: co_ok_def)
  from Publish_ok [OF ok, of e] published(2) have "bus_ok b" "length (ebChans b) = length (ebChans (sy_bus s))"
    by (metis option.inject)+
  with published(3) show ?case by (simp add: co_ok_def)
next
  case (publish_panic e s)
  then have ok: "bus_ok (sy_bus s)" by (simp add: co_ok_def)
  from Publish_ok [OF ok, of e] publish_panic(2) show ?case by (metis option.distinct(1))
next
  case (handled i a s e es now)
  then have "bus_ok (sy_bus s)" "a < length (ebChans (sy_bus s))" by (auto simp: co_ok_def)
  with receive_ok [OF this] handled(3) show ?case by (simp add: co_ok_def)
next
  case (got s i n now k r n')
  then show ?case by (simp add: co_ok_def keys_update)
next
  case (left s i a)
  then show ?case by (auto simp: co_ok_def set_delete)
next
  case (closed s co)
  with Close_ok [of s] show ?case by simp
next
  case (close_panic s)
  with Close_ok [of s] show ?case by simp
next
  case (joined i s a b)
  then have ok: "bus_ok (sy_bus s)" by (simp add: co_ok_def)
  from Subscribe_ok [OF ok joined(2)] joined(3) show ?case by (auto simp: co_ok_def)
next
  case (parted i s b)
  then have ok: "bus_ok (sy_bus s)" by (simp add: co_ok_def)
  from Unsubscribe_ok [OF ok, of i] parted(2) have "bus_ok b" "length (ebChans b) = length (ebChans (sy_bus s))"
    by (metis option.inject)+
  with parted(3) show ?case by (simp add: co_ok_def)
next
  case (part_panic i s)
  then have ok: "bus_ok (sy_bus s)" by (simp add: co_ok_def)
  from Unsubscribe_ok [OF ok, of i] part_panic(2) show ?case by (metis option.distinct(1))
next
  case (streamed i s a e es)
  then have ok: "bus_ok (sy_bus s)" by (simp add: co_ok_def)
  from receive_ok [OF ok bus_ok_sub(1) [OF ok streamed(2)]] streamed(4) show ?case by (simp add: co_ok_def)
qed

lemma co_run_ok: "co_run M s ls s' \<Longrightarrow> co_ok s \<Longrightarrow> co_ok s' \<and> Panicked \<notin> set ls"
  by (induction rule: co_run.induct) (auto dest: co_step_ok)

section \<open>Coherence at rest\<close>

text \<open>The events that will still reach the node \<open>i\<close>.\<close>

definition inflight :: "'c System \<Rightarrow> string \<Rightarrow> Event set" where
  "inflight s i = set (syPending s) \<union> set (chBuf (ebChans (sy_bus s) ! the (map_of (syHandlers s) i)))"

text \<open>A write of \<open>k\<close> by another node is on its way to \<open>i\<close>.\<close>

definition doomed :: "'c System \<Rightarrow> string \<Rightarrow> key \<Rightarrow> bool" where
  "doomed s i k \<longleftrightarrow> (\<exists>e\<in>inflight s i. evKey e = k \<and> evFrom e \<noteq> i)"

definition wired :: "'c System \<Rightarrow> bool" where
  "wired s \<longleftrightarrow> co_ok s \<and> \<not> coClosed (syCo s) \<and> map fst (syHandlers s) = map fst (sy_nodes s) \<and>
     (\<forall>(i, a)\<in>set (syHandlers s). map_of (ebSubscribers (sy_bus s)) i = Some a) \<and>
     (\<forall>i\<in>set (map fst (sy_nodes s)). \<forall>e\<in>inflight s i. evType e = EventInvalidate)"

lemma wired_chan:
  assumes "wired s" and "i \<in> set (map fst (sy_nodes s))"
  obtains a where "map_of (syHandlers s) i = Some a" and "map_of (ebSubscribers (sy_bus s)) i = Some a"
    and "a < length (ebChans (sy_bus s))" and "\<not> chClosed (ebChans (sy_bus s) ! a)"
    and "inflight s i = set (syPending s) \<union> set (chBuf (ebChans (sy_bus s) ! a))"
proof -
  from assms obtain a where a: "map_of (syHandlers s) i = Some a"
    unfolding wired_def by (metis not_Some_eq map_of_eq_None_iff set_map)
  with assms(1) have "map_of (ebSubscribers (sy_bus s)) i = Some a" and "bus_ok (sy_bus s)"
    by (auto simp: wired_def co_ok_def dest: map_of_SomeD)
  with bus_ok_sub [of "sy_bus s" i a] a show ?thesis by (intro that [of a]) (auto simp: inflight_def)
qed

text \<open>A step that changes neither the nodes nor the handlers and keeps the channels of the nodes.\<close>

lemma wired_bus:
  assumes w: "wired s" and b: "bus_ok b" "length (ebChans (sy_bus s)) \<le> length (ebChans b)"
    and subs: "\<And>i a. map_of (syHandlers s) i = Some a \<Longrightarrow> map_of (ebSubscribers b) i = Some a"
    and bufs: "\<And>i a. map_of (syHandlers s) i = Some a \<Longrightarrow> chBuf (ebChans b ! a) = chBuf (ebChans (sy_bus s) ! a)"
  shows "wired (set_bus b s)"
    and "i \<in> set (map fst (sy_nodes s)) \<Longrightarrow> inflight (set_bus b s) i = inflight s i"
proof -
  show f: "inflight (set_bus b s) i = inflight s i" if "i \<in> set (map fst (sy_nodes s))" for i
    using wired_chan [OF w that]
  proof cases
    case (1 a)
    with bufs [OF 1(1)] show ?thesis by (simp add: inflight_def)
  qed
  have "map_of (syHandlers s) i = Some a" if "(i, a) \<in> set (syHandlers s)" for i a
    using w that by (simp add: wired_def co_ok_def)
  with w b subs f show "wired (set_bus b s)" by (fastforce simp: wired_def co_ok_def)
qed

lemma wired_published:
  assumes w: "wired s" and e: "e \<in> set (syPending s)" and p: "bus_Publish e (sy_bus s) = Some b"
    and d: "\<not> drops e (sy_bus s)"
  defines "s' \<equiv> set_bus b (s\<lparr>syPending := remove1 e (syPending s)\<rparr>)"
  shows "wired s'" and "i \<in> set (map fst (sy_nodes s)) \<Longrightarrow> f \<in> inflight s i \<Longrightarrow> evFrom f \<noteq> i \<Longrightarrow> f \<in> inflight s' i"
proof -
  have ok: "bus_ok (sy_bus s)" using w by (simp add: wired_def co_ok_def)
  obtain b' where b': "bus_Publish e (sy_bus s) = Some b'" "bus_ok b'" "ebSubscribers b' = ebSubscribers (sy_bus s)"
    "length (ebChans b') = length (ebChans (sy_bus s))"
    "\<And>a. a < length (ebChans (sy_bus s)) \<Longrightarrow> ebChans b' ! a =
       (if \<exists>i. map_of (ebSubscribers (sy_bus s)) i = Some a \<and> i \<noteq> evFrom e then offered e (ebChans (sy_bus s) ! a)
        else ebChans (sy_bus s) ! a)"
    using Publish_ok [OF ok, of e] by blast
  with p have b: "b' = b" by simp
  have at: "ebChans b ! a = (if i \<noteq> evFrom e then offered e (ebChans (sy_bus s) ! a) else ebChans (sy_bus s) ! a)"
    and room: "i \<noteq> evFrom e \<Longrightarrow> length (chBuf (ebChans (sy_bus s) ! a)) < chanCap"
    if i: "map_of (ebSubscribers (sy_bus s)) i = Some a" for i a
  proof -
    show "ebChans b ! a = (if i \<noteq> evFrom e then offered e (ebChans (sy_bus s) ! a) else ebChans (sy_bus s) ! a)"
    proof -
      have "(\<exists>j. map_of (ebSubscribers (sy_bus s)) j = Some a \<and> j \<noteq> evFrom e) \<longleftrightarrow> i \<noteq> evFrom e"
        using bus_ok_inj [OF ok i] i by blast
      with b'(5) [OF bus_ok_sub(1) [OF ok i]] show ?thesis unfolding b by simp
    qed
    show "i \<noteq> evFrom e \<Longrightarrow> length (chBuf (ebChans (sy_bus s) ! a)) < chanCap"
      using d map_of_SomeD [OF i] by (fastforce simp: drops_def not_le)
  qed
  have in': "inflight s' i = set (remove1 e (syPending s)) \<union> set (chBuf (ebChans b ! a))"
    if "map_of (syHandlers s) i = Some a" for i a using that by (simp add: inflight_def s'_def)
  show "f \<in> inflight s' i" if i: "i \<in> set (map fst (sy_nodes s))" and f: "f \<in> inflight s i" "evFrom f \<noteq> i"
    using wired_chan [OF w i]
  proof cases
    case (1 a)
    show ?thesis
    proof (cases "f = e")
      case True
      with f(2) at [OF 1(2)] room [OF 1(2)] show ?thesis unfolding in' [OF 1(1)] by simp
    next
      case False
      moreover have "g \<in> set (chBuf ch) \<Longrightarrow> g \<in> set (chBuf (offered e ch))" for g ch
        by (rule subsetD [OF offered_sel(3)])
      ultimately show ?thesis
        using f(1) 1(5) at [OF 1(2)] unfolding in' [OF 1(1)] by (auto split: if_splits)
    qed
  qed
  have "inflight s' i \<subseteq> inflight s i" if i: "i \<in> set (map fst (sy_nodes s))" for i
    using wired_chan [OF w i]
  proof cases
    case (1 a)
    have "x \<in> set (chBuf (offered e ch)) \<Longrightarrow> x = e \<or> x \<in> set (chBuf ch)" for x ch
      using subsetD [OF offered_sel(2)] by blast
    then show ?thesis unfolding in' [OF 1(1)] 1(5)
      using at [OF 1(2)] e set_remove1_subset [of e "syPending s"] by (auto split: if_splits)
  qed
  with w b'(2-4) show "wired s'" unfolding b wired_def co_ok_def s'_def by (auto simp: subset_iff)
qed

lemma wired_handled:
  fixes M :: "'c Cache" and now :: instant and s :: "'c System"
  assumes w: "wired s" and h: "(i, a) \<in> set (syHandlers s)" and q: "chBuf (ebChans (sy_bus s) ! a) = e # es"
  defines "s' \<equiv> s\<lparr>syCo := handleEvent M now i e ((syCo s)\<lparr>coBus := bus_receive a (sy_bus s)\<rparr>)\<rparr>"
  shows "wired s'" and "j \<in> set (map fst (sy_nodes s)) \<Longrightarrow> f \<in> inflight s j \<Longrightarrow> j \<noteq> i \<or> f \<noteq> e \<Longrightarrow> f \<in> inflight s' j"
    and "i \<in> set (map fst (sy_nodes s))" and "e \<in> inflight s i"
proof -
  have ok: "bus_ok (sy_bus s)" and hi: "map_of (syHandlers s) i = Some a"
    and si: "map_of (ebSubscribers (sy_bus s)) i = Some a"
    using w h by (auto simp: wired_def co_ok_def)
  note r = receive_ok [OF ok bus_ok_sub(1) [OF ok si]]
  show n: "i \<in> set (map fst (sy_nodes s))" using w h unfolding wired_def by (metis fst_conv image_eqI set_map)
  show "e \<in> inflight s i" using hi q by (simp add: inflight_def)
  have in': "inflight s' j = set (syPending s) \<union> set (if j = i then es else chBuf (ebChans (sy_bus s) ! c))"
    if "map_of (syHandlers s) j = Some c" "map_of (ebSubscribers (sy_bus s)) j = Some c" for j c
    using that r(4) q hi bus_ok_inj [OF ok that(2), of i] si by (auto simp: inflight_def s'_def)
  show "f \<in> inflight s' j" if j: "j \<in> set (map fst (sy_nodes s))" and f: "f \<in> inflight s j" "j \<noteq> i \<or> f \<noteq> e"
    using wired_chan [OF w j]
  proof cases
    case (1 c)
    then show ?thesis using f in' [OF 1(1,2)] hi q by auto
  qed
  have "inflight s' j \<subseteq> inflight s j" if j: "j \<in> set (map fst (sy_nodes s))" for j
    using wired_chan [OF w j]
  proof cases
    case (1 c)
    then show ?thesis using in' [OF 1(1,2)] hi q by auto
  qed
  with w r(1-3) show "wired s'" unfolding wired_def co_ok_def s'_def by (auto simp: subset_iff)
qed

text \<open>Every value held is the last one written, by that node, or an invalidation is on its way.\<close>

context cache_contract
begin

definition coherent :: "(key \<rightharpoonup> string \<times> bytes \<times> Time) \<Rightarrow> 'c System \<Rightarrow> bool" where
  "coherent m s \<longleftrightarrow>
     (\<forall>i n. map_of (sy_nodes s) i = Some n \<longrightarrow> inv n \<and>
        (\<forall>k v e. live n k = Some (v, e) \<longrightarrow> m k = Some (i, v, e) \<or> doomed s i k))"

lemma coherent_frame:
  assumes "coherent m s" and "sy_nodes s' = sy_nodes s"
    and "\<And>i f. i \<in> set (map fst (sy_nodes s)) \<Longrightarrow> f \<in> inflight s i \<Longrightarrow> evFrom f \<noteq> i \<Longrightarrow> f \<in> inflight s' i"
  shows "coherent m s'"
proof -
  have "doomed s i k \<Longrightarrow> doomed s' i k" if "map_of (sy_nodes s) i = Some n" for i k n
    using assms(3) [of i] that unfolding doomed_def by (metis map_of_eq_None_iff option.distinct(1) set_map)
  with assms(1,2) show ?thesis unfolding coherent_def by metis
qed

text \<open>One node changes and no longer holds what it should not.\<close>

lemma coherent_node:
  assumes c: "coherent m s" and n: "map_of (sy_nodes s) i = Some n"
    and s': "sy_nodes s' = AList.update i n' (sy_nodes s)" and i': "inv n'"
    and mine: "\<And>k v e. live n' k = Some (v, e) \<Longrightarrow> m' k = Some (i, v, e) \<or> live n k = Some (v, e) \<and>
        (m k = Some (i, v, e) \<longrightarrow> m' k = Some (i, v, e)) \<and> (doomed s i k \<longrightarrow> doomed s' i k)"
    and others: "\<And>j k v e. j \<noteq> i \<Longrightarrow> j \<in> set (map fst (sy_nodes s)) \<Longrightarrow> m k = Some (j, v, e) \<or> doomed s j k \<Longrightarrow>
        m' k = Some (j, v, e) \<or> doomed s' j k"
  shows "coherent m' s'"
  unfolding coherent_def
proof (intro allI impI)
  fix j x assume j: "map_of (sy_nodes s') j = Some x"
  show "inv x \<and> (\<forall>k v e. live x k = Some (v, e) \<longrightarrow> m' k = Some (j, v, e) \<or> doomed s' j k)"
  proof (cases "j = i")
    case True
    with j s' have "x = n'" by (simp add: map_of_update_upd)
    with True i' mine c n show ?thesis unfolding coherent_def by metis
  next
    case False
    with j s' have x: "map_of (sy_nodes s) j = Some x" by (simp add: map_of_update_upd)
    then have "j \<in> set (map fst (sy_nodes s))" by (metis map_of_eq_None_iff option.distinct(1) set_map)
    with others [OF False this] c x show ?thesis unfolding coherent_def by metis
  qed
qed

lemma coherent_wrote:
  assumes w: "wired s" and c: "coherent m s" and g: "coordinator_write M now i k v ttl (syCo s) = (Inr ev, co)"
  defines "s' \<equiv> s\<lparr>syCo := co, syPending := syPending s @ [ev]\<rparr>"
  shows "wired s' \<and> coherent (m(k \<mapsto> (i, v, expiryOf now ttl))) s'"
proof -
  from g obtain n where n: "map_of (sy_nodes s) i = Some n" by (auto simp: coordinator_write_def split: option.splits)
  obtain err evs n' where set: "mSet M now k v ttl n = (err, evs, n')" by (cases "mSet M now k v ttl n")
  have ni: "inv n" using c n by (simp add: coherent_def)
  note l = set_law [OF ni set]
  have co: "co = (syCo s)\<lparr>coNodes := AList.update i n' (sy_nodes s)\<rparr>"
    and ev: "evKey ev = k" "evFrom ev = i" "evType ev = EventInvalidate"
    using g n set l by (auto simp: coordinator_write_def)
  have infl: "inflight s' j = insert ev (inflight s j)" for j by (auto simp: inflight_def s'_def co)
  have "wired s'" using w n ev infl unfolding wired_def co_ok_def s'_def co by (auto simp: keys_update)
  moreover have "coherent (m(k \<mapsto> (i, v, expiryOf now ttl))) s'"
  proof (rule coherent_node [OF c n])
    show "sy_nodes s' = AList.update i n' (sy_nodes s)" by (simp add: s'_def co)
    show "inv n'" using l by blast
    fix k' v' e assume x: "live n' k' = Some (v', e)"
    show "(m(k \<mapsto> (i, v, expiryOf now ttl))) k' = Some (i, v', e) \<or> live n k' = Some (v', e) \<and>
        (m k' = Some (i, v', e) \<longrightarrow> (m(k \<mapsto> (i, v, expiryOf now ttl))) k' = Some (i, v', e)) \<and>
        (doomed s i k' \<longrightarrow> doomed s' i k')"
    proof (cases "k' = k")
      case True
      with l x show ?thesis by simp
    next
      case False
      then have "live n' k' = live n k' \<or> live n' k' = None"
        using l [THEN conjunct2, THEN conjunct2, THEN conjunct2, THEN conjunct1] by simp
      with False x show ?thesis by (auto simp: doomed_def infl)
    qed
  next
    fix j k' v' e assume "j \<noteq> i" and "m k' = Some (j, v', e) \<or> doomed s j k'"
    then show "(m(k \<mapsto> (i, v, expiryOf now ttl))) k' = Some (j, v', e) \<or> doomed s' j k'"
      using ev by (auto simp: doomed_def infl)
  qed
  ultimately show ?thesis by blast
qed

lemma coherent_handled:
  fixes now :: instant
  assumes w: "wired s" and c: "coherent m s" and h: "(i, a) \<in> set (syHandlers s)"
    and q: "chBuf (ebChans (sy_bus s) ! a) = e # es"
  defines "s' \<equiv> s\<lparr>syCo := handleEvent M now i e ((syCo s)\<lparr>coBus := bus_receive a (sy_bus s)\<rparr>)\<rparr>"
  shows "coherent m s'"
proof -
  note w' = wired_handled(1,2) [OF w h q, where M = M and now = now, folded s'_def] wired_handled(3,4) [OF w h q]
  obtain n where n: "map_of (sy_nodes s) i = Some n"
    using w'(3) by (metis map_of_eq_None_iff not_Some_eq set_map)
  have ty: "evType e = EventInvalidate" using w w'(3,4) by (auto simp: wired_def)
  have keepd: "doomed s j k \<Longrightarrow> doomed s' j k" if "j \<in> set (map fst (sy_nodes s))" and "j \<noteq> i \<or> evFrom e = i \<or> evKey e \<noteq> k" for j k
    using that w'(2) [OF that(1)] unfolding doomed_def by metis
  show ?thesis
  proof (cases "evFrom e = i")
    case True
    then have "sy_nodes s' = sy_nodes s" by (simp add: s'_def handleEvent_def)
    with coherent_frame [OF c] w'(2) True show ?thesis by metis
  next
    case False
    obtain f n' where d: "mDelete M (evKey e) n = (f, n')" by (cases "mDelete M (evKey e) n")
    have "inv n" using c n by (simp add: coherent_def)
    note l = delete_law [OF this d]
    show ?thesis
    proof (rule coherent_node [OF c n])
      show "sy_nodes s' = AList.update i n' (sy_nodes s)" using False n ty d by (simp add: s'_def handleEvent_def)
      show "inv n'" using l by blast
      show "m k = Some (i, v, ex) \<or> live n k = Some (v, ex) \<and> (m k = Some (i, v, ex) \<longrightarrow> m k = Some (i, v, ex)) \<and>
          (doomed s i k \<longrightarrow> doomed s' i k)" if "live n' k = Some (v, ex)" for k v ex
        using that l keepd [OF w'(3), of k] by (auto split: if_splits)
      show "m k = Some (j, v, ex) \<or> doomed s' j k"
        if "j \<noteq> i" "j \<in> set (map fst (sy_nodes s))" "m k = Some (j, v, ex) \<or> doomed s j k" for j k v ex
        using that keepd by blast
    qed
  qed
qed

lemma coherent_got:
  assumes w: "wired s" and c: "coherent m s" and n: "map_of (sy_nodes s) i = Some n" and g: "mGet M now k n = (r, n')"
  defines "s' \<equiv> s\<lparr>syCo := (syCo s)\<lparr>coNodes := AList.update i n' (sy_nodes s)\<rparr>\<rparr>"
  shows "wired s' \<and> coherent m s'"
proof -
  have "inv n" using c n by (simp add: coherent_def)
  note l = get_law [OF this g]
  have infl: "inflight s' j = inflight s j" for j by (simp add: inflight_def s'_def)
  have "wired s'" using w n infl unfolding wired_def co_ok_def s'_def by (auto simp: keys_update)
  moreover have "coherent m s'"
  proof (rule coherent_node [OF c n])
    show "sy_nodes s' = AList.update i n' (sy_nodes s)" by (simp add: s'_def)
    show "inv n'" using l by blast
    show "m k' = Some (i, v, e) \<or> live n k' = Some (v, e) \<and> (m k' = Some (i, v, e) \<longrightarrow> m k' = Some (i, v, e)) \<and>
        (doomed s i k' \<longrightarrow> doomed s' i k')" if "live n' k' = Some (v, e)" for k' v e
      using that l keep_le by (auto simp: doomed_def infl split: if_splits)
  qed (auto simp: doomed_def infl)
  ultimately show ?thesis by blast
qed

lemma coherent_step:
  assumes "co_step M s l s'" and "wired s" and "coherent m s" and "undisturbed l"
  shows "wired s' \<and> coherent (last_step m l) s'"
  using assms
proof (induction rule: co_step.induct)
  case (wrote now i k v ttl s e co)
  with coherent_wrote [OF wrote(2,3,1)] show ?case by (simp only: last_step.simps)
next
  case (refused now i k v ttl s err co)
  have "map_of (sy_nodes s) i = None"
  proof (rule ccontr)
    assume "map_of (sy_nodes s) i \<noteq> None"
    then obtain n where n: "map_of (sy_nodes s) i = Some n" by blast
    obtain er evs n' where set: "mSet M now k v ttl n = (er, evs, n')" by (cases "mSet M now k v ttl n")
    have "inv n" using refused(3) n by (simp add: coherent_def)
    from set_law [OF this set] n set refused(1) show False by (simp add: coordinator_write_def)
  qed
  with refused have "co = syCo s" by (simp add: coordinator_write_def)
  with refused show ?case by simp
next
  case (published e s b)
  then have d: "\<not> drops e (sy_bus s)" by simp
  note p = wired_published [OF published(3,1,2) d]
  have "coherent m (set_bus b (s\<lparr>syPending := remove1 e (syPending s)\<rparr>))"
    by (rule coherent_frame [OF published(4)]) (use p(2) in auto)
  with p(1) show ?case by simp
next
  case (handled i a s e es now)
  with coherent_handled [OF handled(3,4,1,2), of now] wired_handled(1) [OF handled(3,1,2), where M = M and now = now] show ?case by simp
next
  case (got s i n now k r n')
  with coherent_got [OF got(3,4,1,2)] show ?case by simp
next
  case (left s i a)
  then have ok: "bus_ok (sy_bus s)" and "(i, a) \<in> set (syHandlers s)"
    by (auto simp: wired_def co_ok_def dest: map_of_SomeD)
  with left(3) bus_ok_sub(2) [OF ok] have "\<not> chClosed (ebChans (sy_bus s) ! a)" by (auto simp: wired_def)
  moreover have "map_of (coDone (syCo s)) i \<noteq> Some True"
    using left(3) by (auto simp: wired_def co_ok_def dest!: map_of_SomeD)
  ultimately show ?case using left(2) by blast
next
  case (joined i s a b)
  then have ok: "bus_ok (sy_bus s)" by (simp add: wired_def co_ok_def)
  note sub = Subscribe_ok [OF ok joined(2)]
  have h: "map_of (syHandlers s) j = Some c \<Longrightarrow> j \<noteq> i \<and> map_of (ebSubscribers (sy_bus s)) j = Some c \<and> c < length (ebChans (sy_bus s))" for j c
    using joined(1,3) bus_ok_sub(1) [OF ok] unfolding wired_def
    by (metis (mono_tags, lifting) case_prodD fst_conv image_eqI map_of_SomeD set_map)
  have "wired (set_bus b s)" "\<And>j. j \<in> set (map fst (sy_nodes s)) \<Longrightarrow> inflight (set_bus b s) j = inflight s j"
    by (rule wired_bus [OF joined(3) sub(1)]; use sub(2-4) h in \<open>auto simp: nth_append\<close>)+
  with coherent_frame [OF joined(4), of "set_bus b s"] show ?case by simp
next
  case (parted i s b)
  then have ok: "bus_ok (sy_bus s)" by (simp add: wired_def co_ok_def)
  obtain b' where b': "bus_Unsubscribe i (sy_bus s) = Some b'" "bus_ok b'"
     "map_of (ebSubscribers b') = (map_of (ebSubscribers (sy_bus s)))(i := None)"
     "length (ebChans b') = length (ebChans (sy_bus s))" "\<And>a. chBuf (ebChans b' ! a) = chBuf (ebChans (sy_bus s) ! a)"
    using Unsubscribe_ok [OF ok] by metis
  then have b: "b' = b" using parted(2) by simp
  have h: "map_of (syHandlers s) j = Some c \<Longrightarrow> j \<noteq> i \<and> map_of (ebSubscribers (sy_bus s)) j = Some c" for j c
    using parted(1,3) unfolding wired_def
    by (metis (mono_tags, lifting) case_prodD fst_conv image_eqI map_of_SomeD set_map)
  have "wired (set_bus b s)" "\<And>j. j \<in> set (map fst (sy_nodes s)) \<Longrightarrow> inflight (set_bus b s) j = inflight s j"
    by (rule wired_bus [OF parted(3) b'(2) [unfolded b]]; use b'(3-5) [unfolded b] h in auto)+
  with coherent_frame [OF parted(4), of "set_bus b s"] show ?case by simp
next
  case (streamed i s a e es)
  then have ok: "bus_ok (sy_bus s)" by (simp add: wired_def co_ok_def)
  note r = receive_ok [OF ok bus_ok_sub(1) [OF ok streamed(2)]]
  have h: "map_of (syHandlers s) j = Some c \<Longrightarrow> c \<noteq> a \<and> map_of (ebSubscribers (sy_bus s)) j = Some c" for j c
    using streamed(1,4) bus_ok_inj [OF ok streamed(2)] unfolding wired_def
    by (metis (mono_tags, lifting) case_prodD fst_conv image_eqI map_of_SomeD set_map)
  have "wired (set_bus (bus_receive a (sy_bus s)) s)"
    "\<And>j. j \<in> set (map fst (sy_nodes s)) \<Longrightarrow> inflight (set_bus (bus_receive a (sy_bus s)) s) j = inflight s j"
    by (rule wired_bus [OF streamed(4) r(1)]; use r(2-4) h in auto)+
  with coherent_frame [OF streamed(5), of "set_bus (bus_receive a (sy_bus s)) s"] show ?case by simp
qed (use Close_ok in \<open>auto simp: wired_def\<close>)

lemma coherent_run:
  "co_run M s ls s' \<Longrightarrow> wired s \<Longrightarrow> coherent Map.empty s \<Longrightarrow> \<forall>l\<in>set ls. undisturbed l \<Longrightarrow>
   wired s' \<and> coherent (lastWrite ls) s'"
  by (induction rule: co_run.induct) (auto simp: lastWrite_def dest: coherent_step)

lemma coherent_New:
  assumes "distinct (map fst nodes)" and "\<forall>(i, n)\<in>set nodes. inv n \<and> live n = Map.empty"
  shows "wired (NewCoordinator nodes NewBus) \<and> coherent Map.empty (NewCoordinator nodes NewBus)"
proof -
  obtain b hs where r: "startHandlers (map fst nodes) NewBus = (b, hs)"
    by (cases "startHandlers (map fst nodes) NewBus")
  let ?s = "NewCoordinator nodes NewBus"
  have s: "syHandlers ?s = hs" "sy_bus ?s = b" "sy_nodes ?s = nodes" "syPending ?s = []" "\<not> coClosed (syCo ?s)"
    using r by (simp_all add: NewCoordinator_def)
  from startHandlers_ok [OF bus_ok_New assms(1) _ r] have h: "map fst hs = map fst nodes"
    "\<forall>(i, a)\<in>set hs. map_of (ebSubscribers b) i = Some a \<and> a < length (ebChans b) \<and> chBuf (ebChans b ! a) = []"
    by (auto simp: NewBus_def)
  have "inflight ?s i = {}" if i: "i \<in> set (map fst nodes)" for i
  proof -
    from i h(1) obtain a where a: "map_of hs i = Some a" by (metis map_of_eq_None_iff not_Some_eq set_map)
    with h(2) have "chBuf (ebChans b ! a) = []" by (auto dest: map_of_SomeD)
    with a s show ?thesis by (simp add: inflight_def)
  qed
  with New_ok [OF assms(1)] h s have "wired ?s" unfolding wired_def by (simp only: s) auto
  moreover have "coherent Map.empty ?s" unfolding coherent_def s using assms(2) by (auto dest!: map_of_SomeD)
  ultimately show ?thesis by blast
qed

lemma rest_coherent:
  assumes w: "wired s" and c: "coherent m s" and q: "quiescent s" and n: "map_of (sy_nodes s) i = Some n"
    and g: "fst (mGet M now k n) = Some v"
  shows "\<exists>e. m k = Some (i, v, e) \<and> \<not> expired now e"
proof -
  obtain r n' where g': "mGet M now k n = (r, n')" by (cases "mGet M now k n")
  have "inv n" using c n by (simp add: coherent_def)
  from get_law [OF this g'] g g' obtain e where e: "live n k = Some (v, e)" "\<not> expired now e"
    by (auto simp: look_def split: option.splits if_splits)
  have i: "i \<in> set (map fst (sy_nodes s))" using n by (metis map_of_eq_None_iff option.distinct(1) set_map)
  obtain a where "map_of (syHandlers s) i = Some a" "inflight s i = set (syPending s) \<union> set (chBuf (ebChans (sy_bus s) ! a))"
    using wired_chan [OF w i] by blast
  with q have "inflight s i = {}" by (auto simp: quiescent_def dest: map_of_SomeD)
  then have "\<not> doomed s i k" by (simp add: doomed_def)
  with c n e show ?thesis unfolding coherent_def by blast
qed

end

section \<open>The system comes to rest\<close>

lemma co_run_trans: "co_run M s2 ls' s3 \<Longrightarrow> co_run M s1 ls s2 \<Longrightarrow> co_run M s1 (ls @ ls') s3"
proof (induction rule: co_run.induct)
  case (start s)
  then show ?case by simp
next
  case (snoc s ls' s' l s'')
  from co_run.snoc [OF snoc.IH [OF snoc.prems] snoc.hyps(2)] show ?case by simp
qed

lemma co_run_one: "co_step M s l s' \<Longrightarrow> co_run M s [l] s'"
  using co_run.snoc [OF co_run.start] by fastforce

fun delivery :: "coLabel \<Rightarrow> bool" where
  "delivery (Published e full) = True"
| "delivery (Handled i e) = True"
| "delivery _ = False"

lemma publish_all:
  "co_ok s \<Longrightarrow> \<exists>ls s'. co_run M s ls s' \<and> co_ok s' \<and> syPending s' = [] \<and> (\<forall>l\<in>set ls. delivery l)"
proof (induction "length (syPending s)" arbitrary: s)
  case 0
  then show ?case by (intro exI [of _ "[]"] exI [of _ s]) (simp add: co_run.start)
next
  case (Suc n)
  then obtain e es where e: "syPending s = e # es" by (cases "syPending s") auto
  have ok: "bus_ok (sy_bus s)" using Suc.prems by (simp add: co_ok_def)
  obtain b where "bus_Publish e (sy_bus s) = Some b" using Publish_ok [OF ok] by blast
  with e have st: "co_step M s (Published e (drops e (sy_bus s))) (set_bus b (s\<lparr>syPending := remove1 e (syPending s)\<rparr>))"
    (is "co_step M s ?l ?s") by (intro co_step.published) auto
  have "n = length (syPending ?s)" using Suc.hyps(2) e by simp
  from Suc.hyps(1) [OF this] co_step_ok [OF st Suc.prems] obtain ls s' where
    "co_run M ?s ls s'" "co_ok s'" "syPending s' = []" "\<forall>l\<in>set ls. delivery l" by blast
  with co_run_trans [OF _ co_run_one [OF st]] show ?case
    by (intro exI [of _ "?l # ls"] exI [of _ s']) fastforce
qed

lemma sum_list_update_less:
  fixes f :: "'a \<Rightarrow> nat"
  shows "a < length xs \<Longrightarrow> f x < f (xs ! a) \<Longrightarrow> sum_list (map f (xs[a := x])) < sum_list (map f xs)"
proof (induction xs arbitrary: a)
  case Nil
  then show ?case by simp
next
  case (Cons y xs)
  then show ?case by (cases a) auto
qed

abbreviation buffered :: "'c System \<Rightarrow> nat" where
  "buffered s \<equiv> sum_list (map (\<lambda>ch. length (chBuf ch)) (ebChans (sy_bus s)))"

lemma handle_all:
  "co_ok s \<Longrightarrow> syPending s = [] \<Longrightarrow>
   \<exists>ls s'. co_run M s ls s' \<and> co_ok s' \<and> quiescent s' \<and> (\<forall>l\<in>set ls. delivery l)"
proof (induction "buffered s" arbitrary: s rule: less_induct)
  case less
  show ?case
  proof (cases "quiescent s")
    case True
    with less.prems show ?thesis by (intro exI [of _ "[]"] exI [of _ s]) (simp add: co_run.start)
  next
    case False
    with less.prems(2) obtain i a e es where h: "(i, a) \<in> set (syHandlers s)" "chBuf (ebChans (sy_bus s) ! a) = e # es"
      by (auto simp: quiescent_def neq_Nil_conv)
    have a: "a < length (ebChans (sy_bus s))" using less.prems(1) h(1) by (auto simp: co_ok_def)
    let ?s = "s\<lparr>syCo := handleEvent M 0 i e ((syCo s)\<lparr>coBus := bus_receive a (sy_bus s)\<rparr>)\<rparr>"
    note st = co_step.handled [OF h, of M 0]
    have "buffered ?s < buffered s"
      unfolding bus_receive_def by (simp, rule sum_list_update_less [OF a]) (use h in simp)
    from less.hyps [OF this co_step_ok [OF st less.prems(1), THEN conjunct1]] less.prems(2) obtain ls s' where
      "co_run M ?s ls s'" "co_ok s'" "quiescent s'" "\<forall>l\<in>set ls. delivery l" by auto
    with co_run_trans [OF _ co_run_one [OF st]] show ?thesis
      by (intro exI [of _ "Handled i e # ls"] exI [of _ s']) fastforce
  qed
qed

lemma comes_to_rest:
  assumes "co_ok s"
  shows "\<exists>ls s'. co_run M s ls s' \<and> quiescent s' \<and> (\<forall>l\<in>set ls. delivery l)"
proof -
  obtain ls s1 where 1: "co_run M s ls s1" "co_ok s1" "syPending s1 = []" "\<forall>l\<in>set ls. delivery l"
    using publish_all [OF assms] by blast
  obtain ls' s2 where "co_run M s1 ls' s2" "quiescent s2" "\<forall>l\<in>set ls'. delivery l"
    using handle_all [OF 1(2,3)] by blast
  with co_run_trans [OF _ 1(1)] 1(4) show ?thesis by (intro exI [of _ "ls @ ls'"] exI [of _ s2]) auto
qed

section \<open>A scheduler\<close>

text \<open>Runs by the choice of the goroutine that moves next, to build concrete ones.\<close>

datatype choice = DoSet string instant key bytes | DoPublish | DoHandle string

fun co_do :: "'c Cache \<Rightarrow> choice \<Rightarrow> 'c System \<Rightarrow> (coLabel \<times> 'c System) option" where
  "co_do M (DoSet i now k v) s =
     (case coordinator_write M now i k v 0 (syCo s) of
        (Inr e, co) \<Rightarrow> Some (Wrote i now k v 0, s\<lparr>syCo := co, syPending := syPending s @ [e]\<rparr>)
      | (Inl err, co) \<Rightarrow> Some (Refused i err, s\<lparr>syCo := co\<rparr>))"
| "co_do M DoPublish s =
     (case syPending s of
        [] \<Rightarrow> None
      | e # es \<Rightarrow>
          map_option (\<lambda>b. (Published e (drops e (sy_bus s)), set_bus b (s\<lparr>syPending := es\<rparr>))) (bus_Publish e (sy_bus s)))"
| "co_do M (DoHandle i) s =
     (case map_of (syHandlers s) i of
        None \<Rightarrow> None
      | Some a \<Rightarrow>
          (case chBuf (ebChans (sy_bus s) ! a) of
             [] \<Rightarrow> None
           | e # es \<Rightarrow>
               Some (Handled i e, s\<lparr>syCo := handleEvent M 0 i e ((syCo s)\<lparr>coBus := bus_receive a (sy_bus s)\<rparr>)\<rparr>)))"

fun co_schedule :: "'c Cache \<Rightarrow> choice list \<Rightarrow> 'c System \<Rightarrow> (coLabel list \<times> 'c System) option" where
  "co_schedule M [] s = Some ([], s)"
| "co_schedule M (ch # chs) s =
     (case co_do M ch s of
        None \<Rightarrow> None
      | Some (l, s') \<Rightarrow> map_option (\<lambda>(ls, s''). (l # ls, s'')) (co_schedule M chs s'))"

lemma co_do_step: "co_do M ch s = Some (l, s') \<Longrightarrow> co_step M s l s'"
proof (cases ch)
  case (DoSet i now k v)
  assume "co_do M ch s = Some (l, s')"
  with DoSet show ?thesis by (auto split: prod.splits sum.splits intro: co_step.wrote co_step.refused)
next
  case DoPublish
  assume "co_do M ch s = Some (l, s')"
  with DoPublish obtain e es b where "syPending s = e # es" "bus_Publish e (sy_bus s) = Some b"
    "l = Published e (drops e (sy_bus s))" "s' = set_bus b (s\<lparr>syPending := es\<rparr>)" by (auto split: list.splits)
  with co_step.published [of e s b M] show ?thesis by simp
next
  case (DoHandle i)
  assume "co_do M ch s = Some (l, s')"
  with DoHandle show ?thesis by (auto split: option.splits list.splits intro: co_step.handled dest: map_of_SomeD)
qed

lemma co_schedule_run: "co_schedule M chs s = Some (ls, s') \<Longrightarrow> co_run M s ls s'"
proof (induction chs arbitrary: s ls)
  case Nil
  then show ?case by (auto intro: co_run.start)
next
  case (Cons ch chs)
  then obtain l s1 ls1 where "co_do M ch s = Some (l, s1)" "co_schedule M chs s1 = Some (ls1, s')" "ls = l # ls1"
    by (auto split: option.splits)
  with Cons.IH co_run_trans [OF _ co_run_one [OF co_do_step]] show ?case by fastforce
qed

section \<open>A flooded channel\<close>

text \<open>Two nodes at work, the buffer of the second, and the event of a write of \<open>k\<close> by \<open>i\<close>.\<close>

definition duo :: "'c \<Rightarrow> 'c \<Rightarrow> Event list \<Rightarrow> 'c System" where
  "duo na nb buf =
     \<lparr>syCo = \<lparr>coNodes = [(''a'', na), (''b'', nb)],
              coBus = \<lparr>ebSubscribers = [(''a'', 0), (''b'', 1)],
                       ebChans = [\<lparr>chBuf = [], chClosed = False\<rparr>, \<lparr>chBuf = buf, chClosed = False\<rparr>]\<rparr>,
              coDone = [(''a'', False), (''b'', False)], coClosed = False\<rparr>,
      syHandlers = [(''a'', 0), (''b'', 1)], syPending = []\<rparr>"

abbreviation invalidate :: "string \<Rightarrow> key \<Rightarrow> Event" where
  "invalidate i k \<equiv> \<lparr>evType = EventInvalidate, evKey = k, evValue = [], evFrom = i\<rparr>"

lemma duo_New: "NewCoordinator [(''a'', na), (''b'', nb)] NewBus = duo na nb []"
  by (simp add: NewCoordinator_def NewBus_def bus_Subscribe_def duo_def)

lemma co_run_two: "co_step M s l s' \<Longrightarrow> co_step M s' l' s'' \<Longrightarrow> co_run M s [l, l'] s''"
  using co_run.snoc [OF co_run_one] by fastforce

context cache_contract
begin

lemma duo_write:
  assumes "inv na" and "length buf \<le> chanCap"
  obtains na' where "inv na'" and "live na' k = Some (v, None)"
    and "co_run M (duo na nb buf) [Wrote ''a'' t k v 0, Published (invalidate ''a'' k) (length buf = chanCap)]
      (duo na' nb (if length buf = chanCap then buf else buf @ [invalidate ''a'' k]))"
proof -
  obtain err evs na' where s: "mSet M t k v 0 na = (err, evs, na')" by (cases "mSet M t k v 0 na")
  note l = set_law [OF assms(1) s]
  let ?s = "(duo na' nb buf)\<lparr>syPending := [invalidate ''a'' k]\<rparr>"
  have "coordinator_write M t ''a'' k v 0 (syCo (duo na nb buf)) = (Inr (invalidate ''a'' k), syCo (duo na' nb buf))"
    using s l by (simp add: coordinator_write_def duo_def)
  from co_step.wrote [OF this] have "co_step M (duo na nb buf) (Wrote ''a'' t k v 0) ?s" by (simp add: duo_def)
  moreover have "co_step M ?s (Published (invalidate ''a'' k) (length buf = chanCap))
      (duo na' nb (if length buf = chanCap then buf else buf @ [invalidate ''a'' k]))"
  proof -
    let ?b = "sy_bus (duo na' nb (if length buf = chanCap then buf else buf @ [invalidate ''a'' k]))"
    have "bus_Publish (invalidate ''a'' k) (sy_bus ?s) = Some ?b"
      using assms(2) by (auto simp: bus_Publish_def duo_def chan_offer_def)
    moreover have "drops (invalidate ''a'' k) (sy_bus ?s) \<longleftrightarrow> length buf = chanCap"
      using assms(2) by (auto simp: drops_def duo_def)
    ultimately show ?thesis using co_step.published [of "invalidate ''a'' k" ?s ?b M] by (simp add: duo_def)
  qed
  ultimately show ?thesis using l by (intro that [of na'] co_run_two) (auto simp: expiryOf_def)
qed

lemma duo_flood:
  "inv na \<Longrightarrow> n \<le> chanCap \<Longrightarrow>
   \<exists>na' ls. inv na' \<and> Closed \<notin> set ls \<and> co_run M (duo na nb []) ls (duo na' nb (replicate n (invalidate ''a'' ''x'')))"
proof (induction n)
  case 0
  then show ?case by (intro exI [of _ na] exI [of _ "[]"]) (simp add: co_run.start)
next
  case (Suc n)
  then obtain na1 ls where 1: "inv na1" "Closed \<notin> set ls"
    "co_run M (duo na nb []) ls (duo na1 nb (replicate n (invalidate ''a'' ''x'')))" by auto
  let ?l = "[Wrote ''a'' 2 ''x'' [] 0, Published (invalidate ''a'' ''x'') False]"
  obtain na2 where 2: "inv na2"
    "co_run M (duo na1 nb (replicate n (invalidate ''a'' ''x''))) ?l (duo na2 nb (replicate (Suc n) (invalidate ''a'' ''x'')))"
    by (rule duo_write [OF 1(1), of "replicate n (invalidate ''a'' ''x'')" "''x''" "[]" nb 2])
      (use Suc.prems in \<open>auto simp: replicate_append_same\<close>)
  have "Closed \<notin> set (ls @ ?l)" using 1(2) by simp
  with 2(1) co_run_trans [OF 2(2) 1(3)] show ?case by blast
qed

lemma duo_drain:
  "inv nb \<Longrightarrow> live nb ''k'' = x \<Longrightarrow>
   \<exists>nb' ls. inv nb' \<and> live nb' ''k'' = x \<and> Closed \<notin> set ls \<and> foldl last_step m ls = m \<and>
     co_run M (duo na nb (replicate n (invalidate ''a'' ''x''))) ls (duo na nb' [])"
proof (induction n arbitrary: nb)
  case 0
  then show ?case by (intro exI [of _ nb] exI [of _ "[]"]) (simp add: co_run.start)
next
  case (Suc n)
  let ?e = "invalidate ''a'' ''x''"
  obtain f nb1 where d: "mDelete M ''x'' nb = (f, nb1)" by (cases "mDelete M ''x'' nb")
  note l = delete_law [OF Suc.prems(1) d]
  have st: "co_step M (duo na nb (replicate (Suc n) ?e)) (Handled ''b'' ?e) (duo na nb1 (replicate n ?e))"
    using co_step.handled [of "''b''" 1 "duo na nb (replicate (Suc n) ?e)" ?e "replicate n ?e" M 0] d
    by (simp add: duo_def handleEvent_def bus_receive_def)
  from l Suc.prems(2) have "inv nb1" "live nb1 ''k'' = x" by simp_all
  from Suc.IH [OF this] obtain nb' ls where "inv nb'" "live nb' ''k'' = x" "Closed \<notin> set ls" "foldl last_step m ls = m"
    "co_run M (duo na nb1 (replicate n ?e)) ls (duo na nb' [])" by blast
  with co_run_trans [OF _ co_run_one [OF st]] show ?case
    by (intro exI [of _ nb'] exI [of _ "Handled ''b'' ?e # ls"]) fastforce
qed

text \<open>The second node writes first, and the first node hears of it.\<close>

lemma duo_first:
  assumes "inv na" and "inv nb"
  obtains na' nb' where "inv na'" and "inv nb'" and "live nb' ''k'' = Some (v, None)"
    and "co_run M (duo na nb [])
      [Wrote ''b'' 1 ''k'' v 0, Published (invalidate ''b'' ''k'') False, Handled ''a'' (invalidate ''b'' ''k'')] (duo na' nb' [])"
proof -
  let ?e = "invalidate ''b'' ''k''"
  obtain err evs nb' where s: "mSet M 1 ''k'' v 0 nb = (err, evs, nb')" by (cases "mSet M 1 ''k'' v 0 nb")
  note l = set_law [OF assms(2) s]
  obtain f na' where d: "mDelete M ''k'' na = (f, na')" by (cases "mDelete M ''k'' na")
  note l' = delete_law [OF assms(1) d]
  let ?s1 = "(duo na nb' [])\<lparr>syPending := [?e]\<rparr>"
  let ?b = "\<lparr>ebSubscribers = [(''a'', 0), (''b'', 1)],
     ebChans = [\<lparr>chBuf = [?e], chClosed = False\<rparr>, \<lparr>chBuf = [], chClosed = False\<rparr>]\<rparr>"
  let ?s2 = "set_bus ?b (duo na nb' [])"
  have "coordinator_write M 1 ''b'' ''k'' v 0 (syCo (duo na nb [])) = (Inr ?e, syCo (duo na nb' []))"
    using s l by (simp add: coordinator_write_def duo_def)
  from co_step.wrote [OF this] have 1: "co_step M (duo na nb []) (Wrote ''b'' 1 ''k'' v 0) ?s1" by (simp add: duo_def)
  have "bus_Publish ?e (sy_bus ?s1) = Some ?b" by (simp add: bus_Publish_def duo_def chan_offer_def)
  moreover have "\<not> drops ?e (sy_bus ?s1)" by (simp add: drops_def duo_def)
  ultimately have 2: "co_step M ?s1 (Published ?e False) ?s2"
    using co_step.published [of ?e ?s1 ?b M] by (simp add: duo_def)
  have "co_step M ?s2 (Handled ''a'' ?e) (duo na' nb' [])"
    using co_step.handled [of "''a''" 0 ?s2 ?e "[]" M 0] d by (simp add: duo_def handleEvent_def bus_receive_def)
  from co_run.snoc [OF co_run_two [OF 1 2] this] l l' show ?thesis
    by (intro that [of na' nb']) (auto simp: expiryOf_def)
qed

lemma stale_run:
  assumes "inv na" and "inv nb"
  shows "\<exists>ls s n. co_run M (NewCoordinator [(''a'', na), (''b'', nb)] NewBus) ls s \<and> Closed \<notin> set ls \<and>
    quiescent s \<and> map_of (sy_nodes s) ''b'' = Some n \<and> fst (mGet M 4 ''k'' n) = Some old \<and>
    lastWrite ls ''k'' = Some (''a'', new, None)"
proof -
  obtain na1 nb1 where 1: "inv na1" "inv nb1" "live nb1 ''k'' = Some (old, None)"
    "co_run M (duo na nb [])
      [Wrote ''b'' 1 ''k'' old 0, Published (invalidate ''b'' ''k'') False, Handled ''a'' (invalidate ''b'' ''k'')] (duo na1 nb1 [])"
    (is "co_run _ _ ?l1 _") using duo_first [OF assms] by blast
  obtain na2 l2 where 2: "inv na2" "Closed \<notin> set l2"
    "co_run M (duo na1 nb1 []) l2 (duo na2 nb1 (replicate 100 (invalidate ''a'' ''x'')))"
    using duo_flood [OF 1(1), of 100 nb1] by auto
  obtain na3 where 3: "inv na3" "co_run M (duo na2 nb1 (replicate 100 (invalidate ''a'' ''x'')))
      [Wrote ''a'' 3 ''k'' new 0, Published (invalidate ''a'' ''k'') True] (duo na3 nb1 (replicate 100 (invalidate ''a'' ''x'')))"
    (is "co_run _ _ ?l3 _")
    using duo_write [OF 2(1), of "replicate 100 (invalidate ''a'' ''x'')" "''k''" new nb1 3] by auto
  let ?m = "lastWrite (?l1 @ l2 @ ?l3)"
  obtain nb4 l4 where 4: "inv nb4" "live nb4 ''k'' = Some (old, None)" "Closed \<notin> set l4" "foldl last_step ?m l4 = ?m"
    "co_run M (duo na3 nb1 (replicate 100 (invalidate ''a'' ''x''))) l4 (duo na3 nb4 [])"
    using duo_drain [OF 1(2,3)] by blast
  have "co_run M (duo na nb []) (?l1 @ l2 @ ?l3 @ l4) (duo na3 nb4 [])"
    by (rule co_run_trans [OF co_run_trans [OF co_run_trans [OF 4(5) 3(2)] 2(3)] 1(4)])
  moreover have "Closed \<notin> set (?l1 @ l2 @ ?l3 @ l4)" using 2(2) 4(3) by simp
  moreover have "quiescent (duo na3 nb4 [])" by (simp add: quiescent_def duo_def)
  moreover have "map_of (sy_nodes (duo na3 nb4 [])) ''b'' = Some nb4" by (simp add: duo_def)
  moreover have "fst (mGet M 4 ''k'' nb4) = Some old"
    using get_law [OF 4(1), of 4 "''k''"] 4(2) by (cases "mGet M 4 ''k'' nb4") fastforce
  moreover have "lastWrite (?l1 @ l2 @ ?l3 @ l4) ''k'' = Some (''a'', new, None)"
    using 4(4) by (simp add: lastWrite_def expiryOf_def)
  ultimately show ?thesis unfolding duo_New by blast
qed

end

section \<open>Properties\<close>

abbreviation lruNodes :: "int \<Rightarrow> string list \<Rightarrow> LRUCache System" where
  "lruNodes cap ids \<equiv> NewCoordinator (map (\<lambda>i. (i, lru_New cap)) ids) NewBus"

text \<open>The coordinator over LRU nodes starts coherent, with its laws from the LRU contract.\<close>

lemma lruNodes_coherent:
  assumes "distinct ids" and "co_run lru_cache (lruNodes cap ids) ls s" and "\<forall>l\<in>set ls. undisturbed l"
  shows "wired s \<and> lru.coherent (lastWrite ls) s"
proof -
  have "wired (lruNodes cap ids) \<and> lru.coherent Map.empty (lruNodes cap ids)"
    using assms(1) lru_New_live by (intro lru.coherent_New) (auto simp: o_def)
  with lru.coherent_run [OF assms(2) _ _ assms(3)] show ?thesis by blast
qed

text \<open>
  C10: at rest no node serves a stale value: after any interleaving of writers, readers, event
  handlers and stream clients in which no event was dropped and the coordinator stayed open, a hit
  on a node returns the value of the last write of the key by any node, that node made it, and it
  has not expired.
\<close>

theorem coherence_at_rest:
  assumes "distinct ids" and "co_run lru_cache (lruNodes cap ids) ls s" and "\<forall>l\<in>set ls. undisturbed l"
    and "quiescent s" and "map_of (sy_nodes s) i = Some n" and "fst (lru_Get now k n) = Some v"
  shows "\<exists>e. lastWrite ls k = Some (i, v, e) \<and> \<not> expired now e"
  using lru.rest_coherent [of s "lastWrite ls" i n now k v] lruNodes_coherent [OF assms(1-3)] assms(4-6)
  by (simp add: lru_cache_def)

definition demo_schedule :: "choice list" where
  "demo_schedule = [DoSet ''node-a'' 1 ''k'' [1], DoPublish, DoHandle ''node-b'',
     DoSet ''node-b'' 2 ''k'' [2], DoPublish, DoHandle ''node-a'']"

abbreviation demo_run :: "choice list \<Rightarrow> coLabel list \<times> LRUCache System" where
  "demo_run chs \<equiv> the (co_schedule lru_cache chs (lruNodes 100 [''node-a'', ''node-b'']))"

lemma demo_runs:
  "co_schedule lru_cache chs (lruNodes 100 [''node-a'', ''node-b'']) \<noteq> None \<Longrightarrow>
   co_run lru_cache (lruNodes 100 [''node-a'', ''node-b'']) (fst (demo_run chs)) (snd (demo_run chs))"
  using co_schedule_run by force

lemma coherence_at_rest_witness:
  "\<exists>e. lastWrite (fst (demo_run demo_schedule)) ''k'' = Some (''node-b'', [2], e) \<and> \<not> expired 5 e"
proof (rule coherence_at_rest)
  show "co_run lru_cache (lruNodes 100 [''node-a'', ''node-b'']) (fst (demo_run demo_schedule)) (snd (demo_run demo_schedule))"
    by (rule demo_runs) code_simp
  show "\<forall>l\<in>set (fst (demo_run demo_schedule)). undisturbed l" by code_simp
  show "quiescent (snd (demo_run demo_schedule))" by code_simp
  show "map_of (sy_nodes (snd (demo_run demo_schedule))) ''node-b'' =
    Some (the (map_of (sy_nodes (snd (demo_run demo_schedule))) ''node-b''))"
    by (rule option.collapse [symmetric], subst Option.is_none_def [symmetric], code_simp)
  show "fst (lru_Get 5 ''k'' (the (map_of (sy_nodes (snd (demo_run demo_schedule))) ''node-b''))) = Some [2]" by code_simp
qed simp

text \<open>
  C11: in every run, with \<open>Close\<close> and stream clients coming and going, no goroutine panics (no send on
  a closed channel, no channel closed twice) and no channel holds more than 100 events.
\<close>

theorem coherence_never_panics:
  assumes "distinct ids" and "co_run lru_cache (lruNodes cap ids) ls s"
  shows "Panicked \<notin> set ls \<and> list_all (\<lambda>ch. length (chBuf ch) \<le> 100) (ebChans (sy_bus s))"
proof -
  have "co_ok s \<and> Panicked \<notin> set ls" by (rule co_run_ok [OF assms(2) New_ok]) (simp add: o_def assms(1))
  then show ?thesis by (simp add: co_ok_def bus_ok_def list_all_iff)
qed

lemma coherence_never_panics_witness:
  "Panicked \<notin> set (fst (demo_run demo_schedule)) \<and>
     list_all (\<lambda>ch. length (chBuf ch) \<le> 100) (ebChans (sy_bus (snd (demo_run demo_schedule))))"
proof (rule coherence_never_panics)
  show "co_run lru_cache (lruNodes 100 [''node-a'', ''node-b'']) (fst (demo_run demo_schedule)) (snd (demo_run demo_schedule))"
    by (rule demo_runs) code_simp
qed simp



definition crossed :: "choice list" where
  "crossed = [DoSet ''node-a'' 1 ''k'' [1], DoPublish, DoSet ''node-b'' 2 ''k'' [2], DoPublish,
     DoHandle ''node-a'', DoHandle ''node-b'']"

text \<open>
  a late invalidation deletes a newer value: a node that writes a key before it has handled
  the event of an earlier write by another node loses its own write, and then no node holds the
  key, although no event was dropped.
\<close>

theorem coherence_loses_last_write:
  "\<exists>ls s. co_run lru_cache (lruNodes 100 [''node-a'', ''node-b'']) ls s \<and> list_all undisturbed ls \<and> quiescent s \<and>
     lastWrite ls ''k'' = Some (''node-b'', [2], None) \<and>
     list_all (\<lambda>(i, n). fst (lru_Get 3 ''k'' n) = None) (sy_nodes s)"
proof (intro exI conjI)
  show "co_run lru_cache (lruNodes 100 [''node-a'', ''node-b'']) (fst (demo_run crossed)) (snd (demo_run crossed))"
    by (rule demo_runs) code_simp
  show "list_all undisturbed (fst (demo_run crossed))" by code_simp
  show "quiescent (snd (demo_run crossed))" by code_simp
  show "lastWrite (fst (demo_run crossed)) ''k'' = Some (''node-b'', [2], None)" by code_simp
  show "list_all (\<lambda>(i, n). fst (lru_Get 3 ''k'' n) = None) (sy_nodes (snd (demo_run crossed)))" by code_simp
qed

text \<open>
  a dropped event makes a node stale for good: after 101 writes by one node while the handler
  of another is behind, the other still serves, at rest, the value it wrote before the last write.
\<close>

theorem coherence_stale_after_drop:
  "\<exists>ls s n. co_run lru_cache (lruNodes cap [''a'', ''b'']) ls s \<and> Closed \<notin> set ls \<and> quiescent s \<and>
     map_of (sy_nodes s) ''b'' = Some n \<and> fst (lru_Get 4 ''k'' n) = Some old \<and>
     lastWrite ls ''k'' = Some (''a'', new, None)"
  using lru.stale_run [of "lru_New cap" "lru_New cap" old new] lru_New_live(1) [of cap] by (simp add: lru_cache_def)

text \<open>
  after a run of LRU nodes without drops, \<open>Set\<close> never panics, fails exactly on an unknown node,
  then changing nothing, and otherwise the node serves the value it was given.
\<close>

theorem coherence_Set_outcome:
  assumes "distinct ids" and "co_run lru_cache (lruNodes cap ids) ls s" and "\<forall>l\<in>set ls. undisturbed l"
  shows "\<exists>err co. coordinator_Set lru_cache now i k v 0 (syCo s) = Some (err, co) \<and> (err = None \<longleftrightarrow> i \<in> set (map fst (sy_nodes s))) \<and>
    (case map_of (coNodes co) i of None \<Rightarrow> co = syCo s \<and> err = Some (''unknown node: '' @ i)
     | Some n \<Rightarrow> fst (lru_Get now' k n) = Some v)"
proof -
  have w: "wired s" and c: "lru.coherent (lastWrite ls) s" using lruNodes_coherent [OF assms] by auto
  then have ok: "bus_ok (sy_bus s)" by (simp add: wired_def co_ok_def)
  show ?thesis
  proof (cases "map_of (sy_nodes s) i")
    case None
    then have "i \<notin> set (map fst (sy_nodes s))" by (simp add: map_of_eq_None_iff)
    with None show ?thesis by (simp add: coordinator_Set_def coordinator_write_def)
  next
    case (Some n)
    then have i: "i \<in> set (map fst (sy_nodes s))" by (metis map_of_eq_None_iff option.distinct(1) set_map)
    obtain err evs n' where set: "mSet lru_cache now k v 0 n = (err, evs, n')" by (cases "mSet lru_cache now k v 0 n")
    have n: "\<exists>t. lru_sim n t \<and> lruSpec_ok t" using c Some by (simp add: lru.coherent_def)
    obtain b where "bus_Publish (invalidate i k) (sy_bus s) = Some b" using Publish_ok [OF ok] by blast
    moreover have "err = None" using lru.set_law [OF n set] by blast
    moreover have "fst (mGet lru_cache now' k n') = Some v" using lru.get_set [OF n set, of now'] by (simp add: expiryOf_def)
    ultimately show ?thesis using i Some set
      by (simp add: coordinator_Set_def coordinator_write_def map_of_update_upd lru_cache_def)
  qed
qed

lemma coherence_Set_outcome_witness:
  "\<exists>err co. coordinator_Set lru_cache 7 ''node-b'' ''q'' [9] 0 (syCo (snd (demo_run demo_schedule))) = Some (err, co) \<and>
    (err = None \<longleftrightarrow> ''node-b'' \<in> set (map fst (sy_nodes (snd (demo_run demo_schedule))))) \<and>
    (case map_of (coNodes co) ''node-b'' of None \<Rightarrow> co = syCo (snd (demo_run demo_schedule)) \<and> err = Some (''unknown node: '' @ ''node-b'')
     | Some n \<Rightarrow> fst (lru_Get 8 ''q'' n) = Some [9])"
proof (rule coherence_Set_outcome)
  show "co_run lru_cache (lruNodes 100 [''node-a'', ''node-b'']) (fst (demo_run demo_schedule)) (snd (demo_run demo_schedule))"
    by (rule demo_runs) code_simp
  show "\<forall>l\<in>set (fst (demo_run demo_schedule)). undisturbed l" by code_simp
qed simp

end
