(* ===== verification/TTL_Wheel.thy ===== *)
theory TTL_Wheel
  imports Go_Prelude "HOL-Library.Multiset"
begin

text \<open>
  internal/ttl/wheel.go: the scheduler of expiries, a binary min-heap of entries (container/heap of
  the standard library, on the wheel's \<open>Swap\<close>, \<open>Push\<close> and \<open>Pop\<close>) with a map from keys to entries;
  an entry records its position in the heap. Entries are pointers that the heap and the map
  share, so they are addresses into the memory \<open>whMem\<close>.

  \<open>wh_ok\<close> is the invariant: positions recorded correctly, heap order, the map and the heap hold the
  same entries. Under it the wheel is a map from keys to expiry times (\<open>wh_abs\<close>).
\<close>

section \<open>The code\<close>

record ttlEntry =
  teKey :: key
  teExpAt :: instant
  teIndex :: int

record Wheel =
  whH :: "addr list"
  whIndex :: "(key, addr) gomap"
  whMem :: "addr \<Rightarrow> ttlEntry"
  whFresh :: addr
  whTrigger :: bool
  whStopped :: bool

definition wh_New :: Wheel where
  "wh_New = \<lparr>whH = [], whIndex = [], whMem = (\<lambda>_. \<lparr>teKey = [], teExpAt = 0, teIndex = 0\<rparr>), whFresh = 0,
     whTrigger = False, whStopped = False\<rparr>"

text \<open>The expiry of the entry at a position of the heap.\<close>

definition expOf :: "Wheel \<Rightarrow> nat \<Rightarrow> instant" where
  "expOf w i = teExpAt (whMem w (whH w ! i))"

definition wh_Less :: "Wheel \<Rightarrow> nat \<Rightarrow> nat \<Rightarrow> bool" where
  "wh_Less w i j = (expOf w i < expOf w j)"

definition wh_Swap :: "nat \<Rightarrow> nat \<Rightarrow> Wheel \<Rightarrow> Wheel" where
  "wh_Swap i j w =
     (let h = (whH w)[i := whH w ! j, j := whH w ! i];
          m = (whMem w)(h ! i := (whMem w (h ! i))\<lparr>teIndex := int i\<rparr>)
      in w\<lparr>whH := h, whMem := m(h ! j := (m (h ! j))\<lparr>teIndex := int j\<rparr>)\<rparr>)"

definition wh_Push :: "addr \<Rightarrow> Wheel \<Rightarrow> Wheel" where
  "wh_Push a w = w\<lparr>whMem := (whMem w)(a := (whMem w a)\<lparr>teIndex := int (length (whH w))\<rparr>), whH := whH w @ [a]\<rparr>"

definition wh_Pop :: "Wheel \<Rightarrow> addr \<times> Wheel" where
  "wh_Pop w =
     (let a = last (whH w)
      in (a, w\<lparr>whH := butlast (whH w), whMem := (whMem w)(a := (whMem w a)\<lparr>teIndex := -1\<rparr>)\<rparr>))"

text \<open>container/heap: \<open>up\<close>, \<open>down\<close> (with whether it moved anything), \<open>Push\<close>, \<open>Pop\<close> and \<open>Remove\<close>\<close>

fun heap_up :: "nat \<Rightarrow> Wheel \<Rightarrow> Wheel" where
  "heap_up j w =
     (let i = (j - 1) div 2
      in if i = j \<or> \<not> wh_Less w j i then w else heap_up i (wh_Swap i j w))"

function heap_down :: "nat \<Rightarrow> nat \<Rightarrow> Wheel \<Rightarrow> bool \<times> Wheel" where
  "heap_down i n w =
     (let j1 = 2 * i + 1
      in if n \<le> j1 then (False, w)
         else
           (let j = (if j1 + 1 < n \<and> wh_Less w (j1 + 1) j1 then j1 + 1 else j1)
            in if \<not> wh_Less w j i then (False, w)
               else (True, snd (heap_down j n (wh_Swap i j w)))))"
  by pat_completeness auto
termination by (relation "measure (\<lambda>(i, n, w). n - i)") (auto simp: Let_def split: if_splits)

definition heap_Push :: "addr \<Rightarrow> Wheel \<Rightarrow> Wheel" where
  "heap_Push a w = (let w1 = wh_Push a w in heap_up (length (whH w1) - 1) w1)"

definition heap_Pop :: "Wheel \<Rightarrow> addr \<times> Wheel" where
  "heap_Pop w = (let n = length (whH w) - 1 in wh_Pop (snd (heap_down 0 n (wh_Swap 0 n w))))"

definition heap_Remove :: "nat \<Rightarrow> Wheel \<Rightarrow> addr \<times> Wheel" where
  "heap_Remove i w =
     (let n = length (whH w) - 1
      in wh_Pop
           (if n = i then w
            else (let (moved, w1) = heap_down i n (wh_Swap i n w) in if moved then w1 else heap_up i w1)))"

definition wh_unschedule :: "key \<Rightarrow> Wheel \<Rightarrow> Wheel" where
  "wh_unschedule k w =
     (case map_of (whIndex w) k of
        None \<Rightarrow> w
      | Some a \<Rightarrow>
          (snd (heap_Remove (nat (teIndex (whMem w a))) w))\<lparr>whIndex := AList.delete k (whIndex w)\<rparr>)"

text \<open>\<open>Schedule\<close>: what it does under the lock, and the signal after it\<close>

definition wh_insert :: "instant \<Rightarrow> key \<Rightarrow> duration \<Rightarrow> Wheel \<Rightarrow> Wheel" where
  "wh_insert now k ttl w =
     (let w1 = wh_unschedule k w; a = whFresh w1;
          w2 = heap_Push a (w1\<lparr>whMem := (whMem w1)(a := \<lparr>teKey = k, teExpAt = now + ttl, teIndex = 0\<rparr>),
                               whFresh := a + 1\<rparr>)
      in w2\<lparr>whIndex := AList.update k a (whIndex w2)\<rparr>)"

definition wh_signal :: "Wheel \<Rightarrow> Wheel" where
  "wh_signal w = w\<lparr>whTrigger := True\<rparr>"

definition wh_Schedule :: "instant \<Rightarrow> key \<Rightarrow> duration \<Rightarrow> Wheel \<Rightarrow> Wheel" where
  "wh_Schedule now k ttl w = (if ttl \<le> 0 then w else wh_signal (wh_insert now k ttl w))"

definition wh_Cancel :: "key \<Rightarrow> Wheel \<Rightarrow> Wheel" where
  "wh_Cancel k w = wh_unschedule k w"

text \<open>How long the goroutine sleeps, and what it does when the timer fires.\<close>

definition wh_nextDur :: "instant \<Rightarrow> Wheel \<Rightarrow> duration" where
  "wh_nextDur now w =
     (if 0 < length (whH w) then (let d = expOf w 0 - now in if d < 0 then 0 else d) else 3600000000000)"

lemma length_Swap [simp]: "length (whH (wh_Swap i j w)) = length (whH w)"
  by (simp add: wh_Swap_def Let_def)

declare heap_up.simps [simp del] heap_down.simps [simp del]

lemma length_down [simp]: "length (whH (snd (heap_down i n w))) = length (whH w)"
  by (induction i n w rule: heap_down.induct) (subst heap_down.simps, simp add: Let_def)

function wh_fire :: "instant \<Rightarrow> Wheel \<Rightarrow> key list \<times> Wheel" where
  "wh_fire now w =
     (if 0 < length (whH w) \<and> expOf w 0 \<le> now
      then
        (let (a, w1) = heap_Pop w; k = teKey (whMem w1 a);
             (ks, w2) = wh_fire now (w1\<lparr>whIndex := AList.delete k (whIndex w1)\<rparr>)
         in (k # ks, w2))
      else ([], w))"
  by pat_completeness auto
termination
  by (relation "measure (\<lambda>(now, w). length (whH w))") (auto simp: heap_Pop_def wh_Pop_def Let_def)

declare wh_fire.simps [simp del]

text \<open>\<open>Stop\<close> closes a channel, a second one panics (\<open>None\<close>).\<close>

definition wh_Stop :: "Wheel \<Rightarrow> Wheel option" where
  "wh_Stop w = (if whStopped w then None else Some (w\<lparr>whStopped := True\<rparr>))"

section \<open>Heap order\<close>

abbreviation parent :: "nat \<Rightarrow> nat" where
  "parent p \<equiv> (p - 1) div 2"

definition heap_ok :: "(nat \<Rightarrow> instant) \<Rightarrow> nat \<Rightarrow> bool" where
  "heap_ok v n \<longleftrightarrow> (\<forall>p. 0 < p \<and> p < n \<longrightarrow> v (parent p) \<le> v p)"

lemma expOf_upd [simp]: "expOf (w\<lparr>whIndex := x\<rparr>) = expOf w" "expOf (w\<lparr>whTrigger := b\<rparr>) = expOf w"
  by (simp_all add: expOf_def fun_eq_iff)

text \<open>Heap order except between \<open>j\<close> and its parent, or except around \<open>i\<close>.\<close>

definition up_pre :: "(nat \<Rightarrow> instant) \<Rightarrow> nat \<Rightarrow> nat \<Rightarrow> bool" where
  "up_pre v n j \<longleftrightarrow> (\<forall>p. 0 < p \<and> p < n \<and> p \<noteq> j \<longrightarrow> v (parent p) \<le> v p) \<and>
     (\<forall>c. 0 < j \<and> 0 < c \<and> c < n \<and> parent c = j \<longrightarrow> v (parent j) \<le> v c)"

definition down_pre :: "(nat \<Rightarrow> instant) \<Rightarrow> nat \<Rightarrow> nat \<Rightarrow> bool" where
  "down_pre v n i \<longleftrightarrow> (\<forall>p. 0 < p \<and> p < n \<and> p \<noteq> i \<and> parent p \<noteq> i \<longrightarrow> v (parent p) \<le> v p) \<and>
     (\<forall>c. 0 < i \<and> 0 < c \<and> c < n \<and> parent c = i \<longrightarrow> v (parent i) \<le> v c)"

definition swapped :: "nat \<Rightarrow> nat \<Rightarrow> (nat \<Rightarrow> instant) \<Rightarrow> nat \<Rightarrow> instant" where
  "swapped i j v p = (if p = i then v j else if p = j then v i else v p)"

lemma parent_less: "0 < p \<Longrightarrow> parent p < p"
  by simp

lemma parent_iff: "0 < p \<Longrightarrow> parent p = i \<longleftrightarrow> p = 2 * i + 1 \<or> p = 2 * i + 2"
  by (cases p) auto

lemma up_swap:
  assumes "up_pre v n j" and "j < n" and "0 < j" and "v j < v i" and i: "i = parent j"
  shows "up_pre (swapped i j v) n i"
  unfolding up_pre_def
proof (intro conjI allI impI)
  have ij: "i < j" using parent_less assms(3) i by simp
  note pre = assms(1) [unfolded up_pre_def]
  fix p assume p: "0 < p \<and> p < n \<and> p \<noteq> i"
  have "parent p < p" using p parent_less by simp
  show "swapped i j v (parent p) \<le> swapped i j v p"
  proof (cases "p = j")
    case True
    show ?thesis using ij assms(4) unfolding True i [symmetric] by (simp add: swapped_def)
  next
    case False
    then have a: "v (parent p) \<le> v p" and b: "parent p = j \<Longrightarrow> v i \<le> v p" using pre p assms(3) i by blast+
    show ?thesis using a b p False assms(4) by (auto simp: swapped_def)
  qed
next
  have ij: "i < j" using parent_less assms(3) i by simp
  note pre = assms(1) [unfolded up_pre_def]
  fix c assume c: "0 < i \<and> 0 < c \<and> c < n \<and> parent c = i"
  have "v (parent i) \<le> v i" using pre c ij assms(2) by auto
  moreover have "c \<noteq> j \<Longrightarrow> v i \<le> v c" using pre c by blast
  moreover have "parent i < i" "c \<noteq> i" using c parent_less [of i] parent_less [of c] by simp_all
  ultimately show "swapped i j v (parent i) \<le> swapped i j v c" using ij by (auto simp: swapped_def)
qed

lemma up_done: "up_pre v n j \<Longrightarrow> parent j = j \<or> v (parent j) \<le> v j \<Longrightarrow> heap_ok v n"
  unfolding up_pre_def heap_ok_def using parent_less by (metis less_irrefl)

lemma down_swap:
  assumes "down_pre v n i" and j: "0 < j" "j < n" "parent j = i" and "v j < v i"
    and least: "\<And>c. 0 < c \<Longrightarrow> c < n \<Longrightarrow> parent c = i \<Longrightarrow> v j \<le> v c"
  shows "down_pre (swapped i j v) n j \<and> swapped i j v (parent j) \<le> swapped i j v j"
proof
  have ij: "i < j" using parent_less j by metis
  note pre = assms(1) [unfolded down_pre_def]
  show "swapped i j v (parent j) \<le> swapped i j v j" using j(3) assms(5) ij by (auto simp: swapped_def)
  show "down_pre (swapped i j v) n j"
    unfolding down_pre_def
  proof (intro conjI allI impI)
    fix p assume p: "0 < p \<and> p < n \<and> p \<noteq> j \<and> parent p \<noteq> j"
    have pp: "parent p < p" using p parent_less by simp
    consider "p = i" | "p \<noteq> i" "parent p = i" | "p \<noteq> i" "parent p \<noteq> i" by blast
    then show "swapped i j v (parent p) \<le> swapped i j v p"
    proof cases
      case 1
      then have "v (parent i) \<le> v j" using pre p j by blast
      with 1 p pp show ?thesis by (simp add: swapped_def)
    next
      case 2
      then show ?thesis using least [of p] p by (simp add: swapped_def)
    next
      case 3
      then show ?thesis using pre p by (simp add: swapped_def)
    qed
  next
    fix c assume c: "0 < j \<and> 0 < c \<and> c < n \<and> parent c = j"
    then have "j < c" using parent_less by metis
    moreover have "v (parent c) \<le> v c" using pre c ij \<open>j < c\<close> by (metis less_irrefl less_trans)
    ultimately show "swapped i j v (parent j) \<le> swapped i j v c" using c ij j(3) by (simp add: swapped_def)
  qed
qed

lemma down_done:
  "down_pre v n i \<Longrightarrow> 0 < i \<longrightarrow> v (parent i) \<le> v i \<Longrightarrow> (\<And>c. 0 < c \<Longrightarrow> c < n \<Longrightarrow> parent c = i \<Longrightarrow> v i \<le> v c) \<Longrightarrow> heap_ok v n"
  unfolding down_pre_def heap_ok_def by metis

section \<open>The heap operations keep the positions and the data\<close>

definition idx_ok :: "Wheel \<Rightarrow> bool" where
  "idx_ok w \<longleftrightarrow> distinct (whH w) \<and> (\<forall>p<length (whH w). teIndex (whMem w (whH w ! p)) = int p)"

definition rearranged :: "nat \<Rightarrow> Wheel \<Rightarrow> Wheel \<Rightarrow> bool" where
  "rearranged n w w' \<longleftrightarrow> mset (whH w') = mset (whH w) \<and> (\<forall>p\<ge>n. p < length (whH w) \<longrightarrow> whH w' ! p = whH w ! p) \<and>
     whIndex w' = whIndex w \<and> whFresh w' = whFresh w \<and>
     (\<forall>a. teKey (whMem w' a) = teKey (whMem w a) \<and> teExpAt (whMem w' a) = teExpAt (whMem w a))"

lemma rearranged_refl [simp]: "rearranged n w w"
  by (simp add: rearranged_def)

lemma rearranged_trans: "rearranged n w w' \<Longrightarrow> rearranged n w' w'' \<Longrightarrow> rearranged n w w''"
  unfolding rearranged_def by (metis mset_eq_length)

lemma rearranged_length: "rearranged n w w' \<Longrightarrow> length (whH w') = length (whH w)"
  unfolding rearranged_def by (metis mset_eq_length)

lemma Swap_ok:
  assumes ok: "idx_ok w" and "i < n" "j < n" "n \<le> length (whH w)"
  shows "idx_ok (wh_Swap i j w)" and "rearranged n w (wh_Swap i j w)" and "expOf (wh_Swap i j w) = swapped i j (expOf w)"
proof -
  let ?h = "(whH w)[i := whH w ! j, j := whH w ! i]"
  have l: "i < length (whH w)" "j < length (whH w)" using assms(2-4) by auto
  have h: "whH (wh_Swap i j w) = ?h" by (simp add: wh_Swap_def Let_def)
  have m: "mset ?h = mset (whH w)" using l by (simp add: mset_swap)
  have d: "distinct ?h" using ok m by (metis idx_ok_def mset_eq_imp_distinct_iff)
  have data: "teKey (whMem (wh_Swap i j w) a) = teKey (whMem w a)" "teExpAt (whMem (wh_Swap i j w) a) = teExpAt (whMem w a)" for a
    by (simp_all add: wh_Swap_def Let_def)
  have "teIndex (whMem (wh_Swap i j w) (?h ! p)) = int p" if "p < length (whH w)" for p
  proof -
    have ne: "p \<noteq> q \<Longrightarrow> q < length (whH w) \<Longrightarrow> ?h ! p \<noteq> ?h ! q" for q
      using d that by (simp add: nth_eq_iff_index_eq)
    show ?thesis
    proof (cases "p = i \<or> p = j")
      case True
      then show ?thesis using ne [of i] ne [of j] l by (cases "i = j") (auto simp: wh_Swap_def Let_def)
    next
      case False
      then have "?h ! p = whH w ! p" by simp
      with False ne [of i] ne [of j] l ok that show ?thesis by (simp add: wh_Swap_def Let_def idx_ok_def)
    qed
  qed
  with d show "idx_ok (wh_Swap i j w)" by (simp add: idx_ok_def h)
  show "rearranged n w (wh_Swap i j w)"
    using m data assms(2,3) by (auto simp: rearranged_def h) (simp_all add: wh_Swap_def Let_def)
  show "expOf (wh_Swap i j w) = swapped i j (expOf w)"
    using l by (auto simp: expOf_def swapped_def data h fun_eq_iff nth_list_update)
qed

lemma up_ok:
  "idx_ok w \<Longrightarrow> j < n \<Longrightarrow> n \<le> length (whH w) \<Longrightarrow> up_pre (expOf w) n j \<Longrightarrow>
   idx_ok (heap_up j w) \<and> rearranged n w (heap_up j w) \<and> heap_ok (expOf (heap_up j w)) n"
proof (induction j w rule: heap_up.induct)
  case (1 j w)
  show ?case
  proof (cases "parent j = j \<or> \<not> wh_Less w j (parent j)")
    case True
    then have "heap_up j w = w" by (subst heap_up.simps) (simp add: Let_def)
    with True 1 up_done [of "expOf w" n j] show ?thesis by (auto simp: wh_Less_def)
  next
    case False
    then have j: "0 < j" by (cases j) auto
    let ?w = "wh_Swap (parent j) j w"
    have p: "parent j < n" using parent_less [OF j] 1(3) by simp
    note s = Swap_ok [OF 1(2) p 1(3,4)]
    have "up_pre (expOf ?w) n (parent j)"
      unfolding s(3) by (rule up_swap [OF 1(5,3) j]) (use False in \<open>auto simp: wh_Less_def\<close>)
    moreover have "heap_up j w = heap_up (parent j) ?w"
      using False by (subst heap_up.simps) (auto simp: Let_def)
    ultimately show ?thesis using 1(1) [OF refl False s(1) p _] 1(4) rearranged_trans [OF s(2)] by simp
  qed
qed

lemma down_ok:
  "idx_ok w \<Longrightarrow> i < n \<Longrightarrow> n \<le> length (whH w) \<Longrightarrow> down_pre (expOf w) n i \<Longrightarrow> heap_down i n w = (moved, w') \<Longrightarrow>
   idx_ok w' \<and> rearranged n w w' \<and> (moved \<or> 0 = i \<or> expOf w (parent i) \<le> expOf w i \<longrightarrow> heap_ok (expOf w') n) \<and>
   (\<not> moved \<longrightarrow> w' = w \<and> (\<forall>c. 0 < c \<and> c < n \<and> parent c = i \<longrightarrow> expOf w i \<le> expOf w c))"
proof (induction i n w arbitrary: moved w' rule: heap_down.induct)
  case (1 i n w)
  note child = parent_iff [of _ i]
  define j where "j = (if 2 * i + 1 + 1 < n \<and> wh_Less w (2 * i + 1 + 1) (2 * i + 1) then 2 * i + 1 + 1 else 2 * i + 1)"
  have stay: ?case if m: "moved = False" "w' = w" and c: "\<And>c. 0 < c \<Longrightarrow> c < n \<Longrightarrow> parent c = i \<Longrightarrow> expOf w i \<le> expOf w c"
    using down_done [OF 1(5) _ c] 1(2) m c by (cases "i = 0") auto
  show ?case
  proof (cases "n \<le> 2 * i + 1")
    case True
    with 1(6) have "moved = False" "w' = w" by (simp_all add: heap_down.simps [of i] Let_def)
    then show ?thesis by (rule stay) (use True child in fastforce)
  next
    case False
    then have jn: "0 < j" "j < n" "parent j = i" unfolding j_def by (auto split: if_splits)
    have least: "expOf w j \<le> expOf w c" if "0 < c" "c < n" "parent c = i" for c
      using child [OF that(1)] that by (auto simp: j_def wh_Less_def)
    have eq: "heap_down i n w = (if \<not> wh_Less w j i then (False, w) else (True, snd (heap_down j n (wh_Swap i j w))))"
      using False by (subst heap_down.simps) (simp add: Let_def j_def)
    show ?thesis
    proof (cases "wh_Less w j i")
      case lt: False
      with 1(6) eq have "moved = False" "w' = w" by simp_all
      then show ?thesis by (rule stay) (use least lt in \<open>force simp: wh_Less_def\<close>)
    next
      case lt: True
      let ?w = "wh_Swap i j w"
      obtain m2 w2 where d: "heap_down j n ?w = (m2, w2)" by (cases "heap_down j n ?w")
      with lt 1(6) eq have mw: "moved" "w' = w2" by simp_all
      note s = Swap_ok [OF 1(2,3) jn(2) 1(4)]
      have "down_pre (expOf ?w) n j \<and> expOf ?w (parent j) \<le> expOf ?w j"
        unfolding s(3) by (rule down_swap [OF 1(5) jn _ least]) (use lt in \<open>auto simp: wh_Less_def\<close>)
      with 1(1) [OF refl False j_def _ s(1) jn(2) _ _ d] lt 1(4)
      have "idx_ok w2" "rearranged n ?w w2" "heap_ok (expOf w2) n" by auto
      with mw rearranged_trans [OF s(2)] show ?thesis by auto
    qed
  qed
qed

text \<open>What taking the entry \<open>a\<close> out of the heap leaves.\<close>

definition taken :: "addr \<Rightarrow> Wheel \<Rightarrow> Wheel \<Rightarrow> bool" where
  "taken a w w' \<longleftrightarrow> idx_ok w' \<and> heap_ok (expOf w') (length (whH w')) \<and> mset (whH w) = add_mset a (mset (whH w')) \<and>
     whIndex w' = whIndex w \<and> whFresh w' = whFresh w \<and>
     (\<forall>a. teKey (whMem w' a) = teKey (whMem w a) \<and> teExpAt (whMem w' a) = teExpAt (whMem w a))"

lemma Pop_taken:
  assumes w1: "idx_ok w1" "heap_ok (expOf w1) n" and r: "rearranged n w0 w1" "mset (whH w0) = mset (whH w)"
    and n: "length (whH w) = Suc n" and a: "whH w0 ! n = a"
    and f: "whIndex w0 = whIndex w" "whFresh w0 = whFresh w"
      "\<forall>a. teKey (whMem w0 a) = teKey (whMem w a) \<and> teExpAt (whMem w0 a) = teExpAt (whMem w a)"
  shows "fst (wh_Pop w1) = a \<and> taken a w (snd (wh_Pop w1))"
proof -
  have l: "length (whH w1) = Suc n" "length (whH w0) = Suc n"
    using rearranged_length [OF r(1)] r(2) n by (metis mset_eq_length)+
  then obtain ys where ys: "whH w1 = ys @ [whH w1 ! n]" "length ys = n"
    by (metis append_butlast_last_id diff_Suc_1 last_conv_nth length_0_conv length_butlast nat.distinct(1))
  have at: "whH w1 ! n = a" using r(1) a l by (auto simp: rearranged_def)
  define w2 where "w2 = snd (wh_Pop w1)"
  have w2: "whH w2 = ys" "\<And>b. b \<noteq> a \<Longrightarrow> whMem w2 b = whMem w1 b"
    and data: "\<And>b. teKey (whMem w2 b) = teKey (whMem w1 b)" "\<And>b. teExpAt (whMem w2 b) = teExpAt (whMem w1 b)"
    using ys at by (simp_all add: w2_def wh_Pop_def Let_def)
  have d: "distinct ys" "a \<notin> set ys" using w1(1) ys at by (metis distinct_append idx_ok_def not_distinct_conv_prefix)+
  have ix: "ys ! p = whH w1 ! p" if "p < n" for p using ys that by (metis nth_append)
  have "idx_ok w2"
    unfolding idx_ok_def
  proof (intro conjI allI impI)
    show "distinct (whH w2)" using d w2 by simp
    fix p assume p: "p < length (whH w2)"
    then have "ys ! p \<noteq> a" using d(2) w2 nth_mem by metis
    with p w2 ys(2) ix [of p] w1(1) l show "teIndex (whMem w2 (whH w2 ! p)) = int p" by (simp add: idx_ok_def)
  qed
  moreover have "expOf w2 p = expOf w1 p" if "p < n" for p using ix [OF that] w2 data by (simp add: expOf_def)
  then have "heap_ok (expOf w2) n" using w1(2) parent_less unfolding heap_ok_def by (metis less_trans)
  moreover have "mset (whH w) = add_mset a (mset ys)" using r ys at unfolding rearranged_def
    by (metis add_mset_add_single mset.simps(1,2) mset_append)
  ultimately have "taken a w w2"
    using w2 ys data r(1) f by (simp add: taken_def rearranged_def) (simp add: w2_def wh_Pop_def Let_def)
  moreover have "fst (wh_Pop w1) = a" using ys at by (simp add: wh_Pop_def Let_def)
  ultimately show ?thesis by (simp add: w2_def)
qed

lemma swap_last:
  assumes ok: "idx_ok w" and h: "heap_ok (expOf w) (length (whH w))" and n: "length (whH w) = Suc n" and i: "i < n"
  shows "down_pre (expOf (wh_Swap i n w)) n i" and "whH (wh_Swap i n w) ! n = whH w ! i"
proof -
  have e: "expOf (wh_Swap i n w) = swapped i n (expOf w)" using Swap_ok(3) [OF ok, of i "Suc n" n] i n by simp
  have le: "0 < p \<Longrightarrow> p < Suc n \<Longrightarrow> expOf w (parent p) \<le> expOf w p" for p using h n by (simp add: heap_ok_def)
  show "down_pre (expOf (wh_Swap i n w)) n i"
    unfolding down_pre_def e
  proof (intro conjI allI impI)
    fix p assume "0 < p \<and> p < n \<and> p \<noteq> i \<and> parent p \<noteq> i"
    with le [of p] show "swapped i n (expOf w) (parent p) \<le> swapped i n (expOf w) p"
      using parent_less [of p] by (simp add: swapped_def)
  next
    fix c assume c: "0 < i \<and> 0 < c \<and> c < n \<and> parent c = i"
    then have "expOf w (parent i) \<le> expOf w i" "expOf w i \<le> expOf w c" using le [of c] le [of i] i by auto
    with c i parent_less [of i] parent_less [of c] show "swapped i n (expOf w) (parent i) \<le> swapped i n (expOf w) c"
      by (simp add: swapped_def)
  qed
  show "whH (wh_Swap i n w) ! n = whH w ! i" using n i by (simp add: wh_Swap_def Let_def)
qed

lemma Remove_taken:
  assumes ok: "idx_ok w" and h: "heap_ok (expOf w) (length (whH w))" and i: "i < length (whH w)"
  shows "fst (heap_Remove i w) = whH w ! i \<and> taken (whH w ! i) w (snd (heap_Remove i w))"
proof -
  obtain n where n: "length (whH w) = Suc n" using i by (cases "length (whH w)") auto
  show ?thesis
  proof (cases "i = n")
    case True
    have "heap_ok (expOf w) n" using h n by (simp add: heap_ok_def)
    from Pop_taken [OF ok this rearranged_refl refl n refl refl refl] True n show ?thesis by (simp add: heap_Remove_def Let_def)
  next
    case False
    with i n have i: "i < n" by simp
    note s = Swap_ok [OF ok _ _ le_refl, of i n] and d = swap_last [OF ok h n i]
    have s: "idx_ok (wh_Swap i n w)" "rearranged (Suc n) w (wh_Swap i n w)" using s(1,2) i n by simp_all
    obtain moved w1 where dn: "heap_down i n (wh_Swap i n w) = (moved, w1)" by (cases "heap_down i n (wh_Swap i n w)")
    have n': "n \<le> length (whH (wh_Swap i n w))" using n by simp
    note r = down_ok [OF s(1) i n' d(1) dn]
    define w2 where "w2 = (if moved then w1 else heap_up i w1)"
    have "idx_ok w2 \<and> rearranged n (wh_Swap i n w) w2 \<and> heap_ok (expOf w2) n"
    proof (cases moved)
      case True
      with r show ?thesis by (simp add: w2_def)
    next
      case False
      with r have w1: "w1 = wh_Swap i n w"
        and c: "\<And>c. 0 < c \<Longrightarrow> c < n \<Longrightarrow> parent c = i \<Longrightarrow> expOf w1 i \<le> expOf w1 c" by auto
      have "up_pre (expOf w1) n i"
        using d(1) c unfolding w1 up_pre_def down_pre_def by metis
      with up_ok [of w1 i n] s(1) i n' False w1 show ?thesis by (simp add: w2_def)
    qed
    with Pop_taken [of w2 n "wh_Swap i n w" w "whH w ! i"] s(2) d(2) n
    have "fst (wh_Pop w2) = whH w ! i \<and> taken (whH w ! i) w (snd (wh_Pop w2))"
      by (simp add: rearranged_def)
    then show ?thesis using n dn i by (simp add: heap_Remove_def Let_def w2_def)
  qed
qed

lemma Pop_least:
  assumes ok: "idx_ok w" and h: "heap_ok (expOf w) (length (whH w))" and l: "0 < length (whH w)"
  shows "fst (heap_Pop w) = whH w ! 0 \<and> taken (whH w ! 0) w (snd (heap_Pop w))"
proof -
  obtain n where n: "length (whH w) = Suc n" using l by (cases "length (whH w)") auto
  have s: "idx_ok (wh_Swap 0 n w)" "rearranged (Suc n) w (wh_Swap 0 n w)" using Swap_ok(1,2) [OF ok, of 0 "Suc n" n] n by simp_all
  obtain moved w1 where dn: "heap_down 0 n (wh_Swap 0 n w) = (moved, w1)" by (cases "heap_down 0 n (wh_Swap 0 n w)")
  have "idx_ok w1 \<and> rearranged n (wh_Swap 0 n w) w1 \<and> heap_ok (expOf w1) n"
  proof (cases "n = 0")
    case True
    then have "w1 = wh_Swap 0 n w" using dn by (simp add: heap_down.simps)
    with True s show ?thesis by (simp add: heap_ok_def)
  next
    case False
    with down_ok [OF s(1) _ _ swap_last(1) [OF ok h n, of 0] dn] n show ?thesis by simp
  qed
  moreover have "whH (wh_Swap 0 n w) ! n = whH w ! 0" using n by (simp add: wh_Swap_def Let_def)
  ultimately have "fst (wh_Pop w1) = whH w ! 0 \<and> taken (whH w ! 0) w (snd (wh_Pop w1))"
    using Pop_taken [of w1 n "wh_Swap 0 n w" w "whH w ! 0"] s(2) n by (simp add: rearranged_def)
  then show ?thesis using n dn by (simp add: heap_Pop_def Let_def)
qed

lemma root_least:
  assumes "heap_ok v n" and "p < n"
  shows "v 0 \<le> v p"
  using assms(2)
proof (induction p rule: less_induct)
  case (less p)
  show ?case
  proof (cases "p = 0")
    case False
    then have p: "parent p < p" using parent_less by simp
    with less.prems False have "v (parent p) \<le> v p" using assms(1) by (simp add: heap_ok_def)
    moreover have "v 0 \<le> v (parent p)" using less.IH [OF p] p less.prems by simp
    ultimately show ?thesis by simp
  qed simp
qed

lemma Push_ok:
  assumes ok: "idx_ok w" and h: "heap_ok (expOf w) (length (whH w))" and a: "a \<notin> set (whH w)"
  defines "w' \<equiv> heap_Push a w"
  shows "idx_ok w'" and "heap_ok (expOf w') (length (whH w'))" and "set (whH w') = insert a (set (whH w))"
    and "whIndex w' = whIndex w" and "whFresh w' = whFresh w"
    and "teKey (whMem w' b) = teKey (whMem w b)" and "teExpAt (whMem w' b) = teExpAt (whMem w b)"
proof -
  let ?n = "length (whH w)"
  define w1 where "w1 = wh_Push a w"
  have w1: "whH w1 = whH w @ [a]" "whIndex w1 = whIndex w" "whFresh w1 = whFresh w"
    "teKey (whMem w1 c) = teKey (whMem w c)" "teExpAt (whMem w1 c) = teExpAt (whMem w c)" for c
    by (simp_all add: w1_def wh_Push_def)
  have "teIndex (whMem w1 (whH w1 ! p)) = int p" if "p < length (whH w1)" for p
    using that ok a nth_mem [of p "whH w"] by (auto simp: idx_ok_def w1_def wh_Push_def nth_append less_Suc_eq)
  then have i1: "idx_ok w1" using ok a by (simp add: idx_ok_def w1(1))
  have "expOf w1 p = expOf w p" if "p < ?n" for p using that by (simp add: expOf_def w1 nth_append)
  then have up: "expOf w1 (parent p) \<le> expOf w1 p" if "0 < p" "p < ?n" for p
    using h that parent_less [of p] by (simp add: heap_ok_def)
  have "parent c \<noteq> ?n" if "0 < c" "c < Suc ?n" for c using parent_less [of c] that by simp
  with up have "up_pre (expOf w1) (Suc ?n) ?n" unfolding up_pre_def by (auto simp: less_Suc_eq)
  from up_ok [OF i1 _ _ this] have u: "idx_ok w'" "rearranged (Suc ?n) w1 w'" "heap_ok (expOf w') (Suc ?n)"
    by (simp_all add: w'_def heap_Push_def Let_def w1(1) flip: w1_def)
  show "idx_ok w'" by (rule u)
  show "heap_ok (expOf w') (length (whH w'))" using u(3) rearranged_length [OF u(2)] w1(1) by simp
  show "set (whH w') = insert a (set (whH w))"
    using u(2) w1(1) unfolding rearranged_def by (metis empty_set insert_is_Un list.simps(15) set_append set_mset_mset sup_commute)
  show "whIndex w' = whIndex w" "whFresh w' = whFresh w" "teKey (whMem w' b) = teKey (whMem w b)"
    "teExpAt (whMem w' b) = teExpAt (whMem w b)" using u(2) w1 by (simp_all add: rearranged_def)
qed

section \<open>The wheel is a map from keys to expiries\<close>

definition wh_ok :: "Wheel \<Rightarrow> bool" where
  "wh_ok w \<longleftrightarrow> idx_ok w \<and> heap_ok (expOf w) (length (whH w)) \<and>
     (\<forall>k a. map_of (whIndex w) k = Some a \<longleftrightarrow> a \<in> set (whH w) \<and> teKey (whMem w a) = k) \<and>
     (\<forall>a\<in>set (whH w). a < whFresh w)"

definition wh_abs :: "Wheel \<Rightarrow> key \<rightharpoonup> instant" where
  "wh_abs w k = map_option (\<lambda>a. teExpAt (whMem w a)) (map_of (whIndex w) k)"

lemma wh_New_ok: "wh_ok wh_New \<and> wh_abs wh_New = Map.empty"
  by (auto simp: wh_ok_def wh_New_def idx_ok_def heap_ok_def wh_abs_def)

text \<open>Taking an entry out and dropping its key from the map.\<close>

lemma taken_ok:
  assumes ok: "wh_ok w" and t: "taken a w w'" and a: "a \<in> set (whH w)" and k: "teKey (whMem w a) = k"
  defines "w2 \<equiv> w'\<lparr>whIndex := AList.delete k (whIndex w')\<rparr>"
  shows "wh_ok w2 \<and> wh_abs w2 = (wh_abs w)(k := None)"
proof -
  have i: "map_of (whIndex w) k' = Some b \<longleftrightarrow> b \<in> set (whH w) \<and> teKey (whMem w b) = k'" for k' b
    using ok by (simp add: wh_ok_def)
  have m: "mset (whH w) = add_mset a (mset (whH w'))" and d: "distinct (whH w)"
    using t ok by (simp_all add: taken_def wh_ok_def idx_ok_def)
  have "distinct (a # whH w')" using d m by (metis mset.simps(2) mset_eq_imp_distinct_iff)
  moreover have "set (whH w) = insert a (set (whH w'))" using m by (metis set_mset_add_mset_insert set_mset_mset)
  ultimately have s: "set (whH w') = set (whH w) - {a}" by auto
  have uniq: "b = a" if "b \<in> set (whH w)" "teKey (whMem w b) = k" for b
    using i [of k a] i [of k b] that a k by simp
  have "wh_ok w2"
    unfolding wh_ok_def
  proof (intro conjI)
    show "idx_ok w2" "heap_ok (expOf w2) (length (whH w2))" using t by (simp_all add: taken_def w2_def idx_ok_def expOf_def)
    show "\<forall>k' b. map_of (whIndex w2) k' = Some b \<longleftrightarrow> b \<in> set (whH w2) \<and> teKey (whMem w2 b) = k'"
      using t i s uniq k by (auto simp: taken_def w2_def map_of_delete_upd)
    show "\<forall>b\<in>set (whH w2). b < whFresh w2" using ok t s by (auto simp: w2_def taken_def wh_ok_def)
  qed
  moreover have "wh_abs w2 = (wh_abs w)(k := None)"
    using t by (auto simp: wh_abs_def w2_def taken_def map_of_delete_upd fun_eq_iff)
  ultimately show ?thesis by blast
qed

lemma unschedule_ok:
  assumes ok: "wh_ok w"
  shows "wh_ok (wh_unschedule k w) \<and> wh_abs (wh_unschedule k w) = (wh_abs w)(k := None)"
proof (cases "map_of (whIndex w) k")
  case None
  with ok show ?thesis by (auto simp: wh_unschedule_def wh_abs_def)
next
  case (Some a)
  then have a: "a \<in> set (whH w)" "teKey (whMem w a) = k" using ok by (auto simp: wh_ok_def)
  then obtain p where p: "p < length (whH w)" "whH w ! p = a" by (auto simp: in_set_conv_nth)
  with ok have "nat (teIndex (whMem w a)) = p" by (auto simp: wh_ok_def idx_ok_def)
  with Remove_taken [of w p] ok p have "taken a w (snd (heap_Remove (nat (teIndex (whMem w a))) w))"
    by (simp add: wh_ok_def)
  with taken_ok [OF ok this a] Some show ?thesis by (simp add: wh_unschedule_def taken_def)
qed

lemma Schedule_ok:
  assumes ok: "wh_ok w"
  shows "wh_ok (wh_Schedule now k ttl w) \<and>
    wh_abs (wh_Schedule now k ttl w) = (if ttl \<le> 0 then wh_abs w else (wh_abs w)(k \<mapsto> now + ttl))"
proof (cases "ttl \<le> 0")
  case True
  with ok show ?thesis by (simp add: wh_Schedule_def)
next
  case False
  define w1 where "w1 = wh_unschedule k w"
  have u: "wh_ok w1" "wh_abs w1 = (wh_abs w)(k := None)" using unschedule_ok [OF ok] by (simp_all add: w1_def)
  let ?a = "whFresh w1"
  define w2 where "w2 = w1\<lparr>whMem := (whMem w1)(?a := \<lparr>teKey = k, teExpAt = now + ttl, teIndex = 0\<rparr>), whFresh := ?a + 1\<rparr>"
  have a: "?a \<notin> set (whH w1)" using u(1) by (auto simp: wh_ok_def)
  have mem: "whMem w2 b = whMem w1 b" if "b \<in> set (whH w1)" for b using that a by (auto simp: w2_def)
  have "idx_ok w2" using u(1) mem nth_mem by (simp add: wh_ok_def idx_ok_def w2_def)
  moreover have "expOf w2 p = expOf w1 p" if "p < length (whH w1)" for p
    using mem [OF nth_mem [OF that]] by (simp add: expOf_def w2_def)
  then have "heap_ok (expOf w2) (length (whH w2))"
    using u(1) by (auto simp: wh_ok_def heap_ok_def w2_def)
  moreover have "?a \<notin> set (whH w2)" using a by (simp add: w2_def)
  ultimately have p: "idx_ok (heap_Push ?a w2)" "heap_ok (expOf (heap_Push ?a w2)) (length (whH (heap_Push ?a w2)))"
    "set (whH (heap_Push ?a w2)) = insert ?a (set (whH w1))" "whIndex (heap_Push ?a w2) = whIndex w1"
    "whFresh (heap_Push ?a w2) = Suc ?a" "\<And>b. teKey (whMem (heap_Push ?a w2) b) = teKey (whMem w2 b)"
    "\<And>b. teExpAt (whMem (heap_Push ?a w2) b) = teExpAt (whMem w2 b)"
    using Push_ok [of w2 ?a] by (simp_all add: w2_def)
  define w3 where "w3 = (heap_Push ?a w2)\<lparr>whIndex := AList.update k ?a (whIndex (heap_Push ?a w2)), whTrigger := True\<rparr>"
  have i: "map_of (whIndex w1) k' = Some b \<longleftrightarrow> b \<in> set (whH w1) \<and> teKey (whMem w1 b) = k'" for k' b
    using u(1) by (simp add: wh_ok_def)
  have none: "map_of (whIndex w1) k = None" using u(2) by (metis fun_upd_same option.map_disc_iff wh_abs_def)
  have new: "teKey (whMem w2 ?a) = k" "teExpAt (whMem w2 ?a) = now + ttl" by (simp_all add: w2_def)
  have "wh_ok w3"
    unfolding wh_ok_def
  proof (intro conjI)
    show "idx_ok w3" "heap_ok (expOf w3) (length (whH w3))" using p(1,2) by (simp_all add: w3_def idx_ok_def expOf_def)
    have "map_of (whIndex w3) k' = Some b \<longleftrightarrow> b \<in> set (whH w3) \<and> teKey (whMem w3 b) = k'" for k' b
    proof (cases "b = ?a")
      case True
      have "map_of (whIndex w1) k' \<noteq> Some ?a" using i a by blast
      with True show ?thesis by (simp add: w3_def p new map_of_update_upd)
    next
      case False
      have "map_of (whIndex w1) k \<noteq> Some b" using none by simp
      with False i [of k' b] i [of k b] mem [of b] show ?thesis by (auto simp: w3_def p map_of_update_upd)
    qed
    then show "\<forall>k' b. map_of (whIndex w3) k' = Some b \<longleftrightarrow> b \<in> set (whH w3) \<and> teKey (whMem w3 b) = k'" by blast
    show "\<forall>b\<in>set (whH w3). b < whFresh w3" using u(1) by (auto simp: w3_def p wh_ok_def)
  qed
  moreover have "wh_abs w3 = (wh_abs w)(k \<mapsto> now + ttl)"
  proof
    fix k'
    show "wh_abs w3 k' = ((wh_abs w)(k \<mapsto> now + ttl)) k'"
    proof (cases "k' = k")
      case True
      then show ?thesis by (simp add: wh_abs_def w3_def p new map_of_update_upd)
    next
      case False
      have "wh_abs w1 k' = wh_abs w k'" using u(2) False by simp
      moreover have "wh_abs w3 k' = wh_abs w1 k'"
      proof (cases "map_of (whIndex w1) k'")
        case None
        with False show ?thesis by (simp add: wh_abs_def w3_def p map_of_update_upd)
      next
        case (Some b)
        then have "whMem w2 b = whMem w1 b" using i by (intro mem) blast
        with Some False show ?thesis by (simp add: wh_abs_def w3_def p map_of_update_upd)
      qed
      ultimately show ?thesis using False by simp
    qed
  qed
  moreover have "wh_Schedule now k ttl w = w3"
    using False by (simp add: wh_Schedule_def wh_insert_def wh_signal_def Let_def w3_def w2_def flip: w1_def)
  ultimately show ?thesis using False by simp
qed

lemma fire_ok:
  "wh_ok w \<Longrightarrow> wh_fire now w = (ks, w') \<Longrightarrow>
   wh_ok w' \<and> wh_abs w' = (\<lambda>k. case wh_abs w k of Some t \<Rightarrow> if t \<le> now then None else Some t | None \<Rightarrow> None) \<and>
   distinct ks \<and> set ks = {k. \<exists>t. wh_abs w k = Some t \<and> t \<le> now} \<and> sorted (map (\<lambda>k. the (wh_abs w k)) ks)"
proof (induction now w arbitrary: ks w' rule: wh_fire.induct)
  case (1 now w)
  have ok: "idx_ok w" "heap_ok (expOf w) (length (whH w))" using 1(2) by (simp_all add: wh_ok_def)
  have i: "map_of (whIndex w) k = Some b \<longleftrightarrow> b \<in> set (whH w) \<and> teKey (whMem w b) = k" for k b
    using 1(2) by (simp add: wh_ok_def)
  have least: "expOf w 0 \<le> t" if "wh_abs w k = Some t" for k t
  proof -
    from that obtain b where "b \<in> set (whH w)" "t = teExpAt (whMem w b)" by (auto simp: wh_abs_def i)
    then obtain p where "p < length (whH w)" "t = expOf w p" by (auto simp: in_set_conv_nth expOf_def)
    with root_least [OF ok(2)] show ?thesis by simp
  qed
  show ?case
  proof (cases "0 < length (whH w) \<and> expOf w 0 \<le> now")
    case False
    then have r: "ks = []" "w' = w" using 1(3) by (simp_all add: wh_fire.simps [of now w] split: if_splits)
    have "\<not> t \<le> now" if "wh_abs w k = Some t" for k t
    proof -
      from that have "0 < length (whH w)" by (auto simp: wh_abs_def i)
      with False least [OF that] show ?thesis by simp
    qed
    with r 1(2) show ?thesis by (auto simp: fun_eq_iff split: option.splits)
  next
    case True
    let ?a = "whH w ! 0" and ?k = "teKey (whMem w (whH w ! 0))"
    obtain a w1 where pop: "heap_Pop w = (a, w1)" by (cases "heap_Pop w")
    have a: "a = ?a" and t: "taken ?a w w1" using Pop_least [OF ok] True pop by simp_all
    have mem: "?a \<in> set (whH w)" using True by simp
    have k: "teKey (whMem w1 a) = ?k" using t a by (simp add: taken_def)
    let ?w = "w1\<lparr>whIndex := AList.delete ?k (whIndex w1)\<rparr>"
    note ok' = taken_ok [OF 1(2) t mem refl]
    obtain ks1 w2 where f: "wh_fire now ?w = (ks1, w2)" by (cases "wh_fire now ?w")
    have r: "ks = ?k # ks1" "w' = w2" using 1(3) True pop k f by (simp_all add: wh_fire.simps [of now w] Let_def)
    note ih = 1(1) [OF True pop [symmetric] refl k [symmetric], OF ok' [THEN conjunct1] f]
    have at: "wh_abs w ?k = Some (expOf w 0)" using i [of ?k ?a] mem by (simp add: wh_abs_def expOf_def)
    have abs: "wh_abs ?w = (wh_abs w)(?k := None)" using ok' by blast
    have "set ks = {k. \<exists>t. wh_abs w k = Some t \<and> t \<le> now}"
      using ih at True unfolding r(1) abs by (auto split: if_splits)
    moreover have "?k \<notin> set ks1" using ih unfolding abs by auto
    moreover from this have "map (\<lambda>k. the (wh_abs ?w k)) ks1 = map (\<lambda>k. the (wh_abs w k)) ks1"
      unfolding abs by (intro map_cong) auto
    moreover have "sorted (map (\<lambda>k. the (wh_abs w k)) ks)"
    proof -
      have "sorted (map (\<lambda>k. the (wh_abs w k)) ks1)"
        using ih calculation(3) by simp
      moreover have "expOf w 0 \<le> the (wh_abs w k)" if "k \<in> set ks1" for k
      proof -
        from that ih obtain t where "wh_abs w k = Some t" unfolding abs by (auto split: if_splits)
        with least show ?thesis by auto
      qed
      ultimately show ?thesis using at by (simp add: r(1))
    qed
    moreover have "wh_abs w2 = (\<lambda>k. case wh_abs w k of Some t \<Rightarrow> if t \<le> now then None else Some t | None \<Rightarrow> None)"
      using ih at True unfolding abs by (auto simp: fun_eq_iff)
    ultimately show ?thesis using ih r by simp
  qed
qed

section \<open>Properties\<close>

datatype wheelOp = WSchedule instant key duration | WCancel key | WFire instant

fun wheel_step :: "Wheel \<Rightarrow> wheelOp \<Rightarrow> Wheel" where
  "wheel_step w (WSchedule now k ttl) = wh_Schedule now k ttl w"
| "wheel_step w (WCancel k) = wh_Cancel k w"
| "wheel_step w (WFire now) = snd (wh_fire now w)"

text \<open>The abstract wheel: a non-positive TTL leaves an earlier one in force.\<close>

fun wheel_spec :: "(key \<rightharpoonup> instant) \<Rightarrow> wheelOp \<Rightarrow> (key \<rightharpoonup> instant)" where
  "wheel_spec m (WSchedule now k ttl) = (if ttl \<le> 0 then m else m(k \<mapsto> now + ttl))"
| "wheel_spec m (WCancel k) = m(k := None)"
| "wheel_spec m (WFire now) = (\<lambda>k. case m k of Some t \<Rightarrow> if t \<le> now then None else Some t | None \<Rightarrow> None)"

lemma wheel_step_ok:
  "wh_ok w \<Longrightarrow> wh_ok (wheel_step w x) \<and> wh_abs (wheel_step w x) = wheel_spec (wh_abs w) x"
proof (cases x)
  case (WFire now)
  assume ok: "wh_ok w"
  obtain ks w' where "wh_fire now w = (ks, w')" by (cases "wh_fire now w")
  with fire_ok [OF ok this] WFire show ?thesis by simp
qed (auto simp: Schedule_ok unschedule_ok wh_Cancel_def)

lemma wheel_run_ok:
  "wh_ok w \<Longrightarrow> wh_ok (foldl wheel_step w xs) \<and> wh_abs (foldl wheel_step w xs) = foldl wheel_spec (wh_abs w) xs"
proof (induction xs arbitrary: w)
  case Nil
  then show ?case by simp
next
  case (Cons x xs)
  from wheel_step_ok [OF Cons.prems, of x] Cons.IH [of "wheel_step w x"] show ?case by simp
qed

text \<open>
  C27: after any calls of \<open>Schedule\<close> and \<open>Cancel\<close> and any firings, the timer expires exactly the keys
  whose scheduled time has come, each once and in the order of their times.
\<close>

theorem wheel_fires_due:
  "let m = foldl wheel_spec Map.empty xs; ks = fst (wh_fire now (foldl wheel_step wh_New xs))
   in distinct ks \<and> set ks = {k. \<exists>t. m k = Some t \<and> t \<le> now} \<and> sorted (map (\<lambda>k. the (m k)) ks)"
proof -
  obtain ks w' where f: "wh_fire now (foldl wheel_step wh_New xs) = (ks, w')"
    by (cases "wh_fire now (foldl wheel_step wh_New xs)")
  have "wh_ok (foldl wheel_step wh_New xs)" "wh_abs (foldl wheel_step wh_New xs) = foldl wheel_spec Map.empty xs"
    using wheel_run_ok [of wh_New xs] wh_New_ok by simp_all
  with fire_ok [OF this(1) f] f show ?thesis by (simp add: Let_def)
qed

text \<open>
  the goroutine wakes in time: with a key scheduled it does not sleep past that key's time, and
  when it wakes there is a key to expire.
\<close>

theorem wheel_wakes_in_time:
  assumes "foldl wheel_spec Map.empty xs k = Some t"
  shows "let w = foldl wheel_step wh_New xs; d = wh_nextDur now w
    in 0 \<le> d \<and> now + d \<le> max now t \<and> fst (wh_fire (now + d) w) \<noteq> []"
proof -
  let ?w = "foldl wheel_step wh_New xs"
  let ?d = "wh_nextDur now ?w"
  have ok: "wh_ok ?w" and abs: "wh_abs ?w = foldl wheel_spec Map.empty xs"
    using wheel_run_ok [of wh_New xs] wh_New_ok by simp_all
  from assms obtain a where a: "map_of (whIndex ?w) k = Some a" "t = teExpAt (whMem ?w a)"
    by (auto simp: wh_abs_def simp flip: abs)
  with ok have "a \<in> set (whH ?w)" by (simp add: wh_ok_def)
  then obtain p where p: "p < length (whH ?w)" "t = expOf ?w p" using a(2) by (auto simp: in_set_conv_nth expOf_def)
  have "heap_ok (expOf ?w) (length (whH ?w))" using ok by (simp add: wh_ok_def)
  from root_least [OF this p(1)] have le: "expOf ?w 0 \<le> t" by (simp add: p(2))
  have l: "0 < length (whH ?w)" by (rule le_less_trans [OF le0 p(1)])
  then have d: "?d = max 0 (expOf ?w 0 - now)" by (simp add: wh_nextDur_def Let_def max_def)
  then have "expOf ?w 0 \<le> now + ?d" by simp
  with l have "fst (wh_fire (now + ?d) ?w) \<noteq> []"
    by (subst wh_fire.simps) (simp add: Let_def split: prod.splits)
  with d le show ?thesis by (simp add: Let_def)
qed

lemma wheel_wakes_in_time_witness:
  "let w = foldl wheel_step wh_New [WSchedule 0 ''a'' 50, WSchedule 3 ''b'' 9, WCancel ''b'']; d = wh_nextDur 7 w
   in 0 \<le> d \<and> 7 + d \<le> max 7 50 \<and> fst (wh_fire (7 + d) w) \<noteq> []"
  by (rule wheel_wakes_in_time [where k = "''a''"]) simp

end
