(* ===== verification/Wheel_Goroutine.thy ===== *)
theory Wheel_Goroutine
  imports TTL_Wheel
begin

text \<open>
  The goroutine of the TTL wheel (\<open>run\<close> in internal/ttl/wheel.go) with its clients: a step relation on the
  wheel, the clock, the timer, the channel \<open>trigger\<close> (a buffer of one, \<open>whTrigger\<close>) and the place where the goroutine is. What happens under
  the lock is one step; between two steps of the goroutine any client may go on, also between
  the critical section of \<open>Schedule\<close> and its signal. \<open>select\<close> takes any branch that is ready. The timer is
  that of Go since 1.23: after \<open>Stop\<close> and \<open>Reset\<close> no earlier value is left in its channel.
\<close>

section \<open>The goroutine\<close>

datatype goPhase =
  Looking
| Arming instant duration
| Selecting instant instant
| Expiring "key list"
| Returned

text \<open>
  \<open>gsSignals\<close> counts the calls of \<open>Schedule\<close> that have left the lock and not signalled yet. \<open>Arming\<close> remembers when
  the goroutine looked at the heap and for how long it is to sleep, \<open>Selecting\<close> when it looked and when it set the timer to \<open>gsTimer\<close>,
  \<open>Expiring\<close> the keys whose callback is still to come.
\<close>

record goState =
  gsWheel :: Wheel
  gsClock :: instant
  gsTimer :: instant
  gsPhase :: goPhase
  gsSignals :: nat

definition go_New :: "instant \<Rightarrow> goState" where
  "go_New now = \<lparr>gsWheel = wh_New, gsClock = now, gsTimer = now + 3600000000000, gsPhase = Looking, gsSignals = 0\<rparr>"

datatype goEvent =
  Passed duration
| Inserted instant key duration
| Signalled
| Cancelled key
| Closed
| Looked
| Armed
| Woken
| Fired instant "key list"
| Called key
| Ended

inductive go_step :: "goState \<Rightarrow> goEvent \<Rightarrow> goState \<Rightarrow> bool" where
  passed: "0 \<le> d \<Longrightarrow> go_step s (Passed d) (s\<lparr>gsClock := gsClock s + d\<rparr>)"
| inserted: "0 < ttl \<Longrightarrow> now \<le> gsClock s \<Longrightarrow>
    go_step s (Inserted now k ttl) (s\<lparr>gsWheel := wh_insert now k ttl (gsWheel s), gsSignals := Suc (gsSignals s)\<rparr>)"
| signalled: "gsSignals s = Suc n \<Longrightarrow> go_step s Signalled (s\<lparr>gsWheel := wh_signal (gsWheel s), gsSignals := n\<rparr>)"
| cancelled: "go_step s (Cancelled k) (s\<lparr>gsWheel := wh_Cancel k (gsWheel s)\<rparr>)"
| closed: "wh_Stop (gsWheel s) = Some w \<Longrightarrow> go_step s Closed (s\<lparr>gsWheel := w\<rparr>)"
| looked: "gsPhase s = Looking \<Longrightarrow>
    go_step s Looked (s\<lparr>gsPhase := Arming (gsClock s) (wh_nextDur (gsClock s) (gsWheel s))\<rparr>)"
| armed: "gsPhase s = Arming look d \<Longrightarrow> go_step s Armed (s\<lparr>gsTimer := gsClock s + d, gsPhase := Selecting look (gsClock s)\<rparr>)"
| woken: "gsPhase s = Selecting look arm \<Longrightarrow> whTrigger (gsWheel s) \<Longrightarrow>
    go_step s Woken (s\<lparr>gsWheel := (gsWheel s)\<lparr>whTrigger := False\<rparr>, gsPhase := Looking\<rparr>)"
| fired: "gsPhase s = Selecting look arm \<Longrightarrow> gsTimer s \<le> now \<Longrightarrow> now \<le> gsClock s \<Longrightarrow> wh_fire now (gsWheel s) = (ks, w) \<Longrightarrow>
    go_step s (Fired now ks) (s\<lparr>gsWheel := w, gsPhase := (if ks = [] then Looking else Expiring ks)\<rparr>)"
| called: "gsPhase s = Expiring (k # ks) \<Longrightarrow>
    go_step s (Called k) (s\<lparr>gsPhase := (if ks = [] then Looking else Expiring ks)\<rparr>)"
| ended: "gsPhase s = Selecting look arm \<Longrightarrow> whStopped (gsWheel s) \<Longrightarrow> go_step s Ended (s\<lparr>gsPhase := Returned\<rparr>)"

inductive go_run :: "goState \<Rightarrow> goEvent list \<Rightarrow> goState \<Rightarrow> bool" where
  start: "go_run s [] s"
| snoc: "go_run s xs s' \<Longrightarrow> go_step s' x s'' \<Longrightarrow> go_run s (xs @ [x]) s''"

inductive_cases go_stepE: "go_step s x s'"
inductive_simps go_step_simps: "go_step s (Fired now ks) s'" "go_step s (Called k) s'"

section \<open>What a step leaves alone\<close>

lemma trigger_Swap [simp]: "whTrigger (wh_Swap i j w) = whTrigger w"
  by (simp add: wh_Swap_def Let_def)

lemma trigger_up [simp]: "whTrigger (heap_up j w) = whTrigger w"
  by (induction j w rule: heap_up.induct) (subst heap_up.simps, simp add: Let_def)

lemma trigger_down [simp]: "whTrigger (snd (heap_down i n w)) = whTrigger w"
  by (induction i n w rule: heap_down.induct) (subst heap_down.simps, simp add: Let_def)

lemma trigger_Remove [simp]: "whTrigger (snd (heap_Remove i w)) = whTrigger w"
proof -
  let ?n = "length (whH w) - 1"
  obtain b w1 where d: "heap_down i ?n (wh_Swap i ?n w) = (b, w1)" by fastforce
  then have "whTrigger w1 = whTrigger w" using trigger_down [of i ?n "wh_Swap i ?n w"] by simp
  with d show ?thesis by (simp add: heap_Remove_def wh_Pop_def Let_def)
qed

lemma trigger_unschedule [simp]: "whTrigger (wh_unschedule k w) = whTrigger w"
  by (simp add: wh_unschedule_def split: option.split)

lemma trigger_insert [simp]: "whTrigger (wh_insert now k ttl w) = whTrigger w"
  by (simp add: wh_insert_def heap_Push_def wh_Push_def Let_def)

lemma trigger_Pop [simp]: "whTrigger (snd (heap_Pop w)) = whTrigger w"
  by (simp add: heap_Pop_def wh_Pop_def Let_def)

lemma trigger_fire: "whTrigger (snd (wh_fire now w)) = whTrigger w"
proof (induction now w rule: wh_fire.induct)
  case (1 now w)
  obtain a w1 where p: "heap_Pop w = (a, w1)" by fastforce
  then have t: "whTrigger w1 = whTrigger w" using trigger_Pop [of w] by simp
  show ?case
  proof (cases "0 < length (whH w) \<and> expOf w 0 \<le> now")
    case True
    from 1 [OF True p [symmetric] refl refl] True p t show ?thesis by (subst wh_fire.simps) (auto simp: Let_def split: prod.splits)
  next
    case False
    then have "wh_fire now w = ([], w)" by (subst wh_fire.simps) auto
    then show ?thesis by simp
  qed
qed

lemma expOf_frame [simp]: "expOf (w\<lparr>whTrigger := b\<rparr>) = expOf w" "expOf (w\<lparr>whStopped := b\<rparr>) = expOf w"
  by (simp_all add: expOf_def fun_eq_iff)

lemma ok_trigger [simp]: "wh_ok (w\<lparr>whTrigger := b\<rparr>) = wh_ok w" "wh_abs (w\<lparr>whTrigger := b\<rparr>) = wh_abs w"
  by (simp_all add: wh_ok_def wh_abs_def idx_ok_def fun_eq_iff)

lemma ok_stopped [simp]: "wh_ok (w\<lparr>whStopped := b\<rparr>) = wh_ok w" "wh_abs (w\<lparr>whStopped := b\<rparr>) = wh_abs w"
  by (simp_all add: wh_ok_def wh_abs_def idx_ok_def fun_eq_iff)

lemma insert_ok:
  assumes "wh_ok w" and "0 < ttl"
  shows "wh_ok (wh_insert now k ttl w) \<and> wh_abs (wh_insert now k ttl w) = (wh_abs w)(k \<mapsto> now + ttl)"
  using Schedule_ok [OF assms(1), of now k ttl] assms(2) by (simp add: wh_Schedule_def wh_signal_def)


lemma nextDur_ok:
  assumes "wh_ok w"
  shows "0 \<le> wh_nextDur now w" "wh_abs w k = Some t \<Longrightarrow> wh_nextDur now w \<le> max 0 (t - now)"
proof -
  show "0 \<le> wh_nextDur now w" by (simp add: wh_nextDur_def Let_def)
  assume "wh_abs w k = Some t"
  then obtain a where a: "map_of (whIndex w) k = Some a" "t = teExpAt (whMem w a)" by (auto simp: wh_abs_def)
  with assms have "a \<in> set (whH w)" by (simp add: wh_ok_def)
  then obtain p where p: "p < length (whH w)" "t = expOf w p" using a(2) by (auto simp: in_set_conv_nth expOf_def)
  have "heap_ok (expOf w) (length (whH w))" using assms by (simp add: wh_ok_def)
  from root_least [OF this p(1)] p show "wh_nextDur now w \<le> max 0 (t - now)" by (auto simp: wh_nextDur_def Let_def)
qed

section \<open>The schedule\<close>

text \<open>What the events so far have scheduled, as \<open>wheel_spec\<close> has it\<close>

fun go_spec :: "(key \<rightharpoonup> instant) \<Rightarrow> goEvent \<Rightarrow> (key \<rightharpoonup> instant)" where
  "go_spec m (Inserted now k ttl) = wheel_spec m (WSchedule now k ttl)"
| "go_spec m (Cancelled k) = wheel_spec m (WCancel k)"
| "go_spec m (Fired now ks) = wheel_spec m (WFire now)"
| "go_spec m _ = m"

definition scheduled :: "goEvent list \<Rightarrow> key \<rightharpoonup> instant" where
  "scheduled xs = foldl go_spec Map.empty xs"

lemma scheduled_simps [simp]: "scheduled [] = Map.empty" "scheduled (xs @ [x]) = go_spec (scheduled xs) x"
  by (simp_all add: scheduled_def)

lemma go_step_ok:
  assumes "go_step s x s'" and "wh_ok (gsWheel s)"
  shows "wh_ok (gsWheel s') \<and> wh_abs (gsWheel s') = go_spec (wh_abs (gsWheel s)) x"
  using assms(1)
proof cases
  case (inserted ttl now k)
  with insert_ok [OF assms(2), of ttl now k] show ?thesis by simp
next
  case (cancelled k)
  with unschedule_ok [OF assms(2), of k] show ?thesis by (simp add: wh_Cancel_def)
next
  case (fired look arm now ks w)
  with fire_ok [OF assms(2) fired(6)] show ?thesis by simp
next
  case (closed w)
  then have "w = (gsWheel s)\<lparr>whStopped := True\<rparr>" by (simp add: wh_Stop_def split: if_splits)
  with closed assms(2) show ?thesis by simp
qed (use assms(2) in \<open>simp_all add: wh_signal_def\<close>)

lemma go_run_ok: "go_run (go_New t0) xs s \<Longrightarrow> wh_ok (gsWheel s) \<and> wh_abs (gsWheel s) = scheduled xs"
proof (induction "go_New t0" xs s rule: go_run.induct)
  case start
  then show ?case using wh_New_ok by (simp add: go_New_def)
next
  case (snoc xs s' x s'')
  with go_step_ok [OF snoc(3)] show ?case by simp
qed

section \<open>The goroutine does not oversleep\<close>

definition roused :: "goState \<Rightarrow> bool" where
  "roused s \<longleftrightarrow> whTrigger (gsWheel s) \<or> 0 < gsSignals s"

definition alert :: "goState \<Rightarrow> bool" where
  "alert s \<longleftrightarrow>
     (case gsPhase s of
        Arming look d \<Rightarrow> 0 \<le> d \<and> (roused s \<or> (\<forall>k t. wh_abs (gsWheel s) k = Some t \<longrightarrow> d \<le> max 0 (t - look)))
      | Selecting look arm \<Rightarrow> roused s \<or> (\<forall>k t. wh_abs (gsWheel s) k = Some t \<longrightarrow> gsTimer s \<le> arm + max 0 (t - look))
      | _ \<Rightarrow> True)"

lemma step_alert:
  assumes "go_step s x s'" and "wh_ok (gsWheel s)" and "alert s"
  shows "alert s'"
  using assms(1)
proof cases
  case (cancelled k)
  have "wh_abs (wh_Cancel k (gsWheel s)) = (wh_abs (gsWheel s))(k := None)" "whTrigger (wh_Cancel k (gsWheel s)) = whTrigger (gsWheel s)"
    using unschedule_ok [OF assms(2), of k] by (simp_all add: wh_Cancel_def)
  with assms(3) cancelled show ?thesis by (auto simp: alert_def roused_def split: goPhase.splits)
next
  case (closed w)
  then have "w = (gsWheel s)\<lparr>whStopped := True\<rparr>" by (simp add: wh_Stop_def split: if_splits)
  with assms(3) closed show ?thesis by (auto simp: alert_def roused_def split: goPhase.splits)
next
  case looked
  then show ?thesis using nextDur_ok [OF assms(2)] by (auto simp: alert_def)
qed (use assms(3) in \<open>auto simp: alert_def roused_def wh_signal_def split: goPhase.splits\<close>)

lemma run_alert: "go_run (go_New t0) xs s \<Longrightarrow> alert s"
proof (induction "go_New t0" xs s rule: go_run.induct)
  case start
  then show ?case by (simp add: go_New_def alert_def)
next
  case (snoc xs s' x s'')
  with step_alert [OF snoc(3)] go_run_ok [OF snoc(1)] show ?case by blast
qed

text \<open>
  C28: No wake-up is lost: whenever the goroutine waits, and whatever its clients did between its look at the heap and its setting of the timer
  or since, the timer fires by the time of every scheduled key, later only by as long as the goroutine took to set it, or a
  signal is in the channel or about to be sent.
\<close>

theorem wheel_never_oversleeps:
  assumes "go_run (go_New t0) xs s" and "gsPhase s = Selecting look arm" and "scheduled xs k = Some t"
  shows "gsTimer s \<le> max look t + (arm - look) \<or> whTrigger (gsWheel s) \<or> 0 < gsSignals s"
proof -
  have "roused s \<or> gsTimer s \<le> arm + max 0 (t - look)"
    using run_alert [OF assms(1)] go_run_ok [OF assms(1)] assms(2,3) by (auto simp: alert_def)
  then show ?thesis by (auto simp: roused_def max_def split: if_splits)
qed

section \<open>Due keys are expired\<close>

definition leaves :: "key \<Rightarrow> goEvent \<Rightarrow> bool" where
  "leaves k x = (case x of Inserted now k' ttl \<Rightarrow> k' \<noteq> k | Cancelled k' \<Rightarrow> k' \<noteq> k | _ \<Rightarrow> True)"

definition expires :: "key \<Rightarrow> goEvent \<Rightarrow> bool" where
  "expires k x = (case x of Fired now ks \<Rightarrow> k \<in> set ks | _ \<Rightarrow> False)"

definition wakes :: "goEvent list \<Rightarrow> nat" where
  "wakes xs = length (filter (\<lambda>x. case x of Woken \<Rightarrow> True | Fired now ks \<Rightarrow> True | _ \<Rightarrow> False) xs)"

definition signals :: "goEvent list \<Rightarrow> nat" where
  "signals xs = length (filter (\<lambda>x. x = Signalled) xs)"

lemma wakes_simps [simp]: "wakes [] = 0" "wakes (xs @ [x]) = wakes xs + (case x of Woken \<Rightarrow> 1 | Fired now ks \<Rightarrow> 1 | _ \<Rightarrow> 0)"
  by (simp_all add: wakes_def split: goEvent.split)

lemma signals_simps [simp]: "signals [] = 0" "signals (xs @ [x]) = signals xs + (if x = Signalled then 1 else 0)"
  by (simp_all add: signals_def)

text \<open>How often the goroutine can still wake before a key that is due at \<open>t\<close> is expired\<close>

definition wakesLeft :: "instant \<Rightarrow> goState \<Rightarrow> nat" where
  "wakesLeft t s = (if whTrigger (gsWheel s) then 1 else 0) +
     (case gsPhase s of Selecting look arm \<Rightarrow> if t \<le> gsTimer s then 1 else 2 | _ \<Rightarrow> 1)"

lemma step_wakes:
  assumes "go_step s x s'" and "wh_ok (gsWheel s)" and "alert s" and "wh_abs (gsWheel s) k = Some t" and "t \<le> gsClock s"
    and "leaves k x" and "\<not> expires k x"
  shows "wh_abs (gsWheel s') k = Some t \<and> t \<le> gsClock s' \<and>
    wakesLeft t s' + wakes [x] \<le> wakesLeft t s + signals [x]"
  using assms(1)
proof cases
  case (inserted ttl now k')
  with insert_ok [OF assms(2), of ttl now k'] assms(4-) show ?thesis by (auto simp: leaves_def wakesLeft_def wakes_def)
next
  case (cancelled k')
  with unschedule_ok [OF assms(2), of k'] assms(4-) show ?thesis by (auto simp: wh_Cancel_def leaves_def wakesLeft_def wakes_def)
next
  case (closed w)
  then have "w = (gsWheel s)\<lparr>whStopped := True\<rparr>" by (simp add: wh_Stop_def split: if_splits)
  with closed assms(4,5) show ?thesis by (simp add: wakesLeft_def wakes_def)
next
  case (fired look arm now ks w)
  note f = fire_ok [OF assms(2) fired(6)]
  have "k \<notin> set ks" using assms(7) fired(1) by (simp add: expires_def)
  then have "now < t" using f assms(4) by auto
  moreover have "whTrigger w = whTrigger (gsWheel s)" using trigger_fire [of now "gsWheel s"] fired(6) by simp
  ultimately show ?thesis using fired assms(4,5) f by (auto simp: wakesLeft_def wakes_def)
next
  case (armed look d)
  moreover have "0 \<le> d" using assms(3) armed by (simp add: alert_def)
  ultimately show ?thesis using assms(4,5) by (simp add: wakesLeft_def wakes_def)
qed (use assms(4,5) in \<open>auto simp: wakesLeft_def wakes_def signals_def wh_signal_def split: goPhase.splits\<close>)

lemma run_wakes:
  assumes "go_run s ys s'" and "wh_ok (gsWheel s)" and "alert s" and "wh_abs (gsWheel s) k = Some t" and "t \<le> gsClock s"
    and "list_all (leaves k) ys" and "\<not> list_ex (expires k) ys"
  shows "wh_ok (gsWheel s') \<and> alert s' \<and> wh_abs (gsWheel s') k = Some t \<and> t \<le> gsClock s' \<and>
    wakesLeft t s' + wakes ys \<le> wakesLeft t s + signals ys"
  using assms
proof (induction rule: go_run.induct)
  case (snoc s ys s1 x s2)
  then have ih: "wh_ok (gsWheel s1)" "alert s1" "wh_abs (gsWheel s1) k = Some t" "t \<le> gsClock s1"
    "wakesLeft t s1 + wakes ys \<le> wakesLeft t s + signals ys" by simp_all
  have "leaves k x" "\<not> expires k x" using snoc.prems by simp_all
  from step_wakes [OF snoc.hyps(2) ih(1-4) this] go_step_ok [OF snoc.hyps(2) ih(1)] step_alert [OF snoc.hyps(2) ih(1,2)] ih(5)
  show ?case by (simp add: wakes_def signals_def)
qed simp

text \<open>
  C29: A key that is due is expired: once the goroutine has woken three times more than clients have signalled, whatever branch each
  \<open>select\<close> took and whatever the clients did meanwhile, unless one of them cancelled or rescheduled this very key.
\<close>

theorem wheel_expires:
  assumes "go_run (go_New t0) xs s" and "scheduled xs k = Some t" and "t \<le> gsClock s"
    and "go_run s ys s'" and "list_all (leaves k) ys" and "signals ys + 2 < wakes ys"
  shows "list_ex (expires k) ys"
proof (rule ccontr)
  assume no: "\<not> list_ex (expires k) ys"
  have "wh_ok (gsWheel s)" "wh_abs (gsWheel s) k = Some t" using go_run_ok [OF assms(1)] assms(2) by simp_all
  from run_wakes [OF assms(4) this(1) run_alert [OF assms(1)] this(2) assms(3,5) no]
  have "wakesLeft t s' + wakes ys \<le> wakesLeft t s + signals ys" by simp
  moreover have "wakesLeft t s \<le> 3" "1 \<le> wakesLeft t s'" by (simp_all add: wakesLeft_def split: goPhase.split)
  ultimately show False using assms(6) by simp
qed

section \<open>The callbacks\<close>

definition callbacks :: "goEvent list \<Rightarrow> key list" where
  "callbacks xs = concat (map (\<lambda>x. case x of Called k \<Rightarrow> [k] | _ \<Rightarrow> []) xs)"

definition expiredKeys :: "goEvent list \<Rightarrow> key list" where
  "expiredKeys xs = concat (map (\<lambda>x. case x of Fired now ks \<Rightarrow> ks | _ \<Rightarrow> []) xs)"

definition toCall :: "goState \<Rightarrow> key list" where
  "toCall s = (case gsPhase s of Expiring ks \<Rightarrow> ks | _ \<Rightarrow> [])"

lemma step_calls: "go_step s x s' \<Longrightarrow> callbacks [x] @ toCall s' = toCall s @ expiredKeys [x]"
  by (erule go_stepE) (auto simp: callbacks_def expiredKeys_def toCall_def split: goPhase.splits)

text \<open>
  The callback is called once for each key that a firing took out, in the order of the firings, and a firing
  takes out exactly the keys that were due by its clock: those and no others.
\<close>

theorem wheel_calls_back:
  assumes "go_run (go_New t0) xs s"
  shows "callbacks xs @ toCall s = expiredKeys xs \<and>
    (\<forall>ys now ks zs. xs = ys @ Fired now ks # zs \<longrightarrow> distinct ks \<and> set ks = {k. \<exists>t. scheduled ys k = Some t \<and> t \<le> now})"
  using assms
proof (induction "go_New t0" xs s rule: go_run.induct)
  case start
  then show ?case by (simp add: callbacks_def expiredKeys_def toCall_def go_New_def)
next
  case (snoc xs s' x s'')
  have c: "callbacks (xs @ [x]) = callbacks xs @ callbacks [x]" "expiredKeys (xs @ [x]) = expiredKeys xs @ expiredKeys [x]"
    by (simp_all add: callbacks_def expiredKeys_def)
  have "callbacks (xs @ [x]) @ toCall s'' = expiredKeys (xs @ [x])"
    unfolding c using step_calls [OF snoc(3)] snoc(2) by (metis append.assoc)
  moreover have "distinct ks \<and> set ks = {k. \<exists>t. scheduled ys k = Some t \<and> t \<le> now}" if e: "xs @ [x] = ys @ Fired now ks # zs" for ys now ks zs
  proof (cases zs rule: rev_cases)
    case Nil
    with e have x: "ys = xs" "x = Fired now ks" by simp_all
    with snoc(3) obtain w where "wh_fire now (gsWheel s') = (ks, w)" by (auto elim: go_stepE)
    from fire_ok [OF _ this] go_run_ok [OF snoc(1)] show ?thesis by (simp add: x(1))
  next
    case (snoc zs' z)
    with e have "xs = ys @ Fired now ks # zs'" by simp
    with \<open>callbacks xs @ toCall s' = expiredKeys xs \<and> _\<close> show ?thesis by blast
  qed
  ultimately show ?case by blast
qed

section \<open>Runs\<close>

text \<open>The step relation as a function: the state after an event that is possible\<close>

definition go_exec :: "goEvent \<Rightarrow> goState \<Rightarrow> goState option" where
  "go_exec x s =
     (case x of
        Passed d \<Rightarrow> if 0 \<le> d then Some (s\<lparr>gsClock := gsClock s + d\<rparr>) else None
      | Inserted now k ttl \<Rightarrow>
          if 0 < ttl \<and> now \<le> gsClock s
          then Some (s\<lparr>gsWheel := wh_insert now k ttl (gsWheel s), gsSignals := Suc (gsSignals s)\<rparr>) else None
      | Signalled \<Rightarrow>
          (case gsSignals s of 0 \<Rightarrow> None | Suc n \<Rightarrow> Some (s\<lparr>gsWheel := wh_signal (gsWheel s), gsSignals := n\<rparr>))
      | Cancelled k \<Rightarrow> Some (s\<lparr>gsWheel := wh_Cancel k (gsWheel s)\<rparr>)
      | Closed \<Rightarrow> map_option (\<lambda>w. s\<lparr>gsWheel := w\<rparr>) (wh_Stop (gsWheel s))
      | Looked \<Rightarrow>
          (case gsPhase s of
             Looking \<Rightarrow> Some (s\<lparr>gsPhase := Arming (gsClock s) (wh_nextDur (gsClock s) (gsWheel s))\<rparr>) | _ \<Rightarrow> None)
      | Armed \<Rightarrow>
          (case gsPhase s of
             Arming look d \<Rightarrow> Some (s\<lparr>gsTimer := gsClock s + d, gsPhase := Selecting look (gsClock s)\<rparr>) | _ \<Rightarrow> None)
      | Woken \<Rightarrow>
          (case gsPhase s of
             Selecting look arm \<Rightarrow>
               if whTrigger (gsWheel s) then Some (s\<lparr>gsWheel := (gsWheel s)\<lparr>whTrigger := False\<rparr>, gsPhase := Looking\<rparr>) else None
           | _ \<Rightarrow> None)
      | Fired now ks \<Rightarrow>
          (case gsPhase s of
             Selecting look arm \<Rightarrow>
               (case wh_fire now (gsWheel s) of
                  (ks', w) \<Rightarrow>
                    if gsTimer s \<le> now \<and> now \<le> gsClock s \<and> ks' = ks
                    then Some (s\<lparr>gsWheel := w, gsPhase := (if ks = [] then Looking else Expiring ks)\<rparr>) else None)
           | _ \<Rightarrow> None)
      | Called k \<Rightarrow>
          (case gsPhase s of
             Expiring (k' # ks) \<Rightarrow> if k' = k then Some (s\<lparr>gsPhase := (if ks = [] then Looking else Expiring ks)\<rparr>) else None
           | _ \<Rightarrow> None)
      | Ended \<Rightarrow>
          (case gsPhase s of
             Selecting look arm \<Rightarrow> if whStopped (gsWheel s) then Some (s\<lparr>gsPhase := Returned\<rparr>) else None
           | _ \<Rightarrow> None))"

lemma go_exec_step: "go_exec x s = Some s' \<Longrightarrow> go_step s x s'"
  by (cases x) (auto simp: go_exec_def go_step_simps intro: go_step.intros split: if_splits nat.splits goPhase.splits list.splits prod.splits)

fun go_execs :: "goEvent list \<Rightarrow> goState \<Rightarrow> goState option" where
  "go_execs [] s = Some s"
| "go_execs (x # xs) s = (case go_exec x s of None \<Rightarrow> None | Some s' \<Rightarrow> go_execs xs s')"

lemma go_run_trans: "go_run s1 ys s2 \<Longrightarrow> go_run s xs s1 \<Longrightarrow> go_run s (xs @ ys) s2"
  by (induction rule: go_run.induct) (auto simp flip: append_assoc intro: go_run.intros)

lemma go_execs_run: "go_execs xs s = Some s' \<Longrightarrow> go_run s xs s'"
proof (induction xs arbitrary: s)
  case (Cons x xs)
  then obtain s1 where 1: "go_exec x s = Some s1" "go_execs xs s1 = Some s'" by (auto split: option.splits)
  have "go_run s ([] @ [x]) s1" by (rule go_run.snoc [OF go_run.start go_exec_step [OF 1(1)]])
  from go_run_trans [OF Cons.IH [OF 1(2)] this] show ?case by simp
qed (simp add: go_run.start)

text \<open>
  A callback can come too late: the key is taken out under the lock but the callback is called after it. A client that schedules the key anew in between
  has its new entry reported as expired, 80 nanoseconds before its time here.
\<close>

definition lateRun :: "goEvent list" where
  "lateRun = [Inserted 0 ''k'' 10, Signalled, Looked, Armed, Woken, Looked, Armed, Passed 20, Fired 20 [''k''], Inserted 20 ''k'' 80, Called ''k'']"

lemma callback_of_rescheduled_key:
  "\<exists>s. go_run (go_New 0) lateRun s \<and> scheduled lateRun ''k'' = Some 100 \<and> gsClock s = 20 \<and> last lateRun = Called ''k''"
proof -
  have "case go_execs lateRun (go_New 0) of None \<Rightarrow> False | Some s \<Rightarrow> gsClock s = 20" by code_simp
  then obtain s where "go_execs lateRun (go_New 0) = Some s" "gsClock s = 20" by (auto split: option.splits)
  moreover have "scheduled lateRun ''k'' = Some 100" "last lateRun = Called ''k''" by code_simp+
  ultimately show ?thesis using go_execs_run by blast
qed

text \<open>A client schedules a key while the goroutine is about to set its timer to an hour.\<close>

definition demoPrefix :: "goEvent list" where
  "demoPrefix = [Looked, Inserted 0 ''a'' 50, Armed, Passed 60]"

definition demoRest :: "goEvent list" where
  "demoRest = [Signalled, Woken, Looked, Armed, Passed 1, Fired 60 [''a''], Called ''a'', Looked, Armed, Passed 4000000000000,
     Fired 4000000000060 [], Looked, Armed, Passed 4000000000000, Fired 8000000000060 []]"

definition demoAsleep :: "goEvent list" where
  "demoAsleep = [Looked, Inserted 0 ''a'' 50, Armed, Signalled, Woken, Looked, Passed 3, Armed]"

definition demoState :: "goEvent list \<Rightarrow> goState" where
  "demoState xs = the (go_execs xs (go_New 0))"

lemma demo_go_run:
  assumes "go_execs xs (go_New 0) \<noteq> None"
  shows "go_run (go_New 0) xs (demoState xs)"
  using assms by (intro go_execs_run) (auto simp: demoState_def)

theorem wheel_never_oversleeps_witness:
  "gsTimer (demoState demoAsleep) \<le> max 0 50 + (3 - 0) \<or> whTrigger (gsWheel (demoState demoAsleep)) \<or> 0 < gsSignals (demoState demoAsleep)"
proof (rule wheel_never_oversleeps [where k = "''a''"])
  show "go_run (go_New 0) demoAsleep (demoState demoAsleep)" by (rule demo_go_run) code_simp
  show "gsPhase (demoState demoAsleep) = Selecting 0 3" by code_simp
  show "scheduled demoAsleep ''a'' = Some 50" by code_simp
qed

theorem wheel_expires_witness: "list_ex (expires ''a'') demoRest"
proof (rule wheel_expires)
  show "go_run (go_New 0) demoPrefix (demoState demoPrefix)" by (rule demo_go_run) code_simp
  show "scheduled demoPrefix ''a'' = Some 50" by code_simp
  show "50 \<le> gsClock (demoState demoPrefix)" by code_simp
  show "go_run (demoState demoPrefix) demoRest (the (go_execs demoRest (demoState demoPrefix)))"
  proof (rule go_execs_run)
    have "go_execs demoRest (demoState demoPrefix) \<noteq> None" by code_simp
    then show "go_execs demoRest (demoState demoPrefix) = Some (the (go_execs demoRest (demoState demoPrefix)))" by simp
  qed
  show "list_all (leaves ''a'') demoRest" by code_simp
  show "signals demoRest + 2 < wakes demoRest" by code_simp
qed

theorem wheel_calls_back_witness:
  "callbacks lateRun @ toCall (demoState lateRun) = expiredKeys lateRun \<and> expiredKeys lateRun = [''k'']"
proof -
  have "go_run (go_New 0) lateRun (demoState lateRun)" by (rule demo_go_run) code_simp
  from wheel_calls_back [OF this] have "callbacks lateRun @ toCall (demoState lateRun) = expiredKeys lateRun" by (rule conjunct1)
  moreover have "expiredKeys lateRun = [''k'']" by code_simp
  ultimately show ?thesis by simp
qed

end
