(* ===== verification/Go_Strings.thy ===== *)
theory Go_Strings
  imports Decimal
begin

text \<open>
  What the program uses of the Go packages \<open>strings\<close>, \<open>strconv\<close> and \<open>encoding/hex\<close>, on ASCII text
  (header values, environment variables, paths). White space is that of ASCII; the Unicode
  spaces that \<open>TrimSpace\<close> also knows are not modelled.
\<close>

definition isSpace :: "char \<Rightarrow> bool" where
  "isSpace c = (c \<in> {CHR '' '', CHR 0x09, CHR 0x0A, CHR 0x0B, CHR 0x0C, CHR 0x0D})"

definition TrimSpace :: "string \<Rightarrow> string" where
  "TrimSpace s = rev (dropWhile isSpace (rev (dropWhile isSpace s)))"

definition HasPrefix :: "string \<Rightarrow> string \<Rightarrow> bool" where
  "HasPrefix s p = (take (length p) s = p)"

definition TrimPrefix :: "string \<Rightarrow> string \<Rightarrow> string" where
  "TrimPrefix s p = (if HasPrefix s p then drop (length p) s else s)"

text \<open>\<open>strings.TrimRight(s, cutset)\<close> for one character\<close>

definition TrimRight :: "char \<Rightarrow> string \<Rightarrow> string" where
  "TrimRight c s = rev (dropWhile (\<lambda>x. x = c) (rev s))"

text \<open>\<open>strings.Split\<close> on a separator of one character; it never returns an empty slice.\<close>

fun Split :: "char \<Rightarrow> string \<Rightarrow> string list" where
  "Split c [] = [[]]"
| "Split c (x # xs) =
     (if x = c then [] # Split c xs
      else (case Split c xs of [] \<Rightarrow> [[x]] | p # ps \<Rightarrow> (x # p) # ps))"

definition lowerChar :: "char \<Rightarrow> char" where
  "lowerChar c = (let n = of_char c :: nat in if 65 \<le> n \<and> n \<le> 90 then char_of (n + 32) else c)"

definition ToLower :: "string \<Rightarrow> string" where
  "ToLower s = map lowerChar s"

text \<open>\<open>strings.NewReplacer\<close> with single characters as the old strings\<close>

definition Replace :: "(char \<Rightarrow> string option) \<Rightarrow> string \<Rightarrow> string" where
  "Replace f s = concat (map (\<lambda>c. case f c of None \<Rightarrow> [c] | Some t \<Rightarrow> t) s)"

definition hexVal :: "char \<Rightarrow> nat option" where
  "hexVal c = (let n = of_char c :: nat
     in if 48 \<le> n \<and> n \<le> 57 then Some (n - 48)
        else if 97 \<le> n \<and> n \<le> 102 then Some (n - 87)
        else if 65 \<le> n \<and> n \<le> 70 then Some (n - 55) else None)"

fun hex_Decode :: "string \<Rightarrow> bytes option" where
  "hex_Decode [] = Some []"
| "hex_Decode (x # y # s) =
     (case (hexVal x, hexVal y, hex_Decode s) of
        (Some a, Some b, Some v) \<Rightarrow> Some (word_of_nat (16 * a + b) # v)
      | _ \<Rightarrow> None)"
| "hex_Decode [x] = None"

definition hexChar :: "nat \<Rightarrow> char" where
  "hexChar n = ''0123456789abcdef'' ! n"

definition hex_Encode :: "bytes \<Rightarrow> string" where
  "hex_Encode v = concat (map (\<lambda>b. [hexChar (unat b div 16), hexChar (unat b mod 16)]) v)"

text \<open>\<open>strconv.Atoi\<close>: an optional sign and digits, within the range of \<open>int\<close>\<close>

definition Atoi :: "string \<Rightarrow> int option" where
  "Atoi s =
     (let neg = (take 1 s = ''-''); ds = (if take 1 s = ''-'' \<or> take 1 s = ''+'' then drop 1 s else s);
          n = (if neg then - int (readNat ds) else int (readNat ds))
      in if ds = [] \<or> \<not> list_all isDigit ds \<or> n < - (2 ^ 63) \<or> 2 ^ 63 \<le> n then None else Some n)"

lemma Split_nonempty [simp]: "Split c s \<noteq> []"
  by (induction s) (auto split: list.splits)

lemma Split_none [simp]: "c \<notin> set s \<Longrightarrow> Split c s = [s]"
  by (induction s) auto

lemma Split_append [simp]: "c \<notin> set s \<Longrightarrow> Split c (s @ c # t) = s # Split c t"
  by (induction s) auto

text \<open>\<open>Split\<close> is the inverse of joining, on parts without the separator.\<close>

fun joinWith :: "char \<Rightarrow> string list \<Rightarrow> string" where
  "joinWith c [] = []"
| "joinWith c [p] = p"
| "joinWith c (p # q # ps) = p @ c # joinWith c (q # ps)"

lemma joinWith_Split: "joinWith c (Split c s) = s"
proof (induction s)
  case (Cons x s)
  obtain p ps where s: "Split c s = p # ps" by (cases "Split c s") auto
  with Cons show ?case by (cases ps) auto
qed simp

lemma Split_free: "p \<in> set (Split c s) \<Longrightarrow> c \<notin> set p"
proof (induction s arbitrary: p)
  case (Cons x s)
  obtain q qs where "Split c s = q # qs" by (cases "Split c s") auto
  with Cons show ?case by (auto split: if_splits)
qed simp

lemma TrimSpace_empty [simp]: "TrimSpace [] = []"
  by (simp add: TrimSpace_def)

lemma TrimSpace_id:
  assumes "s \<noteq> [] \<Longrightarrow> \<not> isSpace (hd s) \<and> \<not> isSpace (last s)"
  shows "TrimSpace s = s"
proof (cases s)
  case (Cons c cs)
  with assms have "dropWhile isSpace s = s" "dropWhile isSpace (rev s) = rev s"
    by (auto simp: hd_rev [symmetric] dropWhile_eq_self_iff)
  then show ?thesis by (simp add: TrimSpace_def)
qed simp

lemma TrimSpace_ends:
  "TrimSpace s \<noteq> [] \<Longrightarrow> \<not> isSpace (hd (TrimSpace s)) \<and> \<not> isSpace (last (TrimSpace s))"
proof -
  let ?d = "dropWhile isSpace s" and ?t = "TrimSpace s"
  assume ne: "?t \<noteq> []"
  have "\<not> isSpace (last ?t)"
    using ne hd_dropWhile [of isSpace "rev ?d"] by (simp add: TrimSpace_def last_rev)
  moreover have "hd ?t = hd ?d"
  proof -
    have "?d = ?t @ rev (takeWhile isSpace (rev ?d))"
      unfolding TrimSpace_def by (metis rev_append rev_rev_ident takeWhile_dropWhile_id)
    with ne show ?thesis by (metis hd_append2)
  qed
  moreover have "\<not> isSpace (hd ?d)"
    using ne unfolding TrimSpace_def by (metis dropWhile.simps(1) hd_dropWhile rev.simps(1))
  ultimately show ?thesis by simp
qed

lemma TrimSpace_idem [simp]: "TrimSpace (TrimSpace s) = TrimSpace s"
  using TrimSpace_ends by (intro TrimSpace_id) blast

end
