(* ===== verification/Auth.thy ===== *)
theory Auth
  imports Go_Strings Codec
begin

text \<open>
  api/config.go, api/auth.go and the authentication and CORS parts of api/middleware.go: the
  server configuration, access tokens, and the checks that a request passes before a handler
  of the protected routes runs (api/server.go).

  Parameters: \<open>hmac\<close> is HMAC-SHA256 (key, then message), \<open>unmarshal\<close> is \<open>json.Unmarshal\<close> into the
  claims (\<open>None\<close> an error), of which the lemmas need that it reads back marshalled claims
  (locale \<open>claims_reader\<close>; \<open>parseClaims\<close> is such a reader). The scopes that are marshalled have no
  character that JSON escapes. A request is read through \<open>Header.Get\<close>, the decoded query and the
  path; a middleware returns the response it sends itself, or passes the request on.
\<close>

section \<open>Configuration (config.go)\<close>

record ServerConfig =
  cfgAllowedOrigins :: "string list"
  cfgAPIKey :: string
  cfgEnvironment :: string
  cfgAllowInsecureNoAuth :: bool
  cfgStateDBPath :: string
  cfgRateLimitRequests :: int
  cfgRateLimitWindow :: duration
  cfgBenchmarkResultsPath :: string
  cfgSSETokenTTL :: duration
  cfgShutdownTimeout :: duration

abbreviation second :: duration where
  "second \<equiv> 1000000000"

fun addOrigins :: "string list \<Rightarrow> string list \<Rightarrow> string list" where
  "addOrigins [] acc = acc"
| "addOrigins (origin # rest) acc =
     (let trimmed = TrimSpace origin
      in if trimmed = [] then addOrigins rest acc else addOrigins rest (List.insert trimmed acc))"

definition NewServerConfig :: "string list \<Rightarrow> string \<Rightarrow> ServerConfig" where
  "NewServerConfig allowedOrigins apiKey =
     \<lparr>cfgAllowedOrigins = addOrigins allowedOrigins [], cfgAPIKey = TrimSpace apiKey,
      cfgEnvironment = ''production'', cfgAllowInsecureNoAuth = False, cfgStateDBPath = [],
      cfgRateLimitRequests = 120, cfgRateLimitWindow = 60 * second, cfgBenchmarkResultsPath = [],
      cfgSSETokenTTL = 120 * second, cfgShutdownTimeout = 15 * second\<rparr>"

definition cfg_Validate :: "ServerConfig \<Rightarrow> error option" where
  "cfg_Validate c =
     (if \<not> cfgAllowInsecureNoAuth c \<and> TrimSpace (cfgAPIKey c) = []
      then Some ''CACHE_ENGINE_API_KEY is required unless insecure dev mode is explicitly enabled''
      else if cfgAllowInsecureNoAuth c \<and> cfgEnvironment c \<noteq> ''development''
      then Some ''insecure no-auth mode is only allowed when CACHE_ENGINE_ENV=development''
      else if cfgShutdownTimeout c \<le> 0 then Some ''shutdown timeout must be greater than zero''
      else if cfgRateLimitRequests c < 0 then Some ''rate limit requests must not be negative''
      else if cfgRateLimitWindow c < 0 then Some ''rate limit window must not be negative''
      else None)"

definition isOriginAllowed :: "ServerConfig \<Rightarrow> string \<Rightarrow> bool" where
  "isOriginAllowed c origin =
     (if origin = [] then True
      else if length (cfgAllowedOrigins c) = 0 then False
      else origin \<in> set (cfgAllowedOrigins c))"

definition requiresAPIKey :: "ServerConfig \<Rightarrow> bool" where
  "requiresAPIKey c = (\<not> cfgAllowInsecureNoAuth c)"

text \<open>\<open>subtle.ConstantTimeCompare\<close> of slices of equal length: the or of the differences\<close>

definition ConstantTimeCompare :: "bytes \<Rightarrow> bytes \<Rightarrow> int" where
  "ConstantTimeCompare x y =
     (if length x \<noteq> length y then 0
      else if foldl (\<lambda>v (a, b). or v (xor a b)) 0 (zip x y) = 0 then 1 else 0)"

definition validateAPIKey :: "ServerConfig \<Rightarrow> string \<Rightarrow> bool" where
  "validateAPIKey c headerValue =
     (if \<not> requiresAPIKey c then True
      else if length headerValue \<noteq> length (cfgAPIKey c) then False
      else ConstantTimeCompare (toBytes headerValue) (toBytes (cfgAPIKey c)) = 1)"

section \<open>Access tokens (auth.go)\<close>

record accessTokenClaims =
  atScope :: string
  atExpiresAt :: int64

definition marshalClaims :: "accessTokenClaims \<Rightarrow> bytes" where
  \<open>marshalClaims cl = toBytes
     (''{"scope":"'' @ atScope cl @ ''","expiresAt":'' @ showInt (sint (atExpiresAt cl)) @ ''}'')\<close>

text \<open>\<open>Time.Unix()\<close>\<close>

definition unixSec :: "instant \<Rightarrow> int64" where
  "unixSec t = word_of_int (t div second)"

definition issueAccessToken :: "(bytes \<Rightarrow> bytes \<Rightarrow> bytes) \<Rightarrow> instant \<Rightarrow> ServerConfig \<Rightarrow> string \<Rightarrow>
    error + string \<times> instant" where
  "issueAccessToken hmac now c scope =
     (if \<not> requiresAPIKey c then Inl ''api key auth is not configured''
      else
        (let expiresAt = now + cfgSSETokenTTL c;
             payload = marshalClaims \<lparr>atScope = scope, atExpiresAt = unixSec expiresAt\<rparr>;
             sig = hmac (toBytes (cfgAPIKey c)) payload
         in Inr (base64URL_Encode payload @ ''.'' @ base64URL_Encode sig, expiresAt)))"

definition validateAccessToken :: "(bytes \<Rightarrow> bytes \<Rightarrow> bytes) \<Rightarrow> (bytes \<Rightarrow> accessTokenClaims option) \<Rightarrow>
    instant \<Rightarrow> ServerConfig \<Rightarrow> string \<Rightarrow> string \<Rightarrow> bool" where
  "validateAccessToken hmac unmarshal now c token requiredScope =
     (if \<not> requiresAPIKey c \<or> token = [] then False
      else
        (case Split CHR ''.'' token of
           [p0, p1] \<Rightarrow>
             (case base64URL_Decode p0 of
                None \<Rightarrow> False
              | Some payload \<Rightarrow>
                  (case base64URL_Decode p1 of
                     None \<Rightarrow> False
                   | Some signature \<Rightarrow>
                       (if ConstantTimeCompare signature (hmac (toBytes (cfgAPIKey c)) payload) \<noteq> 1 then False
                        else
                          (case unmarshal payload of
                             None \<Rightarrow> False
                           | Some claims \<Rightarrow>
                               (if atScope claims \<noteq> requiredScope \<and> atScope claims \<noteq> ''api'' then False
                                else unixSec now <s atExpiresAt claims)))))
         | _ \<Rightarrow> False))"

section \<open>Requests and the checks before a handler (auth.go, middleware.go, server.go)\<close>

record Request =
  rqMethod :: string
  rqPath :: string
  rqHeader :: "string \<Rightarrow> string"
  rqQuery :: "string \<Rightarrow> string"
  rqRemoteAddr :: string

record Response =
  rsStatus :: int
  rsHeaders :: "(string \<times> string) list"
  rsText :: string

definition http_Error :: "string \<Rightarrow> int \<Rightarrow> Response" where
  "http_Error msg code = \<lparr>rsStatus = code, rsHeaders = [], rsText = msg\<rparr>"

definition authScopeForRequest :: "Request \<Rightarrow> string" where
  "authScopeForRequest r = (if HasPrefix (rqPath r) ''/api/sse/'' then ''sse'' else ''api'')"

definition bearerToken :: "Request \<Rightarrow> string" where
  "bearerToken r =
     (let authz = rqHeader r ''Authorization''
      in if \<not> HasPrefix authz ''Bearer '' then [] else TrimSpace (TrimPrefix authz ''Bearer ''))"

definition queryAccessToken :: "Request \<Rightarrow> string" where
  "queryAccessToken r = TrimSpace (rqQuery r ''access_token'')"

definition apiKeyHeader :: "Request \<Rightarrow> string" where
  "apiKeyHeader r = TrimSpace (rqHeader r ''X-API-Key'')"

text \<open>A middleware: the response that ends the request, or \<open>None\<close> to call the next handler.\<close>

definition apiKeyMiddleware :: "(bytes \<Rightarrow> bytes \<Rightarrow> bytes) \<Rightarrow> (bytes \<Rightarrow> accessTokenClaims option) \<Rightarrow>
    instant \<Rightarrow> ServerConfig \<Rightarrow> Request \<Rightarrow> Response option" where
  "apiKeyMiddleware hmac um now c r =
     (let scope = authScopeForRequest r; bearer = bearerToken r
      in if validateAPIKey c (apiKeyHeader r) \<or> validateAPIKey c bearer \<or>
            validateAccessToken hmac um now c bearer scope \<or>
            validateAccessToken hmac um now c (queryAccessToken r) scope
         then None
         else Some (http_Error ''unauthorized'' 401))"

text \<open>The headers that \<open>corsMiddleware\<close> sets, and the response it sends itself.\<close>

definition corsHeaders :: "ServerConfig \<Rightarrow> Request \<Rightarrow> (string \<times> string) list" where
  "corsHeaders c r =
     (let origin = rqHeader r ''Origin''
      in (if origin \<noteq> [] \<and> isOriginAllowed c origin
          then [(''Access-Control-Allow-Origin'', origin), (''Vary'', ''Origin'')] else []) @
         [(''Access-Control-Allow-Methods'', ''GET, POST, PUT, DELETE, OPTIONS''),
          (''Access-Control-Allow-Headers'', ''Content-Type, Authorization, X-API-Key'')])"

definition corsMiddleware :: "ServerConfig \<Rightarrow> Request \<Rightarrow> Response option" where
  "corsMiddleware c r =
     (let origin = rqHeader r ''Origin''; hs = corsHeaders c r
      in if rqMethod r = ''OPTIONS'' then
           (if origin \<noteq> [] \<and> \<not> isOriginAllowed c origin
            then Some ((http_Error ''origin not allowed'' 403)\<lparr>rsHeaders := hs\<rparr>)
            else Some \<lparr>rsStatus = 204, rsHeaders = hs, rsText = []\<rparr>)
         else if origin \<noteq> [] \<and> \<not> isOriginAllowed c origin
         then Some ((http_Error ''origin not allowed'' 403)\<lparr>rsHeaders := hs\<rparr>)
         else None)"

text \<open>The checks of the protected routes after the rate limiter, in the order of server.go.\<close>

definition protect :: "(bytes \<Rightarrow> bytes \<Rightarrow> bytes) \<Rightarrow> (bytes \<Rightarrow> accessTokenClaims option) \<Rightarrow>
    instant \<Rightarrow> ServerConfig \<Rightarrow> Request \<Rightarrow> Response option" where
  "protect hmac um now c r =
     (case corsMiddleware c r of
        Some resp \<Rightarrow> Some resp
      | None \<Rightarrow> if requiresAPIKey c then apiKeyMiddleware hmac um now c r else None)"

section \<open>Comparisons and claims\<close>

lemma or_xor_zero:
  fixes v :: "8 word"
  shows "length x = length y \<Longrightarrow> foldl (\<lambda>v (a, b). or v (xor a b)) v (zip x y) = 0 \<longleftrightarrow> v = 0 \<and> x = y"
proof (induction x y arbitrary: v rule: list_induct2)
  case Nil
  then show ?case by simp
next
  case (Cons a x b y)
  have "or v (xor a b) = 0 \<longleftrightarrow> v = 0 \<and> a = b"
    by (metis or_eq_0_iff xor_self_eq xor.right_neutral xor.assoc xor.left_neutral)
  with Cons show ?case by auto
qed

lemma ConstantTimeCompare_iff: "ConstantTimeCompare x y = 1 \<longleftrightarrow> x = y"
  using or_xor_zero [of x y 0] by (auto simp: ConstantTimeCompare_def)

lemma toBytes_inj: "toBytes s = toBytes t \<longleftrightarrow> s = t"
  by (metis ofBytes_toBytes)

lemma validateAPIKey_iff: "validateAPIKey c s \<longleftrightarrow> cfgAllowInsecureNoAuth c \<or> s = cfgAPIKey c"
  by (auto simp: validateAPIKey_def requiresAPIKey_def ConstantTimeCompare_iff toBytes_inj)

definition plainScope :: "string \<Rightarrow> bool" where
  "plainScope s = list_all (\<lambda>c. c \<noteq> CHR 0x22 \<and> c \<noteq> CHR 0x5C) s"

locale claims_reader =
  fixes unmarshal :: "bytes \<Rightarrow> accessTokenClaims option"
  assumes unmarshal_claims: "plainScope (atScope cl) \<Longrightarrow> unmarshal (marshalClaims cl) = Some cl"
begin

lemma issued_token:
  assumes "issueAccessToken hmac now c scope = Inr (token, ex)" and "plainScope scope"
  shows "validateAccessToken hmac unmarshal now' c token required \<longleftrightarrow>
    (scope = required \<or> scope = ''api'') \<and> unixSec now' <s unixSec (now + cfgSSETokenTTL c)"
proof -
  let ?cl = "\<lparr>atScope = scope, atExpiresAt = unixSec (now + cfgSSETokenTTL c)\<rparr>"
  have req: "requiresAPIKey c" using assms(1) by (auto simp: issueAccessToken_def split: if_splits)
  have tok: "token = base64URL_Encode (marshalClaims ?cl) @ CHR ''.'' #
      base64URL_Encode (hmac (toBytes (cfgAPIKey c)) (marshalClaims ?cl))"
    using assms(1) req by (auto simp: issueAccessToken_def Let_def)
  have "Split CHR ''.'' token = [base64URL_Encode (marshalClaims ?cl),
      base64URL_Encode (hmac (toBytes (cfgAPIKey c)) (marshalClaims ?cl))]"
    unfolding tok using base64URL_free by simp
  moreover have "unmarshal (marshalClaims ?cl) = Some ?cl" using assms(2) by (intro unmarshal_claims) simp
  ultimately show ?thesis using req
    by (auto simp: validateAccessToken_def ConstantTimeCompare_iff tok)
qed

end

section \<open>A reader of claims\<close>

definition parseClaims :: "bytes \<Rightarrow> accessTokenClaims option" where
  \<open>parseClaims raw =
     (case stripPrefix ''{"scope":"'' (ofBytes raw) of
        None \<Rightarrow> None
      | Some s \<Rightarrow>
          (let scope = takeWhile (\<lambda>c. c \<noteq> CHR 0x22) s; num = (\<lambda>c. c = CHR ''-'' \<or> isDigit c)
           in case stripPrefix ''","expiresAt":'' (drop (length scope) s) of
                None \<Rightarrow> None
              | Some n \<Rightarrow>
                  (if plainScope scope \<and> dropWhile num n = ''}''
                   then Some \<lparr>atScope = scope, atExpiresAt = word_of_int (readInt (takeWhile num n))\<rparr>
                   else None)))\<close>

interpretation parsedClaims: claims_reader parseClaims
proof
  fix cl :: accessTokenClaims assume p: "plainScope (atScope cl)"
  let ?num = "\<lambda>c. c = CHR ''-'' \<or> isDigit c" and ?n = "showInt (sint (atExpiresAt cl))"
  let ?rest = \<open>''","expiresAt":'' @ ?n @ ''}''\<close>
  have "\<forall>c\<in>set (atScope cl). c \<noteq> CHR 0x22" using p by (simp add: plainScope_def list_all_iff)
  then have q: "takeWhile (\<lambda>c. c \<noteq> CHR 0x22) (atScope cl @ ?rest) = atScope cl"
    by (simp add: takeWhile_append2)
  have n: "\<forall>c\<in>set ?n. ?num c" using showInt_chars by blast
  have "\<not> ?num (CHR ''}'')" by (simp add: isDigit_def)
  with n have w: "takeWhile ?num (?n @ ''}'') = ?n" "dropWhile ?num (?n @ ''}'') = ''}''"
    by (simp_all add: takeWhile_append2 dropWhile_append2)
  have "ofBytes (marshalClaims cl) = ''{\"scope\":\"'' @ (atScope cl @ ?rest)"
    by (simp only: marshalClaims_def ofBytes_toBytes append_assoc)
  moreover have "drop (length (atScope cl)) (atScope cl @ ?rest) = ?rest" by simp
  ultimately show "parseClaims (marshalClaims cl) = Some cl"
    unfolding parseClaims_def using p by (simp only: stripPrefix_append option.case Let_def q w) simp
qed

section \<open>Properties\<close>

text \<open>
  a token that \<open>issueAccessToken\<close> made is valid, under any MAC, exactly for its own scope (for every
  scope when it is \<open>api\<close>) and until the second of its expiry.
\<close>

theorem token_roundtrip:
  assumes "issueAccessToken hmac now c scope = Inr (token, ex)" and "plainScope scope"
    and "\<forall>cl. plainScope (atScope cl) \<longrightarrow> unmarshal (marshalClaims cl) = Some cl"
  shows "validateAccessToken hmac unmarshal now' c token required \<longleftrightarrow>
    (scope = required \<or> scope = ''api'') \<and> unixSec now' <s unixSec (now + cfgSSETokenTTL c)"
proof (rule claims_reader.issued_token [OF _ assms(1,2)])
  show "claims_reader unmarshal" using assms(3) by (simp add: claims_reader_def)
qed

abbreviation demo_cfg :: ServerConfig where
  "demo_cfg \<equiv> NewServerConfig [''http://localhost:5173''] ''secret''"

definition demo_token :: string where
  "demo_token = ''eyJzY29wZSI6InNzZSIsImV4cGlyZXNBdCI6MTIwfQ.c2VjcmV0eyJzY29wZSI6InNzZSIsImV4cGlyZXNBdCI6MTIwfQ''"

lemma demo_token_issued: "issueAccessToken (\<lambda>k m. k @ m) 5 demo_cfg ''sse'' = Inr (demo_token, 120000000005)"
proof -
  have n: "showInt (sint (unixSec 120000000005)) = ''120''"
    by (simp add: unixSec_def) code_simp
  show ?thesis
    by (simp add: issueAccessToken_def requiresAPIKey_def NewServerConfig_def TrimSpace_def isSpace_def Let_def n
        marshalClaims_def toBytes_def base64URL_Encode_def b64_char_def b64_alphabet_def toURL_def demo_token_def)
qed

lemma token_roundtrip_witness:
  "validateAccessToken (\<lambda>k m. k @ m) parseClaims 9 demo_cfg demo_token ''sse'' \<longleftrightarrow>
   (''sse'' = ''sse'' \<or> ''sse'' = ''api'') \<and> unixSec 9 <s unixSec (5 + cfgSSETokenTTL demo_cfg)"
proof (rule token_roundtrip [OF demo_token_issued])
  show "\<forall>cl. plainScope (atScope cl) \<longrightarrow> parseClaims (marshalClaims cl) = Some cl"
    using parsedClaims.unmarshal_claims by blast
qed code_simp

text \<open>An unexpired token of the scope, signed with the API key.\<close>

definition signedToken :: "(bytes \<Rightarrow> bytes \<Rightarrow> bytes) \<Rightarrow> (bytes \<Rightarrow> accessTokenClaims option) \<Rightarrow> instant \<Rightarrow>
    ServerConfig \<Rightarrow> string \<Rightarrow> string \<Rightarrow> bool" where
  "signedToken hmac um now c scope token \<longleftrightarrow>
     (\<exists>p0 p1 payload claims. token = p0 @ CHR ''.'' # p1 \<and> base64URL_Decode p0 = Some payload \<and>
        base64URL_Decode p1 = Some (hmac (toBytes (cfgAPIKey c)) payload) \<and> um payload = Some claims \<and>
        (atScope claims = scope \<or> atScope claims = ''api'') \<and> unixSec now <s atExpiresAt claims)"

text \<open>What lets a request in: no origin or an allowed one, and the API key or such a token.\<close>

definition entitled :: "(bytes \<Rightarrow> bytes \<Rightarrow> bytes) \<Rightarrow> (bytes \<Rightarrow> accessTokenClaims option) \<Rightarrow> instant \<Rightarrow> ServerConfig \<Rightarrow> Request \<Rightarrow> bool" where
  "entitled hmac um now c r \<longleftrightarrow>
     (rqHeader r ''Origin'' = [] \<or> rqHeader r ''Origin'' \<in> set (cfgAllowedOrigins c)) \<and> cfgAPIKey c \<noteq> [] \<and>
     (apiKeyHeader r = cfgAPIKey c \<or> bearerToken r = cfgAPIKey c \<or>
      signedToken hmac um now c (authScopeForRequest r) (bearerToken r) \<or>
      signedToken hmac um now c (authScopeForRequest r) (queryAccessToken r))"

lemma protect_entitled:
  assumes "cfg_Validate c = None" and "cfgEnvironment c \<noteq> ''development''" and "protect hmac um now c r = None"
  shows "entitled hmac um now c r"
proof -
  have req: "requiresAPIKey c" and key: "cfgAPIKey c \<noteq> []"
    using assms(1,2) by (auto simp: cfg_Validate_def requiresAPIKey_def split: if_splits)
  have cors: "corsMiddleware c r = None" and api: "apiKeyMiddleware hmac um now c r = None"
    using assms(3) req by (auto simp: protect_def split: option.splits)
  have origin: "rqHeader r ''Origin'' = [] \<or> rqHeader r ''Origin'' \<in> set (cfgAllowedOrigins c)"
    using cors by (auto simp: corsMiddleware_def Let_def isOriginAllowed_def split: if_splits)
  have tok: "signedToken hmac um now c scope token"
    if v: "validateAccessToken hmac um now c token scope" for token scope
  proof -
    from v obtain p0 p1 where s: "Split CHR ''.'' token = [p0, p1]"
      by (auto simp: validateAccessToken_def split: if_splits list.splits)
    have "token = p0 @ CHR ''.'' # p1" using joinWith_Split [of "CHR ''.''" token] by (simp add: s)
    with v s show ?thesis
      unfolding signedToken_def validateAccessToken_def ConstantTimeCompare_iff
      by (auto split: if_splits option.splits)
  qed
  have "apiKeyHeader r = cfgAPIKey c \<or> bearerToken r = cfgAPIKey c \<or>
      validateAccessToken hmac um now c (bearerToken r) (authScopeForRequest r) \<or>
      validateAccessToken hmac um now c (queryAccessToken r) (authScopeForRequest r)"
    using api req by (auto simp: apiKeyMiddleware_def Let_def validateAPIKey_iff requiresAPIKey_def split: if_splits)
  with origin key tok show ?thesis unfolding entitled_def by auto
qed

text \<open>
  C13: with a configuration that \<open>Validate\<close> accepts and outside development, a request passes the
  checks of the protected routes only from an allowed origin and with a credential: the API key,
  or an unexpired token of its scope whose signature is the MAC of its claims under that key.
\<close>

theorem protected_needs_credentials:
  assumes "cfg_Validate c = None" and "cfgEnvironment c \<noteq> ''development''" and "protect hmac um now c r = None"
  shows "(rqHeader r ''Origin'' = [] \<or> rqHeader r ''Origin'' \<in> set (cfgAllowedOrigins c)) \<and> cfgAPIKey c \<noteq> [] \<and>
    (apiKeyHeader r = cfgAPIKey c \<or> bearerToken r = cfgAPIKey c \<or>
     signedToken hmac um now c (authScopeForRequest r) (bearerToken r) \<or>
     signedToken hmac um now c (authScopeForRequest r) (queryAccessToken r))"
  by (rule protect_entitled [OF assms, unfolded entitled_def])

definition demo_req :: "string \<Rightarrow> (string \<Rightarrow> string) \<Rightarrow> Request" where
  "demo_req path hdr = \<lparr>rqMethod = ''GET'', rqPath = path, rqHeader = hdr, rqQuery = (\<lambda>_. []), rqRemoteAddr = ''10.0.0.1:99''\<rparr>"

lemma protected_needs_credentials_witness:
  "let r = demo_req ''/api/cache/lru/k'' ((\<lambda>_. [])(''X-API-Key'' := ''secret'')) in
   (rqHeader r ''Origin'' = [] \<or> rqHeader r ''Origin'' \<in> set (cfgAllowedOrigins demo_cfg)) \<and> cfgAPIKey demo_cfg \<noteq> [] \<and>
    (apiKeyHeader r = cfgAPIKey demo_cfg \<or> bearerToken r = cfgAPIKey demo_cfg \<or>
     signedToken (\<lambda>k m. k @ m) parseClaims 9 demo_cfg (authScopeForRequest r) (bearerToken r) \<or>
     signedToken (\<lambda>k m. k @ m) parseClaims 9 demo_cfg (authScopeForRequest r) (queryAccessToken r))"
  unfolding Let_def by (rule protected_needs_credentials; code_simp)



end
