(* ===== verification/Rate_Limiter.thy ===== *)
theory Rate_Limiter
  imports Auth
begin

text \<open>
  api/rate_limiter.go and the rate limiting middleware of api/middleware.go: a fixed window of
  requests per client, kept in memory or in the SQLite database. \<open>Allow\<close> holds the mutex (the
  database: runs one transaction), so a call is one step; it takes the clock readings it makes.

  The SQL statements of the source are translated to operations on the table \<open>rate_limits\<close>, a map
  from its primary key to the count; what SQLite and the driver do when they fail is the argument
  \<open>fails\<close>, and a failed transaction is rolled back.
\<close>

section \<open>The limiter in memory\<close>

record rateLimitBucket =
  rbCount :: int
  rbResetAt :: instant

type_synonym memoryRateLimiter = "(string, rateLimitBucket) gomap"

definition memory_Allow :: "instant \<Rightarrow> instant \<Rightarrow> string \<Rightarrow> int \<Rightarrow> duration \<Rightarrow> memoryRateLimiter \<Rightarrow>
    (bool \<times> duration) \<times> memoryRateLimiter" where
  "memory_Allow now now' clientID limit window m =
     (let fresh = \<lparr>rbCount = 0, rbResetAt = now + window\<rparr>;
          bucket = (case map_of m clientID of None \<Rightarrow> fresh | Some b \<Rightarrow> if now > rbResetAt b then fresh else b);
          bucket = bucket\<lparr>rbCount := rbCount bucket + 1\<rparr>;
          m = filter (\<lambda>(k, b). \<not> now > rbResetAt b) (AList.update clientID bucket m)
      in if rbCount bucket > limit then ((False, rbResetAt bucket - now'), m) else ((True, 0), m))"

section \<open>The limiter in the database\<close>

type_synonym rate_limits = "((string \<times> int), int) gomap"

datatype rlFailure = BeginFails error | ScanFails error | DeleteFails | CommitFails error

text \<open>\<open>Time.Truncate\<close>: down to a multiple of the window since the year 1\<close>

definition truncateTime :: "instant \<Rightarrow> duration \<Rightarrow> instant" where
  "truncateTime t d = (if d \<le> 0 then t else t - (t + 62135596800 * second) mod d)"

definition unixMilli :: "instant \<Rightarrow> int" where
  "unixMilli t = t div 1000000"

definition sqlite_Allow :: "rlFailure option \<Rightarrow> instant \<Rightarrow> string \<Rightarrow> int \<Rightarrow> duration \<Rightarrow> rate_limits \<Rightarrow>
    (error + bool \<times> duration) \<times> rate_limits" where
  "sqlite_Allow fails now clientID limit window db =
     (let windowStart = truncateTime now window;
          key = (clientID, unixMilli windowStart);
          count = (case map_of db key of None \<Rightarrow> 1 | Some n \<Rightarrow> n + 1);
          db1 = AList.update key count db;
          db2 = (if fails = Some DeleteFails then db1
                 else filter (\<lambda>((k, w), n). \<not> w < unixMilli (windowStart - 2 * window)) db1)
      in case fails of
           Some (BeginFails e) \<Rightarrow> (Inl e, db)
         | Some (ScanFails e) \<Rightarrow> (Inl e, db)
         | Some (CommitFails e) \<Rightarrow> (Inl e, db)
         | _ \<Rightarrow>
             (if count > limit then (Inr (False, window - (now - windowStart)), db2)
              else (Inr (True, 0), db2)))"

section \<open>The middleware\<close>

text \<open>\<open>net.SplitHostPort\<close>, \<open>None\<close> for its errors\<close>

definition lastColon :: "string \<Rightarrow> nat option" where
  "lastColon s = (if CHR '':'' \<in> set s then Some (length s - 1 - length (takeWhile (\<lambda>c. c \<noteq> CHR '':'') (rev s))) else None)"

definition SplitHostPort :: "string \<Rightarrow> (string \<times> string) option" where
  "SplitHostPort hp =
     (case lastColon hp of
        None \<Rightarrow> None
      | Some i \<Rightarrow>
          (if take 1 hp = ''['' then
             (let host = takeWhile (\<lambda>c. c \<noteq> CHR '']'') (drop 1 hp); e = Suc (length host)
              in if Suc e = i \<and> e < length hp \<and> CHR ''['' \<notin> set (drop 1 hp) \<and> CHR '']'' \<notin> set (drop (Suc e) hp)
                 then Some (host, drop (Suc i) hp) else None)
           else
             (let host = take i hp
              in if CHR '':'' \<in> set host \<or> CHR ''['' \<in> set hp \<or> CHR '']'' \<in> set hp then None
                 else Some (host, drop (Suc i) hp))))"

definition clientAddress :: "Request \<Rightarrow> string" where
  "clientAddress r =
     (let forwarded = TrimSpace (rqHeader r ''X-Forwarded-For'')
      in if forwarded \<noteq> [] then TrimSpace (hd (Split CHR '','' forwarded))
         else
           (case SplitHostPort (rqRemoteAddr r) of
              Some (host, port) \<Rightarrow> if host \<noteq> [] then host else rqRemoteAddr r
            | None \<Rightarrow> rqRemoteAddr r))"

text \<open>A limiter as \<open>Allow\<close> of a client at the time of the call, and the state it leaves.\<close>

type_synonym 's limiter = "string \<Rightarrow> int \<Rightarrow> duration \<Rightarrow> 's \<Rightarrow> (error + bool \<times> duration) \<times> 's"

definition rateLimitMiddleware :: "'s limiter \<Rightarrow> ServerConfig \<Rightarrow> Request \<Rightarrow> 's \<Rightarrow> Response option \<times> 's" where
  "rateLimitMiddleware allow cfg r s =
     (if cfgRateLimitRequests cfg \<le> 0 \<or> cfgRateLimitWindow cfg \<le> 0 then (None, s)
      else if rqMethod r = ''OPTIONS'' \<or> rqPath r = ''/healthz'' \<or> rqPath r = ''/readyz'' then (None, s)
      else
        (case allow (clientAddress r) (cfgRateLimitRequests cfg) (cfgRateLimitWindow cfg) s of
           (Inl e, s') \<Rightarrow> (Some (http_Error ''rate limiter unavailable'' 503), s')
         | (Inr (True, _), s') \<Rightarrow> (None, s')
         | (Inr (False, retryAfter), s') \<Rightarrow>
             (let retryAfter = (if retryAfter < 0 then 0 else retryAfter)
              in (Some ((http_Error ''rate limit exceeded'' 429)
                    \<lparr>rsHeaders := [(''Retry-After'', showInt (retryAfter div second + 1))]\<rparr>), s'))))"

definition memory_limiter :: "instant \<Rightarrow> memoryRateLimiter limiter" where
  "memory_limiter now clientID limit window m =
     (let (r, m') = memory_Allow now now clientID limit window m in (Inr r, m'))"

section \<open>One client of the limiter in memory\<close>

text \<open>
  The calls are pairs of a time and a client; \<open>mem_run\<close> gives their answers. \<open>win_run\<close> is one
  client's window alone: a count and the time it ends.
\<close>

fun mem_run :: "int \<Rightarrow> duration \<Rightarrow> memoryRateLimiter \<Rightarrow> (instant \<times> string) list \<Rightarrow> bool list" where
  "mem_run limit window m [] = []"
| "mem_run limit window m ((t, c) # xs) =
     (let ((ok, retry), m') = memory_Allow t t c limit window m in ok # mem_run limit window m' xs)"

definition win_step :: "duration \<Rightarrow> instant \<Rightarrow> (int \<times> instant) option \<Rightarrow> int \<times> instant" where
  "win_step window t s =
     (case s of None \<Rightarrow> (1, t + window) | Some (n, r) \<Rightarrow> if t > r then (1, t + window) else (n + 1, r))"

fun win_run :: "int \<Rightarrow> duration \<Rightarrow> (int \<times> instant) option \<Rightarrow> instant list \<Rightarrow> bool list" where
  "win_run limit window s [] = []"
| "win_run limit window s (t # ts) =
     (let s' = win_step window t s in (fst s' \<le> limit) # win_run limit window (Some s') ts)"

definition seen_by :: "instant \<Rightarrow> rateLimitBucket option \<Rightarrow> (int \<times> instant) option \<Rightarrow> bool" where
  "seen_by t b s \<longleftrightarrow>
     (case b of
        None \<Rightarrow> s = None \<or> (\<exists>n r. s = Some (n, r) \<and> r < t)
      | Some b \<Rightarrow> s = Some (rbCount b, rbResetAt b))"

lemma filter_keys_map_of:
  "map_of (filter (case_prod P) m) k = (case map_of m k of Some b \<Rightarrow> if P k b then Some b else None | None \<Rightarrow> None)"
  if "distinct (map fst m)"
  using that
proof (induction m)
  case (Cons x m)
  then have "fst x = k \<Longrightarrow> map_of m k = None" by (auto simp: map_of_eq_None_iff)
  with Cons show ?case by (cases x) (auto split: if_splits)
qed simp

text \<open>The bucket that a call counts in, and what the call does with it.\<close>

definition countedBucket :: "instant \<Rightarrow> duration \<Rightarrow> rateLimitBucket option \<Rightarrow> rateLimitBucket" where
  "countedBucket t window x =
     (case x of None \<Rightarrow> \<lparr>rbCount = 1, rbResetAt = t + window\<rparr>
      | Some b \<Rightarrow> if t > rbResetAt b then \<lparr>rbCount = 1, rbResetAt = t + window\<rparr>
                  else b\<lparr>rbCount := rbCount b + 1\<rparr>)"

lemma memory_Allow_eq:
  "memory_Allow t t' c limit window m =
     (let b = countedBucket t window (map_of m c); m' = filter (\<lambda>(k, b). \<not> t > rbResetAt b) (AList.update c b m)
      in if rbCount b > limit then ((False, rbResetAt b - t'), m') else ((True, 0), m'))"
  by (cases "map_of m c") (simp_all add: memory_Allow_def countedBucket_def Let_def)

lemma countedBucket_window:
  assumes s: "seen_by t x s" and w: "0 < window"
  shows "(rbCount (countedBucket t window x), rbResetAt (countedBucket t window x)) = win_step window t s \<and>
    \<not> t > rbResetAt (countedBucket t window x)"
proof (cases x)
  case None
  then have "s = None \<or> (\<exists>n r. s = Some (n, r) \<and> r < t)" using s by (simp add: seen_by_def)
  then show ?thesis using None w by (elim disjE exE conjE) (simp_all add: win_step_def countedBucket_def)
next
  case (Some b)
  then have "s = Some (rbCount b, rbResetAt b)" using s by (simp add: seen_by_def)
  then show ?thesis using Some w by (simp add: win_step_def countedBucket_def)
qed

lemma Allow_step:
  assumes d: "distinct (map fst m)" and s: "seen_by t (map_of m c) s" and w: "0 < window"
    and a: "memory_Allow t t c limit window m = ((ok, retry), m')"
  shows "ok \<longleftrightarrow> fst (win_step window t s) \<le> limit" and "distinct (map fst m')"
    and "seen_by t (map_of m' c) (Some (win_step window t s))"
    and "c' \<noteq> c \<Longrightarrow> seen_by t (map_of m c') s' \<Longrightarrow> seen_by t (map_of m' c') s'"
proof -
  define b where "b = countedBucket t window (map_of m c)"
  have bw: "(rbCount b, rbResetAt b) = win_step window t s" "\<not> t > rbResetAt b"
    using countedBucket_window [OF s w] unfolding b_def by auto
  have ok: "ok \<longleftrightarrow> \<not> rbCount b > limit" and m': "m' = filter (\<lambda>(k, b). \<not> t > rbResetAt b) (AList.update c b m)"
    using a unfolding memory_Allow_eq Let_def b_def [symmetric] by (simp_all split: if_splits)
  have du: "distinct (map fst (AList.update c b m))" using d by (simp add: distinct_update)
  show "ok \<longleftrightarrow> fst (win_step window t s) \<le> limit" unfolding ok bw(1) [symmetric] by auto
  show "distinct (map fst m')" unfolding m' using du by (simp add: distinct_map_filter)
  show "seen_by t (map_of m' c) (Some (win_step window t s))"
    unfolding m' filter_keys_map_of [OF du] map_of_update_upd bw(1) [symmetric] using bw(2) by (simp add: seen_by_def)
  show "seen_by t (map_of m' c') s'" if c: "c' \<noteq> c" and s': "seen_by t (map_of m c') s'"
  proof -
    have "map_of m' c' = (case map_of m c' of Some b \<Rightarrow> if \<not> t > rbResetAt b then Some b else None | None \<Rightarrow> None)"
      unfolding m' filter_keys_map_of [OF du] map_of_update_upd using c by simp
    then show ?thesis using s' by (cases "map_of m c'") (auto simp: seen_by_def)
  qed
qed

lemma seen_by_mono: "seen_by t b s \<Longrightarrow> t \<le> t' \<Longrightarrow> seen_by t' b s"
  by (auto simp: seen_by_def split: option.splits)

text \<open>The answers to one client are those of its own window, whatever the others do.\<close>

lemma mem_run_window:
  assumes "0 < window" and "distinct (map fst m)" and "sorted (t0 # map fst xs)" and "seen_by t0 (map_of m c) s"
  shows "map fst (filter (\<lambda>(ok, t, c'). c' = c) (zip (mem_run limit window m xs) xs)) =
    win_run limit window s (map fst (filter (\<lambda>(t, c'). c' = c) xs))"
  using assms(2-)
proof (induction xs arbitrary: m t0 s)
  case Nil
  then show ?case by simp
next
  case (Cons x xs)
  obtain t c1 where x: "x = (t, c1)" by (cases x)
  obtain ok retry m' where a: "memory_Allow t t c1 limit window m = ((ok, retry), m')"
    by (metis prod.exhaust)
  have s: "seen_by t (map_of m c) s" using seen_by_mono [OF Cons.prems(3)] Cons.prems(2) x by simp
  have so: "sorted (t # map fst xs)" using Cons.prems(2) x by simp
  show ?case
  proof (cases "c1 = c")
    case True
    note st = Allow_step [OF Cons.prems(1) s assms(1) a [unfolded True]]
    from Cons.IH [OF st(2) so st(3)] True st(1) x a show ?thesis by (simp add: Let_def)
  next
    case False
    have "seen_by t (map_of m c1) (case map_of m c1 of None \<Rightarrow> None | Some b \<Rightarrow> Some (rbCount b, rbResetAt b))"
      by (auto simp: seen_by_def split: option.splits)
    note st = Allow_step [OF Cons.prems(1) this assms(1) a]
    from Cons.IH [OF st(2) so st(4) [OF False [symmetric] s]] False x a show ?thesis by (simp add: Let_def)
  qed
qed

section \<open>How many requests pass\<close>

definition passed :: "bool list \<Rightarrow> instant list \<Rightarrow> (instant \<Rightarrow> bool) \<Rightarrow> nat" where
  "passed oks ts P = length (filter (\<lambda>(ok, t). ok \<and> P t) (zip oks ts))"

lemma passed_simps [simp]:
  "passed [] [] P = 0" "passed (ok # oks) (t # ts) P = (if ok \<and> P t then 1 else 0) + passed oks ts P"
  by (simp_all add: passed_def)

text \<open>Until the window \<open>(n, r)\<close> ends at most \<open>limit - n\<close> more requests pass.\<close>

lemma passed_current:
  "sorted ts \<Longrightarrow> 0 \<le> n \<Longrightarrow>
   int (passed (win_run limit window (Some (n, r)) ts) ts (\<lambda>t. t \<le> r \<and> P t)) \<le> max 0 (limit - n)"
proof (induction ts arbitrary: n)
  case Nil
  then show ?case by simp
next
  case (Cons t ts)
  show ?case
  proof (cases "t \<le> r")
    case True
    with Cons.IH [of "n + 1"] Cons.prems show ?thesis by (auto simp: win_step_def)
  next
    case False
    have none: "passed (win_run limit window s us) us (\<lambda>t. t \<le> r \<and> P t) = 0" if "\<forall>u\<in>set us. r < u" for s us
      using that by (induction us arbitrary: s) (auto simp: Let_def)
    from False Cons.prems(1) have "\<forall>u\<in>set (t # ts). r < u" by auto
    with none [of "t # ts"] show ?thesis by simp
  qed
qed

text \<open>When no window reaches into the interval, the first request in it starts one that covers it.\<close>

lemma passed_fresh:
  assumes "0 \<le> limit" and "sorted ts" and "case s of None \<Rightarrow> True | Some (n, r) \<Rightarrow> r < t0" and "\<forall>t\<in>set ts. t0 \<le> t"
  shows "int (passed (win_run limit window s ts) ts (\<lambda>t. t0 \<le> t \<and> t \<le> t0 + window)) \<le> limit"
proof (cases ts)
  case Nil
  with assms show ?thesis by simp
next
  case (Cons t us)
  have st: "win_step window t s = (1, t + window)" using assms(3,4) Cons by (auto simp: win_step_def split: option.splits)
  have "passed oks us (\<lambda>u. t0 \<le> u \<and> u \<le> t0 + window) = passed oks us (\<lambda>u. u \<le> t + window \<and> (t0 \<le> u \<and> u \<le> t0 + window))" for oks
    unfolding passed_def using assms(4) Cons by (intro arg_cong [where f = length] filter_cong) auto
  with passed_current [of us 1 limit window "t + window" "\<lambda>u. t0 \<le> u \<and> u \<le> t0 + window"] assms(1,2) Cons st
  show ?thesis by auto
qed

lemma passed_mono: "(\<And>t. t \<in> set ts \<Longrightarrow> P t \<Longrightarrow> Q t) \<Longrightarrow> passed oks ts P \<le> passed oks ts Q"
  by (induction oks ts rule: list_induct2') (auto simp: passed_def)

lemma passed_split: "passed oks ts P \<le> passed oks ts (\<lambda>t. Q t \<and> P t) + passed oks ts (\<lambda>t. \<not> Q t \<and> P t)"
  unfolding passed_def by (induction oks ts rule: list_induct2') auto

lemma passed_twice:
  "0 \<le> limit \<Longrightarrow> sorted ts \<Longrightarrow> (case s of None \<Rightarrow> True | Some (n, r) \<Rightarrow> 0 \<le> n) \<Longrightarrow>
   int (passed (win_run limit window s ts) ts (\<lambda>t. t0 \<le> t \<and> t \<le> t0 + window)) \<le> 2 * limit"
proof (induction ts arbitrary: s)
  case Nil
  then show ?case by simp
next
  case (Cons t ts)
  let ?I = "\<lambda>t. t0 \<le> t \<and> t \<le> t0 + window"
  have n: "0 \<le> fst (win_step window t s)" using Cons.prems(3) by (auto simp: win_step_def split: option.splits)
  show ?case
  proof (cases "t0 \<le> t")
    case False
    with Cons.IH [of "Some (win_step window t s)"] Cons.prems n show ?thesis by (simp add: split_beta Let_def)
  next
    case True
    then have all: "\<forall>u\<in>set (t # ts). t0 \<le> u" using Cons.prems(2) by auto
    show ?thesis
    proof (cases s)
      case None
      with passed_fresh [of limit "t # ts" t0 None window] Cons.prems(1,2) None all show ?thesis by simp
    next
      case (Some p)
      obtain m r where p: "p = (m, r)" by (cases p)
      have cur: "int (passed (win_run limit window s (t # ts)) (t # ts) (\<lambda>u. u \<le> r \<and> ?I u)) \<le> limit"
        using passed_current [OF Cons.prems(2), of m limit window r ?I] Cons.prems(1,3) Some p by simp
      have "int (passed (win_run limit window s us) us (\<lambda>u. \<not> u \<le> r \<and> ?I u)) \<le> limit"
        if "sorted us" "\<forall>u\<in>set us. t0 \<le> u" "s = Some (m, r)" for us m s
        using that
      proof (induction us arbitrary: m s)
        case Nil
        with Cons.prems(1) show ?case by simp
      next
        case (Cons u us)
        show ?case
        proof (cases "u \<le> r")
          case True
          with Cons show ?thesis by (simp add: win_step_def)
        next
          case False
          let ?J = "\<lambda>v. u \<le> v \<and> v \<le> u + window"
          have "passed oks (u # us) (\<lambda>v. \<not> v \<le> r \<and> ?I v) \<le> passed oks (u # us) ?J" for oks
            using Cons.prems(1,2) by (intro passed_mono) auto
          moreover have "int (passed (win_run limit window s (u # us)) (u # us) ?J) \<le> limit"
            using False Cons.prems by (intro passed_fresh) (auto simp: \<open>0 \<le> limit\<close>)
          ultimately show ?thesis by (meson of_nat_mono order_trans)
        qed
      qed
      from this [OF Cons.prems(2) all] Some p
      have "int (passed (win_run limit window s (t # ts)) (t # ts) (\<lambda>u. \<not> u \<le> r \<and> ?I u)) \<le> limit" by simp
      with cur passed_split [of "win_run limit window s (t # ts)" "t # ts" ?I "\<lambda>u. u \<le> r"] show ?thesis by linarith
    qed
  qed
qed

section \<open>The middleware under a stream of requests\<close>

definition limited :: "Request \<Rightarrow> bool" where
  "limited r \<longleftrightarrow> \<not> (rqMethod r = ''OPTIONS'' \<or> rqPath r = ''/healthz'' \<or> rqPath r = ''/readyz'')"

fun mw_run :: "ServerConfig \<Rightarrow> memoryRateLimiter \<Rightarrow> (instant \<times> Request) list \<Rightarrow> Response option list" where
  "mw_run cfg m [] = []"
| "mw_run cfg m ((t, r) # xs) =
     (let (resp, m') = rateLimitMiddleware (memory_limiter t) cfg r m in resp # mw_run cfg m' xs)"

lemma mw_step:
  assumes "0 < cfgRateLimitRequests cfg" "0 < cfgRateLimitWindow cfg"
  shows "\<not> limited r \<Longrightarrow> rateLimitMiddleware (memory_limiter t) cfg r m = (None, m)"
    and "limited r \<Longrightarrow> memory_Allow t t (clientAddress r) (cfgRateLimitRequests cfg) (cfgRateLimitWindow cfg) m = ((ok, d), m') \<Longrightarrow>
      \<exists>resp. rateLimitMiddleware (memory_limiter t) cfg r m = (resp, m') \<and> (resp = None \<longleftrightarrow> ok)"
  using assms by (auto simp: rateLimitMiddleware_def memory_limiter_def limited_def Let_def split: bool.splits)

lemma mw_run_mem:
  assumes "0 < cfgRateLimitRequests cfg" "0 < cfgRateLimitWindow cfg"
  shows "filter (\<lambda>(ok, t, r). limited r) (zip (map Option.is_none (mw_run cfg m xs)) xs) =
    zip (mem_run (cfgRateLimitRequests cfg) (cfgRateLimitWindow cfg) m
          (map (\<lambda>(t, r). (t, clientAddress r)) (filter (\<lambda>(t, r). limited r) xs)))
        (filter (\<lambda>(t, r). limited r) xs)"
proof (induction xs arbitrary: m)
  case (Cons x xs)
  obtain t r where x: "x = (t, r)" by (cases x)
  show ?case
  proof (cases "limited r")
    case True
    obtain ok d m' where a: "memory_Allow t t (clientAddress r) (cfgRateLimitRequests cfg) (cfgRateLimitWindow cfg) m = ((ok, d), m')"
      by (metis prod.exhaust)
    from mw_step(2) [OF assms True a] obtain resp
      where "rateLimitMiddleware (memory_limiter t) cfg r m = (resp, m')" "resp = None \<longleftrightarrow> ok" by blast
    then show ?thesis using x True a Cons.IH [of m'] by (simp add: Let_def Option.is_none_def)
  next
    case False
    then show ?thesis using x mw_step(1) [OF assms False] Cons.IH [of m] by (simp add: Let_def)
  qed
qed simp

lemma count_passed:
  "length oks = length xs \<Longrightarrow>
   length (filter (\<lambda>(ok, t, c'). ok \<and> c' = c \<and> P t) (zip oks xs)) =
   passed (map fst (filter (\<lambda>(ok, t, c'). c' = c) (zip oks xs))) (map fst (filter (\<lambda>(t, c'). c' = c) xs)) P"
  by (induction oks xs rule: list_induct2) auto

lemma length_mem_run [simp]: "length (mem_run limit window m xs) = length xs"
  by (induction xs arbitrary: m) (auto simp: Let_def split_beta)

lemma length_mw_run [simp]: "length (mw_run cfg m xs) = length xs"
  by (induction xs arbitrary: m) (auto simp: Let_def split_beta)

lemma mem_run_bound:
  assumes "0 < window" and "0 \<le> limit" and "sorted (map fst xs)"
  shows "int (length (filter (\<lambda>(ok, t, c'). ok \<and> c' = c \<and> t0 \<le> t \<and> t \<le> t0 + window)
     (zip (mem_run limit window [] xs) xs))) \<le> 2 * limit"
proof (cases xs)
  case (Cons x ys)
  have "sorted (fst x # map fst xs)" using assms(3) Cons by simp
  with mem_run_window [OF assms(1), of "[]" "fst x" xs c None] have
    w: "map fst (filter (\<lambda>(ok, t, c'). c' = c) (zip (mem_run limit window [] xs) xs)) =
      win_run limit window None (map fst (filter (\<lambda>(t, c'). c' = c) xs))" by (simp add: seen_by_def)
  have "sorted (map fst (filter (\<lambda>(t, c'). c' = c) xs))" using assms(3) by (rule sorted_filter)
  from passed_twice [OF assms(2) this, of None window t0] show ?thesis
    unfolding count_passed [OF length_mem_run] w by simp
qed (use assms(2) in simp)

text \<open>
  C30: In any interval of the length of the window, the middleware lets at most twice the limit of one
  client's requests pass (a fixed window cannot promise the limit itself: the end of one window and
  the start of the next fit in one interval); preflights and health checks are not counted.
\<close>

theorem rate_limit_bound:
  assumes "0 < cfgRateLimitRequests cfg" and "0 < cfgRateLimitWindow cfg" and "sorted (map fst xs)"
  shows "int (length (filter (\<lambda>(resp, t, r). resp = None \<and> limited r \<and> clientAddress r = c \<and>
     t0 \<le> t \<and> t \<le> t0 + cfgRateLimitWindow cfg) (zip (mw_run cfg [] xs) xs))) \<le> 2 * cfgRateLimitRequests cfg"
proof -
  let ?ys = "filter (\<lambda>(t, r). limited r) xs" and ?a = "\<lambda>(t, r). (t, clientAddress r)"
  let ?P = "\<lambda>(ok, t, r). ok \<and> clientAddress r = c \<and> t0 \<le> t \<and> t \<le> t0 + cfgRateLimitWindow cfg"
  let ?Q = "\<lambda>(ok, t, c'). ok \<and> c' = c \<and> t0 \<le> t \<and> t \<le> t0 + cfgRateLimitWindow cfg"
  have all: "length (filter (\<lambda>(resp, t, r). resp = None \<and> limited r \<and> clientAddress r = c \<and>
      t0 \<le> t \<and> t \<le> t0 + cfgRateLimitWindow cfg) (zip os xs)) =
    length (filter ?P (filter (\<lambda>(ok, t, r). limited r) (zip (map Option.is_none os) xs)))" for os
    by (induction os xs rule: list_induct2') (auto simp: Option.is_none_def)
  have addr: "length (filter ?P (zip oks ys)) = length (filter ?Q (zip oks (map ?a ys)))" for oks and ys :: "(instant \<times> Request) list"
    by (induction oks ys rule: list_induct2') auto
  have "sorted (map fst (map ?a ?ys))"
    using sorted_filter [OF assms(3)] by (simp add: case_prod_beta comp_def)
  then have "int (length (filter ?Q (zip (mem_run (cfgRateLimitRequests cfg) (cfgRateLimitWindow cfg) [] (map ?a ?ys)) (map ?a ?ys))))
      \<le> 2 * cfgRateLimitRequests cfg"
    using assms(1,2) by (intro mem_run_bound) simp_all
  then show ?thesis unfolding all mw_run_mem [OF assms(1,2)] addr .
qed

theorem rate_limit_bound_witness:
  "let cfg = (NewServerConfig [] ''key'')\<lparr>cfgRateLimitRequests := 1, cfgRateLimitWindow := 10\<rparr>;
       r = \<lparr>rqMethod = ''GET'', rqPath = ''/api/lru/stats'', rqHeader = (\<lambda>_. []), rqQuery = (\<lambda>_. []), rqRemoteAddr = ''10.0.0.1:80''\<rparr>;
       xs = [(0, r), (1, r), (9, r), (11, r), (12, r)]
   in map Option.is_none (mw_run cfg [] xs) = [True, False, False, True, False] \<and>
      int (length (filter (\<lambda>(resp, t, r). resp = None \<and> limited r \<and> clientAddress r = ''10.0.0.1'' \<and>
        3 \<le> t \<and> t \<le> 3 + cfgRateLimitWindow cfg) (zip (mw_run cfg [] xs) xs))) \<le> 2 * cfgRateLimitRequests cfg"
proof -
  let ?cfg = "(NewServerConfig [] ''key'')\<lparr>cfgRateLimitRequests := 1, cfgRateLimitWindow := 10\<rparr>"
  let ?r = "\<lparr>rqMethod = ''GET'', rqPath = ''/api/lru/stats'', rqHeader = (\<lambda>_. []), rqQuery = (\<lambda>_. []), rqRemoteAddr = ''10.0.0.1:80''\<rparr>"
  let ?xs = "[(0, ?r), (1, ?r), (9, ?r), (11, ?r), (12, ?r)]"
  have "map Option.is_none (mw_run ?cfg [] ?xs) = [True, False, False, True, False]" by code_simp
  moreover have "int (length (filter (\<lambda>(resp, t, r). resp = None \<and> limited r \<and> clientAddress r = ''10.0.0.1'' \<and>
      3 \<le> t \<and> t \<le> 3 + cfgRateLimitWindow ?cfg) (zip (mw_run ?cfg [] ?xs) ?xs))) \<le> 2 * cfgRateLimitRequests ?cfg"
    by (rule rate_limit_bound) (code_simp, code_simp, code_simp)
  ultimately show ?thesis unfolding Let_def by (rule conjI)
qed

lemma zip_fst_eq: "zip as cs = zip bs cs \<Longrightarrow> length as = length cs \<Longrightarrow> length bs = length cs \<Longrightarrow> as = bs"
  by (metis map_fst_zip)

lemma all_is_none: "map Option.is_none os = replicate n True \<Longrightarrow> os = replicate n None"
  by (induction os arbitrary: n) (auto simp: Option.is_none_def Cons_replicate_eq)

lemma mem_run_fresh_clients:
  assumes "1 \<le> limit" "0 < window"
  shows "distinct (map fst m) \<Longrightarrow> distinct (map snd xs) \<Longrightarrow> set (map snd xs) \<inter> set (map fst m) = {} \<Longrightarrow>
    mem_run limit window m xs = replicate (length xs) True"
proof (induction xs arbitrary: m)
  case (Cons x xs)
  obtain t c where x: "x = (t, c)" by (cases x)
  obtain ok d m' where a: "memory_Allow t t c limit window m = ((ok, d), m')" by (metis prod.exhaust)
  have n: "map_of m c = None" using Cons.prems(3) x by (simp add: map_of_eq_None_iff)
  have "seen_by t (map_of m c) None" using n by (simp add: seen_by_def)
  note st = Allow_step [OF Cons.prems(1) this assms(2) a]
  have ok: "ok" using st(1) assms(1) by (simp add: win_step_def)
  have "m' = filter (\<lambda>(k, b). \<not> t > rbResetAt b) (AList.update c (countedBucket t window (map_of m c)) m)"
    using a unfolding memory_Allow_eq Let_def by (simp split: if_splits)
  then have "set (map fst m') \<subseteq> insert c (set (map fst m))"
    using dom_update [of c "countedBucket t window (map_of m c)" m] by auto
  moreover have "c \<notin> set (map snd xs)" and "set (map snd xs) \<inter> set (map fst m) = {}" using Cons.prems(2,3) x by simp_all
  ultimately have "set (map snd xs) \<inter> set (map fst m') = {}" by blast
  with Cons.IH [OF st(2)] Cons.prems(2) x a ok show ?case by (simp add: Let_def)
qed simp

text \<open>
  The client is whoever the \<open>X-Forwarded-For\<close> header says: a sender that puts another name in the
  header of every request is never limited, from one address and at one moment.
\<close>

theorem rate_limit_spoof:
  assumes "0 < cfgRateLimitRequests cfg" and "0 < cfgRateLimitWindow cfg"
    and "distinct names" and "list_all (\<lambda>f. f \<noteq> [] \<and> list_all (\<lambda>ch. ch \<noteq> CHR '','' \<and> \<not> isSpace ch) f) names"
  shows "mw_run cfg [] (map (\<lambda>f. (t, r\<lparr>rqHeader := (rqHeader r)(''X-Forwarded-For'' := f)\<rparr>)) names) =
    replicate (length names) None"
proof -
  let ?req = "\<lambda>f. (t, r\<lparr>rqHeader := (rqHeader r)(''X-Forwarded-For'' := f)\<rparr>)"
  let ?xs = "map ?req names"
  have addr: "clientAddress (snd (?req f)) = f" if "f \<in> set names" for f
  proof -
    have f: "f \<noteq> []" "CHR '','' \<notin> set f" "\<forall>ch\<in>set f. \<not> isSpace ch" using that assms(4) by (auto simp: list_all_iff)
    then have "TrimSpace f = f" by (intro TrimSpace_id) auto
    with f show ?thesis by (simp add: clientAddress_def)
  qed
  show ?thesis
  proof (cases "limited r")
    case False
    then have "\<not> limited (snd (?req f))" for f by (simp add: limited_def)
    then have "mw_run cfg [] (map ?req fs) = replicate (length fs) None" for fs
      by (induction fs) (simp_all add: mw_step(1) [OF assms(1,2)])
    then show ?thesis .
  next
    case True
    then have all: "filter (\<lambda>(t, r). limited r) ?xs = ?xs" by (auto simp: limited_def filter_id_conv)
    have a: "map (\<lambda>(t, r). (t, clientAddress r)) ?xs = map (\<lambda>f. (t, f)) names" using addr by simp
    have "mem_run (cfgRateLimitRequests cfg) (cfgRateLimitWindow cfg) [] (map (\<lambda>f. (t, f)) names) = replicate (length names) True"
      using mem_run_fresh_clients [of "cfgRateLimitRequests cfg" "cfgRateLimitWindow cfg" "[]" "map (\<lambda>f. (t, f)) names"]
        assms(1-3) by (simp add: comp_def)
    with mw_run_mem [OF assms(1,2), of "[]" ?xs] have
      z: "filter (\<lambda>(ok, t, r). limited r) (zip (map Option.is_none (mw_run cfg [] ?xs)) ?xs) = zip (replicate (length names) True) ?xs"
      unfolding all a by simp
    have nf: "filter (\<lambda>(ok, t, r). limited r) (zip oks ?xs) = zip oks ?xs" for oks
    proof -
      have "limited (snd p)" if "p \<in> set ?xs" for p using all that by (auto simp: filter_id_conv)
      then show ?thesis by (fastforce simp: filter_id_conv dest: set_zip_rightD)
    qed
    have "zip (map Option.is_none (mw_run cfg [] ?xs)) ?xs = zip (replicate (length names) True) ?xs"
      using z unfolding nf .
    then have "map Option.is_none (mw_run cfg [] ?xs) = replicate (length names) True"
      by (rule zip_fst_eq) simp_all
    then show ?thesis by (rule all_is_none)
  qed
qed

theorem rate_limit_spoof_witness:
  "let cfg = (NewServerConfig [] ''key'')\<lparr>cfgRateLimitRequests := 1\<rparr>;
       r = \<lparr>rqMethod = ''GET'', rqPath = ''/api/lru/stats'', rqHeader = (\<lambda>_. []), rqQuery = (\<lambda>_. []), rqRemoteAddr = ''10.0.0.1:80''\<rparr>
   in mw_run cfg [] (map (\<lambda>f. (7, r\<lparr>rqHeader := (rqHeader r)(''X-Forwarded-For'' := f)\<rparr>)) [''a'', ''b'', ''c'']) =
        replicate (length [''a'', ''b'', ''c'']) None"
  unfolding Let_def by (rule rate_limit_spoof) (code_simp, code_simp, code_simp, code_simp)

section \<open>The limiter in the database under a stream of calls\<close>

fun sql_run :: "int \<Rightarrow> duration \<Rightarrow> rate_limits \<Rightarrow> (rlFailure option \<times> instant \<times> string) list \<Rightarrow> bool list" where
  "sql_run limit window db [] = []"
| "sql_run limit window db ((f, t, c) # xs) =
     (let (r, db') = sqlite_Allow f t c limit window db
      in (case r of Inl e \<Rightarrow> False | Inr (ok, retry) \<Rightarrow> ok) # sql_run limit window db' xs)"

definition rowCount :: "rate_limits \<Rightarrow> string \<Rightarrow> int \<Rightarrow> int" where
  "rowCount db c ws = (case map_of db (c, ws) of None \<Rightarrow> 0 | Some n \<Rightarrow> n)"

lemma truncateTime_mono:
  assumes "t \<le> t'" "0 < d"
  shows "truncateTime t d \<le> truncateTime t' d"
proof -
  have eq: "truncateTime u d = d * ((u + 62135596800 * second) div d) - 62135596800 * second" for u
    using assms(2) minus_mod_eq_mult_div [of "u + 62135596800 * second" d] by (simp add: truncateTime_def)
  have "(t + 62135596800 * second) div d \<le> (t' + 62135596800 * second) div d"
    using assms by (intro zdiv_mono1) auto
  then show ?thesis using assms(2) unfolding eq by simp
qed

lemma unixMilli_mono: "a \<le> b \<Longrightarrow> unixMilli a \<le> unixMilli b"
  unfolding unixMilli_def by (rule zdiv_mono1) simp_all

lemma sqlite_step:
  assumes d: "distinct (map fst db)" and w: "0 < window"
    and a: "sqlite_Allow f t c limit window db = (r, db')"
  shows "distinct (map fst db')"
    and "r = Inr (True, d) \<Longrightarrow> rowCount db c (unixMilli (truncateTime t window)) < limit \<and>
      rowCount db' c (unixMilli (truncateTime t window)) = rowCount db c (unixMilli (truncateTime t window)) + 1"
    and "\<not> ws < unixMilli (truncateTime t window) \<Longrightarrow> rowCount db c' ws \<le> rowCount db' c' ws"
proof -
  define k where "k = (c, unixMilli (truncateTime t window))"
  define db1 where "db1 = AList.update k (rowCount db c (snd k) + 1) db"
  define lim where "lim = unixMilli (truncateTime t window - 2 * window)"
  define db2 where "db2 = (if f = Some DeleteFails then db1 else filter (\<lambda>((k, w), n). \<not> w < lim) db1)"
  have count: "(case map_of db k of None \<Rightarrow> 1 | Some n \<Rightarrow> n + 1) = rowCount db c (snd k) + 1"
    unfolding rowCount_def k_def by (simp split: option.splits)
  have res: "(r = Inl e \<longrightarrow> db' = db) \<and> (r = Inr (b, x) \<longrightarrow> db' = db2 \<and> (b \<longleftrightarrow> \<not> rowCount db c (snd k) + 1 > limit))" for e b x
    using a unfolding sqlite_Allow_def Let_def count [unfolded k_def snd_conv] db2_def db1_def lim_def k_def
    by (auto split: option.splits rlFailure.splits if_splits)
  have d1: "distinct (map fst db1)" unfolding db1_def using d by (simp add: distinct_update)
  then have d2: "distinct (map fst db2)" unfolding db2_def by (simp add: distinct_map_filter)
  have le: "lim \<le> snd k" unfolding lim_def k_def using w by (simp add: unixMilli_mono)
  have "map_of db2 (c', ws) = map_of db1 (c', ws)" if "lim \<le> ws" for c' ws
    using that filter_keys_map_of [OF d1, of "\<lambda>(k, w) n. \<not> w < lim" "(c', ws)"]
    unfolding db2_def by (auto simp: case_prod_beta split: option.splits)
  then have row: "rowCount db2 c' ws = (if (c', ws) = k then rowCount db c' ws + 1 else rowCount db c' ws)" if "lim \<le> ws" for c' ws
    using that unfolding rowCount_def by (auto simp: db1_def k_def map_of_update_upd rowCount_def)
  have "r = Inl e \<Longrightarrow> db' = db" "r = Inr (b, x) \<Longrightarrow> db' = db2" for e b x using res by blast+
  then have "db' = db \<or> db' = db2" by (metis sum.exhaust prod.exhaust)
  then show "distinct (map fst db')" using d d2 by auto
  show "rowCount db c (unixMilli (truncateTime t window)) < limit \<and>
      rowCount db' c (unixMilli (truncateTime t window)) = rowCount db c (unixMilli (truncateTime t window)) + 1"
    if "r = Inr (True, d)" for d
    using res [of undefined True d] that row [OF le, of c] unfolding k_def by auto
  show "rowCount db c' ws \<le> rowCount db' c' ws" if "\<not> ws < unixMilli (truncateTime t window)" for c' ws
    using \<open>db' = db \<or> db' = db2\<close> row [of ws c'] le that unfolding k_def by auto
qed

lemma sql_run_bound:
  assumes w: "0 < window"
  shows "distinct (map fst db) \<Longrightarrow> sorted (map (\<lambda>(f, t, c). t) xs) \<Longrightarrow>
    int (length (filter (\<lambda>(ok, f, t, c'). ok \<and> c' = c \<and> truncateTime t window = ws) (zip (sql_run limit window db xs) xs)))
    \<le> max 0 (limit - rowCount db c (unixMilli ws))"
proof (induction xs arbitrary: db)
  case (Cons x xs)
  obtain f t c1 where x: "x = (f, t, c1)" by (cases x)
  obtain r db' where a: "sqlite_Allow f t c1 limit window db = (r, db')" by (metis prod.exhaust)
  note st = sqlite_step [OF Cons.prems(1) w a]
  let ?n = "length (filter (\<lambda>(ok, f, t, c'). ok \<and> c' = c \<and> truncateTime t window = ws) (zip (sql_run limit window db' xs) xs))"
  have so: "sorted (map (\<lambda>(f, t, c). t) xs)" and later: "\<forall>(f, t', c)\<in>set xs. t \<le> t'" using Cons.prems(2) x by auto
  have IH: "int ?n \<le> max 0 (limit - rowCount db' c (unixMilli ws))" using Cons.IH [OF st(1) so] .
  show ?case
  proof (cases "ws < truncateTime t window")
    case True
    have "filter (\<lambda>(ok, f, t, c'). ok \<and> c' = c \<and> truncateTime t window = ws) (zip oks xs) = []" for oks
      using later True truncateTime_mono [OF _ w, of t] by (fastforce simp: filter_empty_conv dest: set_zip_rightD)
    then show ?thesis using x a True by (simp add: Let_def)
  next
    case False
    then have keep: "rowCount db c (unixMilli ws) \<le> rowCount db' c (unixMilli ws)"
      using st(3) unixMilli_mono [of "truncateTime t window" ws] by auto
    show ?thesis
    proof (cases "(case r of Inl e \<Rightarrow> False | Inr (ok, retry) \<Rightarrow> ok) \<and> c1 = c \<and> truncateTime t window = ws")
      case True
      then obtain d where "r = Inr (True, d)" by (auto split: sum.splits)
      from st(2) [OF this] True IH x a show ?thesis by (simp add: Let_def)
    next
      case False
      then show ?thesis using IH keep x a by (auto simp: Let_def)
    qed
  qed
qed simp

text \<open>
  C31: The limiter in the database keeps the limit exactly: of one client's calls in one window (the
  windows are aligned) at most the limit is allowed, whatever the other clients do, and although
  transactions fail and are rolled back, or the clean-up of old windows fails.
\<close>

theorem sqlite_limit_exact:
  assumes "0 < window" and "0 \<le> limit" and "sorted (map (\<lambda>(f, t, c). t) xs)"
  shows "int (length (filter (\<lambda>(ok, f, t, c'). ok \<and> c' = c \<and> truncateTime t window = ws)
    (zip (sql_run limit window [] xs) xs))) \<le> limit"
  using sql_run_bound [OF assms(1), of "[]" xs c ws limit] assms(2,3) by (simp add: rowCount_def)

theorem sqlite_limit_exact_witness:
  "let xs = [(None, 1 * second, ''a''), (Some (CommitFails ''disk full''), 2 * second, ''a''), (None, 3 * second, ''a''), (None, 4 * second, ''b''), (None, 5 * second, ''a''), (None, 10 * second, ''a'')]
   in sql_run 2 (10 * second) [] xs = [True, False, True, True, False, True] \<and>
      int (length (filter (\<lambda>(ok, f, t, c'). ok \<and> c' = ''a'' \<and> truncateTime t (10 * second) = 0) (zip (sql_run 2 (10 * second) [] xs) xs))) \<le> 2"
proof -
  let ?xs = "[(None, 1 * second, ''a''), (Some (CommitFails ''disk full''), 2 * second, ''a''), (None, 3 * second, ''a''), (None, 4 * second, ''b''), (None, 5 * second, ''a''), (None, 10 * second, ''a'')]"
  have "sql_run 2 (10 * second) [] ?xs = [True, False, True, True, False, True]" by code_simp
  moreover have "int (length (filter (\<lambda>(ok, f, t, c'). ok \<and> c' = ''a'' \<and> truncateTime t (10 * second) = 0) (zip (sql_run 2 (10 * second) [] ?xs) ?xs))) \<le> 2"
    by (rule sqlite_limit_exact) (code_simp, code_simp, code_simp)
  ultimately show ?thesis unfolding Let_def by (rule conjI)
qed

section \<open>The interface of the limiters\<close>

text \<open>
  What the middleware relies on when it tells a client to come back: the time left is that of the window. \<open>good\<close> is what a
  limiter keeps of its state.
\<close>

locale limiter_contract =
  fixes allow :: "'s limiter" and good :: "'s \<Rightarrow> bool" and window :: duration
  assumes kept: "0 < window \<Longrightarrow> good s \<Longrightarrow> allow c limit window s = (r, s') \<Longrightarrow> good s'"
    and time_left: "0 < window \<Longrightarrow> good s \<Longrightarrow> allow c limit window s = (Inr (False, d), s') \<Longrightarrow> 0 \<le> d \<and> d \<le> window"
begin

lemma middleware_answers:
  assumes "good s" and "cfgRateLimitWindow cfg = window" and "rateLimitMiddleware allow cfg r s = (resp, s')"
  shows "good s' \<and>
    (case resp of None \<Rightarrow> True
     | Some x \<Rightarrow> rsStatus x = 503 \<or> rsStatus x = 429 \<and> (\<exists>n. rsHeaders x = [(''Retry-After'', showInt n)] \<and> 1 \<le> n \<and> n \<le> window div second + 1))"
proof -
  obtain a s1 where a: "allow (clientAddress r) (cfgRateLimitRequests cfg) window s = (a, s1)" by fastforce
  have n: "\<exists>n. showInt (d div second + 1) = showInt n \<and> 1 \<le> n \<and> n \<le> window div second + 1" if "0 \<le> d" "d \<le> window" for d
    by (rule exI [of _ "d div second + 1"]) (use that in \<open>simp add: zdiv_mono1 pos_imp_zdiv_nonneg_iff\<close>)
  show ?thesis
    using assms a kept [OF _ assms(1) a] time_left [OF _ assms(1), of "clientAddress r" "cfgRateLimitRequests cfg"] n
    by (auto simp: rateLimitMiddleware_def http_Error_def Let_def not_le split: if_splits sum.splits bool.splits)
qed

end

definition buckets_ahead :: "instant \<Rightarrow> duration \<Rightarrow> memoryRateLimiter \<Rightarrow> bool" where
  "buckets_ahead now window m \<longleftrightarrow> (\<forall>(k, b)\<in>set m. rbResetAt b \<le> now + window)"

lemma update_set: "set (AList.update k v m) \<subseteq> insert (k, v) (set m)"
  by (induction m) auto

lemma memory_limiter_law:
  assumes w: "0 < window" and g: "buckets_ahead now window m" and a: "memory_limiter now c limit window m = (r, m')"
  shows "buckets_ahead now window m' \<and> (\<forall>d. r = Inr (False, d) \<longrightarrow> 0 \<le> d \<and> d \<le> window)"
proof -
  let ?b = "countedBucket now window (map_of m c)"
  have b: "rbResetAt ?b \<le> now + window" "now \<le> rbResetAt ?b"
    using g w by (auto simp: countedBucket_def buckets_ahead_def dest!: map_of_SomeD split: option.split)
  have m': "m' = filter (\<lambda>(k, b). \<not> now > rbResetAt b) (AList.update c ?b m)"
    and d: "r = Inr (False, d) \<Longrightarrow> d = rbResetAt ?b - now" for d
    using a by (auto simp: memory_limiter_def memory_Allow_eq Let_def split: if_splits)
  have "buckets_ahead now window m'" using g b(1) update_set [of c ?b m] by (auto simp: buckets_ahead_def m')
  with b d show ?thesis by force
qed

interpretation memoryLimiter: limiter_contract "memory_limiter now" "buckets_ahead now window" window for now window
  by unfold_locales (use memory_limiter_law in blast)+

interpretation sqliteLimiter: limiter_contract "sqlite_Allow fails now" "\<lambda>_. True" window for fails now window
proof
  fix db c limit d db'
  assume w: "0 < window" and a: "sqlite_Allow fails now c limit window db = (Inr (False, d), db')"
  have "d = window - (now + 62135596800 * second) mod window"
    using a w by (auto simp: sqlite_Allow_def truncateTime_def Let_def split: if_splits option.splits rlFailure.splits)
  with pos_mod_bound [OF w] pos_mod_sign [OF w] show "0 \<le> d \<and> d \<le> window" by (simp add: less_imp_le)
qed simp

end
