(* ===== verification/Store_Factory.thy ===== *)
theory Store_Factory
  imports Sharded Write_Back
begin

text \<open>
  api/store_factory.go: the caches behind the API. The dynamic types of the interface value
  \<open>cache.Cache\<close> that the server builds are the constructors of \<open>baseCache\<close> (what \<open>newBaseCache\<close> makes)
  and \<open>storeCache\<close> (a base cache, the sharded cache, or a base cache under a write policy); a method
  call on the interface is a case distinction. All store entries of the server share one backing
  store (cmd/server/main.go), so a method takes the store and returns it.

  Then \<open>reconfigureWritePolicy\<close> and \<open>cloneEntriesIntoCache\<close> of api/handler.go, which replace the
  cache of an entry by a copy under another write policy.
\<close>

section \<open>Base caches\<close>

datatype baseCache = BaseLRU LRUCache | BaseLFU LFUCache | BaseARC ARCCache

definition newBaseCache :: "string \<Rightarrow> int \<Rightarrow> error + baseCache" where
  "newBaseCache policy capacity =
     (if policy = ''lru'' then Inr (BaseLRU (lru_New capacity))
      else if policy = ''lfu'' then Inr (BaseLFU (lfu_New capacity))
      else if policy = ''arc'' then Inr (BaseARC (arc_New capacity))
      else Inl (''unsupported policy: '' @ policy))"

fun base_Get :: "instant \<Rightarrow> key \<Rightarrow> baseCache \<Rightarrow> bytes option \<times> baseCache" where
  "base_Get now k (BaseLRU c) = apsnd BaseLRU (lru_Get now k c)"
| "base_Get now k (BaseLFU c) = apsnd BaseLFU (lfu_Get now k c)"
| "base_Get now k (BaseARC c) = apsnd BaseARC (arc_Get now k c)"

fun base_Set :: "instant \<Rightarrow> key \<Rightarrow> bytes \<Rightarrow> duration \<Rightarrow> baseCache \<Rightarrow> error option \<times> evictCall list \<times> baseCache" where
  "base_Set now k v ttl (BaseLRU c) = apsnd (apsnd BaseLRU) (lru_Set now k v ttl c)"
| "base_Set now k v ttl (BaseLFU c) = apsnd (apsnd BaseLFU) (lfu_Set now k v ttl c)"
| "base_Set now k v ttl (BaseARC c) = apsnd (apsnd BaseARC) (arc_Set now k v ttl c)"

fun base_Delete :: "key \<Rightarrow> baseCache \<Rightarrow> bool \<times> baseCache" where
  "base_Delete k (BaseLRU c) = apsnd BaseLRU (lru_Delete k c)"
| "base_Delete k (BaseLFU c) = apsnd BaseLFU (lfu_Delete k c)"
| "base_Delete k (BaseARC c) = apsnd BaseARC (arc_Delete k c)"

fun base_Peek :: "instant \<Rightarrow> key \<Rightarrow> baseCache \<Rightarrow> bytes option \<times> baseCache" where
  "base_Peek now k (BaseLRU c) = apsnd BaseLRU (lru_Peek now k c)"
| "base_Peek now k (BaseLFU c) = apsnd BaseLFU (lfu_Peek now k c)"
| "base_Peek now k (BaseARC c) = apsnd BaseARC (arc_Peek now k c)"

fun base_Snapshot :: "instant \<Rightarrow> baseCache \<Rightarrow> SnapshotResult option" where
  "base_Snapshot now (BaseLRU c) = lru_Snapshot now c"
| "base_Snapshot now (BaseLFU c) = lfu_Snapshot now c"
| "base_Snapshot now (BaseARC c) = arc_Snapshot now c"

text \<open>The methods that act on the receiver's state alone.\<close>

fun base_map :: "(LRUCache \<Rightarrow> LRUCache) \<Rightarrow> (LFUCache \<Rightarrow> LFUCache) \<Rightarrow> (ARCCache \<Rightarrow> ARCCache) \<Rightarrow> baseCache \<Rightarrow> baseCache" where
  "base_map f g h (BaseLRU c) = BaseLRU (f c)"
| "base_map f g h (BaseLFU c) = BaseLFU (g c)"
| "base_map f g h (BaseARC c) = BaseARC (h c)"

fun base_read :: "(LRUCache \<Rightarrow> 'r) \<Rightarrow> (LFUCache \<Rightarrow> 'r) \<Rightarrow> (ARCCache \<Rightarrow> 'r) \<Rightarrow> baseCache \<Rightarrow> 'r" where
  "base_read f g h (BaseLRU c) = f c"
| "base_read f g h (BaseLFU c) = g c"
| "base_read f g h (BaseARC c) = h c"

definition base_cache :: "baseCache Cache" where
  "base_cache = \<lparr>mGet = base_Get, mSet = base_Set, mDelete = base_Delete, mPeek = base_Peek,
     mKeys = (\<lambda>now. base_read (mKeys lru_cache now) (mKeys lfu_cache now) (mKeys arc_cache now)),
     mLen = base_read (mLen lru_cache) (mLen lfu_cache) (mLen arc_cache),
     mCapacity = base_read (mCapacity lru_cache) (mCapacity lfu_cache) (mCapacity arc_cache),
     mStats = base_read (mStats lru_cache) (mStats lfu_cache) (mStats arc_cache),
     mUpdStats = (\<lambda>f. base_map (mUpdStats lru_cache f) (mUpdStats lfu_cache f) (mUpdStats arc_cache f)),
     mSnapshot = base_Snapshot,
     mPurge = base_map (mPurge lru_cache) (mPurge lfu_cache) (mPurge arc_cache),
     mSetEvictionCallback = (\<lambda>b. base_map (mSetEvictionCallback lru_cache b)
       (mSetEvictionCallback lfu_cache b) (mSetEvictionCallback arc_cache b))\<rparr>"

subsection \<open>The contract\<close>

definition base_ok :: "baseCache \<Rightarrow> bool" where
  "base_ok = base_read (\<lambda>c. \<exists>s. lru_sim c s \<and> lruSpec_ok s) (\<lambda>c. \<exists>s. lfu_sim c s \<and> lfuSpec_ok s)
     (\<lambda>c. \<exists>s. arc_sim c s \<and> arcSpec_ok s)"

definition base_live :: "baseCache \<Rightarrow> key \<rightharpoonup> bytes \<times> Time" where
  "base_live = base_read (\<lambda>c. live_of (lsItems (lru_abs c))) lfu_live arc_live"

lemma base_sel [simp]:
  "mGet base_cache = base_Get" "mSet base_cache = base_Set" "mDelete base_cache = base_Delete"
  "mPeek base_cache = base_Peek" "mSnapshot base_cache = base_Snapshot"
  by (simp_all add: base_cache_def)

lemma lru_sel: "mGet lru_cache = lru_Get" "mSet lru_cache = lru_Set" "mDelete lru_cache = lru_Delete" "mPeek lru_cache = lru_Peek"
  by (simp_all add: lru_cache_def)

lemma lfu_sel: "mGet lfu_cache = lfu_Get" "mSet lfu_cache = lfu_Set" "mDelete lfu_cache = lfu_Delete" "mPeek lfu_cache = lfu_Peek"
  by (simp_all add: lfu_cache_def)

lemma arc_sel: "mGet arc_cache = arc_Get" "mSet arc_cache = arc_Set" "mDelete arc_cache = arc_Delete" "mPeek arc_cache = arc_Peek"
  by (simp_all add: arc_cache_def)

lemmas base_simps = base_ok_def base_live_def base_cache_def

lemma base_Get_law:
  assumes i: "base_ok c" and g: "base_Get now k c = (r, c')"
  shows "base_ok c' \<and> r = look now (base_live c k) \<and> base_live c' = (base_live c)(k := keep now (base_live c k))"
proof (cases c)
  case (BaseLRU d)
  then obtain d' where "lru_Get now k d = (r, d')" "c' = BaseLRU d'" using g by (cases "lru_Get now k d") auto
  with lru.get_law [unfolded lru_sel, of d now k r d'] i BaseLRU show ?thesis by (simp add: base_simps)
next
  case (BaseLFU d)
  then obtain d' where "lfu_Get now k d = (r, d')" "c' = BaseLFU d'" using g by (cases "lfu_Get now k d") auto
  with lfu.get_law [unfolded lfu_sel, of d now k r d'] i BaseLFU show ?thesis by (simp add: base_simps)
next
  case (BaseARC d)
  then obtain d' where "arc_Get now k d = (r, d')" "c' = BaseARC d'" using g by (cases "arc_Get now k d") auto
  with arc.get_law [unfolded arc_sel, of d now k r d'] i BaseARC show ?thesis by (simp add: base_simps)
qed

lemma base_Peek_law:
  assumes i: "base_ok c" and g: "base_Peek now k c = (r, c')"
  shows "base_ok c' \<and> r = look now (base_live c k) \<and> base_live c' = (base_live c)(k := keep now (base_live c k))"
proof (cases c)
  case (BaseLRU d)
  then obtain d' where "lru_Peek now k d = (r, d')" "c' = BaseLRU d'" using g by (cases "lru_Peek now k d") auto
  with lru.peek_law [unfolded lru_sel, of d now k r d'] i BaseLRU show ?thesis by (simp add: base_simps)
next
  case (BaseLFU d)
  then obtain d' where "lfu_Peek now k d = (r, d')" "c' = BaseLFU d'" using g by (cases "lfu_Peek now k d") auto
  with lfu.peek_law [unfolded lfu_sel, of d now k r d'] i BaseLFU show ?thesis by (simp add: base_simps)
next
  case (BaseARC d)
  then obtain d' where "arc_Peek now k d = (r, d')" "c' = BaseARC d'" using g by (cases "arc_Peek now k d") auto
  with arc.peek_law [unfolded arc_sel, of d now k r d'] i BaseARC show ?thesis by (simp add: base_simps)
qed

lemma base_Set_law:
  assumes i: "base_ok c" and g: "base_Set now k v ttl c = (err, evs, c')"
  shows "base_ok c' \<and> err = None \<and> base_live c' k = Some (v, expiryOf now ttl) \<and>
      (\<forall>k'. k' \<noteq> k \<longrightarrow> base_live c' k' = base_live c k' \<or> base_live c' k' = None) \<and>
      (\<forall>(k', v') \<in> set evs. k' \<noteq> k \<and> base_live c' k' = None \<and> (\<exists>e. base_live c k' = Some (v', e)))"
proof (cases c)
  case (BaseLRU d)
  then obtain d' where s: "lru_Set now k v ttl d = (err, evs, d')" and c': "c' = BaseLRU d'"
    using g by (cases "lru_Set now k v ttl d") auto
  show ?thesis using lru.set_law [unfolded lru_sel, OF _ s] i unfolding BaseLRU c' base_ok_def base_live_def base_read.simps by this
next
  case (BaseLFU d)
  then obtain d' where s: "lfu_Set now k v ttl d = (err, evs, d')" and c': "c' = BaseLFU d'"
    using g by (cases "lfu_Set now k v ttl d") auto
  show ?thesis using lfu.set_law [unfolded lfu_sel, OF _ s] i unfolding BaseLFU c' base_ok_def base_live_def base_read.simps by this
next
  case (BaseARC d)
  then obtain d' where s: "arc_Set now k v ttl d = (err, evs, d')" and c': "c' = BaseARC d'"
    using g by (cases "arc_Set now k v ttl d") auto
  show ?thesis using arc.set_law [unfolded arc_sel, OF _ s] i unfolding BaseARC c' base_ok_def base_live_def base_read.simps by this
qed

lemma base_Delete_law:
  assumes i: "base_ok c" and g: "base_Delete k c = (found, c')"
  shows "base_ok c' \<and> base_live c' = (base_live c)(k := None) \<and> (base_live c k \<noteq> None \<longrightarrow> found)"
proof (cases c)
  case (BaseLRU d)
  then obtain d' where "lru_Delete k d = (found, d')" "c' = BaseLRU d'" using g by (cases "lru_Delete k d") auto
  with lru.delete_law [unfolded lru_sel, of d k found d'] i BaseLRU show ?thesis by (simp add: base_simps)
next
  case (BaseLFU d)
  then obtain d' where "lfu_Delete k d = (found, d')" "c' = BaseLFU d'" using g by (cases "lfu_Delete k d") auto
  with lfu.delete_law [unfolded lfu_sel, of d k found d'] i BaseLFU show ?thesis by (simp add: base_simps)
next
  case (BaseARC d)
  then obtain d' where "arc_Delete k d = (found, d')" "c' = BaseARC d'" using g by (cases "arc_Delete k d") auto
  with arc.delete_law [unfolded arc_sel, of d k found d'] i BaseARC show ?thesis by (simp add: base_simps)
qed

interpretation base: bounded_cache base_cache base_ok base_live
proof (unfold_locales, goal_cases)
  case (1 c now k r c') then show ?case using base_Get_law by simp
next
  case (2 c now k r c') then show ?case using base_Peek_law by simp
next
  case (3 c now k v ttl err evs c') then show ?case by (intro base_Set_law) simp_all
next
  case (4 c k found c') then show ?case by (intro base_Delete_law) simp_all
next
  fix c assume "base_ok c"
  then show "base_ok (mPurge base_cache c) \<and> base_live (mPurge base_cache c) = Map.empty"
    using lru.purge_law lfu.purge_law arc.purge_law by (cases c) (simp_all add: base_simps)
next
  fix c now assume "base_ok c"
  then show "\<exists>ks. mKeys base_cache now c = Some ks \<and> distinct ks \<and>
      set ks = {k. \<exists>v e. base_live c k = Some (v, e) \<and> unexpired now e}"
    using lru.keys_law [of _ now] lfu.keys_law [of _ now] arc.keys_law [of _ now] by (cases c) (simp_all add: base_simps)
next
  fix c assume "base_ok c"
  then show "finite (dom (base_live c)) \<and> mLen base_cache c = int (card (dom (base_live c)))"
    using lru.len_law lfu.len_law arc.len_law by (cases c) (simp_all add: base_simps)
next
  fix c assume "base_ok c"
  then show "mLen base_cache c \<le> mCapacity base_cache c"
    using lru.bound_law lfu.bound_law arc.bound_law by (cases c) (simp_all add: base_simps)
next
  fix c f assume "base_ok c"
  then show "base_ok (mUpdStats base_cache f c) \<and> base_live (mUpdStats base_cache f c) = base_live c"
    using lru.updstats_law [of _ f] lfu.updstats_law [of _ f] arc.updstats_law [of _ f] by (cases c) (simp_all add: base_simps)
next
  fix c b assume "base_ok c"
  then show "base_ok (mSetEvictionCallback base_cache b c) \<and> base_live (mSetEvictionCallback base_cache b c) = base_live c"
    using lru.callback_law [of _ b] lfu.callback_law [of _ b] arc.callback_law [of _ b] by (cases c) (simp_all add: base_simps)
qed

subsection \<open>Copies\<close>

text \<open>
  What \<open>cloneEntriesIntoCache\<close> relies on: a snapshot lists the entries held, one per key, and a cache
  that has never evicted takes a new key without evicting while there is room.
\<close>

locale copied_cache = bounded_cache M inv live
  for M :: "'c Cache" and inv :: "'c \<Rightarrow> bool" and live :: "'c \<Rightarrow> key \<rightharpoonup> bytes \<times> Time" +
  fixes clean :: "'c \<Rightarrow> bool"
  assumes snapshot_law: "inv c \<Longrightarrow> \<exists>sn. mSnapshot M now c = Some sn \<and> distinct (map enKey (srEntries sn)) \<and>
      map_of (map (\<lambda>e. (enKey e, (enValue e, enExpiresAt e))) (srEntries sn)) = live c \<and>
      (\<forall>e\<in>set (srEntries sn). enTTLMs e = remainingMs now (enExpiresAt e))"
    and fill_law: "inv c \<Longrightarrow> clean c \<Longrightarrow> live c k \<noteq> None \<or> mLen M c < mCapacity M c \<Longrightarrow>
      mSet M now k v ttl c = (err, evs, c') \<Longrightarrow>
      clean c' \<and> live c' = (live c)(k \<mapsto> (v, expiryOf now ttl))"
    and capacity_law: "inv c \<Longrightarrow> mSet M now k v ttl c = (err, evs, c') \<Longrightarrow> mCapacity M c' = mCapacity M c"
begin

text \<open>Filling with distinct keys, no more than the capacity, keeps them all.\<close>

lemma fill_one:
  assumes "inv c" "clean c" "finite D" "dom (live c) \<subseteq> D" "k \<in> D" "int (card D) \<le> mCapacity M c"
    and "mSet M now k v ttl c = (err, evs, c')"
  shows "err = None \<and> inv c' \<and> clean c' \<and> live c' = (live c)(k \<mapsto> (v, expiryOf now ttl)) \<and>
    mCapacity M c' = mCapacity M c"
proof -
  have "live c k \<noteq> None \<or> mLen M c < mCapacity M c"
  proof (cases "live c k")
    case None
    then have "dom (live c) \<subset> D" using assms(4,5) by auto
    then have "card (dom (live c)) < card D" by (rule psubset_card_mono [OF assms(3)])
    then show ?thesis using len_law [OF assms(1)] assms(6) by simp
  qed simp
  from fill_law [OF assms(1,2) this assms(7)] capacity_law [OF assms(1,7)] set_law [OF assms(1,7)]
  show ?thesis by simp
qed

end

lemma live_of_map_of: "live_of es = map_of (map (\<lambda>e. (itKey e, (itValue e, itExpires e))) es)"
  by (induction es) (auto simp: fun_eq_iff)

lemma lru_snapshot_law:
  assumes "lru_sim c s" and "lruSpec_ok s"
  shows "\<exists>sn. lru_Snapshot now c = Some sn \<and> distinct (map enKey (srEntries sn)) \<and>
      map_of (map (\<lambda>e. (enKey e, (enValue e, enExpiresAt e))) (srEntries sn)) = live_of (lsItems (lru_abs c)) \<and>
      (\<forall>e\<in>set (srEntries sn). enTTLMs e = remainingMs now (enExpiresAt e))"
proof -
  obtain sn where sn: "lru_Snapshot now c = Some sn"
    and m: "map (\<lambda>e. (enKey e, enValue e, enExpiresAt e)) (srEntries sn) = map (\<lambda>e. (itKey e, itValue e, itExpires e)) (lsItems s)"
    using sim_Snapshot [OF assms(1), of now] by blast
  have a: "lru_abs c = s" using assms(1) by (simp add: lru_sim_abs)
  have "distinct (map enKey (srEntries sn))" using assms(2) map_items(2) [OF m] by (simp add: lruSpec_ok_def)
  moreover have "map_of (map (\<lambda>e. (enKey e, (enValue e, enExpiresAt e))) (srEntries sn)) = live_of (lsItems s)"
    using m by (simp add: live_of_map_of)
  moreover have "\<forall>e\<in>set (srEntries sn). enTTLMs e = remainingMs now (enExpiresAt e)"
    using sn by (auto simp: lru_Snapshot_def lru_entry_def)
  ultimately show ?thesis using sn a by simp
qed

lemma map_eqI: "f = g" if "\<And>k x. f k = Some x \<longleftrightarrow> g k = Some x"
proof (rule ext)
  fix k
  show "f k = g k"
  proof (cases "g k")
    case None
    then show ?thesis using that [of k "the (f k)"] by (cases "f k") simp_all
  next
    case (Some x)
    then show ?thesis using that [of k x] by simp
  qed
qed

lemma lfu_snapshot_law:
  assumes "lfu_sim c s"
  shows "\<exists>sn. lfu_Snapshot now c = Some sn \<and> distinct (map enKey (srEntries sn)) \<and>
      map_of (map (\<lambda>e. (enKey e, (enValue e, enExpiresAt e))) (srEntries sn)) = lfu_live c \<and>
      (\<forall>e\<in>set (srEntries sn). enTTLMs e = remainingMs now (enExpiresAt e))"
proof -
  obtain ns where r: "lfu_rep c ns" using assms by (auto simp: lfu_sim_def)
  obtain fns where w: "lfu_walk (fcFreqList c) = Some fns" and st: "set fns = (\<lambda>n. (lfu_fr c n, n)) ` set ns"
    using lfu_walk_rep [OF r] by blast
  obtain sn where sn: "lfu_Snapshot now c = Some sn" and d: "distinct (map enKey (srEntries sn))"
    using lfu_Snapshot_sim [OF assms, of now] by blast
  let ?h = "fcHeap c"
  have es: "srEntries sn = map (\<lambda>(pos, freq, n). lfu_entry now pos freq (?h n)) (enumerate 0 fns)"
    using sn w by (auto simp: lfu_Snapshot_def)
  have m: "map (\<lambda>e. (enKey e, (enValue e, enExpiresAt e))) (map (\<lambda>(pos, freq, n). lfu_entry now pos freq (?h n)) (enumerate i fns)) =
      map (\<lambda>(freq, n). (fnKey (?h n), (fnValue (?h n), fnExpiresAt (?h n)))) fns" for i
    by (induction fns arbitrary: i) (auto simp: lfu_entry_def)
  let ?m = "map (\<lambda>(freq, n). (fnKey (?h n), (fnValue (?h n), fnExpiresAt (?h n)))) fns"
  have dm: "distinct (map fst ?m)" using d unfolding m [of 0, folded es, symmetric] by (simp add: comp_def)
  have "map_of ?m k = Some x \<longleftrightarrow> lfu_live c k = Some x" for k x
  proof -
    have "map_of ?m k = Some x \<longleftrightarrow> (\<exists>n\<in>set ns. k = fnKey (?h n) \<and> x = (fnValue (?h n), fnExpiresAt (?h n)))"
      unfolding map_of_eq_Some_iff [OF dm] using st by (auto simp: image_iff)
    also have "\<dots> \<longleftrightarrow> lfu_live c k = Some x"
      using index_lookup [OF rep_parts(2) [OF r, unfolded lfu_index_def], of k] by (auto simp: lfu_live_def)
    finally show ?thesis .
  qed
  then have "map_of ?m = lfu_live c" by (rule map_eqI)
  moreover have "\<forall>e\<in>set (srEntries sn). enTTLMs e = remainingMs now (enExpiresAt e)"
    unfolding es by (auto simp: lfu_entry_def)
  ultimately show ?thesis using sn d m [of 0, folded es] by simp
qed

lemma arc_snapshot_law:
  assumes "arc_sim c s" and "arcSpec_ok s"
  shows "\<exists>sn. arc_Snapshot now c = Some sn \<and> distinct (map enKey (srEntries sn)) \<and>
      map_of (map (\<lambda>e. (enKey e, (enValue e, enExpiresAt e))) (srEntries sn)) = arc_live c \<and>
      (\<forall>e\<in>set (srEntries sn). enTTLMs e = remainingMs now (enExpiresAt e))"
proof -
  obtain ls where r: "arc_rep c ls" and s: "s = arc_view c ls" using assms(1) by (rule arc_simE)
  have "\<exists>es. arc_entries now t c = Some es \<and> (\<forall>e\<in>set es. enTTLMs e = remainingMs now (enExpiresAt e)) \<and>
    map (\<lambda>e. (enKey e, (enValue e, enExpiresAt e))) es = map (\<lambda>e. (itKey e, (itValue e, itExpires e))) (asL s t)" for t
  proof -
    have "map (\<lambda>e. (enKey e, (enValue e, enExpiresAt e))) (map (\<lambda>(pos, n). arc_entry now t pos (acHeap c n)) (enumerate i ns)) =
      map (\<lambda>e. (itKey e, (itValue e, itExpires e))) (map (\<lambda>n. arc_item (acHeap c n)) ns)" for i ns
      by (induction ns arbitrary: i) (auto simp: arc_entry_def arc_item_def)
    with ToSlice_holds [OF arc_lists_D(1) [OF rep_D(1) [OF r]]] show ?thesis
      by (auto simp: arc_entries_def s arc_entry_def)
  qed
  note es = this
  obtain t1 where t1: "arc_entries now T1 c = Some t1" "\<forall>e\<in>set t1. enTTLMs e = remainingMs now (enExpiresAt e)"
    "map (\<lambda>e. (enKey e, (enValue e, enExpiresAt e))) t1 = map (\<lambda>e. (itKey e, (itValue e, itExpires e))) (asL s T1)"
    using es [of T1] by blast
  obtain t2 where t2: "arc_entries now T2 c = Some t2" "\<forall>e\<in>set t2. enTTLMs e = remainingMs now (enExpiresAt e)"
    "map (\<lambda>e. (enKey e, (enValue e, enExpiresAt e))) t2 = map (\<lambda>e. (itKey e, (itValue e, itExpires e))) (asL s T2)"
    using es [of T2] by blast
  have e: "arc_entries now T1 c = Some t1" "arc_entries now T2 c = Some t2"
    "\<forall>e\<in>set (t1 @ t2). enTTLMs e = remainingMs now (enExpiresAt e)"
    "map (\<lambda>e. (enKey e, (enValue e, enExpiresAt e))) (t1 @ t2) = map (\<lambda>e. (itKey e, (itValue e, itExpires e))) (arc_items s)"
    using t1 t2 by auto
  obtain sn where sn: "arc_Snapshot now c = Some sn" "map enKey (srEntries sn) = keys_of (arc_items s)"
    using arc_Snapshot_sim [OF assms(1), of now] by blast
  have en: "srEntries sn = t1 @ t2" using sn(1) e(1,2) by (auto simp: arc_Snapshot_def split: option.splits)
  have "distinct (map enKey (srEntries sn))" unfolding sn(2) using assms(2) by (auto simp: arcSpec_ok_def arc_wf_def)
  moreover have "map_of (map (\<lambda>e. (enKey e, (enValue e, enExpiresAt e))) (srEntries sn)) = arc_live c"
    unfolding en e(4) using arc_sim_view(7) [OF assms(1)] by (simp add: live_of_map_of)
  ultimately show ?thesis using sn(1) e(3) en by simp
qed

lemma lruSpec_fill:
  assumes "live_of (lsItems s) k \<noteq> None \<or> int (length (lsItems s)) < lsCapacity s"
    and "lruSpec_Set now k v ttl s = (err, evs, s')"
  shows "live_of (lsItems s') = (live_of (lsItems s))(k \<mapsto> (v, expiryOf now ttl))"
proof (cases "find_item k (lsItems s)")
  case None
  then have "int (length (lsItems s)) < lsCapacity s" using assms(1) by (simp add: live_of_def)
  with assms(2) None show ?thesis by (auto simp: lruSpec_Set_def lruSpec_evict_def fun_eq_iff)
next
  case (Some e)
  then have "itKey e = k" using find_item_Some by metis
  with assms(2) Some show ?thesis by (auto simp: lruSpec_Set_def live_of_drop fun_eq_iff)
qed

lemma lfuSpec_fill:
  assumes "live_of (fsItems s) k \<noteq> None \<or> int (length (fsItems s)) < fsCapacity s"
    and "lfuSpec_Set now k v ttl s = (err, evs, s')"
  shows "live_of (fsItems s') = (live_of (fsItems s))(k \<mapsto> (v, expiryOf now ttl))"
proof (cases "find_item k (fsItems s)")
  case None
  then have "int (length (fsItems s)) < fsCapacity s" using assms(1) by (simp add: live_of_def)
  with assms(2) None show ?thesis by (auto simp: lfuSpec_Set_def lfuSpec_evict_def fun_eq_iff)
next
  case (Some e)
  then have "itKey e = k" using find_item_Some by metis
  with assms(2) Some show ?thesis by (auto simp: lfuSpec_Set_def live_of_drop fun_eq_iff)
qed

definition arcSpec_clean :: "arcSpec \<Rightarrow> bool" where
  "arcSpec_clean s \<longleftrightarrow> asL s B1 = [] \<and> asL s B2 = []"

lemma arcSpec_fill:
  assumes ok: "arcSpec_ok s" and cl: "arcSpec_clean s"
    and room: "arcSpec_live s k \<noteq> None \<or> int (length (arc_items s)) < asCapacity s"
    and g: "arcSpec_Set now k v ttl s = (err, evs, s')"
  shows "arcSpec_clean s' \<and> arcSpec_live s' = (arcSpec_live s)(k \<mapsto> (v, expiryOf now ttl))"
proof (cases "locate k (asL s)")
  case None
  then have "k \<notin> set (keys_of (arc_items s))" by (simp add: locate_None)
  then have "int (length (arc_items s)) < asCapacity s" using room by (simp add: live_of_None)
  then have "arcSpec_makeRoom s = ([], s)" using cl by (simp add: arcSpec_makeRoom_def arcSpec_clean_def)
  with g None cl show ?thesis by (auto simp: arcSpec_Set_def arcSpec_clean_def fun_eq_iff)
next
  case (Some p)
  obtain t e where te: "locate k (asL s) = Some (t, e)" using Some by (cases p) auto
  have f: "find_item k (asL s t) = Some e" by (rule locate_Some [OF te])
  then have t: "t = T1 \<or> t = T2" using cl by (cases t) (auto simp: arcSpec_clean_def)
  obtain ds where ds: "arc_sets k v (expiryOf now ttl) s evs s' ds" using arcSpec_Set_law [OF ok g] by blast
  have s': "s' = arcSpec_store t e v (expiryOf now ttl) s" using g te t by (auto simp: arcSpec_Set_def)
  have "asL s' B1 = asL s B1" "asL s' B2 = asL s B2" using t by (auto simp: s' arcSpec_store_def arcSpec_drop_def)
  then have c': "arcSpec_clean s'" using cl by (simp add: arcSpec_clean_def)
  show ?thesis
  proof
    show "arcSpec_clean s'" by (rule c')
    have k: "itKey e = k" using find_item_Some [OF f] by simp
    let ?f = "\<lambda>y::Stats. y\<lparr>BytesStored := BytesStored y + (blen v - (if t = T1 \<or> t = T2 then blen (itValue e) else 0)), Sets := Sets y + 1\<rparr>"
    have fm: "arc_wf (arcSpec_modSt ?f s)" "find_item k (asL (arcSpec_modSt ?f s) t) = Some e"
        "itKey (e\<lparr>itValue := v, itExpires := expiryOf now ttl\<rparr>) = k"
      using ok f k by (auto simp: arcSpec_ok_def)
    show "arcSpec_live s' = (arcSpec_live s)(k \<mapsto> (v, expiryOf now ttl))"
      using move_effect(2) [OF fm] unfolding s' arcSpec_store_def k by simp
  qed
qed

definition arc_clean :: "ARCCache \<Rightarrow> bool" where
  "arc_clean c \<longleftrightarrow> arc_len B1 c = 0 \<and> arc_len B2 c = 0"

lemma arc_clean_sim: "arc_sim c s \<Longrightarrow> arc_clean c \<longleftrightarrow> arcSpec_clean s"
  by (auto elim!: arc_simE simp: arc_clean_def arcSpec_clean_def arc_len_view [OF rep_D(1)])

definition base_clean :: "baseCache \<Rightarrow> bool" where
  "base_clean = base_read (\<lambda>c. True) (\<lambda>c. True) arc_clean"

lemma lru_copy_laws:
  assumes "\<exists>s. lru_sim c s \<and> lruSpec_ok s" and g: "lru_Set now k v ttl c = (err, evs, c')"
  shows "live_of (lsItems (lru_abs c)) k \<noteq> None \<or> mLen lru_cache c < mCapacity lru_cache c \<Longrightarrow>
      live_of (lsItems (lru_abs c')) = (live_of (lsItems (lru_abs c)))(k \<mapsto> (v, expiryOf now ttl))"
    and "mCapacity lru_cache c' = mCapacity lru_cache c"
proof -
  obtain s where s: "lru_sim c s" "lruSpec_ok s" using assms(1) by blast
  from lruImpl.set_sim [OF s(1), unfolded lru_sel, OF g] obtain s'
    where s': "mSet lruSpec_cache now k v ttl s = (err, evs, s')" "lru_sim c' s'" by blast
  have a: "lru_abs c = s" "lru_abs c' = s'" using s(1) s'(2) by (simp_all add: lru_sim_abs)
  have set: "lruSpec_Set now k v ttl s = (err, evs, s')" using s'(1) by (simp add: lruSpec_cache_def)
  have len: "mLen lru_cache c = int (length (lsItems s))" using lruImpl.len_sim [OF s(1)] by (simp add: lruSpec_cache_def)
  have cap: "mCapacity lru_cache c = lsCapacity s" "mCapacity lru_cache c' = lsCapacity s'"
    using lruImpl.capacity_impl [OF s(1)] lruImpl.capacity_impl [OF s'(2)] by (simp_all add: lruSpec_cache_def)
  show "live_of (lsItems (lru_abs c)) k \<noteq> None \<or> mLen lru_cache c < mCapacity lru_cache c \<Longrightarrow>
      live_of (lsItems (lru_abs c')) = (live_of (lsItems (lru_abs c)))(k \<mapsto> (v, expiryOf now ttl))"
    unfolding a len cap by (rule lruSpec_fill [OF _ set])
  show "mCapacity lru_cache c' = mCapacity lru_cache c"
    using lruSpec_step_capacity [of s "OpSet now k v ttl"] s'(1) cap by (simp add: cache_step_def)
qed

lemma lfu_copy_laws:
  assumes "\<exists>s. lfu_sim c s \<and> lfuSpec_ok s" and g: "lfu_Set now k v ttl c = (err, evs, c')"
  shows "lfu_live c k \<noteq> None \<or> mLen lfu_cache c < mCapacity lfu_cache c \<Longrightarrow>
      lfu_live c' = (lfu_live c)(k \<mapsto> (v, expiryOf now ttl))"
    and "mCapacity lfu_cache c' = mCapacity lfu_cache c"
proof -
  obtain s where s: "lfu_sim c s" "lfuSpec_ok s" using assms(1) by blast
  from lfuImpl.set_sim [OF s(1), unfolded lfu_sel, OF g] obtain s'
    where s': "mSet lfuSpec_cache now k v ttl s = (err, evs, s')" "lfu_sim c' s'" by blast
  note a = lfuImpl.live_impl [OF s(1)] lfuImpl.live_impl [OF s'(2)]
  have set: "lfuSpec_Set now k v ttl s = (err, evs, s')" using s'(1) by (simp add: lfuSpec_cache_def)
  have len: "mLen lfu_cache c = int (length (fsItems s))" using lfuImpl.len_sim [OF s(1)] by (simp add: lfuSpec_cache_def)
  have cap: "mCapacity lfu_cache c = fsCapacity s" "mCapacity lfu_cache c' = fsCapacity s'"
    using lfuImpl.capacity_impl [OF s(1)] lfuImpl.capacity_impl [OF s'(2)] by (simp_all add: lfuSpec_cache_def)
  show "lfu_live c k \<noteq> None \<or> mLen lfu_cache c < mCapacity lfu_cache c \<Longrightarrow>
      lfu_live c' = (lfu_live c)(k \<mapsto> (v, expiryOf now ttl))"
    unfolding a len cap by (rule lfuSpec_fill [OF _ set])
  show "mCapacity lfu_cache c' = mCapacity lfu_cache c"
    using lfuSpec_run_capacity [of s "[OpSet now k v ttl]"] s'(1) cap by (simp add: cache_step_def)
qed

lemma arc_copy_laws:
  assumes "\<exists>s. arc_sim c s \<and> arcSpec_ok s" and g: "arc_Set now k v ttl c = (err, evs, c')"
  shows "arc_clean c \<Longrightarrow> arc_live c k \<noteq> None \<or> mLen arc_cache c < mCapacity arc_cache c \<Longrightarrow>
      arc_clean c' \<and> arc_live c' = (arc_live c)(k \<mapsto> (v, expiryOf now ttl))"
    and "mCapacity arc_cache c' = mCapacity arc_cache c"
proof -
  obtain s where s: "arc_sim c s" "arcSpec_ok s" using assms(1) by blast
  from arcImpl.set_sim [OF s(1), unfolded arc_sel, OF g] obtain s'
    where s': "mSet arcSpec_cache now k v ttl s = (err, evs, s')" "arc_sim c' s'" by blast
  note a = arcImpl.live_impl [OF s(1)] arcImpl.live_impl [OF s'(2)] arc_clean_sim [OF s(1)] arc_clean_sim [OF s'(2)]
  have set: "arcSpec_Set now k v ttl s = (err, evs, s')" using s'(1) by (simp add: arcSpec_cache_def)
  have len: "mLen arc_cache c = int (length (arc_items s))" using arcImpl.len_sim [OF s(1)] by (simp add: arcSpec_cache_def)
  have cap: "mCapacity arc_cache c = asCapacity s" "mCapacity arc_cache c' = asCapacity s'"
    using arcImpl.capacity_impl [OF s(1)] arcImpl.capacity_impl [OF s'(2)] by (simp_all add: arcSpec_cache_def)
  show "arc_clean c \<Longrightarrow> arc_live c k \<noteq> None \<or> mLen arc_cache c < mCapacity arc_cache c \<Longrightarrow>
      arc_clean c' \<and> arc_live c' = (arc_live c)(k \<mapsto> (v, expiryOf now ttl))"
    unfolding a len cap by (rule arcSpec_fill [OF s(2) _ _ set])
  show "mCapacity arc_cache c' = mCapacity arc_cache c"
    using arcSpec_run_capacity [of s "[OpSet now k v ttl]"] s'(1) cap by (simp add: cache_step_def)
qed

lemma base_copy_laws:
  assumes ok: "base_ok c" and g: "base_Set now k v ttl c = (err, evs, c')"
  shows "(base_clean c \<longrightarrow> base_live c k \<noteq> None \<or> mLen base_cache c < mCapacity base_cache c \<longrightarrow>
      base_clean c' \<and> base_live c' = (base_live c)(k \<mapsto> (v, expiryOf now ttl))) \<and>
    mCapacity base_cache c' = mCapacity base_cache c"
proof (cases c)
  case (BaseLRU d)
  then obtain d' where s: "lru_Set now k v ttl d = (err, evs, d')" and c': "c' = BaseLRU d'"
    using g by (cases "lru_Set now k v ttl d") auto
  with BaseLRU ok lru_copy_laws [OF _ s] show ?thesis by (simp add: base_simps base_clean_def)
next
  case (BaseLFU d)
  then obtain d' where s: "lfu_Set now k v ttl d = (err, evs, d')" and c': "c' = BaseLFU d'"
    using g by (cases "lfu_Set now k v ttl d") auto
  with BaseLFU ok lfu_copy_laws [OF _ s] show ?thesis by (simp add: base_simps base_clean_def)
next
  case (BaseARC d)
  then obtain d' where s: "arc_Set now k v ttl d = (err, evs, d')" and c': "c' = BaseARC d'"
    using g by (cases "arc_Set now k v ttl d") auto
  with BaseARC ok arc_copy_laws [OF _ s] show ?thesis by (simp add: base_simps base_clean_def)
qed

interpretation baseCopy: copied_cache base_cache base_ok base_live base_clean
proof (unfold_locales, goal_cases)
  case (1 c now)
  then show ?case
    using lru_snapshot_law [of _ _ now] lfu_snapshot_law [of _ _ now] arc_snapshot_law [of _ _ now]
    by (cases c) (auto simp: base_simps)
next
  case (2 c k now v ttl err evs c')
  then show ?case using base_copy_laws [of c now k v ttl err evs c'] by (simp only: base_sel)
next
  case (3 c now k v ttl err evs c')
  then show ?case using base_copy_laws [of c now k v ttl err evs c'] by (simp only: base_sel)
qed

section \<open>The caches of the store entries\<close>

text \<open>
  A wrapper keeps its inner cache here, and gets the shared backing store with each call: \<open>wcAttach\<close>
  and \<open>wbAttach\<close> put it in, the results are taken apart again. \<open>um\<close> reads envelopes.
\<close>

datatype storeCache =
    PlainCache baseCache
  | ShardedLRU "LRUCache ShardedCache"
  | ThroughCache baseCache
  | AroundCache baseCache
  | BackCache "(baseCache, unit) WriteBackCache"

definition wbAttach :: "'t \<Rightarrow> ('c, 's) WriteBackCache \<Rightarrow> ('c, 't) WriteBackCache" where
  "wbAttach st w = \<lparr>wbInner = wbInner w, wbStore = st, wbDirty = wbDirty w, wbDirtyCount = wbDirtyCount w,
     wbInterval = wbInterval w\<rparr>"

abbreviation wcAttach :: "'s \<Rightarrow> 'c \<Rightarrow> ('c, 's) WriteCache" where
  "wcAttach st c \<equiv> \<lparr>wcInner = c, wcStore = st\<rparr>"

abbreviation backOf :: "(baseCache, 's) WriteBackCache \<Rightarrow> storeCache \<times> 's" where
  "backOf w \<equiv> (BackCache (wbAttach () w), wbStore w)"

fun sc_Get :: "'s BackingStore \<Rightarrow> (bytes \<Rightarrow> ttlEnvelope option) \<Rightarrow> instant \<Rightarrow> instant \<Rightarrow> instant \<Rightarrow> key \<Rightarrow>
    storeCache \<times> 's \<Rightarrow> bytes option \<times> storeCache \<times> 's" where
  "sc_Get B um now t2 t3 k (PlainCache c, st) = (let (r, c') = base_Get now k c in (r, PlainCache c', st))"
| "sc_Get B um now t2 t3 k (ShardedLRU c, st) = (let (r, c') = sharded_Get lru_cache now k c in (r, ShardedLRU c', st))"
| "sc_Get B um now t2 t3 k (ThroughCache c, st) =
     (let (r, evs, w) = wt_Get base_cache B um now t2 t3 k (wcAttach st c)
      in (r, ThroughCache (wcInner w), wcStore w))"
| "sc_Get B um now t2 t3 k (AroundCache c, st) =
     (let (r, w) = wa_Get base_cache B um now t2 k (wcAttach st c)
      in (r, AroundCache (wcInner w), wcStore w))"
| "sc_Get B um now t2 t3 k (BackCache w, st) =
     (let (r, w') = wb_Get base_cache B um now t2 t3 k (wbAttach st w) in (r, backOf w'))"

fun sc_Set :: "'s BackingStore \<Rightarrow> instant \<Rightarrow> instant \<Rightarrow> key \<Rightarrow> bytes \<Rightarrow> duration \<Rightarrow>
    storeCache \<times> 's \<Rightarrow> error option \<times> storeCache \<times> 's" where
  "sc_Set B now t2 k v ttl (PlainCache c, st) =
     (let (err, evs, c') = base_Set now k v ttl c in (err, PlainCache c', st))"
| "sc_Set B now t2 k v ttl (ShardedLRU c, st) =
     (let (err, evs, c') = sharded_Set lru_cache now k v ttl c in (err, ShardedLRU c', st))"
| "sc_Set B now t2 k v ttl (ThroughCache c, st) =
     (let (err, evs, w) = wt_Set base_cache B now t2 k v ttl (wcAttach st c)
      in (err, ThroughCache (wcInner w), wcStore w))"
| "sc_Set B now t2 k v ttl (AroundCache c, st) =
     (let (err, evs, w) = wa_Set base_cache B now k v ttl (wcAttach st c)
      in (err, AroundCache (wcInner w), wcStore w))"
| "sc_Set B now t2 k v ttl (BackCache w, st) =
     (let (err, w') = wb_Set base_cache B now t2 k v ttl (wbAttach st w) in (err, backOf w'))"

fun sc_Delete :: "'s BackingStore \<Rightarrow> key \<Rightarrow> storeCache \<times> 's \<Rightarrow> bool \<times> storeCache \<times> 's" where
  "sc_Delete B k (PlainCache c, st) = (let (r, c') = base_Delete k c in (r, PlainCache c', st))"
| "sc_Delete B k (ShardedLRU c, st) = (let (r, c') = sharded_Delete lru_cache k c in (r, ShardedLRU c', st))"
| "sc_Delete B k (ThroughCache c, st) =
     (let (r, w) = wt_Delete base_cache B k (wcAttach st c) in (r, ThroughCache (wcInner w), wcStore w))"
| "sc_Delete B k (AroundCache c, st) =
     (let (r, w) = wa_Delete base_cache B k (wcAttach st c) in (r, AroundCache (wcInner w), wcStore w))"
| "sc_Delete B k (BackCache w, st) =
     (let (r, w') = wb_Delete base_cache B k (wbAttach st w) in (r, backOf w'))"

text \<open>The methods that pass to the inner cache\<close>

fun sc_Peek :: "instant \<Rightarrow> key \<Rightarrow> storeCache \<Rightarrow> bytes option \<times> storeCache" where
  "sc_Peek now k (PlainCache c) = (let (r, c') = base_Peek now k c in (r, PlainCache c'))"
| "sc_Peek now k (ShardedLRU c) = (let (r, c') = sharded_Peek lru_cache now k c in (r, ShardedLRU c'))"
| "sc_Peek now k (ThroughCache c) = (let (r, c') = base_Peek now k c in (r, ThroughCache c'))"
| "sc_Peek now k (AroundCache c) = (let (r, c') = base_Peek now k c in (r, AroundCache c'))"
| "sc_Peek now k (BackCache w) = (let (r, w') = wb_Peek base_cache now k w in (r, BackCache w'))"

fun sc_read :: "(baseCache \<Rightarrow> 'r) \<Rightarrow> (LRUCache ShardedCache \<Rightarrow> 'r) \<Rightarrow> storeCache \<Rightarrow> 'r" where
  "sc_read f g (PlainCache c) = f c"
| "sc_read f g (ShardedLRU c) = g c"
| "sc_read f g (ThroughCache c) = f c"
| "sc_read f g (AroundCache c) = f c"
| "sc_read f g (BackCache w) = f (wbInner w)"

definition sc_Len :: "storeCache \<Rightarrow> int" where
  "sc_Len = sc_read (mLen base_cache) (sharded_Len lru_cache)"

definition sc_Capacity :: "storeCache \<Rightarrow> int" where
  "sc_Capacity = sc_read (mCapacity base_cache) scCapacity"

definition sc_Stats :: "storeCache \<Rightarrow> Stats" where
  "sc_Stats = sc_read (mStats base_cache) (sharded_Stats lru_cache)"

definition sc_Snapshot :: "instant \<Rightarrow> storeCache \<Rightarrow> SnapshotResult option" where
  "sc_Snapshot now = sc_read (base_Snapshot now) (sharded_Snapshot lru_cache (\<lambda>_. now))"

fun sc_Purge :: "'s BackingStore \<Rightarrow> instant \<Rightarrow> storeCache \<times> 's \<Rightarrow> storeCache \<times> 's" where
  "sc_Purge B now (PlainCache c, st) = (PlainCache (mPurge base_cache c), st)"
| "sc_Purge B now (ShardedLRU c, st) = (ShardedLRU (sharded_Purge lru_cache c), st)"
| "sc_Purge B now (ThroughCache c, st) = (ThroughCache (mPurge base_cache c), st)"
| "sc_Purge B now (AroundCache c, st) = (AroundCache (mPurge base_cache c), st)"
| "sc_Purge B now (BackCache w, st) = backOf (wb_Purge base_cache B now (wbAttach st w))"

text \<open>\<open>entry.Cache.(interface{ Flush() })\<close> and \<open>DirtyCount\<close>: only the write-back cache has them.\<close>

fun sc_Flush :: "'s BackingStore \<Rightarrow> instant \<Rightarrow> storeCache \<times> 's \<Rightarrow> storeCache \<times> 's" where
  "sc_Flush B now (BackCache w, st) = backOf (wb_Flush base_cache B now (wbAttach st w))"
| "sc_Flush B now (c, st) = (c, st)"

fun sc_DirtyCount :: "storeCache \<Rightarrow> int option" where
  "sc_DirtyCount (BackCache w) = Some (wb_DirtyCount w)"
| "sc_DirtyCount c = None"

text \<open>Of \<open>Close\<close> only what it does to the store is left: a write-back cache flushes.\<close>

fun sc_Close :: "'s BackingStore \<Rightarrow> instant \<Rightarrow> storeCache \<times> 's \<Rightarrow> 's" where
  "sc_Close B now (BackCache w, st) = wbStore (wb_Close base_cache B now (wbAttach st w))"
| "sc_Close B now (c, st) = st"

section \<open>Store entries (store_factory.go)\<close>

datatype storeKind = storeKindStandard | storeKindSharded

text \<open>\<open>seCache\<close> is \<open>None\<close> after the shutdown; \<open>seBacked\<close> says whether \<open>BackingStore\<close> is the server's or nil.\<close>

record StoreEntry =
  seCache :: "storeCache option"
  sePolicy :: string
  seWritePolicy :: string
  seBacked :: bool
  seKind :: storeKind
  seAllowWritePolicy :: bool

definition wrapCache :: "baseCache \<Rightarrow> string \<Rightarrow> bool \<Rightarrow> error + storeCache" where
  "wrapCache base writePolicy backed =
     (if writePolicy = ''write-through'' then
        (if \<not> backed then Inl ''write-through requires a backing store'' else Inr (ThroughCache base))
      else if writePolicy = ''write-back'' then
        (if \<not> backed then Inl ''write-back requires a backing store''
         else Inr (BackCache (NewWriteBack base_cache base () (100 * 1000000))))
      else if writePolicy = ''write-around'' then
        (if \<not> backed then Inl ''write-around requires a backing store'' else Inr (AroundCache base))
      else if writePolicy = ''none'' then Inr (PlainCache base)
      else Inl (''unsupported write policy: '' @ writePolicy))"

definition NewStoreEntry :: "string \<Rightarrow> string \<Rightarrow> int \<Rightarrow> bool \<Rightarrow> error + StoreEntry" where
  "NewStoreEntry policy writePolicy capacity backed =
     (case newBaseCache policy capacity of
        Inl e \<Rightarrow> Inl e
      | Inr base \<Rightarrow>
          (case wrapCache base writePolicy backed of
             Inl e \<Rightarrow> Inl e
           | Inr wrapped \<Rightarrow>
               Inr \<lparr>seCache = Some wrapped, sePolicy = policy, seWritePolicy = writePolicy, seBacked = backed,
                    seKind = storeKindStandard, seAllowWritePolicy = backed\<rparr>))"

section \<open>Changing the write policy (handler.go)\<close>

text \<open>\<open>ts\<close> are the clock readings of the \<open>Set\<close> calls, one each.\<close>

fun cloneEntriesIntoCache :: "(nat \<Rightarrow> instant) \<Rightarrow> baseCache \<Rightarrow> Entry list \<Rightarrow> error option \<times> baseCache" where
  "cloneEntriesIntoCache ts dst [] = (None, dst)"
| "cloneEntriesIntoCache ts dst (en # es) =
     (let ttl = (if enTTLMs en > 0 then enTTLMs en * 1000000 else 0)
      in case base_Set (ts 0) (enKey en) (cloneBytes (enValue en)) ttl dst of
           (Some e, evs, dst') \<Rightarrow> (Some e, dst')
         | (None, evs, dst') \<Rightarrow> cloneEntriesIntoCache (\<lambda>i. ts (Suc i)) dst' es)"

text \<open>
  The result is the error, the entry and the store; \<open>None\<close> when a method of the nil cache is called
  (after the shutdown) or a snapshot does not end. The clock is read by the flush (\<open>t0\<close>), the
  snapshot (\<open>t1\<close>), the copies (\<open>ts\<close>) and the \<open>Close\<close> of the old cache (\<open>t2\<close>).
\<close>

definition reconfigureWritePolicy :: "'s BackingStore \<Rightarrow> instant \<Rightarrow> instant \<Rightarrow> (nat \<Rightarrow> instant) \<Rightarrow> instant \<Rightarrow>
    string \<Rightarrow> string \<Rightarrow> StoreEntry \<Rightarrow> 's \<Rightarrow> (error option \<times> StoreEntry \<times> 's) option" where
  "reconfigureWritePolicy B t0 t1 ts t2 storeName writePolicy entry st =
     (if \<not> seAllowWritePolicy entry then
        Some (Some (''store '' @ storeName @ '' does not support write-policy changes''), entry, st)
      else if writePolicy = seWritePolicy entry then Some (None, entry, st)
      else
        (case seCache entry of
           None \<Rightarrow> None
         | Some cache \<Rightarrow>
             (let (cache, st) = sc_Flush B t0 (cache, st); entry = entry\<lparr>seCache := Some cache\<rparr>
              in case sc_Snapshot t1 cache of
                   None \<Rightarrow> None
                 | Some snapshot \<Rightarrow>
                     (case newBaseCache (sePolicy entry) (sc_Capacity cache) of
                        Inl e \<Rightarrow> Some (Some e, entry, st)
                      | Inr base \<Rightarrow>
                          (case cloneEntriesIntoCache ts base (srEntries snapshot) of
                             (Some e, base) \<Rightarrow> Some (Some e, entry, st)
                           | (None, base) \<Rightarrow>
                               (case wrapCache base writePolicy (seBacked entry) of
                                  Inl e \<Rightarrow> Some (Some e, entry, st)
                                | Inr wrapped \<Rightarrow>
                                    Some (None, entry\<lparr>seCache := Some wrapped, seWritePolicy := writePolicy\<rparr>,
                                      sc_Close B t2 (cache, st))))))))"

section \<open>Well-formedness\<close>

context cache_contract
begin

lemma wt_inner_ok:
  assumes "inv (wcInner w)"
  shows "wt_Get M B um now t2 t3 k w = (r, evs, w') \<Longrightarrow> inv (wcInner w')"
    and "wt_Set M B now t3 k v ttl w = (err, evs, w') \<Longrightarrow> inv (wcInner w')"
    and "wt_Delete M B k w = (b, w') \<Longrightarrow> inv (wcInner w')"
    and "wa_Get M B um now t2 k w = (r, w') \<Longrightarrow> inv (wcInner w')"
    and "wa_Set M B now k v ttl w = (err, evs, w') \<Longrightarrow> inv (wcInner w')"
    and "wa_Delete M B k w = (b, w') \<Longrightarrow> inv (wcInner w')"
proof -
  obtain x c1 where g: "mGet M now k (wcInner w) = (x, c1)" by (cases "mGet M now k (wcInner w)")
  have i: "inv c1" using get_law [OF assms g] by simp
  then have u: "inv (mUpdStats M f c1)" for f using updstats_law by simp
  have s: "inv c" if "mSet M t k v ttl (mUpdStats M f c1) = (err, evs, c)" for t v ttl f err evs c
    using set_law [OF u that] by simp
  show "wt_Get M B um now t2 t3 k w = (r, evs, w') \<Longrightarrow> inv (wcInner w')"
    using g i by (auto simp: wt_Get_def Let_def dest: s split: option.splits prod.splits sum.splits if_splits)
  show "wa_Get M B um now t2 k w = (r, w') \<Longrightarrow> inv (wcInner w')"
    using g i u by (auto simp: wa_Get_def Let_def split: option.splits prod.splits sum.splits if_splits)
  have u0: "inv (mUpdStats M f (wcInner w))" for f using updstats_law [OF assms] by simp
  have s0: "inv c" if "mSet M t k v ttl (mUpdStats M f (wcInner w)) = (err, evs, c)" for t v ttl f err evs c
    using set_law [OF u0 that] by simp
  show "wt_Set M B now t3 k v ttl w = (err, evs, w') \<Longrightarrow> inv (wcInner w')"
    using assms by (auto simp: wt_Set_def Let_def dest: s0 split: option.splits prod.splits sum.splits if_splits)
  show "wa_Set M B now k v ttl w = (err, evs, w') \<Longrightarrow> inv (wcInner w')"
    using assms u0 by (auto simp: wa_Set_def Let_def split: option.splits prod.splits sum.splits if_splits)
  have d: "inv c" if "mDelete M k (wcInner w) = (b, c)" for b c using delete_law [OF assms that] by simp
  show "wt_Delete M B k w = (b, w') \<Longrightarrow> inv (wcInner w')" "wa_Delete M B k w = (b, w') \<Longrightarrow> inv (wcInner w')"
    by (auto simp: wt_Delete_def wa_Delete_def Let_def dest: d split: prod.splits)
qed

lemma wb_evict_ok: "inv (wbInner w) \<Longrightarrow> inv (wbInner (wb_onEvict M B now w ev))"
  using updstats_law by (auto simp: wb_onEvict_def wb_takeDirty_def wb_wrote_def Let_def split: option.splits prod.splits)

lemma wb_evicts_ok: "inv (wbInner w) \<Longrightarrow> inv (wbInner (foldl (wb_onEvict M B now) w evs))"
  by (induction evs arbitrary: w) (simp_all add: wb_evict_ok)

lemma wb_flushKey_ok:
  assumes "inv (wbInner w)"
  shows "inv (wbInner (wb_flushKey M B now w p))"
proof -
  obtain k pw where p: "p = (k, pw)" by (cases p)
  obtain x c1 where g: "mPeek M now k (wbInner w) = (x, c1)" by (cases "mPeek M now k (wbInner w)")
  have i: "inv c1" using peek_law [OF assms g] by simp
  then have "inv (mUpdStats M f c1)" for f using updstats_law by simp
  with assms i g show ?thesis
    by (auto simp: p wb_flushKey_def wb_wrote_def wb_takeDirty_def Let_def split: option.splits prod.splits if_splits)
qed

lemma wb_flushKeys_ok: "inv (wbInner w) \<Longrightarrow> inv (wbInner (foldl (wb_flushKey M B now) w ps))"
  by (induction ps arbitrary: w) (simp_all add: wb_flushKey_ok)

lemma wb_Flush_ok: "inv (wbInner w) \<Longrightarrow> inv (wbInner (wb_Flush M B now w))"
  by (simp add: wb_Flush_def wb_flushAll_def wb_flushKeys_ok)

lemma wb_Purge_ok: "inv (wbInner w) \<Longrightarrow> inv (wbInner (wb_Purge M B now w))"
  using wb_Flush_ok [of w B now] purge_law by (simp add: wb_Purge_def Let_def)

lemma wb_inner_ok:
  fixes w :: "('c, 's) WriteBackCache"
  assumes "inv (wbInner w)"
  shows "wb_Get M B um now t2 t3 k w = (r, w') \<Longrightarrow> inv (wbInner w')"
    and "wb_Set M B now t2 k v ttl w = (err, w') \<Longrightarrow> inv (wbInner w')"
    and "wb_Delete M B k w = (b, w') \<Longrightarrow> inv (wbInner w')"
    and "wb_Peek M now k w = (r, w') \<Longrightarrow> inv (wbInner w')"
proof -
  obtain x c1 where g: "mGet M now k (wbInner w) = (x, c1)" by (cases "mGet M now k (wbInner w)")
  have i: "inv c1" using get_law [OF assms g] by simp
  then have u: "inv (mUpdStats M f c1)" for f using updstats_law by simp
  have s: "inv (wbInner (foldl (wb_onEvict M B t3) (w1\<lparr>wbInner := c\<rparr>) evs))"
    if "mSet M t k v ttl (mUpdStats M f c1) = (err, evs, c)" for t v ttl f err evs c and w1 :: "('c, 's) WriteBackCache"
    using set_law [OF u that] by (intro wb_evicts_ok) simp
  show "wb_Get M B um now t2 t3 k w = (r, w') \<Longrightarrow> inv (wbInner w')"
    using g i by (auto simp: wb_Get_def Let_def intro: s split: option.splits prod.splits sum.splits if_splits)
  have s0: "inv (wbInner (foldl (wb_onEvict M B now) (w\<lparr>wbInner := c\<rparr>) evs))"
    if "mSet M now k v ttl (wbInner w) = (err, evs, c)" for err evs c
    using set_law [OF assms that] by (intro wb_evicts_ok) simp
  show "wb_Set M B now t2 k v ttl w = (err, w') \<Longrightarrow> inv (wbInner w')"
    using s0 by (auto simp: wb_Set_def wb_markDirty_def Let_def split: option.splits prod.splits)
  show "wb_Delete M B k w = (b, w') \<Longrightarrow> inv (wbInner w')"
    using assms delete_law by (auto simp: wb_Delete_def wb_takeDirty_def Let_def split: prod.splits if_splits)
  show "wb_Peek M now k w = (r, w') \<Longrightarrow> inv (wbInner w')"
    using assms peek_law by (auto simp: wb_Peek_def split: prod.splits)
qed

end

definition sc_ok :: "storeCache \<Rightarrow> bool" where
  "sc_ok = sc_read base_ok
     (sharded_ok (\<lambda>c. \<exists>s. lru_sim c s \<and> lruSpec_ok s) (\<lambda>c. live_of (lsItems (lru_abs c))))"

lemma sc_ok_simps [simp]:
  "sc_ok (PlainCache c) = base_ok c" "sc_ok (ThroughCache c) = base_ok c" "sc_ok (AroundCache c) = base_ok c"
  "sc_ok (BackCache w) = base_ok (wbInner w)"
  by (simp_all add: sc_ok_def)

lemma wbAttach_sel [simp]: "wbInner (wbAttach st w) = wbInner w" "wbStore (wbAttach st w) = st"
  "wbDirty (wbAttach st w) = wbDirty w" "wbDirtyCount (wbAttach st w) = wbDirtyCount w"
  by (simp_all add: wbAttach_def)

lemma sharded_sel:
  "mGet (sharded_cache M) = sharded_Get M" "mSet (sharded_cache M) = sharded_Set M"
  "mDelete (sharded_cache M) = sharded_Delete M" "mPeek (sharded_cache M) = sharded_Peek M"
  "mPurge (sharded_cache M) = sharded_Purge M"
  by (simp_all add: sharded_cache_def)

lemma sc_Get_ok:
  assumes "sc_ok c" and "sc_Get B um now t2 t3 k (c, st) = (r, c', st')"
  shows "sc_ok c'"
proof (cases c)
  case (ShardedLRU sc)
  with assms lruSharded.get_law [unfolded sharded_sel, of sc now k] show ?thesis by (auto simp: sc_ok_def split: prod.splits)
next
  case (ThroughCache b)
  with assms base.wt_inner_ok(1) [of "wcAttach st b"] show ?thesis by (auto split: prod.splits)
next
  case (AroundCache b)
  with assms base.wt_inner_ok(4) [of "wcAttach st b"] show ?thesis by (auto split: prod.splits)
next
  case (BackCache w)
  with assms base.wb_inner_ok(1) [of "wbAttach st w"] show ?thesis by (auto split: prod.splits)
qed (use assms base_Get_law in \<open>auto split: prod.splits\<close>)

lemma sc_Set_ok:
  assumes "sc_ok c" and "sc_Set B now t2 k v ttl (c, st) = (err, c', st')"
  shows "sc_ok c'"
proof (cases c)
  case (ShardedLRU sc)
  with assms lruSharded.set_law [unfolded sharded_sel, of sc now k v ttl] show ?thesis by (auto simp: sc_ok_def split: prod.splits)
next
  case (ThroughCache b)
  with assms base.wt_inner_ok(2) [of "wcAttach st b"] show ?thesis by (auto split: prod.splits)
next
  case (AroundCache b)
  with assms base.wt_inner_ok(5) [of "wcAttach st b"] show ?thesis by (auto split: prod.splits)
next
  case (BackCache w)
  with assms base.wb_inner_ok(2) [of "wbAttach st w"] show ?thesis by (auto split: prod.splits)
next
  case (PlainCache b)
  obtain err' evs b' where s: "base_Set now k v ttl b = (err', evs, b')" by (cases "base_Set now k v ttl b")
  with base_Set_law [OF _ s] assms PlainCache show ?thesis by auto
qed

lemma sc_Delete_ok:
  assumes "sc_ok c" and "sc_Delete B k (c, st) = (r, c', st')"
  shows "sc_ok c'"
proof (cases c)
  case (ShardedLRU sc)
  with assms lruSharded.delete_law [unfolded sharded_sel, of sc k] show ?thesis by (auto simp: sc_ok_def split: prod.splits)
next
  case (ThroughCache b)
  with assms base.wt_inner_ok(3) [of "wcAttach st b"] show ?thesis by (auto split: prod.splits)
next
  case (AroundCache b)
  with assms base.wt_inner_ok(6) [of "wcAttach st b"] show ?thesis by (auto split: prod.splits)
next
  case (BackCache w)
  with assms base.wb_inner_ok(3) [of "wbAttach st w"] show ?thesis by (auto split: prod.splits)
qed (use assms base_Delete_law in \<open>auto split: prod.splits\<close>)

lemma sc_Peek_ok:
  assumes "sc_ok c" and "sc_Peek now k c = (r, c')"
  shows "sc_ok c'"
proof (cases c)
  case (ShardedLRU sc)
  with assms lruSharded.peek_law [unfolded sharded_sel, of sc now k] show ?thesis by (auto simp: sc_ok_def split: prod.splits)
next
  case (BackCache w)
  with assms base.wb_inner_ok(4) [of w] show ?thesis by (auto split: prod.splits)
qed (use assms base_Peek_law in \<open>auto split: prod.splits\<close>)

lemma sc_Flush_ok: "sc_ok c \<Longrightarrow> sc_Flush B now (c, st) = (c', st') \<Longrightarrow> sc_ok c'"
  using base.wb_Flush_ok [of "wbAttach st _" B now] by (cases c) auto

lemma sc_Purge_ok: "sc_ok c \<Longrightarrow> sc_Purge B now (c, st) = (c', st') \<Longrightarrow> sc_ok c'"
  using base.wb_Purge_ok [of "wbAttach st _" B now] base.purge_law lruSharded.purge_law [unfolded sharded_sel]
  by (cases c) (auto simp: sc_ok_def)

lemma those_Some: "\<forall>x\<in>set xs. f x \<noteq> None \<Longrightarrow> those (map f xs) \<noteq> None"
  by (induction xs) (auto split: option.splits)

lemma sc_Snapshot_total: "sc_ok c \<Longrightarrow> \<exists>sn. sc_Snapshot now c = Some sn"
proof -
  have base: "\<exists>sn. base_Snapshot now b = Some sn" if "base_ok b" for b
    using baseCopy.snapshot_law [OF that, of now] by auto
  have "\<exists>sn. sharded_Snapshot lru_cache (\<lambda>_. now) sc = Some sn" if "sc_ok (ShardedLRU sc)" for sc
  proof -
    have sh: "\<exists>s. lru_sim x s \<and> lruSpec_ok s" if "x \<in> set (scShards sc)" for x
      using \<open>sc_ok (ShardedLRU sc)\<close> that by (auto simp: sc_ok_def sharded_ok_def in_set_conv_nth)
    have "mSnapshot lru_cache now x \<noteq> None" if "x \<in> set (scShards sc)" for x
      using sh [OF that] lru_snapshot_law [of x _ now] by (auto simp: lru_cache_def)
    then have "those (map (\<lambda>(i, c). mSnapshot lru_cache now c) (enumerate 0 (scShards sc))) \<noteq> None"
      by (intro those_Some) (auto simp: in_set_enumerate_eq)
    then show ?thesis by (auto simp: sharded_Snapshot_def)
  qed
  then show "sc_ok c \<Longrightarrow> \<exists>sn. sc_Snapshot now c = Some sn" using base by (cases c) (auto simp: sc_Snapshot_def)
qed

lemma newBaseCache_ok: "newBaseCache policy capacity = Inr base \<Longrightarrow>
    base_ok base \<and> base_clean base \<and> base_live base = Map.empty \<and>
    mCapacity base_cache base = (if capacity \<le> 0 then 1 else capacity)"
  using lru_New_live [of capacity] lfu_New_live [of capacity] arc_New_live [of capacity]
  by (auto simp: newBaseCache_def base_simps base_clean_def arc_clean_def arc_New_def arc_lst_def list_New_def list_Len_def
      lru_cache_def lfu_cache_def arc_cache_def lru_New_def lfu_New_def lru_Capacity_def lfu_Capacity_def arc_Capacity_def split: if_splits)

lemma wrapCache_ok: "wrapCache base writePolicy backed = Inr c \<Longrightarrow> base_ok base \<Longrightarrow> sc_ok c"
  using base.callback_law [of base True] by (auto simp: wrapCache_def NewWriteBack_def split: if_splits)

definition entry_ok :: "StoreEntry \<Rightarrow> bool" where
  "entry_ok e \<longleftrightarrow> (case seCache e of None \<Rightarrow> True | Some c \<Rightarrow> sc_ok c) \<and>
     (seAllowWritePolicy e \<longrightarrow> sePolicy e \<in> {''lru'', ''lfu'', ''arc''})"

lemma NewStoreEntry_ok: "NewStoreEntry policy writePolicy capacity backed = Inr e \<Longrightarrow> entry_ok e \<and> seCache e \<noteq> None"
  using newBaseCache_ok [of policy capacity] wrapCache_ok
  by (auto simp: NewStoreEntry_def entry_ok_def newBaseCache_def split: sum.splits if_splits)

section \<open>What a change of the write policy keeps\<close>

text \<open>The expiry that a copied entry gets at the time \<open>t\<close>.\<close>

definition copiedExpiry :: "instant \<Rightarrow> Entry \<Rightarrow> Time" where
  "copiedExpiry t en = expiryOf t (if enTTLMs en > 0 then enTTLMs en * 1000000 else 0)"

context copied_cache
begin

lemma clone_law:
  assumes "\<And>ts dst. cl ts dst [] = (None, dst)"
    and "\<And>ts dst en es. cl ts dst (en # es) =
      (case mSet M (ts 0) (enKey en) (enValue en) (if enTTLMs en > 0 then enTTLMs en * 1000000 else 0) dst of
         (Some e, evs, dst') \<Rightarrow> (Some e, dst') | (None, evs, dst') \<Rightarrow> cl (\<lambda>i. ts (Suc i)) dst' es)"
  shows "inv c \<Longrightarrow> clean c \<Longrightarrow> distinct (map enKey es) \<Longrightarrow> finite D \<Longrightarrow> dom (live c) \<union> set (map enKey es) \<subseteq> D \<Longrightarrow>
    int (card D) \<le> mCapacity M c \<Longrightarrow>
    \<exists>c'. cl ts c es = (None, c') \<and> inv c' \<and> mCapacity M c' = mCapacity M c \<and>
      (\<forall>k. k \<notin> set (map enKey es) \<longrightarrow> live c' k = live c k) \<and>
      (\<forall>i<length es. live c' (enKey (es ! i)) = Some (enValue (es ! i), copiedExpiry (ts i) (es ! i)))"
proof (induction es arbitrary: ts c)
  case Nil
  then show ?case using assms(1) by simp
next
  case (Cons en es)
  let ?ttl = "if enTTLMs en > 0 then enTTLMs en * 1000000 else 0"
  obtain err evs c1 where s: "mSet M (ts 0) (enKey en) (enValue en) ?ttl c = (err, evs, c1)"
    by (cases "mSet M (ts 0) (enKey en) (enValue en) ?ttl c")
  have "dom (live c) \<subseteq> D" "enKey en \<in> D" using Cons.prems(5) by auto
  note one = fill_one [OF Cons.prems(1,2,4) this Cons.prems(6) s]
  have "dom (live c1) \<union> set (map enKey es) \<subseteq> D" using one Cons.prems(5) by auto
  from Cons.IH [of c1 "\<lambda>i. ts (Suc i)", OF _ _ _ Cons.prems(4) this] one Cons.prems(3,6) obtain c'
    where c': "cl (\<lambda>i. ts (Suc i)) c1 es = (None, c')" "inv c'" "mCapacity M c' = mCapacity M c"
      "\<And>k. k \<notin> set (map enKey es) \<Longrightarrow> live c' k = live c1 k"
      "\<And>i. i < length es \<Longrightarrow> live c' (enKey (es ! i)) = Some (enValue (es ! i), copiedExpiry (ts (Suc i)) (es ! i))"
    by auto
  have "cl ts c (en # es) = (None, c')" using s one c'(1) by (simp add: assms(2))
  moreover have "live c' (enKey en) = Some (enValue en, copiedExpiry (ts 0) en)"
    using one Cons.prems(3) c'(4) [of "enKey en"] by (simp add: copiedExpiry_def)
  moreover have "live c' k = live c k" if "k \<notin> set (map enKey (en # es))" for k
    using that c'(4) [of k] one by simp
  ultimately show ?case using c'(2,3,5) by (auto simp: nth_Cons split: nat.splits)
qed

end

lemma clone_ok:
  assumes "base_ok c" "base_clean c" "distinct (map enKey es)" "finite D"
    "dom (base_live c) \<union> set (map enKey es) \<subseteq> D" "int (card D) \<le> mCapacity base_cache c"
  shows "\<exists>c'. cloneEntriesIntoCache ts c es = (None, c') \<and> base_ok c' \<and> mCapacity base_cache c' = mCapacity base_cache c \<and>
      (\<forall>k. k \<notin> set (map enKey es) \<longrightarrow> base_live c' k = base_live c k) \<and>
      (\<forall>i<length es. base_live c' (enKey (es ! i)) = Some (enValue (es ! i), copiedExpiry (ts i) (es ! i)))"
  by (rule baseCopy.clone_law [OF _ _ assms]) (simp_all add: cloneBytes_def Let_def)

text \<open>The base cache of an entry that can change its write policy.\<close>

fun baseOf :: "storeCache \<Rightarrow> baseCache option" where
  "baseOf (PlainCache c) = Some c"
| "baseOf (ShardedLRU c) = None"
| "baseOf (ThroughCache c) = Some c"
| "baseOf (AroundCache c) = Some c"
| "baseOf (BackCache w) = Some (wbInner w)"

lemma baseOf_sc: "baseOf c = Some b \<Longrightarrow> sc_read f g c = f b" "baseOf c = Some b \<Longrightarrow> sc_ok c = base_ok b"
  by (cases c; simp)+

lemma copy_of_base:
  assumes b: "base_ok b" and sn: "base_Snapshot t1 b = Some sn" and n: "newBaseCache policy (mCapacity base_cache b) = Inr new"
  shows "\<exists>new'. cloneEntriesIntoCache ts new (srEntries sn) = (None, new') \<and> base_ok new' \<and>
    (\<forall>k. base_live b k = None \<longrightarrow> base_live new' k = None) \<and>
    (\<forall>k v x. base_live b k = Some (v, x) \<longrightarrow> (\<exists>t. base_live new' k = Some (v, expiryOf t (remainingMs t1 x * 1000000))))"
proof -
  obtain sn' where "base_Snapshot t1 b = Some sn'" and d: "distinct (map enKey (srEntries sn'))"
    and m: "map_of (map (\<lambda>e. (enKey e, (enValue e, enExpiresAt e))) (srEntries sn')) = base_live b"
    and ms: "\<forall>e\<in>set (srEntries sn'). enTTLMs e = remainingMs t1 (enExpiresAt e)"
    using baseCopy.snapshot_law [OF b, of t1] by auto
  with sn have sn': "sn' = sn" by simp
  note d = d [unfolded sn'] and m = m [unfolded sn'] and ms = ms [unfolded sn']
  note new = newBaseCache_ok [OF n]
  let ?es = "srEntries sn"
  have dom: "dom (base_live b) = set (map enKey ?es)" unfolding m [symmetric] dom_map_of_conv_image_fst by (auto simp: image_image)
  have len: "finite (dom (base_live b)) \<and> mLen base_cache b = int (card (dom (base_live b)))" by (rule base.len_law [OF b])
  have "int (card (set (map enKey ?es))) \<le> mCapacity base_cache new"
    using len base.bound_law [OF b] new unfolding dom by (auto split: if_splits)
  with new d have "\<exists>new'. cloneEntriesIntoCache ts new ?es = (None, new') \<and> base_ok new' \<and> mCapacity base_cache new' = mCapacity base_cache new \<and>
      (\<forall>k. k \<notin> set (map enKey ?es) \<longrightarrow> base_live new' k = base_live new k) \<and>
      (\<forall>i<length ?es. base_live new' (enKey (?es ! i)) = Some (enValue (?es ! i), copiedExpiry (ts i) (?es ! i)))"
    by (intro clone_ok [where D = "set (map enKey ?es)"]) auto
  then obtain new' where c: "cloneEntriesIntoCache ts new ?es = (None, new')" "base_ok new'"
    and out: "\<And>k. k \<notin> set (map enKey ?es) \<Longrightarrow> base_live new' k = base_live new k"
    and at: "\<And>i. i < length ?es \<Longrightarrow> base_live new' (enKey (?es ! i)) = Some (enValue (?es ! i), copiedExpiry (ts i) (?es ! i))"
    by blast
  have "base_live new' k = None" if "base_live b k = None" for k
  proof -
    have "k \<notin> set (map enKey ?es)" using that dom by auto
    then show ?thesis using out new by simp
  qed
  moreover have "\<exists>t. base_live new' k = Some (v, expiryOf t (remainingMs t1 x * 1000000))" if l: "base_live b k = Some (v, x)" for k v x
  proof -
    have dm: "distinct (map fst (map (\<lambda>e. (enKey e, (enValue e, enExpiresAt e))) ?es))" using d by (simp add: comp_def)
    from l have "(k, (v, x)) \<in> set (map (\<lambda>e. (enKey e, (enValue e, enExpiresAt e))) ?es)"
      unfolding m [symmetric] map_of_eq_Some_iff [OF dm] .
    then obtain i where i: "i < length ?es" "k = enKey (?es ! i)" "v = enValue (?es ! i)" "x = enExpiresAt (?es ! i)"
      by (auto simp: in_set_conv_nth)
    have "enTTLMs (?es ! i) = remainingMs t1 x" using ms i by simp
    moreover have "0 \<le> remainingMs t1 x" by (simp add: remainingMs_def Let_def pos_imp_zdiv_nonneg_iff split: option.splits)
    ultimately have "copiedExpiry (ts i) (?es ! i) = expiryOf (ts i) (remainingMs t1 x * 1000000)"
      by (simp add: copiedExpiry_def)
    with at [OF i(1)] i show ?thesis by auto
  qed
  ultimately show ?thesis using c by blast
qed

lemma reconfigure_result:
  assumes "entry_ok entry" and "seCache entry = Some c" and "seAllowWritePolicy entry" and "writePolicy \<noteq> seWritePolicy entry"
    and "sc_Flush B t0 (c, st) = (c1, st1)" and "baseOf c1 = Some b"
  shows "\<exists>sn new new'. base_ok b \<and> base_Snapshot t1 b = Some sn \<and> newBaseCache (sePolicy entry) (mCapacity base_cache b) = Inr new \<and>
    cloneEntriesIntoCache ts new (srEntries sn) = (None, new') \<and> base_ok new' \<and>
    (\<forall>k. base_live b k = None \<longrightarrow> base_live new' k = None) \<and>
    (\<forall>k v x. base_live b k = Some (v, x) \<longrightarrow> (\<exists>t. base_live new' k = Some (v, expiryOf t (remainingMs t1 x * 1000000)))) \<and>
    reconfigureWritePolicy B t0 t1 ts t2 name writePolicy entry st =
      (case wrapCache new' writePolicy (seBacked entry) of
         Inl e \<Rightarrow> Some (Some e, entry\<lparr>seCache := Some c1\<rparr>, st1)
       | Inr wrapped \<Rightarrow> Some (None, entry\<lparr>seCache := Some wrapped, seWritePolicy := writePolicy\<rparr>, sc_Close B t2 (c1, st1)))"
proof -
  have c: "sc_ok c" and p: "sePolicy entry \<in> {''lru'', ''lfu'', ''arc''}" using assms(1-3) by (simp_all add: entry_ok_def)
  have b: "base_ok b" using sc_Flush_ok [OF c assms(5)] baseOf_sc(2) [OF assms(6)] by simp
  obtain sn where sn: "base_Snapshot t1 b = Some sn" using baseCopy.snapshot_law [OF b, of t1] by auto
  obtain new where new: "newBaseCache (sePolicy entry) (mCapacity base_cache b) = Inr new" using p by (auto simp: newBaseCache_def)
  obtain new' where cl: "cloneEntriesIntoCache ts new (srEntries sn) = (None, new')" "base_ok new'"
    and live: "\<forall>k. base_live b k = None \<longrightarrow> base_live new' k = None"
      "\<forall>k v x. base_live b k = Some (v, x) \<longrightarrow> (\<exists>t. base_live new' k = Some (v, expiryOf t (remainingMs t1 x * 1000000)))"
    using copy_of_base [OF b sn new, of ts] by blast
  have "reconfigureWritePolicy B t0 t1 ts t2 name writePolicy entry st =
      (case wrapCache new' writePolicy (seBacked entry) of
         Inl e \<Rightarrow> Some (Some e, entry\<lparr>seCache := Some c1\<rparr>, st1)
       | Inr wrapped \<Rightarrow> Some (None, entry\<lparr>seCache := Some wrapped, seWritePolicy := writePolicy\<rparr>, sc_Close B t2 (c1, st1)))"
    using assms(2-5) sn new cl(1)
    by (simp add: reconfigureWritePolicy_def Let_def sc_Snapshot_def sc_Capacity_def baseOf_sc(1) [OF assms(6)] split: sum.split)
  with b sn new cl live show ?thesis by blast
qed

lemma wrapCache_base: "wrapCache new writePolicy backed = Inr w \<Longrightarrow> base_ok new \<Longrightarrow>
    \<exists>b. baseOf w = Some b \<and> base_live b = base_live new \<and> (\<forall>now. base_Snapshot now b = base_Snapshot now new)"
proof -
  have lst: "arc_lst t (c\<lparr>acOnEvict := True\<rparr>) = arc_lst t c" for t c by (cases t) (simp_all add: arc_lst_def)
  then have "arc_entries now t (c\<lparr>acOnEvict := True\<rparr>) = arc_entries now t c" for now t c by (simp add: arc_entries_def lst)
  then have "arc_Snapshot now (c\<lparr>acOnEvict := True\<rparr>) = arc_Snapshot now c" for now c
    by (simp add: arc_Snapshot_def lst split: option.split)
  then have cb: "base_Snapshot now (mSetEvictionCallback base_cache True c) = base_Snapshot now c" for now c
    by (cases c) (simp_all add: base_cache_def lru_cache_def lfu_cache_def arc_cache_def lru_SetEvictionCallback_def
        lfu_SetEvictionCallback_def arc_SetEvictionCallback_def lru_Snapshot_def lfu_Snapshot_def)
  show "wrapCache new writePolicy backed = Inr w \<Longrightarrow> base_ok new \<Longrightarrow> ?thesis"
    using base.callback_law [of new True] cb by (auto simp: wrapCache_def NewWriteBack_def split: if_splits)
qed


lemma reconfigure_succeeds:
  assumes "entry_ok entry" and "seCache entry = Some c" and "seAllowWritePolicy entry" and "writePolicy \<noteq> seWritePolicy entry"
    and "baseOf c \<noteq> None" and "writePolicy = ''none'' \<or> seBacked entry \<and> writePolicy \<in> {''write-through'', ''write-back'', ''write-around''}"
  shows "\<exists>entry' st'. reconfigureWritePolicy B t0 t1 ts t2 name writePolicy entry st = Some (None, entry', st')"
proof -
  obtain c1 st1 where f: "sc_Flush B t0 (c, st) = (c1, st1)" by (cases "sc_Flush B t0 (c, st)")
  then obtain b where b: "baseOf c1 = Some b" using assms(5) by (cases c) auto
  have "\<exists>w. wrapCache x writePolicy (seBacked entry) = Inr w" for x using assms(6) by (auto simp: wrapCache_def)
  with reconfigure_result [OF assms(1-4) f b, of t1 ts t2 name] show ?thesis by (metis (no_types, lifting) sum.case(2))
qed

text \<open>An entry with the keys a (expired at 5) and b (no expiry), changed at 7 to write-back.\<close>

definition demo_entry :: StoreEntry where
  "demo_entry = \<lparr>seCache = Some (ThroughCache (snd (snd (base_Set 1 ''b'' [2] 0
       (snd (snd (base_Set 0 ''a'' [1] 5 (BaseLRU (lru_New 4))))))))), sePolicy = ''lru'',
     seWritePolicy = ''write-through'', seBacked = True, seKind = storeKindStandard, seAllowWritePolicy = True\<rparr>"

lemma base_ok_Set: "base_ok c \<Longrightarrow> base_ok (snd (snd (base_Set now k v ttl c)))"
  using base_Set_law [of c now k v ttl] by (cases "base_Set now k v ttl c") auto

lemma demo_entry_ok: "entry_ok demo_entry"
proof -
  have "base_ok (BaseLRU (lru_New 4))" using newBaseCache_ok [of "''lru''" 4] by (simp add: newBaseCache_def)
  then have "base_ok (snd (snd (base_Set 1 ''b'' [2] 0 (snd (snd (base_Set 0 ''a'' [1] 5 (BaseLRU (lru_New 4))))))))"
    by (intro base_ok_Set)
  then show ?thesis by (simp add: entry_ok_def demo_entry_def del: base_Set.simps)
qed


section \<open>What a change of the write policy loses\<close>

lemma lru_Set_new:
  assumes "lru_sim c s" and "lruSpec_ok s" and "k \<notin> set (keys_of (lsItems s))" and "int (length (lsItems s)) < lsCapacity s"
  shows "\<exists>c' s'. base_Set now k v ttl (BaseLRU c) = (None, [], BaseLRU c') \<and> lru_sim c' s' \<and> lruSpec_ok s' \<and>
    keys_of (lsItems s') = k # keys_of (lsItems s) \<and> lsCapacity s' = lsCapacity s"
proof -
  obtain err evs c' where g: "lru_Set now k v ttl c = (err, evs, c')" by (cases "lru_Set now k v ttl c")
  from lruImpl.set_sim [OF assms(1), unfolded lru_sel, OF g] obtain s'
    where s': "lruSpec_Set now k v ttl s = (err, evs, s')" "lru_sim c' s'" by (auto simp: lruSpec_cache_def)
  have "find_item k (lsItems s) = None" using assms(3) by (simp add: find_item_None)
  with s'(1) assms(4) have "err = None" "evs = []" "keys_of (lsItems s') = k # keys_of (lsItems s)" "lsCapacity s' = lsCapacity s"
    by (auto simp: lruSpec_Set_def lruSpec_evict_def)
  moreover have "lruSpec_ok s'" using lruSpec.set_law [of s now k v ttl err evs s'] s'(1) assms(2) by (simp add: lruSpec_cache_def)
  ultimately show ?thesis using g s'(2) by auto
qed

lemma lru_clone_order:
  "lru_sim c s \<Longrightarrow> lruSpec_ok s \<Longrightarrow> distinct (map enKey es @ keys_of (lsItems s)) \<Longrightarrow>
   int (length es + length (lsItems s)) \<le> lsCapacity s \<Longrightarrow>
   \<exists>c' s'. cloneEntriesIntoCache ts (BaseLRU c) es = (None, BaseLRU c') \<and> lru_sim c' s' \<and>
     keys_of (lsItems s') = rev (map enKey es) @ keys_of (lsItems s)"
proof (induction es arbitrary: c s ts)
  case Nil
  then show ?case by auto
next
  case (Cons en es)
  obtain c1 s1 where one: "base_Set (ts 0) (enKey en) (cloneBytes (enValue en)) (if enTTLMs en > 0 then enTTLMs en * 1000000 else 0) (BaseLRU c) = (None, [], BaseLRU c1)"
    "lru_sim c1 s1" "lruSpec_ok s1" "keys_of (lsItems s1) = enKey en # keys_of (lsItems s)" "lsCapacity s1 = lsCapacity s"
    using lru_Set_new [OF Cons.prems(1,2), of "enKey en" "ts 0" "cloneBytes (enValue en)" "if enTTLMs en > 0 then enTTLMs en * 1000000 else 0"]
      Cons.prems(3,4) by auto
  have "length (lsItems s1) = Suc (length (lsItems s))" using arg_cong [OF one(4), of length] by simp
  then obtain c' s' where "cloneEntriesIntoCache (\<lambda>i. ts (Suc i)) (BaseLRU c1) es = (None, BaseLRU c')" "lru_sim c' s'"
    "keys_of (lsItems s') = rev (map enKey es) @ keys_of (lsItems s1)"
    using Cons.IH [OF one(2,3), of "\<lambda>i. ts (Suc i)"] Cons.prems(3,4) one(4,5) by auto
  then show ?case using one(1,4) by (auto simp: Let_def simp del: base_Set.simps)
qed

lemma lru_snapshot_keys: "lru_sim c s \<Longrightarrow> base_Snapshot now (BaseLRU c) = Some sn \<Longrightarrow> map enKey (srEntries sn) = keys_of (lsItems s)"
  using sim_Snapshot [of c s now] map_items(2) by fastforce

text \<open>
  The copies are made from the most to the least recently used entry, so a change of the write policy
  of an LRU store turns the order of recency around: the entry that was used last is the
  next to be evicted.
\<close>

theorem reconfigure_reverses_recency:
  assumes "entry_ok entry" and "seCache entry = Some c" and "sePolicy entry = ''lru''"
    and "seAllowWritePolicy entry" and "writePolicy \<noteq> seWritePolicy entry"
    and "sc_Flush B t0 (c, st) = (c1, st1)" and "baseOf c1 = Some (BaseLRU x)"
    and "reconfigureWritePolicy B t0 t1 ts t2 name writePolicy entry st = Some (None, entry', st')"
    and "seCache entry' = Some c'" and "sc_Snapshot t1 c1 = Some sn" and "sc_Snapshot t3 c' = Some sn'"
  shows "map enKey (srEntries sn') = rev (map enKey (srEntries sn))"
proof -
  obtain sn0 new new' where r: "base_ok (BaseLRU x)" "base_Snapshot t1 (BaseLRU x) = Some sn0"
    "newBaseCache (sePolicy entry) (mCapacity base_cache (BaseLRU x)) = Inr new"
    "cloneEntriesIntoCache ts new (srEntries sn0) = (None, new')" "base_ok new'"
    "reconfigureWritePolicy B t0 t1 ts t2 name writePolicy entry st =
      (case wrapCache new' writePolicy (seBacked entry) of
         Inl e \<Rightarrow> Some (Some e, entry\<lparr>seCache := Some c1\<rparr>, st1)
       | Inr wrapped \<Rightarrow> Some (None, entry\<lparr>seCache := Some wrapped, seWritePolicy := writePolicy\<rparr>, sc_Close B t2 (c1, st1)))"
    using reconfigure_result [OF assms(1,2,4-7), of t1 ts t2 name] by blast
  then have w: "wrapCache new' writePolicy (seBacked entry) = Inr c'" using assms(8,9) by (auto split: sum.splits)
  have sn: "sn0 = sn" using r(2) assms(10) unfolding sc_Snapshot_def baseOf_sc(1) [OF assms(7)] by simp
  obtain s where s: "lru_sim x s" "lruSpec_ok s" using r(1) by (auto simp: base_ok_def)
  have keys: "map enKey (srEntries sn) = keys_of (lsItems s)" using lru_snapshot_keys [OF s(1)] r(2) sn by simp
  let ?cap = "lsCapacity s"
  have cap: "mCapacity base_cache (BaseLRU x) = ?cap"
    using lruImpl.capacity_impl [OF s(1)] by (simp add: base_cache_def lruSpec_cache_def)
  have new: "new = BaseLRU (lru_New ?cap)" using r(3) assms(3) cap by (simp add: newBaseCache_def)
  have "int (length (lsItems s)) \<le> ?cap" by (rule lruSpec_ok_bound [OF s(2)])
  then have "int (length (srEntries sn) + length (lsItems (lruSpec_New ?cap))) \<le> lsCapacity (lruSpec_New ?cap)"
    using arg_cong [OF keys, of length] by (simp add: lruSpec_New_def)
  moreover have "distinct (map enKey (srEntries sn) @ keys_of (lsItems (lruSpec_New ?cap)))"
    using s(2) keys by (simp add: lruSpec_ok_def lruSpec_New_def)
  ultimately obtain d s1 where d: "cloneEntriesIntoCache ts (BaseLRU (lru_New ?cap)) (srEntries sn) = (None, BaseLRU d)" "lru_sim d s1"
    "keys_of (lsItems s1) = rev (map enKey (srEntries sn))"
    using lru_clone_order [OF lru_sim_New lruSpec_New_ok(1), of "srEntries sn" ?cap ts] by (auto simp: lruSpec_New_def)
  have "new' = BaseLRU d" using r(4) d(1) new sn by simp
  with wrapCache_base [OF w r(5)] assms(11) d(2) lru_snapshot_keys [of d s1 t3 sn'] d(3) show ?thesis
    by (auto simp: sc_Snapshot_def baseOf_sc(1))
qed

lemma demo_keys:
  assumes "seCache demo_entry = Some c" and "sc_Snapshot 7 c = Some sn"
  shows "map enKey (srEntries sn) = [''b'', ''a'']"
proof -
  obtain c1 s1 where one: "base_Set 0 ''a'' [1] 5 (BaseLRU (lru_New 4)) = (None, [], BaseLRU c1)" "lru_sim c1 s1" "lruSpec_ok s1"
    "keys_of (lsItems s1) = [''a'']" "lsCapacity s1 = 4"
    using lru_Set_new [OF lru_sim_New lruSpec_New_ok(1), of "''a''" 4 0 "[1]" 5] by (auto simp: lruSpec_New_def simp del: base_Set.simps)
  have "length (lsItems s1) = 1" using arg_cong [OF one(4), of length] by simp
  then obtain c2 s2 where two: "base_Set 1 ''b'' [2] 0 (BaseLRU c1) = (None, [], BaseLRU c2)" "lru_sim c2 s2" "keys_of (lsItems s2) = [''b'', ''a'']"
    using lru_Set_new [OF one(2,3), of "''b''" 1 "[2]" 0] one(4,5) by (auto simp del: base_Set.simps)
  have "c = ThroughCache (BaseLRU c2)" using assms(1) one(1) two(1) by (simp add: demo_entry_def del: base_Set.simps)
  then have "base_Snapshot 7 (BaseLRU c2) = Some sn" using assms(2) by (simp add: sc_Snapshot_def)
  with lru_snapshot_keys [OF two(2)] two(3) show ?thesis by simp
qed

theorem reconfigure_reverses_recency_witness:
  "\<exists>c sn entry' st' c' sn'. seCache demo_entry = Some c \<and> sc_Snapshot 7 c = Some sn \<and> map enKey (srEntries sn) = [''b'', ''a''] \<and>
     reconfigureWritePolicy (memory_store None) 7 7 (\<lambda>_. 7) 7 ''lru'' ''write-back'' demo_entry (NewMemoryStore 0) =
       Some (None, entry', st') \<and> seCache entry' = Some c' \<and> sc_Snapshot 8 c' = Some sn' \<and>
     map enKey (srEntries sn') = [''a'', ''b'']"
proof -
  obtain c x where c: "seCache demo_entry = Some c" "baseOf c = Some (BaseLRU x)"
      "sc_Flush (memory_store None) 7 (c, NewMemoryStore 0) = (c, NewMemoryStore 0)"
    by (simp add: demo_entry_def)
  have p: "seAllowWritePolicy demo_entry" "''write-back'' \<noteq> seWritePolicy demo_entry" "seBacked demo_entry" "sePolicy demo_entry = ''lru''"
    by (simp_all add: demo_entry_def)
  obtain entry' st' where r: "reconfigureWritePolicy (memory_store None) 7 7 (\<lambda>_. 7) 7 ''lru'' ''write-back'' demo_entry (NewMemoryStore 0) = Some (None, entry', st')"
    using reconfigure_succeeds [OF demo_entry_ok c(1) p(1,2)] c(2) p(3) by fastforce
  have ok: "sc_ok c" using demo_entry_ok c(1) by (simp add: entry_ok_def)
  obtain c' where c': "seCache entry' = Some c'" "sc_ok c'"
    using reconfigure_result [OF demo_entry_ok c(1) p(1,2) c(3,2), of 7 "\<lambda>_. 7" 7 "''lru''"] r wrapCache_ok by (fastforce split: sum.splits)
  obtain sn sn' where sn: "sc_Snapshot 7 c = Some sn" "sc_Snapshot 8 c' = Some sn'"
    using sc_Snapshot_total [OF ok] sc_Snapshot_total [OF c'(2)] by blast
  have keys: "map enKey (srEntries sn) = [''b'', ''a'']" by (rule demo_keys [OF c(1) sn(1)])
  have rev: "map enKey (srEntries sn') = [''a'', ''b'']"
    using reconfigure_reverses_recency [OF demo_entry_ok c(1) p(4,1,2) c(3,2) r c'(1) sn] keys by simp
  show ?thesis
    by (rule exI [of _ c], rule exI [of _ sn], rule exI [of _ entry'], rule exI [of _ st'], rule exI [of _ c'], rule exI [of _ sn'])
       (intro conjI c(1) sn keys r c'(1) rev)
qed

end
