(* ===== verification/Handlers.thy ===== *)
theory Handlers
  imports Store_Factory Rate_Limiter Coherence
begin

text \<open>
  The HTTP handlers of api/handler.go on stores and on the coordinator, and the types of
  api/dto.go. A handler takes the URL parameters, the outcome of reading its body and the clock
  readings it makes (\<open>ts i\<close> is the i-th), and gives the response with the new state; \<open>None\<close>
  is a panic (a nil pointer), which the recovery middleware turns into a 500. The locks of an
  entry are held for the whole handler, so a handler is one step; the write policies take no
  lock of their own, and two handlers that only read-lock the same entry may interleave in them,
  which is not modelled.

  JSON is left outside: a request is what \<open>Decode\<close> yields, a response is the value to be encoded.
\<close>

section \<open>Types (dto.go)\<close>

record APIError =
  aeCode :: string
  aeMessage :: string
  aeDetail :: string

record GetResponse =
  grKey :: string
  grValue :: string
  grHit :: bool
  grTTLMs :: int
  grFreq :: int

record PutRequest =
  prValue :: string
  prTTLMs :: int64

record PutResponse =
  psKey :: string
  psWritePolicy :: string

record DeleteResponse =
  drKey :: string
  drFound :: bool

record StatsResponse =
  stPolicy :: string
  stWritePolicy :: string
  stCapacity :: int
  stSize :: int
  stHitRate :: real
  stHits :: int
  stMisses :: int
  stEvictions :: int
  stTTLExpiries :: int
  stBytesStored :: int
  stWriteStoreOps :: int
  stReadStoreOps :: int
  stDirtyCount :: int
  stStoreLatencyMs :: int

record CoherenceSetRequest =
  csKey :: string
  csValue :: string
  csNode :: string

record ConfigRequest =
  crStoreLatencyMs :: int64
  crWritePolicy :: string
  crFlushNow :: bool

record HealthResponse =
  heStores :: int
  heCoherenceEnabled :: bool
  heBenchmarkActive :: bool
  heBenchmarkBackedUp :: bool
  heTime :: instant

datatype apiBody =
    ErrorBody APIError
  | GetBody GetResponse
  | PutBody PutResponse
  | DeleteBody DeleteResponse
  | StatsBody StatsResponse
  | ConfigBody string "int option"
  | SnapshotBody SnapshotResult
  | NodesBody "(string \<times> NodeSnapshot) list"
  | HealthBody HealthResponse
  | StatusBody string

record apiResponse =
  arStatus :: int
  arBody :: apiBody

definition writeJSON :: "int \<Rightarrow> apiBody \<Rightarrow> apiResponse" where
  "writeJSON status v = \<lparr>arStatus = status, arBody = v\<rparr>"

definition writeError :: "int \<Rightarrow> string \<Rightarrow> string \<Rightarrow> apiResponse" where
  "writeError status code msg = writeJSON status (ErrorBody \<lparr>aeCode = code, aeMessage = msg, aeDetail = []\<rparr>)"

text \<open>What the second \<open>Decode\<close> of \<open>decodeJSONBody\<close> meets: the end, another value, or an error.\<close>

datatype jsonNext = JsonEOF | JsonValue | JsonFails error

definition decodeJSONBody :: "(error + 'a) \<times> jsonNext \<Rightarrow> error + 'a" where
  "decodeJSONBody body =
     (case fst body of
        Inl e \<Rightarrow> Inl e
      | Inr dst \<Rightarrow>
          (case snd body of
             JsonEOF \<Rightarrow> Inr dst
           | JsonValue \<Rightarrow> Inl ''request body must contain a single JSON object''
           | JsonFails e \<Rightarrow> Inl e))"

section \<open>State\<close>

text \<open>A store with a configurable latency (internal/store/store.go)\<close>

record 's ConfigurableStore = "'s BackingStore" +
  csSetLatency :: "duration \<Rightarrow> 's \<Rightarrow> 's"
  csGetLatency :: "'s \<Rightarrow> duration"

definition memory_configurable :: "error option \<Rightarrow> MemoryStore ConfigurableStore" where
  "memory_configurable ctx = \<lparr>bGet = memory_Get ctx, bSet = memory_Set ctx, bDelete = memory_Delete ctx,
     csSetLatency = memory_SetLatency, csGetLatency = memory_GetLatency\<rparr>"

abbreviation bstore :: "'s ConfigurableStore \<Rightarrow> 's BackingStore" where
  "bstore B \<equiv> BackingStore.truncate B"

text \<open>
  The handler's stores (a nil entry is \<open>None\<close>), the backing store that they share, the coordinator,
  and of the benchmark what the handlers here read.
\<close>

record 's Handler =
  hStores :: "(string, StoreEntry option) gomap"
  hBacking :: 's
  hCoordinator :: "LRUCache Coordinator option"
  hBenchActive :: bool
  hBenchBacked :: bool

definition getStore :: "string \<Rightarrow> 's Handler \<Rightarrow> StoreEntry option option" where
  "getStore name h = map_of (hStores h) name"

definition putStore :: "string \<Rightarrow> StoreEntry \<Rightarrow> 's \<Rightarrow> 's Handler \<Rightarrow> 's Handler" where
  "putStore name e st h = h\<lparr>hStores := AList.update name (Some e) (hStores h), hBacking := st\<rparr>"

definition unknownStore :: "string \<Rightarrow> apiResponse" where
  "unknownStore name = writeError 404 ''STORE_NOT_FOUND'' (''unknown store: '' @ name)"

text \<open>\<open>time.Duration(ms) * time.Millisecond\<close> in 64 bits, and \<open>Milliseconds()\<close>, which truncates\<close>

definition ofMillis :: "int64 \<Rightarrow> duration" where
  "ofMillis ms = sint (ms * 1000000)"

definition Milliseconds :: "duration \<Rightarrow> int" where
  "Milliseconds d = (if d \<ge> 0 then d div 1000000 else - ((- d) div 1000000))"

section \<open>Handlers on one store\<close>

text \<open>The cache of an entry that a handler uses; both panics (nil entry, nil cache) are \<open>None\<close>.\<close>

definition entryCache :: "StoreEntry option \<Rightarrow> (StoreEntry \<times> storeCache) option" where
  "entryCache entry =
     (case entry of None \<Rightarrow> None | Some e \<Rightarrow> (case seCache e of None \<Rightarrow> None | Some c \<Rightarrow> Some (e, c)))"

definition HandleGet :: "'s ConfigurableStore \<Rightarrow> (bytes \<Rightarrow> ttlEnvelope option) \<Rightarrow> (nat \<Rightarrow> instant) \<Rightarrow> string \<Rightarrow> key \<Rightarrow>
    's Handler \<Rightarrow> (apiResponse \<times> 's Handler) option" where
  "HandleGet B um ts storeName key h =
     (if length key > 512 then Some (writeError 400 ''KEY_TOO_LONG'' ''key must not exceed 512 bytes'', h)
      else
        (case getStore storeName h of
           None \<Rightarrow> Some (unknownStore storeName, h)
         | Some entry \<Rightarrow>
             (case entryCache entry of
                None \<Rightarrow> None
              | Some (e, c) \<Rightarrow>
                  (let (value, c', st) = sc_Get (bstore B) um (ts 0) (ts 1) (ts 2) key (c, hBacking h);
                       resp = \<lparr>grKey = key, grValue = (case value of None \<Rightarrow> [] | Some v \<Rightarrow> base64_Encode v),
                         grHit = (value \<noteq> None), grTTLMs = 0, grFreq = 0\<rparr>
                   in Some (writeJSON 200 (GetBody resp), putStore storeName (e\<lparr>seCache := Some c'\<rparr>) st h)))))"

definition HandlePeek :: "(nat \<Rightarrow> instant) \<Rightarrow> string \<Rightarrow> key \<Rightarrow> 's Handler \<Rightarrow> (apiResponse \<times> 's Handler) option" where
  "HandlePeek ts storeName key h =
     (if length key > 512 then Some (writeError 400 ''KEY_TOO_LONG'' ''key must not exceed 512 bytes'', h)
      else
        (case getStore storeName h of
           None \<Rightarrow> Some (unknownStore storeName, h)
         | Some entry \<Rightarrow>
             (case entryCache entry of
                None \<Rightarrow> None
              | Some (e, c) \<Rightarrow>
                  (let (value, c') = sc_Peek (ts 0) key c;
                       resp = \<lparr>grKey = key, grValue = (case value of None \<Rightarrow> [] | Some v \<Rightarrow> base64_Encode v),
                         grHit = (value \<noteq> None), grTTLMs = 0, grFreq = 0\<rparr>
                   in Some (writeJSON 200 (GetBody resp), putStore storeName (e\<lparr>seCache := Some c'\<rparr>) (hBacking h) h)))))"

definition HandleSet :: "'s ConfigurableStore \<Rightarrow> (nat \<Rightarrow> instant) \<Rightarrow> string \<Rightarrow> key \<Rightarrow> (error + PutRequest) \<times> jsonNext \<Rightarrow>
    's Handler \<Rightarrow> (apiResponse \<times> 's Handler) option" where
  "HandleSet B ts storeName key body h =
     (if length key > 512 then Some (writeError 400 ''KEY_TOO_LONG'' ''key must not exceed 512 bytes'', h)
      else
        (case getStore storeName h of
           None \<Rightarrow> Some (unknownStore storeName, h)
         | Some entry \<Rightarrow>
             (case decodeJSONBody body of
                Inl err \<Rightarrow> Some (writeError 400 ''INVALID_REQUEST'' err, h)
              | Inr req \<Rightarrow>
                  if prTTLMs req <s 0
                  then Some (writeError 400 ''INVALID_TTL'' ''ttlMs must be greater than or equal to 0'', h)
                  else
                    (case base64_Decode (prValue req) of
                       None \<Rightarrow> Some (writeError 400 ''INVALID_VALUE'' ''value must be base64 encoded'', h)
                     | Some value \<Rightarrow>
                         if length value > 1048576
                         then Some (writeError 413 ''VALUE_TOO_LARGE'' ''value exceeds 1MB'', h)
                         else
                           (case entryCache entry of
                              None \<Rightarrow> None
                            | Some (e, c) \<Rightarrow>
                                (let ttl = ofMillis (prTTLMs req);
                                     (err, c', st) = sc_Set (bstore B) (ts 0) (ts 1) key value ttl (c, hBacking h);
                                     h' = putStore storeName (e\<lparr>seCache := Some c'\<rparr>) st h
                                 in (case err of
                                       Some m \<Rightarrow> Some (writeError 502 ''STORE_WRITE_ERROR'' m, h')
                                     | None \<Rightarrow>
                                         Some (writeJSON 200 (PutBody \<lparr>psKey = key, psWritePolicy = seWritePolicy e\<rparr>), h'))))))))"

definition HandleDelete :: "'s ConfigurableStore \<Rightarrow> string \<Rightarrow> key \<Rightarrow> 's Handler \<Rightarrow> (apiResponse \<times> 's Handler) option" where
  "HandleDelete B storeName key h =
     (if length key > 512 then Some (writeError 400 ''KEY_TOO_LONG'' ''key must not exceed 512 bytes'', h)
      else
        (case getStore storeName h of
           None \<Rightarrow> Some (unknownStore storeName, h)
         | Some entry \<Rightarrow>
             (case entryCache entry of
                None \<Rightarrow> None
              | Some (e, c) \<Rightarrow>
                  (let (found, c', st) = sc_Delete (bstore B) key (c, hBacking h)
                   in Some (writeJSON 200 (DeleteBody \<lparr>drKey = key, drFound = found\<rparr>),
                        putStore storeName (e\<lparr>seCache := Some c'\<rparr>) st h)))))"

definition HandleStats :: "'s ConfigurableStore \<Rightarrow> string \<Rightarrow> 's Handler \<Rightarrow> (apiResponse \<times> 's Handler) option" where
  "HandleStats B storeName h =
     (case getStore storeName h of
        None \<Rightarrow> Some (unknownStore storeName, h)
      | Some entry \<Rightarrow>
          (case entryCache entry of
             None \<Rightarrow> None
           | Some (e, c) \<Rightarrow>
               (let st = sc_Stats c;
                    resp = \<lparr>stPolicy = sePolicy e, stWritePolicy = seWritePolicy e, stCapacity = sc_Capacity c,
                      stSize = sc_Len c, stHitRate = HitRate st, stHits = sint (Hits st), stMisses = sint (Misses st),
                      stEvictions = sint (Evictions st), stTTLExpiries = sint (TTLExpiries st),
                      stBytesStored = sint (BytesStored st), stWriteStoreOps = sint (WriteStoreOps st),
                      stReadStoreOps = sint (ReadStoreOps st),
                      stDirtyCount = (case sc_DirtyCount c of None \<Rightarrow> 0 | Some n \<Rightarrow> n),
                      stStoreLatencyMs = (if seBacked e then Milliseconds (csGetLatency B (hBacking h)) else 0)\<rparr>
                in Some (writeJSON 200 (StatsBody resp), h))))"

definition HandleSnapshot :: "(nat \<Rightarrow> instant) \<Rightarrow> string \<Rightarrow> 's Handler \<Rightarrow> (apiResponse \<times> 's Handler) option" where
  "HandleSnapshot ts storeName h =
     (case getStore storeName h of
        None \<Rightarrow> Some (unknownStore storeName, h)
      | Some entry \<Rightarrow>
          (case entryCache entry of
             None \<Rightarrow> None
           | Some (e, c) \<Rightarrow> map_option (\<lambda>snap. (writeJSON 200 (SnapshotBody snap), h)) (sc_Snapshot (ts 0) c)))"

definition HandlePurge :: "'s ConfigurableStore \<Rightarrow> (nat \<Rightarrow> instant) \<Rightarrow> string \<Rightarrow> 's Handler \<Rightarrow> (apiResponse \<times> 's Handler) option" where
  "HandlePurge B ts storeName h =
     (case getStore storeName h of
        None \<Rightarrow> Some (unknownStore storeName, h)
      | Some entry \<Rightarrow>
          (case entryCache entry of
             None \<Rightarrow> None
           | Some (e, c) \<Rightarrow>
               (let (c', st) = sc_Purge (bstore B) (ts 0) (c, hBacking h)
                in Some (writeJSON 200 (StatusBody ''purged''), putStore storeName (e\<lparr>seCache := Some c'\<rparr>) st h))))"

section \<open>Configuration of a store\<close>

text \<open>
  The write policy part: \<open>Inl\<close> a response that ends the request. Clock readings 0 to 2 belong to
  \<open>reconfigureWritePolicy\<close>, 3 to the final flush, the copies read the clock from 4 on.
\<close>

definition configPolicy :: "'s ConfigurableStore \<Rightarrow> (nat \<Rightarrow> instant) \<Rightarrow> string \<Rightarrow> string \<Rightarrow> StoreEntry \<Rightarrow> 's Handler \<Rightarrow>
    ((apiResponse + StoreEntry) \<times> 's Handler) option" where
  "configPolicy B ts storeName writePolicy e h =
     (if writePolicy = [] then Some (Inr e, h)
      else
        (case reconfigureWritePolicy (bstore B) (ts 0) (ts 1) (\<lambda>i. ts (4 + i)) (ts 2) storeName writePolicy e (hBacking h) of
           None \<Rightarrow> None
         | Some (Some err, e', st) \<Rightarrow>
             Some (Inl (writeError 400 ''INVALID_WRITE_POLICY'' err), putStore storeName e' st h)
         | Some (None, e', st) \<Rightarrow> Some (Inr e', putStore storeName e' st h)))"

definition configFlush :: "'s ConfigurableStore \<Rightarrow> instant \<Rightarrow> string \<Rightarrow> bool \<Rightarrow> StoreEntry \<Rightarrow> 's Handler \<Rightarrow> 's Handler" where
  "configFlush B now storeName flushNow e h =
     (case seCache e of
        Some c \<Rightarrow>
          (if flushNow then (let (c', st) = sc_Flush (bstore B) now (c, hBacking h)
                             in putStore storeName (e\<lparr>seCache := Some c'\<rparr>) st h)
           else h)
      | None \<Rightarrow> h)"

definition HandleConfig :: "'s ConfigurableStore \<Rightarrow> (nat \<Rightarrow> instant) \<Rightarrow> string \<Rightarrow> (error + ConfigRequest) \<times> jsonNext \<Rightarrow>
    's Handler \<Rightarrow> (apiResponse \<times> 's Handler) option" where
  "HandleConfig B ts storeName body h =
     (case getStore storeName h of
        None \<Rightarrow> Some (unknownStore storeName, h)
      | Some entry \<Rightarrow>
          (case decodeJSONBody body of
             Inl err \<Rightarrow> Some (writeError 400 ''INVALID_REQUEST'' err, h)
           | Inr req \<Rightarrow>
               if crStoreLatencyMs req <s -1
               then Some (writeError 400 ''INVALID_STORE_LATENCY'' ''storeLatencyMs must be -1 or greater'', h)
               else
                 (case entry of
                    None \<Rightarrow> None
                  | Some e \<Rightarrow>
                      (let h = (if 0 \<le>s crStoreLatencyMs req \<and> seBacked e
                                then h\<lparr>hBacking := csSetLatency B (ofMillis (crStoreLatencyMs req)) (hBacking h)\<rparr> else h)
                       in (case configPolicy B ts storeName (crWritePolicy req) e h of
                             None \<Rightarrow> None
                           | Some (Inl resp, h) \<Rightarrow> Some (resp, h)
                           | Some (Inr e, h) \<Rightarrow>
                               (let h = configFlush B (ts 3) storeName (crFlushNow req) e h
                                in Some (writeJSON 200 (ConfigBody (seWritePolicy e)
                                     (if seBacked e then Some (Milliseconds (csGetLatency B (hBacking h))) else None)), h)))))))"

section \<open>Coherence, health and shutdown\<close>

definition HandleCoherenceSet :: "(nat \<Rightarrow> instant) \<Rightarrow> (error + CoherenceSetRequest) \<times> jsonNext \<Rightarrow> 's Handler \<Rightarrow>
    (apiResponse \<times> 's Handler) option" where
  "HandleCoherenceSet ts body h =
     (case decodeJSONBody body of
        Inl err \<Rightarrow> Some (writeError 400 ''INVALID_REQUEST'' err, h)
      | Inr req \<Rightarrow>
          if csKey req = [] \<or> csNode req = []
          then Some (writeError 400 ''INVALID_REQUEST'' ''node and key are required'', h)
          else
            (case base64_Decode (csValue req) of
               None \<Rightarrow> Some (writeError 400 ''INVALID_VALUE'' ''value must be base64'', h)
             | Some value \<Rightarrow>
                 (case hCoordinator h of
                    None \<Rightarrow> None
                  | Some co \<Rightarrow>
                      (case coordinator_Set lru_cache (ts 0) (csNode req) (csKey req) value 0 co of
                         None \<Rightarrow> None
                       | Some (Some err, co') \<Rightarrow> Some (writeError 500 ''SET_ERROR'' err, h\<lparr>hCoordinator := Some co'\<rparr>)
                       | Some (None, co') \<Rightarrow> Some (writeJSON 200 (StatusBody ''ok''), h\<lparr>hCoordinator := Some co'\<rparr>)))))"

definition HandleCoherenceNodes :: "(nat \<Rightarrow> instant) \<Rightarrow> 's Handler \<Rightarrow> (apiResponse \<times> 's Handler) option" where
  "HandleCoherenceNodes ts h =
     (case hCoordinator h of
        None \<Rightarrow> None
      | Some co \<Rightarrow> map_option (\<lambda>snap. (writeJSON 200 (NodesBody snap), h)) (coordinator_Snapshot lru_cache (ts 0) co))"

definition HandleHealth :: "(nat \<Rightarrow> instant) \<Rightarrow> 's Handler \<Rightarrow> apiResponse \<times> 's Handler" where
  "HandleHealth ts h =
     (writeJSON 200 (HealthBody \<lparr>heStores = int (length (hStores h)), heCoherenceEnabled = (hCoordinator h \<noteq> None),
        heBenchmarkActive = hBenchActive h, heBenchmarkBackedUp = hBenchBacked h, heTime = ts 0\<rparr>), h)"

text \<open>\<open>benchReady\<close> is the outcome of creating the directory of the results.\<close>

definition readyChecks :: "error option \<Rightarrow> 's Handler \<Rightarrow> error option" where
  "readyChecks benchReady h =
     (if length (hStores h) = 0 then Some ''no stores configured''
      else
        (case find (\<lambda>(name, entry). entryCache entry = None) (hStores h) of
           Some (name, entry) \<Rightarrow> Some (''store '' @ name @ '' is not initialized'')
         | None \<Rightarrow>
             (if hCoordinator h = None then Some ''coordinator is not initialized''
              else if hBenchBacked h then
                map_option (\<lambda>e. ''benchmark result store unavailable: '' @ e) benchReady
              else None)))"

definition HandleReady :: "error option \<Rightarrow> 's Handler \<Rightarrow> apiResponse \<times> 's Handler" where
  "HandleReady benchReady h =
     (case readyChecks benchReady h of
        Some e \<Rightarrow> (writeError 503 ''NOT_READY'' e, h)
      | None \<Rightarrow> (writeJSON 200 (StatusBody ''ready''), h))"

text \<open>\<open>Shutdown\<close> closes the caches and sets them to nil (the order of the map is the order of \<open>hStores\<close>).\<close>

fun closeEntries :: "'s BackingStore \<Rightarrow> instant \<Rightarrow> (string, StoreEntry option) gomap \<Rightarrow> 's \<Rightarrow>
    (string, StoreEntry option) gomap \<times> 's" where
  "closeEntries B now [] st = ([], st)"
| "closeEntries B now ((name, entry) # m) st =
     (let (entry', st1) =
            (case entryCache entry of
               None \<Rightarrow> (entry, st)
             | Some (e, c) \<Rightarrow> (Some (e\<lparr>seCache := None\<rparr>), sc_Close B now (c, st)));
          (m', st2) = closeEntries B now m st1
      in ((name, entry') # m', st2))"

definition handler_Shutdown :: "'s ConfigurableStore \<Rightarrow> instant \<Rightarrow> 's Handler \<Rightarrow> 's Handler" where
  "handler_Shutdown B now h =
     (let (m, st) = closeEntries (bstore B) now (hStores h) (hBacking h) in h\<lparr>hStores := m, hBacking := st\<rparr>)"

section \<open>What the caches of the stores hold\<close>

definition sc_live :: "storeCache \<Rightarrow> key \<rightharpoonup> bytes \<times> Time" where
  "sc_live = sc_read base_live (sharded_live (\<lambda>c. live_of (lsItems (lru_abs c))))"

lemma sc_live_simps [simp]:
  "sc_live (PlainCache c) = base_live c" "sc_live (ThroughCache c) = base_live c" "sc_live (AroundCache c) = base_live c"
  "sc_live (BackCache w) = base_live (wbInner w)"
  by (simp_all add: sc_live_def)

context cache_contract
begin

lemma wb_evicts_live:
  "inv (wbInner w) \<Longrightarrow> live (wbInner (foldl (wb_onEvict M B now) w evs)) = live (wbInner w)"
proof (induction evs arbitrary: w)
  case (Cons ev evs)
  have "live (wbInner (wb_onEvict M B now w ev)) = live (wbInner w)"
    using updstats_law [OF Cons.prems] by (auto simp: wb_onEvict_def wb_takeDirty_def wb_wrote_def Let_def split: option.splits prod.splits)
  with Cons.IH [OF wb_evict_ok [OF Cons.prems]] show ?case by simp
qed simp

lemma set_live: "inv c \<Longrightarrow> mSet M now k v ttl c = (err, evs, c') \<Longrightarrow> live c' k = Some (v, expiryOf now ttl)"
  using set_law by blast

lemma get_hit:
  assumes "inv c" and "live c k = Some (v, x)" and "\<not> expired now x"
  shows "\<exists>c'. mGet M now k c = (Some v, c')"
proof -
  obtain r c' where g: "mGet M now k c = (r, c')" by (cases "mGet M now k c")
  from get_law [OF assms(1) g] assms(2,3) g show ?thesis by simp
qed

end

lemma sc_Get_hit:
  assumes "sc_ok c" and "sc_live c k = Some (v, x)" and "\<not> expired now x"
  shows "\<exists>c' st'. sc_Get B um now t2 t3 k (c, st) = (Some v, c', st')"
proof (cases c)
  case (PlainCache b)
  with assms obtain b' where "base_Get now k b = (Some v, b')" using base.get_hit [of b k v x now] by auto
  then show ?thesis using PlainCache by simp
next
  case (ShardedLRU sc)
  with assms lruSharded.get_hit [of sc k v x now] show ?thesis by (auto simp: sc_ok_def sc_live_def sharded_sel)
next
  case (ThroughCache b)
  with assms obtain b' where "base_Get now k b = (Some v, b')" using base.get_hit [of b k v x now] by auto
  then show ?thesis using ThroughCache by (simp add: wt_Get_def)
next
  case (AroundCache b)
  with assms obtain b' where "base_Get now k b = (Some v, b')" using base.get_hit [of b k v x now] by auto
  then show ?thesis using AroundCache by (simp add: wa_Get_def)
next
  case (BackCache w)
  with assms obtain b' where "base_Get now k (wbInner w) = (Some v, b')" using base.get_hit [of "wbInner w" k v x now] by auto
  then show ?thesis using BackCache by (simp add: wb_Get_def)
qed

lemma sc_Set_live:
  assumes "sc_ok c" and "\<forall>b. c \<noteq> AroundCache b" and "sc_Set B now t2 k v ttl (c, st) = (None, c', st')"
  shows "sc_live c' k = Some (v, expiryOf now ttl) \<or> sc_live c' k = Some (v, expiryOf t2 ttl)"
proof (cases c)
  case (PlainCache b)
  obtain err evs b' where s: "base_Set now k v ttl b = (err, evs, b')" by (cases "base_Set now k v ttl b")
  with base.set_live [of b now k v ttl err evs b'] assms PlainCache show ?thesis by auto
next
  case (ShardedLRU sc)
  obtain err evs b' where s: "sharded_Set lru_cache now k v ttl sc = (err, evs, b')" by (cases "sharded_Set lru_cache now k v ttl sc")
  with lruSharded.set_live [of sc now k v ttl err evs b'] assms ShardedLRU show ?thesis
    by (auto simp: sc_ok_def sc_live_def sharded_sel)
next
  case (ThroughCache b)
  let ?b = "mUpdStats base_cache addWriteStoreOps b"
  obtain err evs b' where s: "base_Set t2 k v ttl ?b = (err, evs, b')" by (cases "base_Set t2 k v ttl ?b")
  have "base_ok ?b" using base.updstats_law assms(1) ThroughCache by simp
  from base.set_live [OF this, unfolded base_sel, OF s] s assms ThroughCache show ?thesis
    by (auto simp: wt_Set_def Let_def split: sum.splits prod.splits option.splits)
next
  case (AroundCache b)
  with assms(2) show ?thesis by simp
next
  case (BackCache w)
  obtain err evs b' where s: "base_Set now k v ttl (wbInner w) = (err, evs, b')" by (cases "base_Set now k v ttl (wbInner w)")
  have ok: "base_ok (wbInner w)" using assms(1) BackCache by simp
  have b': "base_ok b'" using base_Set_law [OF ok s] by blast
  have "base_live (wbInner (foldl (wb_onEvict base_cache B now) ((wbAttach st w)\<lparr>wbInner := b'\<rparr>) evs)) = base_live b'"
    using base.wb_evicts_live [of "(wbAttach st w)\<lparr>wbInner := b'\<rparr>" B now evs] b' by simp
  with base.set_live [OF ok, unfolded base_sel, OF s] s assms(3) BackCache show ?thesis
    by (auto simp: wb_Set_def wb_markDirty_def Let_def split: option.splits)
qed

text \<open>A store cache stays over the same kind of cache.\<close>

lemma sc_shape:
  "sc_Get B um now t2 t3 k (c, st) = (r, c', st') \<Longrightarrow> baseOf c' = None \<longleftrightarrow> baseOf c = None"
  "sc_Set B now t2 k v ttl (c, st) = (err, c', st') \<Longrightarrow> baseOf c' = None \<longleftrightarrow> baseOf c = None"
  "sc_Delete B k (c, st) = (b, c', st') \<Longrightarrow> baseOf c' = None \<longleftrightarrow> baseOf c = None"
  "sc_Peek now k c = (r, c') \<Longrightarrow> baseOf c' = None \<longleftrightarrow> baseOf c = None"
  "sc_Purge B now (c, st) = (c', st') \<Longrightarrow> baseOf c' = None \<longleftrightarrow> baseOf c = None"
  "sc_Flush B now (c, st) = (c', st') \<Longrightarrow> baseOf c' = None \<longleftrightarrow> baseOf c = None"
  by (cases c; auto split: prod.splits; fail)+

section \<open>Every request is answered\<close>

definition served_entry :: "StoreEntry option \<Rightarrow> bool" where
  "served_entry entry \<longleftrightarrow>
     (case entryCache entry of
        None \<Rightarrow> False
      | Some (e, c) \<Rightarrow> entry_ok e \<and> (seAllowWritePolicy e \<longrightarrow> baseOf c \<noteq> None))"

definition coordinator_ok :: "LRUCache Coordinator option \<Rightarrow> bool" where
  "coordinator_ok co \<longleftrightarrow>
     (case co of
        None \<Rightarrow> False
      | Some co \<Rightarrow> bus_ok (coBus co) \<and> (\<forall>(i, n)\<in>set (coNodes co). \<exists>s. lru_sim n s \<and> lruSpec_ok s))"

definition server_ok :: "'s Handler \<Rightarrow> bool" where
  "server_ok h \<longleftrightarrow> distinct (map fst (hStores h)) \<and> (\<forall>(n, e)\<in>set (hStores h). served_entry e) \<and>
     coordinator_ok (hCoordinator h)"

lemma server_entry:
  assumes "getStore name h = Some entry" and "server_ok h"
  shows "\<exists>e c. entry = Some e \<and> seCache e = Some c \<and> entryCache entry = Some (e, c) \<and> sc_ok c \<and> entry_ok e \<and>
    (seAllowWritePolicy e \<longrightarrow> baseOf c \<noteq> None)"
proof -
  have "(name, entry) \<in> set (hStores h)" using assms(1) by (simp add: getStore_def map_of_SomeD)
  then have "served_entry entry" using assms(2) by (auto simp: server_ok_def)
  then show ?thesis by (auto simp: served_entry_def entryCache_def entry_ok_def split: option.splits)
qed

lemma server_put:
  assumes "server_ok h" and "sc_ok c" and "entry_ok e" and "seAllowWritePolicy e \<longrightarrow> baseOf c \<noteq> None"
  shows "server_ok (putStore name (e\<lparr>seCache := Some c\<rparr>) st h)"
proof -
  have "served_entry (Some (e\<lparr>seCache := Some c\<rparr>))"
    using assms(2-4) by (simp add: served_entry_def entryCache_def entry_ok_def)
  moreover have "set (AList.update name x m) \<subseteq> insert (name, x) (set m)" for x and m :: "(string, StoreEntry option) gomap"
    by (induction m) auto
  ultimately show ?thesis using assms(1) by (fastforce simp: server_ok_def putStore_def distinct_update)
qed

text \<open>The statuses that the handlers send.\<close>

definition apiStatus :: "int set" where
  "apiStatus = {200, 400, 404, 413, 500, 502, 503}"

lemma writeStatus [simp]: "arStatus (writeJSON s v) = s" "arStatus (writeError s c m) = s" "arStatus (unknownStore n) = 404"
  by (simp_all add: writeJSON_def writeError_def unknownStore_def)

lemma apiStatus_mem [simp]: "200 \<in> apiStatus" "400 \<in> apiStatus" "404 \<in> apiStatus" "413 \<in> apiStatus" "500 \<in> apiStatus" "502 \<in> apiStatus" "503 \<in> apiStatus"
  by (simp_all add: apiStatus_def)

definition answered :: "(apiResponse \<times> 's Handler) option \<Rightarrow> bool" where
  "answered x \<longleftrightarrow> (case x of None \<Rightarrow> False | Some (resp, h) \<Rightarrow> arStatus resp \<in> apiStatus \<and> server_ok h)"

lemma answered_Some [simp]: "answered (Some (resp, h)) \<longleftrightarrow> arStatus resp \<in> apiStatus \<and> server_ok h"
  by (simp add: answered_def)

lemma HandleGet_answers: "server_ok h \<Longrightarrow> answered (HandleGet B um ts name k h)"
  by (auto simp: HandleGet_def Let_def split: option.splits prod.splits dest!: server_entry
      intro!: server_put dest: sc_Get_ok sc_shape(1))

lemma HandlePeek_answers: "server_ok h \<Longrightarrow> answered (HandlePeek ts name k h)"
  by (auto simp: HandlePeek_def Let_def split: option.splits prod.splits dest!: server_entry
      intro!: server_put dest: sc_Peek_ok sc_shape(4))

lemma HandleSet_answers: "server_ok h \<Longrightarrow> answered (HandleSet B ts name k body h)"
  by (auto simp: HandleSet_def Let_def split: option.splits prod.splits sum.splits dest!: server_entry
      intro!: server_put dest: sc_Set_ok sc_shape(2))

lemma HandleDelete_answers: "server_ok h \<Longrightarrow> answered (HandleDelete B name k h)"
  by (auto simp: HandleDelete_def Let_def split: option.splits prod.splits dest!: server_entry
      intro!: server_put dest: sc_Delete_ok sc_shape(3))

lemma HandleStats_answers: "server_ok h \<Longrightarrow> answered (HandleStats B name h)"
  by (auto simp: HandleStats_def Let_def split: option.splits prod.splits dest!: server_entry)

lemma HandlePurge_answers: "server_ok h \<Longrightarrow> answered (HandlePurge B ts name h)"
  by (auto simp: HandlePurge_def Let_def split: option.splits prod.splits dest!: server_entry
      intro!: server_put dest: sc_Purge_ok sc_shape(5))

lemma HandleSnapshot_answers: "server_ok h \<Longrightarrow> answered (HandleSnapshot ts name h)"
  by (auto simp: HandleSnapshot_def split: option.splits prod.splits dest!: server_entry dest: sc_Snapshot_total [where now = "ts 0"])

text \<open>A change of the write policy keeps the entry well-formed, whether it succeeds or not.\<close>

lemma reconfigure_entry_ok:
  assumes "entry_ok e" and "seCache e = Some c" and "seAllowWritePolicy e \<longrightarrow> baseOf c \<noteq> None"
  shows "\<exists>err e' c' st'. reconfigureWritePolicy B t0 t1 ts t2 name wp e st = Some (err, e', st') \<and> entry_ok e' \<and>
    seCache e' = Some c' \<and> (seAllowWritePolicy e' \<longrightarrow> baseOf c' \<noteq> None)"
proof (cases "seAllowWritePolicy e \<and> wp \<noteq> seWritePolicy e")
  case False
  with assms show ?thesis by (auto simp: reconfigureWritePolicy_def)
next
  case True
  obtain c1 st1 where f: "sc_Flush B t0 (c, st) = (c1, st1)" by (cases "sc_Flush B t0 (c, st)")
  then obtain b where b: "baseOf c1 = Some b" using assms(3) True sc_shape(6) [OF f] by auto
  obtain new' where r: "base_ok new'" "reconfigureWritePolicy B t0 t1 ts t2 name wp e st =
      (case wrapCache new' wp (seBacked e) of
         Inl err \<Rightarrow> Some (Some err, e\<lparr>seCache := Some c1\<rparr>, st1)
       | Inr wrapped \<Rightarrow> Some (None, e\<lparr>seCache := Some wrapped, seWritePolicy := wp\<rparr>, sc_Close B t2 (c1, st1)))"
    using reconfigure_result [OF assms(1,2) _ _ f b, of wp t1 ts t2 name] True by blast
  have c1: "sc_ok c1" using sc_Flush_ok [OF _ f] assms(1,2) by (simp add: entry_ok_def)
  show ?thesis
  proof (cases "wrapCache new' wp (seBacked e)")
    case (Inl err)
    with r(2) c1 b assms(1) show ?thesis by (auto simp: entry_ok_def)
  next
    case (Inr w)
    with r(2) wrapCache_ok [OF Inr r(1)] wrapCache_base [OF Inr r(1)] assms(1) show ?thesis by (auto simp: entry_ok_def)
  qed
qed

lemma server_put_entry:
  "server_ok h \<Longrightarrow> entry_ok e \<Longrightarrow> seCache e = Some c \<Longrightarrow> seAllowWritePolicy e \<longrightarrow> baseOf c \<noteq> None \<Longrightarrow> server_ok (putStore name e st h)"
proof -
  assume a: "server_ok h" "entry_ok e" "seCache e = Some c" "seAllowWritePolicy e \<longrightarrow> baseOf c \<noteq> None"
  have "e\<lparr>seCache := Some c\<rparr> = e" using a(3) by simp
  with server_put [OF a(1) _ a(2), of c name st] a show "server_ok (putStore name e st h)" by (simp add: entry_ok_def)
qed

lemma server_frame [simp]:
  "server_ok (h\<lparr>hBacking := st\<rparr>) = server_ok h" "getStore name (h\<lparr>hBacking := st\<rparr>) = getStore name h"
  "getStore name (putStore name e st h) = Some (Some e)"
  by (simp_all add: server_ok_def getStore_def putStore_def map_of_update_upd)

lemma configPolicy_ok:
  assumes "server_ok h" and "getStore name h = Some (Some e)"
  shows "\<exists>r h'. configPolicy B ts name wp e h = Some (r, h') \<and> server_ok h' \<and>
    (case r of Inl resp \<Rightarrow> arStatus resp = 400 | Inr e' \<Rightarrow> getStore name h' = Some (Some e'))"
proof (cases "wp = []")
  case True
  with assms show ?thesis by (simp add: configPolicy_def)
next
  case False
  from server_entry [OF assms(2,1)] obtain c where c: "seCache e = Some c" "entry_ok e" "seAllowWritePolicy e \<longrightarrow> baseOf c \<noteq> None" by auto
  from reconfigure_entry_ok [OF c(2,1,3), of "bstore B" "ts 0" "ts 1" "\<lambda>i. ts (4 + i)" "ts 2" name wp "hBacking h"]
  obtain err e' c' st' where r: "reconfigureWritePolicy (bstore B) (ts 0) (ts 1) (\<lambda>i. ts (4 + i)) (ts 2) name wp e (hBacking h) = Some (err, e', st')"
    and e': "entry_ok e'" "seCache e' = Some c'" "seAllowWritePolicy e' \<longrightarrow> baseOf c' \<noteq> None" by blast
  with False server_put_entry [OF assms(1) e', of name st'] show ?thesis
    by (cases err) (simp_all add: configPolicy_def)
qed

lemma configFlush_ok:
  assumes "server_ok h" and "getStore name h = Some (Some e)"
  shows "server_ok (configFlush B now name b e h)"
proof -
  from server_entry [OF assms(2,1)] obtain c where c: "seCache e = Some c" "sc_ok c" "entry_ok e" "seAllowWritePolicy e \<longrightarrow> baseOf c \<noteq> None" by auto
  obtain c' st' where f: "sc_Flush (bstore B) now (c, hBacking h) = (c', st')" by (cases "sc_Flush (bstore B) now (c, hBacking h)")
  with server_put [OF assms(1) sc_Flush_ok [OF c(2) f] c(3)] sc_shape(6) [OF f] c(1,4) assms(1) show ?thesis
    by (simp add: configFlush_def)
qed

lemma HandleConfig_answers: "server_ok h \<Longrightarrow> answered (HandleConfig B ts name body h)"
proof (cases "getStore name h")
  case (Some entry)
  assume ok: "server_ok h"
  obtain e where e: "entry = Some e" using server_entry [OF Some ok] by auto
  show ?thesis
  proof (cases "decodeJSONBody body")
    case (Inr req)
    define h1 where "h1 = (if 0 \<le>s crStoreLatencyMs req \<and> seBacked e
        then h\<lparr>hBacking := csSetLatency B (ofMillis (crStoreLatencyMs req)) (hBacking h)\<rparr> else h)"
    have h1: "server_ok h1" "getStore name h1 = Some (Some e)" using ok Some e by (simp_all add: h1_def)
    obtain r h2 where p: "configPolicy B ts name (crWritePolicy req) e h1 = Some (r, h2)" "server_ok h2"
      "case r of Inl resp \<Rightarrow> arStatus resp = 400 | Inr e' \<Rightarrow> getStore name h2 = Some (Some e')"
      using configPolicy_ok [OF h1] by blast
    then show ?thesis using Some e Inr ok configFlush_ok [OF p(2)] unfolding HandleConfig_def
      by (cases r) (simp_all add: h1_def [symmetric] Let_def)
  qed (use Some ok in \<open>simp add: HandleConfig_def\<close>)
qed (simp add: HandleConfig_def)

lemma coordinator_Set_ok:
  assumes "coordinator_ok (Some co)"
  shows "\<exists>r co'. coordinator_Set lru_cache now i k v ttl co = Some (r, co') \<and> coordinator_ok (Some co')"
proof -
  have bus: "bus_ok (coBus co)" and nodes: "\<forall>(i, n)\<in>set (coNodes co). \<exists>s. lru_sim n s \<and> lruSpec_ok s"
    using assms by (auto simp: coordinator_ok_def)
  obtain r co' where w: "coordinator_write lru_cache now i k v ttl co = (r, co')" by (cases "coordinator_write lru_cache now i k v ttl co")
  have ok: "bus_ok (coBus co') \<and> (\<forall>(i, n)\<in>set (coNodes co'). \<exists>s. lru_sim n s \<and> lruSpec_ok s)"
  proof (cases "map_of (coNodes co) i")
    case None
    with w bus nodes show ?thesis by (simp add: coordinator_write_def)
  next
    case (Some n)
    obtain err evs n' where s: "mSet lru_cache now k v ttl n = (err, evs, n')" by (cases "mSet lru_cache now k v ttl n")
    have "(i, n) \<in> set (coNodes co)" using Some by (rule map_of_SomeD)
    then have n: "\<exists>s. lru_sim n s \<and> lruSpec_ok s" using nodes by auto
    have new: "\<exists>s. lru_sim n' s \<and> lruSpec_ok s" using lru.set_law [OF n s] by blast
    have sub: "set (AList.update i n' m) \<subseteq> insert (i, n') (set m)" for m :: "(string, LRUCache) gomap" by (induction m) auto
    have "\<forall>p\<in>set (AList.update i n' (coNodes co)). case p of (j, m) \<Rightarrow> \<exists>s. lru_sim m s \<and> lruSpec_ok s"
    proof
      fix p assume "p \<in> set (AList.update i n' (coNodes co))"
      then have "p = (i, n') \<or> p \<in> set (coNodes co)" using sub by blast
      then show "case p of (j, m) \<Rightarrow> \<exists>s. lru_sim m s \<and> lruSpec_ok s" using new nodes by auto
    qed
    moreover have "co' = co\<lparr>coNodes := AList.update i n' (coNodes co)\<rparr>"
      using w Some s by (auto simp: coordinator_write_def Let_def split: option.splits)
    ultimately show ?thesis using bus by simp
  qed
  show ?thesis
  proof (cases r)
    case (Inl e)
    with w ok show ?thesis by (simp add: coordinator_Set_def coordinator_ok_def)
  next
    case (Inr ev)
    obtain b where "bus_Publish ev (coBus co') = Some b" "bus_ok b" using Publish_ok [of "coBus co'" ev] ok by metis
    with Inr w ok show ?thesis by (simp add: coordinator_Set_def coordinator_ok_def)
  qed
qed

lemma HandleCoherenceSet_answers: "server_ok h \<Longrightarrow> answered (HandleCoherenceSet ts body h)"
proof -
  assume ok: "server_ok h"
  obtain co where co: "hCoordinator h = Some co" "coordinator_ok (Some co)" using ok by (auto simp: server_ok_def coordinator_ok_def split: option.splits)
  have "server_ok (h\<lparr>hCoordinator := Some co'\<rparr>)" if "coordinator_ok (Some co')" for co' using ok that by (simp add: server_ok_def)
  then have "answered (case coordinator_Set lru_cache now i k v ttl co of
      None \<Rightarrow> None
    | Some (Some err, co') \<Rightarrow> Some (writeError 500 ''SET_ERROR'' err, h\<lparr>hCoordinator := Some co'\<rparr>)
    | Some (None, co') \<Rightarrow> Some (writeJSON 200 (StatusBody ''ok''), h\<lparr>hCoordinator := Some co'\<rparr>))" for now i k v ttl
    using coordinator_Set_ok [OF co(2), of now i k v ttl] by (auto split: option.splits)
  with ok co(1) show ?thesis by (simp add: HandleCoherenceSet_def split: sum.split option.split)
qed

lemma HandleCoherenceNodes_answers: "server_ok h \<Longrightarrow> answered (HandleCoherenceNodes ts h)"
proof -
  assume ok: "server_ok h"
  obtain co where co: "hCoordinator h = Some co" "\<forall>(i, n)\<in>set (coNodes co). \<exists>s. lru_sim n s \<and> lruSpec_ok s"
    using ok by (auto simp: server_ok_def coordinator_ok_def split: option.splits)
  have "\<forall>x\<in>set (coNodes co). (\<lambda>(i, n). map_option (\<lambda>snap. (i, \<lparr>nsNodeID = i, nsEntries = srEntries snap, nsLen = mLen lru_cache n\<rparr>))
      (mSnapshot lru_cache (ts 0) n)) x \<noteq> None"
    using co(2) lru_snapshot_law [of _ _ "ts 0"] by (fastforce simp: lru_cache_def)
  from those_Some [OF this] ok co(1) show ?thesis by (auto simp: HandleCoherenceNodes_def coordinator_Snapshot_def)
qed

text \<open>A request to one of the handlers above, with what they meet outside: the store's context, the clock, the directory.\<close>

datatype apiRequest =
    GetReq string key
  | PeekReq string key
  | SetReq string key "(error + PutRequest) \<times> jsonNext"
  | DeleteReq string key
  | StatsReq string
  | ConfigReq string "(error + ConfigRequest) \<times> jsonNext"
  | SnapshotReq string
  | PurgeReq string
  | CoherenceSetReq "(error + CoherenceSetRequest) \<times> jsonNext"
  | CoherenceNodesReq
  | HealthReq
  | ReadyReq "error option"

fun serve :: "'s ConfigurableStore \<Rightarrow> (bytes \<Rightarrow> ttlEnvelope option) \<Rightarrow> (nat \<Rightarrow> instant) \<Rightarrow> apiRequest \<Rightarrow> 's Handler \<Rightarrow>
    (apiResponse \<times> 's Handler) option" where
  "serve B um ts (GetReq name k) h = HandleGet B um ts name k h"
| "serve B um ts (PeekReq name k) h = HandlePeek ts name k h"
| "serve B um ts (SetReq name k body) h = HandleSet B ts name k body h"
| "serve B um ts (DeleteReq name k) h = HandleDelete B name k h"
| "serve B um ts (StatsReq name) h = HandleStats B name h"
| "serve B um ts (ConfigReq name body) h = HandleConfig B ts name body h"
| "serve B um ts (SnapshotReq name) h = HandleSnapshot ts name h"
| "serve B um ts (PurgeReq name) h = HandlePurge B ts name h"
| "serve B um ts (CoherenceSetReq body) h = HandleCoherenceSet ts body h"
| "serve B um ts CoherenceNodesReq h = HandleCoherenceNodes ts h"
| "serve B um ts HealthReq h = Some (HandleHealth ts h)"
| "serve B um ts (ReadyReq dir) h = Some (HandleReady dir h)"

fun serve_run :: "(bytes \<Rightarrow> ttlEnvelope option) \<Rightarrow> ('s ConfigurableStore \<times> (nat \<Rightarrow> instant) \<times> apiRequest) list \<Rightarrow> 's Handler \<Rightarrow>
    (apiResponse list \<times> 's Handler) option" where
  "serve_run um [] h = Some ([], h)"
| "serve_run um ((B, ts, r) # xs) h =
     (case serve B um ts r h of
        None \<Rightarrow> None
      | Some (resp, h') \<Rightarrow> map_option (\<lambda>(resps, h''). (resp # resps, h'')) (serve_run um xs h'))"

lemma serve_answers: "server_ok h \<Longrightarrow> answered (serve B um ts r h)"
  by (cases r) (simp_all add: HandleGet_answers HandlePeek_answers HandleSet_answers HandleDelete_answers HandleStats_answers
      HandleConfig_answers HandleSnapshot_answers HandlePurge_answers HandleCoherenceSet_answers HandleCoherenceNodes_answers
      HandleHealth_def HandleReady_def split: option.split)

lemma serve_run_answers: "server_ok h \<Longrightarrow>
    \<exists>resps h'. serve_run um xs h = Some (resps, h') \<and> server_ok h' \<and> length resps = length xs \<and> list_all (\<lambda>r. arStatus r \<in> apiStatus) resps"
proof (induction xs arbitrary: h)
  case (Cons x xs)
  obtain B ts r where x: "x = (B, ts, r)" by (cases x)
  from serve_answers [OF Cons.prems, of B um ts r] obtain resp h1 where s: "serve B um ts r h = Some (resp, h1)" "arStatus resp \<in> apiStatus" "server_ok h1"
    by (auto simp: answered_def split: option.splits)
  from Cons.IH [OF s(3)] s show ?case by (fastforce simp: x)
qed simp

section \<open>Properties\<close>

text \<open>
  C33: Every request is answered: from a well-formed server, any sequence of requests on the stores, the
  coordinator and the health checks is answered with one of the API's statuses, whatever the
  backing store does, and leaves a well-formed server. No handler panics and no
  snapshot runs on.
\<close>

theorem api_answers:
  assumes "server_ok h"
  shows "\<exists>resps h'. serve_run um xs h = Some (resps, h') \<and> server_ok h' \<and> length resps = length xs \<and>
    list_all (\<lambda>r. arStatus r \<in> {200, 400, 404, 413, 500, 502, 503}) resps"
  using serve_run_answers [OF assms] unfolding apiStatus_def by blast

definition demo_server :: "MemoryStore Handler" where
  "demo_server = \<lparr>hStores =
       [(''lru'', Some \<lparr>seCache = Some (ThroughCache (BaseLRU (lru_New 2))), sePolicy = ''lru'', seWritePolicy = ''write-through'',
           seBacked = True, seKind = storeKindStandard, seAllowWritePolicy = True\<rparr>),
        (''arc'', Some \<lparr>seCache = Some (ThroughCache (BaseARC (arc_New 2))), sePolicy = ''arc'', seWritePolicy = ''write-through'',
           seBacked = True, seKind = storeKindStandard, seAllowWritePolicy = True\<rparr>)],
     hBacking = NewMemoryStore 0, hCoordinator = Some (syCo (NewCoordinator [(''node-a'', lru_New 1)] NewBus)),
     hBenchActive = False, hBenchBacked = False\<rparr>"

lemma demo_server_ok: "server_ok demo_server"
proof -
  have "base_ok (BaseLRU (lru_New 2))" "base_ok (BaseARC (arc_New 2))"
    using newBaseCache_ok [of "''lru''" 2] newBaseCache_ok [of "''arc''" 2] by (simp_all add: newBaseCache_def)
  moreover have "bus_ok (sy_bus (NewCoordinator [(''node-a'', lru_New 1)] NewBus))"
    using New_ok [of "[(''node-a'', lru_New 1)]"] by (simp add: co_ok_def)
  moreover have "coNodes (syCo (NewCoordinator [(''node-a'', lru_New 1)] NewBus)) = [(''node-a'', lru_New 1)]"
    by (simp add: NewCoordinator_def split: prod.split)
  ultimately show ?thesis using lru_New_live(1) [of 1]
    by (simp add: server_ok_def demo_server_def served_entry_def entryCache_def entry_ok_def coordinator_ok_def)
qed

definition demo_requests :: "(MemoryStore ConfigurableStore \<times> (nat \<Rightarrow> instant) \<times> apiRequest) list" where
  "demo_requests = map (\<lambda>(t, r). (memory_configurable None, \<lambda>i. t + int i, r))
     [(0, SetReq ''lru'' ''k'' (Inr \<lparr>prValue = ''aGk='', prTTLMs = 5\<rparr>, JsonEOF)), (10, GetReq ''arc'' ''k''),
      (20, ConfigReq ''arc'' (Inr \<lparr>crStoreLatencyMs = -1, crWritePolicy = ''write-back'', crFlushNow = True\<rparr>, JsonEOF)),
      (30, SnapshotReq ''arc''), (40, StatsReq ''none''), (50, ReadyReq None)]"

theorem api_answers_witness:
  "\<exists>resps h'. serve_run parseEnvelope demo_requests demo_server = Some (resps, h') \<and> server_ok h' \<and>
    length resps = length demo_requests \<and> list_all (\<lambda>r. arStatus r \<in> {200, 400, 404, 413, 500, 502, 503}) resps"
  by (rule api_answers [OF demo_server_ok])

text \<open>The value that a response to a read carries.\<close>

definition hitValue :: "apiResponse \<Rightarrow> string option" where
  "hitValue r = (case arBody r of GetBody g \<Rightarrow> if grHit g then Some (grValue g) else None | _ \<Rightarrow> None)"

lemma HandleGet_hit:
  assumes "getStore name h = Some (Some e)" and "seCache e = Some c" and "server_ok h" and "length k \<le> 512"
    and "sc_live c k = Some (v, x)" and "\<not> expired (ts 0) x"
  shows "\<exists>resp h'. HandleGet B um ts name k h = Some (resp, h') \<and> arStatus resp = 200 \<and> hitValue resp = Some (base64_Encode v)"
proof -
  have ok: "sc_ok c" using server_entry [OF assms(1,3)] assms(2) by auto
  obtain c' st' where "sc_Get (bstore B) um (ts 0) (ts 1) (ts 2) k (c, hBacking h) = (Some v, c', st')"
    using sc_Get_hit [OF ok assms(5,6), where B = "bstore B" and um = um and ?t2.0 = "ts 1" and ?t3.0 = "ts 2" and st = "hBacking h"]
    by blast
  then show ?thesis using assms(1,2,4)
    by (simp add: HandleGet_def entryCache_def hitValue_def writeJSON_def)
qed

lemma HandleSet_done:
  assumes "HandleSet B ts name k body h = Some (resp, h')" and "arStatus resp = 200"
  shows "\<exists>e c c' st' req v. getStore name h = Some (Some e) \<and> seCache e = Some c \<and> decodeJSONBody body = Inr req \<and>
    base64_Decode (prValue req) = Some v \<and> length k \<le> 512 \<and> 0 \<le>s prTTLMs req \<and>
    sc_Set (bstore B) (ts 0) (ts 1) k v (ofMillis (prTTLMs req)) (c, hBacking h) = (None, c', st') \<and>
    h' = putStore name (e\<lparr>seCache := Some c'\<rparr>) st' h"
  using assms by (auto simp: HandleSet_def entryCache_def Let_def split: if_splits option.splits sum.splits prod.splits)


text \<open>A PUT to a write-through store over the memory store, whose context does not end, succeeds.\<close>

lemma memory_truncate [simp]: "bstore (memory_configurable ctx) = memory_store ctx"
  by (simp add: memory_configurable_def memory_store_def BackingStore.truncate_def)

lemma HandleSet_through:
  assumes "server_ok h" and "getStore a h = Some (Some e)" and "seCache e = Some (ThroughCache b)"
    and "length k \<le> 512" and "base64_Decode s = Some v" and "length v \<le> 1048576" and "0 \<le>s ttl"
  shows "\<exists>b' enc. encodeForStore v (expiryOf (ts 0) (ofMillis ttl)) = Inr enc \<and>
    HandleSet (memory_configurable None) ts a k (Inr \<lparr>prValue = s, prTTLMs = ttl\<rparr>, JsonEOF) h =
      Some (writeJSON 200 (PutBody \<lparr>psKey = k, psWritePolicy = seWritePolicy e\<rparr>),
        putStore a (e\<lparr>seCache := Some (ThroughCache b')\<rparr>)
          ((hBacking h)\<lparr>msData := AList.update k enc (msData (hBacking h))\<rparr>) h)"
proof -
  obtain enc where enc: "encodeForStore v (expiryOf (ts 0) (ofMillis ttl)) = Inr enc"
    by (cases "expiryOf (ts 0) (ofMillis ttl)") (auto simp: encodeForStore_def Let_def)
  have ok: "base_ok b" using server_entry [OF assms(2,1)] assms(3) by auto
  let ?b = "mUpdStats base_cache addWriteStoreOps b"
  obtain err evs b' where set: "base_Set (ts 1) k v (ofMillis ttl) ?b = (err, evs, b')" by (cases "base_Set (ts 1) k v (ofMillis ttl) ?b")
  have "base_ok ?b" using base.updstats_law [OF ok] by simp
  then have err: "err = None" using base_Set_law [OF _ set] by blast
  have "\<not> ttl <s 0" using assms(7) by (simp add: word_sle_def word_sless_def)
  with assms(2-6) enc set err show ?thesis
    by (auto simp: HandleSet_def decodeJSONBody_def entryCache_def wt_Set_def memory_store_def memory_Set_def memory_sleep_def Let_def)
qed

lemma base64_hi: "base64_Decode ''aGk='' = Some [104, 105]" "base64_Encode [104, 105] = ''aGk=''"
proof -
  show "base64_Encode [104, 105] = ''aGk=''" by (simp add: b64_char_def b64_alphabet_def Let_def)
  then show "base64_Decode ''aGk='' = Some [104, 105]" using base64_Decode_Encode [of "[104, 105]"] by simp
qed


text \<open>
  The stores of the server share one backing store. What is put into one write-through store is read
  from another that does not hold the key, and is kept there: after the first store has
  taken a new value, the second still answers with the old one.
\<close>

theorem shared_backing_is_stale:
  assumes "server_ok h" and "a \<noteq> b" and "length k \<le> 512"
    and "getStore a h = Some (Some ea)" and "seCache ea = Some (ThroughCache ca)"
    and "getStore b h = Some (Some eb)" and "seCache eb = Some (ThroughCache cb)" and "base_live cb k = None"
    and "plainValue v1" and "length v1 \<le> 1048576" and "length v2 \<le> 1048576"
  shows "\<exists>r1 h1 r2 h2 r3 h3 r4 h4.
    HandleSet (memory_configurable None) ts a k (Inr \<lparr>prValue = base64_Encode v1, prTTLMs = 0\<rparr>, JsonEOF) h = Some (r1, h1) \<and>
    HandleGet (memory_configurable None) um ts b k h1 = Some (r2, h2) \<and> hitValue r2 = Some (base64_Encode v1) \<and>
    HandleSet (memory_configurable None) ts a k (Inr \<lparr>prValue = base64_Encode v2, prTTLMs = 0\<rparr>, JsonEOF) h2 = Some (r3, h3) \<and>
    arStatus r3 = 200 \<and>
    HandleGet (memory_configurable None) um ts b k h3 = Some (r4, h4) \<and> hitValue r4 = Some (base64_Encode v1)"
proof -
  let ?B = "memory_configurable None" and ?put = "\<lambda>v. (Inr \<lparr>prValue = base64_Encode v, prTTLMs = 0\<rparr>, JsonEOF)"
  have enc: "encodeForStore v (expiryOf t (ofMillis 0)) = Inr v" for v t by (simp add: encodeForStore_def expiryOf_def ofMillis_def)
  obtain ca1 where s1: "HandleSet ?B ts a k (?put v1) h = Some (writeJSON 200 (PutBody \<lparr>psKey = k, psWritePolicy = seWritePolicy ea\<rparr>),
      putStore a (ea\<lparr>seCache := Some (ThroughCache ca1)\<rparr>) ((hBacking h)\<lparr>msData := AList.update k v1 (msData (hBacking h))\<rparr>) h)"
    using HandleSet_through [OF assms(1,4,5,3), of "base64_Encode v1" v1 0 ts] assms(10) enc by auto
  define h1 where "h1 = putStore a (ea\<lparr>seCache := Some (ThroughCache ca1)\<rparr>) ((hBacking h)\<lparr>msData := AList.update k v1 (msData (hBacking h))\<rparr>) h"
  have ok1: "server_ok h1" using HandleSet_answers [OF assms(1), of ?B ts a k "?put v1"] unfolding s1 h1_def by simp
  have b1: "getStore b h1 = Some (Some eb)" using assms(2,6) by (simp add: h1_def getStore_def putStore_def map_of_update_upd)
  have bk: "bGet (memory_store None) k (hBacking h1) = (Inr v1, hBacking h1)"
    by (simp add: h1_def putStore_def memory_store_def memory_Get_def memory_sleep_def map_of_update_upd)
  have cbok: "base_ok cb" using server_entry [OF assms(6,1)] assms(7) by auto
  obtain r cb1 where g: "base_Get (ts 0) k cb = (r, cb1)" by (cases "base_Get (ts 0) k cb")
  note gl = base_Get_law [OF cbok g]
  have r: "r = None" using gl assms(8) by simp
  let ?cb = "mUpdStats base_cache addReadStoreOps cb1"
  obtain err evs cb2 where s: "base_Set (ts 2) k v1 0 ?cb = (err, evs, cb2)" by (cases "base_Set (ts 2) k v1 0 ?cb")
  have "base_ok ?cb" using base.updstats_law gl by simp
  from base_Set_law [OF this s] have cb2: "base_live cb2 k = Some (v1, None)" by (simp add: expiryOf_def)
  have "decodeFromStore um v1 = Inr (v1, None)" using assms(9) by (simp add: decodeFromStore_def plainValue_def)
  then have g1: "HandleGet ?B um ts b k h1 = Some (writeJSON 200 (GetBody \<lparr>grKey = k, grValue = base64_Encode v1, grHit = True, grTTLMs = 0, grFreq = 0\<rparr>),
      putStore b (eb\<lparr>seCache := Some (ThroughCache cb2)\<rparr>) (hBacking h1) h1)"
    using assms(3,7) b1 bk g r s by (simp add: HandleGet_def entryCache_def wt_Get_def ttlFromExpiry_def)
  define h2 where "h2 = putStore b (eb\<lparr>seCache := Some (ThroughCache cb2)\<rparr>) (hBacking h1) h1"
  have ok2: "server_ok h2" using HandleGet_answers [OF ok1, of ?B um ts b k] unfolding g1 h2_def by simp
  have a2: "getStore a h2 = Some (Some (ea\<lparr>seCache := Some (ThroughCache ca1)\<rparr>))"
    using assms(2) by (simp add: h2_def h1_def getStore_def putStore_def map_of_update_upd)
  obtain r3 h3 where s3: "HandleSet ?B ts a k (?put v2) h2 = Some (r3, h3)" "arStatus r3 = 200"
      "getStore b h3 = getStore b h2"
    using HandleSet_through [OF ok2 a2 _ assms(3), of ca1 "base64_Encode v2" v2 0 ts] assms(2,11)
    by (auto simp: getStore_def putStore_def map_of_update_upd)
  have ok3: "server_ok h3" using HandleSet_answers [OF ok2, of ?B ts a k "?put v2"] unfolding s3 by simp
  have b3: "getStore b h3 = Some (Some (eb\<lparr>seCache := Some (ThroughCache cb2)\<rparr>))" using s3(3) by (simp add: h2_def)
  obtain r4 h4 where "HandleGet ?B um ts b k h3 = Some (r4, h4)" "hitValue r4 = Some (base64_Encode v1)"
    using HandleGet_hit [OF b3 _ ok3 assms(3), of "ThroughCache cb2" v1 None ts ?B um] cb2 by auto
  then show ?thesis using s1 g1 s3 unfolding h1_def [symmetric] h2_def [symmetric]
    by (auto simp: hitValue_def writeJSON_def)
qed

theorem shared_backing_is_stale_witness:
  "\<exists>r1 h1 r2 h2 r3 h3 r4 h4.
    HandleSet (memory_configurable None) (\<lambda>_. 7) ''lru'' ''k'' (Inr \<lparr>prValue = base64_Encode [1], prTTLMs = 0\<rparr>, JsonEOF) demo_server = Some (r1, h1) \<and>
    HandleGet (memory_configurable None) parseEnvelope (\<lambda>_. 7) ''arc'' ''k'' h1 = Some (r2, h2) \<and> hitValue r2 = Some (base64_Encode [1]) \<and>
    HandleSet (memory_configurable None) (\<lambda>_. 7) ''lru'' ''k'' (Inr \<lparr>prValue = base64_Encode [2], prTTLMs = 0\<rparr>, JsonEOF) h2 = Some (r3, h3) \<and>
    arStatus r3 = 200 \<and>
    HandleGet (memory_configurable None) parseEnvelope (\<lambda>_. 7) ''arc'' ''k'' h3 = Some (r4, h4) \<and> hitValue r4 = Some (base64_Encode [1])"
proof -
  obtain ea where ea: "getStore ''lru'' demo_server = Some (Some ea)" "seCache ea = Some (ThroughCache (BaseLRU (lru_New 2)))"
    by (simp add: demo_server_def getStore_def)
  obtain eb where eb: "getStore ''arc'' demo_server = Some (Some eb)" "seCache eb = Some (ThroughCache (BaseARC (arc_New 2)))"
    by (simp add: demo_server_def getStore_def)
  have none: "base_live (BaseARC (arc_New 2)) ''k'' = None" using newBaseCache_ok [of "''arc''" 2] by (simp add: newBaseCache_def)
  have plain: "plainValue [1]" by (simp add: plainValue_def hasPrefix_def ttlEnvelopePrefix_def toBytes_def)
  show ?thesis by (rule shared_backing_is_stale [OF demo_server_ok _ _ ea eb none plain]) simp_all
qed

text \<open>
  An empty configuration request, \<open>{}\<close>, leaves \<open>storeLatencyMs\<close> at 0 in the decoder, and so sets
  the latency of the backing store to 0.
\<close>

theorem config_resets_latency:
  assumes "server_ok h" and "getStore name h = Some (Some e)" and "seBacked e"
  shows "\<exists>resp h'. HandleConfig (memory_configurable ctx) ts name
      (Inr \<lparr>crStoreLatencyMs = 0, crWritePolicy = [], crFlushNow = False\<rparr>, JsonEOF) h = Some (resp, h') \<and>
    arStatus resp = 200 \<and> memory_GetLatency (hBacking h') = 0"
proof -
  have "configFlush (memory_configurable ctx) now name False e h = h" for now and h :: "MemoryStore Handler"
    by (simp add: configFlush_def split: option.split)
  then show ?thesis using assms
    by (simp add: HandleConfig_def decodeJSONBody_def configPolicy_def Let_def word_sle_eq word_sless_alt
        memory_configurable_def memory_SetLatency_def memory_GetLatency_def ofMillis_def)
qed

theorem config_resets_latency_witness:
  "\<exists>resp h'. HandleConfig (memory_configurable None) (\<lambda>_. 0) ''lru''
      (Inr \<lparr>crStoreLatencyMs = 0, crWritePolicy = [], crFlushNow = False\<rparr>, JsonEOF)
      (demo_server\<lparr>hBacking := NewMemoryStore 5000000\<rparr>) = Some (resp, h') \<and>
    arStatus resp = 200 \<and> memory_GetLatency (hBacking h') = 0"
proof -
  let ?h = "demo_server\<lparr>hBacking := NewMemoryStore 5000000\<rparr>"
  obtain e where "getStore ''lru'' ?h = Some (Some e)" "seBacked e" by (simp add: demo_server_def getStore_def)
  moreover have "server_ok ?h" by (simp add: demo_server_ok)
  ultimately show ?thesis by (intro config_resets_latency)
qed

section \<open>Limits\<close>

lemma b64_groups_length: "b64_groups s = Some v \<Longrightarrow> length v \<le> length s"
  by (induction s arbitrary: v rule: b64_groups.induct) (force simp: Let_def split: option.splits if_splits)+

lemma base64_Decode_length: "base64_Decode s = Some v \<Longrightarrow> length v \<le> length s"
  using b64_groups_length [of "filter (\<lambda>c. c \<noteq> CHR 0x0A \<and> c \<noteq> CHR 0x0D) s" v] length_filter_le order_trans
  unfolding base64_Decode_def by blast

text \<open>
  The limit on values is never reached: the body is cut at 1 MB before, so the encoded value is no
  longer than that (a character of the string takes at least a byte of the body), and the decoded
  one is shorter. A client never gets 413.
\<close>

theorem value_limit_unreachable:
  assumes "HandleSet B ts name k body h = Some (resp, h')"
    and "case decodeJSONBody body of Inl e \<Rightarrow> True | Inr req \<Rightarrow> length (prValue req) \<le> 1048576"
  shows "arStatus resp \<noteq> 413"
  using assms base64_Decode_length
  by (fastforce simp: HandleSet_def Let_def split: if_splits option.splits sum.splits prod.splits)

theorem value_limit_unreachable_witness:
  "\<exists>resp h'. HandleSet (memory_configurable None) (\<lambda>_. 7) ''lru'' ''k'' (Inr \<lparr>prValue = ''aGk='', prTTLMs = 0\<rparr>, JsonEOF) demo_server =
     Some (resp, h') \<and> arStatus resp \<noteq> 413"
proof -
  let ?b = "(Inr \<lparr>prValue = ''aGk='', prTTLMs = 0\<rparr>, JsonEOF)"
  obtain resp h' where s: "HandleSet (memory_configurable None) (\<lambda>_. 7) ''lru'' ''k'' ?b demo_server = Some (resp, h')"
    using HandleSet_answers [OF demo_server_ok, of "memory_configurable None" "\<lambda>_. 7" "''lru''" "''k''" ?b]
    by (auto simp: answered_def split: option.splits)
  with value_limit_unreachable [OF s] show ?thesis by (auto simp: decodeJSONBody_def)
qed

text \<open>
  The time to live is computed in 64 bits: a request for 18446744073710 milliseconds (584 years) in a
  store without a backing store expires within one millisecond.
\<close>

theorem put_ttl_wraps:
  assumes "server_ok h" and "getStore name h = Some (Some e)" and "seCache e = Some (PlainCache b)"
    and "length k \<le> 512" and "length v \<le> 1048576"
  shows "\<exists>r1 h1 r2 h2. HandleSet B (\<lambda>_. t) name k (Inr \<lparr>prValue = base64_Encode v, prTTLMs = 18446744073710\<rparr>, JsonEOF) h = Some (r1, h1) \<and>
    arStatus r1 = 200 \<and> HandleGet B um (\<lambda>_. t + 1000000) name k h1 = Some (r2, h2) \<and> hitValue r2 = None"
proof -
  have ttl: "ofMillis 18446744073710 = 448384" by (simp add: ofMillis_def)
  have pos: "\<not> (18446744073710 :: int64) <s 0" by (simp add: word_sless_alt)
  have ok: "base_ok b" using server_entry [OF assms(2,1)] assms(3) by auto
  obtain err evs b1 where s: "base_Set t k v 448384 b = (err, evs, b1)" by (cases "base_Set t k v 448384 b")
  have b1: "base_ok b1" "err = None" "base_live b1 k = Some (v, Some (t + 448384))"
    using base_Set_law [OF ok s] by (simp_all add: expiryOf_def)
  obtain r b2 where g: "base_Get (t + 1000000) k b1 = (r, b2)" by (cases "base_Get (t + 1000000) k b1")
  have "r = None" using base_Get_law [OF b1(1) g] b1(3) by simp
  with assms(2-5) s g b1(2) ttl pos show ?thesis
    by (simp add: HandleSet_def HandleGet_def decodeJSONBody_def entryCache_def hitValue_def writeJSON_def putStore_def
        getStore_def map_of_update_upd Let_def)
qed

theorem put_ttl_wraps_witness:
  "let h = demo_server\<lparr>hStores := [(''plain'', Some \<lparr>seCache = Some (PlainCache (BaseLRU (lru_New 2))), sePolicy = ''lru'',
         seWritePolicy = ''none'', seBacked = False, seKind = storeKindStandard, seAllowWritePolicy = False\<rparr>)]\<rparr>
   in \<exists>r1 h1 r2 h2. HandleSet (memory_configurable None) (\<lambda>_. 0) ''plain'' ''k''
        (Inr \<lparr>prValue = base64_Encode [1], prTTLMs = 18446744073710\<rparr>, JsonEOF) h = Some (r1, h1) \<and> arStatus r1 = 200 \<and>
      HandleGet (memory_configurable None) parseEnvelope (\<lambda>_. 0 + 1000000) ''plain'' ''k'' h1 = Some (r2, h2) \<and> hitValue r2 = None"
proof -
  let ?e = "\<lparr>seCache = Some (PlainCache (BaseLRU (lru_New 2))), sePolicy = ''lru'', seWritePolicy = ''none'', seBacked = False,
     seKind = storeKindStandard, seAllowWritePolicy = False\<rparr>"
  let ?h = "demo_server\<lparr>hStores := [(''plain'', Some ?e)]\<rparr>"
  have "base_ok (BaseLRU (lru_New 2))" using newBaseCache_ok [of "''lru''" 2] by (simp add: newBaseCache_def)
  then have "server_ok ?h" using demo_server_ok
    by (simp add: server_ok_def served_entry_def entryCache_def entry_ok_def)
  then show ?thesis unfolding Let_def by (intro put_ttl_wraps [where e = ?e]) (simp_all add: getStore_def)
qed

end
