(* ===== verification/Benchmark_Jobs.thy ===== *)
theory Benchmark_Jobs
  imports Handlers "HOL-Library.Multiset"
begin

text \<open>
  api/benchmark_jobs.go and the benchmark handlers of api/handler.go: the job store (a JSON file that
  is replaced by renaming), the validation of a request, and the life of a job. At most one
  benchmark runs at a time; \<open>benchActive\<close> is a flag under a mutex, set by a request and
  cleared when the request is refused or by the benchmark's goroutine at its end.

  \<open>bench_step\<close> has one rule per atomic step: a request arrives, is refused, is accepted (it starts the
  goroutine), and a benchmark ends, well or by a panic. The results of a benchmark are a
  parameter. JSON round trips are left outside: the file holds the list of jobs.
\<close>

section \<open>Jobs and their file\<close>

record 'r BenchmarkJob =
  bjID :: string
  bjStatus :: string
  bjError :: string
  bjResults :: "'r option"
  bjStartedAt :: instant

text \<open>The file and its temporary sibling; \<open>None\<close> when a file does not exist.\<close>

record 'r jobFiles =
  jfPath :: "'r BenchmarkJob list option"
  jfTmp :: "'r BenchmarkJob list option"

datatype saveFailure = MkdirFails error | MarshalFails error | WriteFails error | RenameFails error

text \<open>A \<open>WriteFile\<close> that fails may leave anything in the temporary file: \<open>junk\<close>.\<close>

definition jobs_save :: "saveFailure option \<Rightarrow> 'r BenchmarkJob list option \<Rightarrow> 'r BenchmarkJob list \<Rightarrow> 'r jobFiles \<Rightarrow>
    error option \<times> 'r jobFiles" where
  "jobs_save fails junk jobs fs =
     (case fails of
        Some (MkdirFails e) \<Rightarrow> (Some e, fs)
      | Some (MarshalFails e) \<Rightarrow> (Some e, fs)
      | Some (WriteFails e) \<Rightarrow> (Some e, fs\<lparr>jfTmp := junk\<rparr>)
      | Some (RenameFails e) \<Rightarrow> (Some e, fs\<lparr>jfTmp := Some jobs\<rparr>)
      | None \<Rightarrow> (None, \<lparr>jfPath = Some jobs, jfTmp = None\<rparr>))"

text \<open>\<open>sort.Slice\<close> by falling start time, here with ties in the order given.\<close>

definition newestFirst :: "'r BenchmarkJob list \<Rightarrow> 'r BenchmarkJob list" where
  "newestFirst jobs = sort_key (\<lambda>j. - bjStartedAt j) jobs"

definition jobs_load :: "error option \<Rightarrow> 'r jobFiles \<Rightarrow> error + 'r BenchmarkJob list" where
  "jobs_load fails fs =
     (case fails of
        Some e \<Rightarrow> Inl e
      | None \<Rightarrow> (case jfPath fs of None \<Rightarrow> Inr [] | Some jobs \<Rightarrow> Inr (newestFirst jobs)))"

section \<open>The handler's jobs\<close>

text \<open>
  \<open>bsStored\<close> says whether there is a job store; \<open>bsValidating\<close> are the requests between taking and
  clearing the flag, \<open>bsRunning\<close> the job identifiers of the goroutines that run.
\<close>

record 'r BenchState =
  bsJobs :: "(string, 'r BenchmarkJob) gomap"
  bsActive :: bool
  bsStored :: bool
  bsFiles :: "'r jobFiles"
  bsValidating :: nat
  bsRunning :: "string list"

definition benchmarkJobsSnapshot :: "'r BenchState \<Rightarrow> 'r BenchmarkJob list" where
  "benchmarkJobsSnapshot s = newestFirst (map snd (bsJobs s))"

definition benchmarkJobByID :: "string \<Rightarrow> 'r BenchState \<Rightarrow> 'r BenchmarkJob option" where
  "benchmarkJobByID jobID s = (if jobID = [] then None else map_of (bsJobs s) jobID)"

text \<open>Errors are only logged.\<close>

definition persistBenchmarkJobs :: "saveFailure option \<Rightarrow> 'r BenchmarkJob list option \<Rightarrow> 'r BenchState \<Rightarrow> 'r BenchState" where
  "persistBenchmarkJobs fails junk s =
     (if bsStored s then s\<lparr>bsFiles := snd (jobs_save fails junk (benchmarkJobsSnapshot s) (bsFiles s))\<rparr> else s)"

definition loadBenchmarkJobs :: "error option \<Rightarrow> 'r BenchState \<Rightarrow> 'r BenchState" where
  "loadBenchmarkJobs fails s =
     (if \<not> bsStored s then s
      else (case jobs_load fails (bsFiles s) of
              Inl e \<Rightarrow> s
            | Inr jobs \<Rightarrow> s\<lparr>bsJobs := foldl (\<lambda>m j. AList.update (bjID j) j m) (bsJobs s) jobs\<rparr>))"

definition NewBench :: "string \<Rightarrow> error option \<Rightarrow> 'r jobFiles \<Rightarrow> 'r BenchState" where
  "NewBench path fails fs =
     loadBenchmarkJobs fails \<lparr>bsJobs = [], bsActive = False, bsStored = (path \<noteq> []), bsFiles = fs,
       bsValidating = 0, bsRunning = []\<rparr>"

section \<open>Validation\<close>

record BenchmarkRunRequest =
  brWorkload :: string
  brPolicies :: "string list"
  brCacheSize :: int
  brDurationSec :: int
  brConcurrency :: int
  brWorkloadN :: int

definition isSupportedWorkload :: "string \<Rightarrow> bool" where
  "isSupportedWorkload name \<longleftrightarrow>
     name \<in> {[], ''sequential'', ''uniform'', ''zipf'', ''temporal'', ''scan-resistant'', ''write-heavy''}"

definition policyError :: "string list \<Rightarrow> error option" where
  "policyError policies =
     (case dropWhile (\<lambda>p. case newBaseCache p 1 of Inl _ \<Rightarrow> False | Inr _ \<Rightarrow> True) policies of
        [] \<Rightarrow> None
      | p # _ \<Rightarrow> (case newBaseCache p 1 of Inl e \<Rightarrow> Some e | Inr _ \<Rightarrow> None))"

definition clampRequest :: "BenchmarkRunRequest \<Rightarrow> BenchmarkRunRequest" where
  "clampRequest req =
     (let req = (if brDurationSec req > 60 then req\<lparr>brDurationSec := 60\<rparr> else req);
          req = (if brConcurrency req < 1 then req\<lparr>brConcurrency := 1\<rparr> else req);
          req = (if brConcurrency req > 32 then req\<lparr>brConcurrency := 32\<rparr> else req)
      in if brCacheSize req > 50000 then req\<lparr>brCacheSize := 50000\<rparr> else req)"

definition benchValidate :: "(error + BenchmarkRunRequest) \<times> jsonNext \<Rightarrow> apiResponse + BenchmarkRunRequest" where
  "benchValidate body =
     (case decodeJSONBody body of
        Inl err \<Rightarrow> Inl (writeError 400 ''INVALID_REQUEST'' err)
      | Inr req \<Rightarrow>
          if \<not> isSupportedWorkload (brWorkload req) then Inl (writeError 400 ''INVALID_WORKLOAD'' ''unsupported workload'')
          else if brDurationSec req < 0
          then Inl (writeError 400 ''INVALID_DURATION'' ''durationSec must be greater than or equal to 0'')
          else if brCacheSize req < 0
          then Inl (writeError 400 ''INVALID_CACHE_SIZE'' ''cacheSize must be greater than or equal to 0'')
          else if brWorkloadN req < 0
          then Inl (writeError 400 ''INVALID_WORKLOAD_SIZE'' ''workloadN must be greater than or equal to 0'')
          else
            (let req = clampRequest req
             in case policyError (brPolicies req) of
                  Some err \<Rightarrow> Inl (writeError 400 ''INVALID_POLICY'' err)
                | None \<Rightarrow> Inr req))"

text \<open>What the goroutine makes of the request for the runner.\<close>

definition benchDefaults :: "BenchmarkRunRequest \<Rightarrow> BenchmarkRunRequest" where
  "benchDefaults req =
     (let req = (if brPolicies req = [] then req\<lparr>brPolicies := [''lru'', ''lfu'', ''arc'']\<rparr> else req);
          req = (if brDurationSec req = 0 then req\<lparr>brDurationSec := 5\<rparr> else req)
      in if brCacheSize req = 0 then req\<lparr>brCacheSize := 500\<rparr> else req)"

section \<open>The life of a job\<close>

text \<open>The oldest job in the order of the map, as the loop finds it\<close>

definition oldestJob :: "(string, 'r BenchmarkJob) gomap \<Rightarrow> string \<times> instant" where
  "oldestJob m = foldl (\<lambda>(oldest, t) (k, j). if oldest = [] \<or> bjStartedAt j < t then (k, bjStartedAt j) else (oldest, t)) ([], 0) m"

definition pruneJobs :: "string \<Rightarrow> (string, 'r BenchmarkJob) gomap \<Rightarrow> (string, 'r BenchmarkJob) gomap" where
  "pruneJobs jobID m =
     (if length m > 50 then
        (let oldest = fst (oldestJob m) in if oldest \<noteq> [] \<and> oldest \<noteq> jobID then AList.delete oldest m else m)
      else m)"

definition benchJobID :: "instant \<Rightarrow> string" where
  "benchJobID now = ''bench-'' @ showInt (now div 1000000)"

text \<open>Setting and testing the flag: \<open>None\<close> is the answer 409.\<close>

definition beginBench :: "'r BenchState \<Rightarrow> 'r BenchState option" where
  "beginBench s = (if bsActive s then None else Some (s\<lparr>bsActive := True, bsValidating := bsValidating s + 1\<rparr>))"

definition refuseBench :: "'r BenchState \<Rightarrow> 'r BenchState" where
  "refuseBench s = s\<lparr>bsActive := False, bsValidating := bsValidating s - 1\<rparr>"

definition acceptBench :: "saveFailure option \<Rightarrow> 'r BenchmarkJob list option \<Rightarrow> instant \<Rightarrow> instant \<Rightarrow> 'r BenchState \<Rightarrow>
    'r BenchmarkJob \<times> 'r BenchState" where
  "acceptBench fails junk now now' s =
     (let jobID = benchJobID now;
          job = \<lparr>bjID = jobID, bjStatus = ''running'', bjError = [], bjResults = None, bjStartedAt = now'\<rparr>;
          s = s\<lparr>bsJobs := AList.update jobID job (bsJobs s)\<rparr>;
          s = s\<lparr>bsJobs := pruneJobs jobID (bsJobs s)\<rparr>;
          s = persistBenchmarkJobs fails junk s
      in (job, s\<lparr>bsValidating := bsValidating s - 1, bsRunning := bsRunning s @ [jobID]\<rparr>))"

text \<open>The end of the goroutine of \<open>jobID\<close>: \<open>Inr\<close> the results, \<open>Inl\<close> the value of a panic.\<close>

definition endBench :: "saveFailure option \<Rightarrow> 'r BenchmarkJob list option \<Rightarrow> string \<Rightarrow> error + 'r \<Rightarrow> 'r BenchState \<Rightarrow> 'r BenchState" where
  "endBench fails junk jobID outcome s =
     (let s = (case map_of (bsJobs s) jobID of
                 None \<Rightarrow> s
               | Some j \<Rightarrow>
                   (let j = (case outcome of
                               Inr results \<Rightarrow> j\<lparr>bjStatus := ''done'', bjResults := Some results\<rparr>
                             | Inl rec \<Rightarrow> j\<lparr>bjStatus := ''error'', bjError := ''panic: '' @ rec\<rparr>)
                    in s\<lparr>bsJobs := AList.update jobID j (bsJobs s)\<rparr>));
          s = persistBenchmarkJobs fails junk s
      in s\<lparr>bsActive := False, bsRunning := remove1 jobID (bsRunning s)\<rparr>)"

text \<open>A whole \<open>HandleBenchmarkRun\<close> with nothing between its steps, and the two that read.\<close>

datatype 'r benchResponse = BenchError apiResponse | BenchJob int "'r BenchmarkJob" | BenchJobs int "'r BenchmarkJob list"

definition HandleBenchmarkRun :: "saveFailure option \<Rightarrow> 'r BenchmarkJob list option \<Rightarrow> instant \<Rightarrow> instant \<Rightarrow>
    (error + BenchmarkRunRequest) \<times> jsonNext \<Rightarrow> 'r BenchState \<Rightarrow> 'r benchResponse \<times> 'r BenchState" where
  "HandleBenchmarkRun fails junk now now' body s =
     (case beginBench s of
        None \<Rightarrow> (BenchError (writeError 409 ''BENCHMARK_RUNNING'' ''a benchmark is already running''), s)
      | Some s \<Rightarrow>
          (case benchValidate body of
             Inl resp \<Rightarrow> (BenchError resp, refuseBench s)
           | Inr req \<Rightarrow> (let (job, s) = acceptBench fails junk now now' s in (BenchJob 202 job, s))))"

definition HandleBenchmarkResults :: "'r BenchState \<Rightarrow> 'r benchResponse" where
  "HandleBenchmarkResults s = BenchJobs 200 (benchmarkJobsSnapshot s)"

definition HandleBenchmarkResult :: "string \<Rightarrow> 'r BenchState \<Rightarrow> 'r benchResponse" where
  "HandleBenchmarkResult jobID s =
     (case benchmarkJobByID jobID s of
        None \<Rightarrow> BenchError (writeError 404 ''BENCHMARK_NOT_FOUND'' ''unknown benchmark job'')
      | Some job \<Rightarrow> BenchJob 200 job)"

datatype 'r benchLabel =
    Arrived
  | TurnedAway
  | RefusedReq
  | Started string BenchmarkRunRequest instant
  | Ended string "error + 'r"

inductive bench_step :: "'r BenchState \<Rightarrow> 'r benchLabel \<Rightarrow> 'r BenchState \<Rightarrow> bool" where
  arrived: "beginBench s = Some s' \<Longrightarrow> bench_step s Arrived s'"
| turned_away: "beginBench s = None \<Longrightarrow> bench_step s TurnedAway s"
| refused: "0 < bsValidating s \<Longrightarrow> benchValidate body = Inl resp \<Longrightarrow> bench_step s RefusedReq (refuseBench s)"
| started: "0 < bsValidating s \<Longrightarrow> benchValidate body = Inr req \<Longrightarrow> acceptBench fails junk now now' s = (job, s') \<Longrightarrow>
     bench_step s (Started (bjID job) (benchDefaults req) now') s'"
| ended: "jobID \<in> set (bsRunning s) \<Longrightarrow> bench_step s (Ended jobID outcome) (endBench fails junk jobID outcome s)"

inductive bench_run :: "'r BenchState \<Rightarrow> 'r benchLabel list \<Rightarrow> 'r BenchState \<Rightarrow> bool" where
  start: "bench_run s [] s"
| snoc: "bench_run s ls s' \<Longrightarrow> bench_step s' l s'' \<Longrightarrow> bench_run s (ls @ [l]) s''"

text \<open>A request that meets no other in between is a run of one or two steps.\<close>

lemma HandleBenchmarkRun_steps:
  assumes "HandleBenchmarkRun fails junk now now' body s = (resp, s')"
  shows "\<exists>ls. bench_run s ls s' \<and> length ls \<le> 2"
proof (cases "beginBench s")
  case None
  have "bench_run s ([] @ [TurnedAway]) s" by (rule bench_run.snoc [OF bench_run.start bench_step.turned_away [OF None]])
  moreover have "s' = s" using assms None by (simp add: HandleBenchmarkRun_def)
  ultimately show ?thesis by (metis One_nat_def append_Nil length_Cons list.size(3) one_le_numeral)
next
  case (Some s1)
  have one: "bench_run s ([] @ [Arrived]) s1" by (rule bench_run.snoc [OF bench_run.start bench_step.arrived [OF Some]])
  have pos: "0 < bsValidating s1" using Some by (auto simp: beginBench_def split: if_splits)
  have "\<exists>l. bench_step s1 l s'"
    using assms Some pos by (auto simp: HandleBenchmarkRun_def intro: bench_step.refused bench_step.started split: sum.splits prod.splits)
  then obtain l where "bench_run s (([] @ [Arrived]) @ [l]) s'" using bench_run.snoc [OF one] by blast
  then show ?thesis by (intro exI [where x = "([] @ [Arrived]) @ [l]"]) simp
qed

section \<open>One at a time\<close>

lemma persist_sel [simp]:
  "bsJobs (persistBenchmarkJobs fails junk s) = bsJobs s" "bsActive (persistBenchmarkJobs fails junk s) = bsActive s"
  "bsStored (persistBenchmarkJobs fails junk s) = bsStored s" "bsValidating (persistBenchmarkJobs fails junk s) = bsValidating s"
  "bsRunning (persistBenchmarkJobs fails junk s) = bsRunning s"
  by (simp_all add: persistBenchmarkJobs_def)

lemma load_sel [simp]:
  "bsActive (loadBenchmarkJobs fails s) = bsActive s" "bsValidating (loadBenchmarkJobs fails s) = bsValidating s"
  "bsRunning (loadBenchmarkJobs fails s) = bsRunning s" "bsStored (loadBenchmarkJobs fails s) = bsStored s"
  by (simp_all add: loadBenchmarkJobs_def split: sum.split)

lemma New_sel [simp]: "\<not> bsActive (NewBench path fails fs)" "bsValidating (NewBench path fails fs) = 0"
  "bsRunning (NewBench path fails fs) = []" "bsStored (NewBench path fails fs) \<longleftrightarrow> path \<noteq> []"
  by (simp_all add: NewBench_def)

definition one_bench :: "'r BenchState \<Rightarrow> bool" where
  "one_bench s \<longleftrightarrow> bsValidating s + length (bsRunning s) = (if bsActive s then 1 else 0)"

lemma endBench_sel [simp]:
  "bsActive (endBench fails junk jobID outcome s) = False" "bsRunning (endBench fails junk jobID outcome s) = remove1 jobID (bsRunning s)"
  "bsValidating (endBench fails junk jobID outcome s) = bsValidating s"
  by (simp_all add: endBench_def Let_def split: option.split)

lemma acceptBench_sel:
  assumes "acceptBench fails junk now now' s = (job, s')"
  shows "bsActive s' = bsActive s" "bsRunning s' = bsRunning s @ [benchJobID now]" "bsValidating s' = bsValidating s - 1"
    and "job = \<lparr>bjID = benchJobID now, bjStatus = ''running'', bjError = [], bjResults = None, bjStartedAt = now'\<rparr>"
    and "bsJobs s' = pruneJobs (benchJobID now) (AList.update (benchJobID now) job (bsJobs s))"
  using assms by (auto simp: acceptBench_def Let_def)

lemma one_bench_step: "bench_step s l s' \<Longrightarrow> one_bench s \<Longrightarrow> one_bench s'"
proof (induction rule: bench_step.induct)
  case (started s body req fails junk now now' job s')
  then show ?case using acceptBench_sel [OF started(3)] by (auto simp: one_bench_def split: if_splits)
next
  case (ended jobID s outcome fails junk)
  then have "length (bsRunning s) = 1" by (cases "bsRunning s") (auto simp: one_bench_def split: if_splits)
  with ended show ?case by (auto simp: one_bench_def length_remove1 split: if_splits)
qed (auto simp: one_bench_def beginBench_def refuseBench_def split: if_splits)

lemma one_bench_run: "bench_run s ls s' \<Longrightarrow> one_bench s \<Longrightarrow> one_bench s'"
  by (induction rule: bench_run.induct) (auto intro: one_bench_step)

text \<open>
  In every run of requests and benchmarks from the start of the server, however they interleave, at
  most one request is being validated or one benchmark runs, and the flag is set exactly then: no two
  benchmarks ever run together, and the flag is not left behind.
\<close>

theorem bench_one_at_a_time:
  assumes "bench_run (NewBench path fails fs) ls s"
  shows "bsValidating s + length (bsRunning s) = (if bsActive s then 1 else 0)"
  using one_bench_run [OF assms] by (simp add: one_bench_def)

section \<open>Limits\<close>

fun withinLimits :: "'r benchLabel \<Rightarrow> bool" where
  "withinLimits (Started jobID req t) =
     (isSupportedWorkload (brWorkload req) \<and> brPolicies req \<noteq> [] \<and> set (brPolicies req) \<subseteq> {''lru'', ''lfu'', ''arc''} \<and>
      0 < brDurationSec req \<and> brDurationSec req \<le> 60 \<and> 1 \<le> brConcurrency req \<and> brConcurrency req \<le> 32 \<and>
      0 < brCacheSize req \<and> brCacheSize req \<le> 50000 \<and> 0 \<le> brWorkloadN req)"
| "withinLimits l = True"

lemma policyError_None: "policyError ps = None \<longleftrightarrow> set ps \<subseteq> {''lru'', ''lfu'', ''arc''}"
proof -
  have b: "(case newBaseCache p 1 of Inl _ \<Rightarrow> False | Inr _ \<Rightarrow> True) \<longleftrightarrow> p \<in> {''lru'', ''lfu'', ''arc''}" for p by (auto simp: newBaseCache_def)
  then have e: "newBaseCache p 1 = Inl (''unsupported policy: '' @ p)" if "p \<notin> {''lru'', ''lfu'', ''arc''}" for p
    using that by (auto simp: newBaseCache_def)
  show ?thesis unfolding policyError_def b by (induction ps) (auto simp: e split: list.splits)
qed

lemma validated_within:
  assumes "benchValidate body = Inr req"
  shows "withinLimits (Started jobID (benchDefaults req) t)"
proof -
  obtain r where r: "isSupportedWorkload (brWorkload r)" "0 \<le> brDurationSec r" "0 \<le> brCacheSize r" "0 \<le> brWorkloadN r"
    "policyError (brPolicies (clampRequest r)) = None" "req = clampRequest r"
    using assms by (auto simp: benchValidate_def Let_def split: sum.splits if_splits option.splits)
  have "brWorkload req = brWorkload r" "brPolicies req = brPolicies r" "0 \<le> brDurationSec req" "brDurationSec req \<le> 60"
    "1 \<le> brConcurrency req" "brConcurrency req \<le> 32" "0 \<le> brCacheSize req" "brCacheSize req \<le> 50000" "0 \<le> brWorkloadN req"
    using r by (auto simp: clampRequest_def Let_def)
  with r(1,5,6) show ?thesis by (auto simp: benchDefaults_def Let_def policyError_None)
qed

lemma step_within: "bench_step s l s' \<Longrightarrow> withinLimits l"
  by (induction rule: bench_step.induct) (auto intro: validated_within simp del: withinLimits.simps(1))

lemma run_within: "bench_run s ls s' \<Longrightarrow> list_all withinLimits ls"
  by (induction rule: bench_run.induct) (auto dest: step_within)

text \<open>
  Whatever a request asks for, the benchmark that it starts has a supported workload and policies, lasts
  between 1 and 60 seconds, has 1 to 32 workers and a cache of 1 to 50000 entries.
\<close>

theorem bench_within_limits:
  assumes "bench_run (NewBench path fails fs) ls s"
  shows "list_all withinLimits ls"
  by (rule run_within [OF assms])

section \<open>The jobs that are kept\<close>

text \<open>The start times of the benchmarks of a run.\<close>

fun startTime :: "'r benchLabel \<Rightarrow> instant option" where
  "startTime (Started jobID req t) = Some t"
| "startTime l = None"

definition startTimes :: "'r benchLabel list \<Rightarrow> instant list" where
  "startTimes ls = List.map_filter startTime ls"

lemma startTimes_snoc [simp]: "startTimes [] = []"
  "startTimes (ls @ [l]) = startTimes ls @ (case startTime l of None \<Rightarrow> [] | Some t \<Rightarrow> [t])"
  by (simp_all add: startTimes_def map_filter_def split: option.split)

definition job_keys :: "(string, 'r BenchmarkJob) gomap \<Rightarrow> bool" where
  "job_keys m \<longleftrightarrow> distinct (map fst m) \<and> (\<forall>(k, j)\<in>set m. bjID j = k \<and> k \<noteq> [])"

lemma benchJobID_nonempty [simp]: "benchJobID t \<noteq> []"
  by (simp add: benchJobID_def)

lemma oldest_mem:
  "m \<noteq> [] \<Longrightarrow> \<forall>(k, j)\<in>set m. k \<noteq> [] \<Longrightarrow>
   \<exists>j. (fst (oldestJob m), j) \<in> set m \<and> bjStartedAt j = snd (oldestJob m) \<and> (\<forall>(k', j')\<in>set m. bjStartedAt j \<le> bjStartedAt j')"
proof (induction m rule: rev_induct)
  case (snoc p m)
  obtain k j where p: "p = (k, j)" by (cases p)
  show ?case
  proof (cases "m = []")
    case True
    then show ?thesis by (simp add: oldestJob_def p)
  next
    case False
    then obtain j0 where j0: "(fst (oldestJob m), j0) \<in> set m" "bjStartedAt j0 = snd (oldestJob m)"
      "\<forall>(k', j')\<in>set m. bjStartedAt j0 \<le> bjStartedAt j'" using snoc by auto
    have ne: "fst (oldestJob m) \<noteq> []" using j0(1) snoc.prems(2) by auto
    have step: "oldestJob (m @ [p]) = (if bjStartedAt j < snd (oldestJob m) then (k, bjStartedAt j) else oldestJob m)"
      using ne by (cases "oldestJob m") (simp add: oldestJob_def p)
    show ?thesis
    proof (cases "bjStartedAt j < snd (oldestJob m)")
      case True
      with step j0(2,3) show ?thesis by (intro exI [where x = j]) (auto simp: p)
    next
      case False
      with step j0 show ?thesis by (intro exI [where x = j0]) (auto simp: p)
    qed
  qed
qed simp

lemma update_length: "length (AList.update k v m) \<le> Suc (length m)"
  by (induction m) auto

lemma set_update: "set (AList.update k v m) \<subseteq> insert (k, v) (set m)"
  by (induction m) auto

lemma job_keys_update: "job_keys m \<Longrightarrow> bjID j = k \<Longrightarrow> k \<noteq> [] \<Longrightarrow> job_keys (AList.update k j m)"
  using set_update [of k j m] by (fastforce simp: job_keys_def distinct_update)

lemma job_keys_prune: "job_keys m \<Longrightarrow> job_keys (pruneJobs jobID m)"
  by (auto simp: job_keys_def pruneJobs_def Let_def set_delete split: prod.splits)

lemma prune_length:
  assumes k: "job_keys m" and n: "length m \<le> 51" and j: "map_of m jobID = Some j"
    and newest: "\<forall>(k', j')\<in>set m. k' \<noteq> jobID \<longrightarrow> bjStartedAt j' < bjStartedAt j"
  shows "length (pruneJobs jobID m) \<le> 50"
proof (cases "length m > 50")
  case True
  let ?o = "fst (oldestJob m)"
  have "\<forall>(k, j)\<in>set m. k \<noteq> []" using k by (auto simp: job_keys_def)
  moreover have "m \<noteq> []" using True by auto
  ultimately obtain j0 where j0: "(?o, j0) \<in> set m" "\<forall>(k', j')\<in>set m. bjStartedAt j0 \<le> bjStartedAt j'"
    using oldest_mem [of m] by blast
  have "?o \<noteq> jobID"
  proof
    assume o: "?o = jobID"
    have "set m \<noteq> {(jobID, j)}"
    proof
      assume "set m = {(jobID, j)}"
      moreover have "distinct m" using k by (simp add: job_keys_def distinct_map)
      ultimately have "length m = 1" using distinct_card [of m] by simp
      with True show False by simp
    qed
    moreover have "(jobID, j) \<in> set m" using j by (rule map_of_SomeD)
    ultimately obtain k' j' where p: "(k', j') \<in> set m" "(k', j') \<noteq> (jobID, j)" by fastforce
    have "k' \<noteq> jobID"
    proof
      assume "k' = jobID"
      then have "map_of m jobID = Some j'" using p(1) k by (simp add: job_keys_def)
      then show False using j p(2) \<open>k' = jobID\<close> by simp
    qed
    then have "bjStartedAt j' < bjStartedAt j" using newest p(1) by auto
    moreover have "map_of m jobID = Some j0" using j0(1) o k by (simp add: job_keys_def)
    then have "j0 = j" using j by simp
    ultimately show False using j0(2) p(1) by auto
  qed
  moreover have "?o \<noteq> []" using j0(1) k by (auto simp: job_keys_def)
  moreover have "map_of m ?o \<noteq> None" using j0(1) k by (auto simp: job_keys_def)
  moreover from calculation have "Suc (length (AList.delete ?o m)) = length m" using length_delete [of m ?o] k by (auto simp: job_keys_def)
  ultimately show ?thesis using n True by (simp add: pruneJobs_def Let_def)
qed (simp add: pruneJobs_def)

text \<open>
  With a clock that advances from benchmark to benchmark the server never keeps more than 50 jobs: each
  start drops the oldest one.
\<close>

theorem bench_jobs_bounded:
  assumes "bench_run (NewBench path fails \<lparr>jfPath = None, jfTmp = None\<rparr>) ls s" and "sorted_wrt (<) (startTimes ls)"
  shows "length (bsJobs s) \<le> 50"
proof -
  have "bench_run s0 ls s \<Longrightarrow> sorted_wrt (<) (startTimes ls) \<Longrightarrow> bsJobs s0 = [] \<Longrightarrow>
      job_keys (bsJobs s) \<and> length (bsJobs s) \<le> 50 \<and> (\<forall>(k, j)\<in>set (bsJobs s). bjStartedAt j \<in> set (startTimes ls))"
    for s0 :: "'b BenchState" and ls s
  proof (induction rule: bench_run.induct)
    case (start s)
    then show ?case by (simp add: job_keys_def)
  next
    case (snoc s ls s' l s'')
    have so: "sorted_wrt (<) (startTimes ls)" using snoc.prems(1) by (simp add: sorted_wrt_append)
    note ih = snoc.IH [OF so snoc.prems(2)]
    from snoc.hyps(2) show ?case
    proof (cases rule: bench_step.cases)
      case arrived
      with ih show ?thesis by (auto simp: beginBench_def split: if_splits)
    next
      case turned_away
      with ih show ?thesis by simp
    next
      case refused
      with ih show ?thesis by (simp add: refuseBench_def)
    next
      case (started body req fails junk now now' job)
      note a = acceptBench_sel [OF started(4)]
      let ?id = "benchJobID now" and ?m = "AList.update (benchJobID now) job (bsJobs s')"
      have k: "job_keys ?m" using ih a(4) by (intro job_keys_update) simp_all
      have before: "\<forall>t\<in>set (startTimes ls). t < now'" using snoc.prems(1) started(1) by (auto simp: sorted_wrt_append)
      have mem: "p = (?id, job) \<or> p \<in> set (bsJobs s')" if "p \<in> set ?m" for p
        using that set_update [of ?id job "bsJobs s'"] by blast
      have "\<forall>(k', j')\<in>set ?m. k' \<noteq> ?id \<longrightarrow> bjStartedAt j' < bjStartedAt job"
        using mem ih before a(4) by fastforce
      then have "length (pruneJobs ?id ?m) \<le> 50"
        using ih update_length [of ?id job "bsJobs s'"] by (intro prune_length [OF k]) (auto simp: map_of_update_upd)
      moreover have "set (pruneJobs ?id ?m) \<subseteq> set ?m" by (auto simp: pruneJobs_def Let_def set_delete)
      then have "\<forall>(k, j)\<in>set (pruneJobs ?id ?m). bjStartedAt j \<in> set (startTimes (ls @ [l]))"
        using mem ih a(4) started(1) by fastforce
      ultimately show ?thesis using job_keys_prune [OF k] a(5) by simp
    next
      case (ended jobID outcome fails junk)
      show ?thesis
      proof (cases "map_of (bsJobs s') jobID")
        case None
        with ih ended show ?thesis by (simp add: endBench_def)
      next
        case (Some j)
        then have "(jobID, j) \<in> set (bsJobs s')" by (rule map_of_SomeD)
        then have j: "bjID j = jobID" "jobID \<noteq> []" "bjStartedAt j \<in> set (startTimes ls)" using ih by (auto simp: job_keys_def)
        obtain j' where j': "bsJobs s'' = AList.update jobID j' (bsJobs s')" "bjID j' = bjID j" "bjStartedAt j' = bjStartedAt j"
          using Some ended by (cases outcome) (auto simp: endBench_def Let_def)
        have "job_keys (bsJobs s'')" unfolding j'(1) using ih j j' by (intro job_keys_update) simp_all
        moreover have "length (bsJobs s'') = length (bsJobs s')" unfolding j'(1) using Some by (rule length_update_present)
        moreover have "\<forall>(k, j)\<in>set (bsJobs s''). bjStartedAt j \<in> set (startTimes ls)"
          using set_update [of jobID j' "bsJobs s'"] ih j j' by fastforce
        ultimately show ?thesis using ih ended by simp
      qed
    qed
  qed
  from this [OF assms] show ?thesis
    by (simp add: NewBench_def loadBenchmarkJobs_def jobs_load_def newestFirst_def split: option.split sum.split)
qed

section \<open>Restarts\<close>

lemma fold_load: "map_of (foldl (\<lambda>m j. AList.update (bjID j) j m) m js) =
    map_of m ++ map_of (rev (map (\<lambda>j. (bjID j, j)) js))"
  by (induction js arbitrary: m) (auto simp: update_conv' map_add_def fun_eq_iff split: option.splits)

lemma job_list: "job_keys m \<Longrightarrow> map (\<lambda>j. (bjID j, j)) (map snd m) = m"
  by (auto simp: job_keys_def intro!: map_idI)

lemma load_snapshot:
  assumes k: "job_keys m"
  shows "map_of (foldl (\<lambda>m j. AList.update (bjID j) j m) [] (newestFirst (newestFirst (map snd m)))) = map_of m"
proof -
  let ?js = "newestFirst (newestFirst (map snd m))"
  have ms: "mset (map (\<lambda>j. (bjID j, j)) ?js) = mset m"
    using arg_cong [where f = mset, OF job_list [OF k]] by (simp add: newestFirst_def multiset.map_comp)
  have "map_of (rev (map (\<lambda>j. (bjID j, j)) ?js)) = map_of m"
  proof (rule map_of_inject_set [THEN iffD2])
    have d: "distinct (map fst m)" using k by (simp add: job_keys_def)
    show "distinct (map fst m)" by (rule d)
    have "mset (map fst (map (\<lambda>j. (bjID j, j)) ?js)) = mset (map fst m)" by (simp only: mset_map [of fst] ms)
    from mset_eq_imp_distinct_iff [OF this] d have "distinct (map fst (map (\<lambda>j. (bjID j, j)) ?js))" by simp
    then show "distinct (map fst (rev (map (\<lambda>j. (bjID j, j)) ?js)))" by (simp only: rev_map [symmetric] distinct_rev)
    show "set (rev (map (\<lambda>j. (bjID j, j)) ?js)) = set m" using mset_eq_setD [OF ms] by (simp only: set_rev)
  qed
  then show ?thesis by (simp add: fold_load)
qed

lemma restart_after_persist:
  assumes "job_keys (bsJobs s)" and "bsStored s" and "path \<noteq> []"
  shows "map_of (bsJobs (NewBench path None (bsFiles (persistBenchmarkJobs None junk s)))) = map_of (bsJobs s)"
  using load_snapshot [OF assms(1)] assms(2,3)
  by (simp add: NewBench_def loadBenchmarkJobs_def jobs_load_def persistBenchmarkJobs_def jobs_save_def benchmarkJobsSnapshot_def)

lemma stored_step: "bench_step s l s' \<Longrightarrow> bsStored s' = bsStored s"
  by (induction rule: bench_step.induct)
    (auto simp: beginBench_def refuseBench_def acceptBench_def endBench_def Let_def split: if_splits option.splits)

lemma stored_run: "bench_run s ls s' \<Longrightarrow> bsStored s' = bsStored s"
  by (induction rule: bench_run.induct) (auto dest: stored_step)

lemma endBench_jobs:
  "bsJobs (endBench fails junk jobID outcome s) =
     (case map_of (bsJobs s) jobID of
        None \<Rightarrow> bsJobs s
      | Some j \<Rightarrow> AList.update jobID (case outcome of
            Inr results \<Rightarrow> j\<lparr>bjStatus := ''done'', bjResults := Some results\<rparr>
          | Inl rec \<Rightarrow> j\<lparr>bjStatus := ''error'', bjError := ''panic: '' @ rec\<rparr>) (bsJobs s))"
  by (simp add: endBench_def Let_def split: option.split)

lemma job_keys_endBench:
  assumes k: "job_keys (bsJobs s)"
  shows "job_keys (bsJobs (endBench fails junk jobID outcome s))"
proof (cases "map_of (bsJobs s) jobID")
  case (Some j)
  then have "(jobID, j) \<in> set (bsJobs s)" by (rule map_of_SomeD)
  then have "bjID j = jobID" "jobID \<noteq> []" using k by (auto simp: job_keys_def)
  with Some k show ?thesis by (auto simp: endBench_jobs split: sum.split intro!: job_keys_update)
qed (use k in \<open>simp add: endBench_jobs\<close>)

lemma job_keys_step: "bench_step s l s' \<Longrightarrow> job_keys (bsJobs s) \<Longrightarrow> job_keys (bsJobs s')"
proof (induction rule: bench_step.induct)
  case (started s body req fails junk now now' job s')
  note a = acceptBench_sel [OF started(3)]
  show ?case unfolding a(5) using started.prems a(4) by (intro job_keys_prune job_keys_update) simp_all
qed (auto simp: beginBench_def refuseBench_def job_keys_endBench split: if_splits)

lemma job_keys_run: "bench_run s ls s' \<Longrightarrow> job_keys (bsJobs s) \<Longrightarrow> job_keys (bsJobs s')"
  by (induction rule: bench_run.induct) (auto intro: job_keys_step)

lemma New_empty [simp]: "bsJobs (NewBench path fails \<lparr>jfPath = None, jfTmp = None\<rparr>) = []"
  by (simp add: NewBench_def loadBenchmarkJobs_def jobs_load_def newestFirst_def split: option.split sum.split)

lemma endBench_persists:
  "\<exists>s'. bsJobs s' = bsJobs (endBench fails junk jobID outcome s) \<and> bsStored s' = bsStored s \<and> bsFiles s' = bsFiles s \<and>
     bsFiles (endBench fails junk jobID outcome s) = bsFiles (persistBenchmarkJobs fails junk s')"
  by (intro exI [where x = "s\<lparr>bsJobs := bsJobs (endBench fails junk jobID outcome s)\<rparr>"])
    (auto simp: endBench_def Let_def persistBenchmarkJobs_def benchmarkJobsSnapshot_def split: option.split)


section \<open>A job that a restart interrupts\<close>

fun startedIDs :: "'r benchLabel \<Rightarrow> string option" where
  "startedIDs (Started jobID req t) = Some jobID"
| "startedIDs l = None"

lemma acceptBench_stored:
  assumes "acceptBench fails junk now now' s = (job, s')"
  shows "\<exists>s1. bsJobs s1 = bsJobs s' \<and> bsStored s1 = bsStored s \<and> bsFiles s' = bsFiles (persistBenchmarkJobs fails junk s1)"
  using assms by (intro exI [where x = "s\<lparr>bsJobs := bsJobs s'\<rparr>"])
    (auto simp: acceptBench_def Let_def persistBenchmarkJobs_def benchmarkJobsSnapshot_def)

lemma orphan_step:
  assumes "bench_step s l s'" and "k \<notin> set (bsRunning s)" and "startedIDs l \<noteq> Some k"
    and "map_of (bsJobs s) k \<in> {None, Some j}"
  shows "k \<notin> set (bsRunning s') \<and> map_of (bsJobs s') k \<in> {None, Some j}"
  using assms
proof (induction rule: bench_step.induct)
  case (started s body req fails junk now now' job s')
  note a = acceptBench_sel [OF started(3)]
  have ne: "k \<noteq> benchJobID now" using started.prems a(4) by auto
  then show ?case unfolding a(2,5) using started.prems
    by (auto simp: pruneJobs_def Let_def delete_conv' update_conv' split: if_splits)
next
  case (ended jobID s outcome fails junk)
  then have "k \<noteq> jobID" by auto
  with ended show ?case by (auto simp: endBench_jobs update_conv' dest: notin_set_remove1 split: option.splits)
qed (auto simp: beginBench_def refuseBench_def split: if_splits)


section \<open>A run\<close>

definition demoRequest :: BenchmarkRunRequest where
  "demoRequest = \<lparr>brWorkload = ''zipf'', brPolicies = [], brCacheSize = 0, brDurationSec = 3600, brConcurrency = 0, brWorkloadN = 0\<rparr>"

abbreviation demo0 :: "nat BenchState" where
  "demo0 \<equiv> NewBench ''jobs.json'' None \<lparr>jfPath = None, jfTmp = None\<rparr>"

definition demo1 :: "nat BenchState" where
  "demo1 = the (beginBench demo0)"

definition demo2 :: "nat BenchState" where
  "demo2 = snd (acceptBench None None 5000000 5000000 demo1)"

definition demoJob :: "nat BenchmarkJob" where
  "demoJob = fst (acceptBench None None 5000000 5000000 demo1)"

lemma demo_accept: "acceptBench None None 5000000 5000000 demo1 = (demoJob, demo2)"
  by (simp add: demoJob_def demo2_def)

lemma demo_started: "bjID demoJob = benchJobID 5000000" "bsRunning demo2 = [benchJobID 5000000]"
  by (simp_all add: demoJob_def demo2_def demo1_def acceptBench_def Let_def beginBench_def)

lemma demo_begin: "bench_run demo0 ([] @ [Arrived]) demo1"
  by (rule bench_run.snoc [OF bench_run.start bench_step.arrived]) (simp add: demo1_def beginBench_def)

lemma demo_request: "benchValidate (Inr demoRequest, JsonEOF) = Inr (clampRequest demoRequest)"
  by (simp add: benchValidate_def decodeJSONBody_def demoRequest_def isSupportedWorkload_def clampRequest_def policyError_def)

lemma demo_run: "bench_run demo0 (([] @ [Arrived]) @ [Started (bjID demoJob) (benchDefaults (clampRequest demoRequest)) 5000000]) demo2"
  by (rule bench_run.snoc [OF demo_begin bench_step.started [OF _ demo_request demo_accept]]) (simp add: demo1_def beginBench_def)

theorem bench_one_at_a_time_witness: "bsValidating demo2 + length (bsRunning demo2) = 1 \<and> bsActive demo2"
proof -
  have "bsActive demo2" by (simp add: demo2_def demo1_def acceptBench_def Let_def beginBench_def)
  then show ?thesis using bench_one_at_a_time [OF demo_run] by simp
qed

theorem bench_within_limits_witness:
  "withinLimits (Started (bjID demoJob) (benchDefaults (clampRequest demoRequest)) 5000000 :: nat benchLabel)"
  using bench_within_limits [OF demo_run] unfolding list_all_append list.pred_inject by blast

theorem bench_jobs_bounded_witness: "length (bsJobs demo2) = 1 \<and> length (bsJobs demo2) \<le> 50"
proof
  show "length (bsJobs demo2) = 1"
    by (simp add: demo2_def demo1_def acceptBench_def Let_def beginBench_def pruneJobs_def)
  have "sorted_wrt (<) (startTimes (([] @ [Arrived]) @ [Started (bjID demoJob) (benchDefaults (clampRequest demoRequest)) 5000000]))"
    unfolding startTimes_snoc by simp
  from bench_jobs_bounded [OF demo_run this] show "length (bsJobs demo2) \<le> 50" .
qed



end
