(* ===== verification/Workloads.thy ===== *)
theory Workloads
  imports Decimal Complex_Main
begin

text \<open>
  internal/benchmark/workloads.go: the streams of operations that a benchmark runs. Numbers are
  unbounded (a counter would need 2 to the 63 operations to wrap). The generator of math/rand is a
  parameter: \<open>RNG\<close> holds its functions on a state \<open>'g\<close>, and \<open>in_range\<close> is what its documentation
  says of their results. An index out of range and a call of \<open>Intn\<close> without a positive bound are panics,
  \<open>None\<close>.
\<close>

section \<open>Keys\<close>

datatype OpType = GetOp | SetOp

record Operation =
  opType :: OpType
  opKey :: key
  opValue :: bytes

definition readValue :: bytes where
  "readValue = map (\<lambda>c. of_char c) ''v''"

definition writeValue :: bytes where
  "writeValue = map (\<lambda>c. of_char c) ''value''"

definition normalizeN :: "int \<Rightarrow> int" where
  "normalizeN n = (if n \<le> 0 then 1 else n)"

text \<open>The loop of \<open>itoa\<close>: \<open>i\<close> is the index into its buffer of 20 bytes, \<open>ds\<close> what is behind it.\<close>

function itoaLoop :: "int \<Rightarrow> nat \<Rightarrow> string \<Rightarrow> string option" where
  "itoaLoop v i ds =
     (if v > 0 then (if i = 0 then None else itoaLoop (v div 10) (i - 1) (char_of (48 + nat (v mod 10)) # ds))
      else Some ds)"
  by pat_completeness auto

termination
  by (relation "measure (\<lambda>(v, i, ds). nat v)") auto

declare itoaLoop.simps [simp del]

definition itoa :: "int \<Rightarrow> string option" where
  "itoa v = (if v = 0 then Some ''0'' else itoaLoop v 20 [])"

definition makeKeys :: "string \<Rightarrow> int \<Rightarrow> key list option" where
  "makeKeys prefix n = (if n < 0 then None else those (map (\<lambda>i. map_option ((@) prefix) (itoa (int i))) [0..<nat n]))"

definition elem :: "'a list \<Rightarrow> int \<Rightarrow> 'a option" where
  "elem xs i = (if 0 \<le> i \<and> i < int (length xs) then Some (xs ! nat i) else None)"

section \<open>The generator\<close>

record 'g RNG =
  rgNew :: "int \<Rightarrow> 'g"
  rgIntn :: "int \<Rightarrow> 'g \<Rightarrow> int \<times> 'g"
  rgFloat64 :: "'g \<Rightarrow> real \<times> 'g"
  rgZipf :: "int \<Rightarrow> 'g \<Rightarrow> int \<times> 'g"
  rgInt63n :: "int \<Rightarrow> 'g \<Rightarrow> int \<times> 'g"

definition in_range :: "'g RNG \<Rightarrow> bool" where
  "in_range G \<longleftrightarrow> (\<forall>n g. 0 < n \<longrightarrow> 0 \<le> fst (rgIntn G n g) \<and> fst (rgIntn G n g) < n) \<and>
     (\<forall>n g. 0 < n \<longrightarrow> 0 \<le> fst (rgInt63n G n g) \<and> fst (rgInt63n G n g) < n) \<and>
     (\<forall>m g. 0 \<le> m \<longrightarrow> 0 \<le> fst (rgZipf G m g) \<and> fst (rgZipf G m g) \<le> m)"

definition Intn :: "'g RNG \<Rightarrow> int \<Rightarrow> 'g \<Rightarrow> (int \<times> 'g) option" where
  "Intn G n g = (if n \<le> 0 then None else Some (rgIntn G n g))"

text \<open>An element of a list at a random index\<close>

definition pick :: "'g RNG \<Rightarrow> 'a list \<Rightarrow> int \<Rightarrow> 'g \<Rightarrow> ('a \<times> 'g) option" where
  "pick G xs n g = (case Intn G n g of None \<Rightarrow> None | Some (i, g) \<Rightarrow> map_option (\<lambda>x. (x, g)) (elem xs i))"

section \<open>The workloads\<close>

record SequentialWorkload =
  sqN :: int
  sqCurrent :: int
  sqKeys :: "key list"

record 'g UniformRandomWorkload =
  urN :: int
  urRng :: 'g
  urKeys :: "key list"

record 'g ZipfWorkload =
  zfN :: int
  zfMax :: int
  zfRng :: 'g
  zfKeys :: "key list"

record 'g TemporalWorkload =
  tmN :: int
  tmHotSet :: "key list"
  tmCount :: int
  tmShiftAt :: int
  tmRng :: 'g
  tmKeys :: "key list"

record 'g ScanResistantWorkload =
  srHotN :: int
  srScanN :: int
  srScanPos :: int
  srRng :: 'g
  srHotKeys :: "key list"
  srScanKeys :: "key list"

record 'g WriteHeavyWorkload =
  whN :: int
  whRng :: 'g
  whKeys :: "key list"

datatype 'g Workload =
    Sequential SequentialWorkload
  | UniformRandom "'g UniformRandomWorkload"
  | Zipf "'g ZipfWorkload"
  | Temporal "'g TemporalWorkload"
  | ScanResistant "'g ScanResistantWorkload"
  | WriteHeavy "'g WriteHeavyWorkload"

definition NewSequential :: "int \<Rightarrow> SequentialWorkload option" where
  "NewSequential n = (let n = normalizeN n in map_option (\<lambda>ks. \<lparr>sqN = n, sqCurrent = 0, sqKeys = ks\<rparr>) (makeKeys ''key:'' n))"

definition NewUniformRandom :: "'g RNG \<Rightarrow> int \<Rightarrow> 'g UniformRandomWorkload option" where
  "NewUniformRandom G n =
     (let n = normalizeN n in map_option (\<lambda>ks. \<lparr>urN = n, urRng = rgNew G 42, urKeys = ks\<rparr>) (makeKeys ''key:'' n))"

definition NewZipf :: "'g RNG \<Rightarrow> int \<Rightarrow> 'g ZipfWorkload option" where
  "NewZipf G n =
     (let n = normalizeN n; maxKey = (if n > 1 then n - 1 else 0)
      in map_option (\<lambda>ks. \<lparr>zfN = n, zfMax = maxKey, zfRng = rgNew G 42, zfKeys = ks\<rparr>) (makeKeys ''key:'' n))"

fun hotKeys :: "'g RNG \<Rightarrow> key list \<Rightarrow> int \<Rightarrow> nat \<Rightarrow> 'g \<Rightarrow> (key list \<times> 'g) option" where
  "hotKeys G ks n 0 g = Some ([], g)"
| "hotKeys G ks n (Suc i) g =
     (case pick G ks n g of
        None \<Rightarrow> None
      | Some (k, g) \<Rightarrow> map_option (\<lambda>(hot, g). (k # hot, g)) (hotKeys G ks n i g))"

definition generateHotSet :: "'g RNG \<Rightarrow> 'g TemporalWorkload \<Rightarrow> 'g TemporalWorkload option" where
  "generateHotSet G w =
     map_option (\<lambda>(hot, g). w\<lparr>tmHotSet := hot, tmRng := g\<rparr>) (hotKeys G (tmKeys w) (tmN w) 100 (tmRng w))"

definition NewTemporal :: "'g RNG \<Rightarrow> int \<Rightarrow> 'g TemporalWorkload option" where
  "NewTemporal G n =
     (let n = normalizeN n
      in case makeKeys ''key:'' n of
           None \<Rightarrow> None
         | Some ks \<Rightarrow> generateHotSet G \<lparr>tmN = n, tmHotSet = [], tmCount = 0, tmShiftAt = 5000, tmRng = rgNew G 42, tmKeys = ks\<rparr>)"

definition NewScanResistant :: "'g RNG \<Rightarrow> int \<Rightarrow> int \<Rightarrow> 'g ScanResistantWorkload option" where
  "NewScanResistant G hotN scanN =
     (let hotN = normalizeN hotN; scanN = normalizeN scanN
      in case (makeKeys ''hot:'' hotN, makeKeys ''scan:'' scanN) of
           (Some hot, Some scan) \<Rightarrow>
             Some \<lparr>srHotN = hotN, srScanN = scanN, srScanPos = 0, srRng = rgNew G 42, srHotKeys = hot, srScanKeys = scan\<rparr>
         | _ \<Rightarrow> None)"

definition NewWriteHeavy :: "'g RNG \<Rightarrow> int \<Rightarrow> 'g WriteHeavyWorkload option" where
  "NewWriteHeavy G n =
     (let n = normalizeN n in map_option (\<lambda>ks. \<lparr>whN = n, whRng = rgNew G 42, whKeys = ks\<rparr>) (makeKeys ''key:'' n))"

text \<open>Go's \<open>%\<close>, which takes the sign of the dividend\<close>

definition rem :: "int \<Rightarrow> int \<Rightarrow> int" where
  "rem a b = (if a \<ge> 0 then a mod b else - ((- a) mod b))"

definition reads :: "key \<Rightarrow> Operation" where
  "reads k = \<lparr>opType = GetOp, opKey = k, opValue = readValue\<rparr>"

fun wl_Name :: "'g Workload \<Rightarrow> string" where
  "wl_Name (Sequential w) = ''sequential''"
| "wl_Name (UniformRandom w) = ''uniform''"
| "wl_Name (Zipf w) = ''zipf''"
| "wl_Name (Temporal w) = ''temporal''"
| "wl_Name (ScanResistant w) = ''scan-resistant''"
| "wl_Name (WriteHeavy w) = ''write-heavy''"

fun wl_Reset :: "'g Workload \<Rightarrow> 'g Workload" where
  "wl_Reset (Sequential w) = Sequential (w\<lparr>sqCurrent := 0\<rparr>)"
| "wl_Reset (Temporal w) = Temporal (w\<lparr>tmCount := 0\<rparr>)"
| "wl_Reset (ScanResistant w) = ScanResistant (w\<lparr>srScanPos := 0\<rparr>)"
| "wl_Reset w = w"

fun wl_Next :: "'g RNG \<Rightarrow> 'g Workload \<Rightarrow> (Operation \<times> 'g Workload) option" where
  "wl_Next G (Sequential w) =
     (case elem (sqKeys w) (rem (sqCurrent w) (sqN w)) of
        None \<Rightarrow> None
      | Some k \<Rightarrow> Some (reads k, Sequential (w\<lparr>sqCurrent := sqCurrent w + 1\<rparr>)))"
| "wl_Next G (UniformRandom w) =
     (case pick G (urKeys w) (urN w) (urRng w) of
        None \<Rightarrow> None
      | Some (k, g) \<Rightarrow> Some (reads k, UniformRandom (w\<lparr>urRng := g\<rparr>)))"
| "wl_Next G (Zipf w) =
     (let (i, g) = rgZipf G (zfMax w) (zfRng w)
      in case elem (zfKeys w) i of
           None \<Rightarrow> None
         | Some k \<Rightarrow> Some (reads k, Zipf (w\<lparr>zfRng := g\<rparr>)))"
| "wl_Next G (Temporal w) =
     (let w = w\<lparr>tmCount := tmCount w + 1\<rparr>
      in case (if rem (tmCount w) (tmShiftAt w) = 0 then generateHotSet G w else Some w) of
           None \<Rightarrow> None
         | Some w \<Rightarrow>
             (case pick G (tmHotSet w) (int (length (tmHotSet w))) (tmRng w) of
                None \<Rightarrow> None
              | Some (k, g) \<Rightarrow> Some (reads k, Temporal (w\<lparr>tmRng := g\<rparr>))))"
| "wl_Next G (ScanResistant w) =
     (let (f, g) = rgFloat64 G (srRng w); w = w\<lparr>srRng := g\<rparr>
      in if f < 8 / 10 then
           (case pick G (srHotKeys w) (srHotN w) (srRng w) of
              None \<Rightarrow> None
            | Some (k, g) \<Rightarrow> Some (reads k, ScanResistant (w\<lparr>srRng := g\<rparr>)))
         else
           (case elem (srScanKeys w) (rem (srScanPos w) (srScanN w)) of
              None \<Rightarrow> None
            | Some k \<Rightarrow> Some (reads k, ScanResistant (w\<lparr>srScanPos := srScanPos w + 1\<rparr>))))"
| "wl_Next G (WriteHeavy w) =
     (case pick G (whKeys w) (whN w) (whRng w) of
        None \<Rightarrow> None
      | Some (k, g) \<Rightarrow>
          (let (f, g) = rgFloat64 G g
           in Some (if f < 8 / 10 then \<lparr>opType = SetOp, opKey = k, opValue = writeValue\<rparr> else reads k,
                 WriteHeavy (w\<lparr>whRng := g\<rparr>))))"

section \<open>\<open>itoa\<close> prints decimals\<close>

lemma itoaLoop_shows: "0 < v \<Longrightarrow> v < 10 ^ i \<Longrightarrow> itoaLoop v i ds = Some (showInt v @ ds)"
proof (induction v i ds rule: itoaLoop.induct)
  case (1 v i ds)
  from 1(2,3) obtain j where i: "i = Suc j" by (cases i) auto
  show ?case
  proof (cases "v < 10")
    case True
    then have "v div 10 = 0" "v mod 10 = v" using 1(2) by simp_all
    moreover have "showNat (nat v) = [digit (nat v)]" using True by (subst showNat.simps) simp
    ultimately show ?thesis using 1(2) i by (subst itoaLoop.simps) (simp add: itoaLoop.simps [of 0] showInt_def digit_def)
  next
    case False
    have lt: "v div 10 < 10 ^ j" using 1(3) i by (simp add: div_less_iff_less_mult)
    have pos: "0 < v div 10" using False by simp
    have "nat v div 10 = nat (v div 10)" "nat v mod 10 = nat (v mod 10)" using 1(2) by (simp_all add: nat_div_distrib nat_mod_distrib)
    moreover have "\<not> nat v < 10" using False by simp
    ultimately have "showInt v = showInt (v div 10) @ [digit (nat (v mod 10))]"
      using False 1(2) pos showNat.simps [of "nat v"] by (simp add: showInt_def)
    with 1(1) [of] 1(2) pos lt i show ?thesis by (subst itoaLoop.simps) (simp add: digit_def)
  qed
qed

lemma itoa_shows: "v < 2 ^ 63 \<Longrightarrow> itoa v = Some (if v < 0 then [] else showInt v)"
proof -
  assume "v < 2 ^ 63"
  then have "v < 10 ^ 20" by simp
  moreover have "showInt 0 = ''0''" by code_simp
  ultimately show ?thesis using itoaLoop_shows [of v 20 "[]"] by (simp add: itoa_def itoaLoop.simps)
qed

text \<open>
  \<open>itoa\<close> ends on every number, never overruns its buffer, and agrees with the standard
  library on the numbers that are not negative; on a negative number it gives an empty string.
\<close>

theorem itoa_decimal:
  assumes "v < 2 ^ 63"
  shows "itoa v = Some (if v < 0 then [] else showInt v)"
  using itoa_shows [OF assms] .

lemma itoa_decimal_witness: "itoa 1234 = Some (if (1234 :: int) < 0 then [] else showInt 1234)"
  by (rule itoa_decimal) simp

section \<open>Operations without end\<close>

definition keysOf :: "string \<Rightarrow> int \<Rightarrow> key list" where
  "keysOf prefix n = map (\<lambda>i. prefix @ showInt (int i)) [0..<nat n]"

lemma those_map_Some: "(\<And>x. x \<in> set xs \<Longrightarrow> f x = Some (g x)) \<Longrightarrow> those (map f xs) = Some (map g xs)"
  by (induction xs) auto

lemma makeKeys_keysOf: "0 \<le> n \<Longrightarrow> n < 2 ^ 63 \<Longrightarrow> makeKeys prefix n = Some (keysOf prefix n)"
  unfolding makeKeys_def keysOf_def using itoa_shows by (auto intro!: those_map_Some)

lemma length_keysOf [simp]: "length (keysOf prefix n) = nat n"
  by (simp add: keysOf_def)

lemma normalizeN_pos [simp]: "0 < normalizeN n"
  by (simp add: normalizeN_def)

lemma makeKeys_normal: "n < 2 ^ 63 \<Longrightarrow> makeKeys prefix (normalizeN n) = Some (keysOf prefix (normalizeN n))"
  by (rule makeKeys_keysOf) (auto simp: normalizeN_def)

lemma elem_in: "0 \<le> i \<Longrightarrow> i < int (length xs) \<Longrightarrow> elem xs i = Some (xs ! nat i) \<and> xs ! nat i \<in> set xs"
  by (simp add: elem_def)

lemma pick_in:
  assumes "in_range G" and "0 < n" and "int (length xs) = n"
  shows "\<exists>x g'. pick G xs n g = Some (x, g') \<and> x \<in> set xs"
proof -
  obtain i g' where i: "rgIntn G n g = (i, g')" by (cases "rgIntn G n g")
  then have "0 \<le> i" "i < n" using assms(1,2) unfolding in_range_def by (metis fst_conv)+
  then show ?thesis using elem_in [of i xs] assms i by (simp add: pick_def Intn_def)
qed

lemma rem_in: "0 \<le> a \<Longrightarrow> 0 < b \<Longrightarrow> rem a b = a mod b \<and> 0 \<le> rem a b \<and> rem a b < b"
  by (simp add: rem_def)

fun wl_ok :: "'g Workload \<Rightarrow> bool" where
  "wl_ok (Sequential w) \<longleftrightarrow> 0 < sqN w \<and> int (length (sqKeys w)) = sqN w \<and> 0 \<le> sqCurrent w"
| "wl_ok (UniformRandom w) \<longleftrightarrow> 0 < urN w \<and> int (length (urKeys w)) = urN w"
| "wl_ok (Zipf w) \<longleftrightarrow> 0 \<le> zfMax w \<and> zfMax w < int (length (zfKeys w))"
| "wl_ok (Temporal w) \<longleftrightarrow> 0 < tmN w \<and> int (length (tmKeys w)) = tmN w \<and> length (tmHotSet w) = 100 \<and> set (tmHotSet w) \<subseteq> set (tmKeys w)"
| "wl_ok (ScanResistant w) \<longleftrightarrow> 0 < srHotN w \<and> int (length (srHotKeys w)) = srHotN w \<and>
     0 < srScanN w \<and> int (length (srScanKeys w)) = srScanN w \<and> 0 \<le> srScanPos w"
| "wl_ok (WriteHeavy w) \<longleftrightarrow> 0 < whN w \<and> int (length (whKeys w)) = whN w"

fun wl_keys :: "'g Workload \<Rightarrow> key list" where
  "wl_keys (Sequential w) = sqKeys w"
| "wl_keys (UniformRandom w) = urKeys w"
| "wl_keys (Zipf w) = zfKeys w"
| "wl_keys (Temporal w) = tmKeys w"
| "wl_keys (ScanResistant w) = srHotKeys w @ srScanKeys w"
| "wl_keys (WriteHeavy w) = whKeys w"

lemma hotKeys_in:
  assumes "in_range G" and "0 < n" and "int (length ks) = n"
  shows "\<exists>hot g'. hotKeys G ks n i g = Some (hot, g') \<and> length hot = i \<and> set hot \<subseteq> set ks"
proof (induction i arbitrary: g)
  case (Suc i)
  obtain k g1 where p: "pick G ks n g = Some (k, g1)" "k \<in> set ks" using pick_in [OF assms] by blast
  obtain hot g2 where "hotKeys G ks n i g1 = Some (hot, g2)" "length hot = i" "set hot \<subseteq> set ks" using Suc.IH by blast
  with p show ?case by simp
qed simp

lemma generateHotSet_ok:
  assumes "in_range G" and "0 < tmN w" and "int (length (tmKeys w)) = tmN w"
  shows "\<exists>w'. generateHotSet G w = Some w' \<and> wl_ok (Temporal w') \<and> tmKeys w' = tmKeys w"
proof -
  obtain hot g where "hotKeys G (tmKeys w) (tmN w) 100 (tmRng w) = Some (hot, g)" "length hot = 100" "set hot \<subseteq> set (tmKeys w)"
    using hotKeys_in [OF assms, of 100 "tmRng w"] by blast
  then show ?thesis using assms by (simp add: generateHotSet_def)
qed

lemma wl_Next_ok:
  assumes G: "in_range G" and ok: "wl_ok w"
  shows "\<exists>op w'. wl_Next G w = Some (op, w') \<and> wl_ok w' \<and> wl_keys w' = wl_keys w \<and> wl_Name w' = wl_Name w \<and> opKey op \<in> set (wl_keys w)"
proof (cases w)
  case (Sequential v)
  then show ?thesis using ok elem_in [of "rem (sqCurrent v) (sqN v)" "sqKeys v"] rem_in [of "sqCurrent v" "sqN v"] by (auto simp: reads_def)
next
  case (UniformRandom v)
  then obtain k g where "pick G (urKeys v) (urN v) (urRng v) = Some (k, g)" "k \<in> set (urKeys v)"
    using ok pick_in [OF G, of "urN v" "urKeys v" "urRng v"] by auto
  then show ?thesis using ok UniformRandom by (simp add: reads_def)
next
  case (Zipf v)
  obtain i g where i: "rgZipf G (zfMax v) (zfRng v) = (i, g)" by (cases "rgZipf G (zfMax v) (zfRng v)")
  then have "0 \<le> i" "i \<le> zfMax v" using G ok Zipf unfolding in_range_def by (metis fst_conv wl_ok.simps(3))+
  then show ?thesis using ok Zipf i elem_in [of i "zfKeys v"] by (simp add: reads_def)
next
  case (Temporal v)
  let ?v = "v\<lparr>tmCount := tmCount v + 1\<rparr>"
  obtain v' where v': "(if rem (tmCount ?v) (tmShiftAt ?v) = 0 then generateHotSet G ?v else Some ?v) = Some v'"
      "wl_ok (Temporal v')" "tmKeys v' = tmKeys v"
    using generateHotSet_ok [OF G, of ?v] ok Temporal by (cases "rem (tmCount ?v) (tmShiftAt ?v) = 0") auto
  then obtain k g where k: "pick G (tmHotSet v') (int (length (tmHotSet v'))) (tmRng v') = Some (k, g)" "k \<in> set (tmHotSet v')"
    using pick_in [OF G, of _ "tmHotSet v'"] by fastforce
  then show ?thesis using v' Temporal by (auto simp: reads_def Let_def simp del: if_split)
next
  case (ScanResistant v)
  obtain f g where f: "rgFloat64 G (srRng v) = (f, g)" by (cases "rgFloat64 G (srRng v)")
  obtain k g' where "pick G (srHotKeys v) (srHotN v) g = Some (k, g')" "k \<in> set (srHotKeys v)"
    using ok ScanResistant pick_in [OF G, of "srHotN v" "srHotKeys v" g] by auto
  then show ?thesis using ok ScanResistant f rem_in [of "srScanPos v" "srScanN v"]
      elem_in [of "rem (srScanPos v) (srScanN v)" "srScanKeys v"] by (auto simp: reads_def Let_def)
next
  case (WriteHeavy v)
  obtain k g where "pick G (whKeys v) (whN v) (whRng v) = Some (k, g)" "k \<in> set (whKeys v)"
    using ok WriteHeavy pick_in [OF G, of "whN v" "whKeys v" "whRng v"] by auto
  then show ?thesis using ok WriteHeavy by (simp add: reads_def split: prod.split)
qed

text \<open>A generator that counts\<close>

definition counting :: "nat RNG" where
  "counting = \<lparr>rgNew = nat, rgIntn = (\<lambda>n g. (int g mod n, Suc g)), rgFloat64 = (\<lambda>g. (0, g)),
     rgZipf = (\<lambda>m g. (int g mod (m + 1), Suc g)), rgInt63n = (\<lambda>n g. (int g mod n, Suc g))\<rparr>"

lemma counting_in_range: "in_range counting"
  by (auto simp: in_range_def counting_def) (metis add1_zle_eq less_add_one pos_mod_bound order_le_less_trans zle_add1_eq_le)

text \<open>The first operations of a workload\<close>

fun wl_run :: "'g RNG \<Rightarrow> nat \<Rightarrow> 'g Workload \<Rightarrow> (Operation list \<times> 'g Workload) option" where
  "wl_run G 0 w = Some ([], w)"
| "wl_run G (Suc m) w =
     (case wl_Next G w of
        None \<Rightarrow> None
      | Some (op, w) \<Rightarrow> map_option (\<lambda>(ops, w). (op # ops, w)) (wl_run G m w))"

lemma wl_run_ok:
  assumes "in_range G" and "wl_ok w"
  shows "\<exists>ops w'. wl_run G m w = Some (ops, w') \<and> wl_ok w' \<and> length ops = m \<and> (\<forall>op\<in>set ops. opKey op \<in> set (wl_keys w))"
  using assms(2)
proof (induction m arbitrary: w)
  case (Suc m)
  obtain op w1 where n: "wl_Next G w = Some (op, w1)" "wl_ok w1" "wl_keys w1 = wl_keys w" "opKey op \<in> set (wl_keys w)"
    using wl_Next_ok [OF assms(1) Suc.prems] by blast
  obtain ops w2 where "wl_run G m w1 = Some (ops, w2)" "wl_ok w2" "length ops = m" "\<forall>op\<in>set ops. opKey op \<in> set (wl_keys w1)"
    using Suc.IH [OF n(2)] by blast
  with n show ?case by auto
qed simp

lemma New_wl_ok:
  assumes "in_range G" and "n < 2 ^ 63"
  shows "\<exists>w. NewSequential n = Some w \<and> wl_ok (Sequential w) \<and> sqKeys w = keysOf ''key:'' (normalizeN n)"
    and "\<exists>w. NewUniformRandom G n = Some w \<and> wl_ok (UniformRandom w) \<and> urKeys w = keysOf ''key:'' (normalizeN n)"
    and "\<exists>w. NewZipf G n = Some w \<and> wl_ok (Zipf w) \<and> zfKeys w = keysOf ''key:'' (normalizeN n)"
    and "\<exists>w. NewTemporal G n = Some w \<and> wl_ok (Temporal w) \<and> tmKeys w = keysOf ''key:'' (normalizeN n)"
    and "m < 2 ^ 63 \<Longrightarrow> \<exists>w. NewScanResistant G m n = Some w \<and> wl_ok (ScanResistant w) \<and> srHotKeys w = keysOf ''hot:'' (normalizeN m) \<and>
        srScanKeys w = keysOf ''scan:'' (normalizeN n)"
    and "\<exists>w. NewWriteHeavy G n = Some w \<and> wl_ok (WriteHeavy w) \<and> whKeys w = keysOf ''key:'' (normalizeN n)"
proof -
  note mk = makeKeys_normal [OF assms(2)]
  have p: "0 < normalizeN n" "int (nat (normalizeN n)) = normalizeN n" using normalizeN_pos [of n] by linarith+
  show "\<exists>w. NewSequential n = Some w \<and> wl_ok (Sequential w) \<and> sqKeys w = keysOf ''key:'' (normalizeN n)"
    "\<exists>w. NewUniformRandom G n = Some w \<and> wl_ok (UniformRandom w) \<and> urKeys w = keysOf ''key:'' (normalizeN n)"
    "\<exists>w. NewZipf G n = Some w \<and> wl_ok (Zipf w) \<and> zfKeys w = keysOf ''key:'' (normalizeN n)"
    "\<exists>w. NewWriteHeavy G n = Some w \<and> wl_ok (WriteHeavy w) \<and> whKeys w = keysOf ''key:'' (normalizeN n)"
    using mk p by (simp_all add: NewSequential_def NewUniformRandom_def NewZipf_def NewWriteHeavy_def Let_def)
  show "\<exists>w. NewTemporal G n = Some w \<and> wl_ok (Temporal w) \<and> tmKeys w = keysOf ''key:'' (normalizeN n)"
    using generateHotSet_ok [OF assms(1), of "\<lparr>tmN = normalizeN n, tmHotSet = [], tmCount = 0, tmShiftAt = 5000, tmRng = rgNew G 42,
        tmKeys = keysOf ''key:'' (normalizeN n)\<rparr>"] mk p by (auto simp: NewTemporal_def Let_def)
  assume m: "m < 2 ^ 63"
  have q: "0 < normalizeN m" "int (nat (normalizeN m)) = normalizeN m" using normalizeN_pos [of m] by linarith+
  show "\<exists>w. NewScanResistant G m n = Some w \<and> wl_ok (ScanResistant w) \<and> srHotKeys w = keysOf ''hot:'' (normalizeN m) \<and>
        srScanKeys w = keysOf ''scan:'' (normalizeN n)"
    using mk makeKeys_normal [OF m] p q by (simp add: NewScanResistant_def Let_def)
qed

end
