(* ===== verification/Benchmark_Runner.thy ===== *)
theory Benchmark_Runner
  imports Workloads Store_Factory
begin

text \<open>
  internal/benchmark/runner.go and result.go. The workers are goroutines that share a cache, whose
  calls are atomic: a worker step is what a worker does up to and including one call of the cache,
  and a schedule, a list of steps of workers in any order with the clock readings they make, stands for
  every interleaving. The products with 0.50, 0.95 and 0.99 are exact here, rounding of
  float64 is not modelled.
\<close>

section \<open>Set-up\<close>

record Config =
  bcDuration :: duration
  bcConcurrency :: int
  bcCacheSize :: int
  bcPolicies :: "string list"
  bcWorkload :: string
  bcWorkloadN :: int

definition maxLatencySamplesPerWorker :: nat where
  "maxLatencySamplesPerWorker = 4096"

definition deadlineCheckInterval :: int where
  "deadlineCheckInterval = 256"

definition runDefaults :: "Config \<Rightarrow> Config" where
  "runDefaults cfg =
     (let cfg = (if bcDuration cfg = 0 then cfg\<lparr>bcDuration := 10000000000\<rparr> else cfg);
          cfg = (if bcConcurrency cfg = 0 then cfg\<lparr>bcConcurrency := 4\<rparr> else cfg);
          cfg = (if bcCacheSize cfg = 0 then cfg\<lparr>bcCacheSize := 500\<rparr> else cfg)
      in if bcWorkloadN cfg = 0 then cfg\<lparr>bcWorkloadN := 10000\<rparr> else cfg)"

definition newCache :: "string \<Rightarrow> int \<Rightarrow> baseCache" where
  "newCache policy capacity =
     (if policy = ''lfu'' then BaseLFU (lfu_New capacity)
      else if policy = ''arc'' then BaseARC (arc_New capacity)
      else BaseLRU (lru_New capacity))"

definition newWorkload :: "'g RNG \<Rightarrow> string \<Rightarrow> int \<Rightarrow> 'g Workload option" where
  "newWorkload G name n =
     (if name = ''sequential'' then map_option Sequential (NewSequential n)
      else if name = ''uniform'' then map_option UniformRandom (NewUniformRandom G n)
      else if name = ''zipf'' then map_option Zipf (NewZipf G n)
      else if name = ''temporal'' then map_option Temporal (NewTemporal G n)
      else if name = ''scan-resistant'' then map_option ScanResistant (NewScanResistant G 200 n)
      else if name = ''write-heavy'' then map_option WriteHeavy (NewWriteHeavy G n)
      else map_option Zipf (NewZipf G n))"

text \<open>\<open>ts\<close> are the clock readings of the calls of \<open>Set\<close>.\<close>

fun warmUp :: "'g RNG \<Rightarrow> (nat \<Rightarrow> instant) \<Rightarrow> nat \<Rightarrow> 'g Workload \<Rightarrow> baseCache \<Rightarrow> baseCache option" where
  "warmUp G ts 0 w c = Some c"
| "warmUp G ts (Suc i) w c =
     (case wl_Next G w of
        None \<Rightarrow> None
      | Some (op, w) \<Rightarrow>
          (let (err, evs, c) = base_Set (ts i) (opKey op) readValue 0 c in warmUp G ts i w c))"

section \<open>A worker\<close>

text \<open>\<open>wkPending\<close> is the operation of a read that missed, whose \<open>Set\<close> is still to be done.\<close>

record 'g Worker =
  wkWork :: "'g Workload"
  wkSamples :: "int list"
  wkSeen :: int
  wkOps :: int
  wkLatencyNs :: int
  wkRng :: 'g
  wkUntil :: int
  wkPending :: "Operation option"
  wkDone :: bool

definition newWorker :: "'g RNG \<Rightarrow> Config \<Rightarrow> nat \<Rightarrow> 'g Worker option" where
  "newWorker G cfg workerID =
     map_option (\<lambda>w. \<lparr>wkWork = w, wkSamples = [], wkSeen = 0, wkOps = 0, wkLatencyNs = 0, wkRng = rgNew G (int workerID + 1),
         wkUntil = deadlineCheckInterval, wkPending = None, wkDone = False\<rparr>)
       (newWorkload G (bcWorkload cfg) (bcWorkloadN cfg))"

text \<open>The reservoir: the end of an iteration that took \<open>ns\<close>\<close>

definition recordSample :: "'g RNG \<Rightarrow> int \<Rightarrow> 'g Worker \<Rightarrow> 'g Worker" where
  "recordSample G ns w =
     (let w = w\<lparr>wkLatencyNs := wkLatencyNs w + ns, wkSeen := wkSeen w + 1, wkOps := wkOps w + 1, wkPending := None\<rparr>
      in if length (wkSamples w) < maxLatencySamplesPerWorker then w\<lparr>wkSamples := wkSamples w @ [ns]\<rparr>
         else
           (let (idx, g) = rgInt63n G (wkSeen w) (wkRng w); w = w\<lparr>wkRng := g\<rparr>
            in if idx < int (length (wkSamples w)) then w\<lparr>wkSamples := (wkSamples w)[nat idx := ns]\<rparr> else w))"

record stepTimes =
  stCheck :: instant
  stCall :: instant
  stNs :: int

definition worker_step :: "'g RNG \<Rightarrow> instant \<Rightarrow> stepTimes \<Rightarrow> 'g Worker \<times> baseCache \<Rightarrow> ('g Worker \<times> baseCache) option" where
  "worker_step G deadline t wc =
     (case wc of (w, c) \<Rightarrow>
        if wkDone w then Some (w, c)
        else
          (case wkPending w of
             Some op \<Rightarrow> (let (err, evs, c) = base_Set (stCall t) (opKey op) (opValue op) 0 c in Some (recordSample G (stNs t) w, c))
           | None \<Rightarrow>
               (let w = w\<lparr>wkUntil := wkUntil w - 1\<rparr>
                in if wkUntil w = 0 \<and> stCheck t > deadline then Some (w\<lparr>wkDone := True\<rparr>, c)
                   else
                     (let w = (if wkUntil w = 0 then w\<lparr>wkUntil := deadlineCheckInterval\<rparr> else w)
                      in case wl_Next G (wkWork w) of
                           None \<Rightarrow> None
                         | Some (op, work) \<Rightarrow>
                             (let w = w\<lparr>wkWork := work\<rparr>
                              in if opType op = SetOp then
                                   (let (err, evs, c) = base_Set (stCall t) (opKey op) (opValue op) 0 c
                                    in Some (recordSample G (stNs t) w, c))
                                 else
                                   (case base_Get (stCall t) (opKey op) c of
                                      (Some v, c) \<Rightarrow> Some (recordSample G (stNs t) w, c)
                                    | (None, c) \<Rightarrow> Some (w\<lparr>wkPending := Some op\<rparr>, c)))))))"

fun workers_run :: "'g RNG \<Rightarrow> instant \<Rightarrow> (nat \<times> stepTimes) list \<Rightarrow> 'g Worker list \<times> baseCache \<Rightarrow> ('g Worker list \<times> baseCache) option" where
  "workers_run G deadline [] wsc = Some wsc"
| "workers_run G deadline ((i, t) # sched) (ws, c) =
     (if i \<ge> length ws then workers_run G deadline sched (ws, c)
      else
        (case worker_step G deadline t (ws ! i, c) of
           None \<Rightarrow> None
         | Some (w, c) \<Rightarrow> workers_run G deadline sched (ws[i := w], c)))"

section \<open>Results\<close>

record BenchmarkResult =
  brPolicy :: string
  brWorkloadName :: string
  brHitRate :: real
  brOpsPerSec :: real
  brAvgLatencyNs :: int
  brP50LatencyNs :: int
  brP95LatencyNs :: int
  brP99LatencyNs :: int
  brEvictions :: int
  brTotalOps :: int

text \<open>\<open>p\<close> is the percentage; \<open>None\<close> is an index out of range.\<close>

definition percentile :: "int list \<Rightarrow> int \<Rightarrow> int option" where
  "percentile xs p = (if xs = [] then Some 0 else elem xs ((int (length xs) - 1) * p div 100))"

definition quot :: "int \<Rightarrow> int \<Rightarrow> int" where
  "quot a b = (if a \<ge> 0 then a div b else - ((- a) div b))"

definition computeLatencyStats :: "int list \<Rightarrow> int \<Rightarrow> int \<Rightarrow> (int \<times> int \<times> int \<times> int) option" where
  "computeLatencyStats samples totalLatencyNs totalOps =
     (if totalOps = 0 then Some (0, 0, 0, 0)
      else
        (let avg = quot totalLatencyNs totalOps
         in if samples = [] then Some (avg, 0, 0, 0)
            else
              (let samples = sort samples
               in case (percentile samples 50, percentile samples 95, percentile samples 99) of
                    (Some p50, Some p95, Some p99) \<Rightarrow> Some (avg, p50, p95, p99)
                  | _ \<Rightarrow> None)))"

text \<open>The results when all workers are done; \<open>order\<close> is the order in which they added their samples.\<close>

definition policyResult :: "string \<Rightarrow> Config \<Rightarrow> nat list \<Rightarrow> 'g Worker list \<times> baseCache \<Rightarrow> BenchmarkResult option" where
  "policyResult policy cfg order wsc =
     (case wsc of (ws, c) \<Rightarrow>
        (let done = map (\<lambda>i. ws ! i) order;
             allSamples = concat (map wkSamples done);
             totalOps = sum_list (map wkOps done);
             totalLatencyNs = sum_list (map wkLatencyNs done);
             st = mStats base_cache c
         in map_option (\<lambda>(avg, p50, p95, p99).
              \<lparr>brPolicy = policy, brWorkloadName = bcWorkload cfg, brHitRate = HitRate st,
               brOpsPerSec = of_int totalOps / (of_int (bcDuration cfg) / 1000000000),
               brAvgLatencyNs = avg, brP50LatencyNs = p50, brP95LatencyNs = p95, brP99LatencyNs = p99,
               brEvictions = sint (Evictions st), brTotalOps = totalOps\<rparr>)
            (computeLatencyStats allSamples totalLatencyNs totalOps)))"

text \<open>What the machine decides of the run for one policy\<close>

record policyTrace =
  ptWarm :: "nat \<Rightarrow> instant"
  ptStart :: instant
  ptSchedule :: "(nat \<times> stepTimes) list"
  ptOrder :: "nat list"

definition startPolicy :: "'g RNG \<Rightarrow> string \<Rightarrow> Config \<Rightarrow> policyTrace \<Rightarrow> ('g Worker list \<times> baseCache) option" where
  "startPolicy G policy cfg tr =
     (case newWorkload G (bcWorkload cfg) (bcWorkloadN cfg) of
        None \<Rightarrow> None
      | Some warmup \<Rightarrow>
          (case warmUp G (ptWarm tr) (nat (bcCacheSize cfg)) warmup (newCache policy (bcCacheSize cfg)) of
             None \<Rightarrow> None
           | Some c \<Rightarrow> map_option (\<lambda>ws. (ws, c)) (those (map (newWorker G cfg) [0..<nat (bcConcurrency cfg)]))))"

definition runPolicy :: "'g RNG \<Rightarrow> string \<Rightarrow> Config \<Rightarrow> policyTrace \<Rightarrow> BenchmarkResult option" where
  "runPolicy G policy cfg tr =
     (case startPolicy G policy cfg tr of
        None \<Rightarrow> None
      | Some wsc \<Rightarrow>
          (case workers_run G (ptStart tr + bcDuration cfg) (ptSchedule tr) wsc of
             None \<Rightarrow> None
           | Some wsc \<Rightarrow> policyResult policy cfg (ptOrder tr) wsc))"

definition runner_Run :: "'g RNG \<Rightarrow> Config \<Rightarrow> policyTrace list \<Rightarrow> BenchmarkResult list option" where
  "runner_Run G cfg trs =
     (let cfg = runDefaults cfg in those (map (\<lambda>(policy, tr). runPolicy G policy cfg tr) (zip (bcPolicies cfg) trs)))"

section \<open>The workers\<close>

text \<open>All latencies measured are between \<open>lo\<close> and \<open>hi\<close>.\<close>

definition wk_ok :: "int \<Rightarrow> int \<Rightarrow> 'g Worker \<Rightarrow> bool" where
  "wk_ok lo hi w \<longleftrightarrow> wl_ok (wkWork w) \<and> (\<not> wkDone w \<longrightarrow> 1 \<le> wkUntil w \<and> wkUntil w \<le> deadlineCheckInterval) \<and>
     0 \<le> wkOps w \<and> wkSeen w = wkOps w \<and> length (wkSamples w) = min (nat (wkOps w)) maxLatencySamplesPerWorker \<and>
     (\<forall>ns\<in>set (wkSamples w). lo \<le> ns \<and> ns \<le> hi) \<and> wkOps w * lo \<le> wkLatencyNs w \<and> wkLatencyNs w \<le> wkOps w * hi"

text \<open>How many steps a worker has at most until it looks at the clock\<close>

definition wk_left :: "'g Worker \<Rightarrow> int" where
  "wk_left w = (if wkDone w then 0 else 2 * wkUntil w + (if wkPending w = None then 0 else 1))"

lemma recordSample_sel [simp]: "wkWork (recordSample G ns w) = wkWork w" "wkDone (recordSample G ns w) = wkDone w"
  "wkUntil (recordSample G ns w) = wkUntil w" "wkPending (recordSample G ns w) = None"
  "wkOps (recordSample G ns w) = wkOps w + 1" "wkSeen (recordSample G ns w) = wkSeen w + 1"
  "wkLatencyNs (recordSample G ns w) = wkLatencyNs w + ns"
  by (simp_all add: recordSample_def Let_def split: prod.split)

lemma recordSample_samples:
  "length (wkSamples (recordSample G ns w)) =
     (if length (wkSamples w) < maxLatencySamplesPerWorker then Suc (length (wkSamples w)) else length (wkSamples w))"
  "set (wkSamples (recordSample G ns w)) \<subseteq> insert ns (set (wkSamples w))"
  using set_update_subset_insert [of "wkSamples w" _ ns] by (auto simp: recordSample_def Let_def split: prod.split)

lemma recordSample_ok:
  assumes "wk_ok lo hi w" and "lo \<le> ns" and "ns \<le> hi"
  shows "wk_ok lo hi (recordSample G ns w)"
proof -
  have "length (wkSamples (recordSample G ns w)) = min (nat (wkOps w + 1)) maxLatencySamplesPerWorker"
    using assms(1) recordSample_samples(1) [of G ns w] by (auto simp: wk_ok_def min_def split: if_splits)
  moreover have "\<forall>n\<in>set (wkSamples (recordSample G ns w)). lo \<le> n \<and> n \<le> hi"
    using recordSample_samples(2) [of G ns w] assms by (auto simp: wk_ok_def)
  ultimately show ?thesis using assms by (simp add: wk_ok_def algebra_simps)
qed

lemma wk_ok_pending: "wk_ok lo hi (w\<lparr>wkPending := p\<rparr>) = wk_ok lo hi w"
  by (simp add: wk_ok_def)

lemma worker_step_ok:
  assumes G: "in_range G" and ok: "wk_ok lo hi w" and c: "base_ok c" and ns: "lo \<le> stNs t" "stNs t \<le> hi"
  shows "\<exists>w' c'. worker_step G deadline t (w, c) = Some (w', c') \<and> wk_ok lo hi w' \<and> base_ok c' \<and>
    (deadline < stCheck t \<longrightarrow> wkDone w' \<or> wk_left w' < wk_left w) \<and> (wkDone w \<longrightarrow> w' = w)"
proof (cases "wkDone w")
  case True
  with ok c show ?thesis by (auto simp: worker_step_def)
next
  case active: False
  show ?thesis
  proof (cases "wkPending w")
    case (Some op)
    obtain err evs c' where s: "base_Set (stCall t) (opKey op) (opValue op) 0 c = (err, evs, c')"
      by (cases "base_Set (stCall t) (opKey op) (opValue op) 0 c")
    show ?thesis using Some active s base_Set_law [OF c s] recordSample_ok [OF ok ns]
      by (simp add: worker_step_def wk_left_def)
  next
    case None
    let ?w = "w\<lparr>wkUntil := wkUntil w - 1\<rparr>"
    show ?thesis
    proof (cases "wkUntil ?w = 0 \<and> deadline < stCheck t")
      case True
      have "wk_ok lo hi (?w\<lparr>wkDone := True\<rparr>)" using ok by (simp add: wk_ok_def)
      with True None active c show ?thesis by (simp add: worker_step_def)
    next
      case False
      let ?v = "if wkUntil ?w = 0 then ?w\<lparr>wkUntil := deadlineCheckInterval\<rparr> else ?w"
      obtain op work where n: "wl_Next G (wkWork w) = Some (op, work)" "wl_ok work"
        using wl_Next_ok [OF G] ok unfolding wk_ok_def by blast
      have v: "wk_ok lo hi (?v\<lparr>wkWork := work\<rparr>)" and nv: "wkPending ?v = None" "wkWork ?v = wkWork w" "\<not> wkDone ?v"
        using ok n(2) active None by (auto simp: wk_ok_def deadlineCheckInterval_def)
      have left: "deadline < stCheck t \<longrightarrow> wkUntil ?v = wkUntil w - 1" using False by auto
      note step = worker_step_def [of G deadline t "(w, c)"]
      show ?thesis
      proof (cases "opType op = SetOp")
        case True
        obtain err evs c' where s: "base_Set (stCall t) (opKey op) (opValue op) 0 c = (err, evs, c')"
          by (cases "base_Set (stCall t) (opKey op) (opValue op) 0 c")
        have "worker_step G deadline t (w, c) = Some (recordSample G (stNs t) (?v\<lparr>wkWork := work\<rparr>), c')"
          using True False active None n(1) s by (simp add: worker_step_def Let_def del: de_Morgan_conj)
        moreover have "deadline < stCheck t \<longrightarrow> wk_left (recordSample G (stNs t) (?v\<lparr>wkWork := work\<rparr>)) < wk_left w"
          using left active None nv by (simp add: wk_left_def)
        ultimately show ?thesis using base_Set_law [OF c s] recordSample_ok [OF v ns] active by blast
      next
        case get: False
        obtain r c' where s: "base_Get (stCall t) (opKey op) c = (r, c')" by (cases "base_Get (stCall t) (opKey op) c")
        let ?u = "case r of None \<Rightarrow> (?v\<lparr>wkWork := work\<rparr>)\<lparr>wkPending := Some op\<rparr> | Some x \<Rightarrow> recordSample G (stNs t) (?v\<lparr>wkWork := work\<rparr>)"
        have "worker_step G deadline t (w, c) = Some (?u, c')"
          using get False active None n(1) s by (simp add: worker_step_def Let_def split: option.split)
        moreover have "deadline < stCheck t \<longrightarrow> wk_left ?u < wk_left w"
          using left False active None nv by (auto simp: wk_left_def split: option.split)
        moreover have "wk_ok lo hi ?u" using v recordSample_ok [OF v ns] by (cases r) (simp_all only: option.case wk_ok_pending)
        ultimately show ?thesis using base_Get_law [OF c s] active by blast
      qed
    qed
  qed
qed

definition timed :: "int \<Rightarrow> int \<Rightarrow> (nat \<times> stepTimes) list \<Rightarrow> bool" where
  "timed lo hi sched \<longleftrightarrow> list_all (\<lambda>(i, t). lo \<le> stNs t \<and> stNs t \<le> hi) sched"

lemma workers_run_ok:
  assumes "in_range G" and "list_all (wk_ok lo hi) ws" and "base_ok c" and "timed lo hi sched"
  shows "\<exists>ws' c'. workers_run G deadline sched (ws, c) = Some (ws', c') \<and> list_all (wk_ok lo hi) ws' \<and> base_ok c' \<and>
    length ws' = length ws \<and> (\<forall>i<length ws. wkDone (ws ! i) \<longrightarrow> wkDone (ws' ! i))"
  using assms(2-)
proof (induction sched arbitrary: ws c)
  case (Cons p sched)
  obtain i t where p: "p = (i, t)" by (cases p)
  show ?case
  proof (cases "i < length ws")
    case True
    have wi: "wk_ok lo hi (ws ! i)" using Cons.prems(1) True by (simp add: list_all_length)
    have ns: "lo \<le> stNs t" "stNs t \<le> hi" using Cons.prems(3) p by (simp_all add: timed_def)
    obtain w' c' where s: "worker_step G deadline t (ws ! i, c) = Some (w', c')" "wk_ok lo hi w'" "base_ok c'" "wkDone (ws ! i) \<longrightarrow> w' = ws ! i"
      using worker_step_ok [OF assms(1) wi Cons.prems(2) ns, of deadline] by blast
    have "list_all (wk_ok lo hi) (ws[i := w'])" using Cons.prems(1) s(2) True by (simp add: list_all_length nth_list_update)
    moreover have "timed lo hi sched" using Cons.prems(3) by (simp add: timed_def)
    ultimately have "\<exists>ws' c''. workers_run G deadline sched (ws[i := w'], c') = Some (ws', c'') \<and> list_all (wk_ok lo hi) ws' \<and> base_ok c'' \<and>
        length ws' = length (ws[i := w']) \<and> (\<forall>j<length (ws[i := w']). wkDone (ws[i := w'] ! j) \<longrightarrow> wkDone (ws' ! j))"
      by (intro Cons.IH s(3))
    then obtain ws' c'' where r: "workers_run G deadline sched (ws[i := w'], c') = Some (ws', c'')" "list_all (wk_ok lo hi) ws'" "base_ok c''"
        "length ws' = length ws" "\<forall>j<length ws. wkDone (ws[i := w'] ! j) \<longrightarrow> wkDone (ws' ! j)"
      unfolding length_list_update by blast
    moreover have "\<forall>j<length ws. wkDone (ws ! j) \<longrightarrow> wkDone (ws[i := w'] ! j)" using s(4) True by (auto simp: nth_list_update)
    ultimately show ?thesis using True p s(1) by auto
  qed (use Cons p in \<open>simp add: timed_def\<close>)
qed simp

lemma workers_run_append:
  "workers_run G deadline (xs @ ys) wsc =
     (case workers_run G deadline xs wsc of None \<Rightarrow> None | Some wsc \<Rightarrow> workers_run G deadline ys wsc)"
  by (induction G deadline xs wsc rule: workers_run.induct) (auto split: option.split)

lemma timed_exists: "\<exists>lo hi. timed lo hi sched"
proof (induction sched)
  case (Cons p sched)
  then obtain lo hi where h: "timed lo hi sched" by blast
  obtain i t where "p = (i, t)" by (cases p)
  with h have "timed (min lo (stNs t)) (max hi (stNs t)) (p # sched)" by (auto simp: timed_def list_all_iff)
  then show ?case by blast
qed (simp add: timed_def)

text \<open>After the deadline each step of a worker brings it nearer to its end.\<close>

lemma workers_run_left:
  assumes "in_range G" and "list_all (wk_ok lo hi) ws" and "base_ok c" and "timed lo hi sched"
    and "list_all (\<lambda>(i, t). deadline < stCheck t) sched" and "workers_run G deadline sched (ws, c) = Some (ws', c')" and "i < length ws"
  shows "wkDone (ws' ! i) \<or> wk_left (ws' ! i) + int (count_list (map fst sched) i) \<le> wk_left (ws ! i)"
  using assms(2-)
proof (induction sched arbitrary: ws c)
  case (Cons p sched)
  obtain j t where p: "p = (j, t)" by (cases p)
  show ?case
  proof (cases "j < length ws")
    case True
    have wj: "wk_ok lo hi (ws ! j)" using Cons.prems(1) True by (simp add: list_all_length)
    have ns: "lo \<le> stNs t" "stNs t \<le> hi" using Cons.prems(3) p by (simp_all add: timed_def)
    have late: "deadline < stCheck t" using Cons.prems(4) p by simp
    obtain w1 c1 where s: "worker_step G deadline t (ws ! j, c) = Some (w1, c1)" "wk_ok lo hi w1" "base_ok c1"
        "wkDone w1 \<or> wk_left w1 < wk_left (ws ! j)"
      using worker_step_ok [OF assms(1) wj Cons.prems(2) ns, of deadline] late by blast
    let ?ws = "ws[j := w1]"
    have ws: "list_all (wk_ok lo hi) ?ws" using Cons.prems(1) s(2) True by (simp add: list_all_length nth_list_update)
    have w: "timed lo hi sched" "list_all (\<lambda>(i, t). deadline < stCheck t) sched" "workers_run G deadline sched (?ws, c1) = Some (ws', c')"
      using Cons.prems p True s(1) by (simp_all add: timed_def)
    note ih = Cons.IH [OF ws s(3) w]
    show ?thesis
    proof (cases "i = j")
      case False
      with ih Cons.prems(6) p show ?thesis by simp
    next
      case eq: True
      show ?thesis
      proof (cases "wkDone w1")
        case True
        then have "wkDone (ws' ! i)"
          using workers_run_ok [OF assms(1) ws s(3) w(1), of deadline] w(3) eq Cons.prems(6) by auto
        then show ?thesis by simp
      next
        case False
        with ih s(4) eq Cons.prems(6) p show ?thesis by auto
      qed
    qed
  qed (use Cons p in \<open>auto simp: timed_def\<close>)
qed simp

section \<open>From the start\<close>

lemma newWorkload_keys:
  assumes "in_range G" and "n < 2 ^ 63"
  shows "\<exists>w. newWorkload G name n = Some w \<and> wl_ok w \<and> wl_keys w =
      (if name = ''scan-resistant'' then keysOf ''hot:'' 200 @ keysOf ''scan:'' (normalizeN n) else keysOf ''key:'' (normalizeN n))"
proof -
  note new = New_wl_ok [OF assms]
  obtain w1 where "NewSequential n = Some w1" "wl_ok (Sequential w1 :: 'a Workload)" "sqKeys w1 = keysOf ''key:'' (normalizeN n)" using new(1) by blast
  moreover obtain w2 where "NewUniformRandom G n = Some w2" "wl_ok (UniformRandom w2)" "urKeys w2 = keysOf ''key:'' (normalizeN n)" using new(2) by blast
  moreover obtain w3 where "NewZipf G n = Some w3" "wl_ok (Zipf w3)" "zfKeys w3 = keysOf ''key:'' (normalizeN n)" using new(3) by blast
  moreover obtain w4 where "NewTemporal G n = Some w4" "wl_ok (Temporal w4)" "tmKeys w4 = keysOf ''key:'' (normalizeN n)" using new(4) by blast
  moreover have "(200 :: int) < 2 ^ 63" by simp
  then obtain w5 where "NewScanResistant G 200 n = Some w5" "wl_ok (ScanResistant w5)" "srHotKeys w5 = keysOf ''hot:'' 200" "srScanKeys w5 = keysOf ''scan:'' (normalizeN n)" using new(5) by (fastforce simp: normalizeN_def [of 200])
  moreover obtain w6 where "NewWriteHeavy G n = Some w6" "wl_ok (WriteHeavy w6)" "whKeys w6 = keysOf ''key:'' (normalizeN n)" using new(6) by blast
  ultimately show ?thesis by (simp add: newWorkload_def del: wl_ok.simps)
qed

lemma newWorkload_ok: "in_range G \<Longrightarrow> n < 2 ^ 63 \<Longrightarrow> \<exists>w. newWorkload G name n = Some w \<and> wl_ok w"
  using newWorkload_keys by blast

lemma newCache_ok: "base_ok (newCache policy capacity)"
  using newBaseCache_ok [of "''lru''" capacity] newBaseCache_ok [of "''lfu''" capacity] newBaseCache_ok [of "''arc''" capacity]
  by (simp add: newBaseCache_def newCache_def)

lemma warmUp_ok:
  assumes "in_range G"
  shows "wl_ok w \<Longrightarrow> base_ok c \<Longrightarrow> \<exists>c'. warmUp G ts i w c = Some c' \<and> base_ok c'"
proof (induction i arbitrary: w c)
  case (Suc i)
  obtain op w1 where n: "wl_Next G w = Some (op, w1)" "wl_ok w1" using wl_Next_ok [OF assms Suc.prems(1)] by blast
  obtain err evs c1 where s: "base_Set (ts i) (opKey op) readValue 0 c = (err, evs, c1)"
    by (cases "base_Set (ts i) (opKey op) readValue 0 c")
  have "base_ok c1" using base_Set_law [OF Suc.prems(2) s] by blast
  from Suc.IH [OF n(2) this] n(1) s show ?case by simp
qed simp

lemma startPolicy_ok:
  assumes "in_range G" and "bcWorkloadN cfg < 2 ^ 63"
  shows "\<exists>ws c. startPolicy G policy cfg tr = Some (ws, c) \<and> list_all (wk_ok lo hi) ws \<and> base_ok c \<and>
    length ws = nat (bcConcurrency cfg)"
proof -
  obtain w where w: "newWorkload G (bcWorkload cfg) (bcWorkloadN cfg) = Some w" "wl_ok w" using newWorkload_ok [OF assms] by blast
  obtain c where c: "warmUp G (ptWarm tr) (nat (bcCacheSize cfg)) w (newCache policy (bcCacheSize cfg)) = Some c" "base_ok c"
    using warmUp_ok [OF assms(1) w(2) newCache_ok] by blast
  let ?new = "\<lambda>i. \<lparr>wkWork = w, wkSamples = [], wkSeen = 0, wkOps = 0, wkLatencyNs = 0, wkRng = rgNew G (int i + 1),
      wkUntil = deadlineCheckInterval, wkPending = None, wkDone = False\<rparr>"
  have "those (map (newWorker G cfg) [0..<nat (bcConcurrency cfg)]) = Some (map ?new [0..<nat (bcConcurrency cfg)])"
    by (rule those_map_Some) (simp add: newWorker_def w(1))
  moreover have "wk_ok lo hi (?new i)" for i
    using w(2) by (simp add: wk_ok_def deadlineCheckInterval_def maxLatencySamplesPerWorker_def)
  ultimately show ?thesis using w(1) c by (simp add: startPolicy_def list_all_iff)
qed

text \<open>
  C24: The benchmark ends: from any start, whatever the workers have done before, once the deadline has
  passed a worker that gets 512 more steps is done, and no step panics.
\<close>

theorem workers_stop:
  assumes "in_range G" and "bcWorkloadN cfg < 2 ^ 63" and "startPolicy G policy cfg tr = Some wsc"
    and "list_all (\<lambda>(i, t). deadline < stCheck t) late" and "list_all (\<lambda>i. 512 \<le> count_list (map fst late) i) [0..<nat (bcConcurrency cfg)]"
  shows "\<exists>ws c. workers_run G deadline (early @ late) wsc = Some (ws, c) \<and> list_all wkDone ws"
proof -
  obtain lo hi where t: "timed lo hi (early @ late)" using timed_exists by blast
  then have te: "timed lo hi early" and tl: "timed lo hi late" by (simp_all add: timed_def)
  obtain ws0 c0 where s: "wsc = (ws0, c0)" "list_all (wk_ok lo hi) ws0" "base_ok c0" "length ws0 = nat (bcConcurrency cfg)"
    using startPolicy_ok [OF assms(1,2), of policy tr lo hi] assms(3) by auto
  obtain ws1 c1 where e: "workers_run G deadline early (ws0, c0) = Some (ws1, c1)" "list_all (wk_ok lo hi) ws1" "base_ok c1" "length ws1 = length ws0"
    using workers_run_ok [OF assms(1) s(2,3) te, of deadline] by blast
  obtain ws c where l: "workers_run G deadline late (ws1, c1) = Some (ws, c)" "list_all (wk_ok lo hi) ws" "length ws = length ws1"
    using workers_run_ok [OF assms(1) e(2,3) tl, of deadline] by blast
  have "wkDone (ws ! i)" if i: "i < length ws" for i
  proof (rule ccontr)
    assume nd: "\<not> wkDone (ws ! i)"
    have i1: "i < length ws1" using i l(3) by simp
    have "wk_left (ws ! i) + int (count_list (map fst late) i) \<le> wk_left (ws1 ! i)"
      using workers_run_left [OF assms(1) e(2,3) tl assms(4) l(1) i1] nd by blast
    moreover have "512 \<le> int (count_list (map fst late) i)" using assms(5) i l(3) e(4) s(4) by (simp add: list_all_length)
    moreover have "wk_left (ws1 ! i) \<le> 513" using e(2) i1 by (auto simp: list_all_length wk_ok_def wk_left_def deadlineCheckInterval_def)
    moreover have "2 \<le> wk_left (ws ! i)" using l(2) i nd by (auto simp: list_all_length wk_ok_def wk_left_def)
    ultimately show False by linarith
  qed
  then show ?thesis using l(1) by (simp add: s(1) workers_run_append e(1) list_all_length)
qed

section \<open>The figures\<close>

lemma percentile_mono:
  assumes "sorted xs" and "xs \<noteq> []" and "0 \<le> p" and "p \<le> q" and "q \<le> 100"
  shows "\<exists>a b. percentile xs p = Some a \<and> percentile xs q = Some b \<and> a \<le> b \<and> a \<in> set xs \<and> b \<in> set xs"
proof -
  let ?n = "int (length xs) - 1"
  have n: "0 \<le> ?n" using assms(2) by (cases xs) simp_all
  have le: "?n * p div 100 \<le> ?n * q div 100" "?n * q div 100 \<le> ?n" "0 \<le> ?n * p div 100"
  proof -
    show "?n * p div 100 \<le> ?n * q div 100" using n assms(4) by (intro zdiv_mono1 mult_left_mono) simp_all
    have "?n * q div 100 \<le> ?n * 100 div 100" using n assms(5) by (intro zdiv_mono1 mult_left_mono) simp_all
    then show "?n * q div 100 \<le> ?n" by simp
    show "0 \<le> ?n * p div 100" using n assms(3) by (intro pos_imp_zdiv_nonneg_iff [THEN iffD2] mult_nonneg_nonneg) simp_all
  qed
  have "xs ! nat (?n * p div 100) \<le> xs ! nat (?n * q div 100)"
    using le by (intro sorted_nth_mono [OF assms(1)]) linarith+
  moreover have "nat (?n * p div 100) < length xs" "nat (?n * q div 100) < length xs" using le n by linarith+
  ultimately show ?thesis using le by (simp add: percentile_def assms(2) elem_def)
qed

lemma sum_within:
  fixes ws :: "'g Worker list"
  assumes "list_all (wk_ok lo hi) ws"
  shows "0 \<le> sum_list (map wkOps ws) \<and> sum_list (map wkOps ws) * lo \<le> sum_list (map wkLatencyNs ws) \<and>
    sum_list (map wkLatencyNs ws) \<le> sum_list (map wkOps ws) * hi \<and> (\<forall>ns\<in>set (concat (map wkSamples ws)). lo \<le> ns \<and> ns \<le> hi) \<and>
    (0 < sum_list (map wkOps ws) \<longrightarrow> concat (map wkSamples ws) \<noteq> [])"
  using assms
proof (induction ws)
  case (Cons w ws)
  have w: "0 \<le> wkOps w" "wkOps w * lo \<le> wkLatencyNs w" "wkLatencyNs w \<le> wkOps w * hi" "\<forall>ns\<in>set (wkSamples w). lo \<le> ns \<and> ns \<le> hi"
    using Cons.prems by (simp_all add: wk_ok_def)
  have some: "wkSamples w \<noteq> []" if "0 < wkOps w"
  proof -
    have "0 < length (wkSamples w)" using Cons.prems that by (simp add: wk_ok_def maxLatencySamplesPerWorker_def)
    then show ?thesis by simp
  qed
  have ih: "0 \<le> sum_list (map wkOps ws)" "sum_list (map wkOps ws) * lo \<le> sum_list (map wkLatencyNs ws)"
    "sum_list (map wkLatencyNs ws) \<le> sum_list (map wkOps ws) * hi" "\<forall>ns\<in>set (concat (map wkSamples ws)). lo \<le> ns \<and> ns \<le> hi"
    "0 < sum_list (map wkOps ws) \<longrightarrow> concat (map wkSamples ws) \<noteq> []"
    using Cons.IH Cons.prems by simp_all
  have "concat (map wkSamples (w # ws)) \<noteq> []" if "0 < sum_list (map wkOps (w # ws))"
  proof (cases "0 < wkOps w")
    case False
    then have "0 < sum_list (map wkOps ws)" using that w(1) by simp
    then show ?thesis using ih(5) by simp
  qed (use some in simp)
  then show ?case using w(1-4) ih(1-4) by (auto simp: algebra_simps)
qed simp

lemma latencyStats_ok:
  assumes "list_all (wk_ok lo hi) ws" and "0 \<le> lo"
  shows "\<exists>avg p50 p95 p99. computeLatencyStats (concat (map wkSamples ws)) (sum_list (map wkLatencyNs ws)) (sum_list (map wkOps ws)) =
      Some (avg, p50, p95, p99) \<and>
    (0 < sum_list (map wkOps ws) \<longrightarrow> lo \<le> avg \<and> avg \<le> hi \<and> lo \<le> p50 \<and> p50 \<le> p95 \<and> p95 \<le> p99 \<and> p99 \<le> hi)"
proof (cases "0 < sum_list (map wkOps ws)")
  case True
  let ?xs = "concat (map wkSamples ws)" and ?n = "sum_list (map wkOps ws)" and ?t = "sum_list (map wkLatencyNs ws)"
  note s = sum_within [OF assms(1)]
  have ne: "?xs \<noteq> []" using s True by blast
  then have ne': "sort ?xs \<noteq> []" by (metis set_empty set_sort)
  obtain a b where ab: "percentile (sort ?xs) 50 = Some a" "percentile (sort ?xs) 95 = Some b" "a \<le> b" "a \<in> set (sort ?xs)"
    using percentile_mono [OF sorted_sort ne', of 50 95] by auto
  obtain b' d where bd: "percentile (sort ?xs) 95 = Some b'" "percentile (sort ?xs) 99 = Some d" "b' \<le> d" "d \<in> set (sort ?xs)"
    using percentile_mono [OF sorted_sort ne', of 95 99] by auto
  have "lo \<le> a" "d \<le> hi" using s ab(4) bd(4) unfolding set_sort by blast+
  moreover have "b' = b" using ab(2) bd(1) by simp
  moreover have "0 \<le> ?t" using s True assms(2) by (meson mult_nonneg_nonneg order_trans)
  moreover have "lo \<le> ?t div ?n" using s True by (metis mult.commute nonzero_mult_div_cancel_left order_less_irrefl zdiv_mono1)
  moreover have "?t div ?n \<le> hi" using s True by (metis mult.commute nonzero_mult_div_cancel_left order_less_irrefl zdiv_mono1)
  moreover have "computeLatencyStats ?xs ?t ?n = Some (quot ?t ?n, a, b, d)"
    using True ne ab(1,2) bd(2) unfolding computeLatencyStats_def Let_def by (simp del: concat_eq_Nil_conv)
  ultimately show ?thesis using ab(3) bd(3) by (simp add: quot_def)
next
  case False
  then have "sum_list (map wkOps ws) = 0" using sum_within [OF assms(1)] by simp
  then show ?thesis by (simp add: computeLatencyStats_def)
qed


section \<open>The keys\<close>

text \<open>
  A workload by any name, known or not, gives operations without end and without a panic, each on a key of
  its key space: \<open>key:0\<close> to \<open>key:(n-1)\<close>, for the scan resistant one the 200 hot keys and the scanned ones.
\<close>

theorem workload_keys:
  assumes "in_range G" and "n < 2 ^ 63"
  shows "\<exists>w ops w'. newWorkload G name n = Some w \<and> wl_run G m w = Some (ops, w') \<and> length ops = m \<and>
    list_all (\<lambda>op. opKey op \<in> set (if name = ''scan-resistant'' then keysOf ''hot:'' 200 @ keysOf ''scan:'' (normalizeN n)
        else keysOf ''key:'' (normalizeN n))) ops"
proof -
  have "\<exists>w. newWorkload G name n = Some w \<and> wl_ok w \<and> wl_keys w =
      (if name = ''scan-resistant'' then keysOf ''hot:'' 200 @ keysOf ''scan:'' (normalizeN n) else keysOf ''key:'' (normalizeN n))"
    using newWorkload_keys [OF assms] by blast
  then obtain w where w: "newWorkload G name n = Some w" "wl_ok w" "wl_keys w =
      (if name = ''scan-resistant'' then keysOf ''hot:'' 200 @ keysOf ''scan:'' (normalizeN n) else keysOf ''key:'' (normalizeN n))"
    by blast
  from wl_run_ok [OF assms(1) w(2), of m] w(1,3) show ?thesis by (auto simp: list_all_iff)
qed

theorem workload_keys_witness:
  "\<exists>w ops w'. newWorkload counting ''temporal'' 3 = Some w \<and> wl_run counting 7 w = Some (ops, w') \<and> length ops = 7 \<and>
     list_all (\<lambda>op. opKey op \<in> set (if ''temporal'' = ''scan-resistant'' then keysOf ''hot:'' 200 @ keysOf ''scan:'' (normalizeN 3)
        else keysOf ''key:'' (normalizeN 3))) ops"
  by (rule workload_keys [OF counting_in_range]) simp

section \<open>A run\<close>

definition tiny_cfg :: Config where
  "tiny_cfg = \<lparr>bcDuration = 1000000000, bcConcurrency = 1, bcCacheSize = 1, bcPolicies = [''lru''], bcWorkload = ''sequential'', bcWorkloadN = 1\<rparr>"

definition tiny_trace :: policyTrace where
  "tiny_trace = \<lparr>ptWarm = (\<lambda>_. 0), ptStart = 0, ptSchedule = [(0, \<lparr>stCheck = 0, stCall = 1, stNs = 7\<rparr>)], ptOrder = [0]\<rparr>"

lemma workers_stop_witness:
  "\<exists>wsc ws c. startPolicy counting ''lru'' tiny_cfg tiny_trace = Some wsc \<and>
     workers_run counting 5 (ptSchedule tiny_trace @ replicate 512 (0, \<lparr>stCheck = 6, stCall = 6, stNs = 1\<rparr>)) wsc = Some (ws, c) \<and>
     list_all wkDone ws"
proof -
  have n: "bcWorkloadN tiny_cfg < 2 ^ 63" by (simp add: tiny_cfg_def)
  obtain wsc where s: "startPolicy counting ''lru'' tiny_cfg tiny_trace = Some wsc"
    using startPolicy_ok [OF counting_in_range n] by blast
  have "list_all (\<lambda>(i, t). 5 < stCheck t) (replicate 512 (0, \<lparr>stCheck = 6, stCall = 6, stNs = 1\<rparr>))" by (simp add: list_all_iff)
  moreover have "count_list (replicate m (0 :: nat)) 0 = m" for m by (induction m) simp_all
  then have "list_all (\<lambda>i. 512 \<le> count_list (map fst (replicate 512 (0, \<lparr>stCheck = 6, stCall = 6, stNs = 1\<rparr>))) i)
      [0..<nat (bcConcurrency tiny_cfg)]"
    by (simp add: tiny_cfg_def map_replicate_const)
  ultimately show ?thesis using workers_stop [OF counting_in_range n s] s by blast
qed

lemma tiny_ops: "map_option brTotalOps (runPolicy counting ''lru'' tiny_cfg tiny_trace) = Some 1"
  by code_simp


end
