(* ===== verification/Observability.thy ===== *)
theory Observability
  imports Handlers Auth Rate_Limiter
begin

text \<open>
  What the server tells of itself: api/tracing.go, api/metrics.go, the middleware that counts
  requests and recovers from panics (api/middleware.go), the event streams (api/sse.go) and the handler that issues
  their tokens (api/auth.go). A handler's outcome is a response or \<open>None\<close>, a panic. Counters are 64-bit words.
  Random bytes, times, the memory in use, the pattern that chi matched and the formatting of floating point
  numbers are arguments. A response body in JSON is the value that it encodes.
\<close>

section \<open>Trace identifiers (tracing.go)\<close>

definition parseTraceID :: "string \<Rightarrow> string" where
  "parseTraceID traceparent =
     (let parts = Split (CHR ''-'') (TrimSpace traceparent)
      in if length parts \<noteq> 4 \<or> length (parts ! 1) \<noteq> 32 then []
         else
           (let traceID = ToLower (parts ! 1)
            in case hex_Decode traceID of None \<Rightarrow> [] | Some b \<Rightarrow> traceID))"

text \<open>\<open>rand.Read\<close> into a buffer: the bytes, or \<open>None\<close> for an error\<close>

definition randomHex :: "bytes option \<Rightarrow> string" where
  "randomHex rand = (case rand of None \<Rightarrow> [] | Some buf \<Rightarrow> hex_Encode buf)"

text \<open>The trace identifier for the context and the headers that are set, or the response that ends the request\<close>

definition requestTracing :: "bytes option \<Rightarrow> bytes option \<Rightarrow> Request \<Rightarrow> Response + (string \<times> (string \<times> string) list)" where
  "requestTracing rand16 rand8 r =
     (let traceID = parseTraceID (rqHeader r ''Traceparent'');
          traceID = (if traceID = [] then randomHex rand16 else traceID);
          spanID = randomHex rand8
      in if traceID = [] \<or> spanID = [] then Inl (http_Error ''trace initialization failed'' 503)
         else Inr (traceID, [(''Traceparent'', ''00-'' @ traceID @ ''-'' @ spanID @ ''-01''), (''X-Trace-Id'', traceID)]))"

section \<open>Counters (metrics.go)\<close>

record httpMetricKey =
  hkMethod :: string
  hkRoute :: string
  hkStatus :: string

record httpMetricValue =
  hvCount :: int64
  hvDurationNs :: int64

record Metrics =
  mtStartedAt :: instant
  mtHttpRequests :: "(httpMetricKey, httpMetricValue) gomap"
  mtRateLimitRejections :: int64
  mtAuthRejections :: int64
  mtPanicRecoveries :: int64

definition newMetrics :: "instant \<Rightarrow> Metrics" where
  "newMetrics now =
     \<lparr>mtStartedAt = now, mtHttpRequests = [], mtRateLimitRejections = 0, mtAuthRejections = 0, mtPanicRecoveries = 0\<rparr>"

definition recordHTTPRequest :: "string \<Rightarrow> string \<Rightarrow> int \<Rightarrow> duration \<Rightarrow> Metrics \<Rightarrow> Metrics" where
  "recordHTTPRequest method route status d m =
     (let route = (if route = [] then ''unmatched'' else route);
          k = \<lparr>hkMethod = method, hkRoute = route, hkStatus = showInt status\<rparr>;
          v = (case map_of (mtHttpRequests m) k of None \<Rightarrow> \<lparr>hvCount = 0, hvDurationNs = 0\<rparr> | Some v \<Rightarrow> v)
      in m\<lparr>mtHttpRequests := AList.update k \<lparr>hvCount = hvCount v + 1, hvDurationNs = hvDurationNs v + word_of_int d\<rparr> (mtHttpRequests m)\<rparr>)"

definition recordRateLimitRejection :: "Metrics \<Rightarrow> Metrics" where
  "recordRateLimitRejection m = m\<lparr>mtRateLimitRejections := mtRateLimitRejections m + 1\<rparr>"

definition recordAuthRejection :: "Metrics \<Rightarrow> Metrics" where
  "recordAuthRejection m = m\<lparr>mtAuthRejections := mtAuthRejections m + 1\<rparr>"

definition recordRecoveredPanic :: "Metrics \<Rightarrow> Metrics" where
  "recordRecoveredPanic m = m\<lparr>mtPanicRecoveries := mtPanicRecoveries m + 1\<rparr>"

definition boolAsInt :: "bool \<Rightarrow> int" where
  "boolAsInt b = (if b then 1 else 0)"

definition metricLabelValue :: "string \<Rightarrow> string" where
  "metricLabelValue v = Replace (\<lambda>c. if c = CHR 0x5C then Some [CHR 0x5C, CHR 0x5C]
     else if c = CHR 0x0A then Some [CHR 0x5C, CHR ''n'']
     else if c = CHR 0x22 then Some [CHR 0x5C, CHR 0x22] else None) v"

section \<open>Middleware\<close>

text \<open>The writer that remembers the last status written; what it sends is the first.\<close>

record statusWriter =
  swStatus :: int
  swSent :: "int option"

definition newStatusWriter :: statusWriter where
  "newStatusWriter = \<lparr>swStatus = 200, swSent = None\<rparr>"

definition sw_WriteHeader :: "int \<Rightarrow> statusWriter \<Rightarrow> statusWriter" where
  "sw_WriteHeader code sw = \<lparr>swStatus = code, swSent = (case swSent sw of None \<Rightarrow> Some code | Some c \<Rightarrow> Some c)\<rparr>"

definition mw_sanitizeLogValue :: "string \<Rightarrow> string" where
  "mw_sanitizeLogValue v = Replace (\<lambda>c. if c \<in> {CHR 0x0A, CHR 0x0D, CHR 0x09} then Some ''_'' else None) v"

text \<open>Of a URL what \<open>EscapedPath\<close> gives, \<open>None\<close> for a nil URL\<close>

definition sanitizeURLPath :: "string option \<Rightarrow> string" where
  "sanitizeURLPath u = (case u of None \<Rightarrow> [] | Some path \<Rightarrow> mw_sanitizeLogValue path)"

definition routePattern :: "string option \<Rightarrow> string option \<Rightarrow> string" where
  "routePattern chiPattern url =
     (case chiPattern of
        None \<Rightarrow> sanitizeURLPath url
      | Some pattern \<Rightarrow> if pattern \<noteq> [] then pattern else sanitizeURLPath url)"

definition metricsMiddleware :: "string \<Rightarrow> string \<Rightarrow> duration \<Rightarrow> Response option \<times> Metrics \<Rightarrow> Response option \<times> Metrics" where
  "metricsMiddleware method route d om =
     (case om of
        (None, m) \<Rightarrow> (None, m)
      | (Some resp, m) \<Rightarrow> (Some resp, recordHTTPRequest method route (rsStatus resp) d m))"

definition recoveryMiddleware :: "Response option \<times> Metrics \<Rightarrow> Response \<times> Metrics" where
  "recoveryMiddleware om =
     (case om of
        (None, m) \<Rightarrow> (http_Error ''internal server error'' 500, recordRecoveredPanic m)
      | (Some resp, m) \<Rightarrow> (resp, m))"

text \<open>
  One request through the outer middleware: tracing, recovery, (logging,) metrics; \<open>inner\<close> is the rest
  of the chain.
\<close>

record observedRequest =
  orRequest :: Request
  orRand16 :: "bytes option"
  orRand8 :: "bytes option"
  orPattern :: "string option"
  orDuration :: duration

definition observe :: "(Request \<Rightarrow> 's \<times> Metrics \<Rightarrow> Response option \<times> 's \<times> Metrics) \<Rightarrow> observedRequest \<Rightarrow> 's \<times> Metrics \<Rightarrow>
    Response \<times> 's \<times> Metrics" where
  "observe inner q sm =
     (case requestTracing (orRand16 q) (orRand8 q) (orRequest q) of
        Inl resp \<Rightarrow> (resp, sm)
      | Inr (traceID, headers) \<Rightarrow>
          (let (out, s, m) = inner (orRequest q) sm;
               route = routePattern (orPattern q) (Some (rqPath (orRequest q)));
               (resp, m) = recoveryMiddleware (metricsMiddleware (rqMethod (orRequest q)) route (orDuration q) (out, m))
           in (resp\<lparr>rsHeaders := headers @ rsHeaders resp\<rparr>, s, m)))"

text \<open>The chain of the protected routes, with the counters of rejections\<close>

definition guardedRoute :: "'s limiter \<Rightarrow> (bytes \<Rightarrow> bytes \<Rightarrow> bytes) \<Rightarrow> (bytes \<Rightarrow> accessTokenClaims option) \<Rightarrow> instant \<Rightarrow> ServerConfig \<Rightarrow>
    (Request \<Rightarrow> Response option) \<Rightarrow> Request \<Rightarrow> 's \<times> Metrics \<Rightarrow> Response option \<times> 's \<times> Metrics" where
  "guardedRoute allow hmac um now cfg handler r sm =
     (case sm of (s, m) \<Rightarrow>
        (case rateLimitMiddleware allow cfg r s of
           (Some resp, s) \<Rightarrow> (Some resp, s, if rsStatus resp = 429 then recordRateLimitRejection m else m)
         | (None, s) \<Rightarrow>
             (case protect hmac um now cfg r of
                Some resp \<Rightarrow> (Some resp, s, if rsStatus resp = 401 then recordAuthRejection m else m)
              | None \<Rightarrow> (handler r, s, m))))"

section \<open>The page of metrics\<close>

datatype metricValue = IntValue int | FloatValue nat real

datatype metricLine =
    HelpLine string string
  | TypeLine string string
  | Sample string string metricValue

definition metricName :: "string \<Rightarrow> string" where
  "metricName n = ''cache_engine_'' @ n"

definition describe :: "string \<Rightarrow> string \<Rightarrow> string \<Rightarrow> metricLine list" where
  "describe n help kind = [HelpLine (metricName n) help, TypeLine (metricName n) kind]"

abbreviation gauge :: "string \<Rightarrow> string \<Rightarrow> metricValue \<Rightarrow> metricLine" where
  "gauge n labels v \<equiv> Sample (metricName n) labels v"

text \<open>The text of a line; \<open>fmtFloat\<close> is \<open>%.nf\<close>.\<close>

fun renderValue :: "(nat \<Rightarrow> real \<Rightarrow> string) \<Rightarrow> metricValue \<Rightarrow> string" where
  "renderValue fmtFloat (IntValue i) = showInt i"
| "renderValue fmtFloat (FloatValue n x) = fmtFloat n x"

fun renderLine :: "(nat \<Rightarrow> real \<Rightarrow> string) \<Rightarrow> metricLine \<Rightarrow> string" where
  "renderLine fmtFloat (HelpLine n t) = ''# HELP '' @ n @ '' '' @ t"
| "renderLine fmtFloat (TypeLine n t) = ''# TYPE '' @ n @ '' '' @ t"
| "renderLine fmtFloat (Sample n labels v) =
     n @ (if labels = [] then [] else CHR 0x7B # labels @ [CHR 0x7D]) @ '' '' @ renderValue fmtFloat v"

definition label :: "string \<Rightarrow> string \<Rightarrow> string" where
  "label n v = n @ [CHR ''='', CHR 0x22] @ metricLabelValue v @ [CHR 0x22]"

definition httpLabels :: "httpMetricKey \<Rightarrow> string" where
  "httpLabels k = label ''method'' (hkMethod k) @ '','' @ label ''route'' (hkRoute k) @ '','' @ label ''status'' (hkStatus k)"

definition storeLabels :: "string \<Rightarrow> StoreEntry \<Rightarrow> string" where
  "storeLabels name e = label ''store'' name @ '','' @ label ''policy'' (sePolicy e) @ '','' @ label ''write_policy'' (seWritePolicy e)"

text \<open>The order of the samples: route, method, status, by bytes\<close>

fun bytesLess :: "string \<Rightarrow> string \<Rightarrow> bool" where
  "bytesLess [] t = (t \<noteq> [])"
| "bytesLess (x # s) [] = False"
| "bytesLess (x # s) (y # t) = ((of_char x :: nat) < of_char y \<or> x = y \<and> bytesLess s t)"

definition httpKeyLess :: "httpMetricKey \<Rightarrow> httpMetricKey \<Rightarrow> bool" where
  "httpKeyLess a b =
     (if hkRoute a = hkRoute b then
        (if hkMethod a = hkMethod b then bytesLess (hkStatus a) (hkStatus b) else bytesLess (hkMethod a) (hkMethod b))
      else bytesLess (hkRoute a) (hkRoute b))"

fun insertBy :: "('a \<Rightarrow> 'a \<Rightarrow> bool) \<Rightarrow> 'a \<Rightarrow> 'a list \<Rightarrow> 'a list" where
  "insertBy lt x [] = [x]"
| "insertBy lt x (y # ys) = (if lt y x then y # insertBy lt x ys else x # y # ys)"

definition sortBy :: "('a \<Rightarrow> 'a \<Rightarrow> bool) \<Rightarrow> 'a list \<Rightarrow> 'a list" where
  "sortBy lt xs = foldr (insertBy lt) xs []"

definition processLines :: "error option \<Rightarrow> duration \<Rightarrow> int \<Rightarrow> 's Handler \<Rightarrow> Metrics \<Rightarrow> metricLine list" where
  "processLines benchReady uptime alloc h m = concat
     [describe ''ready'' ''Whether the service is ready to receive traffic'' ''gauge'',
      [gauge ''ready'' [] (IntValue (if readyChecks benchReady h \<noteq> None then 0 else 1))],
      describe ''coherence_enabled'' ''Whether coherence coordination is configured'' ''gauge'',
      [gauge ''coherence_enabled'' [] (IntValue (boolAsInt (hCoordinator h \<noteq> None)))],
      describe ''benchmark_active'' ''Whether a benchmark run is currently active'' ''gauge'',
      [gauge ''benchmark_active'' [] (IntValue (boolAsInt (hBenchActive h)))],
      describe ''process_uptime_seconds'' ''Process uptime in seconds'' ''gauge'',
      [gauge ''process_uptime_seconds'' [] (FloatValue 3 (of_int uptime / 1000000000))],
      describe ''process_memory_bytes'' ''Go heap allocation in bytes'' ''gauge'',
      [gauge ''process_memory_bytes'' [] (IntValue alloc)],
      describe ''rate_limit_rejections_total'' ''Total rejected requests due to rate limiting'' ''counter'',
      [gauge ''rate_limit_rejections_total'' [] (IntValue (sint (mtRateLimitRejections m)))],
      describe ''auth_rejections_total'' ''Total rejected requests due to authentication failure'' ''counter'',
      [gauge ''auth_rejections_total'' [] (IntValue (sint (mtAuthRejections m)))],
      describe ''panic_recoveries_total'' ''Total panics recovered by HTTP middleware'' ''counter'',
      [gauge ''panic_recoveries_total'' [] (IntValue (sint (mtPanicRecoveries m)))]]"

definition httpLines :: "Metrics \<Rightarrow> metricLine list" where
  "httpLines m = concat
     [describe ''http_requests_total'' ''Total HTTP requests by route and status'' ''counter'',
      describe ''http_request_duration_seconds_sum'' ''Total request duration in seconds by route'' ''counter'',
      describe ''http_request_duration_seconds_count'' ''Request duration sample count by route'' ''counter'']
     @ concat (map (\<lambda>k.
         (let v = the (map_of (mtHttpRequests m) k)
          in [gauge ''http_requests_total'' (httpLabels k) (IntValue (sint (hvCount v))),
              gauge ''http_request_duration_seconds_sum'' (httpLabels k) (FloatValue 6 (of_int (sint (hvDurationNs v)) / 1000000000)),
              gauge ''http_request_duration_seconds_count'' (httpLabels k) (IntValue (sint (hvCount v)))]))
       (sortBy httpKeyLess (map fst (mtHttpRequests m))))"

definition storeHelp :: "metricLine list" where
  "storeHelp = concat
     [describe ''store_entry_count'' ''Current cache entry count'' ''gauge'',
      describe ''store_capacity'' ''Configured cache capacity'' ''gauge'',
      describe ''store_dirty_entries'' ''Current dirty entry count for write-back stores'' ''gauge'',
      describe ''store_backing_store_latency_milliseconds'' ''Configured artificial backing store latency'' ''gauge'',
      describe ''store_hits_total'' ''Total cache hits'' ''counter'',
      describe ''store_misses_total'' ''Total cache misses'' ''counter'',
      describe ''store_sets_total'' ''Total cache sets'' ''counter'',
      describe ''store_deletes_total'' ''Total cache deletes'' ''counter'',
      describe ''store_evictions_total'' ''Total cache evictions'' ''counter'',
      describe ''store_ttl_expiries_total'' ''Total cache TTL expiries'' ''counter'',
      describe ''store_bytes_stored'' ''Current bytes stored in cache'' ''gauge'',
      describe ''store_write_store_ops_total'' ''Total writes propagated to the backing store'' ''counter'',
      describe ''store_read_store_ops_total'' ''Total reads fetched from the backing store'' ''counter'']"

definition storeLines :: "'s ConfigurableStore \<Rightarrow> string \<Rightarrow> 's Handler \<Rightarrow> metricLine list option" where
  "storeLines B name h =
     (case getStore name h of
        None \<Rightarrow> Some []
      | Some entry \<Rightarrow>
          (case entryCache entry of
             None \<Rightarrow> None
           | Some (e, c) \<Rightarrow>
               (let st = sc_Stats c;
                    dirtyCount = (case sc_DirtyCount c of None \<Rightarrow> 0 | Some n \<Rightarrow> n);
                    latencyMs = (if seBacked e then Milliseconds (csGetLatency B (hBacking h)) else 0);
                    labels = storeLabels name e
                in Some
                  [gauge ''store_entry_count'' labels (IntValue (sc_Len c)),
                   gauge ''store_capacity'' labels (IntValue (sc_Capacity c)),
                   gauge ''store_dirty_entries'' labels (IntValue dirtyCount),
                   gauge ''store_backing_store_latency_milliseconds'' labels (FloatValue 0 (of_int latencyMs)),
                   gauge ''store_hits_total'' labels (IntValue (sint (Hits st))),
                   gauge ''store_misses_total'' labels (IntValue (sint (Misses st))),
                   gauge ''store_sets_total'' labels (IntValue (sint (Sets st))),
                   gauge ''store_deletes_total'' labels (IntValue (sint (Deletes st))),
                   gauge ''store_evictions_total'' labels (IntValue (sint (Evictions st))),
                   gauge ''store_ttl_expiries_total'' labels (IntValue (sint (TTLExpiries st))),
                   gauge ''store_bytes_stored'' labels (IntValue (sint (BytesStored st))),
                   gauge ''store_write_store_ops_total'' labels (IntValue (sint (WriteStoreOps st))),
                   gauge ''store_read_store_ops_total'' labels (IntValue (sint (ReadStoreOps st)))])))"

definition metricsLines :: "'s ConfigurableStore \<Rightarrow> error option \<Rightarrow> instant \<Rightarrow> int \<Rightarrow> 's Handler \<Rightarrow> Metrics \<Rightarrow> metricLine list option" where
  "metricsLines B benchReady now alloc h m =
     map_option (\<lambda>stores. processLines benchReady (now - mtStartedAt m) alloc h m @ httpLines m @ storeHelp @ concat stores)
       (those (map (\<lambda>name. storeLines B name h) (sortBy bytesLess (map fst (hStores h)))))"

definition metricsHandler :: "(nat \<Rightarrow> real \<Rightarrow> string) \<Rightarrow> 's ConfigurableStore \<Rightarrow> error option \<Rightarrow> instant \<Rightarrow> int \<Rightarrow> 's Handler \<Rightarrow> Metrics \<Rightarrow>
    Response option" where
  "metricsHandler fmtFloat B benchReady now alloc h m =
     map_option (\<lambda>ls. \<lparr>rsStatus = 200, rsHeaders = [(''Content-Type'', ''text/plain; version=0.0.4; charset=utf-8'')],
         rsText = concat (map (\<lambda>l. renderLine fmtFloat l @ [CHR 0x0A]) ls)\<rparr>)
       (metricsLines B benchReady now alloc h m)"

section \<open>Event streams (sse.go)\<close>

record sseStatsPayload =
  ssStats :: StatsSnapshot
  ssSize :: int
  ssCapacity :: int
  ssWritePolicy :: string
  ssDirtyCount :: int

definition statsPayload :: "instant \<Rightarrow> string \<Rightarrow> 's Handler \<Rightarrow> sseStatsPayload option" where
  "statsPayload now storeName h =
     (case map_option entryCache (getStore storeName h) of
        Some (Some (e, c)) \<Rightarrow>
          Some \<lparr>ssStats = stats_Snapshot now (sc_Stats c), ssSize = sc_Len c, ssCapacity = sc_Capacity c,
            ssWritePolicy = seWritePolicy e, ssDirtyCount = (case sc_DirtyCount c of None \<Rightarrow> 0 | Some n \<Rightarrow> n)\<rparr>
      | _ \<Rightarrow> None)"

text \<open>The stream: what is sent at each tick until the client leaves, with the server as it is then; \<open>None\<close> is a panic.\<close>

definition ServeStatsSSE :: "bool \<Rightarrow> string \<Rightarrow> 's Handler \<Rightarrow> (instant \<times> 's Handler) list \<Rightarrow> (Response + sseStatsPayload list) option" where
  "ServeStatsSSE flushes storeName h ticks =
     (case getStore storeName h of
        None \<Rightarrow> Some (Inl (http_Error ''store not found'' 404))
      | Some entry \<Rightarrow>
          if \<not> flushes then Some (Inl (http_Error ''streaming not supported'' 500))
          else map_option Inr (those (map (\<lambda>(now, h). statsPayload now storeName h) ticks)))"

record ssePayload =
  spEvent :: string
  spKey :: key
  spFrom :: string
  spTimestamp :: instant

definition coherencePayload :: "instant \<Rightarrow> Event \<Rightarrow> ssePayload" where
  "coherencePayload now e =
     \<lparr>spEvent = (case evType e of EventUpdate \<Rightarrow> ''update'' | EventFlush \<Rightarrow> ''flush'' | EventInvalidate \<Rightarrow> ''invalidate''),
      spKey = evKey e, spFrom = evFrom e, spTimestamp = now\<rparr>"

definition sseClientID :: "instant \<Rightarrow> string" where
  "sseClientID now = ''sse-client-'' @ showInt now"

text \<open>The steps of a stream on the bus: joining, one receive (\<open>None\<close> when the channel was closed), and leaving\<close>

definition sse_join :: "instant \<Rightarrow> EventBus \<Rightarrow> string \<times> addr \<times> EventBus" where
  "sse_join now b = (let (ch, b) = bus_Subscribe (sseClientID now) b in (sseClientID now, ch, b))"

definition sse_receive :: "instant \<Rightarrow> addr \<Rightarrow> EventBus \<Rightarrow> (ssePayload option \<times> EventBus) option" where
  "sse_receive now ch b =
     (case chBuf (ebChans b ! ch) of
        e # es \<Rightarrow> Some (Some (coherencePayload now e), bus_receive ch b)
      | [] \<Rightarrow> if chClosed (ebChans b ! ch) then Some (None, b) else None)"

definition sse_leave :: "string \<Rightarrow> EventBus \<Rightarrow> EventBus option" where
  "sse_leave clientID b = bus_Unsubscribe clientID b"

section \<open>Tokens for the streams (auth.go)\<close>

datatype tokenResponse = TokenRefused apiResponse | TokenIssued int string instant

definition HandleSSEToken :: "(bytes \<Rightarrow> bytes \<Rightarrow> bytes) \<Rightarrow> instant \<Rightarrow> ServerConfig \<Rightarrow> tokenResponse" where
  "HandleSSEToken hmac now cfg =
     (case issueAccessToken hmac now cfg ''sse'' of
        Inl err \<Rightarrow> TokenRefused (writeError 503 ''TOKEN_ISSUE_ERROR'' (''issue sse token: '' @ err))
      | Inr (token, expiresAt) \<Rightarrow> TokenIssued 200 token expiresAt)"

section \<open>Every request is counted once\<close>

definition countedRequests :: "Metrics \<Rightarrow> int64" where
  "countedRequests m = sum_list (map (hvCount \<circ> snd) (mtHttpRequests m))"

lemma sum_update:
  fixes f :: "'v \<Rightarrow> 'a :: ab_group_add"
  shows "sum_list (map (f \<circ> snd) (AList.update k v m)) =
    sum_list (map (f \<circ> snd) m) + f v - (case map_of m k of None \<Rightarrow> 0 | Some w \<Rightarrow> f w)"
  by (induction m) (auto simp: algebra_simps split: option.splits)

lemma counted_record: "countedRequests (recordHTTPRequest method route status d m) = countedRequests m + 1"
  by (simp add: countedRequests_def recordHTTPRequest_def Let_def sum_update split: option.split)

lemma record_frame [simp]:
  "countedRequests (recordRateLimitRejection m) = countedRequests m" "countedRequests (recordAuthRejection m) = countedRequests m"
  "countedRequests (recordRecoveredPanic m) = countedRequests m"
  "mtPanicRecoveries (recordRateLimitRejection m) = mtPanicRecoveries m" "mtPanicRecoveries (recordAuthRejection m) = mtPanicRecoveries m"
  "mtPanicRecoveries (recordHTTPRequest method route status d m) = mtPanicRecoveries m"
  "mtPanicRecoveries (recordRecoveredPanic m) = mtPanicRecoveries m + 1"
  by (simp_all add: countedRequests_def recordRateLimitRejection_def recordAuthRejection_def recordRecoveredPanic_def recordHTTPRequest_def Let_def)

lemma guardedRoute_frame:
  assumes "guardedRoute allow hmac um now cfg handler r (s, m) = (out, s', m')"
  shows "countedRequests m' = countedRequests m \<and> mtPanicRecoveries m' = mtPanicRecoveries m"
  using assms by (auto simp: guardedRoute_def split: prod.splits option.splits)

definition untraced :: "observedRequest \<Rightarrow> bool" where
  "untraced q = (case requestTracing (orRand16 q) (orRand8 q) (orRequest q) of Inl resp \<Rightarrow> True | Inr x \<Rightarrow> False)"

text \<open>Requests one after another, each with its handler and its time\<close>

definition observe_all :: "'s limiter \<Rightarrow> (bytes \<Rightarrow> bytes \<Rightarrow> bytes) \<Rightarrow> (bytes \<Rightarrow> accessTokenClaims option) \<Rightarrow> ServerConfig \<Rightarrow>
    (instant \<times> (Request \<Rightarrow> Response option) \<times> observedRequest) list \<Rightarrow> 's \<times> Metrics \<Rightarrow> 's \<times> Metrics" where
  "observe_all allow hmac um cfg qs sm =
     foldl (\<lambda>sm (now, handler, q). snd (observe (guardedRoute allow hmac um now cfg handler) q sm)) sm qs"

lemma observe_counts:
  "(let (s', m') = snd (observe (guardedRoute allow hmac um now cfg handler) q (s, m))
    in countedRequests m' + mtPanicRecoveries m' = countedRequests m + mtPanicRecoveries m + (if untraced q then 0 else 1))"
proof (cases "requestTracing (orRand16 q) (orRand8 q) (orRequest q)")
  case (Inl resp)
  then show ?thesis by (simp add: observe_def untraced_def)
next
  case (Inr x)
  obtain out s1 m1 where g: "guardedRoute allow hmac um now cfg handler (orRequest q) (s, m) = (out, s1, m1)"
    by (cases "guardedRoute allow hmac um now cfg handler (orRequest q) (s, m)")
  obtain tid hs where x: "x = (tid, hs)" by (cases x)
  note f = guardedRoute_frame [OF g]
  show ?thesis
    using Inr g f by (cases out) (simp_all add: x observe_def untraced_def recoveryMiddleware_def metricsMiddleware_def Let_def counted_record)
qed

text \<open>
  Every request is accounted for exactly once, whatever the limiter, the checks and the handlers do: after any
  requests the counters by route and status and the counter of recovered panics together are the number of
  requests that were traced. A request whose handler panics is in none of the counters by route.
\<close>

theorem requests_counted:
  "(let (s', m') = observe_all allow hmac um cfg qs (s, newMetrics t)
    in countedRequests m' + mtPanicRecoveries m' = word_of_nat (length (filter (\<lambda>(now, handler, q). \<not> untraced q) qs)))"
proof -
  have "(let (s', m') = observe_all allow hmac um cfg qs (s, m)
      in countedRequests m' + mtPanicRecoveries m' =
        countedRequests m + mtPanicRecoveries m + word_of_nat (length (filter (\<lambda>(now, handler, q). \<not> untraced q) qs)))" for m
  proof (induction qs arbitrary: s m)
    case Nil
    then show ?case by (simp add: observe_all_def)
  next
    case (Cons x qs)
    obtain now handler q where x: "x = (now, handler, q)" by (cases x)
    obtain resp s1 m1 where s1: "observe (guardedRoute allow hmac um now cfg handler) q (s, m) = (resp, s1, m1)"
      by (cases "observe (guardedRoute allow hmac um now cfg handler) q (s, m)")
    note c = observe_counts [of allow hmac um now cfg handler q s m, unfolded s1]
    from Cons.IH [of s1 m1] c show ?case by (auto simp: observe_all_def x s1 Let_def split: prod.splits)
  qed
  from this [of "newMetrics t"] show ?thesis by (simp add: newMetrics_def countedRequests_def)
qed

section \<open>The text of the metrics\<close>

text \<open>A label's value as a reader of the exposition format takes it, up to the closing quote\<close>

fun labelBody :: "string \<Rightarrow> (string \<times> string) option" where
  "labelBody [] = None"
| "labelBody (c # s) =
     (if c = CHR 0x22 then Some ([], s)
      else if c = CHR 0x5C then
        (case s of
           [] \<Rightarrow> None
         | d # t \<Rightarrow> map_option (apfst (\<lambda>u. (if d = CHR ''n'' then CHR 0x0A else d) # u)) (labelBody t))
      else map_option (apfst (\<lambda>u. c # u)) (labelBody s))"

lemma labelBody_escaped: "labelBody (metricLabelValue v @ CHR 0x22 # rest) = Some (v, rest)"
  by (induction v) (auto simp: metricLabelValue_def Replace_def)

lemma label_no_newline: "CHR 0x0A \<notin> set (metricLabelValue v)"
  by (auto simp: metricLabelValue_def Replace_def split: if_splits)

definition free :: "string \<Rightarrow> bool" where
  "free s = (CHR 0x0A \<notin> set s)"

lemma free_simps [simp]: "free []" "free (s @ t) \<longleftrightarrow> free s \<and> free t" "free (c # s) \<longleftrightarrow> c \<noteq> CHR 0x0A \<and> free s"
  by (auto simp: free_def)

lemma free_showInt [simp]: "free (showInt i)"
  using showInt_chars [of "CHR 0x0A" i] by (auto simp: free_def isDigit_def)

lemma free_label [simp]: "free (metricLabelValue v)"
  using label_no_newline by (simp add: free_def)

lemma free_httpLabels [simp]: "free (httpLabels k)"
  by (simp add: httpLabels_def label_def)

lemma free_storeLabels [simp]: "free (storeLabels name e)"
  by (simp add: storeLabels_def label_def)

fun line_free :: "metricLine \<Rightarrow> bool" where
  "line_free (HelpLine n t) = (free n \<and> free t)"
| "line_free (TypeLine n t) = (free n \<and> free t)"
| "line_free (Sample n labels v) = (free n \<and> free labels)"

lemma renderLine_free:
  assumes "\<forall>n x. free (fmtFloat n x)" and "line_free l"
  shows "free (renderLine fmtFloat l)"
proof (cases l)
  case (Sample n labels v)
  with assms show ?thesis by (cases v) simp_all
qed (use assms in simp_all)

lemma describe_free: "free n \<Longrightarrow> free help \<Longrightarrow> free kind \<Longrightarrow> list_all line_free (describe n help kind)"
  by (simp add: describe_def metricName_def)

lemma processLines_free: "list_all line_free (processLines benchReady uptime alloc h m)"
  by (simp add: processLines_def describe_def metricName_def)

lemma storeHelp_free: "list_all line_free storeHelp"
  by (simp add: storeHelp_def describe_def metricName_def)

lemma httpLines_free: "list_all line_free (httpLines m)"
  by (auto simp: httpLines_def describe_def metricName_def Let_def list_all_iff)

lemma storeLines_free: "storeLines B name h = Some ls \<Longrightarrow> list_all line_free ls"
  by (auto simp: storeLines_def metricName_def Let_def split: option.splits)

lemma storeLines_total: "server_ok h \<Longrightarrow> storeLines B name h \<noteq> None"
  by (auto simp: storeLines_def Let_def split: option.splits dest!: server_entry)

lemma those_all_Some: "(\<And>x. x \<in> set xs \<Longrightarrow> f x \<noteq> None) \<Longrightarrow> \<exists>ys. those (map f xs) = Some ys \<and> (\<forall>y\<in>set ys. \<exists>x\<in>set xs. f x = Some y)"
proof (induction xs)
  case (Cons x xs)
  then obtain ys y where "those (map f xs) = Some ys" "\<forall>y\<in>set ys. \<exists>x\<in>set xs. f x = Some y" "f x = Some y" by force
  then show ?case by auto
qed simp

lemma Split_lines:
  "list_all free ls \<Longrightarrow> Split (CHR 0x0A) (concat (map (\<lambda>l. l @ [CHR 0x0A]) ls)) = ls @ [[]]"
  by (induction ls) (simp_all add: free_def)

text \<open>
  C26: The page of metrics is what was meant line by line: on a well-formed server the handler answers, and
  cutting the page at the line ends gives back exactly the lines written, so that no name of a store, method or
  path, which clients choose, can start a line of its own; each label's value is read back
  unchanged. (Numbers are printed without line ends.)
\<close>

theorem metrics_page_lines:
  assumes "server_ok h" and "\<forall>n x. CHR 0x0A \<notin> set (fmtFloat n x)"
  shows "(\<exists>ls resp. metricsLines B benchReady now alloc h m = Some ls \<and> metricsHandler fmtFloat B benchReady now alloc h m = Some resp \<and>
      Split (CHR 0x0A) (rsText resp) = map (renderLine fmtFloat) ls @ [[]]) \<and>
    labelBody (metricLabelValue v @ CHR 0x22 # rest) = Some (v, rest)"
proof -
  let ?names = "sortBy bytesLess (map fst (hStores h))"
  obtain stores where s: "those (map (\<lambda>name. storeLines B name h) ?names) = Some stores"
      "\<forall>ls\<in>set stores. \<exists>name\<in>set ?names. storeLines B name h = Some ls"
    using those_all_Some [of ?names "\<lambda>name. storeLines B name h"] storeLines_total [OF assms(1)] by blast
  have "\<forall>ls\<in>set stores. list_all line_free ls" using s(2) storeLines_free by blast
  then have fs: "list_all line_free (concat stores)" by (simp add: list_all_iff)
  let ?ls = "processLines benchReady (now - mtStartedAt m) alloc h m @ httpLines m @ storeHelp @ concat stores"
  have "list_all line_free ?ls" using fs processLines_free storeHelp_free httpLines_free by simp
  then have "list_all free (map (renderLine fmtFloat) ?ls)"
    using renderLine_free [of fmtFloat] assms(2) by (auto simp: list_all_iff free_def)
  from Split_lines [OF this] have "Split (CHR 0x0A) (concat (map (\<lambda>l. renderLine fmtFloat l @ [CHR 0x0A]) ?ls)) = map (renderLine fmtFloat) ?ls @ [[]]"
    by (simp only: map_map comp_def)
  then show ?thesis using s(1) labelBody_escaped by (simp add: metricsHandler_def metricsLines_def)
qed

lemma metrics_page_lines_witness:
  "(\<exists>ls resp. metricsLines (memory_configurable None) None 5 7 demo_server (newMetrics 0) = Some ls \<and>
      metricsHandler (\<lambda>n x. ''1.5'') (memory_configurable None) None 5 7 demo_server (newMetrics 0) = Some resp \<and>
      Split (CHR 0x0A) (rsText resp) = map (renderLine (\<lambda>n x. ''1.5'')) ls @ [[]]) \<and>
    labelBody (metricLabelValue [CHR 0x22, CHR 0x0A] @ CHR 0x22 # ''x'') = Some ([CHR 0x22, CHR 0x0A], ''x'')"
  by (rule metrics_page_lines [OF demo_server_ok]) simp

section \<open>Trace identifiers\<close>

lemma hexVal_char: "hexVal c \<noteq> None \<Longrightarrow> c \<noteq> CHR ''-'' \<and> \<not> isSpace c"
  by (auto simp: hexVal_def isSpace_def Let_def split: if_splits)

lemma hex_Decode_chars: "hex_Decode s = Some v \<Longrightarrow> list_all (\<lambda>c. hexVal c \<noteq> None) s"
  by (induction s arbitrary: v rule: hex_Decode.induct) (auto split: option.splits)

lemma hex_Decode_total: "list_all (\<lambda>c. hexVal c \<noteq> None) s \<Longrightarrow> even (length s) \<Longrightarrow> hex_Decode s \<noteq> None"
  by (induction s rule: hex_Decode.induct) (auto split: option.splits)

lemma hexChar_val: "n < 16 \<Longrightarrow> hexVal (hexChar n) \<noteq> None \<and> lowerChar (hexChar n) = hexChar n"
proof -
  have "list_all (\<lambda>n. hexVal (hexChar n) \<noteq> None \<and> lowerChar (hexChar n) = hexChar n) [0..<16]" by code_simp
  then show "n < 16 \<Longrightarrow> hexVal (hexChar n) \<noteq> None \<and> lowerChar (hexChar n) = hexChar n" by (simp add: list_all_iff)
qed

lemma hex_Encode_ok: "length (hex_Encode v) = 2 * length v \<and> list_all (\<lambda>c. hexVal c \<noteq> None) (hex_Encode v) \<and> ToLower (hex_Encode v) = hex_Encode v"
proof (induction v)
  case (Cons b v)
  have "unat b < 256" by (rule byte_less)
  then have "unat b div 16 < 16" "unat b mod 16 < 16" by simp_all
  with Cons hexChar_val show ?case by (simp add: hex_Encode_def ToLower_def)
qed (simp add: hex_Encode_def ToLower_def)

lemma lowerChar_idem: "lowerChar (lowerChar c) = lowerChar c"
proof -
  have "of_char (lowerChar c) \<noteq> (n :: nat)" if "65 \<le> n" "n \<le> 90" for n
    using that by (auto simp: lowerChar_def Let_def)
  then show ?thesis by (metis lowerChar_def)
qed

text \<open>The identifiers that are used\<close>

lemma parseTraceID_ok:
  assumes "parseTraceID t \<noteq> []"
  shows "length (parseTraceID t) = 32 \<and> list_all (\<lambda>c. hexVal c \<noteq> None) (parseTraceID t) \<and> ToLower (parseTraceID t) = parseTraceID t"
  using assms hex_Decode_chars
  by (auto simp: parseTraceID_def Let_def ToLower_def lowerChar_idem split: if_splits option.splits)

lemma parse_own:
  assumes t: "length t = 32" "list_all (\<lambda>c. hexVal c \<noteq> None) t" "ToLower t = t" and u: "list_all (\<lambda>c. hexVal c \<noteq> None) u"
  shows "parseTraceID (''00-'' @ t @ ''-'' @ u @ ''-01'') = t"
proof -
  let ?p = "''00-'' @ t @ ''-'' @ u @ ''-01''"
  have nd: "CHR ''-'' \<notin> set t" "CHR ''-'' \<notin> set u" using t(2) u hexVal_char by (auto simp: list_all_iff)
  have "TrimSpace ?p = ?p" by (rule TrimSpace_id) (simp add: isSpace_def)
  moreover have "Split (CHR ''-'') ?p = [''00'', t, u, ''01'']"
    using Split_append [of "CHR ''-''" "''00''" "t @ CHR ''-'' # u @ ''-01''"] Split_append [OF nd(1), of "u @ ''-01''"]
      Split_append [OF nd(2), of "''01''"] by simp
  moreover obtain v where "hex_Decode t = Some v" using hex_Decode_total [OF t(2)] t(1) by auto
  ultimately show ?thesis using t(1,3) by (simp add: parseTraceID_def)
qed

lemma randomHex_Some: "randomHex (Some v) = hex_Encode v"
  by (simp add: randomHex_def)

text \<open>
  The trace context that the server sets is one that it reads itself: the identifier of the response, 32
  hexadecimal digits, is that of the request when the request has a valid one, and reading the header of the response
  gives it back.
\<close>

theorem trace_roundtrip:
  assumes "length a = 16" and "length b = 8"
  shows "case requestTracing (Some a) (Some b) r of
      Inl resp \<Rightarrow> False
    | Inr (traceID, headers) \<Rightarrow> length traceID = 32 \<and> map_of headers ''X-Trace-Id'' = Some traceID \<and>
        map_option parseTraceID (map_of headers ''Traceparent'') = Some traceID \<and>
        traceID = (if parseTraceID (rqHeader r ''Traceparent'') = [] then hex_Encode a else parseTraceID (rqHeader r ''Traceparent''))"
proof -
  let ?t = "if parseTraceID (rqHeader r ''Traceparent'') = [] then hex_Encode a else parseTraceID (rqHeader r ''Traceparent'')"
  have t: "length ?t = 32" "list_all (\<lambda>c. hexVal c \<noteq> None) ?t" "ToLower ?t = ?t"
    using hex_Encode_ok [of a] parseTraceID_ok assms(1) by auto
  have u: "list_all (\<lambda>c. hexVal c \<noteq> None) (hex_Encode b)" "hex_Encode b \<noteq> []" using hex_Encode_ok [of b] assms(2) by auto
  have "?t \<noteq> []" using t(1) by (metis length_0_conv zero_neq_numeral)
  then have "requestTracing (Some a) (Some b) r =
      Inr (?t, [(''Traceparent'', ''00-'' @ ?t @ ''-'' @ hex_Encode b @ ''-01''), (''X-Trace-Id'', ?t)])"
    using u(2) by (cases "parseTraceID (rqHeader r ''Traceparent'') = []") (simp_all add: requestTracing_def randomHex_Some Let_def)
  then show ?thesis using t(1) parse_own [OF t u(1)] by (simp split del: if_split)
qed

definition demo_traced :: Request where
  "demo_traced = \<lparr>rqMethod = ''GET'', rqPath = ''/healthz'', rqHeader = (\<lambda>n. if n = ''Traceparent''
       then ''00-0AF7651916CD43DD8448EB211C80319C-B7AD6B7169203331-01'' else []), rqQuery = (\<lambda>n. []), rqRemoteAddr = ''10.0.0.1:80''\<rparr>"

lemma trace_roundtrip_witness:
  "case requestTracing (Some (replicate 16 0)) (Some (replicate 8 7)) demo_traced of
      Inl resp \<Rightarrow> False
    | Inr (traceID, headers) \<Rightarrow> traceID = ''0af7651916cd43dd8448eb211c80319c''"
proof -
  have "parseTraceID (rqHeader demo_traced ''Traceparent'') = ''0af7651916cd43dd8448eb211c80319c''" by code_simp
  then show ?thesis using trace_roundtrip [of "replicate 16 0" "replicate 8 7" demo_traced] by (simp split: sum.splits prod.splits)
qed

end
