(* ===== verification/API_Server.thy ===== *)
theory API_Server
  imports Observability Benchmark_Jobs
begin

text \<open>
  The server of api/server.go: the table of routes, the middleware around each of them as functions from
  handlers to handlers, and \<open>ServeHTTP\<close> as one step on the server's state. chi is not part of the repository:
  which of the registered routes it finds for a request, its parameters and the pattern it reports are
  arguments, and so is the identifier that its \<open>RequestID\<close> middleware leaves in the request's context.
\<close>

section \<open>Routes\<close>

text \<open>The methods of \<open>Handler\<close>, and \<open>metricsHandler\<close>, by name\<close>

datatype handlerName =
    HealthH | ReadyH | MetricsH | SSETokenH
  | GetH | SetH | DeleteH | PeekH | StatsH | SnapshotH | PurgeH | ConfigH
  | CoherenceSetH | CoherenceNodesH
  | BenchmarkRunH | BenchmarkResultsH | BenchmarkResultH
  | StatsSSEH | CoherenceSSEH

datatype middleware = RequestIDMW | TracingMW | RecoveryMW | LoggingMW | MetricsMW | RateLimitMW | CORSMW | APIKeyMW

record Route =
  rtMethod :: string
  rtPattern :: string
  rtUses :: "middleware list"
  rtHandler :: handlerName

definition chi_Method :: "string \<Rightarrow> string \<Rightarrow> handlerName \<Rightarrow> Route list" where
  "chi_Method method pattern h = [\<lparr>rtMethod = method, rtPattern = pattern, rtUses = [], rtHandler = h\<rparr>]"

definition chi_Route :: "string \<Rightarrow> Route list \<Rightarrow> Route list" where
  "chi_Route prefix rs = map (\<lambda>r. r\<lparr>rtPattern := prefix @ rtPattern r\<rparr>) rs"

definition chi_Use :: "middleware list \<Rightarrow> Route list \<Rightarrow> Route list" where
  "chi_Use ms rs = map (\<lambda>r. r\<lparr>rtUses := ms @ rtUses r\<rparr>) rs"

definition cacheRoutes :: "Route list" where
  "cacheRoutes = chi_Route ''/cache/{store}''
     (chi_Method ''GET'' ''/{key}'' GetH @ chi_Method ''PUT'' ''/{key}'' SetH @ chi_Method ''DELETE'' ''/{key}'' DeleteH @
      chi_Method ''GET'' ''/peek/{key}'' PeekH @ chi_Method ''GET'' ''/stats'' StatsH @ chi_Method ''GET'' ''/snapshot'' SnapshotH @
      chi_Method ''DELETE'' ''/purge'' PurgeH @ chi_Method ''POST'' ''/config'' ConfigH)"

definition apiRoutes :: "Route list" where
  "apiRoutes = chi_Route ''/api''
     (chi_Method ''POST'' ''/auth/sse-token'' SSETokenH @ cacheRoutes @
      chi_Method ''POST'' ''/coherence/set'' CoherenceSetH @ chi_Method ''GET'' ''/coherence/nodes'' CoherenceNodesH @
      chi_Method ''POST'' ''/benchmark/run'' BenchmarkRunH @ chi_Method ''GET'' ''/benchmark/results'' BenchmarkResultsH @
      chi_Method ''GET'' ''/benchmark/results/{jobID}'' BenchmarkResultH @
      chi_Method ''GET'' ''/sse/stats/{store}'' StatsSSEH @ chi_Method ''GET'' ''/sse/coherence'' CoherenceSSEH)"

definition rootUses :: "middleware list" where
  "rootUses = [RequestIDMW, TracingMW, RecoveryMW, LoggingMW, MetricsMW]"

definition groupUses :: "ServerConfig \<Rightarrow> middleware list" where
  "groupUses cfg = [RateLimitMW, CORSMW] @ (if requiresAPIKey cfg then [APIKeyMW] else [])"

definition serverRoutes :: "ServerConfig \<Rightarrow> Route list" where
  "serverRoutes cfg = chi_Use rootUses
     (chi_Method ''GET'' ''/healthz'' HealthH @ chi_Method ''GET'' ''/readyz'' ReadyH @
      chi_Use (groupUses cfg) (chi_Method ''GET'' ''/metrics'' MetricsH @ apiRoutes))"

section \<open>The world of a request\<close>

text \<open>A line of the request log, and what the middleware changes; \<open>wdHeader\<close> and \<open>wdTraceID\<close> belong to the request.\<close>

record logEntry =
  leMethod :: string
  lePath :: string
  leRoute :: string
  leStatus :: int
  leRequestID :: string
  leTraceID :: string
  leRemoteAddr :: string
  leDuration :: duration

record ('l, 'a) World =
  wdLimiter :: 'l
  wdMetrics :: Metrics
  wdLog :: "logEntry list"
  wdApp :: 'a
  wdHeader :: "(string \<times> string) list"
  wdTraceID :: string

type_synonym ('l, 'a) httpHandler = "Request \<Rightarrow> ('l, 'a) World \<Rightarrow> Response option \<times> ('l, 'a) World"

text \<open>
  What a request meets: the pattern is the one of \<open>observedRequest\<close>, \<open>exNow\<close> the time at which the API key
  is checked, and the limiter is the one of \<open>rateLimitMiddleware\<close> at that time.
\<close>

record 'l exchange = observedRequest +
  exRequestID :: string
  exLogDuration :: duration
  exNow :: instant
  exLimiter :: "'l limiter"

record authority =
  auHMAC :: "bytes \<Rightarrow> bytes \<Rightarrow> bytes"
  auClaims :: "bytes \<Rightarrow> accessTokenClaims option"
  auConfig :: ServerConfig

section \<open>The middleware\<close>

text \<open>\<open>None\<close> is a panic, which unwinds to the recovery.\<close>

definition tracingMW :: "('l, 'x) exchange_scheme \<Rightarrow> ('l, 'a) httpHandler \<Rightarrow> ('l, 'a) httpHandler" where
  "tracingMW q next r w =
     (case requestTracing (orRand16 q) (orRand8 q) r of
        Inl resp \<Rightarrow> (Some resp, w)
      | Inr (traceID, headers) \<Rightarrow> next r (w\<lparr>wdHeader := wdHeader w @ headers, wdTraceID := traceID\<rparr>))"

definition recoveryMW :: "('l, 'a) httpHandler \<Rightarrow> ('l, 'a) httpHandler" where
  "recoveryMW next r w =
     (case next r w of
        (out, w) \<Rightarrow> (case recoveryMiddleware (out, wdMetrics w) of (resp, m) \<Rightarrow> (Some resp, w\<lparr>wdMetrics := m\<rparr>)))"

definition logLine :: "('l, 'x) exchange_scheme \<Rightarrow> Request \<Rightarrow> string \<Rightarrow> int \<Rightarrow> logEntry" where
  "logLine q r traceID status =
     \<lparr>leMethod = mw_sanitizeLogValue (rqMethod r), lePath = sanitizeURLPath (Some (rqPath r)),
      leRoute = routePattern (orPattern q) (Some (rqPath r)), leStatus = status, leRequestID = exRequestID q,
      leTraceID = traceID, leRemoteAddr = mw_sanitizeLogValue (clientAddress r), leDuration = exLogDuration q\<rparr>"

definition loggingMW :: "('l, 'x) exchange_scheme \<Rightarrow> ('l, 'a) httpHandler \<Rightarrow> ('l, 'a) httpHandler" where
  "loggingMW q next r w =
     (case next r w of
        (None, w) \<Rightarrow> (None, w)
      | (Some resp, w) \<Rightarrow> (Some resp, w\<lparr>wdLog := wdLog w @ [logLine q r (wdTraceID w) (rsStatus resp)]\<rparr>))"

definition metricsMW :: "('l, 'x) exchange_scheme \<Rightarrow> ('l, 'a) httpHandler \<Rightarrow> ('l, 'a) httpHandler" where
  "metricsMW q next r w =
     (case next r w of
        (out, w) \<Rightarrow>
          (case metricsMiddleware (rqMethod r) (routePattern (orPattern q) (Some (rqPath r))) (orDuration q) (out, wdMetrics w) of
             (out, m) \<Rightarrow> (out, w\<lparr>wdMetrics := m\<rparr>)))"

definition rateLimitMW :: "('l, 'x) exchange_scheme \<Rightarrow> ServerConfig \<Rightarrow> ('l, 'a) httpHandler \<Rightarrow> ('l, 'a) httpHandler" where
  "rateLimitMW q cfg next r w =
     (case rateLimitMiddleware (exLimiter q) cfg r (wdLimiter w) of
        (Some resp, l) \<Rightarrow>
          (Some resp, w\<lparr>wdLimiter := l,
             wdMetrics := (if rsStatus resp = 429 then recordRateLimitRejection (wdMetrics w) else wdMetrics w)\<rparr>)
      | (None, l) \<Rightarrow> next r (w\<lparr>wdLimiter := l\<rparr>))"

definition corsMW :: "ServerConfig \<Rightarrow> ('l, 'a) httpHandler \<Rightarrow> ('l, 'a) httpHandler" where
  "corsMW cfg next r w =
     (let w = w\<lparr>wdHeader := wdHeader w @ corsHeaders cfg r\<rparr>
      in case corsMiddleware cfg r of
           Some resp \<Rightarrow> (Some (resp\<lparr>rsHeaders := []\<rparr>), w)
         | None \<Rightarrow> next r w)"

definition apiKeyMW :: "('l, 'x) exchange_scheme \<Rightarrow> authority \<Rightarrow> ('l, 'a) httpHandler \<Rightarrow> ('l, 'a) httpHandler" where
  "apiKeyMW q au next r w =
     (case apiKeyMiddleware (auHMAC au) (auClaims au) (exNow q) (auConfig au) r of
        Some resp \<Rightarrow> (Some resp, w\<lparr>wdMetrics := recordAuthRejection (wdMetrics w)\<rparr>)
      | None \<Rightarrow> next r w)"

text \<open>\<open>RequestID\<close> is chi's; what it leaves in the context is \<open>exRequestID\<close>.\<close>

fun useMW :: "('l, 'x) exchange_scheme \<Rightarrow> authority \<Rightarrow> middleware \<Rightarrow> ('l, 'a) httpHandler \<Rightarrow> ('l, 'a) httpHandler" where
  "useMW q au RequestIDMW next = next"
| "useMW q au TracingMW next = tracingMW q next"
| "useMW q au RecoveryMW next = recoveryMW next"
| "useMW q au LoggingMW next = loggingMW q next"
| "useMW q au MetricsMW next = metricsMW q next"
| "useMW q au RateLimitMW next = rateLimitMW q (auConfig au) next"
| "useMW q au CORSMW next = corsMW (auConfig au) next"
| "useMW q au APIKeyMW next = apiKeyMW q au next"

definition useAll :: "('l, 'x) exchange_scheme \<Rightarrow> authority \<Rightarrow> middleware list \<Rightarrow> ('l, 'a) httpHandler \<Rightarrow> ('l, 'a) httpHandler" where
  "useAll q au ms next = foldr (useMW q au) ms next"

section \<open>The server\<close>

record Server =
  svAuthority :: authority
  svRoutes :: "Route list"

definition NewServer :: "(bytes \<Rightarrow> bytes \<Rightarrow> bytes) \<Rightarrow> (bytes \<Rightarrow> accessTokenClaims option) \<Rightarrow> ServerConfig \<Rightarrow> error + Server" where
  "NewServer hmac claims cfg =
     (case cfg_Validate cfg of
        Some e \<Rightarrow> Inl e
      | None \<Rightarrow> Inr \<lparr>svAuthority = \<lparr>auHMAC = hmac, auClaims = claims, auConfig = cfg\<rparr>, svRoutes = serverRoutes cfg\<rparr>)"

text \<open>
  What chi makes of a request: a registered route with its parameters, or an answer of its own, which the
  middleware of the root surrounds, and that of the group too when the path is below the mount \<open>/api\<close>.
\<close>

datatype chiMatch = Routed Route "string \<Rightarrow> string" | NotRouted Response | NotMounted Response

text \<open>The handlers proper: they read the counters and change the application only.\<close>

type_synonym 'a endpoints = "handlerName \<Rightarrow> (string \<Rightarrow> string) \<Rightarrow> Request \<Rightarrow> Metrics \<Rightarrow> 'a \<Rightarrow> Response option \<times> 'a"

definition runEndpoint :: "(Request \<Rightarrow> Metrics \<Rightarrow> 'a \<Rightarrow> Response option \<times> 'a) \<Rightarrow> ('l, 'a) httpHandler" where
  "runEndpoint f r w = (case f r (wdMetrics w) (wdApp w) of (out, a) \<Rightarrow> (out, w\<lparr>wdApp := a\<rparr>))"

definition chi_serve :: "('l, 'x) exchange_scheme \<Rightarrow> Server \<Rightarrow> 'a endpoints \<Rightarrow> chiMatch \<Rightarrow> ('l, 'a) httpHandler" where
  "chi_serve q sv run match =
     (case match of
        Routed rt ps \<Rightarrow> useAll q (svAuthority sv) (rtUses rt) (runEndpoint (run (rtHandler rt) ps))
      | NotRouted resp \<Rightarrow> useAll q (svAuthority sv) rootUses (\<lambda>r w. (Some resp, w))
      | NotMounted resp \<Rightarrow>
          useAll q (svAuthority sv) (rootUses @ groupUses (auConfig (svAuthority sv))) (\<lambda>r w. (Some resp, w)))"

text \<open>The response as it is sent, \<open>None\<close> when a panic reaches net/http.\<close>

definition ServeHTTP :: "('l, 'x) exchange_scheme \<Rightarrow> Server \<Rightarrow> 'a endpoints \<Rightarrow> chiMatch \<Rightarrow> ('l, 'a) World \<Rightarrow>
    Response option \<times> ('l, 'a) World" where
  "ServeHTTP q sv run match w =
     (case chi_serve q sv run match (orRequest q) (w\<lparr>wdHeader := [], wdTraceID := []\<rparr>) of
        (out, w) \<Rightarrow> (map_option (\<lambda>resp. resp\<lparr>rsHeaders := wdHeader w @ rsHeaders resp\<rparr>) out, w))"

section \<open>The handlers of the application\<close>

record ('s, 'r) App =
  apHandler :: "'s Handler"
  apBench :: "'r BenchState"

text \<open>
  What the handlers of one request meet outside: the store under the request's context, the clock, the state
  of the directory of the results, the memory in use, the bodies as the JSON decoder gives them, the failures
  of a save, the ticks of a stream with the server at each of them, and the encoders of the responses.
\<close>

record ('s, 'r) outside =
  otStore :: "'s ConfigurableStore"
  otEnvelope :: "bytes \<Rightarrow> ttlEnvelope option"
  otClock :: "nat \<Rightarrow> instant"
  otDir :: "error option"
  otAlloc :: int
  otPut :: "(error + PutRequest) \<times> jsonNext"
  otConfig :: "(error + ConfigRequest) \<times> jsonNext"
  otCoherence :: "(error + CoherenceSetRequest) \<times> jsonNext"
  otBench :: "(error + BenchmarkRunRequest) \<times> jsonNext"
  otSave :: "saveFailure option"
  otJunk :: "'r BenchmarkJob list option"
  otFlushes :: bool
  otTicks :: "(instant \<times> 's Handler) list"
  otBody :: "apiBody \<Rightarrow> string"
  otJob :: "'r BenchmarkJob \<Rightarrow> string"
  otJobs :: "'r BenchmarkJob list \<Rightarrow> string"
  otToken :: "string \<Rightarrow> instant \<Rightarrow> string"
  otStats :: "sseStatsPayload \<Rightarrow> string"
  otFloat :: "nat \<Rightarrow> real \<Rightarrow> string"

definition sendJSON :: "int \<Rightarrow> string \<Rightarrow> Response" where
  "sendJSON status text = \<lparr>rsStatus = status, rsHeaders = [(''Content-Type'', ''application/json'')], rsText = text @ [CHR 0x0A]\<rparr>"

definition sendAPI :: "('s, 'r) outside \<Rightarrow> apiResponse \<Rightarrow> Response" where
  "sendAPI ot resp = sendJSON (arStatus resp) (otBody ot (arBody resp))"

fun sendBench :: "('s, 'r) outside \<Rightarrow> 'r benchResponse \<Rightarrow> Response" where
  "sendBench ot (BenchError resp) = sendAPI ot resp"
| "sendBench ot (BenchJob status job) = sendJSON status (otJob ot job)"
| "sendBench ot (BenchJobs status jobs) = sendJSON status (otJobs ot jobs)"

fun sendToken :: "('s, 'r) outside \<Rightarrow> tokenResponse \<Rightarrow> Response" where
  "sendToken ot (TokenRefused resp) = sendAPI ot resp"
| "sendToken ot (TokenIssued status token expiresAt) = sendJSON status (otToken ot token expiresAt)"

definition streamHeaders :: "(string \<times> string) list" where
  "streamHeaders = [(''Content-Type'', ''text/event-stream''), (''Cache-Control'', ''no-cache''),
     (''Connection'', ''keep-alive''), (''X-Accel-Buffering'', ''no'')]"

definition sendStream :: "string list \<Rightarrow> Response" where
  "sendStream datas = \<lparr>rsStatus = 200, rsHeaders = streamHeaders, rsText = concat (map (\<lambda>d. ''data: '' @ d @ [CHR 0x0A, CHR 0x0A]) datas)\<rparr>"

text \<open>The flags of the benchmarks are those of the job store.\<close>

definition servedHandler :: "('s, 'r) App \<Rightarrow> 's Handler" where
  "servedHandler a = (apHandler a)\<lparr>hBenchActive := bsActive (apBench a), hBenchBacked := bsStored (apBench a)\<rparr>"

fun requestOf :: "('s, 'r) outside \<Rightarrow> handlerName \<Rightarrow> (string \<Rightarrow> string) \<Rightarrow> apiRequest option" where
  "requestOf ot GetH ps = Some (GetReq (ps ''store'') (ps ''key''))"
| "requestOf ot PeekH ps = Some (PeekReq (ps ''store'') (ps ''key''))"
| "requestOf ot SetH ps = Some (SetReq (ps ''store'') (ps ''key'') (otPut ot))"
| "requestOf ot DeleteH ps = Some (DeleteReq (ps ''store'') (ps ''key''))"
| "requestOf ot StatsH ps = Some (StatsReq (ps ''store''))"
| "requestOf ot ConfigH ps = Some (ConfigReq (ps ''store'') (otConfig ot))"
| "requestOf ot SnapshotH ps = Some (SnapshotReq (ps ''store''))"
| "requestOf ot PurgeH ps = Some (PurgeReq (ps ''store''))"
| "requestOf ot CoherenceSetH ps = Some (CoherenceSetReq (otCoherence ot))"
| "requestOf ot CoherenceNodesH ps = Some CoherenceNodesReq"
| "requestOf ot HealthH ps = Some HealthReq"
| "requestOf ot ReadyH ps = Some (ReadyReq (otDir ot))"
| "requestOf ot h ps = None"

text \<open>
  A coherence stream that joins the bus and leaves it again; the events that arrive in between belong to the
  interleavings of the coordinator.
\<close>

definition ServeCoherenceSSE :: "bool \<Rightarrow> instant \<Rightarrow> 's Handler \<Rightarrow> (Response \<times> 's Handler) option" where
  "ServeCoherenceSSE flushes now h =
     (if \<not> flushes then Some ((http_Error ''streaming not supported'' 500)\<lparr>rsHeaders := streamHeaders\<rparr>, h)
      else
        (case hCoordinator h of
           None \<Rightarrow> None
         | Some co \<Rightarrow>
             (case sse_join now (coBus co) of
                (clientID, ch, b) \<Rightarrow>
                  (case sse_leave clientID b of
                     None \<Rightarrow> None
                   | Some b \<Rightarrow> Some (sendStream [], h\<lparr>hCoordinator := Some (co\<lparr>coBus := b\<rparr>)\<rparr>)))))"

text \<open>Of a handler that panics only the panic is modelled: it leaves the application as it was.\<close>

definition appHandle :: "('s, 'r) outside \<Rightarrow> authority \<Rightarrow> ('s, 'r) App endpoints" where
  "appHandle ot au h ps r m a =
     (case requestOf ot h ps of
        Some rq \<Rightarrow>
          (case serve (otStore ot) (otEnvelope ot) (otClock ot) rq (servedHandler a) of
             None \<Rightarrow> (None, a)
           | Some (resp, h) \<Rightarrow> (Some (sendAPI ot resp), a\<lparr>apHandler := h\<rparr>))
      | None \<Rightarrow>
          (case h of
             MetricsH \<Rightarrow> (metricsHandler (otFloat ot) (otStore ot) (otDir ot) (otClock ot 0) (otAlloc ot) (servedHandler a) m, a)
           | SSETokenH \<Rightarrow> (Some (sendToken ot (HandleSSEToken (auHMAC au) (otClock ot 0) (auConfig au))), a)
           | BenchmarkRunH \<Rightarrow>
               (case HandleBenchmarkRun (otSave ot) (otJunk ot) (otClock ot 0) (otClock ot 1) (otBench ot) (apBench a) of
                  (resp, s) \<Rightarrow> (Some (sendBench ot resp), a\<lparr>apBench := s\<rparr>))
           | BenchmarkResultsH \<Rightarrow> (Some (sendBench ot (HandleBenchmarkResults (apBench a))), a)
           | BenchmarkResultH \<Rightarrow> (Some (sendBench ot (HandleBenchmarkResult (ps ''jobID'') (apBench a))), a)
           | StatsSSEH \<Rightarrow>
               (case ServeStatsSSE (otFlushes ot) (ps ''store'') (servedHandler a) (otTicks ot) of
                  None \<Rightarrow> (None, a)
                | Some (Inl resp) \<Rightarrow> (Some resp, a)
                | Some (Inr payloads) \<Rightarrow> (Some (sendStream (map (otStats ot) payloads)), a))
           | CoherenceSSEH \<Rightarrow>
               (case ServeCoherenceSSE (otFlushes ot) (otClock ot 0) (servedHandler a) of
                  None \<Rightarrow> (None, a)
                | Some (resp, h) \<Rightarrow> (Some resp, a\<lparr>apHandler := h\<rparr>))
           | _ \<Rightarrow> (None, a)))"

section \<open>Lemmas on the chain\<close>

lemma useAll_simps [simp]: "useAll q au [] next = next" "useAll q au (m # ms) next = useMW q au m (useAll q au ms next)"
  by (simp_all add: useAll_def)

lemma useAll_append [simp]: "useAll q au (ms @ ns) next = useAll q au ms (useAll q au ns next)"
  by (simp add: useAll_def)

lemmas mw_defs = tracingMW_def recoveryMW_def loggingMW_def metricsMW_def rateLimitMW_def corsMW_def apiKeyMW_def

text \<open>A middleware passes the request on unchanged, so it depends on the next handler at this request only.\<close>

lemma useMW_cong: "(\<And>w. next r w = next' r w) \<Longrightarrow> useMW q au m next r w = useMW q au m next' r w"
  by (cases m) (simp_all add: mw_defs Let_def split: sum.split prod.split option.split)

lemma useAll_cong: "(\<And>w. next r w = next' r w) \<Longrightarrow> useAll q au ms next r w = useAll q au ms next' r w"
proof (induction ms arbitrary: w)
  case (Cons m ms)
  have "useAll q au ms next r v = useAll q au ms next' r v" for v using Cons by blast
  then show ?case unfolding useAll_simps by (rule useMW_cong)
qed simp

lemma useMW_app:
  assumes "\<And>w. wdApp (snd (next r w)) = wdApp w"
  shows "wdApp (snd (useMW q au m next r w)) = wdApp w"
proof -
  have "wdApp y = wdApp w" if "next r w = (x, y)" for w x y using assms [of w] that by simp
  then show ?thesis using assms
    by (cases m) (auto simp: mw_defs Let_def split: sum.split prod.split option.split)
qed

lemma useAll_app:
  assumes "\<And>w. wdApp (snd (next r w)) = wdApp w"
  shows "wdApp (snd (useAll q au ms next r w)) = wdApp w"
proof (induction ms arbitrary: w)
  case (Cons m ms)
  then have "wdApp (snd (useAll q au ms next r v)) = wdApp v" for v by blast
  then show ?case unfolding useAll_simps by (rule useMW_app)
qed (simp add: assms)

lemma guard_blocks:
  assumes "protect (auHMAC au) (auClaims au) (exNow q) (auConfig au) r \<noteq> None"
  shows "useAll q au (groupUses (auConfig au)) next r w = useAll q au (groupUses (auConfig au)) next' r w"
    and "wdApp (snd (useAll q au (groupUses (auConfig au)) next r w)) = wdApp w"
  using assms by (auto simp: groupUses_def protect_def mw_defs Let_def split: option.splits prod.splits if_splits)

lemma serverRoutes_uses:
  "rt \<in> set (serverRoutes cfg) \<Longrightarrow>
   rtUses rt = rootUses @ (if rtHandler rt = HealthH \<or> rtHandler rt = ReadyH then [] else groupUses cfg)"
  by (auto simp: serverRoutes_def apiRoutes_def cacheRoutes_def chi_Use_def chi_Route_def chi_Method_def)

section \<open>Every request is counted and logged once\<close>

definition accounts :: "('l, 'a) World \<Rightarrow> int64" where
  "accounts w = countedRequests (wdMetrics w) + mtPanicRecoveries (wdMetrics w)"

definition logged :: "('l, 'a) World \<Rightarrow> int64" where
  "logged w = word_of_nat (length (wdLog w)) + mtPanicRecoveries (wdMetrics w)"

text \<open>What is inside the root's middleware leaves the counters of requests, of panics and the log alone.\<close>

definition quiet :: "('l, 'a) httpHandler \<Rightarrow> bool" where
  "quiet f \<longleftrightarrow> (\<forall>r w out w'. f r w = (out, w') \<longrightarrow>
     countedRequests (wdMetrics w') = countedRequests (wdMetrics w) \<and>
     mtPanicRecoveries (wdMetrics w') = mtPanicRecoveries (wdMetrics w) \<and> wdLog w' = wdLog w)"

lemma quietI:
  assumes "\<And>r w out w'. f r w = (out, w') \<Longrightarrow> countedRequests (wdMetrics w') = countedRequests (wdMetrics w) \<and>
     mtPanicRecoveries (wdMetrics w') = mtPanicRecoveries (wdMetrics w) \<and> wdLog w' = wdLog w"
  shows "quiet f"
  unfolding quiet_def using assms by blast

lemma quietD:
  assumes "quiet f" and "f r w = (out, w')"
  shows "countedRequests (wdMetrics w') = countedRequests (wdMetrics w)"
    and "mtPanicRecoveries (wdMetrics w') = mtPanicRecoveries (wdMetrics w)" and "wdLog w' = wdLog w"
  using assms unfolding quiet_def by blast+

lemma quiet_endpoint: "quiet (runEndpoint f)" and quiet_answer: "quiet (\<lambda>r w. (out, w))"
  by (auto intro!: quietI simp: runEndpoint_def split: prod.splits)

lemma quiet_guards:
  assumes "quiet f"
  shows "quiet (rateLimitMW q cfg f)" and "quiet (corsMW cfg f)" and "quiet (apiKeyMW q au f)"
proof -
  show "quiet (rateLimitMW q cfg f)"
  proof (rule quietI)
    fix r w out w' assume s: "rateLimitMW q cfg f r w = (out, w')"
    obtain resp l where l: "rateLimitMiddleware (exLimiter q) cfg r (wdLimiter w) = (resp, l)" by fastforce
    show "countedRequests (wdMetrics w') = countedRequests (wdMetrics w) \<and>
        mtPanicRecoveries (wdMetrics w') = mtPanicRecoveries (wdMetrics w) \<and> wdLog w' = wdLog w"
    proof (cases resp)
      case None
      with s l have "f r (w\<lparr>wdLimiter := l\<rparr>) = (out, w')" by (simp add: rateLimitMW_def)
      from quietD [OF assms this] show ?thesis by simp
    next
      case (Some x)
      with s l show ?thesis by (auto simp: rateLimitMW_def)
    qed
  qed
  show "quiet (corsMW cfg f)"
  proof (rule quietI)
    fix r w out w' assume s: "corsMW cfg f r w = (out, w')"
    show "countedRequests (wdMetrics w') = countedRequests (wdMetrics w) \<and>
        mtPanicRecoveries (wdMetrics w') = mtPanicRecoveries (wdMetrics w) \<and> wdLog w' = wdLog w"
    proof (cases "corsMiddleware cfg r")
      case None
      with s have "f r (w\<lparr>wdHeader := wdHeader w @ corsHeaders cfg r\<rparr>) = (out, w')" by (simp add: corsMW_def)
      from quietD [OF assms this] show ?thesis by simp
    next
      case (Some x)
      with s show ?thesis by (auto simp: corsMW_def)
    qed
  qed
  show "quiet (apiKeyMW q au f)"
  proof (rule quietI)
    fix r w out w' assume s: "apiKeyMW q au f r w = (out, w')"
    then show "countedRequests (wdMetrics w') = countedRequests (wdMetrics w) \<and>
        mtPanicRecoveries (wdMetrics w') = mtPanicRecoveries (wdMetrics w) \<and> wdLog w' = wdLog w"
      by (cases "apiKeyMiddleware (auHMAC au) (auClaims au) (exNow q) (auConfig au) r")
        (auto simp: apiKeyMW_def dest: quietD [OF assms])
  qed
qed

lemma quiet_group: "quiet f \<Longrightarrow> quiet (useAll q au (groupUses cfg) f)"
  by (cases "requiresAPIKey cfg") (simp_all add: groupUses_def quiet_guards)

lemma root_accounts:
  assumes f: "quiet f" and s: "useAll q au rootUses f r w = (out, w')"
  shows "out \<noteq> None \<and> accounts w' = accounts w + (if isl (requestTracing (orRand16 q) (orRand8 q) r) then 0 else 1) \<and>
    logged w' = logged w + (if isl (requestTracing (orRand16 q) (orRand8 q) r) then 0 else 1)"
proof (cases "requestTracing (orRand16 q) (orRand8 q) r")
  case (Inl resp)
  with s show ?thesis by (auto simp: rootUses_def tracingMW_def)
next
  case (Inr x)
  obtain tid hs where x: "x = (tid, hs)" by (cases x)
  obtain out1 w1 where 1: "f r (w\<lparr>wdHeader := wdHeader w @ hs, wdTraceID := tid\<rparr>) = (out1, w1)" by fastforce
  note q = quietD [OF f 1]
  show ?thesis using s Inr q 1
    by (cases out1) (auto simp: x rootUses_def tracingMW_def recoveryMW_def loggingMW_def metricsMW_def metricsMiddleware_def
        recoveryMiddleware_def accounts_def logged_def counted_record)
qed

lemma root_log:
  assumes f: "quiet f" and s: "useAll q au rootUses f r w = (out, w')"
  shows "\<exists>ls. wdLog w' = wdLog w @ ls \<and> (\<forall>e\<in>set ls. \<exists>tid st. e = logLine q r tid st)"
proof (cases "requestTracing (orRand16 q) (orRand8 q) r")
  case (Inl resp)
  with s show ?thesis by (auto simp: rootUses_def tracingMW_def)
next
  case (Inr x)
  obtain tid hs where x: "x = (tid, hs)" by (cases x)
  obtain out1 w1 where 1: "f r (w\<lparr>wdHeader := wdHeader w @ hs, wdTraceID := tid\<rparr>) = (out1, w1)" by fastforce
  have "wdLog w' = wdLog w1 @ (case out1 of None \<Rightarrow> [] | Some resp \<Rightarrow> [logLine q r (wdTraceID w1) (rsStatus resp)])"
    using s Inr 1
    by (cases out1) (auto simp: x rootUses_def tracingMW_def recoveryMW_def loggingMW_def metricsMW_def metricsMiddleware_def
        recoveryMiddleware_def)
  moreover have "wdLog w1 = wdLog w" using quietD(3) [OF f 1] by simp
  ultimately show ?thesis by (cases out1) auto
qed

section \<open>Properties\<close>

lemma NewServer_Inr:
  "NewServer hmac claims cfg = Inr sv \<longleftrightarrow>
   cfg_Validate cfg = None \<and> sv = \<lparr>svAuthority = \<lparr>auHMAC = hmac, auClaims = claims, auConfig = cfg\<rparr>, svRoutes = serverRoutes cfg\<rparr>"
  by (auto simp: NewServer_def split: option.split)

lemma ServeHTTP_root:
  fixes q :: "('l, 'x) exchange_scheme" and w w' :: "('l, 'a) World"
  assumes "NewServer hmac claims cfg = Inr sv" and "case match of Routed rt ps \<Rightarrow> rt \<in> set (svRoutes sv) | _ \<Rightarrow> True"
    and "ServeHTTP q sv run match w = (out, w')"
  obtains f out1 where "quiet f" and "out = None \<longleftrightarrow> out1 = None"
    and "useAll q (svAuthority sv) rootUses f (orRequest q) (w\<lparr>wdHeader := [], wdTraceID := []\<rparr>) = (out1, w')"
proof -
  let ?au = "svAuthority sv"
  have routes: "svRoutes sv = serverRoutes cfg" "auConfig ?au = cfg" using assms(1) by (simp_all add: NewServer_Inr)
  obtain f :: "('l, 'a) httpHandler" where f: "quiet f" "chi_serve q sv run match = useAll q ?au rootUses f"
  proof (cases match)
    case (Routed rt ps)
    let ?f = "useAll q ?au (if rtHandler rt = HealthH \<or> rtHandler rt = ReadyH then [] else groupUses cfg) (runEndpoint (run (rtHandler rt) ps))"
    have "quiet ?f" by (simp add: quiet_endpoint quiet_group)
    moreover have "chi_serve q sv run match = useAll q ?au rootUses ?f"
      using assms(2) serverRoutes_uses [of rt cfg] Routed by (simp add: chi_serve_def routes)
    ultimately show ?thesis by (rule that)
  next
    case (NotRouted resp)
    show ?thesis by (rule that [OF quiet_answer]) (simp add: NotRouted chi_serve_def)
  next
    case (NotMounted resp)
    show ?thesis by (rule that [OF quiet_group [OF quiet_answer]]) (simp add: NotMounted chi_serve_def)
  qed
  obtain out1 where s: "useAll q ?au rootUses f (orRequest q) (w\<lparr>wdHeader := [], wdTraceID := []\<rparr>) = (out1, w')"
      and o: "out = None \<longleftrightarrow> out1 = None"
    using assms(3) by (auto simp: ServeHTTP_def f(2) split: prod.splits)
  show ?thesis by (rule that [OF f(1) o s])
qed

text \<open>The routes but the two health checks stand behind the checks, and so does every path below \<open>/api\<close>.\<close>

definition behindChecks :: "chiMatch \<Rightarrow> bool" where
  "behindChecks match = (case match of Routed rt ps \<Rightarrow> rtHandler rt \<noteq> HealthH \<and> rtHandler rt \<noteq> ReadyH | NotRouted resp \<Rightarrow> False | NotMounted resp \<Rightarrow> True)"

definition registered :: "Server \<Rightarrow> chiMatch \<Rightarrow> bool" where
  "registered sv match = (case match of Routed rt ps \<Rightarrow> rt \<in> set (svRoutes sv) | _ \<Rightarrow> True)"

text \<open>
  C14: A request without credentials, or from an origin that is not allowed, learns nothing and changes nothing:
  with a production configuration the answer to it on every route but the two health checks is the same
  whatever the handlers do, and the application is as it was, whichever route chi finds.
\<close>

theorem outsider_learns_nothing:
  assumes "NewServer hmac claims cfg = Inr sv" and "cfgEnvironment cfg \<noteq> ''development''"
    and "\<not> entitled hmac claims (exNow q) cfg (orRequest q)"
    and "registered sv match" and "behindChecks match"
  shows "ServeHTTP q sv run match w = ServeHTTP q sv run' match w \<and> wdApp (snd (ServeHTTP q sv run match w)) = wdApp w"
proof -
  let ?au = "svAuthority sv" and ?r = "orRequest q"
  have sv: "cfg_Validate cfg = None" "auConfig ?au = cfg" "auHMAC ?au = hmac" "auClaims ?au = claims" "svRoutes sv = serverRoutes cfg"
    using assms(1) by (simp_all add: NewServer_Inr)
  have p: "protect (auHMAC ?au) (auClaims ?au) (exNow q) (auConfig ?au) ?r \<noteq> None"
    unfolding sv using protect_entitled [OF sv(1) assms(2)] assms(3) by blast
  obtain f f' :: "('a, 'c) httpHandler" where
    f: "chi_serve q sv run match = useAll q ?au (rootUses @ groupUses (auConfig ?au)) f"
       "chi_serve q sv run' match = useAll q ?au (rootUses @ groupUses (auConfig ?au)) f'"
    using assms(4,5) serverRoutes_uses [of _ cfg]
    by (cases match) (simp_all add: chi_serve_def behindChecks_def registered_def sv)
  have eq: "chi_serve q sv run match ?r v = chi_serve q sv run' match ?r v" for v
    unfolding f useAll_append by (rule useAll_cong) (rule guard_blocks(1) [OF p])
  have "wdApp (snd (chi_serve q sv run match ?r v)) = wdApp v" for v
    unfolding f useAll_append by (rule useAll_app) (rule guard_blocks(2) [OF p])
  then show ?thesis unfolding ServeHTTP_def eq by (auto simp: case_prod_beta)
qed

text \<open>Requests one after another, each with its handlers and what chi makes of it\<close>

definition serve_all :: "Server \<Rightarrow> ('l exchange \<times> 'a endpoints \<times> chiMatch) list \<Rightarrow> ('l, 'a) World \<Rightarrow> ('l, 'a) World" where
  "serve_all sv qs w = foldl (\<lambda>w (q, run, match). snd (ServeHTTP q sv run match w)) w qs"

definition traced :: "('l, 'x) exchange_scheme \<Rightarrow> bool" where
  "traced q \<longleftrightarrow> \<not> isl (requestTracing (orRand16 q) (orRand8 q) (orRequest q))"

lemma ServeHTTP_accounts:
  fixes q :: "'l exchange" and w w' :: "('l, 'a) World"
  assumes "NewServer hmac claims cfg = Inr sv" and "registered sv match" and s: "ServeHTTP q sv run match w = (out, w')"
  shows "out \<noteq> None" and "accounts w' = accounts w + (if traced q then 1 else 0)" and "logged w' = logged w + (if traced q then 1 else 0)"
    and "\<exists>ls. wdLog w' = wdLog w @ ls \<and> (\<forall>e\<in>set ls. \<exists>tid st. e = logLine q (orRequest q) tid st)"
proof -
  let ?v = "w\<lparr>wdHeader := [], wdTraceID := []\<rparr>"
  obtain f out1 where f: "quiet f" "out = None \<longleftrightarrow> out1 = None" "useAll q (svAuthority sv) rootUses f (orRequest q) ?v = (out1, w')"
    using ServeHTTP_root [OF assms(1) assms(2) [unfolded registered_def] s] by metis
  have "accounts ?v = accounts w" "logged ?v = logged w" by (simp_all add: accounts_def logged_def)
  with root_accounts [OF f(1,3)] f(2)
  show "out \<noteq> None" "accounts w' = accounts w + (if traced q then 1 else 0)" "logged w' = logged w + (if traced q then 1 else 0)"
    by (simp_all add: traced_def)
  show "\<exists>ls. wdLog w' = wdLog w @ ls \<and> (\<forall>e\<in>set ls. \<exists>tid st. e = logLine q (orRequest q) tid st)"
    using root_log [OF f(1,3)] by simp
qed

text \<open>
  C16: Every request that is traced is accounted for exactly once, on every route and on none: the counters by route
  together with that of recovered panics are the number of these requests, and so are the lines of the log with it.
\<close>

theorem requests_accounted:
  fixes w :: "('l, 'a) World"
  assumes "NewServer hmac claims cfg = Inr sv" and "\<forall>(q, run, match)\<in>set qs. registered sv match"
    and "wdMetrics w = newMetrics t" and "wdLog w = []"
  shows "accounts (serve_all sv qs w) = word_of_nat (length (filter (\<lambda>(q, run, match). traced q) qs)) \<and>
    logged (serve_all sv qs w) = accounts (serve_all sv qs w)"
proof -
  have "accounts (serve_all sv qs v) = accounts v + word_of_nat (length (filter (\<lambda>(q, run, match). traced q) qs)) \<and>
      logged (serve_all sv qs v) = logged v + word_of_nat (length (filter (\<lambda>(q, run, match). traced q) qs))" for v :: "('l, 'a) World"
    using assms(2)
  proof (induction qs arbitrary: v)
    case Nil
    then show ?case by (simp add: serve_all_def)
  next
    case (Cons x qs)
    obtain q run match where x: "x = (q, run, match)" by (cases x)
    obtain out v' where s: "ServeHTTP q sv run match v = (out, v')" by fastforce
    note a = ServeHTTP_accounts [OF assms(1) _ s]
    have "serve_all sv (x # qs) v = serve_all sv qs v'" by (simp add: serve_all_def x s)
    with Cons.IH [of v'] Cons.prems a show ?case by (simp add: x)
  qed
  moreover have "accounts w = 0" "logged w = 0" using assms(3,4) by (simp_all add: accounts_def logged_def newMetrics_def countedRequests_def)
  ultimately show ?thesis by simp
qed

section \<open>The application never panics\<close>

definition app_ok :: "('s, 'r) App \<Rightarrow> bool" where
  "app_ok a \<longleftrightarrow> server_ok (apHandler a)"

lemma servedHandler_ok [simp]: "server_ok (servedHandler a) \<longleftrightarrow> app_ok a"
  by (simp add: servedHandler_def server_ok_def app_ok_def)

text \<open>No handler adds or removes a store.\<close>

definition storeNames :: "'s Handler \<Rightarrow> string list" where
  "storeNames h = map fst (hStores h)"

lemma put_names [simp]: "getStore name h = Some e \<Longrightarrow> storeNames (putStore name e' st h) = storeNames h"
proof -
  assume "getStore name h = Some e"
  then have "name \<in> fst ` set (hStores h)" by (force simp: getStore_def dest: map_of_SomeD)
  then show ?thesis by (simp add: storeNames_def putStore_def update_keys)
qed

lemma names_frame [simp]: "storeNames (h\<lparr>hBacking := st\<rparr>) = storeNames h" "storeNames (h\<lparr>hCoordinator := co\<rparr>) = storeNames h"
  by (simp_all add: storeNames_def)

lemma HandleGet_names: "HandleGet B um ts name k h = Some (resp, h') \<Longrightarrow> storeNames h' = storeNames h"
  by (auto simp: HandleGet_def Let_def split: if_splits option.splits prod.splits sum.splits)

lemma HandlePeek_names: "HandlePeek ts name k h = Some (resp, h') \<Longrightarrow> storeNames h' = storeNames h"
  by (auto simp: HandlePeek_def Let_def split: if_splits option.splits prod.splits sum.splits)

lemma HandleSet_names: "HandleSet B ts name k b h = Some (resp, h') \<Longrightarrow> storeNames h' = storeNames h"
  by (auto simp: HandleSet_def Let_def split: if_splits option.splits prod.splits sum.splits)

lemma HandleDelete_names: "HandleDelete B name k h = Some (resp, h') \<Longrightarrow> storeNames h' = storeNames h"
  by (auto simp: HandleDelete_def Let_def split: if_splits option.splits prod.splits sum.splits)

lemma HandleStats_names: "HandleStats B name h = Some (resp, h') \<Longrightarrow> storeNames h' = storeNames h"
  by (auto simp: HandleStats_def Let_def split: if_splits option.splits prod.splits sum.splits)

lemma HandleConfig_names: "HandleConfig B ts name b h = Some (resp, h') \<Longrightarrow> storeNames h' = storeNames h"
  by (auto simp: HandleConfig_def configPolicy_def configFlush_def Let_def split: if_splits option.splits prod.splits sum.splits)

lemma HandleSnapshot_names: "HandleSnapshot ts name h = Some (resp, h') \<Longrightarrow> storeNames h' = storeNames h"
  by (auto simp: HandleSnapshot_def Let_def split: if_splits option.splits prod.splits sum.splits)

lemma HandlePurge_names: "HandlePurge B ts name h = Some (resp, h') \<Longrightarrow> storeNames h' = storeNames h"
  by (auto simp: HandlePurge_def Let_def split: if_splits option.splits prod.splits sum.splits)

lemma HandleCoherenceSet_names: "HandleCoherenceSet ts b h = Some (resp, h') \<Longrightarrow> storeNames h' = storeNames h"
  by (auto simp: HandleCoherenceSet_def Let_def split: if_splits option.splits prod.splits sum.splits)

lemma HandleCoherenceNodes_names: "HandleCoherenceNodes ts h = Some (resp, h') \<Longrightarrow> storeNames h' = storeNames h"
  by (auto simp: HandleCoherenceNodes_def Let_def split: if_splits option.splits prod.splits sum.splits)

lemma serve_names: "serve B um ts rq h = Some (resp, h') \<Longrightarrow> storeNames h' = storeNames h"
  by (cases rq) (auto simp: HandleHealth_def HandleReady_def dest: HandleGet_names HandlePeek_names HandleSet_names HandleDelete_names HandleStats_names
      HandleConfig_names HandleSnapshot_names HandlePurge_names HandleCoherenceSet_names HandleCoherenceNodes_names split: option.splits)

lemma statsPayload_total:
  assumes "server_ok h" and "name \<in> set (storeNames h)"
  shows "statsPayload now name h \<noteq> None"
proof -
  obtain entry where e: "getStore name h = Some entry"
    using assms(2) by (cases "getStore name h") (auto simp: storeNames_def getStore_def map_of_eq_None_iff)
  from server_entry [OF e assms(1)] e show ?thesis by (auto simp: statsPayload_def)
qed

text \<open>The server at the ticks of a stream has the same stores, each with its cache.\<close>

definition steady :: "string list \<Rightarrow> ('s, 'r) outside \<Rightarrow> bool" where
  "steady names ot \<longleftrightarrow> list_all (\<lambda>(now, h). server_ok h \<and> storeNames h = names) (otTicks ot)"

lemma ServeStatsSSE_total:
  assumes "steady (storeNames h0) ot"
  shows "ServeStatsSSE flushes name h0 (otTicks ot) \<noteq> None"
proof (cases "getStore name h0")
  case None
  then show ?thesis by (simp add: ServeStatsSSE_def)
next
  case (Some entry)
  then have name: "name \<in> set (storeNames h0)"
    by (force simp: storeNames_def getStore_def dest: map_of_SomeD)
  have "statsPayload now name h \<noteq> None" if "(now, h) \<in> set (otTicks ot)" for now h
    using that assms name by (intro statsPayload_total) (auto simp: steady_def list_all_iff)
  then obtain ys where "those (map (\<lambda>(now, h). statsPayload now name h) (otTicks ot)) = Some ys"
    using those_all_Some [of "otTicks ot" "\<lambda>(now, h). statsPayload now name h"] by auto
  with Some show ?thesis by (simp add: ServeStatsSSE_def)
qed

lemma ServeCoherenceSSE_ok:
  assumes "server_ok h"
  shows "\<exists>resp h'. ServeCoherenceSSE flushes now h = Some (resp, h') \<and> server_ok h' \<and> storeNames h' = storeNames h"
proof -
  obtain co where co: "hCoordinator h = Some co" "bus_ok (coBus co)"
    using assms by (auto simp: server_ok_def coordinator_ok_def split: option.splits)
  obtain ch b where s: "bus_Subscribe (sseClientID now) (coBus co) = (ch, b)" by (cases "bus_Subscribe (sseClientID now) (coBus co)")
  obtain b' where b': "bus_Unsubscribe (sseClientID now) b = Some b'" "bus_ok b'"
    using Unsubscribe_ok [OF Subscribe_ok(1) [OF co(2) s], of "sseClientID now"] by metis
  have "coordinator_ok (Some (co\<lparr>coBus := b'\<rparr>))"
    using assms co(1) b'(2) by (simp add: server_ok_def coordinator_ok_def)
  then have "server_ok (h\<lparr>hCoordinator := Some (co\<lparr>coBus := b'\<rparr>)\<rparr>)" using assms by (simp add: server_ok_def)
  moreover have "ServeCoherenceSSE True now h = Some (sendStream [], h\<lparr>hCoordinator := Some (co\<lparr>coBus := b'\<rparr>)\<rparr>)"
    unfolding ServeCoherenceSSE_def sse_join_def sse_leave_def co(1) by (simp add: s b'(1))
  moreover have "ServeCoherenceSSE False now h = Some ((http_Error ''streaming not supported'' 500)\<lparr>rsHeaders := streamHeaders\<rparr>, h)"
    by (simp add: ServeCoherenceSSE_def)
  ultimately show ?thesis using assms by (cases flushes) simp_all
qed

lemma metricsHandler_total:
  assumes "server_ok h"
  shows "metricsHandler fmt B dir now alloc h m \<noteq> None"
proof -
  obtain stores where "those (map (\<lambda>name. storeLines B name h) (sortBy bytesLess (map fst (hStores h)))) = Some stores"
    using those_all_Some [of "sortBy bytesLess (map fst (hStores h))" "\<lambda>name. storeLines B name h"] storeLines_total [OF assms] by blast
  then show ?thesis by (simp add: metricsHandler_def metricsLines_def)
qed

lemma servedHandler_names [simp]: "storeNames (servedHandler a) = storeNames (apHandler a)"
  by (simp add: servedHandler_def storeNames_def)

lemma appHandle_ok:
  assumes "app_ok a" and "steady (storeNames (apHandler a)) ot" and "appHandle ot au h ps r m a = (out, a')"
  shows "out \<noteq> None \<and> app_ok a' \<and> storeNames (apHandler a') = storeNames (apHandler a)"
proof (cases "requestOf ot h ps")
  case (Some rq)
  have ok: "server_ok (servedHandler a)" using assms(1) by simp
  from serve_answers [OF ok, of "otStore ot" "otEnvelope ot" "otClock ot" rq]
  obtain resp h' where s: "serve (otStore ot) (otEnvelope ot) (otClock ot) rq (servedHandler a) = Some (resp, h')" "server_ok h'"
    by (auto simp: answered_def split: option.splits)
  with assms(3) Some serve_names [OF s(1)] show ?thesis by (auto simp: appHandle_def app_ok_def)
next
  case None
  have ok: "server_ok (servedHandler a)" using assms(1) by simp
  obtain cresp ch where c: "ServeCoherenceSSE (otFlushes ot) (otClock ot 0) (servedHandler a) = Some (cresp, ch)" "server_ok ch"
      "storeNames ch = storeNames (servedHandler a)"
    using ServeCoherenceSSE_ok [OF ok] by blast
  have "steady (storeNames (servedHandler a)) ot" using assms(2) by simp
  from ServeStatsSSE_total [OF this]
  obtain sse where s: "ServeStatsSSE (otFlushes ot) (ps ''store'') (servedHandler a) (otTicks ot) = Some sse" by blast
  note p = metricsHandler_total [OF ok, of "otFloat ot" "otStore ot" "otDir ot" "otClock ot 0" "otAlloc ot" m]
  show ?thesis using assms(1,3) None c s p
    by (cases h; cases sse) (auto simp: appHandle_def app_ok_def split: prod.splits)
qed

definition calm :: "string list \<times> int64 \<Rightarrow> ('l, ('s, 'r) App) World \<Rightarrow> bool" where
  "calm n w \<longleftrightarrow> app_ok (wdApp w) \<and> (storeNames (apHandler (wdApp w)), mtPanicRecoveries (wdMetrics w)) = n"

lemma calm_frame [simp]:
  "calm n (w\<lparr>wdLog := l\<rparr>) = calm n w" "calm n (w\<lparr>wdHeader := hs\<rparr>) = calm n w" "calm n (w\<lparr>wdTraceID := t\<rparr>) = calm n w"
  "calm n (w\<lparr>wdLimiter := d\<rparr>) = calm n w"
  by (simp_all add: calm_def)

definition answers :: "string list \<times> int64 \<Rightarrow> ('l, ('s, 'r) App) httpHandler \<Rightarrow> Request \<Rightarrow> bool" where
  "answers n f r \<longleftrightarrow> (\<forall>w out w'. calm n w \<and> f r w = (out, w') \<longrightarrow> out \<noteq> None \<and> calm n w')"

lemma answersI: "(\<And>w out w'. calm n w \<Longrightarrow> f r w = (out, w') \<Longrightarrow> out \<noteq> None \<and> calm n w') \<Longrightarrow> answers n f r"
  unfolding answers_def by blast

lemma answersD: "answers n f r \<Longrightarrow> calm n w \<Longrightarrow> f r w = (out, w') \<Longrightarrow> out \<noteq> None \<and> calm n w'"
  unfolding answers_def by blast

lemma answers_useMW:
  assumes "answers n next r"
  shows "answers n (useMW q au m next) r"
proof (rule answersI)
  fix w out w' assume w: "calm n w" and s: "useMW q au m next r w = (out, w')"
  obtain out1 w1 where 1: "next r w = (out1, w1)" by (cases "next r w")
  obtain resp where 2: "out1 = Some resp" "calm n w1" using answersD [OF assms w 1] by auto
  show "out \<noteq> None \<and> calm n w'"
  proof (cases m)
    case RequestIDMW
    with s w answersD [OF assms] show ?thesis by simp
  next
    case TracingMW
    show ?thesis
    proof (cases "requestTracing (orRand16 q) (orRand8 q) r")
      case (Inr x)
      obtain tid hs where x: "x = (tid, hs)" by (cases x)
      with TracingMW s Inr have "next r (w\<lparr>wdHeader := wdHeader w @ hs, wdTraceID := tid\<rparr>) = (out, w')" by (simp add: tracingMW_def)
      from answersD [OF assms _ this] w show ?thesis by (simp add: calm_def)
    qed (use TracingMW s w in \<open>auto simp: tracingMW_def\<close>)
  next
    case RecoveryMW
    with s 1 2 show ?thesis by (auto simp: recoveryMW_def recoveryMiddleware_def calm_def)
  next
    case LoggingMW
    with s 1 2 show ?thesis by (auto simp: loggingMW_def)
  next
    case MetricsMW
    with s 1 2 show ?thesis by (auto simp: metricsMW_def metricsMiddleware_def calm_def)
  next
    case RateLimitMW
    obtain o2 l where "rateLimitMiddleware (exLimiter q) (auConfig au) r (wdLimiter w) = (o2, l)" by fastforce
    with RateLimitMW s w answersD [OF assms, of "w\<lparr>wdLimiter := l\<rparr>"] show ?thesis
      by (cases o2) (auto simp: rateLimitMW_def calm_def)
  next
    case CORSMW
    with s w answersD [OF assms, of "w\<lparr>wdHeader := wdHeader w @ corsHeaders (auConfig au) r\<rparr>"] show ?thesis
      by (cases "corsMiddleware (auConfig au) r") (auto simp: corsMW_def)
  next
    case APIKeyMW
    show ?thesis
    proof (cases "apiKeyMiddleware (auHMAC au) (auClaims au) (exNow q) (auConfig au) r")
      case None
      with APIKeyMW s have "next r w = (out, w')" by (simp add: apiKeyMW_def)
      from answersD [OF assms w this] show ?thesis .
    next
      case (Some resp)
      with APIKeyMW s have "out = Some resp" "w' = w\<lparr>wdMetrics := recordAuthRejection (wdMetrics w)\<rparr>"
        by (auto simp: apiKeyMW_def)
      with w show ?thesis by (simp add: calm_def)
    qed
  qed
qed

lemma answers_useAll: "answers n next r \<Longrightarrow> answers n (useAll q au ms next) r"
  by (induction ms) (simp_all add: answers_useMW)

lemma answers_endpoint:
  assumes "steady names ot"
  shows "answers (names, k) (runEndpoint (appHandle ot au h ps)) r"
proof (rule answersI)
  fix w :: "('l, ('a, 'b) App) World" and out w'
  assume w: "calm (names, k) w" and s: "runEndpoint (appHandle ot au h ps) r w = (out, w')"
  obtain a' where a: "appHandle ot au h ps r (wdMetrics w) (wdApp w) = (out, a')" and w': "w' = w\<lparr>wdApp := a'\<rparr>"
    using s by (auto simp: runEndpoint_def split: prod.splits)
  show "out \<noteq> None \<and> calm (names, k) w'"
    using appHandle_ok [OF _ _ a] w assms by (auto simp: calm_def w')
qed

lemma ServeHTTP_calm:
  fixes q :: "('l, 'x) exchange_scheme"
  assumes "steady names ot" and "calm (names, k) w" and s: "ServeHTTP q sv (appHandle ot au) match w = (out, w')"
  shows "out \<noteq> None \<and> calm (names, k) w'"
proof -
  let ?v = "w\<lparr>wdHeader := [], wdTraceID := []\<rparr>" and ?r = "orRequest q"
  have const: "answers n (\<lambda>r w. (Some resp, w)) ?r" for n resp by (rule answersI) auto
  have "answers (names, k) (chi_serve q sv (appHandle ot au) match) ?r"
    by (cases match) (simp_all add: chi_serve_def answers_useAll answers_endpoint [OF assms(1)] const)
  moreover obtain o1 where "chi_serve q sv (appHandle ot au) match ?r ?v = (o1, w')" "out = None \<longleftrightarrow> o1 = None"
    using s by (auto simp: ServeHTTP_def split: prod.splits)
  moreover have "calm (names, k) ?v" using assms(2) by simp
  ultimately show ?thesis using answersD by metis
qed

text \<open>
  C15: The whole server answers: whatever requests arrive, with whatever bodies, failures of the store, saves that
  fail, limiters and tokens, and whatever chi makes of them, no handler panics: none of them is recovered, and
  the stores, their caches and the coordinator stay well-formed.
\<close>

theorem server_never_panics:
  assumes "app_ok (wdApp w)" and "\<forall>(q, ot, match)\<in>set qs. steady (storeNames (apHandler (wdApp w))) ot"
  shows "(let w' = serve_all sv (map (\<lambda>(q, ot, match). (q, appHandle ot (svAuthority sv), match)) qs) w
    in app_ok (wdApp w') \<and> storeNames (apHandler (wdApp w')) = storeNames (apHandler (wdApp w)) \<and>
       mtPanicRecoveries (wdMetrics w') = mtPanicRecoveries (wdMetrics w))"
proof -
  let ?n = "(storeNames (apHandler (wdApp w)), mtPanicRecoveries (wdMetrics w))"
  let ?f = "\<lambda>(q, ot, match). (q, appHandle ot (svAuthority sv), match)"
  have "calm ?n (serve_all sv (map ?f qs) v)" if "calm ?n v" for v using assms(2) that
  proof (induction qs arbitrary: v)
    case Nil
    then show ?case by (simp add: serve_all_def)
  next
    case (Cons x qs)
    obtain q ot match where x: "x = (q, ot, match)" by (cases x)
    obtain out v' where s: "ServeHTTP q sv (appHandle ot (svAuthority sv)) match v = (out, v')" by fastforce
    from Cons.prems have "steady (storeNames (apHandler (wdApp w))) ot" by (simp add: x)
    from ServeHTTP_calm [OF this Cons.prems(2) s] have "calm ?n v'" by simp
    moreover have "serve_all sv (map ?f (x # qs)) v = serve_all sv (map ?f qs) v'" by (simp add: serve_all_def x s)
    ultimately show ?case using Cons.IH Cons.prems(1) by simp
  qed
  moreover have "calm ?n w" using assms(1) by (simp add: calm_def)
  ultimately show ?thesis by (auto simp: calm_def Let_def)
qed

definition oneLine :: "string \<Rightarrow> bool" where
  "oneLine s = list_all (\<lambda>c. c \<noteq> CHR 0x0A \<and> c \<noteq> CHR 0x0D \<and> c \<noteq> CHR 0x09) s"

definition cleanLine :: "logEntry \<Rightarrow> bool" where
  "cleanLine e \<longleftrightarrow> oneLine (leMethod e) \<and> oneLine (lePath e) \<and> oneLine (leRoute e) \<and> oneLine (leRemoteAddr e)"

lemma oneLine_sanitize: "oneLine (mw_sanitizeLogValue s)"
  by (induction s) (auto simp: mw_sanitizeLogValue_def oneLine_def Replace_def)

lemma serverRoutes_oneLine: "list_all (\<lambda>rt. oneLine (rtPattern rt)) (serverRoutes cfg)"
  by (simp add: serverRoutes_def apiRoutes_def cacheRoutes_def chi_Use_def chi_Route_def chi_Method_def oneLine_def)

definition chiPattern :: "Server \<Rightarrow> string option \<Rightarrow> bool" where
  "chiPattern sv p = (case p of None \<Rightarrow> True | Some p \<Rightarrow> p = [] \<or> p = ''/api/*'' \<or> list_ex (\<lambda>rt. rtPattern rt = p) (svRoutes sv))"

lemma logLine_clean:
  assumes "NewServer hmac claims cfg = Inr sv" and "chiPattern sv (orPattern q)"
  shows "cleanLine (logLine q r tid st)"
proof -
  have "svRoutes sv = serverRoutes cfg" using assms(1) by (simp add: NewServer_Inr)
  with assms(2) serverRoutes_oneLine [of cfg] have "oneLine (routePattern (orPattern q) (Some (rqPath r)))"
    by (auto simp: chiPattern_def routePattern_def sanitizeURLPath_def oneLine_sanitize list_all_iff list_ex_iff split: option.splits)
      (simp add: oneLine_def)
  then show ?thesis by (simp add: cleanLine_def logLine_def oneLine_sanitize sanitizeURLPath_def)
qed


section \<open>Witnesses\<close>

definition demo_outsider :: Request where
  "demo_outsider = demo_req ''/api/cache/lru/k'' ((\<lambda>_. [])(''Origin'' := ''http://evil''))"

definition demo_exchange :: "memoryRateLimiter exchange" where
  "demo_exchange = \<lparr>orRequest = demo_outsider, orRand16 = Some (replicate 16 1), orRand8 = Some (replicate 8 2),
     orPattern = Some ''/api/cache/{store}/{key}'', orDuration = 5, exRequestID = ''r1'', exLogDuration = 6, exNow = 9,
     exLimiter = memory_limiter 9\<rparr>"

definition demo_sv :: Server where
  "demo_sv = \<lparr>svAuthority = \<lparr>auHMAC = (\<lambda>k m. k @ m), auClaims = parseClaims, auConfig = demo_cfg\<rparr>, svRoutes = serverRoutes demo_cfg\<rparr>"

lemma demo_sv_new: "NewServer (\<lambda>k m. k @ m) parseClaims demo_cfg = Inr demo_sv"
  by (simp add: NewServer_def demo_sv_def cfg_Validate_def) code_simp

definition demo_match :: chiMatch where
  "demo_match = Routed (serverRoutes demo_cfg ! 4) (\<lambda>_. ''k'')"

lemma demo_match_ok: "registered demo_sv demo_match" "behindChecks demo_match"
  by code_simp+

definition demo_world :: "'a \<Rightarrow> (memoryRateLimiter, 'a) World" where
  "demo_world a = \<lparr>wdLimiter = [], wdMetrics = newMetrics 0, wdLog = [], wdApp = a, wdHeader = [], wdTraceID = []\<rparr>"

theorem outsider_learns_nothing_witness:
  "ServeHTTP demo_exchange demo_sv (\<lambda>h ps r m a. (None, a + 1)) demo_match (demo_world (7::nat)) =
     ServeHTTP demo_exchange demo_sv (\<lambda>h ps r m a. (Some (http_Error ''x'' 200), a)) demo_match (demo_world 7) \<and>
   wdApp (snd (ServeHTTP demo_exchange demo_sv (\<lambda>h ps r m a. (None, a + 1)) demo_match (demo_world (7::nat)))) = wdApp (demo_world (7::nat))"
proof (rule outsider_learns_nothing [OF demo_sv_new])
  show "cfgEnvironment demo_cfg \<noteq> ''development''" by code_simp
  have "rqHeader (orRequest demo_exchange) ''Origin'' = ''http://evil''" by (simp add: demo_exchange_def demo_outsider_def demo_req_def)
  moreover have "''http://evil'' \<notin> set (cfgAllowedOrigins demo_cfg)" by code_simp
  ultimately show "\<not> entitled (\<lambda>k m. k @ m) parseClaims (exNow demo_exchange) demo_cfg (orRequest demo_exchange)"
    by (simp add: entitled_def)
qed (rule demo_match_ok)+

theorem requests_accounted_witness:
  "accounts (serve_all demo_sv [(demo_exchange, (\<lambda>h ps r m a. (None, a + 1)), demo_match)] (demo_world (7::nat))) = 1 \<and>
   logged (serve_all demo_sv [(demo_exchange, (\<lambda>h ps r m a. (None, a + 1)), demo_match)] (demo_world (7::nat))) = 1"
proof -
  have t: "traced demo_exchange" by code_simp
  have "\<forall>(q, run, match)\<in>set [(demo_exchange, (\<lambda>h ps r m a. (None, a + 1)) :: nat endpoints, demo_match)]. registered demo_sv match"
    by (simp add: demo_match_ok)
  from requests_accounted [OF demo_sv_new this, of "demo_world 7" 0] t show ?thesis by (simp add: demo_world_def)
qed


definition demo_app :: "(MemoryStore, nat) App" where
  "demo_app = \<lparr>apHandler = demo_server, apBench = NewBench [] None \<lparr>jfPath = None, jfTmp = None\<rparr>\<rparr>"

definition demo_outside :: "(MemoryStore, nat) outside" where
  "demo_outside = \<lparr>otStore = memory_configurable None, otEnvelope = (\<lambda>_. None), otClock = int, otDir = None, otAlloc = 0,
     otPut = (Inl ''EOF'', JsonEOF), otConfig = (Inl ''EOF'', JsonEOF), otCoherence = (Inl ''EOF'', JsonEOF),
     otBench = (Inl ''EOF'', JsonEOF), otSave = None, otJunk = None, otFlushes = True, otTicks = [(8, demo_server)],
     otBody = (\<lambda>_. ''{}''), otJob = (\<lambda>_. ''{}''), otJobs = (\<lambda>_. ''[]''), otToken = (\<lambda>t e. t), otStats = (\<lambda>_. ''{}''),
     otFloat = (\<lambda>n x. ''0'')\<rparr>"

theorem server_never_panics_witness:
  "let w' = serve_all demo_sv (map (\<lambda>(q, ot, match). (q, appHandle ot (svAuthority demo_sv), match))
       [(demo_exchange, demo_outside, demo_match)]) (demo_world demo_app)
   in app_ok (wdApp w') \<and> storeNames (apHandler (wdApp w')) = storeNames (apHandler (wdApp (demo_world demo_app))) \<and>
      mtPanicRecoveries (wdMetrics w') = mtPanicRecoveries (wdMetrics (demo_world demo_app))"
proof (rule server_never_panics)
  show "app_ok (wdApp (demo_world demo_app))" by (simp add: demo_world_def demo_app_def app_ok_def demo_server_ok)
  show "\<forall>(q, ot, match)\<in>set [(demo_exchange, demo_outside, demo_match)]. steady (storeNames (apHandler (wdApp (demo_world demo_app)))) ot"
    by (simp add: demo_world_def demo_app_def demo_outside_def steady_def demo_server_ok)
qed

end
