(* ===== verification/SQLite_Store.thy ===== *)
theory SQLite_Store
  imports Write_Policies Go_Strings "HOL-Library.List_Lexorder" "HOL-Library.Char_ord"
begin

text \<open>
  internal/store/sqlite.go: a database file is the record of its two tables, each \<open>None\<close> until it is
  created, and a statement is an operation on the tables. What the file system and the
  database answer is an argument: an error or \<open>None\<close> for each call that can fail. A statement that
  fails and a transaction that is rolled back leave the file as it was. The driver's reading of a nil
  slice as a blob, which \<open>append([]byte(nil), value...)\<close> makes of an empty value, is the parameter
  \<open>nilBlob\<close>: \<open>None\<close> for NULL.
\<close>

section \<open>The file\<close>

record cacheRow =
  crValue :: bytes
  crUpdatedAt :: int

record sqliteDB =
  dbMigrations :: "(int, int) gomap option"
  dbCache :: "(key, cacheRow) gomap option"

definition emptyDB :: sqliteDB where
  "emptyDB = \<lparr>dbMigrations = None, dbCache = None\<rparr>"

definition createMigrations :: "sqliteDB \<Rightarrow> sqliteDB" where
  "createMigrations db = (if dbMigrations db = None then db\<lparr>dbMigrations := Some []\<rparr> else db)"

definition createCacheStore :: "sqliteDB \<Rightarrow> sqliteDB" where
  "createCacheStore db = (if dbCache db = None then db\<lparr>dbCache := Some []\<rparr> else db)"

text \<open>\<open>COALESCE(MAX(version), 0)\<close>\<close>

definition schemaVersion :: "sqliteDB \<Rightarrow> int" where
  "schemaVersion db =
     (case dbMigrations db of
        Some (r # rs) \<Rightarrow> foldl max (fst r) (map fst rs)
      | _ \<Rightarrow> 0)"

definition insertMigration :: "int \<Rightarrow> int \<Rightarrow> sqliteDB \<Rightarrow> sqliteDB" where
  "insertMigration version t db = db\<lparr>dbMigrations := map_option (AList.update version t) (dbMigrations db)\<rparr>"

text \<open>\<open>fails n\<close> is the answer to the \<open>n\<close>th call; \<open>tx\<close> is the file as the transaction sees it.\<close>

definition sqlite_init :: "(nat \<Rightarrow> error option) \<Rightarrow> int \<Rightarrow> sqliteDB \<Rightarrow> error option \<times> sqliteDB" where
  "sqlite_init fails now db =
     (case fails 0 of
        Some e \<Rightarrow> (Some e, db)
      | None \<Rightarrow>
          (let db = createMigrations db
           in case fails 1 of
                Some e \<Rightarrow> (Some e, db)
              | None \<Rightarrow>
                  if schemaVersion db \<ge> 1 then (None, db)
                  else
                    (case fails 2 of
                       Some e \<Rightarrow> (Some e, db)
                     | None \<Rightarrow>
                         (case fails 3 of
                            Some e \<Rightarrow> (Some e, db)
                          | None \<Rightarrow>
                              (let tx = createCacheStore db
                               in case fails 4 of
                                    Some e \<Rightarrow> (Some e, db)
                                  | None \<Rightarrow>
                                      (let tx = insertMigration 1 now tx
                                       in case fails 5 of Some e \<Rightarrow> (Some e, db) | None \<Rightarrow> (None, tx)))))))"

section \<open>The store\<close>

text \<open>An open store, with the file it is on\<close>

record SQLiteStore =
  sqDB :: sqliteDB
  sqLatencyNs :: duration

definition NewSQLiteStore :: "error option \<Rightarrow> error option \<Rightarrow> (nat \<Rightarrow> error option) \<Rightarrow> int \<Rightarrow> string \<Rightarrow> duration \<Rightarrow> sqliteDB \<Rightarrow>
    (error + SQLiteStore) \<times> sqliteDB" where
  "NewSQLiteStore mkdir open_err fails now path latency db =
     (if path = [] then (Inl ''sqlite path is required'', db)
      else
        (case mkdir of
           Some e \<Rightarrow> (Inl e, db)
         | None \<Rightarrow>
             (case open_err of
                Some e \<Rightarrow> (Inl e, db)
              | None \<Rightarrow>
                  (case sqlite_init fails now db of
                     (Some e, db) \<Rightarrow> (Inl e, db)
                   | (None, db) \<Rightarrow> (Inr \<lparr>sqDB = db, sqLatencyNs = latency\<rparr>, db)))))"

definition MigrateSQLiteDatabase :: "error option \<Rightarrow> error option \<Rightarrow> (nat \<Rightarrow> error option) \<Rightarrow> error option \<Rightarrow> int \<Rightarrow> string \<Rightarrow> sqliteDB \<Rightarrow>
    error option \<times> sqliteDB" where
  "MigrateSQLiteDatabase mkdir open_err fails close now path db =
     (case NewSQLiteStore mkdir open_err fails now path 0 db of
        (Inl e, db) \<Rightarrow> (Some e, db)
      | (Inr s, db) \<Rightarrow> (close, db))"

definition sqlite_SetLatency :: "duration \<Rightarrow> SQLiteStore \<Rightarrow> SQLiteStore" where
  "sqlite_SetLatency d s = s\<lparr>sqLatencyNs := d\<rparr>"

definition sqlite_GetLatency :: "SQLiteStore \<Rightarrow> duration" where
  "sqlite_GetLatency s = sqLatencyNs s"

definition sqlite_sleep :: "error option \<Rightarrow> SQLiteStore \<Rightarrow> error option" where
  "sqlite_sleep ctx s = (if sqLatencyNs s \<le> 0 then None else ctx)"

text \<open>What a statement on a missing table answers\<close>

definition noTable :: error where
  "noTable = ''no such table: cache_store''"

definition bindBlob :: "bytes option \<Rightarrow> bytes \<Rightarrow> bytes option" where
  "bindBlob nilBlob v = (if v = [] then nilBlob else Some v)"

definition sqlite_Get :: "error option \<Rightarrow> error option \<Rightarrow> key \<Rightarrow> SQLiteStore \<Rightarrow> (error + bytes) \<times> SQLiteStore" where
  "sqlite_Get ctx dberr k s =
     (case sqlite_sleep ctx s of
        Some e \<Rightarrow> (Inl e, s)
      | None \<Rightarrow>
          (case (dberr, dbCache (sqDB s)) of
             (Some e, _) \<Rightarrow> (Inl e, s)
           | (None, None) \<Rightarrow> (Inl noTable, s)
           | (None, Some rows) \<Rightarrow>
               (case map_of rows k of
                  None \<Rightarrow> (Inl (''key not found: '' @ k), s)
                | Some row \<Rightarrow> (Inr (cloneBytes (crValue row)), s))))"

definition sqlite_Set :: "error option \<Rightarrow> error option \<Rightarrow> bytes option \<Rightarrow> int \<Rightarrow> key \<Rightarrow> bytes \<Rightarrow> SQLiteStore \<Rightarrow>
    error option \<times> SQLiteStore" where
  "sqlite_Set ctx dberr nilBlob nowMs k v s =
     (case sqlite_sleep ctx s of
        Some e \<Rightarrow> (Some e, s)
      | None \<Rightarrow>
          (case (dberr, dbCache (sqDB s), bindBlob nilBlob (cloneBytes v)) of
             (Some e, _, _) \<Rightarrow> (Some e, s)
           | (None, None, _) \<Rightarrow> (Some noTable, s)
           | (None, Some rows, None) \<Rightarrow> (Some ''NOT NULL constraint failed: cache_store.value'', s)
           | (None, Some rows, Some b) \<Rightarrow>
               (None, s\<lparr>sqDB := (sqDB s)\<lparr>dbCache := Some (AList.update k \<lparr>crValue = b, crUpdatedAt = nowMs\<rparr> rows)\<rparr>\<rparr>)))"

definition sqlite_Delete :: "error option \<Rightarrow> error option \<Rightarrow> key \<Rightarrow> SQLiteStore \<Rightarrow> error option \<times> SQLiteStore" where
  "sqlite_Delete ctx dberr k s =
     (case sqlite_sleep ctx s of
        Some e \<Rightarrow> (Some e, s)
      | None \<Rightarrow>
          (case (dberr, dbCache (sqDB s)) of
             (Some e, _) \<Rightarrow> (Some e, s)
           | (None, None) \<Rightarrow> (Some noTable, s)
           | (None, Some rows) \<Rightarrow> (None, s\<lparr>sqDB := (sqDB s)\<lparr>dbCache := Some (AList.delete k rows)\<rparr>\<rparr>)))"

definition sqlite_Keys :: "error option \<Rightarrow> SQLiteStore \<Rightarrow> error + key list" where
  "sqlite_Keys dberr s =
     (case (dberr, dbCache (sqDB s)) of
        (Some e, _) \<Rightarrow> Inl e
      | (None, None) \<Rightarrow> Inl noTable
      | (None, Some rows) \<Rightarrow> Inr (sort (map fst rows)))"

definition sqlite_store :: "error option \<Rightarrow> error option \<Rightarrow> bytes option \<Rightarrow> int \<Rightarrow> SQLiteStore BackingStore" where
  "sqlite_store ctx dberr nilBlob nowMs =
     \<lparr>bGet = sqlite_Get ctx dberr, bSet = sqlite_Set ctx dberr nilBlob nowMs, bDelete = sqlite_Delete ctx dberr\<rparr>"

section \<open>Backup\<close>

text \<open>\<open>strings.ReplaceAll(value, "'", "''")\<close> between quotes\<close>

definition quoteSQLiteLiteral :: "string \<Rightarrow> string" where
  "quoteSQLiteLiteral v = [CHR 0x27] @ Replace (\<lambda>c. if c = CHR 0x27 then Some [CHR 0x27, CHR 0x27] else None) v @ [CHR 0x27]"

text \<open>
  The files by their paths; \<open>VACUUM INTO\<close> makes a copy in a new file and refuses one that
  exists. Opening a path creates the file when it is missing. A copy that fails may leave anything in the
  destination.
\<close>

definition BackupSQLiteDatabase :: "error option \<Rightarrow> error option \<Rightarrow> error option \<Rightarrow> sqliteDB option \<Rightarrow> string \<Rightarrow> string \<Rightarrow>
    (string, sqliteDB) gomap \<Rightarrow> error option \<times> (string, sqliteDB) gomap" where
  "BackupSQLiteDatabase mkdir open_err dberr junk path destination fs =
     (if TrimSpace path = [] then (Some ''sqlite path is required'', fs)
      else if TrimSpace destination = [] then (Some ''backup destination is required'', fs)
      else
        (case mkdir of
           Some e \<Rightarrow> (Some e, fs)
         | None \<Rightarrow>
             (case open_err of
                Some e \<Rightarrow> (Some e, fs)
              | None \<Rightarrow>
                  (let fs = (if map_of fs path = None then AList.update path emptyDB fs else fs)
                   in case map_of fs destination of
                        Some _ \<Rightarrow> (Some ''output file already exists'', fs)
                      | None \<Rightarrow>
                          (case dberr of
                             Some e \<Rightarrow> (Some e, case junk of None \<Rightarrow> fs | Some j \<Rightarrow> AList.update destination j fs)
                           | None \<Rightarrow> (None, AList.update destination (the (map_of fs path)) fs))))))"

section \<open>The contracts\<close>

definition dbContent :: "sqliteDB \<Rightarrow> key \<rightharpoonup> bytes" where
  "dbContent db = (case dbCache db of None \<Rightarrow> Map.empty | Some rows \<Rightarrow> map_option crValue \<circ> map_of rows)"

definition sqlite_content :: "SQLiteStore \<Rightarrow> key \<rightharpoonup> bytes" where
  "sqlite_content s = dbContent (sqDB s)"

definition sqlite_ready :: "SQLiteStore \<Rightarrow> bool" where
  "sqlite_ready s \<longleftrightarrow> dbCache (sqDB s) \<noteq> None"

lemma bindBlob_Some: "bindBlob (Some []) v = Some v"
  by (simp add: bindBlob_def)

lemma content_update:
  "map_option crValue \<circ> map_of (AList.update k \<lparr>crValue = v, crUpdatedAt = t\<rparr> rows) = (map_option crValue \<circ> map_of rows)(k \<mapsto> v)"
  "map_option crValue \<circ> map_of (AList.delete k rows) = (map_option crValue \<circ> map_of rows)(k := None)"
  by (simp_all add: fun_eq_iff map_of_update_upd map_of_delete_upd)

lemma sqlite_Get_law:
  "sqlite_Get ctx dberr k s = (r, s') \<Longrightarrow> s' = s \<and> (\<forall>v. r = Inr v \<longrightarrow> sqlite_content s k = Some v)"
  by (auto simp: sqlite_Get_def sqlite_content_def dbContent_def split: option.splits)

lemma sqlite_Set_law:
  "sqlite_Set ctx dberr (Some []) t k v s = (err, s') \<Longrightarrow>
   sqlite_content s' = (if err = None then (sqlite_content s)(k \<mapsto> v) else sqlite_content s)"
  by (auto simp: sqlite_Set_def sqlite_content_def dbContent_def bindBlob_Some content_update split: option.splits)

lemma sqlite_Delete_law:
  "sqlite_Delete ctx dberr k s = (err, s') \<Longrightarrow>
   sqlite_content s' = (if err = None then (sqlite_content s)(k := None) else sqlite_content s)"
  by (auto simp: sqlite_Delete_def sqlite_content_def dbContent_def content_update split: option.splits)

interpretation sqlite: failing_store "sqlite_store ctx dberr (Some []) t" sqlite_content
  by unfold_locales (auto simp: sqlite_store_def dest: sqlite_Get_law sqlite_Set_law sqlite_Delete_law)

interpretation sqliteOk: reliable_store "sqlite_store None None (Some []) t" sqlite_content sqlite_ready
  by unfold_locales
     (auto simp: sqlite_store_def sqlite_Get_def sqlite_Set_def sqlite_Delete_def sqlite_sleep_def sqlite_ready_def
        sqlite_content_def dbContent_def bindBlob_Some content_update split: option.splits if_splits)

section \<open>Migrations\<close>

text \<open>The version is only recorded together with the table.\<close>

definition db_ok :: "sqliteDB \<Rightarrow> bool" where
  "db_ok db \<longleftrightarrow> (schemaVersion db \<ge> 1 \<longrightarrow> dbCache db \<noteq> None)"

lemma dbContent_create [simp]: "dbContent (createMigrations db) = dbContent db" "dbContent (createCacheStore db) = dbContent db"
  "dbContent (insertMigration v t db) = dbContent db"
  by (simp_all add: dbContent_def createMigrations_def createCacheStore_def insertMigration_def split: option.split)

lemma dbCache_create [simp]: "dbCache (createMigrations db) = dbCache db" "dbCache (createCacheStore db) = Some (case dbCache db of None \<Rightarrow> [] | Some rows \<Rightarrow> rows)"
  "dbCache (insertMigration v t db) = dbCache db"
  by (auto simp: createMigrations_def createCacheStore_def insertMigration_def)

lemma schemaVersion_create [simp]: "schemaVersion (createMigrations db) = schemaVersion db"
  by (simp add: schemaVersion_def createMigrations_def split: option.split list.split)

lemma init_law:
  assumes "db_ok db" and "sqlite_init fails now db = (r, db')"
  shows "db_ok db' \<and> dbContent db' = dbContent db \<and> (r = None \<longrightarrow> dbCache db' \<noteq> None)"
  using assms by (auto simp: sqlite_init_def Let_def db_ok_def simp del: not_None_eq split: option.splits if_splits)

lemma init_succeeds: "fst (sqlite_init (\<lambda>_. None) now db) = None"
  by (simp add: sqlite_init_def Let_def)

lemma New_law:
  assumes "db_ok db" and "NewSQLiteStore mkdir open_err fails now path latency db = (r, db')"
  shows "db_ok db' \<and> dbContent db' = dbContent db \<and>
    (\<forall>s. r = Inr s \<longrightarrow> sqDB s = db' \<and> sqlite_ready s \<and> sqlite_content s = dbContent db)"
  using assms init_law [OF assms(1), of fails now]
  by (auto simp: NewSQLiteStore_def sqlite_ready_def sqlite_content_def split: option.splits if_splits prod.splits)

lemma New_succeeds:
  assumes "path \<noteq> []"
  shows "\<exists>s. fst (NewSQLiteStore None None (\<lambda>_. None) now path latency db) = Inr s"
  using assms init_succeeds [of now db] by (auto simp: NewSQLiteStore_def split: prod.splits option.splits)

text \<open>
  C20: Opening a database never loses a value: at whichever call it fails, the values in the file are those
  it had, the version is recorded only with the table, and the next opening that meets no error gives a
  store, ready, with exactly these values.
\<close>

theorem sqlite_migration_retries:
  assumes "db_ok db" and "NewSQLiteStore mkdir open_err fails now path latency db = (r, db')" and "path \<noteq> []"
  shows "db_ok db' \<and> dbContent db' = dbContent db \<and>
    (\<exists>s. fst (NewSQLiteStore None None (\<lambda>_. None) now' path latency' db') = Inr s \<and> sqlite_ready s \<and> sqlite_content s = dbContent db)"
proof -
  note l = New_law [OF assms(1,2)]
  obtain s where s: "fst (NewSQLiteStore None None (\<lambda>_. None) now' path latency' db') = Inr s" using New_succeeds [OF assms(3)] by blast
  then obtain db2 where "NewSQLiteStore None None (\<lambda>_. None) now' path latency' db' = (Inr s, db2)" by (metis prod.collapse)
  from New_law [OF _ this] l s show ?thesis by auto
qed

definition full_at :: "nat \<Rightarrow> nat \<Rightarrow> error option" where
  "full_at n i = (if i = n then Some ''disk full'' else None)"

lemma sqlite_migration_retries_witness:
  "fst (NewSQLiteStore None None (full_at 4) 7 ''cache.db'' 0 emptyDB) = Inl ''disk full'' \<and>
   (case fst (NewSQLiteStore None None (\<lambda>_. None) 8 ''cache.db'' 0 (snd (NewSQLiteStore None None (full_at 4) 7 ''cache.db'' 0 emptyDB))) of
      Inl e \<Rightarrow> False | Inr s \<Rightarrow> sqlite_content s = Map.empty)"
proof -
  have e: "NewSQLiteStore None None (full_at 4) 7 ''cache.db'' 0 emptyDB = (Inl ''disk full'', \<lparr>dbMigrations = Some [], dbCache = None\<rparr>)"
    by code_simp
  have "db_ok emptyDB" by code_simp
  moreover have "dbContent emptyDB = Map.empty" by (simp add: dbContent_def emptyDB_def)
  ultimately show ?thesis using sqlite_migration_retries [OF _ e, of 8 0] by (auto simp: e)
qed

section \<open>The quoted path\<close>

text \<open>A string literal of SQL at the start of a text, with what follows it\<close>

fun literalBody :: "string \<Rightarrow> (string \<times> string) option" where
  "literalBody [] = None"
| "literalBody (c # s) =
     (if c = CHR 0x27 then
        (case s of
           d # t \<Rightarrow> if d = CHR 0x27 then map_option (apfst (\<lambda>u. c # u)) (literalBody t) else Some ([], s)
         | [] \<Rightarrow> Some ([], []))
      else map_option (apfst (\<lambda>u. c # u)) (literalBody s))"

fun sqlLiteral :: "string \<Rightarrow> (string \<times> string) option" where
  "sqlLiteral [] = None"
| "sqlLiteral (c # s) = (if c = CHR 0x27 then literalBody s else None)"

lemma literalBody_quoted:
  "literalBody (Replace (\<lambda>c. if c = CHR 0x27 then Some [CHR 0x27, CHR 0x27] else None) v @ CHR 0x27 # rest) =
     (if rest \<noteq> [] \<and> hd rest = CHR 0x27 then literalBody (Replace (\<lambda>c. if c = CHR 0x27 then Some [CHR 0x27, CHR 0x27] else None) v @ CHR 0x27 # rest)
      else Some (v, rest))"
  by (induction v) (auto simp: Replace_def split: list.split)

text \<open>
  \<open>quoteSQLiteLiteral\<close> is safe against injection: SQL reads the quoted path back as the one literal that
  it was, whatever characters it has, and the statement ends after it.
\<close>

theorem sqlite_quote_roundtrip: "sqlLiteral (quoteSQLiteLiteral v) = Some (v, [])"
  using literalBody_quoted [of v "[]"] by (simp add: quoteSQLiteLiteral_def)

section \<open>Backups\<close>

text \<open>
  A backup that reports success has made a copy of the database as it is and left the other files alone; it
  never overwrites a file. A path at which there is no database is created empty, and its backup reports
  success.
\<close>

theorem backup_copies:
  assumes "BackupSQLiteDatabase mkdir open_err dberr junk path destination fs = (err, fs')"
  shows "(\<forall>p. p \<noteq> destination \<longrightarrow> p \<noteq> path \<longrightarrow> map_of fs' p = map_of fs p) \<and>
    (case map_of fs destination of Some old \<Rightarrow> map_of fs' destination = Some old | None \<Rightarrow> True) \<and>
    (err = None \<longrightarrow> map_of fs destination = None \<and>
       map_of fs' destination = Some (case map_of fs path of None \<Rightarrow> emptyDB | Some db \<Rightarrow> db))"
  using assms by (auto simp: BackupSQLiteDatabase_def Let_def map_of_update_upd split: option.splits if_splits)

lemma backup_copies_witness:
  "map_of (snd (BackupSQLiteDatabase None None None None ''typo.db'' ''copy.db'' [(''cache.db'', emptyDB)])) ''copy.db'' = Some emptyDB"
proof -
  have e: "BackupSQLiteDatabase None None None None ''typo.db'' ''copy.db'' [(''cache.db'', emptyDB)] =
      (None, [(''cache.db'', emptyDB), (''typo.db'', emptyDB), (''copy.db'', emptyDB)])"
    by code_simp
  from backup_copies [OF e] show ?thesis by (simp add: e)
qed

section \<open>Restarts\<close>

context write_policy
begin

text \<open>A new cache over the store that an earlier one wrote\<close>

lemma wt_reopen:
  "wt_rel t m w \<Longrightarrow> inv c \<Longrightarrow> live c = Map.empty \<Longrightarrow> ready st \<Longrightarrow> content st = content (wcStore w) \<Longrightarrow>
   wt_rel t m \<lparr>wcInner = c, wcStore = st\<rparr>"
  by (simp add: wt_rel_def)

lemma wt_run_ready:
  assumes "inv c" "live c = Map.empty" "content st = Map.empty" "ready st"
    and "sorted (concat (map op_time xs) @ [t])" and "\<forall>x\<in>set xs. storable x"
  shows "ready (wcStore (foldl (cache_step (wt_cache M B um)) \<lparr>wcInner = c, wcStore = st\<rparr> xs))"
proof -
  obtain t0 where t0: "sorted (t0 # concat (map op_time xs) @ [t])" using clock_start [OF assms(5)] by blast
  have "wt_rel t0 Map.empty \<lparr>wcInner = c, wcStore = st\<rparr>" using assms(1-4) by (simp add: wt_rel_def store_holds_def)
  from wt_run_rel [OF this t0 assms(6)] show ?thesis by (auto simp: wt_rel_def)
qed

lemma wt_restart:
  assumes "inv c0" "live c0 = Map.empty" "content st0 = Map.empty" "ready st0"
    and "inv c" "live c = Map.empty" and st: "ready st"
      "content st = content (wcStore (foldl (cache_step (wt_cache M B um)) \<lparr>wcInner = c0, wcStore = st0\<rparr> xs))"
    and clock: "sorted (concat (map op_time xs) @ [t])" "sorted (t # concat (map op_time ys) @ [now])"
    and storable: "\<forall>x\<in>set xs. storable x" "\<forall>x\<in>set ys. storable x"
  shows "read_ok now (foldl durable_step Map.empty (xs @ ys) k)
    (fst (mGet (wt_cache M B um) now k (foldl (cache_step (wt_cache M B um)) \<lparr>wcInner = c, wcStore = st\<rparr> ys)))"
proof -
  let ?w = "foldl (cache_step (wt_cache M B um)) \<lparr>wcInner = c0, wcStore = st0\<rparr> xs"
  let ?w' = "foldl (cache_step (wt_cache M B um)) \<lparr>wcInner = c, wcStore = st\<rparr> ys"
  obtain t0 where t0: "sorted (t0 # concat (map op_time xs) @ [t])" using clock_start [OF clock(1)] by blast
  have "wt_rel t0 Map.empty \<lparr>wcInner = c0, wcStore = st0\<rparr>" using assms(1-4) by (simp add: wt_rel_def store_holds_def)
  then obtain t1 where t1: "t1 \<le> t" "wt_rel t1 (foldl durable_step Map.empty xs) ?w"
    using wt_run_rel [OF _ t0 storable(1)] by blast
  from wt_reopen [OF t1(2) assms(5,6) st] have "wt_rel t1 (foldl durable_step Map.empty xs) \<lparr>wcInner = c, wcStore = st\<rparr>" .
  moreover have "sorted (t1 # concat (map op_time ys) @ [now])" using clock(2) t1(1) by (auto intro: order_trans)
  ultimately obtain t2 where t2: "t2 \<le> now" "wt_rel t2 (foldl durable_step (foldl durable_step Map.empty xs) ys) ?w'"
    using wt_run_rel [OF _ _ storable(2)] by blast
  obtain res evs w'' where g: "wt_Get M B um now now now k ?w' = (res, evs, w'')" by (cases "wt_Get M B um now now now k ?w'")
  from wt_Get_rel [OF t2(2,1) g] g show ?thesis by (simp add: wt_cache_def)
qed

end

lemma sqlite_policy_on:
  assumes "cache_contract M okC live" and "reads_back um"
  shows "write_policy M okC live (sqlite_store None None (Some []) t) sqlite_content sqlite_ready um"
  using assms sqliteOk.reliable_store_axioms
  by (simp add: write_policy_def envelope_reader_def reads_back_def)

abbreviation sq_run :: "'c Cache \<Rightarrow> int \<Rightarrow> 'c \<Rightarrow> SQLiteStore \<Rightarrow> cacheOp list \<Rightarrow> ('c, SQLiteStore) WriteCache" where
  "sq_run M t c st xs \<equiv> foldl (cache_step (wt_cache M (sqlite_store None None (Some []) t) parseEnvelope)) \<lparr>wcInner = c, wcStore = st\<rparr> xs"



end
