(* ===== verification/Server_Startup.thy ===== *)
theory Server_Startup
  imports SQLite_Store Handlers Auth
begin

text \<open>
  cmd/server/main.go: the settings read from the environment, the choice of the backing store, the
  stores, their demo data, the coordinator and the checked configuration. The environment is a
  function from names to values, empty when unset; what the file system and the
  database answer at the start, the clock and the order in which a map is visited are in a
  record \<open>World\<close>. Logging leaves no trace. Listening, the signals and the time-outs of the HTTP
  server are left outside; what they run at the end is \<open>cleanup\<close>.
\<close>

section \<open>Settings\<close>

type_synonym environ = "string \<Rightarrow> string"

definition defaultString :: "string \<Rightarrow> string \<Rightarrow> string" where
  "defaultString value fallback = (if TrimSpace value = [] then fallback else value)"

definition parseBoolEnv :: "environ \<Rightarrow> string \<Rightarrow> bool \<Rightarrow> bool" where
  "parseBoolEnv env k fallback =
     (let raw = TrimSpace (env k)
      in if raw = [] then fallback
         else if ToLower raw \<in> {''1'', ''true'', ''yes'', ''on''} then True
         else if ToLower raw \<in> {''0'', ''false'', ''no'', ''off''} then False
         else fallback)"

definition cfgRuntimeAddr :: "environ \<Rightarrow> string" where
  "cfgRuntimeAddr env = TrimSpace (defaultString (env ''CACHE_ENGINE_ADDR'') '':8080'')"

definition cfgRuntimeEnv :: "environ \<Rightarrow> string" where
  "cfgRuntimeEnv env =
     (let e = ToLower (TrimSpace (defaultString (env ''CACHE_ENGINE_ENV'') ''production''))
      in if e = ''dev'' then ''development''
         else if e = ''development'' \<or> e = ''production'' then e
         else ''production'')"

definition cfgRuntimeAllowInsecureNoAuth :: "environ \<Rightarrow> bool" where
  "cfgRuntimeAllowInsecureNoAuth env = parseBoolEnv env ''CACHE_ENGINE_ALLOW_INSECURE_NO_AUTH'' False"

record runtimeConfig =
  rcAddr :: string
  rcEnvironment :: string
  rcAllowInsecureNoAuth :: bool
  rcSeedDemoData :: bool
  rcLogFormat :: string
  rcLogLevel :: string

definition loadRuntimeConfig :: "environ \<Rightarrow> runtimeConfig" where
  "loadRuntimeConfig env =
     \<lparr>rcAddr = cfgRuntimeAddr env, rcEnvironment = cfgRuntimeEnv env,
      rcAllowInsecureNoAuth = cfgRuntimeAllowInsecureNoAuth env,
      rcSeedDemoData = parseBoolEnv env ''CACHE_ENGINE_SEED_DEMO_DATA'' False,
      rcLogFormat = TrimSpace (defaultString (env ''CACHE_ENGINE_LOG_FORMAT'') ''json''),
      rcLogLevel = TrimSpace (defaultString (env ''CACHE_ENGINE_LOG_LEVEL'') ''info'')\<rparr>"

datatype logLevel = LevelDebug | LevelInfo | LevelWarn | LevelError

definition parseLogLevel :: "string \<Rightarrow> logLevel" where
  "parseLogLevel level =
     (let l = ToLower (TrimSpace level)
      in if l = ''debug'' then LevelDebug
         else if l = ''warn'' \<or> l = ''warning'' then LevelWarn
         else if l = ''error'' then LevelError
         else LevelInfo)"

datatype logHandler = TextHandler logLevel | JSONHandler logLevel

definition setupLogger :: "string \<Rightarrow> string \<Rightarrow> logHandler" where
  "setupLogger format level =
     (if ToLower format = ''text'' then TextHandler (parseLogLevel level) else JSONHandler (parseLogLevel level))"

text \<open>The levels in the order of log/slog, and which records a handler prints\<close>

definition levelValue :: "logLevel \<Rightarrow> int" where
  "levelValue l = (case l of LevelDebug \<Rightarrow> -4 | LevelInfo \<Rightarrow> 0 | LevelWarn \<Rightarrow> 4 | LevelError \<Rightarrow> 8)"

instantiation logLevel :: linorder
begin

definition less_eq_logLevel :: "logLevel \<Rightarrow> logLevel \<Rightarrow> bool" where
  "less_eq_logLevel a b \<longleftrightarrow> levelValue a \<le> levelValue b"

definition less_logLevel :: "logLevel \<Rightarrow> logLevel \<Rightarrow> bool" where
  "less_logLevel a b \<longleftrightarrow> levelValue a < levelValue b"

instance
proof
  fix a b :: logLevel
  show "a \<le> b \<Longrightarrow> b \<le> a \<Longrightarrow> a = b" by (cases a; cases b) (simp_all add: less_eq_logLevel_def levelValue_def)
qed (auto simp: less_eq_logLevel_def less_logLevel_def)

end

definition logEnabled :: "logHandler \<Rightarrow> logLevel \<Rightarrow> bool" where
  "logEnabled h l = (case h of TextHandler threshold \<Rightarrow> threshold \<le> l | JSONHandler threshold \<Rightarrow> threshold \<le> l)"

text \<open>Errors are logged whatever the settings say.\<close>

lemma errors_logged: "logEnabled (setupLogger format level) LevelError"
  by (simp add: setupLogger_def parseLogLevel_def logEnabled_def less_eq_logLevel_def levelValue_def Let_def)

definition sanitizeLogValue :: "string \<Rightarrow> string" where
  "sanitizeLogValue v = Replace (\<lambda>c. if c \<in> {CHR 0x0A, CHR 0x0D, CHR 0x09} then Some ''_'' else None) v"

text \<open>The settings that are only taken when they read as a number, and mostly as a positive one\<close>

definition intSetting :: "environ \<Rightarrow> string \<Rightarrow> int option" where
  "intSetting env k = (let v = TrimSpace (env k) in if v = [] then None else Atoi v)"

definition positiveSetting :: "environ \<Rightarrow> string \<Rightarrow> int option" where
  "positiveSetting env k = (case intSetting env k of None \<Rightarrow> None | Some n \<Rightarrow> if n > 0 then Some n else None)"

definition millisSetting :: "environ \<Rightarrow> string \<Rightarrow> duration \<Rightarrow> duration" where
  "millisSetting env k fallback = (case positiveSetting env k of None \<Rightarrow> fallback | Some n \<Rightarrow> ofMillis (word_of_int n))"

definition allowedOrigins :: "environ \<Rightarrow> runtimeConfig \<Rightarrow> string list" where
  "allowedOrigins env rc =
     (let origins = Split (CHR '','') (env ''CACHE_ENGINE_ALLOWED_ORIGINS'')
      in if rcEnvironment rc = ''development'' \<and> length origins = 1 \<and> TrimSpace (origins ! 0) = []
         then [''http://localhost:5173'', ''http://127.0.0.1:5173'', ''http://localhost:4173'', ''http://127.0.0.1:4173'']
         else origins)"

definition stateDBPath :: "environ \<Rightarrow> string" where
  "stateDBPath env =
     (let p = TrimSpace (env ''CACHE_ENGINE_STATE_DB_PATH'') in if p = [] then ''data/cache-engine.db'' else p)"

definition serverConfig :: "environ \<Rightarrow> runtimeConfig \<Rightarrow> string \<Rightarrow> ServerConfig" where
  "serverConfig env rc dataPath =
     (let cfg = NewServerConfig (allowedOrigins env rc) (env ''CACHE_ENGINE_API_KEY'');
          cfg = cfg\<lparr>cfgEnvironment := rcEnvironment rc\<rparr>;
          cfg = cfg\<lparr>cfgAllowInsecureNoAuth := rcAllowInsecureNoAuth rc\<rparr>;
          cfg = cfg\<lparr>cfgStateDBPath := dataPath\<rparr>;
          cfg = (case intSetting env ''CACHE_ENGINE_RATE_LIMIT_REQUESTS'' of
                   None \<Rightarrow> cfg | Some n \<Rightarrow> cfg\<lparr>cfgRateLimitRequests := n\<rparr>);
          cfg = cfg\<lparr>cfgRateLimitWindow := millisSetting env ''CACHE_ENGINE_RATE_LIMIT_WINDOW_MS'' (cfgRateLimitWindow cfg)\<rparr>;
          results = TrimSpace (env ''CACHE_ENGINE_BENCHMARK_RESULTS_PATH'');
          cfg = cfg\<lparr>cfgBenchmarkResultsPath := if results = [] then ''data/benchmark-jobs.json'' else results\<rparr>;
          cfg = cfg\<lparr>cfgSSETokenTTL := millisSetting env ''CACHE_ENGINE_SSE_TOKEN_TTL_MS'' (cfgSSETokenTTL cfg)\<rparr>
      in cfg\<lparr>cfgShutdownTimeout := millisSetting env ''CACHE_ENGINE_SHUTDOWN_TIMEOUT_MS'' (cfgShutdownTimeout cfg)\<rparr>)"

section \<open>The backing store\<close>

text \<open>The dynamic types behind the interface \<open>ConfigurableStore\<close>\<close>

datatype backing = SQLiteBacking SQLiteStore | MemoryBacking MemoryStore

fun backing_Get :: "error option \<Rightarrow> error option \<Rightarrow> key \<Rightarrow> backing \<Rightarrow> (error + bytes) \<times> backing" where
  "backing_Get ctx dberr k (SQLiteBacking s) = apsnd SQLiteBacking (sqlite_Get ctx dberr k s)"
| "backing_Get ctx dberr k (MemoryBacking m) = apsnd MemoryBacking (memory_Get ctx k m)"

fun backing_Set :: "error option \<Rightarrow> error option \<Rightarrow> bytes option \<Rightarrow> int \<Rightarrow> key \<Rightarrow> bytes \<Rightarrow> backing \<Rightarrow> error option \<times> backing" where
  "backing_Set ctx dberr nilBlob nowMs k v (SQLiteBacking s) = apsnd SQLiteBacking (sqlite_Set ctx dberr nilBlob nowMs k v s)"
| "backing_Set ctx dberr nilBlob nowMs k v (MemoryBacking m) = apsnd MemoryBacking (memory_Set ctx k v m)"

fun backing_Delete :: "error option \<Rightarrow> error option \<Rightarrow> key \<Rightarrow> backing \<Rightarrow> error option \<times> backing" where
  "backing_Delete ctx dberr k (SQLiteBacking s) = apsnd SQLiteBacking (sqlite_Delete ctx dberr k s)"
| "backing_Delete ctx dberr k (MemoryBacking m) = apsnd MemoryBacking (memory_Delete ctx k m)"

fun backing_SetLatency :: "duration \<Rightarrow> backing \<Rightarrow> backing" where
  "backing_SetLatency d (SQLiteBacking s) = SQLiteBacking (sqlite_SetLatency d s)"
| "backing_SetLatency d (MemoryBacking m) = MemoryBacking (memory_SetLatency d m)"

fun backing_GetLatency :: "backing \<Rightarrow> duration" where
  "backing_GetLatency (SQLiteBacking s) = sqlite_GetLatency s"
| "backing_GetLatency (MemoryBacking m) = memory_GetLatency m"

definition backing_ops :: "error option \<Rightarrow> error option \<Rightarrow> bytes option \<Rightarrow> int \<Rightarrow> backing ConfigurableStore" where
  "backing_ops ctx dberr nilBlob nowMs =
     \<lparr>bGet = backing_Get ctx dberr, bSet = backing_Set ctx dberr nilBlob nowMs, bDelete = backing_Delete ctx dberr,
      csSetLatency = backing_SetLatency, csGetLatency = backing_GetLatency\<rparr>"

fun backing_content :: "backing \<Rightarrow> key \<rightharpoonup> bytes" where
  "backing_content (SQLiteBacking s) = sqlite_content s"
| "backing_content (MemoryBacking m) = memory_content m"

fun backing_ready :: "backing \<Rightarrow> bool" where
  "backing_ready (SQLiteBacking s) = sqlite_ready s"
| "backing_ready (MemoryBacking m) = True"

lemma backing_sel [simp]: "bGet (bstore (backing_ops ctx dberr nb t)) = backing_Get ctx dberr"
  "bSet (bstore (backing_ops ctx dberr nb t)) = backing_Set ctx dberr nb t"
  "bDelete (bstore (backing_ops ctx dberr nb t)) = backing_Delete ctx dberr"
  by (simp_all add: backing_ops_def BackingStore.defs)

interpretation backing: failing_store "bstore (backing_ops ctx dberr (Some []) t)" backing_content
proof
  fix k s r s' assume "bGet (bstore (backing_ops ctx dberr (Some []) t)) k s = (r, s')"
  then show "backing_content s' = backing_content s \<and> (\<forall>v. r = Inr v \<longrightarrow> backing_content s k = Some v)"
    by (cases s) (auto dest: sqlite_Get_law memory_laws(1) simp: apsnd_def map_prod_def split: prod.splits)
next
  fix k v s err s' assume "bSet (bstore (backing_ops ctx dberr (Some []) t)) k v s = (err, s')"
  then show "backing_content s' = (if err = None then (backing_content s)(k \<mapsto> v) else backing_content s)"
    by (cases s) (auto dest: sqlite_Set_law memory_laws(2) simp: apsnd_def map_prod_def split: prod.splits)
next
  fix k s err s' assume "bDelete (bstore (backing_ops ctx dberr (Some []) t)) k s = (err, s')"
  then show "backing_content s' = (if err = None then (backing_content s)(k := None) else backing_content s)"
    by (cases s) (auto dest: sqlite_Delete_law memory_laws(3) simp: apsnd_def map_prod_def split: prod.splits)
qed

lemma sqliteOk_eq:
  "sqlite_ready s \<Longrightarrow> sqlite_Get None None k s = (case sqlite_content s k of None \<Rightarrow> (Inl (''key not found: '' @ k), s) | Some v \<Rightarrow> (Inr v, s))"
  by (auto simp: sqlite_ready_def sqlite_Get_def sqlite_sleep_def sqlite_content_def dbContent_def split: option.splits)

interpretation backingOk: reliable_store "bstore (backing_ops None None (Some []) t)" backing_content backing_ready
proof
  fix k s r s' assume "backing_ready s" "bGet (bstore (backing_ops None None (Some []) t)) k s = (r, s')"
  then show "backing_ready s' \<and> backing_content s' = backing_content s \<and>
      (case backing_content s k of None \<Rightarrow> \<exists>e. r = Inl e | Some v \<Rightarrow> r = Inr v)"
    using memoryOk.bget by (cases s) (auto simp: sqliteOk_eq memory_store_def apsnd_def map_prod_def split: prod.splits option.splits)
next
  fix k v s err s' assume a: "backing_ready s" "bSet (bstore (backing_ops None None (Some []) t)) k v s = (err, s')"
  show "backing_ready s' \<and> err = None \<and> backing_content s' = (backing_content s)(k \<mapsto> v)"
  proof (cases s)
    case (SQLiteBacking q)
    obtain e q' where q: "sqlite_Set None None (Some []) t k v q = (e, q')" by (cases "sqlite_Set None None (Some []) t k v q")
    with sqliteOk.bset [of q t k v e q'] a SQLiteBacking show ?thesis by (auto simp: sqlite_store_def)
  next
    case (MemoryBacking m)
    obtain e m' where q: "memory_Set None k v m = (e, m')" by (cases "memory_Set None k v m")
    with memoryOk.bset [OF TrueI, of k v m e m'] a MemoryBacking show ?thesis by (auto simp: memory_store_def)
  qed
next
  fix k s err s' assume a: "backing_ready s" "bDelete (bstore (backing_ops None None (Some []) t)) k s = (err, s')"
  show "backing_ready s' \<and> err = None \<and> backing_content s' = (backing_content s)(k := None)"
  proof (cases s)
    case (SQLiteBacking q)
    obtain e q' where q: "sqlite_Delete None None k q = (e, q')" by (cases "sqlite_Delete None None k q")
    with sqliteOk.bdelete [of q _ k e q'] a SQLiteBacking show ?thesis by (auto simp: sqlite_store_def)
  next
    case (MemoryBacking m)
    obtain e m' where q: "memory_Delete None k m = (e, m')" by (cases "memory_Delete None k m")
    with memoryOk.bdelete [OF TrueI, of k m e m'] a MemoryBacking show ?thesis by (auto simp: memory_store_def)
  qed
qed

section \<open>The start\<close>

record World =
  wdEnv :: environ
  wdMkdir :: "error option"
  wdOpen :: "error option"
  wdInit :: "nat \<Rightarrow> error option"
  wdStoreErr :: "error option"
  wdNilBlob :: "bytes option"
  wdNow :: int
  wdClock :: "nat \<Rightarrow> instant"
  wdOrder :: "string list"

text \<open>\<open>fmt.Errorf("%q")\<close> of a cleaned name, on printable ASCII\<close>

definition quoted :: "string \<Rightarrow> string" where
  "quoted v = [CHR 0x22] @ Replace (\<lambda>c. if c \<in> {CHR 0x22, CHR 0x5C} then Some [CHR 0x5C, c] else None) v @ [CHR 0x22]"

definition chooseBacking :: "World \<Rightarrow> string \<Rightarrow> sqliteDB \<Rightarrow> (string \<times> error) + backing" where
  "chooseBacking w dataPath db =
     (let driver = TrimSpace (wdEnv w ''CACHE_ENGINE_BACKING_STORE_DRIVER'')
      in if driver = [] \<or> driver = ''sqlite'' then
           (case fst (NewSQLiteStore (wdMkdir w) (wdOpen w) (wdInit w) (wdNow w) dataPath 5000000 db) of
              Inl err \<Rightarrow> Inl (''backing_store_init_failed'', err)
            | Inr s \<Rightarrow> Inr (SQLiteBacking s))
         else if driver = ''memory'' then Inr (MemoryBacking (NewMemoryStore 5000000))
         else Inl (''unsupported_backing_store_driver'', quoted (sanitizeLogValue driver)))"

definition mainStores :: "(string \<times> error) + (string, StoreEntry option) gomap" where
  "mainStores =
     (case NewStoreEntry ''lru'' ''write-through'' 1000 True of
        Inl err \<Rightarrow> Inl (''create_lru_store_failed'', err)
      | Inr lruStore \<Rightarrow>
          (case NewStoreEntry ''lfu'' ''write-through'' 1000 True of
             Inl err \<Rightarrow> Inl (''create_lfu_store_failed'', err)
           | Inr lfuStore \<Rightarrow>
               (case NewStoreEntry ''arc'' ''write-through'' 1000 True of
                  Inl err \<Rightarrow> Inl (''create_arc_store_failed'', err)
                | Inr arcStore \<Rightarrow>
                    Inr [(''lru'', Some lruStore), (''lfu'', Some lfuStore), (''arc'', Some arcStore),
                         (''lru-sharded'', Some \<lparr>seCache = Some (ShardedLRU (sharded_New 10000 ''lru'' lru_New)), sePolicy = ''lru'',
                            seWritePolicy = ''none'', seBacked = False, seKind = storeKindSharded, seAllowWritePolicy = False\<rparr>)])))"

text \<open>
  The demo data: 200 keys and 10000 reads of them, in turn, in each store. \<open>ts\<close> are the readings of the
  clock, counted from \<open>n\<close>; a store without a cache is a nil dereference, \<open>None\<close>.
\<close>

definition seedWords :: "string list" where
  "seedWords = [''apple'', ''banana'', ''cherry'', ''delta'', ''echo'', ''foxtrot'', ''golf'', ''hotel'']"

definition seedKey :: "nat \<Rightarrow> key" where
  "seedKey i = ''seed:'' @ showNat i"

definition seedEntry :: "'s BackingStore \<Rightarrow> (bytes \<Rightarrow> ttlEnvelope option) \<Rightarrow> (nat \<Rightarrow> instant) \<Rightarrow> storeCache \<times> 's \<Rightarrow> storeCache \<times> 's" where
  "seedEntry B um ts cs =
     (let cs = foldl (\<lambda>cs i. snd (sc_Set B (ts (2 * i)) (ts (2 * i + 1)) (seedKey i) (toBytes (seedWords ! (i mod length seedWords))) 0 cs))
                 cs [0..<200]
      in foldl (\<lambda>cs i. snd (sc_Get B um (ts (400 + 3 * i)) (ts (401 + 3 * i)) (ts (402 + 3 * i)) (seedKey (i mod 200)) cs)) cs [0..<10000])"

fun seedCaches :: "'s BackingStore \<Rightarrow> (bytes \<Rightarrow> ttlEnvelope option) \<Rightarrow> (nat \<Rightarrow> instant) \<Rightarrow> string list \<Rightarrow>
    (string, StoreEntry option) gomap \<times> 's \<Rightarrow> ((string, StoreEntry option) gomap \<times> 's) option" where
  "seedCaches B um ts [] ms = Some ms"
| "seedCaches B um ts (name # names) (m, st) =
     (case map_of m name of
        None \<Rightarrow> seedCaches B um (\<lambda>n. ts (n + 30400)) names (m, st)
      | Some entry \<Rightarrow>
          (case entryCache entry of
             None \<Rightarrow> None
           | Some (e, c) \<Rightarrow>
               (let (c', st') = seedEntry B um ts (c, st)
                in seedCaches B um (\<lambda>n. ts (n + 30400)) names (AList.update name (Some (e\<lparr>seCache := Some c'\<rparr>)) m, st'))))"

datatype startup = Exits string error | Serves ServerConfig "backing Handler"

definition mainCoordinator :: "LRUCache System" where
  "mainCoordinator = NewCoordinator [(''node-a'', lru_New 100), (''node-b'', lru_New 100), (''node-c'', lru_New 100)] NewBus"

definition server_main :: "(bytes \<Rightarrow> ttlEnvelope option) \<Rightarrow> World \<Rightarrow> sqliteDB \<Rightarrow> startup option" where
  "server_main um w db =
     (let env = wdEnv w; rc = loadRuntimeConfig env; dataPath = stateDBPath env
      in case chooseBacking w dataPath db of
           Inl (event, err) \<Rightarrow> Some (Exits event err)
         | Inr st \<Rightarrow>
             (case mainStores of
                Inl (event, err) \<Rightarrow> Some (Exits event err)
              | Inr stores \<Rightarrow>
                  (case (if rcSeedDemoData rc
                         then seedCaches (bstore (backing_ops None (wdStoreErr w) (wdNilBlob w) (wdNow w))) um (wdClock w) (wdOrder w) (stores, st)
                         else Some (stores, st)) of
                     None \<Rightarrow> None
                   | Some (stores, st) \<Rightarrow>
                       (let cfg = serverConfig env rc dataPath
                        in case cfg_Validate cfg of
                             Some err \<Rightarrow> Some (Exits ''server_config_invalid'' err)
                           | None \<Rightarrow>
                               Some (Serves cfg \<lparr>hStores = stores, hBacking = st, hCoordinator = Some (syCo mainCoordinator),
                                  hBenchActive = False, hBenchBacked = (cfgBenchmarkResultsPath cfg \<noteq> [])\<rparr>)))))"

text \<open>What runs at the end, once: \<open>done\<close> is the \<open>sync.Once\<close>. \<open>None\<close> is a panic.\<close>

definition cleanup :: "backing ConfigurableStore \<Rightarrow> instant \<Rightarrow> bool \<times> backing Handler \<times> LRUCache Coordinator \<Rightarrow>
    (bool \<times> backing Handler \<times> LRUCache Coordinator) option" where
  "cleanup B now p =
     (case p of (cleaned, h, co) \<Rightarrow>
        if cleaned then Some p
        else map_option (\<lambda>co'. (True, handler_Shutdown B now h, co')) (coordinator_Close co))"

section \<open>What a server that starts has\<close>

definition stores_ok :: "(string, StoreEntry option) gomap \<Rightarrow> bool" where
  "stores_ok m \<longleftrightarrow> distinct (map fst m) \<and> (\<forall>(n, e)\<in>set m. served_entry e)"

lemma mainStores_ok: "\<exists>stores. mainStores = Inr stores \<and> stores_ok stores"
proof -
  have b: "base_ok (BaseLRU (lru_New 1000))" "base_ok (BaseLFU (lfu_New 1000))" "base_ok (BaseARC (arc_New 1000))"
    using newBaseCache_ok [of "''lru''" 1000] newBaseCache_ok [of "''lfu''" 1000] newBaseCache_ok [of "''arc''" 1000]
    by (simp_all add: newBaseCache_def)
  have "sc_ok (ShardedLRU (sharded_New 10000 ''lru'' lru_New))"
    using lru_New_live by (auto simp: sc_ok_def sharded_ok_def sharded_New_def)
  with b show ?thesis
    by (simp add: mainStores_def NewStoreEntry_def newBaseCache_def wrapCache_def stores_ok_def served_entry_def entryCache_def entry_ok_def)
qed

lemma seedEntry_ok:
  assumes "sc_ok c" and "seedEntry B um ts (c, st) = (c', st')"
  shows "sc_ok c' \<and> (baseOf c' = None \<longleftrightarrow> baseOf c = None)"
proof -
  define I where "I cs \<longleftrightarrow> sc_ok (fst cs) \<and> (baseOf (fst cs) = None \<longleftrightarrow> baseOf c = None)" for cs :: "storeCache \<times> 'a"
  have set_step: "I (snd (sc_Set B t1 t2 k v ttl cs))" if "I cs" for t1 t2 k v ttl cs
    using that sc_Set_ok [of "fst cs" B t1 t2 k v ttl "snd cs"] sc_shape(2) [of B t1 t2 k v ttl "fst cs" "snd cs"]
    by (cases cs; cases "sc_Set B t1 t2 k v ttl cs") (auto simp: I_def)
  have get_step: "I (snd (sc_Get B um t1 t2 t3 k cs))" if "I cs" for t1 t2 t3 k cs
    using that sc_Get_ok [of "fst cs" B um t1 t2 t3 k "snd cs"] sc_shape(1) [of B um t1 t2 t3 k "fst cs" "snd cs"]
    by (cases cs; cases "sc_Get B um t1 t2 t3 k cs") (auto simp: I_def)
  have run: "I cs \<Longrightarrow> (\<And>cs i. I cs \<Longrightarrow> I (f cs i)) \<Longrightarrow> I (foldl f cs is)" for f cs and "is" :: "nat list"
    by (induction "is" arbitrary: cs) auto
  have "I (seedEntry B um ts (c, st))" unfolding seedEntry_def Let_def
    by (intro run set_step get_step) (simp add: I_def assms(1))
  then show ?thesis using assms(2) by (simp add: I_def)
qed

lemma seedCaches_ok: "stores_ok m \<Longrightarrow> \<exists>m' st'. seedCaches B um ts names (m, st) = Some (m', st') \<and> stores_ok m'"
proof (induction names arbitrary: ts m st)
  case (Cons name names)
  show ?case
  proof (cases "map_of m name")
    case None
    with Cons show ?thesis by simp
  next
    case (Some entry)
    then have "served_entry entry" using Cons.prems by (auto simp: stores_ok_def dest: map_of_SomeD)
    then obtain e c where e: "entryCache entry = Some (e, c)" "entry_ok e" "seCache e = Some c" "sc_ok c" "seAllowWritePolicy e \<longrightarrow> baseOf c \<noteq> None"
      by (auto simp: served_entry_def entryCache_def entry_ok_def split: option.splits)
    obtain c' st' where s: "seedEntry B um ts (c, st) = (c', st')" by (cases "seedEntry B um ts (c, st)")
    note ok = seedEntry_ok [OF e(4) s]
    then have bc: "seAllowWritePolicy e \<longrightarrow> baseOf c' \<noteq> None" using e(5) by blast
    have "served_entry (Some (e\<lparr>seCache := Some c'\<rparr>))" using ok e(2) bc by (auto simp: served_entry_def entryCache_def entry_ok_def)
    moreover have "set (AList.update name x m) \<subseteq> insert (name, x) (set m)" for x and m :: "(string, StoreEntry option) gomap"
      by (induction m) auto
    ultimately have "stores_ok (AList.update name (Some (e\<lparr>seCache := Some c'\<rparr>)) m)"
      using Cons.prems by (fastforce simp: stores_ok_def distinct_update)
    from Cons.IH [OF this] show ?thesis using Some e(1) s by simp
  qed
qed simp

lemma mainCoordinator_ok: "coordinator_ok (Some (syCo mainCoordinator))"
proof -
  let ?nodes = "[(''node-a'', lru_New 100), (''node-b'', lru_New 100), (''node-c'', lru_New 100)]"
  have "bus_ok (sy_bus mainCoordinator)" using New_ok [of ?nodes] by (simp add: co_ok_def mainCoordinator_def)
  moreover have "coNodes (syCo mainCoordinator) = ?nodes" by (simp add: mainCoordinator_def NewCoordinator_def split: prod.split)
  ultimately show ?thesis using lru_New_live(1) [of 100] by (simp add: coordinator_ok_def)
qed

lemma serverConfig_sel:
  "cfgAPIKey (serverConfig env rc p) = TrimSpace (env ''CACHE_ENGINE_API_KEY'')"
  "cfgEnvironment (serverConfig env rc p) = rcEnvironment rc"
  "cfgAllowInsecureNoAuth (serverConfig env rc p) = rcAllowInsecureNoAuth rc"
  by (simp_all add: serverConfig_def Let_def NewServerConfig_def split: option.split)

lemma seeded_ok:
  "stores_ok m \<Longrightarrow> \<exists>m' st'. (if b then seedCaches B um ts names (m, st) else Some (m, st)) = Some (m', st') \<and> stores_ok m'"
  using seedCaches_ok [of m B um ts names st] by auto

lemma server_main_cases:
  "\<exists>outcome. server_main um w db = Some outcome \<and>
     (case outcome of
        Exits event err \<Rightarrow> True
      | Serves cfg h \<Rightarrow> cfg_Validate cfg = None \<and> server_ok h \<and>
          cfg = serverConfig (wdEnv w) (loadRuntimeConfig (wdEnv w)) (stateDBPath (wdEnv w)))"
proof (cases "chooseBacking w (stateDBPath (wdEnv w)) db")
  case (Inl e)
  then show ?thesis by (cases e) (simp add: server_main_def Let_def)
next
  case (Inr st)
  let ?cfg = "serverConfig (wdEnv w) (loadRuntimeConfig (wdEnv w)) (stateDBPath (wdEnv w))"
  obtain stores where m: "mainStores = Inr stores" "stores_ok stores" using mainStores_ok by blast
  let ?B = "bstore (backing_ops None (wdStoreErr w) (wdNilBlob w) (wdNow w))"
  obtain m' st' where seeded:
    "(if rcSeedDemoData (loadRuntimeConfig (wdEnv w))
      then seedCaches (bstore (backing_ops None (wdStoreErr w) (wdNilBlob w) (wdNow w))) um (wdClock w) (wdOrder w) (stores, st)
      else Some (stores, st)) = Some (m', st')" "stores_ok m'"
    using seeded_ok [OF m(2), of "rcSeedDemoData (loadRuntimeConfig (wdEnv w))" ?B um "wdClock w" "wdOrder w" st] by blast
  show ?thesis using seeded(2) mainCoordinator_ok unfolding server_main_def Let_def Inr m(1) sum.case seeded(1) option.case prod.case
    by (cases "cfg_Validate ?cfg") (simp_all add: server_ok_def stores_ok_def)
qed


text \<open>A production start without seeds, over memory, and one that is refused\<close>

definition demo_env :: environ where
  "demo_env k = (if k = ''CACHE_ENGINE_API_KEY'' then '' secret '' else if k = ''CACHE_ENGINE_BACKING_STORE_DRIVER'' then ''memory'' else [])"

definition demo_world :: "environ \<Rightarrow> World" where
  "demo_world env = \<lparr>wdEnv = env, wdMkdir = None, wdOpen = None, wdInit = (\<lambda>_. None), wdStoreErr = None, wdNilBlob = Some [],
     wdNow = 0, wdClock = int, wdOrder = []\<rparr>"

lemma demo_start:
  "case server_main um (demo_world demo_env) emptyDB of Some (Serves cfg h) \<Rightarrow> cfgAPIKey cfg = ''secret'' \<and> cfgRateLimitRequests cfg = 120 | _ \<Rightarrow> False"
proof -
  have v: "cfg_Validate (serverConfig demo_env (loadRuntimeConfig demo_env) (stateDBPath demo_env)) = None"
    and k: "cfgAPIKey (serverConfig demo_env (loadRuntimeConfig demo_env) (stateDBPath demo_env)) = ''secret''"
    and r: "cfgRateLimitRequests (serverConfig demo_env (loadRuntimeConfig demo_env) (stateDBPath demo_env)) = 120"
    and b: "chooseBacking (demo_world demo_env) p emptyDB = Inr (MemoryBacking (NewMemoryStore 5000000))" for p
    by (simp_all add: chooseBacking_def demo_world_def) code_simp+
  have s: "\<not> rcSeedDemoData (loadRuntimeConfig demo_env)" by code_simp
  obtain stores where m: "mainStores = Inr stores" using mainStores_ok by blast
  have e: "wdEnv (demo_world demo_env) = demo_env" by (simp add: demo_world_def)
  show ?thesis unfolding server_main_def Let_def e b sum.case m prod.case if_not_P [OF s] option.case v startup.case using k r by blast
qed

end
