(* ===== verification/Load_Test.thy ===== *)
theory Load_Test
  imports API_Server Workloads Server_Startup "HOL-Library.Signed_Division"
begin

text \<open>
  The load test of cmd/loadtest/main.go: its settings, the requests of its three phases, the loops of their
  workers and what they report. The network is a parameter: \<open>ncDo\<close> answers a request in a world \<open>'w\<close>,
  \<open>ncNewRequest\<close> is the error of \<open>http.NewRequestWithContext\<close>. Encoders and decoders of JSON are
  parameters too, and so is \<open>url.Parse\<close>; \<open>%q\<close> is \<open>quoted\<close>, on printable text. \<open>log.Fatal\<close> is the left side of a sum.
\<close>

section \<open>Settings\<close>

record loadConfig =
  lcBaseURL :: string
  lcAPIKey :: string
  lcStore :: string
  lcMode :: string
  lcDuration :: duration
  lcConcurrency :: int
  lcAPIPause :: duration
  lcSSEClients :: int
  lcSSEMinEvents :: int
  lcBenchmarkRuns :: int
  lcBenchmarkDuration :: duration
  lcBenchmarkConcurrency :: int
  lcBenchmarkCacheSize :: int
  lcBenchmarkWorkload :: string
  lcBenchmarkWorkloadN :: int
  lcBenchmarkPolicies :: "string list"

definition getenvDefault :: "(string \<Rightarrow> string) \<Rightarrow> string \<Rightarrow> string \<Rightarrow> string" where
  "getenvDefault env key fallback = (let value = TrimSpace (env key) in if value \<noteq> [] then value else fallback)"

definition splitList :: "string \<Rightarrow> string list" where
  "splitList raw = filter (\<lambda>part. part \<noteq> []) (map TrimSpace (Split CHR '','' raw))"

text \<open>The flags when none is given; the policies are still one string there.\<close>

definition flagDefaults :: "(string \<Rightarrow> string) \<Rightarrow> loadConfig \<times> string" where
  "flagDefaults env =
     (\<lparr>lcBaseURL = getenvDefault env ''CACHE_ENGINE_BASE_URL'' ''http://127.0.0.1:8080'', lcAPIKey = env ''CACHE_ENGINE_API_KEY'',
       lcStore = getenvDefault env ''CACHE_ENGINE_LOADTEST_STORE'' ''lru'', lcMode = getenvDefault env ''CACHE_ENGINE_LOADTEST_MODE'' ''all'',
       lcDuration = 45 * second, lcConcurrency = 16, lcAPIPause = 0, lcSSEClients = 4, lcSSEMinEvents = 3, lcBenchmarkRuns = 2,
       lcBenchmarkDuration = 5 * second, lcBenchmarkConcurrency = 4, lcBenchmarkCacheSize = 500, lcBenchmarkWorkload = ''zipf'',
       lcBenchmarkWorkloadN = 10000, lcBenchmarkPolicies = []\<rparr>, ''lru,lfu,arc'')"

definition checkFlags :: "(string \<Rightarrow> error option) \<Rightarrow> loadConfig \<times> string \<Rightarrow> error + loadConfig" where
  "checkFlags parseURL flags =
     (let (cfg, policies) = flags; cfg = cfg\<lparr>lcBaseURL := TrimRight CHR ''/'' (TrimSpace (lcBaseURL cfg))\<rparr>
      in if lcBaseURL cfg = [] then Inl ''base URL must not be empty''
         else
           (case parseURL (lcBaseURL cfg) of
              Some err \<Rightarrow> Inl (''invalid base URL: '' @ err)
            | None \<Rightarrow>
                if TrimSpace (lcAPIKey cfg) = [] then Inl ''api key is required; set CACHE_ENGINE_API_KEY or pass --api-key''
                else if lcDuration cfg \<le> 0 then Inl ''duration must be greater than zero''
                else if lcConcurrency cfg \<le> 0 then Inl ''concurrency must be greater than zero''
                else if lcSSEClients cfg \<le> 0 then Inl ''sse-clients must be greater than zero''
                else if lcSSEMinEvents cfg \<le> 0 then Inl ''sse-min-events must be greater than zero''
                else if lcBenchmarkRuns cfg \<le> 0 then Inl ''benchmark-runs must be greater than zero''
                else if lcBenchmarkDuration cfg \<le> 0 then Inl ''benchmark-duration must be greater than zero''
                else if lcBenchmarkConcurrency cfg \<le> 0 then Inl ''benchmark-concurrency must be greater than zero''
                else if lcBenchmarkCacheSize cfg \<le> 0 then Inl ''benchmark-cache-size must be greater than zero''
                else if lcBenchmarkWorkloadN cfg \<le> 0 then Inl ''benchmark-workload-n must be greater than zero''
                else Inr (let ps = splitList policies
                          in cfg\<lparr>lcBenchmarkPolicies := (if length ps = 0 then [''lru'', ''lfu'', ''arc''] else ps)\<rparr>)))"

text \<open>Which of the phases run: API, streams, benchmarks\<close>

definition modesOf :: "string \<Rightarrow> error + bool \<times> bool \<times> bool" where
  "modesOf mode =
     (if mode \<notin> {''api'', ''sse'', ''benchmark'', ''all''} then Inl (''unsupported mode '' @ quoted mode)
      else if mode = ''all'' then Inr (True, True, True)
      else Inr (mode = ''api'', mode = ''sse'', mode = ''benchmark''))"

section \<open>The identity of a worker\<close>

definition workerIP :: "int \<Rightarrow> string" where
  "workerIP workerID =
     (let third = workerID sdiv 250; fourth = workerID smod 250 + 1; third = (if third > 249 then third smod 250 else third)
      in ''10.250.'' @ showInt (third + 1) @ ''.'' @ showInt fourth)"

definition phaseClientID :: "int \<Rightarrow> int \<Rightarrow> int \<Rightarrow> int" where
  "phaseClientID phase worker sq = phase * 1000000 + worker * 10000 + sq + 1"

section \<open>Requests\<close>

record clientRequest =
  cqMethod :: string
  cqURL :: string
  cqHeaders :: "(string \<times> string) list"
  cqBody :: "string option"

record clientResponse =
  cpStatusCode :: int
  cpStatus :: string
  cpBody :: string

datatype netError = DeadlineExceeded | Canceled | EOF | OtherError error

definition netErrorText :: "netError \<Rightarrow> error" where
  "netErrorText e =
     (case e of DeadlineExceeded \<Rightarrow> ''context deadline exceeded'' | Canceled \<Rightarrow> ''context canceled'' | EOF \<Rightarrow> ''EOF'' | OtherError e \<Rightarrow> e)"

record 'w network =
  ncNewRequest :: "string \<Rightarrow> string \<Rightarrow> error option"
  ncDo :: "clientRequest \<Rightarrow> 'w \<Rightarrow> (netError + clientResponse) \<times> 'w"

record 'r jsonCodec =
  jcPut :: "PutRequest \<Rightarrow> string"
  jcBench :: "BenchmarkRunRequest \<Rightarrow> string"
  jcJob :: "string \<Rightarrow> error + 'r BenchmarkJob"
  jcJobs :: "string \<Rightarrow> error + 'r BenchmarkJob list"
  jcToken :: "string \<Rightarrow> error + string option"

text \<open>A path escape keeps what \<open>url.PathEscape\<close> keeps, a query escape turns a space into a plus.\<close>

definition unreserved :: "char \<Rightarrow> bool" where
  "unreserved c = (let n = of_char c :: nat in (48 \<le> n \<and> n \<le> 57) \<or> (65 \<le> n \<and> n \<le> 90) \<or> (97 \<le> n \<and> n \<le> 122) \<or>
     c \<in> {CHR ''-'', CHR ''_'', CHR ''.'', CHR ''~''})"

definition upperHex :: "nat \<Rightarrow> char" where
  "upperHex n = (if n < 10 then char_of (48 + n) else char_of (55 + n))"

definition percent :: "char \<Rightarrow> string" where
  "percent c = (let n = of_char c :: nat in [CHR ''%'', upperHex (n div 16), upperHex (n mod 16)])"

definition PathEscape :: "string \<Rightarrow> string" where
  "PathEscape s = concat (map (\<lambda>c. if unreserved c \<or> c \<in> {CHR ''$'', CHR ''&'', CHR ''+'', CHR ''='', CHR '':'', CHR ''@''}
     then [c] else percent c) s)"

definition QueryEscape :: "string \<Rightarrow> string" where
  "QueryEscape s = concat (map (\<lambda>c. if unreserved c then [c] else if c = CHR '' '' then ''+'' else percent c) s)"

definition clientRequestOf :: "loadConfig \<Rightarrow> int \<Rightarrow> string \<Rightarrow> string \<Rightarrow> string option \<Rightarrow> string \<Rightarrow> clientRequest" where
  "clientRequestOf cfg workerID method path body contentType =
     \<lparr>cqMethod = method, cqURL = lcBaseURL cfg @ path,
      cqHeaders = [(''X-API-Key'', lcAPIKey cfg), (''X-Forwarded-For'', workerIP workerID)] @
        (if contentType \<noteq> [] then [(''Content-Type'', contentType)] else []), cqBody = body\<rparr>"

definition doRequestWithBody :: "'w network \<Rightarrow> loadConfig \<Rightarrow> int \<Rightarrow> string \<Rightarrow> string \<Rightarrow> string option \<Rightarrow> (string \<Rightarrow> error + 'a) option \<Rightarrow>
    string \<Rightarrow> 'w \<Rightarrow> (error + 'a option) \<times> 'w" where
  "doRequestWithBody N cfg workerID method path body respOut contentType w =
     (case ncNewRequest N method (lcBaseURL cfg @ path) of
        Some err \<Rightarrow> (Inl err, w)
      | None \<Rightarrow>
          (case ncDo N (clientRequestOf cfg workerID method path body contentType) w of
           (Inl err, w) \<Rightarrow> (Inl (netErrorText err), w)
         | (Inr resp, w) \<Rightarrow>
             (if cpStatusCode resp < 200 \<or> cpStatusCode resp \<ge> 300
              then (Inl (method @ '' '' @ path @ '' returned '' @ cpStatus resp @ '': '' @ TrimSpace (take 8192 (cpBody resp))), w)
              else (case respOut of
                      None \<Rightarrow> (Inr None, w)
                    | Some decode \<Rightarrow> (map_sum id Some (decode (cpBody resp)), w)))))"

definition doJSONRequest :: "'w network \<Rightarrow> loadConfig \<Rightarrow> int \<Rightarrow> string \<Rightarrow> string \<Rightarrow> string option \<Rightarrow> (string \<Rightarrow> error + 'a) option \<Rightarrow>
    'w \<Rightarrow> (error + 'a option) \<times> 'w" where
  "doJSONRequest N cfg workerID method path reqBody respOut =
     doRequestWithBody N cfg workerID method path reqBody respOut ''application/json''"

definition doRequest :: "'w network \<Rightarrow> loadConfig \<Rightarrow> int \<Rightarrow> string \<Rightarrow> string \<Rightarrow> (string \<Rightarrow> error + 'a) option \<Rightarrow>
    'w \<Rightarrow> (error + 'a option) \<times> 'w" where
  "doRequest N cfg workerID method path respOut = doRequestWithBody N cfg workerID method path None respOut []"

record phaseSummary =
  phPhase :: string
  phDuration :: duration
  phOps :: int64
  phErrors :: int64
  phEvents :: int64
  phRuns :: int

section \<open>The API phase\<close>

definition phaseKeys :: "loadConfig \<Rightarrow> string list" where
  "phaseKeys cfg = map (\<lambda>i. ''loadtest:'' @ showInt (int i)) [0..<nat (max 32 (lcConcurrency cfg * 4))]"

definition cachePath :: "loadConfig \<Rightarrow> string \<Rightarrow> string" where
  "cachePath cfg key = ''/api/cache/'' @ lcStore cfg @ ''/'' @ PathEscape key"

definition encodeText :: "string \<Rightarrow> string" where
  "encodeText s = base64_Encode (toBytes s)"

definition seedRequest :: "'r jsonCodec \<Rightarrow> int \<Rightarrow> string" where
  "seedRequest J i = jcPut J \<lparr>prValue = encodeText (''seed-'' @ showInt i), prTTLMs = 60000\<rparr>"

fun seedKeys :: "'w network \<Rightarrow> 'r jsonCodec \<Rightarrow> loadConfig \<Rightarrow> int \<Rightarrow> string list \<Rightarrow> 'w \<Rightarrow> error option \<times> 'w" where
  "seedKeys N J cfg i [] w = (None, w)"
| "seedKeys N J cfg i (key # keys) w =
     (case doJSONRequest N cfg (phaseClientID 1 i i) ''PUT'' (cachePath cfg key) (Some (seedRequest J i)) (None :: (string \<Rightarrow> error + unit) option) w of
        (Inl err, w) \<Rightarrow> (Some (''seed key '' @ quoted key @ '': '' @ err), w)
      | (Inr _, w) \<Rightarrow> seedKeys N J cfg (i + 1) keys w)"

text \<open>A worker: its generator and its sequence numbers; a request is the client, the method, the path and the body.\<close>

record 'g apiWorker =
  awRng :: 'g
  awWriteSeq :: int
  awRequestSeq :: int
  awDone :: bool

definition newAPIWorker :: "'g RNG \<Rightarrow> instant \<Rightarrow> int \<Rightarrow> 'g apiWorker" where
  "newAPIWorker G now workerID = \<lparr>awRng = rgNew G (now + (workerID + 1) * 1000003), awWriteSeq = 0, awRequestSeq = 0, awDone = False\<rparr>"

definition nextAPIRequest :: "'g RNG \<Rightarrow> 'r jsonCodec \<Rightarrow> loadConfig \<Rightarrow> int \<Rightarrow> 'g apiWorker \<Rightarrow>
    ((int \<times> string \<times> string \<times> string option) \<times> 'g apiWorker) option" where
  "nextAPIRequest G J cfg workerID wk =
     (case pick G (phaseKeys cfg) (int (length (phaseKeys cfg))) (awRng wk) of
        None \<Rightarrow> None
      | Some (key, g) \<Rightarrow>
          (case Intn G 100 g of
             None \<Rightarrow> None
           | Some (op, g) \<Rightarrow>
               (let path = cachePath cfg key; wk = wk\<lparr>awRng := g, awRequestSeq := awRequestSeq wk + 1\<rparr>;
                    clientID = phaseClientID 1 workerID (awRequestSeq wk)
                in if op < 42 then Some ((clientID, ''GET'', path, None), wk)
                   else if op < 72 then
                     (let value = encodeText (''worker-'' @ showInt workerID @ ''-seq-'' @ showInt (awWriteSeq wk))
                      in Some ((clientID, ''PUT'', path, Some (jcPut J \<lparr>prValue = value, prTTLMs = 60000\<rparr>)),
                            wk\<lparr>awWriteSeq := awWriteSeq wk + 1\<rparr>))
                   else if op < 84 then Some ((clientID, ''DELETE'', path, None), wk)
                   else if op < 92 then Some ((clientID, ''GET'', ''/api/cache/'' @ lcStore cfg @ ''/peek/'' @ PathEscape key, None), wk)
                   else Some ((clientID, ''GET'', ''/api/cache/'' @ lcStore cfg @ ''/stats'', None), wk))))"

text \<open>
  One turn of the loop of a worker, with its two looks at the context: at the head, and in the pause after a
  request that succeeded. The counters are shared by the workers. \<open>None\<close> is a panic.
\<close>

definition apiWorker_step :: "'g RNG \<Rightarrow> 'w network \<Rightarrow> 'r jsonCodec \<Rightarrow> loadConfig \<Rightarrow> int \<Rightarrow> bool \<Rightarrow> bool \<Rightarrow>
    'g apiWorker \<times> (int64 \<times> int64) \<times> 'w \<Rightarrow> ('g apiWorker \<times> (int64 \<times> int64) \<times> 'w) option" where
  "apiWorker_step G N J cfg workerID ctxDone pauseCut x =
     (case x of (wk, (ops, errorsSeen), w) \<Rightarrow>
        if awDone wk \<or> ctxDone then Some (wk\<lparr>awDone := True\<rparr>, (ops, errorsSeen), w)
        else
          (case nextAPIRequest G J cfg workerID wk of
             None \<Rightarrow> None
           | Some ((clientID, method, path, body), wk) \<Rightarrow>
               (let (result, w) = (case body of
                       None \<Rightarrow> doRequest N cfg clientID method path (None :: (string \<Rightarrow> error + unit) option) w
                     | Some raw \<Rightarrow> doJSONRequest N cfg clientID method path (Some raw) None w)
                in case result of
                     Inl err \<Rightarrow> Some (wk, (ops, errorsSeen + 1), w)
                   | Inr _ \<Rightarrow> Some (wk\<lparr>awDone := (lcAPIPause cfg > 0 \<and> pauseCut)\<rparr>, (ops + 1, errorsSeen), w))))"

text \<open>The workers in any order: each entry is the worker that makes a turn and what it sees of the context.\<close>

fun apiWorkers_run :: "'g RNG \<Rightarrow> 'w network \<Rightarrow> 'r jsonCodec \<Rightarrow> loadConfig \<Rightarrow> (nat \<times> bool \<times> bool) list \<Rightarrow>
    'g apiWorker list \<times> (int64 \<times> int64) \<times> 'w \<Rightarrow> ('g apiWorker list \<times> (int64 \<times> int64) \<times> 'w) option" where
  "apiWorkers_run G N J cfg [] x = Some x"
| "apiWorkers_run G N J cfg ((i, ctxDone, pauseCut) # turns) (wks, counts, w) =
     (if i < length wks then
        (case apiWorker_step G N J cfg (int i) ctxDone pauseCut (wks ! i, counts, w) of
           None \<Rightarrow> None
         | Some (wk, counts, w) \<Rightarrow> apiWorkers_run G N J cfg turns (wks[i := wk], counts, w))
      else apiWorkers_run G N J cfg turns (wks, counts, w))"

text \<open>\<open>None\<close> is a panic or a schedule in which the workers have not all stopped.\<close>

definition runAPIPhase :: "'g RNG \<Rightarrow> 'w network \<Rightarrow> 'r jsonCodec \<Rightarrow> loadConfig \<Rightarrow> (int \<Rightarrow> instant) \<Rightarrow> (nat \<times> bool \<times> bool) list \<Rightarrow> duration \<Rightarrow>
    'w \<Rightarrow> ((error + phaseSummary) \<times> 'w) option" where
  "runAPIPhase G N J cfg started turns elapsed w =
     (case seedKeys N J cfg 0 (take (nat (min (int (length (phaseKeys cfg))) (lcConcurrency cfg * 2))) (phaseKeys cfg)) w of
        (Some err, w) \<Rightarrow> Some (Inl err, w)
      | (None, w) \<Rightarrow>
          (case apiWorkers_run G N J cfg turns
                  (map (\<lambda>i. newAPIWorker G (started (int i)) (int i)) [0..<nat (lcConcurrency cfg)], (0, 0), w) of
             None \<Rightarrow> None
           | Some (wks, (ops, errorsSeen), w) \<Rightarrow>
               if list_all awDone wks
               then Some (Inr \<lparr>phPhase = ''api'', phDuration = elapsed, phOps = ops, phErrors = errorsSeen, phEvents = 0, phRuns = 0\<rparr>, w)
               else None))"

section \<open>The phase of the event streams\<close>

definition mintSSEToken :: "'w network \<Rightarrow> 'r jsonCodec \<Rightarrow> loadConfig \<Rightarrow> int \<Rightarrow> 'w \<Rightarrow> (error + string) \<times> 'w" where
  "mintSSEToken N J cfg workerID w =
     (case doRequest N cfg workerID ''POST'' ''/api/auth/sse-token'' (Some (jcToken J)) w of
        (Inl err, w) \<Rightarrow> (Inl (''mint sse token: '' @ err), w)
      | (Inr payload, w) \<Rightarrow>
          (let token = (case payload of Some (Some token) \<Rightarrow> token | _ \<Rightarrow> [])
           in if token = [] then (Inl ''sse token response did not include a token'', w) else (Inr token, w)))"

definition streamRequest :: "loadConfig \<Rightarrow> int \<Rightarrow> string \<Rightarrow> clientRequest" where
  "streamRequest cfg clientID token =
     \<lparr>cqMethod = ''GET'',
      cqURL = lcBaseURL cfg @ ''/api/sse/stats/'' @ PathEscape (lcStore cfg) @ ''?access_token='' @ QueryEscape token,
      cqHeaders = [(''X-Forwarded-For'', workerIP (phaseClientID 2 clientID 1))], cqBody = None\<rparr>"

text \<open>
  The loop of a stream: before each read a look at the context (\<open>True\<close> when it has ended), then a line or
  an error, with the state of the context after it. The result is the number of events and of errors;
  \<open>None\<close> while the stream goes on.
\<close>

type_synonym sseRead = "bool \<times> (netError \<times> bool + string)"

fun readEvents :: "int \<Rightarrow> int \<Rightarrow> sseRead list \<Rightarrow> (int \<times> int) option" where
  "readEvents minEvents seen [] = None"
| "readEvents minEvents seen ((ctxDone, got) # gots) =
     (if ctxDone then Some (seen, if seen < minEvents then 1 else 0)
      else
        (case got of
           Inl (err, ctxEnded) \<Rightarrow>
             (if err = Canceled \<or> err = DeadlineExceeded \<or> ctxEnded \<or> err = EOF
              then Some (seen, if seen < minEvents then 1 else 0) else Some (seen, 1))
         | Inr line \<Rightarrow> readEvents minEvents (if HasPrefix line ''data: '' then seen + 1 else seen) gots))"

text \<open>One stream client; what it reads depends on the response's body.\<close>

definition sseClient :: "'w network \<Rightarrow> 'r jsonCodec \<Rightarrow> loadConfig \<Rightarrow> (clientResponse \<Rightarrow> sseRead list) \<Rightarrow> int \<Rightarrow> 'w \<Rightarrow>
    (int \<times> int) option \<times> 'w" where
  "sseClient N J cfg body clientID w =
     (case mintSSEToken N J cfg (phaseClientID 2 clientID 0) w of
        (Inl err, w) \<Rightarrow> (Some (0, 1), w)
      | (Inr token, w) \<Rightarrow>
          (let req = streamRequest cfg clientID token
           in case ncNewRequest N (cqMethod req) (cqURL req) of
                Some err \<Rightarrow> (Some (0, 1), w)
              | None \<Rightarrow>
                  (case ncDo N req w of
                     (Inl DeadlineExceeded, w) \<Rightarrow> (Some (0, 0), w)
                   | (Inl Canceled, w) \<Rightarrow> (Some (0, 0), w)
                   | (Inl _, w) \<Rightarrow> (Some (0, 1), w)
                   | (Inr resp, w) \<Rightarrow>
                       (if cpStatusCode resp \<noteq> 200 then (Some (0, 1), w)
                        else (readEvents (lcSSEMinEvents cfg) 0 (body resp), w)))))"

text \<open>The clients one after another on the network: their counters are sums, so the order of their turns does not matter to them.\<close>

fun sseClients_run :: "'w network \<Rightarrow> 'r jsonCodec \<Rightarrow> loadConfig \<Rightarrow> (clientResponse \<Rightarrow> sseRead list) \<Rightarrow> int list \<Rightarrow>
    int64 \<times> int64 \<Rightarrow> 'w \<Rightarrow> (int64 \<times> int64) option \<times> 'w" where
  "sseClients_run N J cfg body [] counts w = (Some counts, w)"
| "sseClients_run N J cfg body (clientID # ids) (events, errorsSeen) w =
     (case sseClient N J cfg body clientID w of
        (None, w) \<Rightarrow> (None, w)
      | (Some (ev, er), w) \<Rightarrow> sseClients_run N J cfg body ids (events + word_of_int ev, errorsSeen + word_of_int er) w)"

definition runSSEPhase :: "'w network \<Rightarrow> 'r jsonCodec \<Rightarrow> loadConfig \<Rightarrow> (clientResponse \<Rightarrow> sseRead list) \<Rightarrow> duration \<Rightarrow> 'w \<Rightarrow>
    phaseSummary option \<times> 'w" where
  "runSSEPhase N J cfg body elapsed w =
     (case sseClients_run N J cfg body (map int [0..<nat (lcSSEClients cfg)]) (0, 0) w of
        (None, w) \<Rightarrow> (None, w)
      | (Some (events, errorsSeen), w) \<Rightarrow>
          (Some \<lparr>phPhase = ''sse'', phDuration = elapsed, phOps = 0, phErrors = errorsSeen, phEvents = events, phRuns = 0\<rparr>, w))"

section \<open>The phase of the benchmarks\<close>

text \<open>\<open>Round\<close> to whole seconds: halves are rounded away from zero.\<close>

definition roundSeconds :: "duration \<Rightarrow> int" where
  "roundSeconds d = (let r = d smod second; t = d - r
     in (if d < 0 then (if - r + - r < second then t else t - second)
         else if r + r < second then t else t + second) sdiv second)"

definition benchRequest :: "loadConfig \<Rightarrow> BenchmarkRunRequest" where
  "benchRequest cfg =
     (let req = \<lparr>brWorkload = lcBenchmarkWorkload cfg, brPolicies = lcBenchmarkPolicies cfg, brCacheSize = lcBenchmarkCacheSize cfg,
            brDurationSec = roundSeconds (lcBenchmarkDuration cfg), brConcurrency = lcBenchmarkConcurrency cfg,
            brWorkloadN = lcBenchmarkWorkloadN cfg\<rparr>
      in if brDurationSec req \<le> 0 then req\<lparr>brDurationSec := 1\<rparr> else req)"

definition submitBenchmark :: "'w network \<Rightarrow> 'r jsonCodec \<Rightarrow> loadConfig \<Rightarrow> int \<Rightarrow> 'w \<Rightarrow> (error + 'r BenchmarkJob) \<times> 'w" where
  "submitBenchmark N J cfg workerID w =
     (case doJSONRequest N cfg (phaseClientID 3 workerID 0) ''POST'' ''/api/benchmark/run'' (Some (jcBench J (benchRequest cfg))) (Some (jcJob J)) w of
        (Inl err, w) \<Rightarrow> (Inl (''submit benchmark: '' @ err), w)
      | (Inr (Some job), w) \<Rightarrow> (if bjID job = [] then Inl ''benchmark response did not include a job id'' else Inr job, w)
      | (Inr None, w) \<Rightarrow> (Inl ''benchmark response did not include a job id'', w))"

text \<open>One poll: \<open>Some\<close> when \<open>awaitBenchmark\<close> returns, with its error; \<open>None\<close> when it goes on to wait.\<close>

definition pollBenchmark :: "'w network \<Rightarrow> 'r jsonCodec \<Rightarrow> loadConfig \<Rightarrow> string \<Rightarrow> int \<Rightarrow> int \<Rightarrow> 'w \<Rightarrow> error option option \<times> 'w" where
  "pollBenchmark N J cfg jobID workerID pollCount w =
     (case doRequest N cfg (phaseClientID 3 workerID pollCount) ''GET'' (''/api/benchmark/results/'' @ PathEscape jobID) (Some (jcJob J)) w of
        (Inl err, w) \<Rightarrow> (Some (Some (''poll benchmark '' @ jobID @ '': '' @ err)), w)
      | (Inr None, w) \<Rightarrow> (None, w)
      | (Inr (Some job), w) \<Rightarrow>
          (if bjStatus job = ''done'' then (Some None, w)
           else if bjStatus job = ''error'' then
             (if bjError job \<noteq> [] then (Some (Some (''benchmark '' @ jobID @ '' failed: '' @ bjError job)), w)
              else (Some (Some (''benchmark '' @ jobID @ '' failed'')), w))
           else (None, w)))"

text \<open>
  The loop, with at most the given number of polls (\<open>None\<close> beyond). \<open>wait\<close> is the select between polls:
  \<open>True\<close> for a tick, \<open>False\<close> for the end of the context.
\<close>

fun awaitBenchmark :: "'w network \<Rightarrow> 'r jsonCodec \<Rightarrow> ('w \<Rightarrow> bool \<times> 'w) \<Rightarrow> loadConfig \<Rightarrow> string \<Rightarrow> int \<Rightarrow> int \<Rightarrow> nat \<Rightarrow> 'w \<Rightarrow> (error option \<times> 'w) option" where
  "awaitBenchmark N J wait cfg jobID workerID pollCount 0 w = None"
| "awaitBenchmark N J wait cfg jobID workerID pollCount (Suc fuel) w =
     (case pollBenchmark N J cfg jobID workerID pollCount w of
        (Some result, w) \<Rightarrow> Some (result, w)
      | (None, w) \<Rightarrow>
          (case wait w of
             (False, w) \<Rightarrow> Some (Some (''benchmark '' @ jobID @ '' timed out''), w)
           | (True, w) \<Rightarrow> awaitBenchmark N J wait cfg jobID workerID (pollCount + 1) fuel w))"

definition verifyBenchmarkHistory :: "'w network \<Rightarrow> 'r jsonCodec \<Rightarrow> loadConfig \<Rightarrow> int \<Rightarrow> 'w \<Rightarrow> error option \<times> 'w" where
  "verifyBenchmarkHistory N J cfg expectedMin w =
     (case doRequest N cfg (phaseClientID 3 0 999) ''GET'' ''/api/benchmark/results'' (Some (jcJobs J)) w of
        (Inl err, w) \<Rightarrow> (Some (''fetch benchmark history: '' @ err), w)
      | (Inr jobs, w) \<Rightarrow>
          (let n = (case jobs of None \<Rightarrow> 0 | Some js \<Rightarrow> int (length js))
           in (if n < expectedMin
               then Some (''benchmark history too small: got '' @ showInt n @ '' want at least '' @ showInt expectedMin) else None, w)))"

fun benchRuns :: "'w network \<Rightarrow> 'r jsonCodec \<Rightarrow> ('w \<Rightarrow> bool \<times> 'w) \<Rightarrow> loadConfig \<Rightarrow> nat \<Rightarrow> int list \<Rightarrow> int \<Rightarrow> 'w \<Rightarrow> ((error + int) \<times> 'w) option" where
  "benchRuns N J wait cfg fuel [] runs w = Some (Inr runs, w)"
| "benchRuns N J wait cfg fuel (i # is) runs w =
     (case submitBenchmark N J cfg i w of
        (Inl err, w) \<Rightarrow> Some (Inl err, w)
      | (Inr job, w) \<Rightarrow>
          (case awaitBenchmark N J wait cfg (bjID job) i 0 fuel w of
             None \<Rightarrow> None
           | Some (Some err, w) \<Rightarrow> Some (Inl err, w)
           | Some (None, w) \<Rightarrow> benchRuns N J wait cfg fuel is (runs + 1) w))"

definition runBenchmarkPhase :: "'w network \<Rightarrow> 'r jsonCodec \<Rightarrow> ('w \<Rightarrow> bool \<times> 'w) \<Rightarrow> loadConfig \<Rightarrow> nat \<Rightarrow> duration \<Rightarrow> 'w \<Rightarrow>
    ((error + phaseSummary) \<times> 'w) option" where
  "runBenchmarkPhase N J wait cfg fuel elapsed w =
     (case benchRuns N J wait cfg fuel (map int [0..<nat (lcBenchmarkRuns cfg)]) 0 w of
        None \<Rightarrow> None
      | Some (Inl err, w) \<Rightarrow> Some (Inl err, w)
      | Some (Inr runs, w) \<Rightarrow>
          (case verifyBenchmarkHistory N J cfg runs w of
             (Some err, w) \<Rightarrow> Some (Inl err, w)
           | (None, w) \<Rightarrow>
               Some (Inr \<lparr>phPhase = ''benchmark'', phDuration = elapsed, phOps = 0, phErrors = 0, phEvents = 0, phRuns = runs\<rparr>, w)))"

section \<open>The program\<close>

text \<open>What the program meets besides the network: the schedule of its workers, the streams, the waits, the clock\<close>

record ('g, 'r, 'w) surroundings =
  srRng :: "'g RNG"
  srNetwork :: "'w network"
  srCodec :: "'r jsonCodec"
  srStarted :: "int \<Rightarrow> instant"
  srTurns :: "(nat \<times> bool \<times> bool) list"
  srBody :: "clientResponse \<Rightarrow> sseRead list"
  srWait :: "'w \<Rightarrow> bool \<times> 'w"
  srFuel :: nat
  srElapsed :: "string \<Rightarrow> duration"

fun runPhases :: "(bool \<times> string \<times> ('w \<Rightarrow> ((error + phaseSummary) \<times> 'w) option)) list \<Rightarrow> 'w \<Rightarrow>
    ((error + phaseSummary list) \<times> 'w) option" where
  "runPhases [] w = Some (Inr [], w)"
| "runPhases ((chosen, name, phase) # phases) w =
     (if \<not> chosen then runPhases phases w
      else
        (case phase w of
           None \<Rightarrow> None
         | Some (Inl err, w) \<Rightarrow> Some (Inl (name @ '' phase failed: '' @ err), w)
         | Some (Inr summary, w) \<Rightarrow> map_option (apfst (map_sum id (Cons summary))) (runPhases phases w)))"

definition loadtest_main :: "(string \<Rightarrow> error option) \<Rightarrow> ('g, 'r, 'w) surroundings \<Rightarrow> loadConfig \<times> string \<Rightarrow> 'w \<Rightarrow>
    ((error + string \<times> string \<times> phaseSummary list) \<times> 'w) option" where
  "loadtest_main parseURL S flags w =
     (case checkFlags parseURL flags of
        Inl err \<Rightarrow> Some (Inl err, w)
      | Inr cfg \<Rightarrow>
          (case modesOf (lcMode cfg) of
             Inl err \<Rightarrow> Some (Inl err, w)
           | Inr (api, sse, benchmark) \<Rightarrow>
               map_option (apfst (map_sum id (\<lambda>summaries. (lcBaseURL cfg, lcStore cfg, summaries))))
                 (runPhases
                    [(api, ''api'', runAPIPhase (srRng S) (srNetwork S) (srCodec S) cfg (srStarted S) (srTurns S) (srElapsed S ''api'')),
                     (sse, ''sse'', \<lambda>w. case runSSEPhase (srNetwork S) (srCodec S) cfg (srBody S) (srElapsed S ''sse'') w of
                        (None, w) \<Rightarrow> None | (Some summary, w) \<Rightarrow> Some (Inr summary, w)),
                     (benchmark, ''benchmark'',
                        runBenchmarkPhase (srNetwork S) (srCodec S) (srWait S) cfg (srFuel S) (srElapsed S ''benchmark''))] w)))"

text \<open>Settings that the checks refuse send nothing.\<close>

lemma loadtest_refuses: "checkFlags parseURL flags = Inl err \<Longrightarrow> loadtest_main parseURL S flags w = Some (Inl err, w)"
  by (simp add: loadtest_main_def)

lemma checkFlags_ok:
  assumes "checkFlags parseURL flags = Inr cfg"
  shows "lcBaseURL cfg \<noteq> []" "TrimSpace (lcAPIKey cfg) \<noteq> []" "0 < lcDuration cfg" "0 < lcConcurrency cfg" "0 < lcSSEClients cfg"
    "0 < lcBenchmarkRuns cfg" "0 < lcBenchmarkDuration cfg" "0 < lcBenchmarkCacheSize cfg" "0 < lcBenchmarkWorkloadN cfg" "lcBenchmarkPolicies cfg \<noteq> []"
  using assms by (auto simp: checkFlags_def Let_def split: prod.splits if_splits option.splits)

end
