(* ===== verification/Load_Test_Server.thy ===== *)
theory Load_Test_Server
  imports Load_Test
begin

text \<open>
  The load test against the server it is written for: how its requests look to the limiter and to the checks
  of the routes, what the server makes of its benchmarks, and when its loops end.
\<close>

section \<open>The addresses of the workers\<close>

lemma workerIP_nat: "workerIP (int n) = ''10.250.'' @ showInt (int (n div 250 mod 250) + 1) @ ''.'' @ showInt (int (n mod 250) + 1)"
proof -
  have "int n sdiv 250 = int (n div 250)" "int n smod 250 = int (n mod 250)" for n
    by (cases "n = 0"; simp add: signed_divide_int_def signed_modulo_int_def zdiv_int zmod_int)+
  moreover have "(if int (n div 250) > 249 then int (n div 250 mod 250) else int (n div 250)) = int (n div 250 mod 250)" by simp
  ultimately show ?thesis unfolding workerIP_def Let_def by simp
qed

lemma dot_split:
  assumes "CHR ''.'' \<notin> set a" "CHR ''.'' \<notin> set b" and "a @ CHR ''.'' # x = b @ CHR ''.'' # y"
  shows "a = b \<and> x = y"
proof -
  have "takeWhile (\<lambda>c. c \<noteq> CHR ''.'') (a @ CHR ''.'' # x) = a" "takeWhile (\<lambda>c. c \<noteq> CHR ''.'') (b @ CHR ''.'' # y) = b"
    using assms(1,2) by (auto intro!: takeWhile_tail takeWhile_eq_all_conv [THEN iffD2] simp: takeWhile_append)
  with assms(3) show ?thesis by (metis list.inject same_append_eq)
qed

lemma showInt_no_dot: "c \<in> set (showInt i) \<Longrightarrow> c \<noteq> CHR ''.'' \<and> c \<noteq> CHR '','' \<and> \<not> isSpace c"
  using showInt_chars [of c i] by (auto simp: isDigit_def isSpace_def)

lemma workerIP_eq: "workerIP (int m) = workerIP (int n) \<longleftrightarrow> m mod 62500 = n mod 62500"
proof -
  have k: "k mod 62500 = 250 * (k div 250 mod 250) + k mod 250" for k :: nat
    using mod_mult2_eq [of k 250 250] by simp
  have "workerIP (int m) = workerIP (int n) \<longleftrightarrow> m div 250 mod 250 = n div 250 mod 250 \<and> m mod 250 = n mod 250"
  proof
    assume eq: "workerIP (int m) = workerIP (int n)"
    let ?s = "\<lambda>n :: nat. showInt (int (n div 250 mod 250) + 1)" and ?t = "\<lambda>n :: nat. showInt (int (n mod 250) + 1)"
    have "CHR ''.'' \<notin> set (?s m)" "CHR ''.'' \<notin> set (?s n)" using showInt_no_dot by blast+
    moreover have "?s m @ CHR ''.'' # ?t m = ?s n @ CHR ''.'' # ?t n" using eq by (simp add: workerIP_nat)
    ultimately have "?s m = ?s n \<and> ?t m = ?t n" by (rule dot_split)
    then show "m div 250 mod 250 = n div 250 mod 250 \<and> m mod 250 = n mod 250" by (simp add: showInt_inj)
  qed (simp add: workerIP_nat)
  also have "\<dots> \<longleftrightarrow> m mod 62500 = n mod 62500"
  proof
    assume eq: "m mod 62500 = n mod 62500"
    have "(k mod 62500) mod 250 = k mod 250" for k :: nat by (rule mod_mod_cancel) simp
    with eq have "m mod 250 = n mod 250" by metis
    with eq k [of m] k [of n] show "m div 250 mod 250 = n div 250 mod 250 \<and> m mod 250 = n mod 250" by linarith
  qed (simp add: k)
  finally show ?thesis .
qed

lemma phaseClientID_nat: "phaseClientID (int p) (int w) (int s) = int (p * 1000000 + w * 10000 + s + 1)"
  by (simp add: phaseClientID_def)

text \<open>
  The addresses under which the load test sends its requests: \<open>workerIP\<close> gives the 62500 addresses
  10.250.1.1 to 10.250.250.250, in turn, and two identities share one exactly when they are a multiple of 62500 apart. So the phases
  of the test do not get addresses of their own, nor do two workers that are 25 apart: they send from the same ones.
\<close>

theorem load_addresses:
  "(workerIP (int m) = workerIP (int n) \<longleftrightarrow> m mod 62500 = n mod 62500) \<and>
   (\<exists>a b. workerIP (int m) = ''10.250.'' @ showInt a @ ''.'' @ showInt b \<and> 1 \<le> a \<and> a \<le> 250 \<and> 1 \<le> b \<and> b \<le> 250) \<and>
   workerIP (phaseClientID (int p) (int w) (int s)) = workerIP (phaseClientID (int q) (int w) (int s)) \<and>
   workerIP (phaseClientID (int p) (int (w + 25)) (int s)) = workerIP (phaseClientID (int p) (int w) (int s))"
proof (intro conjI)
  show "workerIP (int m) = workerIP (int n) \<longleftrightarrow> m mod 62500 = n mod 62500" by (rule workerIP_eq)
  show "\<exists>a b. workerIP (int m) = ''10.250.'' @ showInt a @ ''.'' @ showInt b \<and> 1 \<le> a \<and> a \<le> 250 \<and> 1 \<le> b \<and> b \<le> 250"
  proof -
    have b: "k mod 250 \<le> 249" for k :: nat
    proof -
      have "k mod 250 < 250" by simp
      then show ?thesis by linarith
    qed
    show ?thesis unfolding workerIP_nat
      by (rule exI [of _ "int (m div 250 mod 250) + 1"], rule exI [of _ "int (m mod 250) + 1"]) (use b [of m] b [of "m div 250"] in simp)
  qed
  have "(p * 1000000 + w * 10000 + s + 1) mod 62500 = (w * 10000 + s + 1) mod 62500" for p w s :: nat
    using mod_mult_self4 [of 62500 "p * 16" "w * 10000 + s + 1"] by (simp add: algebra_simps)
  moreover have "((w + 25) * 10000 + s + 1) mod 62500 = (w * 10000 + s + 1) mod 62500" for w s :: nat
    using mod_mult_self4 [of 62500 4 "w * 10000 + s + 1"] by (simp add: algebra_simps)
  ultimately show "workerIP (phaseClientID (int p) (int w) (int s)) = workerIP (phaseClientID (int q) (int w) (int s))"
    "workerIP (phaseClientID (int p) (int (w + 25)) (int s)) = workerIP (phaseClientID (int p) (int w) (int s))"
    unfolding phaseClientID_nat workerIP_eq by metis+
qed

section \<open>The requests as the server receives them\<close>

text \<open>What net/http and net/url make of a request of the client: the path, the query and the sender's address are arguments.\<close>

definition received :: "clientRequest \<Rightarrow> string \<Rightarrow> (string \<Rightarrow> string) \<Rightarrow> string \<Rightarrow> Request" where
  "received q path query remote =
     \<lparr>rqMethod = cqMethod q, rqPath = path, rqHeader = (\<lambda>n. case map_of (cqHeaders q) n of None \<Rightarrow> [] | Some v \<Rightarrow> v),
      rqQuery = query, rqRemoteAddr = remote\<rparr>"

lemma workerIP_text: "c \<in> set (workerIP (int n)) \<Longrightarrow> c \<noteq> CHR '','' \<and> \<not> isSpace c"
  using showInt_no_dot by (auto simp: workerIP_nat isSpace_def)

lemma clientAddress_received:
  "map_of (cqHeaders q) ''X-Forwarded-For'' = Some (workerIP (int n)) \<Longrightarrow> clientAddress (received q path query remote) = workerIP (int n)"
proof -
  assume h: "map_of (cqHeaders q) ''X-Forwarded-For'' = Some (workerIP (int n))"
  have "workerIP (int n) \<noteq> []" by (simp add: workerIP_nat)
  moreover have "TrimSpace (workerIP (int n)) = workerIP (int n)" using workerIP_text hd_in_set last_in_set by (intro TrimSpace_id) blast+
  moreover have "CHR '','' \<notin> set (workerIP (int n))" using workerIP_text by blast
  ultimately show ?thesis by (simp add: clientAddress_def received_def h)
qed

section \<open>The limiter\<close>

lemma fresh_addresses_pass:
  assumes "0 < cfgRateLimitRequests cfg" and "0 < cfgRateLimitWindow cfg"
    and "distinct (map fst m)" and "distinct (map (\<lambda>(t, r). clientAddress r) xs)"
    and "\<forall>(t, r)\<in>set xs. clientAddress r \<notin> fst ` set m"
  shows "mw_run cfg m xs = replicate (length xs) None"
  using assms(3-)
proof (induction xs arbitrary: m)
  case (Cons x xs)
  obtain t r where x: "x = (t, r)" by (cases x)
  let ?c = "clientAddress r"
  have n: "map_of m ?c = None" using Cons.prems(3) by (simp add: x map_of_eq_None_iff)
  obtain resp m' where s: "rateLimitMiddleware (memory_limiter t) cfg r m = (resp, m')" by fastforce
  have "resp = None \<and> distinct (map fst m') \<and> fst ` set m' \<subseteq> insert ?c (fst ` set m)"
  proof (cases "limited r")
    case False
    with mw_step(1) [OF assms(1,2)] s Cons.prems(1) show ?thesis by auto
  next
    case True
    let ?u = "AList.update ?c \<lparr>rbCount = 1, rbResetAt = t + cfgRateLimitWindow cfg\<rparr> m"
    let ?f = "filter (\<lambda>(k, b). \<not> t > rbResetAt b) ?u"
    have a: "memory_Allow t t ?c (cfgRateLimitRequests cfg) (cfgRateLimitWindow cfg) m = ((True, 0), ?f)"
      using assms(1) n by (simp add: memory_Allow_eq countedBucket_def Let_def)
    from mw_step(2) [OF assms(1,2) True a] s have "resp = None" "m' = ?f" by auto
    moreover have "distinct (map fst ?u)" using Cons.prems(1) by (simp add: distinct_update)
    moreover have "fst ` set ?f \<subseteq> insert ?c (fst ` set m)" using dom_update [of ?c _ m] by auto
    ultimately show ?thesis by (simp add: distinct_map_filter)
  qed
  then have m': "resp = None" "distinct (map fst m')" "fst ` set m' \<subseteq> insert ?c (fst ` set m)" by auto
  have "\<forall>(t, r)\<in>set xs. clientAddress r \<notin> fst ` set m'"
  proof (rule ballI)
    fix y assume y: "y \<in> set xs"
    obtain t' r' where r': "y = (t', r')" by (cases y)
    have "clientAddress r' \<noteq> ?c" "clientAddress r' \<notin> fst ` set m" using Cons.prems(2,3) y by (auto simp: x r' image_iff)
    with m'(3) show "case y of (t, r) \<Rightarrow> clientAddress r \<notin> fst ` set m'" by (auto simp: r')
  qed
  with Cons.IH [OF m'(2)] Cons.prems(2) show ?case by (simp add: x s m'(1))
qed simp

lemma same_residue:
  fixes i j k M :: nat
  assumes "(k + i) mod M = (k + j) mod M" and "i < M" and "j < M"
  shows "i = j"
proof -
  have "int (k + i) mod int M = int (k + j) mod int M" using assms(1) by (simp only: zmod_int [symmetric])
  then have "int M dvd int i - int j" by (simp add: mod_eq_dvd_iff)
  then have "i \<noteq> j \<Longrightarrow> int M \<le> \<bar>int i - int j\<bar>" using dvd_imp_le_int [of "int i - int j" "int M"] by simp
  then show ?thesis using assms(2,3) by linarith
qed


section \<open>The event streams\<close>

text \<open>\<open>ReadString\<close> up to the line ends; what follows the last one comes with the end of the stream.\<close>

definition readLines :: "string \<Rightarrow> string list" where
  "readLines s = map (\<lambda>l. l @ [CHR 0x0A]) (butlast (Split (CHR 0x0A) s))"

lemma readLines_Nil [simp]: "readLines [] = []"
  by (simp add: readLines_def)

lemma readLines_append: "CHR 0x0A \<notin> set l \<Longrightarrow> readLines (l @ CHR 0x0A # s) = (l @ [CHR 0x0A]) # readLines s"
  by (simp add: readLines_def)

definition streamReads :: "string \<Rightarrow> bool \<Rightarrow> sseRead list" where
  "streamReads text ctxEnded = map (\<lambda>l. (False, Inr l)) (readLines text) @ [(False, Inl (EOF, ctxEnded))]"

lemma readEvents_stream:
  assumes "list_all (\<lambda>d. CHR 0x0A \<notin> set d) datas"
  shows "readEvents minEvents seen (streamReads (rsText (sendStream datas)) ended) =
    Some (seen + int (length datas), if seen + int (length datas) < minEvents then 1 else 0)"
  using assms
proof (induction datas arbitrary: seen)
  case Nil
  then show ?case by (simp add: sendStream_def streamReads_def)
next
  case (Cons d ds)
  let ?rest = "rsText (sendStream ds)"
  have "rsText (sendStream (d # ds)) = (''data: '' @ d) @ CHR 0x0A # [] @ CHR 0x0A # ?rest" by (simp add: sendStream_def)
  moreover have "CHR 0x0A \<notin> set (''data: '' @ d)" using Cons.prems by simp
  ultimately have "streamReads (rsText (sendStream (d # ds))) ended =
      (False, Inr ((''data: '' @ d) @ [CHR 0x0A])) # (False, Inr [CHR 0x0A]) # streamReads ?rest ended"
    unfolding streamReads_def using readLines_append [of "''data: '' @ d" "[] @ CHR 0x0A # ?rest"] readLines_append [of "[]" ?rest] by simp
  with Cons show ?case by (simp add: HasPrefix_def)
qed

lemma token_text:
  assumes "issueAccessToken hmac t c scope = Inr (token, ex)"
  shows "ch \<in> set token \<Longrightarrow> \<not> isSpace ch"
proof -
  assume ch: "ch \<in> set token"
  have u: "\<forall>c\<in>set b64_alphabet. \<not> isSpace (toURL c)" by code_simp
  have "\<not> isSpace c" if "c \<in> set (base64URL_Encode v)" for c v
    using that url_text [of v] u by blast
  moreover obtain u v where "token = base64URL_Encode u @ CHR ''.'' # base64URL_Encode v"
    using assms by (auto simp: issueAccessToken_def Let_def split: if_splits)
  moreover have "\<not> isSpace (CHR ''.'')" by (simp add: isSpace_def)
  ultimately show "\<not> isSpace ch" using ch by auto
qed


section \<open>The benchmarks\<close>


text \<open>
  Every benchmark that the checked settings ask for is accepted by a server that runs none, when the server
  knows the workload and the policies: with a job that runs and has an identifier.
\<close>

theorem load_benchmark_accepted:
  assumes "checkFlags parseURL flags = Inr cfg"
    and "isSupportedWorkload (lcBenchmarkWorkload cfg)" and "set (lcBenchmarkPolicies cfg) \<subseteq> {''lru'', ''lfu'', ''arc''}"
    and "\<not> bsActive s"
  shows "\<exists>job s'. HandleBenchmarkRun fails junk now now' (Inr (benchRequest cfg), JsonEOF) s = (BenchJob 202 job, s') \<and>
    bjID job \<noteq> [] \<and> bjStatus job = ''running'' \<and> 1 \<le> brDurationSec (benchRequest cfg) \<and> lcBenchmarkPolicies cfg \<noteq> []"
proof -
  note c = checkFlags_ok [OF assms(1)]
  have p: "policyError (lcBenchmarkPolicies cfg) = None" using assms(3) by (simp add: policyError_None)
  have d: "1 \<le> brDurationSec (benchRequest cfg)" by (simp add: benchRequest_def Let_def)
  have r: "brWorkload (benchRequest cfg) = lcBenchmarkWorkload cfg" "brCacheSize (benchRequest cfg) = lcBenchmarkCacheSize cfg"
    "brWorkloadN (benchRequest cfg) = lcBenchmarkWorkloadN cfg" "brPolicies (benchRequest cfg) = lcBenchmarkPolicies cfg"
    by (simp_all add: benchRequest_def Let_def)
  have "brPolicies (clampRequest req) = brPolicies req" for req by (simp add: clampRequest_def Let_def)
  then have v: "benchValidate (Inr (benchRequest cfg), JsonEOF) = Inr (clampRequest (benchRequest cfg))"
    using c p d assms(2) by (simp add: benchValidate_def decodeJSONBody_def r Let_def)
  have "beginBench s \<noteq> None" using assms(4) by (simp add: beginBench_def)
  then obtain s1 where s1: "beginBench s = Some s1" by blast
  obtain job s' where a: "acceptBench fails junk now now' s1 = (job, s')" by fastforce
  then have "bjID job = benchJobID now" "bjStatus job = ''running''" by (auto simp: acceptBench_def Let_def)
  then show ?thesis using c(10) d by (auto simp: HandleBenchmarkRun_def s1 v a)
qed

section \<open>Waiting for a benchmark\<close>

text \<open>The ticker of \<open>awaitBenchmark\<close>, and the patience beyond the duration of the benchmark\<close>

abbreviation halfSecond :: duration where
  "halfSecond \<equiv> 500000000"

definition patience :: "loadConfig \<Rightarrow> duration" where
  "patience cfg = lcBenchmarkDuration cfg + 20 * second"

text \<open>
  A network with a clock, seen from one call of \<open>awaitBenchmark\<close>: a request on an expired context fails, and
  the ticks of the ticker that began at \<open>start\<close> come no earlier than they are due.
\<close>

locale timed_network =
  fixes N :: "'w network" and wait :: "'w \<Rightarrow> bool \<times> 'w" and clock :: "'w \<Rightarrow> instant" and ticks :: "'w \<Rightarrow> nat"
    and start deadline :: instant
  assumes expired: "deadline \<le> clock w \<Longrightarrow> \<exists>e w'. ncDo N q w = (Inl e, w')"
    and do_ticks: "ncDo N q w = (r, w') \<Longrightarrow> ticks w' = ticks w"
    and wait_tick: "wait w = (True, w') \<Longrightarrow> ticks w' = Suc (ticks w) \<and> start + halfSecond * int (ticks w') \<le> clock w'"
begin

lemma poll_ticks: "pollBenchmark N J cfg jobID workerID k w = (None, w') \<Longrightarrow> ticks w' = ticks w"
  by (auto simp: pollBenchmark_def doRequest_def doRequestWithBody_def dest: do_ticks split: option.splits prod.splits sum.splits if_splits)

lemma poll_expired: "deadline \<le> clock w \<Longrightarrow> fst (pollBenchmark N J cfg jobID workerID k w) \<noteq> None"
  using expired [of w "clientRequestOf cfg (phaseClientID 3 workerID k) ''GET'' (''/api/benchmark/results/'' @ PathEscape jobID) None []"]
  by (auto simp: pollBenchmark_def doRequest_def doRequestWithBody_def split: option.splits)

lemma await_ends:
  "start + halfSecond * int (ticks w) \<le> clock w \<Longrightarrow> deadline \<le> start + halfSecond * int (ticks w + fuel) \<Longrightarrow>
   awaitBenchmark N J wait cfg jobID workerID k (Suc fuel) w \<noteq> None"
proof (induction fuel arbitrary: w k)
  case 0
  then have "deadline \<le> clock w" by simp
  from poll_expired [OF this, of J cfg jobID workerID k] show ?case by (auto split: prod.splits option.splits)
next
  case (Suc fuel)
  obtain r w1 where 1: "pollBenchmark N J cfg jobID workerID k w = (r, w1)" by fastforce
  show ?case
  proof (cases r)
    case (Some x)
    with 1 show ?thesis by simp
  next
    case None
    obtain b w2 where 2: "wait w1 = (b, w2)" by fastforce
    show ?thesis
    proof (cases b)
      case False
      with 1 2 None show ?thesis by simp
    next
      case True
      have t: "ticks w2 = Suc (ticks w)" "start + halfSecond * int (ticks w2) \<le> clock w2"
        using wait_tick [of w1 w2] 2 True poll_ticks [of J cfg jobID workerID k w w1] 1 None by auto
      have "awaitBenchmark N J wait cfg jobID workerID (k + 1) (Suc fuel) w2 \<noteq> None"
        using Suc.prems(2) by (intro Suc.IH t(2)) (simp add: t(1))
      with 1 2 None True show ?thesis by simp
    qed
  qed
qed

end

lemma below_next:
  fixes x k :: int
  assumes "0 < k"
  shows "x < k * (x div k + 1)"
proof -
  have "x = k * (x div k) + x mod k" by simp
  with pos_mod_bound [OF assms, of x] show ?thesis unfolding distrib_left by linarith
qed

text \<open>
  Waiting for a benchmark always ends: with a ticker that is not early and a context whose end makes
  requests fail, \<open>awaitBenchmark\<close> returns after at most one poll more than there are half seconds in the
  duration of the benchmark and the 20 seconds of patience, whatever the server answers.
\<close>

theorem await_benchmark_ends:
  assumes "\<forall>w q. start + patience cfg \<le> clock w \<longrightarrow> isl (fst (ncDo N q w))"
    and "\<forall>w q. ticks (snd (ncDo N q w)) = ticks w"
    and "\<forall>w. fst (wait w) \<longrightarrow> ticks (snd (wait w)) = Suc (ticks w) \<and> start + halfSecond * int (ticks (snd (wait w))) \<le> clock (snd (wait w))"
    and "ticks w = 0" and "start \<le> clock w" and "0 \<le> lcBenchmarkDuration cfg"
  shows "awaitBenchmark N J wait cfg jobID workerID 0 (Suc (nat (patience cfg div halfSecond + 1))) w \<noteq> None"
proof -
  have tn: "timed_network N wait clock ticks start (start + patience cfg)"
  proof
    fix w q assume "start + patience cfg \<le> clock w"
    then have "isl (fst (ncDo N q w))" using assms(1) by blast
    then show "\<exists>e w'. ncDo N q w = (Inl e, w')" by (cases "ncDo N q w") (auto simp: isl_def)
  next
    fix q w r w' assume "ncDo N q w = (r, w')"
    then show "ticks w' = ticks w" using assms(2) by (metis snd_conv)
  next
    fix w w' assume "wait w = (True, w')"
    then show "ticks w' = Suc (ticks w) \<and> start + halfSecond * int (ticks w') \<le> clock w'" using assms(3) by (metis fst_conv snd_conv)
  qed
  let ?n = "nat (patience cfg div halfSecond + 1)"
  have "0 \<le> patience cfg" using assms(6) by (simp add: patience_def)
  then have "int ?n = patience cfg div halfSecond + 1" by (simp add: pos_imp_zdiv_nonneg_iff)
  moreover have "patience cfg < halfSecond * (patience cfg div halfSecond + 1)"
    by (rule below_next) simp
  ultimately have d: "start + patience cfg \<le> start + halfSecond * int (ticks w + ?n)" using assms(4) by simp
  have "start + halfSecond * int (ticks w) \<le> clock w" using assms(4,5) by simp
  then show ?thesis using d by (rule timed_network.await_ends [OF tn])
qed

section \<open>Waiting on the server's job store\<close>

text \<open>
  The load test and the job store of the server as one system: \<open>bwClock\<close> is the time, \<open>bwTicks\<close> counts the
  ticks. A request takes \<open>latency\<close> nanoseconds; it fails when the context ends before its answer. The running job ends at \<open>jobEnd\<close>
  with \<open>outcome\<close>. Only polls are answered; \<open>encode\<close> is the JSON of a job.
\<close>

record 'r benchWorld =
  bwClock :: instant
  bwTicks :: nat
  bwBench :: "'r BenchState"

definition jobEnds :: "instant \<Rightarrow> error + 'r \<Rightarrow> 'r benchWorld \<Rightarrow> 'r benchWorld" where
  "jobEnds jobEnd outcome w =
     (case bsRunning (bwBench w) of
        jobID # rest \<Rightarrow> if jobEnd \<le> bwClock w then w\<lparr>bwBench := endBench None None jobID outcome (bwBench w)\<rparr> else w
      | [] \<Rightarrow> w)"

definition pollNetwork :: "('r BenchmarkJob \<Rightarrow> string) \<Rightarrow> string \<Rightarrow> nat \<Rightarrow> instant \<Rightarrow> error + 'r \<Rightarrow> instant \<Rightarrow> 'r benchWorld network" where
  "pollNetwork encode prefix latency jobEnd outcome deadline =
     \<lparr>ncNewRequest = (\<lambda>method url. None),
      ncDo = (\<lambda>q w.
        (let w = jobEnds jobEnd outcome (w\<lparr>bwClock := bwClock w + int latency\<rparr>)
         in if deadline \<le> bwClock w then (Inl DeadlineExceeded, w)
            else
              (case HandleBenchmarkResult (drop (length prefix) (cqURL q)) (bwBench w) of
                 BenchJob status job \<Rightarrow> (Inr \<lparr>cpStatusCode = status, cpStatus = ''200 OK'', cpBody = encode job\<rparr>, w)
               | _ \<Rightarrow> (Inr \<lparr>cpStatusCode = 404, cpStatus = ''404 Not Found'', cpBody = []\<rparr>, w))))\<rparr>"

text \<open>The next tick, or the end of the context when it comes first\<close>

definition nextTick :: "instant \<Rightarrow> instant \<Rightarrow> 'r benchWorld \<Rightarrow> bool \<times> 'r benchWorld" where
  "nextTick start deadline w =
     (let t = max (bwClock w) (start + halfSecond * (int (bwTicks w) + 1))
      in if t < deadline then (True, w\<lparr>bwClock := t, bwTicks := Suc (bwTicks w)\<rparr>)
         else (False, w\<lparr>bwClock := max (bwClock w) deadline\<rparr>))"

lemma jobEnds_frame [simp]: "bwClock (jobEnds e oc w) = bwClock w" "bwTicks (jobEnds e oc w) = bwTicks w"
  by (simp_all add: jobEnds_def split: list.split)

interpretation poll: timed_network "pollNetwork encode prefix latency jobEnd outcome deadline" "nextTick start deadline" bwClock bwTicks start deadline
  for encode :: "'r BenchmarkJob \<Rightarrow> string" and prefix latency jobEnd outcome start deadline
proof
  fix w :: "'r benchWorld" and q assume "deadline \<le> bwClock w"
  then show "\<exists>e w'. ncDo (pollNetwork encode prefix latency jobEnd outcome deadline) q w = (Inl e, w')"
    by (simp add: pollNetwork_def Let_def)
next
  fix w w' :: "'r benchWorld" and q r
  assume "ncDo (pollNetwork encode prefix latency jobEnd outcome deadline) q w = (r, w')"
  then show "bwTicks w' = bwTicks w"
    by (auto simp: pollNetwork_def Let_def split: if_splits benchResponse.splits)
next
  fix w w' :: "'r benchWorld" assume "nextTick start deadline w = (True, w')"
  then show "bwTicks w' = Suc (bwTicks w) \<and> start + halfSecond * int (bwTicks w') \<le> bwClock w'"
    by (auto simp: nextTick_def Let_def split: if_splits)
qed

text \<open>A job that runs, and whose encodings now and at its end the client can read\<close>

definition finishedJob :: "'r \<Rightarrow> 'r BenchmarkJob \<Rightarrow> 'r BenchmarkJob" where
  "finishedJob results job = job\<lparr>bjStatus := ''done'', bjResults := Some results\<rparr>"

definition jobRuns :: "'r jsonCodec \<Rightarrow> ('r BenchmarkJob \<Rightarrow> string) \<Rightarrow> 'r \<Rightarrow> string \<Rightarrow> 'r benchWorld \<Rightarrow> bool" where
  "jobRuns J encode results jobID w \<longleftrightarrow> jobID \<noteq> [] \<and> list_all unreserved jobID \<and> bsRunning (bwBench w) = [jobID] \<and>
     (case map_of (bsJobs (bwBench w)) jobID of
        None \<Rightarrow> False
      | Some job \<Rightarrow> bjStatus job = ''running'' \<and> jcJob J (encode job) = Inr job \<and>
          jcJob J (encode (finishedJob results job)) = Inr (finishedJob results job))"

lemma jobRunsE:
  assumes "jobRuns J encode results jobID w"
  obtains job where "jobID \<noteq> []" "list_all unreserved jobID" "bsRunning (bwBench w) = [jobID]"
    "map_of (bsJobs (bwBench w)) jobID = Some job" "bjStatus job = ''running''" "jcJob J (encode job) = Inr job"
    "jcJob J (encode (finishedJob results job)) = Inr (finishedJob results job)"
  using assms by (auto simp: jobRuns_def split: option.splits)

lemma PathEscape_unreserved: "list_all unreserved s \<Longrightarrow> PathEscape s = s"
  by (induction s) (simp_all add: PathEscape_def)

definition resultsPrefix :: "loadConfig \<Rightarrow> string" where
  "resultsPrefix cfg = lcBaseURL cfg @ ''/api/benchmark/results/''"

abbreviation jobNet :: "('r BenchmarkJob \<Rightarrow> string) \<Rightarrow> loadConfig \<Rightarrow> nat \<Rightarrow> instant \<Rightarrow> 'r \<Rightarrow> instant \<Rightarrow> 'r benchWorld network" where
  "jobNet encode cfg latency jobEnd results deadline \<equiv> pollNetwork encode (resultsPrefix cfg) latency jobEnd (Inr results) deadline"

lemma jobNet_do:
  "ncDo (jobNet encode cfg latency jobEnd results deadline)
     (clientRequestOf cfg i ''GET'' (''/api/benchmark/results/'' @ jobID) None []) w =
   (let w = jobEnds jobEnd (Inr results) (w\<lparr>bwClock := bwClock w + int latency\<rparr>)
    in if deadline \<le> bwClock w then (Inl DeadlineExceeded, w)
       else (case benchmarkJobByID jobID (bwBench w) of
               Some job \<Rightarrow> (Inr \<lparr>cpStatusCode = 200, cpStatus = ''200 OK'', cpBody = encode job\<rparr>, w)
             | None \<Rightarrow> (Inr \<lparr>cpStatusCode = 404, cpStatus = ''404 Not Found'', cpBody = []\<rparr>, w)))"
  by (simp add: pollNetwork_def clientRequestOf_def resultsPrefix_def HandleBenchmarkResult_def Let_def split: option.split)

abbreviation poll_it :: "('r BenchmarkJob \<Rightarrow> string) \<Rightarrow> 'r jsonCodec \<Rightarrow> loadConfig \<Rightarrow> nat \<Rightarrow> instant \<Rightarrow> 'r \<Rightarrow> instant \<Rightarrow> string \<Rightarrow> int \<Rightarrow> int \<Rightarrow>
    'r benchWorld \<Rightarrow> error option option \<times> 'r benchWorld" where
  "poll_it encode J cfg latency jobEnd results deadline jobID workerID k w \<equiv>
     pollBenchmark (jobNet encode cfg latency jobEnd results deadline) J cfg jobID workerID k w"

lemmas poll_defs = pollBenchmark_def doRequest_def doRequestWithBody_def

lemma jobNet_new [simp]: "ncNewRequest (jobNet encode cfg latency jobEnd results deadline) method url = None"
  by (simp add: pollNetwork_def)

lemma poll_late:
  assumes "list_all unreserved jobID" and "deadline \<le> bwClock w + int latency"
  shows "\<exists>e w'. poll_it encode J cfg latency jobEnd results deadline jobID workerID k w = (Some (Some e), w')"
  using assms(2) by (simp add: poll_defs PathEscape_unreserved [OF assms(1)] jobNet_do [unfolded append_Cons append_Nil] Let_def)

lemma poll_running:
  assumes "jobRuns J encode results jobID w"
    and "bwClock w + int latency < deadline" and "bwClock w + int latency < jobEnd"
  shows "poll_it encode J cfg latency jobEnd results deadline jobID workerID k w = (None, w\<lparr>bwClock := bwClock w + int latency\<rparr>)"
proof -
  from assms(1) obtain job where j: "jobID \<noteq> []" "list_all unreserved jobID" "bsRunning (bwBench w) = [jobID]"
    "map_of (bsJobs (bwBench w)) jobID = Some job" "bjStatus job = ''running''" "jcJob J (encode job) = Inr job"
    "jcJob J (encode (finishedJob results job)) = Inr (finishedJob results job)" by (rule jobRunsE)
  have "jobEnds jobEnd (Inr results) (w\<lparr>bwClock := bwClock w + int latency\<rparr>) = w\<lparr>bwClock := bwClock w + int latency\<rparr>"
    using assms(3) by (simp add: jobEnds_def j)
  then show ?thesis using assms(2)
    by (simp add: poll_defs PathEscape_unreserved [OF j(2)] jobNet_do [unfolded append_Cons append_Nil] Let_def benchmarkJobByID_def j)
qed

lemma poll_done:
  assumes "jobRuns J encode results jobID w"
    and "bwClock w + int latency < deadline" and "jobEnd \<le> bwClock w + int latency"
  shows "\<exists>w'. poll_it encode J cfg latency jobEnd results deadline jobID workerID k w = (Some None, w')"
proof -
  from assms(1) obtain job where j: "jobID \<noteq> []" "list_all unreserved jobID" "bsRunning (bwBench w) = [jobID]"
    "map_of (bsJobs (bwBench w)) jobID = Some job" "bjStatus job = ''running''" "jcJob J (encode job) = Inr job"
    "jcJob J (encode (finishedJob results job)) = Inr (finishedJob results job)" by (rule jobRunsE)
  let ?w = "jobEnds jobEnd (Inr results) (w\<lparr>bwClock := bwClock w + int latency\<rparr>)"
  have "bwBench ?w = endBench None None jobID (Inr results) (bwBench w)" using assms(3) by (simp add: jobEnds_def j)
  then have "benchmarkJobByID jobID (bwBench ?w) = Some (finishedJob results job)"
    by (simp add: benchmarkJobByID_def j(1,4) endBench_jobs map_of_update_upd finishedJob_def)
  moreover have "bjStatus (finishedJob results job) = ''done''" by (simp add: finishedJob_def)
  moreover have "bwClock ?w = bwClock w + int latency" by simp
  ultimately show ?thesis using assms(2)
    by (simp add: poll_defs PathEscape_unreserved [OF j(2)] jobNet_do [unfolded append_Cons append_Nil] Let_def j(7))
qed

text \<open>One turn of the loop when the poll finds the job running\<close>

lemma await_turn:
  assumes "poll_it encode J cfg latency jobEnd results deadline jobID workerID k w = (None, w1)"
  shows "awaitBenchmark (jobNet encode cfg latency jobEnd results deadline) J (nextTick start deadline) cfg jobID workerID k (Suc fuel) w =
    (case nextTick start deadline w1 of
       (False, w2) \<Rightarrow> Some (Some (''benchmark '' @ jobID @ '' timed out''), w2)
     | (True, w2) \<Rightarrow> awaitBenchmark (jobNet encode cfg latency jobEnd results deadline) J (nextTick start deadline) cfg jobID workerID (k + 1) fuel w2)"
  using assms by simp

lemma await_gives_up:
  assumes "deadline \<le> jobEnd"
  shows "jobRuns J encode results jobID w \<Longrightarrow>
    awaitBenchmark (jobNet encode cfg latency jobEnd results deadline) J (nextTick start deadline) cfg jobID workerID k fuel w = Some (r, w') \<Longrightarrow>
    r \<noteq> None"
proof (induction fuel arbitrary: k w)
  case (Suc fuel)
  have plain: "list_all unreserved jobID" using Suc.prems(1) by (simp add: jobRuns_def)
  show ?case
  proof (cases "deadline \<le> bwClock w + int latency")
    case True
    with poll_late [OF plain True, where encode = encode and J = J and cfg = cfg and jobEnd = jobEnd and results = results and workerID = workerID and k = k] Suc.prems(2) show ?thesis by auto
  next
    case False
    let ?w = "w\<lparr>bwClock := bwClock w + int latency\<rparr>"
    have "poll_it encode J cfg latency jobEnd results deadline jobID workerID k w = (None, ?w)"
      using False assms by (intro poll_running [OF Suc.prems(1)]) simp_all
    note t = await_turn [OF this, of start fuel]
    obtain b w2 where 2: "nextTick start deadline ?w = (b, w2)" by fastforce
    have "jobRuns J encode results jobID w2" using Suc.prems(1) 2 by (auto simp: nextTick_def Let_def jobRuns_def split: if_splits)
    with Suc.IH [of w2 "k + 1"] Suc.prems(2) show ?thesis unfolding t 2 by (cases b) auto
  qed
qed simp

lemma await_sees_end:
  assumes "jobEnd + halfSecond \<le> deadline" and "int latency \<le> halfSecond"
  shows "jobRuns J encode results jobID w \<Longrightarrow> bwClock w = start + halfSecond * int (bwTicks w) \<Longrightarrow> bwClock w + int latency < deadline \<Longrightarrow>
    awaitBenchmark (jobNet encode cfg latency jobEnd results deadline) J (nextTick start deadline) cfg jobID workerID k fuel w = Some (r, w') \<Longrightarrow>
    r = None"
proof (induction fuel arbitrary: k w)
  case (Suc fuel)
  show ?case
  proof (cases "jobEnd \<le> bwClock w + int latency")
    case True
    with poll_done [OF Suc.prems(1,3) True, where cfg = cfg and workerID = workerID and k = k] Suc.prems(4) show ?thesis by auto
  next
    case False
    let ?w = "w\<lparr>bwClock := bwClock w + int latency\<rparr>"
    let ?w2 = "w\<lparr>bwClock := start + halfSecond * int (Suc (bwTicks w)), bwTicks := Suc (bwTicks w)\<rparr>"
    have "poll_it encode J cfg latency jobEnd results deadline jobID workerID k w = (None, ?w)"
      using False by (intro poll_running [OF Suc.prems(1,3)]) simp
    note t = await_turn [OF this, of start fuel]
    have clock: "start + halfSecond * (int (bwTicks w) + 1) = bwClock w + halfSecond" using Suc.prems(2) by simp
    have 2: "nextTick start deadline ?w = (True, ?w2)"
      using clock False assms by (simp add: nextTick_def Let_def max_def add.commute)
    have "jobRuns J encode results jobID ?w2" using Suc.prems(1) by (simp add: jobRuns_def)
    moreover have "bwClock ?w2 + int latency < deadline" using clock False assms(1) by (simp add: add.commute)
    ultimately show ?thesis using Suc.IH [of ?w2 "k + 1"] Suc.prems(4) unfolding t 2 by simp
  qed
qed simp


section \<open>A run\<close>

definition demoLoad :: loadConfig where
  "demoLoad = (fst (flagDefaults (\<lambda>_. [])))\<lparr>lcAPIKey := ''secret'', lcBenchmarkPolicies := [''lru'', ''lfu'', ''arc'']\<rparr>"

lemma demoLoad_checked: "checkFlags (\<lambda>_. None) (demoLoad, ''lru, lfu,,arc'') = Inr demoLoad"
  by code_simp



theorem load_benchmark_accepted_witness:
  "\<exists>job s'. HandleBenchmarkRun None None 5 5 (Inr (benchRequest demoLoad), JsonEOF) demo0 = (BenchJob 202 job, s') \<and> bjID job \<noteq> [] \<and>
    bjStatus job = ''running''"
proof -
  have "isSupportedWorkload (lcBenchmarkWorkload demoLoad)" by code_simp
  moreover have "set (lcBenchmarkPolicies demoLoad) \<subseteq> {''lru'', ''lfu'', ''arc''}" by (simp add: demoLoad_def)
  moreover have "\<not> bsActive demo0" by code_simp
  ultimately show ?thesis using load_benchmark_accepted [OF demoLoad_checked, of demo0 None None 5 5] by blast
qed

definition demoResult :: "nat BenchmarkJob" where
  "demoResult = finishedJob 7 demoJob"

definition demoCodec :: "nat jsonCodec" where
  "demoCodec = \<lparr>jcPut = (\<lambda>_. []), jcBench = (\<lambda>_. []), jcJob = (\<lambda>s. Inr (if s = ''done'' then demoResult else demoJob)),
     jcJobs = (\<lambda>_. Inr []), jcToken = (\<lambda>_. Inr None)\<rparr>"

definition demoBench :: "nat benchWorld" where
  "demoBench = \<lparr>bwClock = 5000000, bwTicks = 0, bwBench = demo2\<rparr>"

lemma demoBench_runs: "jobRuns demoCodec bjStatus 7 (benchJobID 5000000) demoBench"
  unfolding jobRuns_def by code_simp

theorem await_benchmark_ends_witness:
  "awaitBenchmark (pollNetwork bjStatus (resultsPrefix demoLoad) 1000 9000000000 (Inr 7) (5000000 + patience demoLoad)) demoCodec
     (nextTick 5000000 (5000000 + patience demoLoad)) demoLoad (benchJobID 5000000) 0 0 (Suc (nat (patience demoLoad div halfSecond + 1))) demoBench \<noteq> None"
proof (rule await_benchmark_ends)
  let ?N = "pollNetwork bjStatus (resultsPrefix demoLoad) 1000 9000000000 (Inr 7) (5000000 + patience demoLoad) :: nat benchWorld network"
  show "\<forall>w q. 5000000 + patience demoLoad \<le> bwClock w \<longrightarrow> isl (fst (ncDo ?N q w))"
  proof (intro allI impI)
    fix w :: "nat benchWorld" and q assume "5000000 + patience demoLoad \<le> bwClock w"
    then obtain e w' where "ncDo ?N q w = (Inl e, w')" using poll.expired by blast
    then show "isl (fst (ncDo ?N q w))" by simp
  qed
  show "\<forall>w q. bwTicks (snd (ncDo ?N q w)) = bwTicks w" by (simp add: poll.do_ticks [OF prod.collapse [symmetric]])
  show "\<forall>w :: nat benchWorld. fst (nextTick 5000000 (5000000 + patience demoLoad) w) \<longrightarrow>
      bwTicks (snd (nextTick 5000000 (5000000 + patience demoLoad) w)) = Suc (bwTicks w) \<and>
      5000000 + halfSecond * int (bwTicks (snd (nextTick 5000000 (5000000 + patience demoLoad) w)))
        \<le> bwClock (snd (nextTick 5000000 (5000000 + patience demoLoad) w))"
    by (auto simp: nextTick_def Let_def)
  show "0 \<le> lcBenchmarkDuration demoLoad" by code_simp
qed (simp_all add: demoBench_def)


end
