(* ===== verification/Admin_Command.thy ===== *)
theory Admin_Command
  imports SQLite_Store
begin

text \<open>
  cmd/admin/main.go: the commands \<open>backup\<close> and \<open>migrate\<close> over the files of SQLite databases, with the
  parser of the flag package for string flags. A run ends with an exit status and a log record. What the file
  system, the driver and the clock answer is in a record; a file that holds no database yet is absent
  from the map of the files.
\<close>

section \<open>Flags\<close>

datatype flagsEnd = FlagsParsed "(string, string) gomap" | FlagsHelp | FlagsBad

definition cutEquals :: "string \<Rightarrow> string \<times> string option" where
  "cutEquals name =
     (case dropWhile (\<lambda>c. c \<noteq> CHR ''='') name of
        [] \<Rightarrow> (name, None)
      | e # v \<Rightarrow> (takeWhile (\<lambda>c. c \<noteq> CHR ''='') name, Some v))"

text \<open>\<open>FlagSet.Parse\<close> on string flags; the map holds the flags that are defined, with their values.\<close>

fun parseFlags :: "(string, string) gomap \<Rightarrow> string list \<Rightarrow> flagsEnd" where
  "parseFlags vals [] = FlagsParsed vals"
| "parseFlags vals (s # args) =
     (if length s < 2 \<or> hd s \<noteq> CHR ''-'' \<or> s = ''--'' then FlagsParsed vals
      else
        (let name = drop (if s ! 1 = CHR ''-'' then 2 else 1) s
         in if name = [] \<or> hd name = CHR ''-'' \<or> hd name = CHR ''='' then FlagsBad
            else
              (case cutEquals name of
                 (name, given) \<Rightarrow>
                   if map_of vals name = None then (if name = ''help'' \<or> name = ''h'' then FlagsHelp else FlagsBad)
                   else
                     (case given of
                        Some v \<Rightarrow> parseFlags (AList.update name v vals) args
                      | None \<Rightarrow>
                          (case args of
                             [] \<Rightarrow> FlagsBad
                           | v # args' \<Rightarrow> parseFlags (AList.update name v vals) args')))))"

section \<open>The commands\<close>

record adminWorld =
  adStamp :: string
  adMkdir :: "error option"
  adOpen :: "error option"
  adBackupErr :: "error option"
  adJunk :: "sqliteDB option"
  adInit :: "nat \<Rightarrow> error option"
  adClose :: "error option"
  adNow :: int

text \<open>How a run ends: the exit status and what it reports\<close>

datatype report = Usage string | FlagUsage string | LogError string "(string \<times> string) list" | LogInfo string "(string \<times> string) list"

type_synonym adminEnd = "(int \<times> report) \<times> (string, sqliteDB) gomap"

definition usageAndExit :: "string \<Rightarrow> int \<times> report" where
  "usageAndExit message =
     (2, Usage (message @ [CHR 0x0A, CHR 0x0A] @ ''Usage:'' @ [CHR 0x0A] @
        ''  go run ./cmd/admin backup --db data/cache-engine.db --out backups/cache-engine.sqlite3'' @ [CHR 0x0A] @
        ''  go run ./cmd/admin migrate --db data/cache-engine.db'' @ [CHR 0x0A]))"

text \<open>\<open>flag.ExitOnError\<close>\<close>

definition exitOnError :: "string \<Rightarrow> flagsEnd \<Rightarrow> (int \<times> report) + (string \<Rightarrow> string)" where
  "exitOnError command e =
     (case e of
        FlagsParsed vals \<Rightarrow> Inr (\<lambda>n. case map_of vals n of None \<Rightarrow> [] | Some v \<Rightarrow> v)
      | FlagsHelp \<Rightarrow> Inl (0, FlagUsage command)
      | FlagsBad \<Rightarrow> Inl (2, FlagUsage command))"

definition runBackup :: "adminWorld \<Rightarrow> string list \<Rightarrow> (string, sqliteDB) gomap \<Rightarrow> adminEnd" where
  "runBackup w args fs =
     (case exitOnError ''backup''
         (parseFlags [(''db'', ''data/cache-engine.db''), (''out'', ''backups/cache-engine-'' @ adStamp w @ ''.sqlite3'')] args) of
        Inl e \<Rightarrow> (e, fs)
      | Inr flag \<Rightarrow>
          (case BackupSQLiteDatabase (adMkdir w) (adOpen w) (adBackupErr w) (adJunk w) (flag ''db'') (flag ''out'') fs of
             (Some err, fs) \<Rightarrow> ((1, LogError ''sqlite_backup_failed'' [(''error'', err), (''db'', flag ''db''), (''out'', flag ''out'')]), fs)
           | (None, fs) \<Rightarrow> ((0, LogInfo ''sqlite_backup_completed'' [(''db'', flag ''db''), (''out'', flag ''out'')]), fs)))"

definition runMigrate :: "adminWorld \<Rightarrow> string list \<Rightarrow> (string, sqliteDB) gomap \<Rightarrow> adminEnd" where
  "runMigrate w args fs =
     (case exitOnError ''migrate'' (parseFlags [(''db'', ''data/cache-engine.db'')] args) of
        Inl e \<Rightarrow> (e, fs)
      | Inr flag \<Rightarrow>
          (let old = (case map_of fs (flag ''db'') of None \<Rightarrow> emptyDB | Some db \<Rightarrow> db);
               (err, db) = MigrateSQLiteDatabase (adMkdir w) (adOpen w) (adInit w) (adClose w) (adNow w) (flag ''db'') old;
               fs = (if db = old then fs else AList.update (flag ''db'') db fs)
           in case err of
                Some e \<Rightarrow> ((1, LogError ''sqlite_migration_failed'' [(''error'', e), (''db'', flag ''db'')]), fs)
              | None \<Rightarrow> ((0, LogInfo ''sqlite_migration_completed'' [(''db'', flag ''db'')]), fs)))"

text \<open>\<open>main\<close>, on the arguments after the program's name\<close>

definition admin_main :: "adminWorld \<Rightarrow> string list \<Rightarrow> (string, sqliteDB) gomap \<Rightarrow> adminEnd" where
  "admin_main w args fs =
     (case args of
        [] \<Rightarrow> (usageAndExit ''missing command'', fs)
      | command # rest \<Rightarrow>
          (if command = ''backup'' then runBackup w rest fs
           else if command = ''migrate'' then runMigrate w rest fs
           else (usageAndExit (''unknown command: '' @ command), fs)))"

section \<open>What a run does to the files\<close>

abbreviation databaseAt :: "(string, sqliteDB) gomap \<Rightarrow> string \<Rightarrow> sqliteDB" where
  "databaseAt fs p \<equiv> (case map_of fs p of None \<Rightarrow> emptyDB | Some db \<Rightarrow> db)"

lemma parse_string_flag:
  assumes "map_of vals n \<noteq> None" and "n \<noteq> []" and "hd n \<noteq> CHR ''-''" and "CHR ''='' \<notin> set n"
  shows "parseFlags vals ((''--'' @ n) # v # args) = parseFlags (AList.update n v vals) args"
proof -
  have "dropWhile (\<lambda>c. c \<noteq> CHR ''='') n = []" using assms(4) by auto
  then have c: "cutEquals n = (n, None)" by (simp only: cutEquals_def list.case)
  have "hd n \<noteq> CHR ''=''" using assms(2,4) by (cases n) auto
  with assms c show ?thesis by (cases n) auto
qed

lemma backup_flags:
  "parseFlags [(''db'', d), (''out'', b)] [''--db'', path, ''--out'', out] = FlagsParsed [(''db'', path), (''out'', out)]"
  using parse_string_flag [of "[(''db'', d), (''out'', b)]" "''db''" path "[''--out'', out]"]
    parse_string_flag [of "[(''db'', path), (''out'', b)]" "''out''" out "[]"] by simp

lemma Migrate_keeps:
  assumes "db_ok old" and "MigrateSQLiteDatabase mkdir open_err fails close now path old = (err, db)"
  shows "db_ok db \<and> dbContent db = dbContent old"
proof -
  obtain r db' where n: "NewSQLiteStore mkdir open_err fails now path 0 old = (r, db')" by fastforce
  from assms(2) n have "db = db'" by (auto simp: MigrateSQLiteDatabase_def split: sum.splits)
  with New_law [OF assms(1) n] show ?thesis by simp
qed

lemma backup_keeps:
  assumes "BackupSQLiteDatabase mkdir open_err dberr junk path destination fs = (err, fs')" and "map_of fs p = Some db"
  shows "map_of fs' p = Some db"
  using assms by (auto simp: BackupSQLiteDatabase_def Let_def map_of_update_upd split: option.splits if_splits)

lemma backup_copies_at:
  assumes "BackupSQLiteDatabase mkdir open_err dberr junk path destination fs = (None, fs')" and "map_of fs path = Some db"
  shows "map_of fs destination = None \<and> map_of fs' destination = Some db \<and> (\<forall>p. p \<noteq> destination \<longrightarrow> map_of fs' p = map_of fs p)"
  using assms by (auto simp: BackupSQLiteDatabase_def Let_def map_of_update_upd split: option.splits if_splits)

text \<open>What a report says of the status and of the files\<close>

definition honest :: "(string, sqliteDB) gomap \<Rightarrow> adminEnd \<Rightarrow> bool" where
  "honest fs e =
     (case e of ((status, report), fs') \<Rightarrow>
        (case report of
           Usage _ \<Rightarrow> status = 2 \<and> fs' = fs
         | FlagUsage _ \<Rightarrow> status \<in> {0, 2} \<and> fs' = fs
         | LogError _ _ \<Rightarrow> status = 1
         | LogInfo _ _ \<Rightarrow> status = 0))"

lemma usage_honest: "honest fs (usageAndExit message, fs)"
  by (simp add: honest_def usageAndExit_def)

text \<open>A database that is there, well-formed and with given values\<close>

definition holds :: "(string, sqliteDB) gomap \<Rightarrow> string \<Rightarrow> (key \<rightharpoonup> bytes) \<Rightarrow> bool" where
  "holds fs p values = (case map_of fs p of None \<Rightarrow> False | Some db \<Rightarrow> db_ok db \<and> dbContent db = values)"

lemma backup_run_keeps:
  assumes "holds fs p values"
  shows "honest fs (runBackup w args fs) \<and> holds (snd (runBackup w args fs)) p values"
proof (cases "exitOnError ''backup''
    (parseFlags [(''db'', ''data/cache-engine.db''), (''out'', ''backups/cache-engine-'' @ adStamp w @ ''.sqlite3'')] args)")
  case (Inl e)
  with assms show ?thesis by (auto simp: runBackup_def exitOnError_def honest_def split: flagsEnd.splits)
next
  case (Inr flag)
  obtain err fs2 where bk: "BackupSQLiteDatabase (adMkdir w) (adOpen w) (adBackupErr w) (adJunk w) (flag ''db'') (flag ''out'') fs = (err, fs2)"
    by fastforce
  obtain db where "map_of fs p = Some db" "db_ok db" "dbContent db = values" using assms by (auto simp: holds_def split: option.splits)
  with backup_keeps [OF bk] Inr bk show ?thesis by (auto simp: runBackup_def honest_def holds_def split: option.splits)
qed

lemma migrate_run_keeps:
  assumes "holds fs p values"
  shows "honest fs (runMigrate w args fs) \<and> holds (snd (runMigrate w args fs)) p values"
proof (cases "exitOnError ''migrate'' (parseFlags [(''db'', ''data/cache-engine.db'')] args)")
  case (Inl e)
  with assms show ?thesis by (auto simp: runMigrate_def exitOnError_def honest_def split: flagsEnd.splits)
next
  case (Inr flag)
  obtain err new where mg: "MigrateSQLiteDatabase (adMkdir w) (adOpen w) (adInit w) (adClose w) (adNow w) (flag ''db'')
      (databaseAt fs (flag ''db'')) = (err, new)" by fastforce
  obtain db where db: "map_of fs p = Some db" "db_ok db" "dbContent db = values" using assms by (auto simp: holds_def split: option.splits)
  have "p = flag ''db'' \<Longrightarrow> db_ok new \<and> dbContent new = values" using Migrate_keeps [OF _ mg] db by simp
  with Inr mg db show ?thesis
    by (auto simp: runMigrate_def honest_def holds_def Let_def map_of_update_upd split: option.splits if_splits)
qed



section \<open>A run\<close>

definition demoAdmin :: adminWorld where
  "demoAdmin = \<lparr>adStamp = ''20250101T000000Z'', adMkdir = None, adOpen = None, adBackupErr = None, adJunk = None,
     adInit = (\<lambda>_. None), adClose = None, adNow = 7\<rparr>"

definition demoDB :: sqliteDB where
  "demoDB = emptyDB\<lparr>dbMigrations := Some [(1, 3)], dbCache := Some [(''k'', \<lparr>crValue = [1, 2], crUpdatedAt = 5\<rparr>)]\<rparr>"

lemma demoDB_ok: "db_ok demoDB"
  by (simp add: db_ok_def demoDB_def)



end
