(* ===== verification/Spec2Isabelle.thy ===== *)
theory Spec2Isabelle
  imports LRU_Contract LFU_Contract ARC_Contract Sharded Write_Back Coherence Wheel_Goroutine Rate_Limiter Handlers Benchmark_Jobs Benchmark_Runner Observability Load_Test_Server Admin_Command
begin

text \<open>
  A verification development of the cache engine under src/cache-engine, a Go program: in-memory caches with the
  policies LRU, LFU and ARC, write policies over a backing store, coherence between nodes, an HTTP API with
  authentication, rate limits, metrics and event streams, benchmarks, and three commands.

  \<^bold>\<open>The program and its parts\<close>

  cmd/server/main.go reads the settings, opens the backing store, builds four caches and the coordinator of three
  coherent nodes and hands them to api/server.go, which wraps every route in its middleware. The
  handlers (api/handler.go) work on store entries: a cache, perhaps inside a write policy, with the
  latency and the counters around it. Benchmarks run in goroutines on caches of their own and leave jobs in a
  file. internal/ttl is a scheduler of expiries that no other package uses. cmd/loadtest is a client of the
  API, cmd/admin backs up and migrates the database.

  \<^bold>\<open>Conventions\<close>

  A struct is a \<open>record\<close>, an operation a function from its arguments and the state to its results and the
  state after it. A Go map is an association list (\<open>gomap\<close>), since snapshots and the visiting order depend on it. Pointers are
  addresses into a store of nodes (\<open>Linked_List\<close>, \<open>LRU\<close>, \<open>TTL_Wheel\<close>), channels are cells of a store
  (\<open>Event_Bus\<close>). Times and durations are integers in nanoseconds; where the code can overflow (counters, \<open>ttlMs\<close>, the
  settings in milliseconds, hashes) numbers are words or wrap explicitly. \<open>nil\<close> and absent values are \<open>None\<close>; an error is the left
  side of a sum; a panic is \<open>None\<close> of the result. An operation takes the readings of the clock that it makes as arguments.
  A mutex that is held for the whole operation makes it one step; where the code lets go of a lock in between, or
  works on atomics and channels, the model is a step relation or a schedule: \<open>Coherence\<close>, \<open>Write_Back\<close>,
  \<open>Wheel_Goroutine\<close>, \<open>Benchmark_Jobs\<close>, \<open>Benchmark_Runner\<close>, \<open>Load_Test\<close>.

  \<^bold>\<open>Theories and code\<close>

  \<^item> \<open>Go_Prelude\<close>: types, expiry tests, lemmas on lists and association lists. \<open>Go_Strings\<close>, \<open>Decimal\<close>,
    \<open>Base64\<close>: what the program uses of strings, strconv, fmt and encoding/base64.
  \<^item> \<open>Cache_Types\<close>: internal/cache/cache.go; the interface \<open>Cache\<close> as a table of methods. \<open>Cache_Stats\<close>: internal/stats.
  \<^item> \<open>Linked_List\<close> (list/list.go), \<open>LRU\<close> (lru/lru.go), \<open>LFU\<close> (lfu/lfu.go), \<open>ARC\<close> (arc/arc.go), \<open>Sharded\<close>
    (sharded/sharded.go), with \<open>Pointer_Chain\<close> and \<open>Key_Index\<close> for the invariants of linked nodes and of maps to nodes;
    \<open>LRU_Contract\<close>, \<open>LFU_Contract\<close>, \<open>ARC_Contract\<close>: the machines that the caches implement, and their traces.
  \<^item> \<open>Backing_Store\<close> (store/store.go, memory.go), \<open>SQLite_Store\<close> (sqlite.go), \<open>Codec\<close> (codec.go),
    \<open>Write_Policies\<close> (writethrough.go, writearound.go), \<open>Write_Back\<close> (writeback.go).
  \<^item> \<open>Event_Bus\<close> and \<open>Coherence\<close>: internal/coherence. \<open>TTL_Wheel\<close> and \<open>Wheel_Goroutine\<close>: internal/ttl/wheel.go.
  \<^item> \<open>Auth\<close> (api/config.go, auth.go, the checks of middleware.go), \<open>Rate_Limiter\<close> (rate_limiter.go and its middleware),
    \<open>Store_Factory\<close> (store_factory.go and the reconfiguration in handler.go), \<open>Handlers\<close> (handler.go, dto.go),
    \<open>Benchmark_Jobs\<close> (benchmark_jobs.go and the benchmark handlers), \<open>Observability\<close> (tracing.go, metrics.go, sse.go and the rest of
    middleware.go), \<open>API_Server\<close> (server.go: routes, middleware and \<open>ServeHTTP\<close>).
  \<^item> \<open>Workloads\<close> and \<open>Benchmark_Runner\<close>: internal/benchmark. \<open>Server_Startup\<close>: cmd/server/main.go.
    \<open>Load_Test\<close> and \<open>Load_Test_Server\<close>: cmd/loadtest/main.go, alone and against the server. \<open>Admin_Command\<close>: cmd/admin/main.go.

  Definitions have the names of the functions, with a prefix where several types have a method of that name (\<open>lru_Set\<close>, \<open>wt_Set\<close>,
  \<open>sqlite_Get\<close>, \<open>wh_Schedule\<close>); fields keep their names behind a prefix of the record.

  \<^bold>\<open>Interfaces\<close>

  \<^item> \<open>cache_contract\<close>, with \<open>bounded_cache\<close> and \<open>reporting_cache\<close>: what a cache promises of its live
    entries, its size and its eviction callback. Interpreted on the models of LRU, LFU and ARC, on the sharded cache and on
    the caches behind the API; \<open>cache_refines\<close> and \<open>cache_implements\<close> carry it from an abstract machine to
    the code's data structure.
  \<^item> \<open>node_list\<close>: the linked list as LFU and ARC use it. \<open>failing_store\<close> and \<open>reliable_store\<close>: a backing store
    that may answer with errors, and one that does not; on the memory store, the database and the server's choice of the two.
  \<^item> \<open>write_policy\<close> and \<open>write_back\<close>: a cache over a store; \<open>envelope_reader\<close>, \<open>claims_reader\<close>: what is assumed of
    the JSON decoder, with a decoder that satisfies it; \<open>copied_cache\<close>: moving the entries of one cache into another;
    \<open>limiter_contract\<close>: what the middleware needs of either limiter; \<open>timed_network\<close>: a network with a clock, as a waiting client sees it.

  \<^bold>\<open>What is shown\<close>

  \<^item> The caches: every run of operations answers as a small machine over lists does (LRU, LFU, ARC: refinements at the level of
    pointers, maps and lists), ARC's four lists keep their bounds, the 256 shards are independent caches.
  \<^item> The stores: with a store that answers, write-through over every policy, and write-back over LRU and LFU without
    expiries, are durable maps, write-through over the database also across restarts; a flush leaves the store as the cache; migrations can be interrupted at any call and repeated; the administration command keeps all
    data and its backups can be served; values and expiries survive their encoding.
  \<^item> The nodes: no interleaving of the coherence protocol panics, it comes to rest, and at rest, when no event was dropped, a hit on any node
    is the last write of the key by any node. The wheel: no interleaving loses a wake-up, and due keys are expired.
  \<^item> The server: a request that lacks the credentials gets the same answer whatever the application holds and does not change it, no request
    makes the server panic, every traced request is counted and logged, or counted as a recovered panic, log lines and metrics cannot be forged; limits bound the requests of a
    client that cannot choose its address, and do not bound one that can, like the load test; answers fit the
    types of api/dto.go, and what is put is what is read.
  \<^item> Benchmarks stop, stay within their limits, give sound figures, and their finished jobs survive a crash; a waiting
    client learns the outcome, or gives up, in bounded time.

  Each property stands behind a paragraph with its number; the theorem after it with the suffix \<open>_witness\<close> applies it
  to a concrete run.

  \<^bold>\<open>Bounds and fuel\<close>

  Loops are structural or proved to terminate by a measure (the heap of the wheel, the firing of its timer, the padding of
  encoders). Walks along linked nodes (\<open>walkNodes\<close>) are partial functions, \<open>None\<close> when the loop would not end; the invariants
  show that they end. The one loop with fuel is \<open>awaitBenchmark\<close>: its fuel is one poll more than there are half seconds in the benchmark's duration
  and 20 seconds, and \<open>await_benchmark_ends\<close> shows that it never runs out on a network whose requests fail after
  the deadline. The runs of the workers of benchmarks and of the load test follow a finite schedule; \<open>workers_stop\<close> says from which
  length on every schedule has stopped them.

  \<^bold>\<open>Not modelled\<close>

  Sockets and connections of net/http, its time-outs, and the signals in cmd/server/main.go; the matching of patterns
  in chi (the matched route is a parameter); JSON and SQL as syntax (decoded bodies and the effect of each statement are modelled, the decoder's
  and the driver's failures are parameters); HMAC, random numbers and the zipf generator of math/rand (parameters); the
  text of log lines apart from the request log; \<open>Flush\<close>, \<open>Hijack\<close> and \<open>Unwrap\<close> of the response writer; rounding to
  \<open>float64\<close> where a rate is only printed; the memory model of Go beyond mutexes, atomics and channels. The web client is another program in
  another language.
\<close>

end
